(* ===== verification/Hurd_Prelude.thy ===== *)
theory Hurd_Prelude
  imports Main "HOL-Library.Word"
begin

text \<open>
  Shared vocabulary of the development: the error codes of the modelled
  sources, the outcome of memory allocation, the C library operations on arrays
  (\<^verbatim>\<open>memmove\<close>, \<^verbatim>\<open>memset\<close>, \<^verbatim>\<open>memcpy\<close>) over lists of cells, 32 bit unsigned
  counters, and the generic list lemmas the component theories use.
\<close>

unbundle bit_operations_syntax

section \<open>Types\<close>

type_synonym u8 = "8 word"
type_synonym u16 = "16 word"
type_synonym u32 = "32 word"
type_synonym u64 = "64 word"

text \<open>The name of a Mach port; 0 is \<^verbatim>\<open>MACH_PORT_NULL\<close>.\<close>

type_synonym mach_port = nat

text \<open>
  \<^verbatim>\<open>error_t\<close>: \<open>Success\<close> is the value 0 the sources return when an operation
  succeeds, every other constructor is the errno of that name.
\<close>

datatype error_t =
    Success
  | ENOMEM | EINVAL | EPERM | EACCES | EBADF | EAGAIN | EDEADLK | EINTR
  | EOPNOTSUPP | EPIPE | ENOBUFS | EWOULDBLOCK | ETIMEDOUT | EBUSY | ESRCH | ECHILD

text \<open>
  Memory allocation is decided by the environment. An allocation oracle lists
  the outcomes of the allocations still to come: \<open>None\<close> is a failure, \<open>Some j\<close>
  a success whose fresh cells hold the indeterminate value \<open>j\<close>. Allocations
  past the end of the list succeed.
\<close>

type_synonym allocs = "u32 option list"

definition alloc :: "allocs \<Rightarrow> u32 option \<times> allocs" where
  "alloc orc = (case orc of [] \<Rightarrow> (Some 0, []) | r # orc' \<Rightarrow> (r, orc'))"

text \<open>Unsigned 32 bit arithmetic on counters kept as natural numbers.\<close>

definition u32_wrap :: "nat \<Rightarrow> nat" where
  "u32_wrap n = n mod 2 ^ 32"

section \<open>Array operations of the C library\<close>

definition memmove :: "'a list \<Rightarrow> nat \<Rightarrow> nat \<Rightarrow> nat \<Rightarrow> 'a list" where
  "memmove a dst src n = take dst a @ take n (drop src a) @ drop (dst + n) a"

definition memset :: "'a list \<Rightarrow> nat \<Rightarrow> 'a \<Rightarrow> nat \<Rightarrow> 'a list" where
  "memset a off c n = take off a @ replicate n c @ drop (off + n) a"

definition memcpy :: "'a list \<Rightarrow> nat \<Rightarrow> 'a list \<Rightarrow> nat \<Rightarrow> 'a list" where
  "memcpy a off src n = take off a @ take n src @ drop (off + n) a"

section \<open>Shared lemmas\<close>

named_theorems loop_defs \<open>defining equations of loops, unfolded one step at a time\<close>

lemma u32_wrap_small [simp]: "n < 2 ^ 32 \<Longrightarrow> u32_wrap n = n"
  by (simp add: u32_wrap_def)

lemma length_memmove [simp]:
  "dst + n \<le> length a \<Longrightarrow> src + n \<le> length a \<Longrightarrow> length (memmove a dst src n) = length a"
  by (simp add: memmove_def)

lemma length_memset [simp]: "off + n \<le> length a \<Longrightarrow> length (memset a off c n) = length a"
  by (simp add: memset_def)

lemma length_memcpy [simp]:
  "off + n \<le> length a \<Longrightarrow> n \<le> length src \<Longrightarrow> length (memcpy a off src n) = length a"
  by (simp add: memcpy_def)

lemma take_list_update_ge [simp]: "n \<le> i \<Longrightarrow> take n (xs[i := x]) = take n xs"
  by (rule nth_equalityI) auto

lemma take_Suc_nth: "i < length xs \<Longrightarrow> take (Suc i) xs = take i xs @ [xs ! i]"
  by (rule take_Suc_conv_app_nth)

lemma take_Suc_list_update:
  "i < length xs \<Longrightarrow> take (Suc i) (xs[i := x]) = take i xs @ [x]"
  by (simp add: take_Suc_conv_app_nth)

lemma filter_notin_set_append:
  "filter (\<lambda>x. x \<notin> A) (xs @ ys) = filter (\<lambda>x. x \<notin> A) xs @ filter (\<lambda>x. x \<notin> A) ys"
  by simp

lemma set_drop_mono: "i \<le> j \<Longrightarrow> set (drop j xs) \<subseteq> set (drop i xs)"
  by (rule set_drop_subset_set_drop)

lemma length_filter_list_update:
  "i < length xs \<Longrightarrow> length (filter P (xs[i := y])) + (if P (xs ! i) then 1 else 0) =
     length (filter P xs) + (if P y then 1 else 0)"
proof (induction xs arbitrary: i)
  case (Cons x xs)
  then show ?case by (cases i) auto
qed simp

lemma length_filter_all: "(\<forall>i < length xs. P (xs ! i)) \<Longrightarrow> length (filter P xs) = length xs"
  by (metis filter_True in_set_conv_nth)

lemma length_filter_some: "i < length xs \<Longrightarrow> P (xs ! i) \<Longrightarrow> 0 < length (filter P xs)"
  by (metis filter_empty_conv length_greater_0_conv nth_mem)

lemma and_pow2_minus_1:
  "k < 32 \<Longrightarrow> (of_nat x :: u32) AND (of_nat (2 ^ k) - 1) = of_nat (x mod 2 ^ k)"
proof -
  have "(of_nat x :: u32) AND (of_nat (2 ^ k) - 1) = take_bit k (of_nat x)"
    by (simp add: mask_eq_exp_minus_1 [symmetric] take_bit_eq_mask)
  also have "\<dots> = of_nat (take_bit k x)"
    by (simp add: take_bit_of_nat)
  finally show ?thesis by (simp add: take_bit_eq_mod)
qed

lemma unat_of_nat_u32: "x < 2 ^ 32 \<Longrightarrow> unat (of_nat x :: u32) = x"
  by (simp add: unat_of_nat take_bit_eq_mod)

lemma cyclic_offset:
  fixes h i n :: nat
  assumes "h < n" and "i < n"
  obtains d where "d < n" and "i = (h + d) mod n"
proof
  show "(i + n - h) mod n < n" using assms by simp
  show "i = (h + (i + n - h) mod n) mod n" using assms by (simp add: mod_add_right_eq)
qed

end
