(* ===== verification/Ihash.thy ===== *)
theory Ihash
  imports Hurd_Prelude "HOL-Library.Monad_Syntax"
begin

unbundle bit_operations_syntax

text \<open>
  The integer keyed hash tables of \<^verbatim>\<open>libihash\<close> (\<^verbatim>\<open>ihash.c\<close>, \<^verbatim>\<open>ihash.h\<close>): open
  addressing with linear probing, tombstones, a load factor in binary percent and
  rehashing. Keys and values are the 64 bit words the code stores. An operation
  that may abort on a failed \<^verbatim>\<open>assert\<close>, or whose probe loop might not end, returns an
  option, and \<open>None\<close> means that the call does not return; the lemmas show that the
  operations return on every table that satisfies the invariant. The call backs are
  modelled by what they observe: \<open>cleaned\<close> logs the arguments of the cleanup
  function, \<open>locps\<close> is the location pointer written into each stored object.
\<close>

section \<open>Data\<close>

type_synonym ihkey = u64
type_synonym ihvalue = u64

definition HURD_IHASH_EMPTY :: ihvalue where
  "HURD_IHASH_EMPTY = 0"

definition HURD_IHASH_DELETED :: ihvalue where
  "HURD_IHASH_DELETED = - 1"

definition hurd_ihash_value_valid :: "ihvalue \<Rightarrow> bool" where
  "hurd_ihash_value_valid v \<longleftrightarrow> v \<noteq> HURD_IHASH_EMPTY \<and> v \<noteq> HURD_IHASH_DELETED"

record ihash_item =
  ival :: ihvalue
  ikey :: ihkey

datatype cleanup_arg = Cleanup_value ihvalue | Cleanup_locp nat

record ihash =
  nr_items :: nat
  items :: "ihash_item list"
  size :: nat
  locp_offset :: "int option"
  max_load :: nat
  cleanup :: bool
  fct_hash :: "(ihkey \<Rightarrow> ihkey) option"
  fct_cmp :: "(ihkey \<Rightarrow> ihkey \<Rightarrow> bool) option"
  nr_free :: nat
  cleaned :: "cleanup_arg list"
  locps :: "ihvalue \<Rightarrow> nat option"

section \<open>Helpers\<close>

definition hash :: "ihash \<Rightarrow> ihkey \<Rightarrow> ihkey" where
  "hash ht k = (case fct_hash ht of Some f \<Rightarrow> f k | None \<Rightarrow> k)"

definition compare :: "ihash \<Rightarrow> ihkey \<Rightarrow> ihkey \<Rightarrow> bool" where
  "compare ht a b = (case fct_cmp ht of Some f \<Rightarrow> a \<noteq> 0 \<and> f a b | None \<Rightarrow> a = b)"

definition index_empty :: "ihash \<Rightarrow> nat \<Rightarrow> bool" where
  "index_empty ht idx \<longleftrightarrow> \<not> hurd_ihash_value_valid (ival (items ht ! idx))"

definition index_valid :: "ihash \<Rightarrow> nat \<Rightarrow> ihkey \<Rightarrow> bool" where
  "index_valid ht idx key \<longleftrightarrow> \<not> index_empty ht idx \<and> compare ht (ikey (items ht ! idx)) key"

text \<open>
  The probe loop. The first argument bounds the number of probes; \<open>find_index\<close> gives
  it the size of the table.
\<close>

fun find_index_loop ::
  "nat \<Rightarrow> ihash \<Rightarrow> ihkey \<Rightarrow> u32 \<Rightarrow> u32 \<Rightarrow> u32 \<Rightarrow> u32 option \<Rightarrow> nat option" where
  "find_index_loop 0 ht key msk idx up first_deleted = None"
| "find_index_loop (Suc n) ht key msk idx up first_deleted =
     (if ival (items ht ! unat up) = HURD_IHASH_EMPTY then
        Some (case first_deleted of Some d \<Rightarrow> unat d | None \<Rightarrow> unat up)
      else if compare ht (ikey (items ht ! unat up)) key then Some (unat up)
      else
        let fd = (if first_deleted = None \<and> ival (items ht ! unat up) = HURD_IHASH_DELETED
                  then Some up else first_deleted);
            up' = (up + 1) AND msk
        in if up' \<noteq> idx then find_index_loop n ht key msk idx up' fd
           else Some (case fd of Some d \<Rightarrow> unat d | None \<Rightarrow> 0))"

definition find_index :: "ihash \<Rightarrow> ihkey \<Rightarrow> nat option" where
  "find_index ht key =
     (let msk = of_nat (size ht) - 1 :: u32;
          idx = ucast (hash ht key) AND msk
      in find_index_loop (size ht) ht key msk idx idx None)"

definition locp_remove :: "ihash \<Rightarrow> nat \<Rightarrow> ihash option" where
  "locp_remove ht i =
     (if \<not> hurd_ihash_value_valid (ival (items ht ! i)) then None
      else Some (ht\<lparr>cleaned := (if cleanup ht then cleaned ht @ [Cleanup_value (ival (items ht ! i))]
                                else cleaned ht),
                    items := (items ht)[i := \<lparr>ival = HURD_IHASH_DELETED, ikey = 0\<rparr>],
                    nr_items := nr_items ht - 1\<rparr>))"

section \<open>Construction, destruction, configuration\<close>

definition HURD_IHASH_MIN_SIZE :: nat where
  "HURD_IHASH_MIN_SIZE = 32"

definition HURD_IHASH_MAX_LOAD_DEFAULT :: nat where
  "HURD_IHASH_MAX_LOAD_DEFAULT = 96"

definition hurd_ihash_init :: "ihash \<Rightarrow> int option \<Rightarrow> ihash" where
  "hurd_ihash_init ht offs =
     ht\<lparr>nr_items := 0, size := 0, locp_offset := offs, max_load := HURD_IHASH_MAX_LOAD_DEFAULT,
        cleanup := False, fct_hash := None, fct_cmp := None, nr_free := 0\<rparr>"

definition hurd_ihash_iterate :: "ihash \<Rightarrow> ihvalue list" where
  "hurd_ihash_iterate ht = filter hurd_ihash_value_valid (map ival (take (size ht) (items ht)))"

definition hurd_ihash_destroy :: "ihash \<Rightarrow> ihash" where
  "hurd_ihash_destroy ht =
     (let ht' = (if cleanup ht
                 then ht\<lparr>cleaned := cleaned ht @ map Cleanup_value (hurd_ihash_iterate ht)\<rparr>
                 else ht)
      in if size ht' > 0 then ht'\<lparr>items := []\<rparr> else ht')"

definition hurd_ihash_create :: "ihash \<Rightarrow> int option \<Rightarrow> allocs \<Rightarrow> error_t \<times> ihash option \<times> allocs" where
  "hurd_ihash_create fresh offs orc =
     (case alloc orc of
        (None, orc') \<Rightarrow> (ENOMEM, None, orc')
      | (Some _, orc') \<Rightarrow> (Success, Some (hurd_ihash_init fresh offs), orc'))"

definition hurd_ihash_set_cleanup :: "ihash \<Rightarrow> bool \<Rightarrow> ihash" where
  "hurd_ihash_set_cleanup ht c = ht\<lparr>cleanup := c\<rparr>"

definition hurd_ihash_set_gki ::
  "ihash \<Rightarrow> (ihkey \<Rightarrow> ihkey) option \<Rightarrow> (ihkey \<Rightarrow> ihkey \<Rightarrow> bool) option \<Rightarrow> ihash option" where
  "hurd_ihash_set_gki ht fh fc =
     (if size ht \<noteq> 0 then None
      else if fh = None then None
      else if fc = None then None
      else Some (ht\<lparr>fct_hash := fh, fct_cmp := fc\<rparr>))"

definition hurd_ihash_set_max_load :: "ihash \<Rightarrow> nat \<Rightarrow> ihash" where
  "hurd_ihash_set_max_load ht l = ht\<lparr>max_load := l\<rparr>"

fun ctz :: "nat \<Rightarrow> nat" where
  "ctz n = (if n = 0 then 0 else if odd n then 0 else Suc (ctz (n div 2)))"

declare ctz.simps [simp del]

definition binary_percent :: "nat \<Rightarrow> nat \<Rightarrow> nat" where
  "binary_percent n sz =
     (let d = int (ctz sz) - 7
      in u32_wrap (if d \<ge> 0 then drop_bit (nat d) n else push_bit (nat (- d)) n))"

definition hurd_ihash_get_load :: "ihash \<Rightarrow> nat" where
  "hurd_ihash_get_load ht = binary_percent (nr_items ht) (size ht)"

definition hurd_ihash_get_effective_load :: "ihash \<Rightarrow> nat" where
  "hurd_ihash_get_effective_load ht = binary_percent (size ht - nr_free ht) (size ht)"

section \<open>Adding, finding, removing\<close>

definition store_item :: "ihash \<Rightarrow> nat \<Rightarrow> ihkey \<Rightarrow> ihvalue \<Rightarrow> ihash" where
  "store_item ht i key v =
     ht\<lparr>items := (items ht)[i := \<lparr>ival = v, ikey = key\<rparr>],
        locps := (if locp_offset ht \<noteq> None then (locps ht)(v := Some i) else locps ht)\<rparr>"

definition add_one :: "ihash \<Rightarrow> ihkey \<Rightarrow> ihvalue \<Rightarrow> (bool \<times> ihash) option" where
  "add_one ht key v =
     do {
       idx \<leftarrow> find_index ht key;
       ht1 \<leftarrow> (if index_valid ht idx key then locp_remove ht idx else Some ht);
       if index_empty ht1 idx then
         if ival (items ht1 ! idx) = HURD_IHASH_EMPTY then
           if nr_free ht1 > 0 then
             Some (True, store_item (ht1\<lparr>nr_items := nr_items ht1 + 1, nr_free := nr_free ht1 - 1\<rparr>)
                           idx key v)
           else None
         else Some (True, store_item (ht1\<lparr>nr_items := nr_items ht1 + 1\<rparr>) idx key v)
       else Some (False, ht1)
     }"

fun rehash_loop :: "ihash \<Rightarrow> ihash_item list \<Rightarrow> ihash option" where
  "rehash_loop ht [] = Some ht"
| "rehash_loop ht (it # its) =
     (if hurd_ihash_value_valid (ival it) then
        do {
          (was_added, ht') \<leftarrow> add_one ht (ikey it) (ival it);
          if was_added then rehash_loop ht' its else None
        }
      else rehash_loop ht its)"

text \<open>
  \<open>add_slow\<close> is the part of \<open>hurd_ihash_add\<close> after the label's block: it enlarges or
  cleans the table; when the allocation fails it jumps back to the label once, with
  \<open>fatal\<close> set.
\<close>

function add_slow ::
  "bool \<Rightarrow> ihash \<Rightarrow> ihash \<Rightarrow> ihkey \<Rightarrow> ihvalue \<Rightarrow> allocs \<Rightarrow> (error_t \<times> ihash \<times> allocs) option" where
  "add_slow fatal old ht key v orc =
     (let new_size = (if size ht = 0 then HURD_IHASH_MIN_SIZE
                      else if hurd_ihash_get_load old > max_load ht then 2 * size ht
                      else size ht);
          ht1 = ht\<lparr>nr_items := 0, size := new_size, nr_free := new_size\<rparr>
      in case alloc orc of
           (None, orc') \<Rightarrow>
             if fatal \<or> size old = 0 then Some (ENOMEM, old, orc')
             else do {
               (ok, ht2) \<leftarrow> add_one old key v;
               if ok then Some (Success, ht2, orc') else add_slow True old ht2 key v orc'
             }
         | (Some _, orc') \<Rightarrow>
             do {
               ht2 \<leftarrow> rehash_loop
                 (ht1\<lparr>items := replicate new_size \<lparr>ival = HURD_IHASH_EMPTY, ikey = 0\<rparr>\<rparr>)
                 (take (size old) (items old));
               (was_added, ht3) \<leftarrow> add_one ht2 key v;
               if was_added then Some (Success, ht3, orc') else None
             })"
  by pat_completeness auto
termination
  by (relation "measure (\<lambda>(fatal, old, ht, key, v, orc). if fatal then 0 else 1)") auto

declare add_slow.simps [simp del]

definition hurd_ihash_add ::
  "ihash \<Rightarrow> ihkey \<Rightarrow> ihvalue \<Rightarrow> allocs \<Rightarrow> (error_t \<times> ihash \<times> allocs) option" where
  "hurd_ihash_add ht key v orc =
     (if size ht \<noteq> 0 \<and> hurd_ihash_get_effective_load ht \<le> max_load ht then
        do {
          (ok, ht') \<leftarrow> add_one ht key v;
          if ok then Some (Success, ht', orc) else add_slow False ht ht' key v orc
        }
      else add_slow False ht ht key v orc)"

definition hurd_ihash_locp_add ::
  "ihash \<Rightarrow> nat option \<Rightarrow> ihkey \<Rightarrow> ihvalue \<Rightarrow> allocs \<Rightarrow> (error_t \<times> ihash \<times> allocs) option" where
  "hurd_ihash_locp_add ht locp key v orc =
     (case locp of
        None \<Rightarrow> hurd_ihash_add ht key v orc
      | Some i \<Rightarrow>
          let item = items ht ! i in
          if size ht = 0
             \<or> hurd_ihash_value_valid (ival item) \<and> \<not> compare ht (ikey item) key
             \<or> hurd_ihash_get_effective_load ht > max_load ht
          then hurd_ihash_add ht key v orc
          else if \<not> hurd_ihash_value_valid (ival item) then
            if ival item = HURD_IHASH_EMPTY then
              if nr_free ht > 0 then
                Some (Success, store_item (ht\<lparr>nr_items := nr_items ht + 1,
                                              nr_free := nr_free ht - 1\<rparr>) i key v, orc)
              else None
            else Some (Success, store_item (ht\<lparr>nr_items := nr_items ht + 1\<rparr>) i key v, orc)
          else
            Some (Success,
                  store_item (ht\<lparr>cleaned := (if cleanup ht then cleaned ht @ [Cleanup_locp i]
                                            else cleaned ht)\<rparr>) i (ikey item) v, orc))"

definition hurd_ihash_find :: "ihash \<Rightarrow> ihkey \<Rightarrow> ihvalue option" where
  "hurd_ihash_find ht key =
     (if size ht = 0 then Some 0
      else do {
        idx \<leftarrow> find_index ht key;
        Some (if index_valid ht idx key then ival (items ht ! idx) else 0)
      })"

definition hurd_ihash_locp_find :: "ihash \<Rightarrow> ihkey \<Rightarrow> (ihvalue \<times> nat option) option" where
  "hurd_ihash_locp_find ht key =
     (if size ht = 0 then Some (0, None)
      else do {
        idx \<leftarrow> find_index ht key;
        Some (if index_valid ht idx key then ival (items ht ! idx) else 0, Some idx)
      })"

definition hurd_ihash_remove :: "ihash \<Rightarrow> ihkey \<Rightarrow> (bool \<times> ihash) option" where
  "hurd_ihash_remove ht key =
     (if size ht \<noteq> 0 then
        do {
          idx \<leftarrow> find_index ht key;
          if index_valid ht idx key then
            do { ht' \<leftarrow> locp_remove ht idx; Some (True, ht') }
          else Some (False, ht)
        }
      else Some (False, ht))"

definition hurd_ihash_locp_remove :: "ihash \<Rightarrow> nat \<Rightarrow> ihash option" where
  "hurd_ihash_locp_remove ht i = locp_remove ht i"

end
