(* ===== verification/Ihash_Correct.thy ===== *)
theory Ihash_Correct
  imports Ihash
begin

text \<open>
  Correctness of the hash tables of \<^verbatim>\<open>libihash\<close>: the table invariant, the meaning
  of a table as a partial map from keys to values, the probe loop, and that adding,
  finding and removing implement the operations of that map. The invariant holds
  for keys other than 0: a tombstone stores the key 0.
\<close>

section \<open>Invariant and abstraction\<close>

abbreviation occupied :: "ihash \<Rightarrow> nat \<Rightarrow> bool" where
  "occupied ht i \<equiv> hurd_ihash_value_valid (ival (items ht ! i))"

abbreviation vacant :: "ihash \<Rightarrow> nat \<Rightarrow> bool" where
  "vacant ht i \<equiv> ival (items ht ! i) = HURD_IHASH_EMPTY"

definition home :: "ihash \<Rightarrow> ihkey \<Rightarrow> nat" where
  "home ht k = unat (hash ht k) mod size ht"

text \<open>A slot is reachable for a key when the probe sequence gets there before an empty slot.\<close>

definition reach :: "ihash \<Rightarrow> ihkey \<Rightarrow> nat \<Rightarrow> bool" where
  "reach ht k i \<longleftrightarrow>
     (\<exists>d < size ht. i = (home ht k + d) mod size ht \<and>
        (\<forall>e < d. \<not> vacant ht ((home ht k + e) mod size ht)))"

text \<open>
  What the library expects of a pair of user supplied functions (generalized keys):
  the comparison is an equivalence on the non-null keys, and equal keys hash alike.
  Integer keys satisfy it.
\<close>

definition key_laws :: "ihash \<Rightarrow> bool" where
  "key_laws ht \<longleftrightarrow>
     (\<forall>a. a \<noteq> 0 \<longrightarrow> compare ht a a) \<and>
     (\<forall>a b. a \<noteq> 0 \<longrightarrow> b \<noteq> 0 \<longrightarrow> compare ht a b \<longrightarrow> compare ht b a) \<and>
     (\<forall>a b c. a \<noteq> 0 \<longrightarrow> b \<noteq> 0 \<longrightarrow> c \<noteq> 0 \<longrightarrow> compare ht a b \<longrightarrow> compare ht b c \<longrightarrow> compare ht a c) \<and>
     (\<forall>a b. a \<noteq> 0 \<longrightarrow> b \<noteq> 0 \<longrightarrow> compare ht a b \<longrightarrow> hash ht a = hash ht b)"

definition table_ok :: "ihash \<Rightarrow> bool" where
  "table_ok ht \<longleftrightarrow>
     (\<exists>k. 5 \<le> k \<and> k \<le> 31 \<and> size ht = 2 ^ k) \<and> length (items ht) = size ht \<and>
     nr_items ht = length (filter (\<lambda>it. hurd_ihash_value_valid (ival it)) (items ht)) \<and>
     nr_free ht = length (filter (\<lambda>it. ival it = HURD_IHASH_EMPTY) (items ht)) \<and>
     (\<forall>i < size ht. ikey (items ht ! i) = 0 \<longleftrightarrow> \<not> occupied ht i) \<and>
     (\<forall>i < size ht. occupied ht i \<longrightarrow> reach ht (ikey (items ht ! i)) i) \<and>
     (\<forall>i < size ht. \<forall>j < size ht. occupied ht i \<longrightarrow> occupied ht j \<longrightarrow>
        compare ht (ikey (items ht ! i)) (ikey (items ht ! j)) \<longrightarrow> i = j)"

definition ihash_inv :: "ihash \<Rightarrow> bool" where
  "ihash_inv ht \<longleftrightarrow>
     key_laws ht \<and> (if size ht = 0 then nr_items ht = 0 \<and> nr_free ht = 0 else table_ok ht)"

definition ihash_map :: "ihash \<Rightarrow> ihkey \<Rightarrow> ihvalue option" where
  "ihash_map ht k =
     map_option ival
       (List.find (\<lambda>it. hurd_ihash_value_valid (ival it) \<and> compare ht (ikey it) k)
          (take (size ht) (items ht)))"

definition holds_at :: "ihash \<Rightarrow> ihkey \<Rightarrow> nat \<Rightarrow> bool" where
  "holds_at ht k i \<longleftrightarrow> i < size ht \<and> occupied ht i \<and> compare ht (ikey (items ht ! i)) k"

section \<open>Basic facts\<close>

lemma key_laws_int [simp]: "fct_cmp ht = None \<Longrightarrow> key_laws ht"
  by (auto simp: key_laws_def compare_def)

lemma compare_tombstone [simp]: "k \<noteq> 0 \<Longrightarrow> \<not> compare ht 0 k"
  by (auto simp: compare_def split: option.splits)

lemma value_valid_simps [simp]:
  "\<not> hurd_ihash_value_valid HURD_IHASH_EMPTY" "\<not> hurd_ihash_value_valid HURD_IHASH_DELETED"
  "HURD_IHASH_DELETED \<noteq> HURD_IHASH_EMPTY"
  by (simp_all add: hurd_ihash_value_valid_def HURD_IHASH_EMPTY_def HURD_IHASH_DELETED_def)

lemma value_valid_nonempty: "hurd_ihash_value_valid v \<Longrightarrow> v \<noteq> HURD_IHASH_EMPTY"
  by auto

lemma value_invalid_cases:
  "\<not> hurd_ihash_value_valid v \<Longrightarrow> v \<noteq> HURD_IHASH_EMPTY \<Longrightarrow> v = HURD_IHASH_DELETED"
  by (simp add: hurd_ihash_value_valid_def)

lemma table_okD:
  assumes "table_ok ht"
  shows "length (items ht) = size ht" "0 < size ht" "size ht \<le> 2 ^ 31"
    "nr_items ht = length (filter (\<lambda>it. hurd_ihash_value_valid (ival it)) (items ht))"
    "nr_free ht = length (filter (\<lambda>it. ival it = HURD_IHASH_EMPTY) (items ht))"
    "\<And>i. i < size ht \<Longrightarrow> ikey (items ht ! i) = 0 \<longleftrightarrow> \<not> occupied ht i"
    "\<And>i. i < size ht \<Longrightarrow> occupied ht i \<Longrightarrow> reach ht (ikey (items ht ! i)) i"
    "\<And>i j. i < size ht \<Longrightarrow> j < size ht \<Longrightarrow> occupied ht i \<Longrightarrow> occupied ht j \<Longrightarrow>
       compare ht (ikey (items ht ! i)) (ikey (items ht ! j)) \<Longrightarrow> i = j"
proof -
  from assms obtain k where k: "k \<le> 31" "size ht = 2 ^ k" by (auto simp: table_ok_def)
  then show "0 < size ht" "size ht \<le> 2 ^ 31"
    using power_increasing [of k 31 "2 :: nat"] by simp_all
qed (use assms in \<open>auto simp: table_ok_def\<close>)

lemma key_lawsD:
  assumes "key_laws ht"
  shows "a \<noteq> 0 \<Longrightarrow> compare ht a a"
    and "a \<noteq> 0 \<Longrightarrow> b \<noteq> 0 \<Longrightarrow> compare ht a b \<Longrightarrow> compare ht b a"
    and "a \<noteq> 0 \<Longrightarrow> b \<noteq> 0 \<Longrightarrow> c \<noteq> 0 \<Longrightarrow> compare ht a b \<Longrightarrow> compare ht b c \<Longrightarrow> compare ht a c"
    and "a \<noteq> 0 \<Longrightarrow> b \<noteq> 0 \<Longrightarrow> compare ht a b \<Longrightarrow> hash ht a = hash ht b"
  using assms unfolding key_laws_def by blast+

lemma holds_at_unique:
  assumes "table_ok ht" "key_laws ht" "k \<noteq> 0" "holds_at ht k i" "holds_at ht k j"
  shows "i = j"
proof -
  let ?a = "ikey (items ht ! i)" and ?b = "ikey (items ht ! j)"
  have ij: "i < size ht" "j < size ht" "occupied ht i" "occupied ht j"
    "compare ht ?a k" "compare ht ?b k"
    using assms(4,5) by (simp_all add: holds_at_def)
  have nz: "?a \<noteq> 0" "?b \<noteq> 0"
    using ij table_okD(6) [OF assms(1)] by blast+
  have "compare ht k ?b" by (rule key_lawsD(2) [OF assms(2) nz(2) assms(3) ij(6)])
  with key_lawsD(3) [OF assms(2) nz(1) assms(3) nz(2) ij(5)] have "compare ht ?a ?b" .
  then show ?thesis using table_okD(8) [OF assms(1)] ij by blast
qed

lemma holds_at_reach:
  assumes "table_ok ht" "key_laws ht" "k \<noteq> 0" "holds_at ht k i"
  shows "reach ht k i"
proof -
  have "hash ht (ikey (items ht ! i)) = hash ht k"
    using assms(3,4) table_okD(6) [OF assms(1)] key_lawsD(4) [OF assms(2)]
    unfolding holds_at_def by blast
  then have "reach ht (ikey (items ht ! i)) i = reach ht k i"
    by (simp add: reach_def home_def)
  then show ?thesis using assms(4) table_okD(7) [OF assms(1)] unfolding holds_at_def by blast
qed

lemma ihash_map_holds:
  assumes "table_ok ht" "key_laws ht" "k \<noteq> 0" "holds_at ht k i"
  shows "ihash_map ht k = Some (ival (items ht ! i))"
proof -
  let ?P = "\<lambda>it. hurd_ihash_value_valid (ival it) \<and> compare ht (ikey it) k"
  have i: "i < length (items ht)" "?P (items ht ! i)"
    using assms(4) table_okD(1) [OF assms(1)] by (simp_all add: holds_at_def)
  then have "List.find ?P (items ht) \<noteq> None"
    by (metis find_None_iff nth_mem)
  then obtain it where it: "List.find ?P (items ht) = Some it" by blast
  then obtain j where j: "j < length (items ht)" "?P (items ht ! j)" "it = items ht ! j"
    by (auto simp: find_Some_iff)
  then have "holds_at ht k j" using table_okD(1) [OF assms(1)] by (simp add: holds_at_def)
  then have "j = i" using holds_at_unique [OF assms(1-3)] assms(4) by blast
  then show ?thesis using it j table_okD(1) [OF assms(1)] by (simp add: ihash_map_def)
qed

lemma ihash_map_absent:
  assumes "table_ok ht" "\<And>i. \<not> holds_at ht k i"
  shows "ihash_map ht k = None"
  using assms(2) table_okD(1) [OF assms(1)]
  by (auto simp: ihash_map_def find_None_iff in_set_conv_nth holds_at_def)

section \<open>The probe loop\<close>

lemma hash_index:
  assumes "k < 32" and "size ht = 2 ^ k"
  shows "ucast (hash ht key) AND (of_nat (size ht) - 1 :: u32) = of_nat (home ht key)"
proof -
  have "(ucast (hash ht key) :: u32) = of_nat (unat (hash ht key))"
    by transfer simp
  then show ?thesis unfolding home_def assms(2) by (simp only: and_pow2_minus_1 [OF assms(1)])
qed

lemma next_index:
  assumes "k < 32"
  shows "((of_nat (x mod 2 ^ k) :: u32) + 1) AND (of_nat (2 ^ k) - 1) = of_nat ((x + 1) mod 2 ^ k)"
proof -
  have "(of_nat (x mod 2 ^ k) :: u32) + 1 = of_nat (x mod 2 ^ k + 1)" by simp
  then show ?thesis using assms by (simp only: and_pow2_minus_1 mod_add_left_eq)
qed

text \<open>What \<open>find_index\<close> promises to its callers.\<close>

definition probe_result :: "ihash \<Rightarrow> ihkey \<Rightarrow> nat \<Rightarrow> bool" where
  "probe_result ht k r \<longleftrightarrow> r < size ht \<and>
     (holds_at ht k r \<or>
      (\<forall>i. \<not> holds_at ht k i) \<and>
      (\<not> occupied ht r \<and> reach ht k r \<or> (\<forall>i < size ht. occupied ht i) \<and> r = 0))"

abbreviation probe :: "ihash \<Rightarrow> ihkey \<Rightarrow> nat \<Rightarrow> nat" where
  "probe ht k d \<equiv> (home ht k + d) mod size ht"

lemma home_less: "table_ok ht \<Longrightarrow> home ht k < size ht"
  using table_okD(2) by (simp add: home_def)

lemma probe_wraps:
  assumes "table_ok ht" "d < size ht"
  shows "probe ht k (d + 1) = home ht k \<longleftrightarrow> d + 1 = size ht"
  using home_less [OF assms(1), of k] assms(2) by (auto simp: mod_if)

lemma absent_before_vacant:
  assumes "table_ok ht" "key_laws ht" "k \<noteq> 0"
    and "\<forall>d < e. \<not> compare ht (ikey (items ht ! probe ht k d)) k" and "vacant ht (probe ht k e)"
  shows "\<not> holds_at ht k i"
proof
  assume h: "holds_at ht k i"
  from holds_at_reach [OF assms(1-3) h] obtain d where
    d: "i = probe ht k d" "\<forall>e < d. \<not> vacant ht (probe ht k e)"
    by (auto simp: reach_def)
  have "\<not> e < d" using d(2) assms(5) by blast
  moreover have "d \<noteq> e" using h d(1) assms(5) by (auto simp: holds_at_def)
  ultimately show False using h d(1) assms(4) by (auto simp: holds_at_def)
qed

lemma absent_after_round:
  assumes "table_ok ht" and "\<forall>d < size ht. \<not> compare ht (ikey (items ht ! probe ht k d)) k"
  shows "\<not> holds_at ht k i"
proof
  assume h: "holds_at ht k i"
  then have "i < size ht" by (simp add: holds_at_def)
  with home_less [OF assms(1)] obtain d where "d < size ht" "i = probe ht k d"
    by (rule cyclic_offset)
  then show False using h assms(2) by (auto simp: holds_at_def)
qed

lemma full_after_round:
  assumes "table_ok ht" and "\<forall>d < size ht. occupied ht (probe ht k d)" and "i < size ht"
  shows "occupied ht i"
proof -
  from home_less [OF assms(1)] assms(3) obtain d where "d < size ht" "i = probe ht k d"
    by (rule cyclic_offset)
  then show ?thesis using assms(2) by blast
qed

text \<open>The state of the loop after \<open>e\<close> probes without a result.\<close>

definition probed :: "ihash \<Rightarrow> ihkey \<Rightarrow> nat \<Rightarrow> u32 option \<Rightarrow> bool" where
  "probed ht k e fd \<longleftrightarrow>
     (\<forall>d < e. \<not> vacant ht (probe ht k d) \<and> \<not> compare ht (ikey (items ht ! probe ht k d)) k) \<and>
     (case fd of
        None \<Rightarrow> \<forall>d < e. occupied ht (probe ht k d)
      | Some w \<Rightarrow> \<exists>d < e. unat w = probe ht k d \<and> \<not> occupied ht (probe ht k d))"

lemma probed_deleted_result:
  assumes "probed ht k e (Some w)" "e \<le> size ht" "table_ok ht" "\<And>i. \<not> holds_at ht k i"
  shows "probe_result ht k (unat w)"
proof -
  from assms(1) obtain d where d: "d < e" "unat w = probe ht k d" "\<not> occupied ht (probe ht k d)"
    "\<forall>d < e. \<not> vacant ht (probe ht k d)"
    by (auto simp: probed_def)
  then have "reach ht k (probe ht k d)"
    unfolding reach_def using assms(2) by (intro exI [of _ d]) auto
  then show ?thesis using d assms(3,4) table_okD(2) by (simp add: probe_result_def)
qed

lemma probed_vacant_result:
  assumes "probed ht k e fd" "e < size ht" "table_ok ht" "key_laws ht" "k \<noteq> 0"
    and v: "vacant ht (probe ht k e)"
  shows "probe_result ht k (case fd of Some d \<Rightarrow> unat d | None \<Rightarrow> probe ht k e)"
proof -
  have ab: "\<not> holds_at ht k i" for i
    using absent_before_vacant [OF assms(3-5) _ v] assms(1) by (auto simp: probed_def)
  show ?thesis
  proof (cases fd)
    case None
    have "reach ht k (probe ht k e)"
      unfolding reach_def using assms(1,2) by (intro exI [of _ e]) (auto simp: probed_def)
    then show ?thesis using None ab v table_okD(2) [OF assms(3)] by (simp add: probe_result_def)
  next
    case (Some w)
    then show ?thesis using probed_deleted_result [of ht k e w] assms(1-3) ab by simp
  qed
qed

lemma probed_round_result:
  assumes "probed ht k (size ht) fd" "table_ok ht"
  shows "probe_result ht k (case fd of Some d \<Rightarrow> unat d | None \<Rightarrow> 0)"
proof -
  have ab: "\<not> holds_at ht k i" for i
    using absent_after_round [OF assms(2)] assms(1) by (auto simp: probed_def)
  show ?thesis
  proof (cases fd)
    case None
    then have "\<forall>d < size ht. occupied ht (probe ht k d)" using assms(1) by (simp add: probed_def)
    then show ?thesis
      using None ab full_after_round [OF assms(2)] table_okD(2) [OF assms(2)]
      by (simp add: probe_result_def)
  next
    case (Some w)
    then show ?thesis using probed_deleted_result [of ht k "size ht" w] assms ab by simp
  qed
qed

lemma find_index_loop_ok:
  assumes T: "table_ok ht" "key_laws ht" "k \<noteq> 0" and sz: "b < 32" "size ht = 2 ^ b"
    and "probed ht k e fd" and "e < size ht" and "size ht - e \<le> n"
  shows "\<exists>r. find_index_loop n ht k (of_nat (size ht) - 1) (of_nat (home ht k))
               (of_nat (probe ht k e)) fd = Some r \<and> probe_result ht k r"
  using assms(6-)
proof (induction n arbitrary: e fd)
  case 0
  then show ?case by simp
next
  case (Suc n)
  let ?i = "probe ht k e" and ?up = "of_nat (probe ht k e) :: u32"
  have small: "size ht < 2 ^ 32" using table_okD(3) [OF T(1)] by simp
  have i: "?i < size ht" using table_okD(2) [OF T(1)] by simp
  then have up: "unat ?up = ?i" using small by (intro unat_of_nat_u32) linarith
  show ?case
  proof (cases "vacant ht ?i")
    case True
    then show ?thesis
      using probed_vacant_result [OF Suc.prems(1,2) T True] up by (auto split: option.splits)
  next
    case nonvac: False
    show ?thesis
    proof (cases "compare ht (ikey (items ht ! ?i)) k")
      case True
      then have "ikey (items ht ! ?i) \<noteq> 0" using T(3) by auto
      then have "holds_at ht k ?i"
        using True i table_okD(6) [OF T(1) i] by (simp add: holds_at_def)
      then show ?thesis using nonvac True up i by (simp add: probe_result_def)
    next
      case ncmp: False
      define fd' where "fd' = (if fd = None \<and> ival (items ht ! ?i) = HURD_IHASH_DELETED
                  then Some ?up else fd)"
      have nxt: "(?up + 1) AND (of_nat (size ht) - 1) = of_nat (probe ht k (e + 1))"
        unfolding sz(2) by (simp only: next_index [OF sz(1)] add.assoc)
      have pr: "probed ht k (e + 1) fd'"
        using Suc.prems(1) nonvac ncmp up value_invalid_cases [OF _ nonvac]
        by (auto simp: probed_def fd'_def less_Suc_eq split: option.splits)
      have wrap: "(of_nat (probe ht k (e + 1)) :: u32) = of_nat (home ht k) \<longleftrightarrow> e + 1 = size ht"
        using probe_wraps [OF T(1) Suc.prems(2), of k] home_less [OF T(1), of k] small
          unat_of_nat_u32 [of "probe ht k (e + 1)"] unat_of_nat_u32 [of "home ht k"]
          table_okD(2) [OF T(1)]
        by (metis less_trans mod_less_divisor)
      show ?thesis
      proof (cases "e + 1 = size ht")
        case True
        have "find_index_loop (Suc n) ht k (of_nat (size ht) - 1) (of_nat (home ht k)) ?up fd =
            Some (case fd' of Some d \<Rightarrow> unat d | None \<Rightarrow> 0)"
          using nonvac ncmp up nxt wrap True by (simp add: fd'_def Let_def)
        then show ?thesis using probed_round_result [of ht k fd'] pr True T(1) by simp
      next
        case False
        have "find_index_loop (Suc n) ht k (of_nat (size ht) - 1) (of_nat (home ht k)) ?up fd =
            find_index_loop n ht k (of_nat (size ht) - 1) (of_nat (home ht k))
              (of_nat (probe ht k (e + 1))) fd'"
          using nonvac ncmp up nxt wrap False by (simp add: fd'_def Let_def)
        then show ?thesis using Suc.IH [OF pr] Suc.prems False by simp
      qed
    qed
  qed
qed

lemma find_index_ok:
  assumes "table_ok ht" "key_laws ht" "k \<noteq> 0"
  obtains r where "find_index ht k = Some r" "probe_result ht k r"
proof -
  obtain b where b: "b < 32" "size ht = 2 ^ b"
    using assms(1) by (auto simp: table_ok_def)
  have "probe ht k 0 = home ht k" using home_less [OF assms(1)] by simp
  moreover have "probed ht k 0 None" by (simp add: probed_def)
  ultimately show thesis
    using find_index_loop_ok [OF assms b, of 0 None "size ht"] table_okD(2) [OF assms(1)] that
    by (auto simp: find_index_def Let_def hash_index [OF b])
qed

section \<open>Changing one slot\<close>

text \<open>The parts of a table that no insertion or removal touches.\<close>

definition same_config :: "ihash \<Rightarrow> ihash \<Rightarrow> bool" where
  "same_config ht' ht \<longleftrightarrow>
     fct_hash ht' = fct_hash ht \<and> fct_cmp ht' = fct_cmp ht \<and> max_load ht' = max_load ht \<and>
     cleanup ht' = cleanup ht \<and> locp_offset ht' = locp_offset ht"

lemma same_config_refl [simp]: "same_config ht ht"
  by (simp add: same_config_def)

lemma same_config_trans: "same_config c b \<Longrightarrow> same_config b a \<Longrightarrow> same_config c a"
  by (simp add: same_config_def)

lemma same_config_compare: "same_config ht' ht \<Longrightarrow> compare ht' = compare ht"
  by (simp add: same_config_def compare_def fun_eq_iff)

lemma same_config_hash: "same_config ht' ht \<Longrightarrow> hash ht' = hash ht"
  by (simp add: same_config_def hash_def fun_eq_iff)

lemma same_config_key_laws: "same_config ht' ht \<Longrightarrow> key_laws ht' = key_laws ht"
  by (simp add: key_laws_def same_config_compare same_config_hash)

lemma reach_mono:
  assumes "reach ht k i" "same_config ht' ht" "size ht' = size ht" "0 < size ht"
    and "\<And>j. j < size ht \<Longrightarrow> vacant ht' j \<Longrightarrow> vacant ht j"
  shows "reach ht' k i"
proof -
  have h: "home ht' k = home ht k"
    using assms(2,3) by (simp add: home_def same_config_hash)
  from assms(1) obtain d where d: "d < size ht" "i = probe ht k d"
    "\<forall>e < d. \<not> vacant ht (probe ht k e)"
    by (auto simp: reach_def)
  have "\<not> vacant ht' (probe ht k e)" if "e < d" for e
    using d(3) that assms(4,5) mod_less_divisor by blast
  then show ?thesis
    unfolding reach_def h assms(3) using d by blast
qed

lemma table_ok_update:
  assumes T: "table_ok ht" and r: "r < size ht"
    and cfg: "same_config ht' ht" "size ht' = size ht" "items ht' = (items ht)[r := it]"
    and it: "ival it \<noteq> HURD_IHASH_EMPTY" "ikey it = 0 \<longleftrightarrow> \<not> hurd_ihash_value_valid (ival it)"
    and cnt: "nr_items ht' + (if occupied ht r then 1 else 0) =
        nr_items ht + (if hurd_ihash_value_valid (ival it) then 1 else 0)"
      "nr_free ht' + (if vacant ht r then 1 else 0) = nr_free ht"
    and new: "hurd_ihash_value_valid (ival it) \<Longrightarrow> reach ht (ikey it) r"
      "\<And>i. hurd_ihash_value_valid (ival it) \<Longrightarrow> i < size ht \<Longrightarrow> i \<noteq> r \<Longrightarrow> occupied ht i \<Longrightarrow>
         \<not> compare ht (ikey (items ht ! i)) (ikey it) \<and> \<not> compare ht (ikey it) (ikey (items ht ! i))"
  shows "table_ok ht'"
proof -
  note D = table_okD [OF T]
  have len: "length (items ht) = size ht" by (rule D)
  have slot: "items ht' ! i = (if i = r then it else items ht ! i)" if "i < size ht" for i
    using that r len by (simp add: cfg)
  have vac: "vacant ht' j \<Longrightarrow> vacant ht j" if "j < size ht" for j
    using slot [OF that] it(1) by (auto split: if_splits)
  have rch: "reach ht' k i" if "reach ht k i" for k i
    using reach_mono [OF that cfg(1,2) D(2)] vac by blast
  have ni: "nr_items ht' = length (filter (\<lambda>it. hurd_ihash_value_valid (ival it)) (items ht'))"
    using length_filter_list_update [of r "items ht" "\<lambda>it. hurd_ihash_value_valid (ival it)" it]
      cnt(1) D(4) r len unfolding cfg by (simp split: if_splits)
  have nf: "nr_free ht' = length (filter (\<lambda>it. ival it = HURD_IHASH_EMPTY) (items ht'))"
    using length_filter_list_update [of r "items ht" "\<lambda>it. ival it = HURD_IHASH_EMPTY" it]
      cnt(2) D(5) r len it(1) unfolding cfg by (simp split: if_splits)
  have "\<exists>k. 5 \<le> k \<and> k \<le> 31 \<and> size ht' = 2 ^ k" "length (items ht') = size ht'"
    using T len by (auto simp: table_ok_def cfg)
  moreover have "ikey (items ht' ! i) = 0 \<longleftrightarrow> \<not> occupied ht' i" if "i < size ht'" for i
    using slot [of i] that it(2) D(6) by (simp add: cfg)
  moreover have "reach ht' (ikey (items ht' ! i)) i" if "i < size ht'" "occupied ht' i" for i
    using slot [of i] that new(1) D(7) rch by (auto simp: cfg split: if_splits)
  moreover have "i = j" if "i < size ht'" "j < size ht'" "occupied ht' i" "occupied ht' j"
      "compare ht' (ikey (items ht' ! i)) (ikey (items ht' ! j))" for i j
    using slot [of i] slot [of j] that new(2) D(8)
    by (auto simp: cfg(2) same_config_compare [OF cfg(1)] split: if_splits)
  ultimately show ?thesis using ni nf by (simp add: table_ok_def)
qed

lemma holds_at_update:
  assumes "length (items ht) = size ht" "r < size ht" "same_config ht' ht" "size ht' = size ht"
    "items ht' = (items ht)[r := it]"
  shows "holds_at ht' k i \<longleftrightarrow>
    (if i = r then hurd_ihash_value_valid (ival it) \<and> compare ht (ikey it) k else holds_at ht k i)"
  using assms by (auto simp: holds_at_def same_config_compare)

lemma ihash_map_cases:
  assumes "table_ok ht" "key_laws ht" "k \<noteq> 0"
  obtains (some) i where "holds_at ht k i" "ihash_map ht k = Some (ival (items ht ! i))"
  | (none) "\<And>i. \<not> holds_at ht k i" "ihash_map ht k = None"
  using assms ihash_map_holds ihash_map_absent by metis

lemma locp_remove_ok:
  assumes T: "table_ok ht" "key_laws ht" and r: "r < size ht" "occupied ht r"
  obtains ht' where "locp_remove ht r = Some ht'" "table_ok ht'" "same_config ht' ht"
    "size ht' = size ht" "items ht' = (items ht)[r := \<lparr>ival = HURD_IHASH_DELETED, ikey = 0\<rparr>]"
    "nr_items ht' = nr_items ht - 1" "nr_free ht' = nr_free ht"
    "cleaned ht' = cleaned ht @ (if cleanup ht then [Cleanup_value (ival (items ht ! r))] else [])"
    "locps ht' = locps ht"
    "\<And>k. k \<noteq> 0 \<Longrightarrow>
       ihash_map ht' k = (if compare ht (ikey (items ht ! r)) k then None else ihash_map ht k)"
proof -
  note D = table_okD [OF T(1)]
  define it where "it = \<lparr>ival = HURD_IHASH_DELETED, ikey = 0\<rparr>"
  define ht' where "ht' = ht\<lparr>cleaned := (if cleanup ht then cleaned ht @ [Cleanup_value (ival (items ht ! r))]
      else cleaned ht), items := (items ht)[r := it], nr_items := nr_items ht - 1\<rparr>"
  have eq: "locp_remove ht r = Some ht'" using r by (simp add: locp_remove_def ht'_def it_def)
  have cfg: "same_config ht' ht" "size ht' = size ht" "items ht' = (items ht)[r := it]"
    by (simp_all add: ht'_def same_config_def)
  have pos: "0 < nr_items ht"
    using D(1,4) r length_filter_some [of r "items ht" "\<lambda>it. hurd_ihash_value_valid (ival it)"] by simp
  have ok: "table_ok ht'"
    by (rule table_ok_update [OF T(1) r(1) cfg]) (use r pos in \<open>auto simp: it_def ht'_def value_valid_nonempty\<close>)
  have kl: "key_laws ht'" using T(2) cfg(1) by (simp add: same_config_key_laws)
  have map: "ihash_map ht' k = (if compare ht (ikey (items ht ! r)) k then None else ihash_map ht k)"
    if k: "k \<noteq> 0" for k
  proof -
    have h: "holds_at ht' k i \<longleftrightarrow> i \<noteq> r \<and> holds_at ht k i" for i
      using holds_at_update [OF D(1) r(1) cfg] by (simp add: it_def)
    show ?thesis
    proof (cases "compare ht (ikey (items ht ! r)) k")
      case True
      then have "holds_at ht k r" using r by (simp add: holds_at_def)
      then have "\<not> holds_at ht' k i" for i using h holds_at_unique [OF T k] by blast
      then show ?thesis using True ihash_map_absent [OF ok] by simp
    next
      case False
      then have "\<not> holds_at ht k r" by (simp add: holds_at_def)
      then have h': "holds_at ht' k i \<longleftrightarrow> holds_at ht k i" for i using h by blast
      from ok kl k show ?thesis
      proof (cases rule: ihash_map_cases)
        case (some i)
        then have "holds_at ht k i" "i \<noteq> r" using h by blast+
        then show ?thesis using some False ihash_map_holds [OF T k] cfg(3) by simp
      next
        case none
        then show ?thesis using False h' ihash_map_absent [OF T(1)] by simp
      qed
    qed
  qed
  have "nr_items ht' = nr_items ht - 1" "nr_free ht' = nr_free ht" "locps ht' = locps ht"
    "cleaned ht' = cleaned ht @ (if cleanup ht then [Cleanup_value (ival (items ht ! r))] else [])"
    by (simp_all add: ht'_def)
  with that [OF eq ok cfg(1,2) cfg(3) [unfolded it_def]] map show thesis by blast
qed

lemma store_item_ok:
  assumes T: "table_ok ht" "key_laws ht" and k: "key \<noteq> 0" "hurd_ihash_value_valid v"
    and r: "r < size ht" "\<not> occupied ht r" "reach ht key r" and ab: "\<And>i. \<not> holds_at ht key i"
    and ht': "ht' = store_item (ht\<lparr>nr_items := nr_items ht + 1,
      nr_free := (if vacant ht r then nr_free ht - 1 else nr_free ht)\<rparr>) r key v"
  shows "table_ok ht'" "same_config ht' ht" "size ht' = size ht" "nr_items ht' = nr_items ht + 1"
    "cleaned ht' = cleaned ht"
    "\<And>k. k \<noteq> 0 \<Longrightarrow> ihash_map ht' k = (if compare ht key k then Some v else ihash_map ht k)"
proof -
  note D = table_okD [OF T(1)]
  define it where "it = \<lparr>ival = v, ikey = key\<rparr>"
  show cfg: "same_config ht' ht" "size ht' = size ht" "nr_items ht' = nr_items ht + 1"
    "cleaned ht' = cleaned ht"
    by (simp_all add: ht' store_item_def same_config_def)
  have its: "items ht' = (items ht)[r := it]" by (simp add: ht' store_item_def it_def)
  have pos: "vacant ht r \<Longrightarrow> 0 < nr_free ht"
    using D(1,5) r length_filter_some [of r "items ht" "\<lambda>it. ival it = HURD_IHASH_EMPTY"] by simp
  have nocmp: "\<not> compare ht (ikey (items ht ! i)) key \<and> \<not> compare ht key (ikey (items ht ! i))"
    if "i < size ht" "occupied ht i" for i
  proof -
    have "ikey (items ht ! i) \<noteq> 0" using that D(6) by blast
    then show ?thesis using ab [of i] that key_lawsD(2) [OF T(2)] k(1) by (auto simp: holds_at_def)
  qed
  show ok: "table_ok ht'"
    by (rule table_ok_update [OF T(1) r(1) cfg(1,2) its])
      (use r k pos nocmp in \<open>auto simp: it_def ht' store_item_def value_valid_nonempty\<close>)
  have kl: "key_laws ht'" using T(2) cfg(1) by (simp add: same_config_key_laws)
  fix k' :: ihkey
  assume k': "k' \<noteq> 0"
  have h: "holds_at ht' k' i \<longleftrightarrow> (if i = r then compare ht key k' else holds_at ht k' i)" for i
    using holds_at_update [OF D(1) r(1) cfg(1,2) its] k(2) by (simp add: it_def)
  show "ihash_map ht' k' = (if compare ht key k' then Some v else ihash_map ht k')"
  proof (cases "compare ht key k'")
    case True
    then have "holds_at ht' k' r" using h by simp
    then show ?thesis
      using True ihash_map_holds [OF ok kl k'] r(1) D(1) its by (simp add: it_def)
  next
    case False
    have nr: "\<not> holds_at ht k' r" using r(2) by (simp add: holds_at_def)
    from ok kl k' show ?thesis
    proof (cases rule: ihash_map_cases)
      case (some i)
      then have "holds_at ht k' i" "i \<noteq> r" using h False by (auto split: if_splits)
      then show ?thesis using some False ihash_map_holds [OF T k'] its by simp
    next
      case none
      then have "\<not> holds_at ht k' i" for i using h nr by (metis False)
      then show ?thesis using none False ihash_map_absent [OF T(1)] by simp
    qed
  qed
qed

section \<open>Finding, removing, adding\<close>

lemma ihash_map_size0 [simp]: "size ht = 0 \<Longrightarrow> ihash_map ht k = None"
  by (simp add: ihash_map_def)

lemma probe_result_map:
  assumes "table_ok ht" "key_laws ht" "k \<noteq> 0" "probe_result ht k r"
  shows "ihash_map ht k = (if holds_at ht k r then Some (ival (items ht ! r)) else None)"
  using assms ihash_map_holds [OF assms(1-3)] ihash_map_absent [OF assms(1)]
  by (auto simp: probe_result_def)

lemma index_valid_holds: "r < size ht \<Longrightarrow> index_valid ht r k \<longleftrightarrow> holds_at ht k r"
  by (simp add: index_valid_def index_empty_def holds_at_def)

lemma hurd_ihash_find_ok:
  assumes "ihash_inv ht" "k \<noteq> 0"
  shows "hurd_ihash_find ht k = Some (case ihash_map ht k of Some v \<Rightarrow> v | None \<Rightarrow> 0)"
proof (cases "size ht = 0")
  case True
  then show ?thesis by (simp add: hurd_ihash_find_def)
next
  case False
  then have T: "table_ok ht" "key_laws ht" using assms(1) by (simp_all add: ihash_inv_def)
  from T assms(2) obtain r where "find_index ht k = Some r" "probe_result ht k r"
    by (rule find_index_ok)
  then show ?thesis
    using False probe_result_map [OF T assms(2)]
    by (simp add: hurd_ihash_find_def index_valid_holds probe_result_def)
qed

lemma hurd_ihash_remove_ok:
  assumes inv: "ihash_inv ht" "k \<noteq> 0"
  obtains ht' where "hurd_ihash_remove ht k = Some (ihash_map ht k \<noteq> None, ht')" "ihash_inv ht'"
    "same_config ht' ht" "size ht' = size ht"
    "cleaned ht' = cleaned ht @
       (case ihash_map ht k of Some v \<Rightarrow> if cleanup ht then [Cleanup_value v] else [] | None \<Rightarrow> [])"
    "\<And>k'. k' \<noteq> 0 \<Longrightarrow> ihash_map ht' k' = (if compare ht k k' then None else ihash_map ht k')"
proof (cases "size ht = 0")
  case True
  then show ?thesis using that [of ht] inv by (simp add: hurd_ihash_remove_def)
next
  case False
  then have T: "table_ok ht" "key_laws ht" using inv by (simp_all add: ihash_inv_def)
  from T inv(2) obtain r where r: "find_index ht k = Some r" "probe_result ht k r"
    by (rule find_index_ok)
  have rs: "r < size ht" using r(2) by (simp add: probe_result_def)
  show ?thesis
  proof (cases "holds_at ht k r")
    case False
    then have "ihash_map ht k = None" "\<And>k'. k' \<noteq> 0 \<Longrightarrow> compare ht k k' \<Longrightarrow> ihash_map ht k' = None"
    proof -
      have ab: "\<not> holds_at ht k i" for i using r(2) False by (simp add: probe_result_def)
      then show "ihash_map ht k = None" by (rule ihash_map_absent [OF T(1)])
      fix k' :: ihkey
      assume k': "k' \<noteq> 0" "compare ht k k'"
      have "\<not> holds_at ht k' i" for i
        using ab [of i] k' inv(2) key_lawsD(2,3) [OF T(2)] table_okD(6) [OF T(1), of i]
        unfolding holds_at_def by blast
      then show "ihash_map ht k' = None" by (rule ihash_map_absent [OF T(1)])
    qed
    then show ?thesis
      using that [of ht] r inv False index_valid_holds [OF rs] \<open>size ht \<noteq> 0\<close>
      by (simp add: hurd_ihash_remove_def)
  next
    case True
    then have occ: "occupied ht r" "compare ht (ikey (items ht ! r)) k"
      by (simp_all add: holds_at_def)
    have nz: "ikey (items ht ! r) \<noteq> 0" using table_okD(6) [OF T(1) rs] occ by blast
    have map: "ihash_map ht k = Some (ival (items ht ! r))" by (rule ihash_map_holds [OF T inv(2) True])
    from T rs occ(1) obtain ht' where ht': "locp_remove ht r = Some ht'" "table_ok ht'"
      "same_config ht' ht" "size ht' = size ht"
      "cleaned ht' = cleaned ht @ (if cleanup ht then [Cleanup_value (ival (items ht ! r))] else [])"
      "\<And>k'. k' \<noteq> 0 \<Longrightarrow>
         ihash_map ht' k' = (if compare ht (ikey (items ht ! r)) k' then None else ihash_map ht k')"
      by (rule locp_remove_ok) blast
    have "compare ht (ikey (items ht ! r)) k' \<longleftrightarrow> compare ht k k'" if "k' \<noteq> 0" for k'
      using key_lawsD(2,3) [OF T(2)] nz inv(2) that occ(2) by blast
    then show ?thesis
      using that [of ht'] ht' r map True index_valid_holds [OF rs] \<open>size ht \<noteq> 0\<close> T(2)
      by (simp add: hurd_ihash_remove_def ihash_inv_def same_config_key_laws)
  qed
qed

text \<open>The effect of a successful insertion, apart from the size of the table.\<close>

definition inserted :: "ihash \<Rightarrow> ihkey \<Rightarrow> ihvalue \<Rightarrow> ihash \<Rightarrow> bool" where
  "inserted ht key v ht' \<longleftrightarrow>
     same_config ht' ht \<and>
     (\<forall>k. k \<noteq> 0 \<longrightarrow> ihash_map ht' k = (if compare ht key k then Some v else ihash_map ht k)) \<and>
     nr_items ht' = nr_items ht + (if ihash_map ht key = None then 1 else 0) \<and>
     cleaned ht' = cleaned ht @
       (case ihash_map ht key of
          Some old \<Rightarrow> if cleanup ht then [Cleanup_value old] else [] | None \<Rightarrow> [])"

lemma nr_items_bound: "table_ok ht \<Longrightarrow> nr_items ht \<le> size ht"
  using table_okD(1,4) length_filter_le by metis

lemma nr_items_full:
  assumes "table_ok ht"
  shows "nr_items ht = size ht \<longleftrightarrow> (\<forall>i < size ht. occupied ht i)"
proof
  note D = table_okD(1,4) [OF assms]
  assume "nr_items ht = size ht"
  then have "length (filter (\<lambda>it. hurd_ihash_value_valid (ival it)) (items ht)) = length (items ht)"
    using D by simp
  then have "\<forall>it \<in> set (items ht). hurd_ihash_value_valid (ival it)"
    by (metis (no_types, lifting) length_filter_less nat_neq_iff)
  then show "\<forall>i < size ht. occupied ht i" using D by simp
qed (use table_okD(1,4) [OF assms] in \<open>simp add: length_filter_all\<close>)

lemma add_one_replace:
  assumes T: "table_ok ht" "key_laws ht" and k: "key \<noteq> 0" "hurd_ihash_value_valid v"
    and r: "find_index ht key = Some r" "holds_at ht key r"
  obtains ht' where "add_one ht key v = Some (True, ht')" "table_ok ht'" "size ht' = size ht"
    "inserted ht key v ht'"
proof -
  note D = table_okD [OF T(1)]
  have rs: "r < size ht" "occupied ht r" "compare ht (ikey (items ht ! r)) key"
    using r(2) by (simp_all add: holds_at_def)
  have map: "ihash_map ht key = Some (ival (items ht ! r))" by (rule ihash_map_holds [OF T k(1) r(2)])
  have nz: "ikey (items ht ! r) \<noteq> 0" using D(6) rs by blast
  have pos: "0 < nr_items ht"
    using D(1,4) rs length_filter_some [of r "items ht" "\<lambda>it. hurd_ihash_value_valid (ival it)"] by simp
  from T rs(1,2) obtain ht1 where h1: "locp_remove ht r = Some ht1" "table_ok ht1"
    "same_config ht1 ht" "size ht1 = size ht"
    "items ht1 = (items ht)[r := \<lparr>ival = HURD_IHASH_DELETED, ikey = 0\<rparr>]"
    "nr_items ht1 = nr_items ht - 1" "nr_free ht1 = nr_free ht"
    "cleaned ht1 = cleaned ht @ (if cleanup ht then [Cleanup_value (ival (items ht ! r))] else [])"
    "\<And>k'. k' \<noteq> 0 \<Longrightarrow>
       ihash_map ht1 k' = (if compare ht (ikey (items ht ! r)) k' then None else ihash_map ht k')"
    by (rule locp_remove_ok) blast
  have del: "ival (items ht1 ! r) = HURD_IHASH_DELETED" using h1(5) rs(1) D(1) by simp
  have kl: "key_laws ht1" using T(2) h1(3) by (simp add: same_config_key_laws)
  have ab: "\<not> holds_at ht1 key i" for i
    using ihash_map_holds [OF h1(2) kl k(1)] h1(9) [OF k(1)] rs(3) by fastforce
  have rch: "reach ht1 key r"
    using reach_mono [OF holds_at_reach [OF T k(1) r(2)] h1(3,4) D(2)] h1(5) D(1)
    by (metis del nth_list_update_neq value_valid_simps(3))
  define ht' where "ht' = store_item (ht1\<lparr>nr_items := nr_items ht1 + 1\<rparr>) r key v"
  have ht'2: "ht' = store_item (ht1\<lparr>nr_items := nr_items ht1 + 1,
      nr_free := (if vacant ht1 r then nr_free ht1 - 1 else nr_free ht1)\<rparr>) r key v"
    by (simp add: ht'_def del)
  have rs1: "r < size ht1" "\<not> occupied ht1 r" using rs(1) h1(4) del by simp_all
  note st = store_item_ok [OF h1(2) kl k rs1 rch ab ht'2]
  have "add_one ht key v = Some (True, ht')"
    using r rs h1(1) del by (simp add: add_one_def index_valid_holds index_empty_def ht'_def)
  moreover have "inserted ht key v ht'"
  proof -
    have cmp: "compare ht (ikey (items ht ! r)) k' \<longleftrightarrow> compare ht key k'" if "k' \<noteq> 0" for k'
      using key_lawsD(2,3) [OF T(2)] nz k(1) that rs(3) by blast
    have "ihash_map ht' k' = (if compare ht key k' then Some v else ihash_map ht k')" if "k' \<noteq> 0" for k'
      using st(6) [OF that] h1(9) [OF that] cmp [OF that] by (simp add: same_config_compare [OF h1(3)])
    then show ?thesis
      using st h1 map pos same_config_trans [OF st(2) h1(3)] by (simp add: inserted_def)
  qed
  ultimately show thesis using that st(1,3) h1(4) by simp
qed

lemma add_one_ok:
  assumes T: "table_ok ht" "key_laws ht" and k: "key \<noteq> 0" "hurd_ihash_value_valid v"
  obtains (added) ht' where "add_one ht key v = Some (True, ht')" "table_ok ht'" "size ht' = size ht"
      "inserted ht key v ht'"
  | (full) "add_one ht key v = Some (False, ht)" "ihash_map ht key = None" "nr_items ht = size ht"
proof -
  from T k(1) obtain r where r: "find_index ht key = Some r" "probe_result ht key r"
    by (rule find_index_ok)
  have rs: "r < size ht" using r(2) by (simp add: probe_result_def)
  show thesis
  proof (cases "holds_at ht key r")
    case True
    from T k r(1) True added show ?thesis by (rule add_one_replace)
  next
    case False
    then have ab: "\<not> holds_at ht key i" for i using r(2) by (simp add: probe_result_def)
    have map: "ihash_map ht key = None" by (rule ihash_map_absent [OF T(1) ab])
    show ?thesis
    proof (cases "occupied ht r")
      case True
      then have "nr_items ht = size ht"
        using r(2) False nr_items_full [OF T(1)] by (simp add: probe_result_def)
      moreover have "add_one ht key v = Some (False, ht)"
        using r True False rs by (simp add: add_one_def index_valid_holds index_empty_def)
      ultimately show ?thesis using map full by blast
    next
      case vac: False
      then have rch: "reach ht key r" using r(2) False rs by (auto simp: probe_result_def)
      define ht' where "ht' = store_item (ht\<lparr>nr_items := nr_items ht + 1,
        nr_free := (if vacant ht r then nr_free ht - 1 else nr_free ht)\<rparr>) r key v"
      note st = store_item_ok [OF T k rs vac rch ab ht'_def]
      have "vacant ht r \<Longrightarrow> 0 < nr_free ht"
        using table_okD(1,5) [OF T(1)] rs
          length_filter_some [of r "items ht" "\<lambda>it. ival it = HURD_IHASH_EMPTY"] by simp
      then have "add_one ht key v = Some (True, ht')"
        using r False vac rs by (simp add: add_one_def index_valid_holds index_empty_def ht'_def)
      moreover have "inserted ht key v ht'" using st map by (simp add: inserted_def)
      ultimately show ?thesis using added st by blast
    qed
  qed
qed

section \<open>The load factor\<close>

lemma ctz_power [simp]: "ctz (2 ^ k) = k"
  by (induction k) (simp_all add: ctz.simps [of "Suc 0"] ctz.simps [of "2 * _"])

lemma binary_percent_eq:
  assumes "n \<le> 2 ^ k"
  shows "binary_percent n (2 ^ k) = n * 128 div 2 ^ k"
proof -
  have le: "n * 128 div 2 ^ k \<le> 128"
    using assms div_le_mono [of "n * 128" "2 ^ k * 128" "2 ^ k"] by simp
  show ?thesis
  proof (cases "7 \<le> k")
    case True
    then have "(2 :: nat) ^ k = 2 ^ (7 + (k - 7))" by simp
    then have "(2 :: nat) ^ k = 128 * 2 ^ (k - 7)" unfolding power_add by simp
    then have "n * 128 div 2 ^ k = n div 2 ^ (k - 7)"
      by (simp add: mult.commute [of n])
    then show ?thesis using True le
      by (simp add: binary_percent_def Let_def drop_bit_eq_div nat_diff_distrib)
  next
    case False
    then have "(2 :: nat) ^ k * 2 ^ (7 - k) = 128"
      by (simp add: power_add [symmetric])
    then have "n * 128 = 2 ^ k * (n * 2 ^ (7 - k))" by (metis mult.left_commute)
    then have "n * 128 div 2 ^ k = n * 2 ^ (7 - k)"
      by (metis nonzero_mult_div_cancel_left power_not_zero zero_neq_numeral)
    then show ?thesis using False le
      by (simp add: binary_percent_def Let_def push_bit_eq_mult nat_diff_distrib)
  qed
qed

lemma get_load_eq:
  assumes "table_ok ht"
  shows "hurd_ihash_get_load ht = nr_items ht * 128 div size ht"
  using assms nr_items_bound [OF assms]
  by (auto simp: table_ok_def hurd_ihash_get_load_def binary_percent_eq)

lemma get_effective_load_eq:
  assumes "table_ok ht"
  shows "hurd_ihash_get_effective_load ht = (size ht - nr_free ht) * 128 div size ht"
proof -
  obtain k where "size ht = 2 ^ k" using assms by (auto simp: table_ok_def)
  then show ?thesis
    using binary_percent_eq [of "size ht - nr_free ht" k]
    by (simp add: hurd_ihash_get_effective_load_def)
qed

lemma load_below_full:
  assumes "table_ok ht" "hurd_ihash_get_load ht \<le> max_load ht" "max_load ht < 128"
  shows "nr_items ht < size ht"
proof (rule ccontr)
  assume "\<not> nr_items ht < size ht"
  then have "nr_items ht = size ht" using nr_items_bound [OF assms(1)] by simp
  then have "hurd_ihash_get_load ht = 128"
    using get_load_eq [OF assms(1)] table_okD(2) [OF assms(1)] by simp
  then show False using assms by simp
qed

section \<open>Rehashing\<close>

definition item_holds :: "ihash \<Rightarrow> ihkey \<Rightarrow> ihash_item \<Rightarrow> bool" where
  "item_holds ht k it \<longleftrightarrow> hurd_ihash_value_valid (ival it) \<and> compare ht (ikey it) k"

text \<open>The items of an old table: their keys are not 0 and pairwise different.\<close>

definition rehashable :: "ihash \<Rightarrow> ihash_item list \<Rightarrow> bool" where
  "rehashable ht its \<longleftrightarrow>
     (\<forall>it \<in> set its. hurd_ihash_value_valid (ival it) \<longrightarrow> ikey it \<noteq> 0) \<and>
     sorted_wrt (\<lambda>a b. hurd_ihash_value_valid (ival a) \<longrightarrow> hurd_ihash_value_valid (ival b) \<longrightarrow>
        \<not> compare ht (ikey a) (ikey b)) its"

lemma rehashable_Cons_find:
  assumes "rehashable ht (it # its)" "key_laws ht" "k \<noteq> 0" "item_holds ht k it"
  shows "List.find (item_holds ht k) its = None"
  unfolding find_None_iff
proof
  assume "\<exists>x. x \<in> set its \<and> item_holds ht k x"
  then obtain x where x: "x \<in> set its" "item_holds ht k x" by blast
  then have "ikey x \<noteq> 0" "ikey it \<noteq> 0" "\<not> compare ht (ikey it) (ikey x)"
    using assms(1,4) by (auto simp: rehashable_def item_holds_def)
  then show False
    using x assms(3,4) key_lawsD(2,3) [OF assms(2)] unfolding item_holds_def by blast
qed

lemma rehash_loop_ok:
  assumes "table_ok ht" "key_laws ht" "rehashable ht its"
    and "\<And>it. it \<in> set its \<Longrightarrow> hurd_ihash_value_valid (ival it) \<Longrightarrow> ihash_map ht (ikey it) = None"
    and "nr_items ht + length (filter (\<lambda>it. hurd_ihash_value_valid (ival it)) its) \<le> size ht"
  shows "\<exists>ht'. rehash_loop ht its = Some ht' \<and> table_ok ht' \<and> same_config ht' ht \<and>
    size ht' = size ht \<and> cleaned ht' = cleaned ht \<and>
    nr_items ht' = nr_items ht + length (filter (\<lambda>it. hurd_ihash_value_valid (ival it)) its) \<and>
    (\<forall>k. k \<noteq> 0 \<longrightarrow> ihash_map ht' k =
      (case List.find (item_holds ht k) its of Some it \<Rightarrow> Some (ival it) | None \<Rightarrow> ihash_map ht k))"
  using assms
proof (induction its arbitrary: ht)
  case Nil
  then show ?case by simp
next
  case (Cons it its)
  have rest: "rehashable ht its" using Cons.prems(3) by (simp add: rehashable_def)
  show ?case
  proof (cases "hurd_ihash_value_valid (ival it)")
    case False
    then show ?thesis
      using Cons.IH [OF Cons.prems(1,2) rest] Cons.prems(4,5) by (simp add: item_holds_def)
  next
    case True
    then have nz: "ikey it \<noteq> 0" using Cons.prems(3) by (simp add: rehashable_def)
    have none: "ihash_map ht (ikey it) = None" using Cons.prems(4) True by simp
    from Cons.prems(1,2) nz True show ?thesis
    proof (cases rule: add_one_ok)
      case full
      then show ?thesis using Cons.prems(5) True by simp
    next
      case (added ht1)
      have cfg: "same_config ht1 ht" "cleaned ht1 = cleaned ht" "nr_items ht1 = nr_items ht + 1"
        and map1: "\<And>k. k \<noteq> 0 \<Longrightarrow> ihash_map ht1 k =
          (if compare ht (ikey it) k then Some (ival it) else ihash_map ht k)"
        using added(4) none by (simp_all add: inserted_def)
      have ih: "item_holds ht1 = item_holds ht"
        using same_config_compare [OF cfg(1)] by (simp add: item_holds_def fun_eq_iff)
      have "key_laws ht1" "rehashable ht1 its"
        using Cons.prems(2) rest cfg(1)
        by (simp_all add: same_config_key_laws rehashable_def same_config_compare)
      moreover have "ihash_map ht1 (ikey x) = None"
        if "x \<in> set its" "hurd_ihash_value_valid (ival x)" for x
      proof -
        have "ikey x \<noteq> 0" "\<not> compare ht (ikey it) (ikey x)"
          using Cons.prems(3) that True by (auto simp: rehashable_def)
        then show ?thesis using map1 Cons.prems(4) that by simp
      qed
      moreover have "nr_items ht1 + length (filter (\<lambda>it. hurd_ihash_value_valid (ival it)) its)
          \<le> size ht1"
        using Cons.prems(5) True cfg(3) added(3) by simp
      ultimately obtain ht2 where h2: "rehash_loop ht1 its = Some ht2" "table_ok ht2"
        "same_config ht2 ht1" "size ht2 = size ht1" "cleaned ht2 = cleaned ht1"
        "nr_items ht2 = nr_items ht1 + length (filter (\<lambda>it. hurd_ihash_value_valid (ival it)) its)"
        "\<forall>k. k \<noteq> 0 \<longrightarrow> ihash_map ht2 k =
          (case List.find (item_holds ht k) its of Some it \<Rightarrow> Some (ival it) | None \<Rightarrow> ihash_map ht1 k)"
        using Cons.IH [OF added(2)] ih by metis
      have "ihash_map ht2 k = (case List.find (item_holds ht k) (it # its) of
          Some it \<Rightarrow> Some (ival it) | None \<Rightarrow> ihash_map ht k)" if k: "k \<noteq> 0" for k
        using h2(7) k map1 [OF k] True rehashable_Cons_find [OF Cons.prems(3,2) k]
        by (auto simp: item_holds_def split: option.splits)
      then show ?thesis
        using h2 added(1,3) True cfg same_config_trans [OF h2(3) cfg(1)] by simp
    qed
  qed
qed

lemma empty_table_ok:
  assumes "5 \<le> b" "b \<le> 31"
    and "ht' = ht\<lparr>nr_items := 0, size := 2 ^ b, nr_free := 2 ^ b,
      items := replicate (2 ^ b) \<lparr>ival = HURD_IHASH_EMPTY, ikey = 0\<rparr>\<rparr>"
  shows "table_ok ht'" "same_config ht' ht" "ihash_map ht' k = None"
  using assms by (auto simp: table_ok_def same_config_def ihash_map_def find_None_iff)

lemma table_rehashable:
  assumes "table_ok ht"
  shows "rehashable ht (items ht)"
  unfolding rehashable_def
proof (intro conjI ballI impI)
  note D = table_okD(1,6,8) [OF assms]
  fix it
  assume "it \<in> set (items ht)" "hurd_ihash_value_valid (ival it)"
  then show "ikey it \<noteq> 0" using D(1,2) by (auto simp: in_set_conv_nth)
next
  note D = table_okD(1,6,8) [OF assms]
  show "sorted_wrt (\<lambda>a b. hurd_ihash_value_valid (ival a) \<longrightarrow> hurd_ihash_value_valid (ival b) \<longrightarrow>
      \<not> compare ht (ikey a) (ikey b)) (items ht)"
    unfolding sorted_wrt_iff_nth_less D(1) using D(3) by (metis less_irrefl less_trans)
qed

section \<open>\<open>hurd_ihash_add\<close>\<close>

lemma ihash_map_find:
  "ihash_map ht k = (case List.find (item_holds ht k) (take (size ht) (items ht)) of
    Some it \<Rightarrow> Some (ival it) | None \<Rightarrow> None)"
  unfolding ihash_map_def item_holds_def [abs_def] by (simp split: option.splits)

definition grown_size :: "ihash \<Rightarrow> nat" where
  "grown_size ht = (if size ht = 0 then HURD_IHASH_MIN_SIZE
                    else if hurd_ihash_get_load ht > max_load ht then 2 * size ht else size ht)"

lemma grown_size_ok:
  assumes "ihash_inv ht" "max_load ht < 128" "size ht \<le> 2 ^ 30"
  obtains b where "5 \<le> b" "b \<le> 31" "grown_size ht = 2 ^ b" "nr_items ht < grown_size ht"
proof (cases "size ht = 0")
  case True
  then show ?thesis
    using that [of 5] assms(1) by (simp add: grown_size_def HURD_IHASH_MIN_SIZE_def ihash_inv_def)
next
  case False
  then have T: "table_ok ht" using assms(1) by (simp add: ihash_inv_def)
  obtain k where k: "5 \<le> k" "k \<le> 31" "size ht = 2 ^ k" using T by (auto simp: table_ok_def)
  show ?thesis
  proof (cases "hurd_ihash_get_load ht > max_load ht")
    case True
    have "k \<le> 30" using assms(3) k(3) by (metis one_less_numeral_iff power_le_imp_le_exp semiring_norm(76))
    moreover have "nr_items ht < 2 * 2 ^ k"
      using nr_items_bound [OF T] k(3) zero_less_power [of "2 :: nat" k] by linarith
    ultimately show ?thesis
      using that [of "Suc k"] k True by (simp add: grown_size_def)
  next
    case False
    then show ?thesis
      using that [of k] k load_below_full [OF T _ assms(2)] by (simp add: grown_size_def)
  qed
qed

lemma rehash_add_ok:
  assumes inv: "ihash_inv ht" and lim: "max_load ht < 128" "size ht \<le> 2 ^ 30"
    and k: "key \<noteq> 0" "hurd_ihash_value_valid v"
    and fresh: "fresh = ht\<lparr>nr_items := 0, size := grown_size ht, nr_free := grown_size ht,
      items := replicate (grown_size ht) \<lparr>ival = HURD_IHASH_EMPTY, ikey = 0\<rparr>\<rparr>"
  obtains ht2 ht3 where "rehash_loop fresh (take (size ht) (items ht)) = Some ht2"
    "add_one ht2 key v = Some (True, ht3)" "ihash_inv ht3" "size ht3 = grown_size ht"
    "inserted ht key v ht3"
proof -
  from inv lim obtain b where b: "5 \<le> b" "b \<le> 31" "grown_size ht = 2 ^ b" "nr_items ht < grown_size ht"
    by (rule grown_size_ok)
  note E = empty_table_ok [OF b(1,2) fresh [unfolded b(3)]]
  let ?its = "take (size ht) (items ht)"
  have T: "table_ok ht" if "size ht \<noteq> 0" using inv that by (simp add: ihash_inv_def)
  have kl: "key_laws ht" "key_laws fresh" using inv E(2) by (simp_all add: ihash_inv_def same_config_key_laws)
  have rh: "rehashable fresh ?its"
    using table_rehashable [OF T] table_okD(1) [OF T] same_config_compare [OF E(2)]
    by (cases "size ht = 0") (simp_all add: rehashable_def)
  have cnt: "length (filter (\<lambda>it. hurd_ihash_value_valid (ival it)) ?its) = nr_items ht"
    using inv table_okD(1,4) [OF T] by (cases "size ht = 0") (simp_all add: ihash_inv_def)
  have ih: "item_holds fresh = item_holds ht"
    using same_config_compare [OF E(2)] by (simp add: item_holds_def fun_eq_iff)
  have sz: "nr_items fresh = 0" "size fresh = grown_size ht" "cleaned fresh = cleaned ht"
    by (simp_all add: fresh)
  from rehash_loop_ok [OF E(1) kl(2) rh E(3)] obtain ht2 where h2:
    "rehash_loop fresh ?its = Some ht2" "table_ok ht2" "same_config ht2 fresh"
    "size ht2 = grown_size ht" "cleaned ht2 = cleaned ht" "nr_items ht2 = nr_items ht"
    and m2: "\<forall>k. k \<noteq> 0 \<longrightarrow> ihash_map ht2 k = (case List.find (item_holds ht k) ?its of
      Some it \<Rightarrow> Some (ival it) | None \<Rightarrow> None)"
    using cnt b(4) unfolding sz E(3) ih by auto
  have map: "ihash_map ht2 k = ihash_map ht k" if "k \<noteq> 0" for k
    using m2 that by (simp add: ihash_map_find [of ht])
  have cfg: "same_config ht2 ht" by (rule same_config_trans [OF h2(3) E(2)])
  have kl2: "key_laws ht2" using kl(1) cfg by (simp add: same_config_key_laws)
  from h2(2) kl2 k show thesis
  proof (cases rule: add_one_ok)
    case full
    then show ?thesis using h2(4,6) b(4) by simp
  next
    case (added ht3)
    have cl: "cleanup ht2 = cleanup ht" using cfg by (simp add: same_config_def)
    have c3: "same_config ht3 ht2" using added(4) by (simp add: inserted_def)
    have "inserted ht key v ht3"
      using added(4) h2 map k(1) same_config_trans [OF c3 cfg] same_config_compare [OF cfg] cl
      by (simp add: inserted_def cong: option.case_cong)
    moreover have "ihash_inv ht3"
      using added(2) kl2 c3 table_okD(2) [OF added(2)] by (simp add: ihash_inv_def same_config_key_laws)
    ultimately show ?thesis using that h2(1,4) added(1,3) by simp
  qed
qed

text \<open>
  Every call returns. It fails only when an allocation fails, and then the table is
  unchanged; otherwise the key is bound to the new value and nothing else changes.
\<close>

definition add_outcome ::
  "ihash \<Rightarrow> ihkey \<Rightarrow> ihvalue \<Rightarrow> (error_t \<times> ihash \<times> allocs) option \<Rightarrow> bool" where
  "add_outcome ht key v res \<longleftrightarrow>
     (\<exists>err ht' orc'. res = Some (err, ht', orc') \<and>
        (err = Success \<and> ihash_inv ht' \<and> inserted ht key v ht' \<and>
           size ht \<le> size ht' \<and> size ht' \<le> max HURD_IHASH_MIN_SIZE (2 * size ht) \<or>
         err = ENOMEM \<and> ht' = ht))"

lemma add_outcome_added:
  assumes "ihash_inv ht" "size ht \<noteq> 0" "table_ok ht'" "size ht' = size ht" "inserted ht key v ht'"
  shows "add_outcome ht key v (Some (Success, ht', orc'))"
proof -
  have "key_laws ht'"
    using assms(1,5) same_config_key_laws [of ht' ht] by (auto simp: ihash_inv_def inserted_def)
  then show ?thesis using assms by (simp add: add_outcome_def ihash_inv_def)
qed

lemma add_slow_alloc:
  "alloc orc = (Some j, orc') \<Longrightarrow> add_slow f ht ht key v orc =
     do {
       ht2 \<leftarrow> rehash_loop
         (ht\<lparr>nr_items := 0, size := grown_size ht, nr_free := grown_size ht,
             items := replicate (grown_size ht) \<lparr>ival = HURD_IHASH_EMPTY, ikey = 0\<rparr>\<rparr>)
         (take (size ht) (items ht));
       (was_added, ht3) \<leftarrow> add_one ht2 key v;
       if was_added then Some (Success, ht3, orc') else None
     }"
  by (subst add_slow.simps) (simp add: Let_def grown_size_def)

lemma add_slow_fatal:
  "alloc orc = (None, orc') \<Longrightarrow> fatal \<or> size ht = 0 \<Longrightarrow>
   add_slow fatal ht ht key v orc = Some (ENOMEM, ht, orc')"
  by (subst add_slow.simps) (simp add: Let_def)

lemma add_slow_retry:
  "alloc orc = (None, orc') \<Longrightarrow> size ht \<noteq> 0 \<Longrightarrow> add_one ht key v = Some (ok, ht2) \<Longrightarrow>
   add_slow False ht ht key v orc =
     (if ok then Some (Success, ht2, orc') else add_slow True ht ht2 key v orc')"
  by (subst add_slow.simps) (simp add: Let_def)

lemma add_slow_ok:
  assumes inv: "ihash_inv ht" and lim: "max_load ht < 128" "size ht \<le> 2 ^ 30"
    and k: "key \<noteq> 0" "hurd_ihash_value_valid v"
  shows "add_outcome ht key v (add_slow fatal ht ht key v orc)"
    and "fst (alloc orc) \<noteq> None \<Longrightarrow> \<exists>ht' orc'. add_slow fatal ht ht key v orc = Some (Success, ht', orc')"
proof -
  define fresh where "fresh = ht\<lparr>nr_items := 0, size := grown_size ht, nr_free := grown_size ht,
      items := replicate (grown_size ht) \<lparr>ival = HURD_IHASH_EMPTY, ikey = 0\<rparr>\<rparr>"
  from inv lim k fresh_def obtain ht2 ht3 where
    h2: "rehash_loop fresh (take (size ht) (items ht)) = Some ht2"
    and h3: "add_one ht2 key v = Some (True, ht3)" "ihash_inv ht3" "size ht3 = grown_size ht"
      "inserted ht key v ht3"
    by (rule rehash_add_ok)
  have ok: "add_slow f ht ht key v orc = Some (Success, ht3, orc')"
    if "alloc orc = (Some j, orc')" for f orc orc' j
    using h2 h3(1) by (simp add: add_slow_alloc [OF that] fresh_def)
  have good: "add_outcome ht key v (Some (Success, ht3, orc'))" for orc'
    using h3 by (auto simp: add_outcome_def grown_size_def)
  show "fst (alloc orc) \<noteq> None \<Longrightarrow> \<exists>ht' orc'. add_slow fatal ht ht key v orc = Some (Success, ht', orc')"
    using ok by (cases "alloc orc") auto
  have bad: "add_outcome ht key v (add_slow True ht ht key v orc)" for orc
  proof (cases "alloc orc")
    case (Pair a orc')
    then show ?thesis
      using ok good add_slow_fatal [of orc orc' True]
      by (cases a) (auto simp: add_outcome_def)
  qed
  show "add_outcome ht key v (add_slow fatal ht ht key v orc)"
  proof (cases "alloc orc")
    case (Pair a orc')
    show ?thesis
    proof (cases "fatal \<or> a \<noteq> None \<or> size ht = 0")
      case True
      then show ?thesis
        using Pair ok good bad add_slow_fatal [of orc orc' fatal ht key v]
        by (cases a; cases fatal) (auto simp: add_outcome_def)
    next
      case False
      then have al: "alloc orc = (None, orc')" "size ht \<noteq> 0" "fatal = False" using Pair by auto
      have T: "table_ok ht" "key_laws ht" using inv False by (simp_all add: ihash_inv_def)
      from T k show ?thesis
        by (cases rule: add_one_ok)
          (use al bad add_outcome_added [OF inv al(2)] in \<open>auto simp: add_slow_retry [OF al(1,2)]\<close>)
    qed
  qed
qed

lemma hurd_ihash_add_ok:
  assumes inv: "ihash_inv ht" and lim: "max_load ht < 128" "size ht \<le> 2 ^ 30"
    and k: "key \<noteq> 0" "hurd_ihash_value_valid v"
  shows "add_outcome ht key v (hurd_ihash_add ht key v orc)"
    and "fst (alloc orc) \<noteq> None \<Longrightarrow> \<exists>ht' orc'. hurd_ihash_add ht key v orc = Some (Success, ht', orc')"
proof -
  note slow = add_slow_ok [OF assms]
  have "add_outcome ht key v (hurd_ihash_add ht key v orc) \<and>
    (fst (alloc orc) \<noteq> None \<longrightarrow> (\<exists>ht' orc'. hurd_ihash_add ht key v orc = Some (Success, ht', orc')))"
  proof (cases "size ht \<noteq> 0 \<and> hurd_ihash_get_effective_load ht \<le> max_load ht")
    case False
    then have "hurd_ihash_add ht key v orc = add_slow False ht ht key v orc"
      unfolding hurd_ihash_add_def by (rule if_not_P)
    then show ?thesis using slow by simp
  next
    case True
    then have T: "table_ok ht" "key_laws ht" using inv by (simp_all add: ihash_inv_def)
    from T k show ?thesis
    proof (cases rule: add_one_ok)
      case (added ht')
      then show ?thesis
        using True add_outcome_added [OF inv _ added(2-4)] by (simp add: hurd_ihash_add_def)
    next
      case full
      then have "hurd_ihash_add ht key v orc = add_slow False ht ht key v orc"
        using True by (simp add: hurd_ihash_add_def)
      then show ?thesis using slow by simp
    qed
  qed
  then show "add_outcome ht key v (hurd_ihash_add ht key v orc)"
    and "fst (alloc orc) \<noteq> None \<Longrightarrow> \<exists>ht' orc'. hurd_ihash_add ht key v orc = Some (Success, ht', orc')"
    by blast+
qed

end
