(* ===== verification/Ihash_Props.thy ===== *)
theory Ihash_Props
  imports Ihash_Correct "HOL-Library.Code_Target_Nat"
begin

text \<open>
  The properties of the hash tables that their users rely on, stated over the
  operations of the library, the interface of a table with integer keys as a locale,
  and two cases in which the code departs from its documentation: the integer key 0,
  and a full table with a maximum load of 128 binary percent.
\<close>

section \<open>Insertion, lookup and removal\<close>

lemma find_after_insert:
  assumes "ihash_inv ht" "ihash_inv ht'" "inserted ht key v ht'" "k \<noteq> 0"
  shows "hurd_ihash_find ht' k = (if compare ht key k then Some v else hurd_ihash_find ht k)"
  using assms by (simp add: hurd_ihash_find_ok inserted_def)

text \<open>
  C1. Adding to a well formed table whose maximum load is below 128 binary percent
  always returns. If it reports success, the table is well formed again, a later
  \<open>hurd_ihash_find\<close> of any key equal to the added one returns the new value, and
  every other key finds what it found before, also when the table had to be
  enlarged or rehashed. If it fails, it reports ENOMEM, the allocation had failed,
  and the table is unchanged.
\<close>

theorem hurd_ihash_add_find:
  assumes "ihash_inv ht" and "max_load ht < 128" and "size ht \<le> 2 ^ 30"
    and "key \<noteq> 0" and "hurd_ihash_value_valid v"
  shows "\<exists>err ht' orc'. hurd_ihash_add ht key v orc = Some (err, ht', orc') \<and>
    (err = Success \<and> ihash_inv ht' \<and>
       (\<forall>k. k \<noteq> 0 \<longrightarrow>
          hurd_ihash_find ht' k = (if compare ht key k then Some v else hurd_ihash_find ht k)) \<or>
     err = ENOMEM \<and> ht' = ht \<and> fst (alloc orc) = None)"
proof -
  from hurd_ihash_add_ok(1) [OF assms, of orc] obtain err ht' orc' where
    res: "hurd_ihash_add ht key v orc = Some (err, ht', orc')"
    and cases: "err = Success \<and> ihash_inv ht' \<and> inserted ht key v ht' \<or> err = ENOMEM \<and> ht' = ht"
    by (auto simp: add_outcome_def)
  moreover have "err = ENOMEM \<Longrightarrow> fst (alloc orc) = None"
    using hurd_ihash_add_ok(2) [OF assms, of orc] res by (cases "fst (alloc orc)") auto
  ultimately show ?thesis
    using find_after_insert [OF assms(1)] by blast
qed

definition example_table :: ihash where
  "example_table = \<lparr>nr_items = 0, items = [], size = 0, locp_offset = None, max_load = 96,
     cleanup = True, fct_hash = None, fct_cmp = None, nr_free = 0, cleaned = [], locps = Map.empty\<rparr>"

lemma example_table_inv: "ihash_inv example_table"
  by (simp add: example_table_def ihash_inv_def)

theorem hurd_ihash_add_find_witness:
  "ihash_inv example_table \<and> max_load example_table < 128 \<and> size example_table \<le> 2 ^ 30 \<and>
   hurd_ihash_value_valid 4096 \<and>
   (\<exists>err ht' orc'. hurd_ihash_add example_table 5 4096 [] = Some (err, ht', orc') \<and>
      (err = Success \<and> ihash_inv ht' \<and>
         (\<forall>k. k \<noteq> 0 \<longrightarrow> hurd_ihash_find ht' k =
            (if compare example_table 5 k then Some 4096 else hurd_ihash_find example_table k)) \<or>
       err = ENOMEM \<and> ht' = example_table \<and> fst (alloc []) = None))"
proof -
  have h: "max_load example_table < 128" "size example_table \<le> 2 ^ 30" "(5 :: ihkey) \<noteq> 0"
    "hurd_ihash_value_valid 4096"
    by (simp_all add: example_table_def hurd_ihash_value_valid_def HURD_IHASH_EMPTY_def
        HURD_IHASH_DELETED_def)
  show ?thesis
    using example_table_inv h hurd_ihash_add_find [OF example_table_inv h] by blast
qed

text \<open>
  C2. Removing a key from a well formed table returns whether the key was present,
  keeps the table well formed, and afterwards that key (and every key equal to it)
  finds nothing, while all other keys find what they found before.
\<close>

theorem hurd_ihash_remove_find:
  assumes "ihash_inv ht" and "key \<noteq> 0"
  shows "\<exists>r ht'. hurd_ihash_remove ht key = Some (r, ht') \<and> ihash_inv ht' \<and>
    (r \<longleftrightarrow> hurd_ihash_find ht key \<noteq> Some 0) \<and>
    (\<forall>k. k \<noteq> 0 \<longrightarrow> hurd_ihash_find ht' k = (if compare ht key k then Some 0 else hurd_ihash_find ht k))"
proof -
  from assms obtain ht' where ht': "hurd_ihash_remove ht key = Some (ihash_map ht key \<noteq> None, ht')"
    "ihash_inv ht'"
    "\<And>k. k \<noteq> 0 \<Longrightarrow> ihash_map ht' k = (if compare ht key k then None else ihash_map ht k)"
    by (rule hurd_ihash_remove_ok) blast
  have "v \<noteq> 0" if "ihash_map ht key = Some v" for v
    using that by (auto simp: ihash_map_def find_Some_iff hurd_ihash_value_valid_def
        HURD_IHASH_EMPTY_def)
  then have "(ihash_map ht key \<noteq> None) \<longleftrightarrow> hurd_ihash_find ht key \<noteq> Some 0"
    using hurd_ihash_find_ok [OF assms] by (auto split: option.splits)
  then show ?thesis
    using ht' hurd_ihash_find_ok assms(1) by auto
qed

definition example_table2 :: ihash where
  "example_table2 = store_item
     (example_table\<lparr>size := 32, items := replicate 32 \<lparr>ival = 0, ikey = 0\<rparr>,
        nr_items := 1, nr_free := 31\<rparr>) 5 5 4096"

lemma example_table2_inv: "ihash_inv example_table2"
proof -
  define e where "e = example_table\<lparr>nr_items := 0, size := 2 ^ 5, nr_free := 2 ^ 5,
      items := replicate (2 ^ 5) \<lparr>ival = HURD_IHASH_EMPTY, ikey = 0\<rparr>\<rparr>"
  have E: "table_ok e" "key_laws e" "\<And>k. ihash_map e k = None" "size e = 32"
    using empty_table_ok [of 5 e example_table] by (simp_all add: e_def example_table_def)
  have ab: "\<not> holds_at e 5 i" for i
    using ihash_map_holds [OF E(1,2), of 5 i] E(3) by auto
  have rch: "reach e 5 5"
    unfolding reach_def by (rule exI [of _ 0]) (simp add: e_def example_table_def home_def hash_def)
  have r: "5 < size e" "\<not> occupied e 5" by (simp_all add: e_def example_table_def)
  have eq: "example_table2 = store_item (e\<lparr>nr_items := nr_items e + 1,
      nr_free := (if vacant e 5 then nr_free e - 1 else nr_free e)\<rparr>) 5 5 4096"
    by (simp add: example_table2_def e_def example_table_def HURD_IHASH_EMPTY_def)
  have v: "(5 :: ihkey) \<noteq> 0" "hurd_ihash_value_valid 4096"
    by (simp_all add: hurd_ihash_value_valid_def HURD_IHASH_EMPTY_def HURD_IHASH_DELETED_def)
  have "table_ok example_table2"
    by (rule store_item_ok(1) [OF E(1,2) v r rch ab eq])
  then show ?thesis by (simp add: ihash_inv_def example_table2_def example_table_def store_item_def)
qed

theorem hurd_ihash_remove_find_witness:
  "ihash_inv example_table2 \<and> (5 :: ihkey) \<noteq> 0 \<and>
   (\<exists>r ht'. hurd_ihash_remove example_table2 5 = Some (r, ht') \<and> ihash_inv ht' \<and>
    (r \<longleftrightarrow> hurd_ihash_find example_table2 5 \<noteq> Some 0) \<and>
    (\<forall>k. k \<noteq> 0 \<longrightarrow> hurd_ihash_find ht' k =
       (if compare example_table2 5 k then Some 0 else hurd_ihash_find example_table2 k)))"
proof -
  have nz: "(5 :: ihkey) \<noteq> 0" by simp
  show ?thesis using example_table2_inv nz hurd_ihash_remove_find [OF example_table2_inv nz] by blast
qed

text \<open>
  C3. A lookup in a well formed table always ends (the probe loop visits each slot
  at most once) and returns the value of the only occupied slot whose key equals the
  requested one, and NULL exactly when there is no such slot.
\<close>

theorem hurd_ihash_find_complete:
  assumes "ihash_inv ht" and "k \<noteq> 0"
  shows "\<exists>v. hurd_ihash_find ht k = Some v \<and>
    (v = 0 \<longleftrightarrow> (\<forall>i < size ht. \<not> index_valid ht i k)) \<and>
    (\<forall>i < size ht. index_valid ht i k \<longrightarrow> v = ival (items ht ! i))"
proof (cases "size ht = 0")
  case True
  then show ?thesis by (simp add: hurd_ihash_find_def)
next
  case False
  then have T: "table_ok ht" "key_laws ht" using assms(1) by (simp_all add: ihash_inv_def)
  from T assms(2) show ?thesis
  proof (cases rule: ihash_map_cases)
    case (some i)
    then have "hurd_ihash_find ht k = Some (ival (items ht ! i))" "ival (items ht ! i) \<noteq> 0" "i < size ht"
      using hurd_ihash_find_ok [OF assms]
      by (auto simp: holds_at_def hurd_ihash_value_valid_def HURD_IHASH_EMPTY_def)
    then show ?thesis using some holds_at_unique [OF T assms(2)] index_valid_holds by metis
  next
    case none
    then show ?thesis using hurd_ihash_find_ok [OF assms] index_valid_holds by auto
  qed
qed

theorem hurd_ihash_find_complete_witness:
  "ihash_inv example_table2 \<and> (7 :: ihkey) \<noteq> 0 \<and>
   (\<exists>v. hurd_ihash_find example_table2 7 = Some v \<and>
    (v = 0 \<longleftrightarrow> (\<forall>i < size example_table2. \<not> index_valid example_table2 i 7)) \<and>
    (\<forall>i < size example_table2. index_valid example_table2 i 7 \<longrightarrow>
       v = ival (items example_table2 ! i)))"
proof -
  have nz: "(7 :: ihkey) \<noteq> 0" by simp
  show ?thesis using example_table2_inv nz hurd_ihash_find_complete [OF example_table2_inv nz] by blast
qed

section \<open>A full table\<close>

lemma add_one_full_table:
  assumes "table_ok ht" "key_laws ht" "key \<noteq> 0" "hurd_ihash_value_valid v"
    and "ihash_map ht key = None" "nr_items ht = size ht"
  shows "add_one ht key v = Some (False, ht)"
  using assms(1-4)
proof (cases rule: add_one_ok)
  case (added ht')
  then have "nr_items ht' = nr_items ht + 1" using assms(5) by (simp add: inserted_def)
  then show ?thesis using nr_items_bound [OF added(2)] added(3) assms(6) by simp
qed

lemma find_null_map:
  assumes "ihash_inv ht" "k \<noteq> 0"
  shows "hurd_ihash_find ht k = Some 0 \<longleftrightarrow> ihash_map ht k = None"
proof -
  have "w \<noteq> 0" if "ihash_map ht k = Some w" for w
    using that by (auto simp: ihash_map_def find_Some_iff hurd_ihash_value_valid_def
        HURD_IHASH_EMPTY_def)
  then show ?thesis using hurd_ihash_find_ok [OF assms] by (auto split: option.splits)
qed

lemma rehash_full_table:
  assumes T: "table_ok ht" "key_laws ht" "nr_items ht = size ht"
  obtains ht2 where
    "rehash_loop (ht\<lparr>nr_items := 0, size := size ht, nr_free := size ht,
       items := replicate (size ht) \<lparr>ival = HURD_IHASH_EMPTY, ikey = 0\<rparr>\<rparr>) (items ht) = Some ht2"
    "table_ok ht2" "key_laws ht2" "nr_items ht2 = size ht2"
    "\<And>k. k \<noteq> 0 \<Longrightarrow> ihash_map ht2 k = ihash_map ht k"
proof -
  obtain b where b: "5 \<le> b" "b \<le> 31" "size ht = 2 ^ b" using T(1) by (auto simp: table_ok_def)
  define fresh where "fresh = ht\<lparr>nr_items := 0, size := 2 ^ b, nr_free := 2 ^ b,
      items := replicate (2 ^ b) \<lparr>ival = HURD_IHASH_EMPTY, ikey = 0\<rparr>\<rparr>"
  note E = empty_table_ok [OF b(1,2) fresh_def]
  have kl: "key_laws fresh" using T(2) E(2) by (simp add: same_config_key_laws)
  have rh: "rehashable fresh (items ht)"
    using table_rehashable [OF T(1)] same_config_compare [OF E(2)] by (simp add: rehashable_def)
  have ih: "item_holds fresh = item_holds ht"
    using same_config_compare [OF E(2)] by (simp add: item_holds_def fun_eq_iff)
  have fz: "nr_items fresh = 0" "size fresh = size ht" by (simp_all add: fresh_def b(3))
  from rehash_loop_ok [OF E(1) kl rh E(3)] obtain ht2 where h2:
    "rehash_loop fresh (items ht) = Some ht2" "table_ok ht2" "same_config ht2 fresh"
    "size ht2 = size ht" "nr_items ht2 = size ht"
    "\<forall>k. k \<noteq> 0 \<longrightarrow> ihash_map ht2 k =
       (case List.find (item_holds ht k) (items ht) of Some it \<Rightarrow> Some (ival it) | None \<Rightarrow> None)"
    using table_okD(4) [OF T(1)] T(3) unfolding fz E(3) ih by auto
  have "key_laws ht2" using kl h2(3) by (simp add: same_config_key_laws)
  moreover have "ihash_map ht2 k = ihash_map ht k" if "k \<noteq> 0" for k
    using h2(6) that table_okD(1) [OF T(1)] by (simp add: ihash_map_find [of ht])
  ultimately show thesis using that h2(1,2,4,5) by (simp add: fresh_def b(3))
qed

text \<open>
  The documentation offers a maximum load of 128 binary percent, at which the
  table is filled completely before it is enlarged. The code does not enlarge it: on
  a full table whose maximum load is 128 or more, adding a new key rehashes into a
  table of the same size, finds no room, and the assertion that the item was added
  fails, so the call does not return.
\<close>

theorem hurd_ihash_add_full_aborts:
  assumes "ihash_inv ht" and "size ht \<noteq> 0" and "128 \<le> max_load ht" and "nr_items ht = size ht"
    and "key \<noteq> 0" and "hurd_ihash_value_valid v" and "hurd_ihash_find ht key = Some 0"
    and "fst (alloc orc) \<noteq> None"
  shows "hurd_ihash_add ht key v orc = None"
proof -
  have T: "table_ok ht" "key_laws ht" using assms(1,2) by (simp_all add: ihash_inv_def)
  have gs: "grown_size ht = size ht"
    using get_load_eq [OF T(1)] assms(2-4) by (simp add: grown_size_def)
  have none: "ihash_map ht key = None" using assms(7) find_null_map [OF assms(1,5)] by simp
  have "size ht - nr_free ht \<le> size ht" by simp
  then have "hurd_ihash_get_effective_load ht \<le> 128"
    using get_effective_load_eq [OF T(1)]
      div_le_mono [of "(size ht - nr_free ht) * 128" "size ht * 128" "size ht"] assms(2) by simp
  then have el: "hurd_ihash_get_effective_load ht \<le> max_load ht" using assms(3) by simp
  obtain j orc' where al: "alloc orc = (Some j, orc')" using assms(8) by (cases "alloc orc") auto
  from T assms(4) obtain ht2 where h2:
    "rehash_loop (ht\<lparr>nr_items := 0, size := size ht, nr_free := size ht,
       items := replicate (size ht) \<lparr>ival = HURD_IHASH_EMPTY, ikey = 0\<rparr>\<rparr>) (items ht) = Some ht2"
    "table_ok ht2" "key_laws ht2" "nr_items ht2 = size ht2"
    "\<And>k. k \<noteq> 0 \<Longrightarrow> ihash_map ht2 k = ihash_map ht k"
    by (rule rehash_full_table) blast
  have "add_one ht key v = Some (False, ht)" "add_one ht2 key v = Some (False, ht2)"
    using add_one_full_table T h2 assms(4-6) none by simp_all
  then show ?thesis
    using el assms(2) h2(1) table_okD(1) [OF T(1)]
    by (simp add: hurd_ihash_add_def add_slow_alloc [OF al] gs)
qed

definition full_table :: ihash where
  "full_table = example_table\<lparr>size := 32, nr_items := 32, nr_free := 0, max_load := 128,
     items := map (\<lambda>i. \<lparr>ival = of_nat (4096 + i), ikey = of_nat (32 + i)\<rparr>) [0..<32]\<rparr>"

lemma unat_of_nat_u64: "x < 2 ^ 64 \<Longrightarrow> unat (of_nat x :: u64) = x"
  by (simp add: unat_of_nat take_bit_eq_mod)

lemma full_table_slot:
  assumes "i < 32"
  shows "items full_table ! i = \<lparr>ival = of_nat (4096 + i), ikey = of_nat (32 + i)\<rparr>"
    "hurd_ihash_value_valid (of_nat (4096 + i))" "(of_nat (32 + i) :: ihkey) \<noteq> 0"
    "unat (of_nat (32 + i) :: ihkey) = 32 + i"
proof -
  have u: "unat (of_nat (4096 + i) :: ihvalue) = 4096 + i" "unat (of_nat (32 + i) :: ihkey) = 32 + i"
    using assms by (intro unat_of_nat_u64; simp)+
  show "unat (of_nat (32 + i) :: ihkey) = 32 + i" by (rule u)
  show "(of_nat (32 + i) :: ihkey) \<noteq> 0" using u(2) by (metis add_is_0 unat_0 zero_neq_numeral)
  have "unat (- 1 :: ihvalue) = 2 ^ 64 - 1" by (simp add: unsigned_minus_1_eq_mask mask_eq_exp_minus_1)
  then have "unat (of_nat (4096 + i) :: ihvalue) \<noteq> unat (- 1 :: ihvalue)"
    unfolding u(1) using assms by simp
  then have "of_nat (4096 + i) \<noteq> (- 1 :: ihvalue)" by metis
  moreover have "of_nat (4096 + i) \<noteq> (0 :: ihvalue)"
    using u(1) by (metis add_is_0 unat_0 zero_neq_numeral)
  ultimately show "hurd_ihash_value_valid (of_nat (4096 + i))"
    unfolding hurd_ihash_value_valid_def HURD_IHASH_EMPTY_def HURD_IHASH_DELETED_def by simp
qed (use assms in \<open>simp add: full_table_def\<close>)

lemma full_table_config:
  "size full_table = 32" "nr_items full_table = 32" "nr_free full_table = 0"
  "max_load full_table = 128" "fct_cmp full_table = None" "fct_hash full_table = None"
  "length (items full_table) = 32"
  by (simp_all add: full_table_def example_table_def)

lemma full_table_occupied: "i < 32 \<Longrightarrow> occupied full_table i"
  by (simp only: full_table_slot ihash_item.simps)

lemma full_table_inv: "ihash_inv full_table"
proof -
  have all: "hurd_ihash_value_valid (ival it)" if "it \<in> set (items full_table)" for it
    using that full_table_occupied by (auto simp: in_set_conv_nth full_table_config)
  then have f: "filter (\<lambda>it. hurd_ihash_value_valid (ival it)) (items full_table) = items full_table"
    "filter (\<lambda>it. ival it = HURD_IHASH_EMPTY) (items full_table) = []"
    by (auto simp: filter_id_conv filter_empty_conv dest: value_valid_nonempty)
  have r: "reach full_table (ikey (items full_table ! i)) i" if "i < 32" for i
    unfolding reach_def home_def hash_def using that full_table_slot(1,4) [OF that]
    by (intro exI [of _ 0]) (simp add: full_table_config del: of_nat_add of_nat_numeral)
  have u: "i = j" if "i < 32" "j < 32" "ikey (items full_table ! i) = ikey (items full_table ! j)" for i j
    using full_table_slot(1,4) [OF that(1)] full_table_slot(1,4) [OF that(2)] that(3)
    by (metis add_left_cancel ihash_item.select_convs(2))
  have "table_ok full_table"
    unfolding table_ok_def full_table_config f compare_def
    using full_table_occupied full_table_slot r u
    by (auto simp: full_table_config intro: exI [of _ 5] simp del: of_nat_add of_nat_numeral)
  then show ?thesis by (simp add: ihash_inv_def full_table_config)
qed

lemma full_table_find_7: "hurd_ihash_find full_table 7 = Some 0"
proof -
  have "\<not> index_valid full_table i 7" if "i < 32" for i
    using full_table_slot(1,4) [OF that] that
    by (auto simp: index_valid_def compare_def full_table_config simp del: of_nat_add of_nat_numeral
        dest: arg_cong [of _ _ unat])
  then have "ihash_map full_table 7 = None"
    using full_table_inv full_table_config(1)
    by (auto simp: ihash_map_def find_None_iff index_valid_def index_empty_def in_set_conv_nth)
  then show ?thesis using find_null_map [OF full_table_inv, of 7] by simp
qed

theorem hurd_ihash_add_full_aborts_witness:
  "ihash_inv full_table \<and> size full_table = 32 \<and> nr_items full_table = 32 \<and>
   hurd_ihash_add full_table 7 4096 [] = None"
  using full_table_inv full_table_config full_table_find_7
    hurd_ihash_add_full_aborts [of full_table 7 4096 "[]"]
  by (simp add: alloc_def hurd_ihash_value_valid_def HURD_IHASH_EMPTY_def HURD_IHASH_DELETED_def)

section \<open>Locations\<close>

lemma replace_value_ok:
  assumes T: "table_ok ht" "key_laws ht" and k: "key \<noteq> 0" "hurd_ihash_value_valid v"
    and r: "holds_at ht key r"
    and ht': "ht' = store_item (ht\<lparr>cleaned := c\<rparr>) r (ikey (items ht ! r)) v"
  shows "table_ok ht'" "same_config ht' ht" "size ht' = size ht"
    "\<And>k. k \<noteq> 0 \<Longrightarrow> ihash_map ht' k = (if compare ht key k then Some v else ihash_map ht k)"
proof -
  note D = table_okD [OF T(1)]
  define it where "it = \<lparr>ival = v, ikey = ikey (items ht ! r)\<rparr>"
  have rs: "r < size ht" "occupied ht r" "compare ht (ikey (items ht ! r)) key"
    using r by (simp_all add: holds_at_def)
  have nz: "ikey (items ht ! r) \<noteq> 0" using D(6) rs by blast
  show cfg: "same_config ht' ht" "size ht' = size ht"
    by (simp_all add: ht' store_item_def same_config_def)
  have its: "items ht' = (items ht)[r := it]" "nr_items ht' = nr_items ht" "nr_free ht' = nr_free ht"
    by (simp_all add: ht' store_item_def it_def)
  have uniq: "\<not> compare ht (ikey (items ht ! i)) (ikey it) \<and> \<not> compare ht (ikey it) (ikey (items ht ! i))"
    if "i < size ht" "i \<noteq> r" "occupied ht i" for i
    using D(8) [of i r] D(8) [of r i] that rs(1,2) by (auto simp: it_def)
  have rch: "reach ht (ikey it) r" using D(7) [OF rs(1,2)] by (simp add: it_def)
  have itv: "hurd_ihash_value_valid (ival it)" "ikey it \<noteq> 0" using nz k(2) by (simp_all add: it_def)
  note upd = table_ok_update [OF T(1) rs(1) cfg its(1) value_valid_nonempty [OF itv(1)]]
  have cnt: "nr_items ht' + (if occupied ht r then 1 else 0) =
      nr_items ht + (if hurd_ihash_value_valid (ival it) then 1 else 0)"
    "nr_free ht' + (if vacant ht r then 1 else 0) = nr_free ht"
    using rs(2) itv(1) its value_valid_nonempty [OF rs(2)] by simp_all
  show ok: "table_ok ht'"
    by (rule upd [OF _ cnt rch uniq]) (use itv in \<open>simp_all\<close>)
  have kl: "key_laws ht'" using T(2) cfg(1) by (simp add: same_config_key_laws)
  fix k' :: ihkey
  assume k': "k' \<noteq> 0"
  have h: "holds_at ht' k' i \<longleftrightarrow> holds_at ht k' i" for i
    using holds_at_update [OF D(1) rs(1) cfg its(1), of k' i] rs k(2) by (auto simp: it_def holds_at_def)
  have cmp: "compare ht key k' \<longleftrightarrow> holds_at ht k' r"
    using key_lawsD(2,3) [OF T(2)] nz k(1) k' rs unfolding holds_at_def by blast
  from ok kl k' show "ihash_map ht' k' = (if compare ht key k' then Some v else ihash_map ht k')"
  proof (cases rule: ihash_map_cases)
    case (some i)
    then have i: "holds_at ht k' i" using h by simp
    show ?thesis
    proof (cases "i = r")
      case True
      then show ?thesis using some(2) cmp i rs(1) D(1) its(1) by (simp add: it_def)
    next
      case False
      then have "\<not> compare ht key k'" using cmp holds_at_unique [OF T k' i, of r] by blast
      then show ?thesis using some(2) ihash_map_holds [OF T k' i] its(1) False by simp
    qed
  next
    case none
    then show ?thesis using h cmp ihash_map_absent [OF T(1)] by simp
  qed
qed

text \<open>
  The location that \<open>hurd_ihash_locp_find\<close> stores can be used to add a value, as
  its documentation says: if the key was found, the value is replaced (and the
  cleanup function is called, though with the location instead of the value), and if
  it was not, the item is added. In both cases later lookups see exactly what
  \<open>hurd_ihash_add\<close> would have given them, also when the location was unusable and the
  call fell back to it; it fails only for lack of memory, with the table unchanged.
\<close>

theorem hurd_ihash_locp_find_add:
  assumes "ihash_inv ht" and "max_load ht < 128" and "size ht \<le> 2 ^ 30"
    and "key \<noteq> 0" and "hurd_ihash_value_valid v"
  shows "\<exists>old locp err ht' orc'.
    hurd_ihash_locp_find ht key = Some (old, locp) \<and> hurd_ihash_find ht key = Some old \<and>
    hurd_ihash_locp_add ht locp key v orc = Some (err, ht', orc') \<and>
    (err = Success \<and> ihash_inv ht' \<and>
       (\<forall>k. k \<noteq> 0 \<longrightarrow>
          hurd_ihash_find ht' k = (if compare ht key k then Some v else hurd_ihash_find ht k)) \<or>
     err = ENOMEM \<and> ht' = ht)"
proof -
  note fallback = hurd_ihash_add_ok(1) [OF assms, of orc]
  have fin: ?thesis if lf: "hurd_ihash_locp_find ht key = Some (old, locp)" "hurd_ihash_find ht key = Some old"
      and la: "hurd_ihash_locp_add ht locp key v orc = hurd_ihash_add ht key v orc" for old locp
    using lf la fallback find_after_insert [OF assms(1)] by (fastforce simp: add_outcome_def)
  show ?thesis
  proof (cases "size ht = 0")
    case True
    then show ?thesis
      using fin [of 0 None]
      by (simp add: hurd_ihash_locp_find_def hurd_ihash_find_def hurd_ihash_locp_add_def)
  next
    case sz: False
    then have T: "table_ok ht" "key_laws ht" using assms(1) by (simp_all add: ihash_inv_def)
    from T assms(4) obtain r where r: "find_index ht key = Some r" "probe_result ht key r"
      by (rule find_index_ok)
    have rs: "r < size ht" using r(2) by (simp add: probe_result_def)
    obtain old where lf: "hurd_ihash_locp_find ht key = Some (old, Some r)" "hurd_ihash_find ht key = Some old"
      using r sz by (simp add: hurd_ihash_locp_find_def hurd_ihash_find_def)
    have direct: ?thesis
      if "hurd_ihash_locp_add ht (Some r) key v orc = Some (Success, ht', orc)" "table_ok ht'"
        "same_config ht' ht" "size ht' = size ht"
        "\<And>k. k \<noteq> 0 \<Longrightarrow> ihash_map ht' k = (if compare ht key k then Some v else ihash_map ht k)" for ht'
    proof -
      have "ihash_inv ht'" using that(2-4) T(2) sz by (simp add: ihash_inv_def same_config_key_laws)
      then show ?thesis using that lf hurd_ihash_find_ok assms(1) by fastforce
    qed
    show ?thesis
    proof (cases "hurd_ihash_get_effective_load ht > max_load ht")
      case True
      then show ?thesis using fin [OF lf] by (simp add: hurd_ihash_locp_add_def Let_def)
    next
      case load: False
      show ?thesis
      proof (cases "occupied ht r")
        case occ: True
        show ?thesis
        proof (cases "compare ht (ikey (items ht ! r)) key")
          case True
          then have "holds_at ht key r" using occ rs by (simp add: holds_at_def)
          from direct [OF _ replace_value_ok [OF T assms(4,5) this refl]] show ?thesis
            using occ True load sz by (simp add: hurd_ihash_locp_add_def Let_def)
        next
          case False
          then show ?thesis using fin [OF lf] occ by (simp add: hurd_ihash_locp_add_def Let_def)
        qed
      next
        case free: False
        then have pr: "reach ht key r" "\<And>i. \<not> holds_at ht key i"
          using r(2) by (auto simp: probe_result_def holds_at_def nr_items_full [OF T(1)])
        have pos: "vacant ht r \<Longrightarrow> 0 < nr_free ht"
          using table_okD(1,5) [OF T(1)] rs
            length_filter_some [of r "items ht" "\<lambda>it. ival it = HURD_IHASH_EMPTY"] by simp
        note st = store_item_ok [OF T assms(4,5) rs free pr refl]
        show ?thesis
          by (rule direct [OF _ st(1,2,3,6)])
            (use free load sz pos in \<open>auto simp: hurd_ihash_locp_add_def Let_def\<close>)
      qed
    qed
  qed
qed

theorem hurd_ihash_locp_find_add_witness:
  "ihash_inv example_table2 \<and> max_load example_table2 < 128 \<and> size example_table2 \<le> 2 ^ 30 \<and>
   (\<exists>old locp err ht' orc'.
      hurd_ihash_locp_find example_table2 5 = Some (old, locp) \<and>
      hurd_ihash_find example_table2 5 = Some old \<and>
      hurd_ihash_locp_add example_table2 locp 5 8192 [] = Some (err, ht', orc') \<and>
      (err = Success \<and> ihash_inv ht' \<and>
         (\<forall>k. k \<noteq> 0 \<longrightarrow> hurd_ihash_find ht' k =
            (if compare example_table2 5 k then Some 8192 else hurd_ihash_find example_table2 k)) \<or>
       err = ENOMEM \<and> ht' = example_table2))"
proof -
  have h: "max_load example_table2 < 128" "size example_table2 \<le> 2 ^ 30" "(5 :: ihkey) \<noteq> 0"
    "hurd_ihash_value_valid 8192"
    by (simp_all add: example_table2_def example_table_def store_item_def hurd_ihash_value_valid_def
        HURD_IHASH_EMPTY_def HURD_IHASH_DELETED_def)
  show ?thesis
    using example_table2_inv h hurd_ihash_locp_find_add [OF example_table2_inv h] by blast
qed

section \<open>The key 0\<close>

lemma cyclic_inj:
  fixes h x y n :: nat
  assumes "(h + x) mod n = (h + y) mod n" "x < n" "y < n"
  shows "x = y"
proof -
  have "a = b" if "(h + a) mod n = (h + b) mod n" "a < n" "b < n" "b \<le> a" for a b
    using that mod_eq_dvd_iff_nat [of "h + b" "h + a" n] by (auto dest: dvd_imp_le)
  then show ?thesis using assms by (metis nat_le_linear)
qed

text \<open>One turn of the probe loop, in a table of any contents.\<close>

lemma find_index_loop_step:
  assumes sz: "b < 32" "size ht = 2 ^ b" and e: "e < size ht"
  shows "find_index_loop (Suc n) ht k (of_nat (size ht) - 1) (of_nat (home ht k)) (of_nat (probe ht k e)) fd =
    (if vacant ht (probe ht k e) then Some (case fd of Some d \<Rightarrow> unat d | None \<Rightarrow> probe ht k e)
     else if compare ht (ikey (items ht ! probe ht k e)) k then Some (probe ht k e)
     else
       let fd' = (if fd = None \<and> ival (items ht ! probe ht k e) = HURD_IHASH_DELETED then Some (of_nat (probe ht k e)) else fd)
       in if e + 1 = size ht then Some (case fd' of Some d \<Rightarrow> unat d | None \<Rightarrow> 0)
          else find_index_loop n ht k (of_nat (size ht) - 1) (of_nat (home ht k)) (of_nat (probe ht k (e + 1))) fd')"
proof -
  let ?up = "of_nat (probe ht k e) :: u32"
  have small: "size ht < 2 ^ 32" "0 < size ht" using sz power_strict_increasing [of b 32 "2 :: nat"] by simp_all
  have u: "unat (of_nat x :: u32) = x" if "x < size ht" for x using that small by (intro unat_of_nat_u32) linarith
  have l: "probe ht k x < size ht" "home ht k < size ht" for x using small by (simp_all add: home_def)
  have nxt: "(?up + 1) AND (of_nat (size ht) - 1) = of_nat (probe ht k (e + 1))"
    unfolding sz(2) by (simp only: next_index [OF sz(1)] add.assoc)
  have "probe ht k (e + 1) = home ht k \<longleftrightarrow> e + 1 = size ht" using l(2) e by (auto simp: mod_if)
  then have wrap: "(of_nat (probe ht k (e + 1)) :: u32) = of_nat (home ht k) \<longleftrightarrow> e + 1 = size ht" using u [OF l(1)] u [OF l(2)] by metis
  show ?thesis using nxt wrap u [OF l(1), of e] by (simp add: Let_def split: option.split)
qed

text \<open>The slots before the \<open>d\<close>th probe do not stop a search.\<close>

definition passes :: "ihash \<Rightarrow> ihkey \<Rightarrow> nat \<Rightarrow> bool" where
  "passes ht k d \<longleftrightarrow> (\<forall>e < d. \<not> vacant ht (probe ht k e) \<and> \<not> compare ht (ikey (items ht ! probe ht k e)) k)"

lemma find_index_stops:
  assumes sz: "b < 32" "size ht = 2 ^ b" and d: "d < size ht" "passes ht k d" "\<not> vacant ht (probe ht k d)" "compare ht (ikey (items ht ! probe ht k d)) k"
  shows "find_index ht k = Some (probe ht k d)"
proof -
  have "find_index_loop n ht k (of_nat (size ht) - 1) (of_nat (home ht k)) (of_nat (probe ht k e)) fd = Some (probe ht k d)"
    if "e \<le> d" "d - e < n" for n e fd using that
  proof (induction n arbitrary: e fd)
    case (Suc n)
    show ?case
    proof (cases "e = d")
      case True
      then show ?thesis using find_index_loop_step [OF sz d(1)] d(3,4) by simp
    next
      case False
      then have "e < d" "e < size ht" "e + 1 \<noteq> size ht" using Suc.prems d(1) by simp_all
      then show ?thesis using find_index_loop_step [OF sz, of e n k fd] d(2) Suc.IH [of "e + 1"] Suc.prems by (simp add: passes_def Let_def)
    qed
  qed simp
  from this [of 0 "size ht" None] show ?thesis
    using d(1) by (simp add: find_index_def Let_def hash_index [OF sz] home_def)
qed

lemma find_index_valid:
  assumes sz: "b < 32" "size ht = 2 ^ b" and r: "find_index ht k = Some r" "index_valid ht r k"
  obtains d where "d < size ht" "r = probe ht k d" "passes ht k d"
proof -
  have v: "hurd_ihash_value_valid (ival (items ht ! r))" "compare ht (ikey (items ht ! r)) k" using r(2) by (simp_all add: index_valid_def index_empty_def)
  have pos: "0 < size ht" using sz by simp
  have small: "size ht < 2 ^ 32" using sz power_strict_increasing [of b 32 "2 :: nat"] by simp
  have z: "\<not> (size ht = e + 1 \<and> passes ht k (e + 1) \<and> r = 0)" for e
  proof
    assume a: "size ht = e + 1 \<and> passes ht k (e + 1) \<and> r = 0"
    have "home ht k < size ht" using pos by (simp add: home_def)
    from cyclic_offset [OF this pos] obtain x where x: "x < size ht" "0 = probe ht k x" by blast
    then have "\<not> compare ht (ikey (items ht ! probe ht k x)) k" using a unfolding passes_def by metis
    then show False using a v(2) x(2) by simp
  qed
  have "\<exists>d < size ht. r = probe ht k d \<and> passes ht k d"
    if "find_index_loop n ht k (of_nat (size ht) - 1) (of_nat (home ht k)) (of_nat (probe ht k e)) fd = Some r" "e < size ht" "passes ht k e"
      "\<And>w. fd = Some w \<Longrightarrow> \<not> occupied ht (unat w)" for n e fd using that
  proof (induction n arbitrary: e fd)
    case (Suc n)
    note s = find_index_loop_step [OF sz Suc.prems(2), of n k fd]
    define fd' where "fd' = (if fd = None \<and> ival (items ht ! probe ht k e) = HURD_IHASH_DELETED then Some (of_nat (probe ht k e)) else fd)"
    have "probe ht k e < size ht" using pos by simp
    then have "unat (of_nat (probe ht k e) :: u32) = probe ht k e" using small by (intro unat_of_nat_u32) linarith
    then have fd': "\<not> occupied ht (unat w)" if "fd' = Some w" for w using that Suc.prems(4) by (auto simp: fd'_def split: if_splits)
    consider "vacant ht (probe ht k e)" | "\<not> vacant ht (probe ht k e)" "compare ht (ikey (items ht ! probe ht k e)) k"
      | "\<not> vacant ht (probe ht k e)" "\<not> compare ht (ikey (items ht ! probe ht k e)) k" by blast
    then show ?case
    proof cases
      case 1
      then show ?thesis using s Suc.prems(1,4) v(1) by (auto split: option.splits)
    next
      case 2
      then show ?thesis using s Suc.prems(1-3) by (intro exI [of _ e]) simp
    next
      case 3
      have p: "passes ht k (e + 1)" using Suc.prems(3) 3 by (auto simp: passes_def less_Suc_eq)
      show ?thesis
      proof (cases "e + 1 = size ht")
        case True
        then have "(case fd' of Some d \<Rightarrow> unat d | None \<Rightarrow> 0) = r" using s 3 Suc.prems(1) by (simp add: fd'_def Let_def)
        then show ?thesis using z [of e] p True fd' v(1) by (auto split: option.splits)
      next
        case False
        then have "find_index_loop n ht k (of_nat (size ht) - 1) (of_nat (home ht k)) (of_nat (probe ht k (e + 1))) fd' = Some r"
          using s 3 Suc.prems(1) by (simp add: fd'_def Let_def)
        then show ?thesis using Suc.IH [OF _ _ p fd'] Suc.prems(2) False by simp
      qed
    qed
  qed simp
  from this [of "size ht" 0 None] show thesis
    using r(1) pos that by (auto simp: find_index_def Let_def hash_index [OF sz] home_def passes_def)
qed

text \<open>
  C4. The invariant excludes the key 0 for a reason. Removing an item leaves a
  tombstone whose key is 0, and \<open>find_index\<close> compares keys before it looks for
  tombstones: with integer keys, a search for 0 stops at the first tombstone on its
  way. In every table in which the key 0 is found at the \<open>e\<close>th probe and another key is stored at an
  earlier one, removing that other key makes 0 unfindable: the
  value is still in the table, in its slot, but \<open>hurd_ihash_find\<close> says that there is none.
\<close>

theorem hurd_ihash_find_key_zero_lost:
  assumes "b < 32" "size ht = 2 ^ b" "length (items ht) = size ht" "fct_cmp ht = None"
    and "find_index ht 0 = Some (probe ht 0 e)" "hurd_ihash_find ht 0 = Some v" "hurd_ihash_value_valid v" "e < size ht"
    and "find_index ht k = Some (probe ht 0 d)" "hurd_ihash_remove ht k = Some (True, ht')" "d < e"
  shows "hurd_ihash_find ht' 0 = Some 0 \<and> items ht' ! probe ht 0 e = \<lparr>ival = v, ikey = 0\<rparr> \<and> v \<in> set (hurd_ihash_iterate ht')"
proof -
  let ?i = "probe ht 0 d" and ?j = "probe ht 0 e"
  have pos: "0 < size ht" using assms(2) by simp
  have lt: "probe ht 0 x < size ht" for x using pos by simp
  have j: "index_valid ht ?j 0" "ival (items ht ! ?j) = v"
    using assms(5-7) pos by (auto simp: hurd_ihash_find_def hurd_ihash_value_valid_def HURD_IHASH_EMPTY_def split: if_splits)
  have inj: "x = y" if "probe ht 0 x = probe ht 0 y" "x < size ht" "y < size ht" for x y
    by (rule cyclic_inj [OF that])
  obtain e' where "e' < size ht" "?j = probe ht 0 e'" "passes ht 0 e'" by (rule find_index_valid [OF assms(1,2,5) j(1)])
  then have p: "passes ht 0 e" using inj [of e e'] assms(8) by simp
  have it: "items ht' = (items ht)[?i := \<lparr>ival = HURD_IHASH_DELETED, ikey = 0\<rparr>]" "size ht' = size ht" "hash ht' = hash ht" "compare ht' = compare ht"
    using assms(9,10) pos by (auto simp: hurd_ihash_remove_def locp_remove_def hash_def compare_def fun_eq_iff split: if_splits)
  have h: "home ht' 0 = home ht 0" by (simp add: home_def it)
  have ne: "?i \<noteq> ?j" using inj [of d e] assms(8,11) by auto
  have at: "items ht' ! ?i = \<lparr>ival = HURD_IHASH_DELETED, ikey = 0\<rparr>" "items ht' ! ?j = items ht ! ?j" using it(1) lt ne assms(3) by simp_all
  have ps: "passes ht' 0 d" unfolding passes_def
  proof (intro allI impI)
    fix x assume "x < d"
    then have "probe ht 0 x \<noteq> ?i" using inj [of x d] assms(8,11) by auto
    then have "items ht' ! probe ht 0 x = items ht ! probe ht 0 x" using it(1) by simp
    then show "\<not> vacant ht' (probe ht' 0 x) \<and> \<not> compare ht' (ikey (items ht' ! probe ht' 0 x)) 0"
      using p \<open>x < d\<close> assms(11) by (simp add: passes_def it(2-4) h)
  qed
  have b': "size ht' = 2 ^ b" using it(2) assms(2) by simp
  have "find_index ht' 0 = Some (probe ht' 0 d)"
    by (rule find_index_stops [OF assms(1) b' _ ps]) (use assms(4,8,11) at(1) in \<open>simp_all add: it(2-4) h compare_def\<close>)
  then have "hurd_ihash_find ht' 0 = Some 0" using at(1) pos by (simp add: hurd_ihash_find_def index_valid_def index_empty_def it(2) h)
  moreover have "ikey (items ht ! ?j) = 0" using j(1) assms(4) by (simp add: index_valid_def compare_def)
  then have "items ht' ! ?j = \<lparr>ival = v, ikey = 0\<rparr>" using at(2) j(2) by simp
  moreover have "v \<in> set (hurd_ihash_iterate ht')"
    unfolding hurd_ihash_iterate_def using calculation(2) lt [of e] assms(3,7) it by (auto simp: in_set_conv_nth intro!: exI [of _ ?j] image_eqI)
  ultimately show ?thesis by simp
qed

definition zero_table :: ihash where
  "zero_table = store_item (store_item (example_table\<lparr>size := 32, items := replicate 32 \<lparr>ival = 0, ikey = 0\<rparr>, nr_items := 2, nr_free := 30\<rparr>) 0 32 4096) 1 0 8192"

lemma zero_table_run:
  "do { (e1, ht1, o1) \<leftarrow> hurd_ihash_add example_table 32 4096 []; (e2, ht2, o2) \<leftarrow> hurd_ihash_add ht1 0 8192 o1; Some (e1, e2, items ht2 = items zero_table, size ht2) } =
   Some (Success, Success, True, 32)"
  by code_simp

theorem hurd_ihash_find_key_zero_lost_witness:
  "hurd_ihash_find zero_table 0 = Some 8192 \<and>
   (\<exists>ht'. hurd_ihash_remove zero_table 32 = Some (True, ht') \<and> hurd_ihash_find ht' 0 = Some 0 \<and> 8192 \<in> set (hurd_ihash_iterate ht'))"
proof -
  have 1: "size zero_table = 2 ^ 5" "length (items zero_table) = size zero_table" "fct_cmp zero_table = None"
    "find_index zero_table 0 = Some (probe zero_table 0 1)" "hurd_ihash_find zero_table 0 = Some 8192" "hurd_ihash_value_valid 8192"
    "find_index zero_table 32 = Some (probe zero_table 0 0)" "hurd_ihash_remove zero_table 32 = Some (True, the (locp_remove zero_table 0))"
    by code_simp+
  have "(5 :: nat) < 32" "1 < size zero_table" "(0 :: nat) < 1" using 1(1) by simp_all
  from hurd_ihash_find_key_zero_lost [OF this(1) 1(1-6) this(2) 1(7,8) this(3)] show ?thesis using 1(5,8) by blast
qed

section \<open>The load of a table\<close>

text \<open>
  The load that \<open>hurd_ihash_get_load\<close> computes with a count of trailing zeros and
  shifts is the number of items times 128 divided by the size, rounded down, for
  every size a table can have; it is at most 128.
\<close>

theorem hurd_ihash_get_load_percent:
  assumes "ihash_inv ht" and "size ht \<noteq> 0"
  shows "hurd_ihash_get_load ht = nr_items ht * 128 div size ht \<and> hurd_ihash_get_load ht \<le> 128"
proof -
  have T: "table_ok ht" using assms by (simp add: ihash_inv_def)
  have "nr_items ht * 128 div size ht \<le> size ht * 128 div size ht"
    by (intro div_le_mono mult_le_mono1 nr_items_bound T)
  then show ?thesis using get_load_eq [OF T] assms(2) by simp
qed

theorem hurd_ihash_get_load_percent_witness:
  "ihash_inv full_table \<and> size full_table \<noteq> 0 \<and>
   hurd_ihash_get_load full_table = nr_items full_table * 128 div size full_table \<and>
   hurd_ihash_get_load full_table \<le> 128"
  using full_table_inv full_table_config(1) hurd_ihash_get_load_percent [of full_table] by simp

section \<open>The interface of a table with integer keys\<close>

text \<open>
  What the servers use of a hash table: an invariant, a capacity below which adding
  always works, and the laws of lookup after adding and removing. The value 0 of a
  lookup is the null pointer. The lemmas describe the patterns in which clients use
  it: an entry that is added, found by the other party and removed again.
\<close>

locale port_table =
  fixes tinv :: "'t \<Rightarrow> bool" and troom :: "'t \<Rightarrow> bool"
    and tfind :: "'t \<Rightarrow> ihkey \<Rightarrow> ihvalue option"
    and tadd :: "'t \<Rightarrow> ihkey \<Rightarrow> ihvalue \<Rightarrow> allocs \<Rightarrow> (error_t \<times> 't \<times> allocs) option"
    and tremove :: "'t \<Rightarrow> ihkey \<Rightarrow> (bool \<times> 't) option"
  assumes find_total: "tinv t \<Longrightarrow> k \<noteq> 0 \<Longrightarrow> \<exists>v. tfind t k = Some v"
    and add_law: "tinv t \<Longrightarrow> troom t \<Longrightarrow> k \<noteq> 0 \<Longrightarrow> hurd_ihash_value_valid v \<Longrightarrow>
      \<exists>err t' orc'. tadd t k v orc = Some (err, t', orc') \<and> tinv t' \<and>
        (err = Success \<and> (\<forall>j. j \<noteq> 0 \<longrightarrow> tfind t' j = (if j = k then Some v else tfind t j)) \<or>
         err = ENOMEM \<and> t' = t)"
    and remove_law: "tinv t \<Longrightarrow> k \<noteq> 0 \<Longrightarrow>
      \<exists>t'. tremove t k = Some (tfind t k \<noteq> Some 0, t') \<and> tinv t' \<and> (troom t \<longrightarrow> troom t') \<and>
        (\<forall>j. j \<noteq> 0 \<longrightarrow> tfind t' j = (if j = k then Some 0 else tfind t j))"
begin

lemma add_success:
  assumes "tinv t" "troom t" "k \<noteq> 0" "hurd_ihash_value_valid v" "tadd t k v orc = Some (Success, t', orc')"
  shows "tinv t'" "j \<noteq> 0 \<Longrightarrow> tfind t' j = (if j = k then Some v else tfind t j)"
  using add_law [OF assms(1-4), of orc] assms(5) by auto

lemma add_failure:
  assumes "tinv t" "troom t" "k \<noteq> 0" "hurd_ihash_value_valid v" "tadd t k v orc = Some (err, t', orc')"
    "err \<noteq> Success"
  shows "err = ENOMEM" "t' = t"
  using add_law [OF assms(1-4), of orc] assms(5,6) by auto

lemma add_then_remove:
  assumes "tinv t" "troom t" "k \<noteq> 0" "hurd_ihash_value_valid v"
    and "tadd t k v orc = Some (Success, t', orc')" and "tfind t k = Some 0"
  shows "\<exists>t''. tremove t' k = Some (True, t'') \<and> tinv t'' \<and> (\<forall>j. j \<noteq> 0 \<longrightarrow> tfind t'' j = tfind t j)"
proof -
  note s = add_success [OF assms(1-5)]
  have "v \<noteq> 0" using assms(4) by (simp add: hurd_ihash_value_valid_def HURD_IHASH_EMPTY_def)
  then have "tfind t' k \<noteq> Some 0" using s(2) [OF assms(3)] by simp
  then show ?thesis using remove_law [OF s(1) assms(3)] s(2) assms(6) by auto
qed

lemma remove_missing:
  assumes "tinv t" "k \<noteq> 0" "tfind t k = Some 0"
  shows "\<exists>t'. tremove t k = Some (False, t') \<and> tinv t' \<and> (\<forall>j. j \<noteq> 0 \<longrightarrow> tfind t' j = tfind t j)"
  using remove_law [OF assms(1,2)] assms(3) by auto

end

definition int_table_inv :: "ihash \<Rightarrow> bool" where
  "int_table_inv ht \<longleftrightarrow> ihash_inv ht \<and> fct_cmp ht = None \<and> max_load ht < 128"

definition int_table_room :: "ihash \<Rightarrow> bool" where
  "int_table_room ht \<longleftrightarrow> size ht \<le> 2 ^ 30"

lemma int_table_compare: "int_table_inv ht \<Longrightarrow> compare ht a b \<longleftrightarrow> a = b"
  by (simp add: int_table_inv_def compare_def)

lemma int_table_config: "int_table_inv ht \<Longrightarrow> ihash_inv ht' \<Longrightarrow> same_config ht' ht \<Longrightarrow> int_table_inv ht'"
  by (simp add: int_table_inv_def same_config_def)

interpretation itab: port_table int_table_inv int_table_room hurd_ihash_find hurd_ihash_add hurd_ihash_remove
proof unfold_locales
  fix t :: ihash and k :: ihkey and v :: ihvalue and orc :: allocs
  assume inv: "int_table_inv t" and k: "k \<noteq> 0"
  have i: "ihash_inv t" "max_load t < 128" using inv by (simp_all add: int_table_inv_def)
  show "\<exists>v. hurd_ihash_find t k = Some v" using hurd_ihash_find_ok [OF i(1) k] by simp
  from i(1) k obtain t' where t': "hurd_ihash_remove t k = Some (ihash_map t k \<noteq> None, t')" "ihash_inv t'"
    "same_config t' t" "size t' = size t"
    "\<And>k'. k' \<noteq> 0 \<Longrightarrow> ihash_map t' k' = (if compare t k k' then None else ihash_map t k')"
    by (rule hurd_ihash_remove_ok) blast
  have "hurd_ihash_find t' j = (if j = k then Some 0 else hurd_ihash_find t j)" if "j \<noteq> 0" for j
    using hurd_ihash_find_ok [OF t'(2) that] hurd_ihash_find_ok [OF i(1) that] t'(5) [OF that]
      int_table_compare [OF inv] by simp
  then show "\<exists>t'. hurd_ihash_remove t k = Some (hurd_ihash_find t k \<noteq> Some 0, t') \<and> int_table_inv t' \<and>
      (int_table_room t \<longrightarrow> int_table_room t') \<and>
      (\<forall>j. j \<noteq> 0 \<longrightarrow> hurd_ihash_find t' j = (if j = k then Some 0 else hurd_ihash_find t j))"
    using t' int_table_config [OF inv t'(2,3)] find_null_map [OF i(1) k] by (simp add: int_table_room_def)
  assume room: "int_table_room t" and v: "hurd_ihash_value_valid v"
  have sz: "size t \<le> 2 ^ 30" using room by (simp add: int_table_room_def)
  from hurd_ihash_add_ok(1) [OF i sz k v, of orc] obtain err u orc' where
    u: "hurd_ihash_add t k v orc = Some (err, u, orc')"
    "err = Success \<and> ihash_inv u \<and> inserted t k v u \<or> err = ENOMEM \<and> u = t"
    by (auto simp: add_outcome_def)
  have iu: "int_table_inv u" using u(2) inv int_table_config [OF inv] by (auto simp: inserted_def)
  have "hurd_ihash_find u j = (if j = k then Some v else hurd_ihash_find t j)"
    if "ihash_inv u" "inserted t k v u" "j \<noteq> 0" for j
    using find_after_insert [OF i(1) that] int_table_compare [OF inv, of k j] by (simp add: eq_commute)
  with iu show "\<exists>err t' orc'. hurd_ihash_add t k v orc = Some (err, t', orc') \<and> int_table_inv t' \<and>
      (err = Success \<and>
         (\<forall>j. j \<noteq> 0 \<longrightarrow> hurd_ihash_find t' j = (if j = k then Some v else hurd_ihash_find t j)) \<or>
       err = ENOMEM \<and> t' = t)"
    using u by blast
qed

end
