(* ===== verification/Idvec.thy ===== *)
theory Idvec
  imports Hurd_Prelude
begin

text \<open>
  Identifier vectors, \<^verbatim>\<open>libshouldbeinlibc/idvec.c\<close> and the inline functions of
  \<^verbatim>\<open>idvec.h\<close>. The record keeps the C struct: the array \<open>ids\<close> (one list element
  per allocated cell), the number \<open>num\<close> of ids in use and the capacity \<open>alloced\<close>.
  The operations work on the array the way the code does (in place compaction,
  \<^verbatim>\<open>memmove\<close>, growth by \<^verbatim>\<open>realloc\<close>); the lemmas relate them to functions on the
  list \<open>idvec_list v\<close> of the ids in use. Operations that may allocate take and
  return the allocation outcomes still to come.
\<close>

section \<open>Data\<close>

type_synonym uid = u32

record idvec =
  ids :: "uid list"
  num :: nat
  alloced :: nat

definition idvec_init :: idvec where
  "idvec_init = \<lparr>ids = [], num = 0, alloced = 0\<rparr>"

section \<open>Operations\<close>

definition make_idvec :: "allocs \<Rightarrow> idvec option \<times> allocs" where
  "make_idvec orc =
     (case alloc orc of
        (None, orc') \<Rightarrow> (None, orc')
      | (Some _, orc') \<Rightarrow> (Some \<lparr>ids = [], num = 0, alloced = 0\<rparr>, orc'))"

definition idvec_clear :: "idvec \<Rightarrow> idvec" where
  "idvec_clear v = v\<lparr>num := 0\<rparr>"

definition idvec_is_empty :: "idvec \<Rightarrow> bool" where
  "idvec_is_empty v \<longleftrightarrow> num v = 0"

definition idvec_equal :: "idvec \<Rightarrow> idvec \<Rightarrow> bool" where
  "idvec_equal v1 v2 \<longleftrightarrow>
     num v2 = num v1 \<and> (num v1 = 0 \<or> take (num v1) (ids v1) = take (num v1) (ids v2))"

definition idvec_ensure :: "idvec \<Rightarrow> nat \<Rightarrow> allocs \<Rightarrow> error_t \<times> idvec \<times> allocs" where
  "idvec_ensure v n orc =
     (if n > alloced v then
        (case alloc orc of
           (None, orc') \<Rightarrow> (ENOMEM, v, orc')
         | (Some j, orc') \<Rightarrow>
             (Success,
              v\<lparr>ids := ids v @ replicate (n - alloced v) j, alloced := n\<rparr>, orc'))
      else (Success, v, orc))"

definition idvec_grow :: "idvec \<Rightarrow> nat \<Rightarrow> allocs \<Rightarrow> error_t \<times> idvec \<times> allocs" where
  "idvec_grow v inc orc = idvec_ensure v (u32_wrap (num v + inc)) orc"

function tail_contains_loop :: "uid list \<Rightarrow> nat \<Rightarrow> nat \<Rightarrow> uid \<Rightarrow> bool" where
  "tail_contains_loop a p e x =
     (if p < e then (if a ! p = x then True else tail_contains_loop a (p + 1) e x) else False)"
  by pat_completeness auto
termination
  by (relation "measure (\<lambda>(a, p, e, x). e - p)") auto

declare tail_contains_loop.simps [simp del]

definition idvec_tail_contains :: "idvec \<Rightarrow> nat \<Rightarrow> uid \<Rightarrow> bool" where
  "idvec_tail_contains v pos x = tail_contains_loop (ids v) pos (num v) x"

definition idvec_contains :: "idvec \<Rightarrow> uid \<Rightarrow> bool" where
  "idvec_contains v x = idvec_tail_contains v 0 x"

definition idvec_insert :: "idvec \<Rightarrow> nat \<Rightarrow> uid \<Rightarrow> allocs \<Rightarrow> error_t \<times> idvec \<times> allocs" where
  "idvec_insert v pos x orc =
     (let n = num v;
          new_num = (if pos < n then u32_wrap (n + 1) else u32_wrap (pos + 1));
          (err, v', orc') =
            (if alloced v = n then idvec_ensure v (u32_wrap (new_num + n)) orc
             else idvec_ensure v new_num orc)
      in if err = Success then
           let a = ids v';
               a' = (if pos < n then memmove a (pos + 1) pos (n - pos)
                     else if pos > n then memset a n 0 (pos - n)
                     else a)
           in (Success, v'\<lparr>ids := a'[pos := x], num := new_num\<rparr>, orc')
         else (err, v', orc'))"

definition idvec_add :: "idvec \<Rightarrow> uid \<Rightarrow> allocs \<Rightarrow> error_t \<times> idvec \<times> allocs" where
  "idvec_add v x orc = idvec_insert v (num v) x orc"

definition idvec_add_new :: "idvec \<Rightarrow> uid \<Rightarrow> allocs \<Rightarrow> error_t \<times> idvec \<times> allocs" where
  "idvec_add_new v x orc =
     (if idvec_contains v x then (Success, v, orc) else idvec_add v x orc)"

definition idvec_insert_new :: "idvec \<Rightarrow> nat \<Rightarrow> uid \<Rightarrow> allocs \<Rightarrow> error_t \<times> idvec \<times> allocs" where
  "idvec_insert_new v pos x orc =
     (if idvec_tail_contains v pos x then (Success, v, orc) else idvec_insert v pos x orc)"

definition idvec_set_ids :: "idvec \<Rightarrow> uid list \<Rightarrow> nat \<Rightarrow> allocs \<Rightarrow> error_t \<times> idvec \<times> allocs" where
  "idvec_set_ids v xs n orc =
     (let (err, v', orc') = idvec_ensure v n orc
      in if err = Success then
           (Success, v'\<lparr>ids := (if n \<noteq> 0 then memcpy (ids v') 0 xs n else ids v'), num := n\<rparr>, orc')
         else (err, v', orc'))"

definition idvec_set :: "idvec \<Rightarrow> idvec \<Rightarrow> allocs \<Rightarrow> error_t \<times> idvec \<times> allocs" where
  "idvec_set v new orc = idvec_set_ids v (ids new) (num new) orc"

function merge_search :: "uid list \<Rightarrow> nat \<Rightarrow> nat \<Rightarrow> uid \<Rightarrow> nat" where
  "merge_search a i num_old x =
     (if i < num_old then (if a ! i = x then i else merge_search a (i + 1) num_old x) else i)"
  by pat_completeness auto
termination
  by (relation "measure (\<lambda>(a, i, num_old, x). num_old - i)") auto

declare merge_search.simps [simp del]

fun merge_ids_loop :: "nat \<Rightarrow> idvec \<Rightarrow> uid list \<Rightarrow> allocs \<Rightarrow> error_t \<times> idvec \<times> allocs" where
  "merge_ids_loop num_old v [] orc = (Success, v, orc)"
| "merge_ids_loop num_old v (x # xs) orc =
     (if merge_search (ids v) 0 num_old x = num_old then
        (case idvec_add v x orc of
           (Success, v', orc') \<Rightarrow> merge_ids_loop num_old v' xs orc'
         | (err, v', orc') \<Rightarrow> (err, v', orc'))
      else merge_ids_loop num_old v xs orc)"

definition idvec_merge_ids :: "idvec \<Rightarrow> uid list \<Rightarrow> nat \<Rightarrow> allocs \<Rightarrow> error_t \<times> idvec \<times> allocs" where
  "idvec_merge_ids v xs n orc = merge_ids_loop (num v) v (take n xs) orc"

definition idvec_merge :: "idvec \<Rightarrow> idvec \<Rightarrow> allocs \<Rightarrow> error_t \<times> idvec \<times> allocs" where
  "idvec_merge v new orc = idvec_merge_ids v (ids new) (num new) orc"

fun remove_loop :: "nat \<Rightarrow> nat \<Rightarrow> nat \<Rightarrow> uid list \<Rightarrow> uid \<Rightarrow> nat \<times> nat \<times> uid list" where
  "remove_loop 0 src targ a x = (src, targ, a)"
| "remove_loop (Suc left) src targ a x =
     (if a ! src \<noteq> x
      then remove_loop left (src + 1) (targ + 1) (if src \<noteq> targ then a[targ := a ! src] else a) x
      else remove_loop left (src + 1) targ a x)"

definition idvec_remove :: "idvec \<Rightarrow> nat \<Rightarrow> uid \<Rightarrow> bool \<times> idvec" where
  "idvec_remove v pos x =
     (if pos < num v then
        (let (src, targ, a) = remove_loop (num v - pos) pos pos (ids v) x
         in if src = targ then (False, v\<lparr>ids := a\<rparr>)
            else (True, v\<lparr>ids := a, num := targ\<rparr>))
      else (False, v))"

fun subtract_loop :: "idvec \<Rightarrow> uid list \<Rightarrow> bool \<Rightarrow> bool \<times> idvec" where
  "subtract_loop v [] done = (done, v)"
| "subtract_loop v (x # xs) done =
     (let (r, v') = idvec_remove v 0 x in subtract_loop v' xs (done \<or> r))"

definition idvec_subtract :: "idvec \<Rightarrow> idvec \<Rightarrow> bool \<times> idvec" where
  "idvec_subtract v sub = subtract_loop v (take (num sub) (ids sub)) False"

function keep_loop :: "nat \<Rightarrow> nat \<Rightarrow> nat \<Rightarrow> uid list \<Rightarrow> idvec \<Rightarrow> nat \<times> nat \<times> uid list" where
  "keep_loop old new e a keep =
     (if old < e then
        (let x = a ! old; old' = old + 1
         in if idvec_contains keep x
            then keep_loop old' (new + 1) e (if old' \<noteq> new then a[new := x] else a) keep
            else keep_loop old' new e a keep)
      else (old, new, a))"
  by pat_completeness auto
termination
  by (relation "measure (\<lambda>(old, new, e, a, keep). e - old)") auto

declare keep_loop.simps [simp del]

definition idvec_keep :: "idvec \<Rightarrow> idvec \<Rightarrow> bool \<times> idvec" where
  "idvec_keep v keep =
     (let (old, new, a) = keep_loop 0 0 (num v) (ids v) keep
      in if old \<noteq> new then (True, v\<lparr>ids := a, num := new\<rparr>) else (False, v\<lparr>ids := a\<rparr>))"

definition idvec_delete :: "idvec \<Rightarrow> nat \<Rightarrow> idvec" where
  "idvec_delete v pos =
     (if pos < num v then
        let n = num v - 1
        in v\<lparr>ids := (if n > pos then memmove (ids v) pos (pos + 1) (n - pos) else ids v), num := n\<rparr>
      else v)"

definition idvec_insert_only :: "idvec \<Rightarrow> nat \<Rightarrow> uid \<Rightarrow> allocs \<Rightarrow> error_t \<times> idvec \<times> allocs" where
  "idvec_insert_only v pos x orc =
     (if num v > pos \<and> ids v ! pos = x then (Success, v, orc)
      else let (_, v') = idvec_remove v pos x in idvec_insert v' pos x orc)"

text \<open>
  \<open>idvec_setid\<close>: \<open>secure\<close> is \<open>None\<close> for a null pointer and \<open>Some b\<close> for a pointer to
  the flag \<open>b\<close>. The two vectors are distinct objects.
\<close>

definition idvec_setid ::
  "idvec \<Rightarrow> idvec \<Rightarrow> uid \<Rightarrow> bool option \<Rightarrow> allocs \<Rightarrow>
   error_t \<times> idvec \<times> idvec \<times> bool option \<times> allocs" where
  "idvec_setid eff avail x secure orc =
     (let sec = (\<not> idvec_contains eff x \<and> \<not> idvec_contains avail x);
          (err, eff', avail', orc') =
            (if num eff > 0 then
               (case idvec_add_new avail (ids eff ! 0) orc of
                  (Success, av, o1) \<Rightarrow> (Success, eff\<lparr>ids := (ids eff)[0 := x]\<rparr>, av, o1)
                | (err, av, o1) \<Rightarrow> (err, eff, av, o1))
             else
               (case idvec_add eff x orc of (err, ef, o1) \<Rightarrow> (err, ef, avail, o1)));
          (err2, avail2, orc2) =
            (if num avail' > 0 \<and> err = Success then idvec_insert_only avail' 1 x orc'
             else (err, avail', orc'))
      in if err2 \<noteq> Success then (err2, eff', avail2, secure, orc2)
         else (Success, eff', avail2,
               (case secure of Some False \<Rightarrow> if sec then Some True else Some False | s \<Rightarrow> s),
               orc2))"

section \<open>Abstraction and invariant\<close>

definition idvec_list :: "idvec \<Rightarrow> uid list" where
  "idvec_list v = take (num v) (ids v)"

definition idvec_wf :: "idvec \<Rightarrow> bool" where
  "idvec_wf v \<longleftrightarrow> length (ids v) = alloced v \<and> num v \<le> alloced v \<and> alloced v < 2 ^ 32"


text \<open>The list level meaning of an insertion: a position past the end is padded with 0.\<close>

definition insert_at :: "nat \<Rightarrow> uid \<Rightarrow> uid list \<Rightarrow> uid list" where
  "insert_at pos x l = take pos l @ replicate (pos - length l) 0 @ x # drop pos l"

section \<open>The operations on the list level\<close>

lemma idvec_wf_init [simp]: "idvec_wf idvec_init" "idvec_list idvec_init = []"
  by (simp_all add: idvec_wf_def idvec_init_def idvec_list_def)

lemma length_idvec_list [simp]: "idvec_wf v \<Longrightarrow> length (idvec_list v) = num v"
  by (simp add: idvec_wf_def idvec_list_def)

lemma idvec_list_nth: "idvec_wf v \<Longrightarrow> i < num v \<Longrightarrow> idvec_list v ! i = ids v ! i"
  by (simp add: idvec_list_def)

lemma idvec_list_update [simp]:
  "idvec_list (v\<lparr>ids := a, num := n\<rparr>) = take n a" "idvec_list (v\<lparr>ids := a\<rparr>) = take (num v) a"
  by (simp_all add: idvec_list_def)

lemma make_idvec_cases:
  "make_idvec orc = (r, orc') \<Longrightarrow> r = None \<or> r = Some idvec_init"
  by (auto simp: make_idvec_def idvec_init_def split: prod.splits option.splits)

lemma idvec_equal_list:
  "idvec_wf v1 \<Longrightarrow> idvec_wf v2 \<Longrightarrow> idvec_equal v1 v2 \<longleftrightarrow> idvec_list v1 = idvec_list v2"
proof (cases "num v1 = num v2")
  case False
  moreover assume "idvec_wf v1" "idvec_wf v2"
  ultimately have "idvec_list v1 \<noteq> idvec_list v2"
    by (auto dest: arg_cong [where f = length])
  with False show ?thesis by (simp add: idvec_equal_def)
qed (auto simp: idvec_equal_def idvec_list_def)

lemma tail_contains_loop_iff:
  "e \<le> length a \<Longrightarrow> tail_contains_loop a p e x \<longleftrightarrow> x \<in> set (drop p (take e a))"
proof (induction a p e x rule: tail_contains_loop.induct)
  case (1 a p e x)
  show ?case
  proof (cases "p < e")
    case True
    then have "drop p (take e a) = a ! p # drop (Suc p) (take e a)"
      using "1.prems" by (simp add: Cons_nth_drop_Suc [symmetric])
    then show ?thesis
      using True "1.IH" "1.prems" by (subst tail_contains_loop.simps) auto
  next
    case False
    then show ?thesis by (subst tail_contains_loop.simps) simp
  qed
qed

lemma idvec_tail_contains_iff [simp]:
  "idvec_wf v \<Longrightarrow> idvec_tail_contains v pos x \<longleftrightarrow> x \<in> set (drop pos (idvec_list v))"
  by (simp add: idvec_tail_contains_def tail_contains_loop_iff idvec_wf_def idvec_list_def)

lemma idvec_contains_iff [simp]:
  "idvec_wf v \<Longrightarrow> idvec_contains v x \<longleftrightarrow> x \<in> set (idvec_list v)"
  by (simp add: idvec_contains_def)

subsection \<open>Growing\<close>

lemma idvec_ensure_cases:
  assumes "idvec_wf v" and "n < 2 ^ 32" and "idvec_ensure v n orc = (err, v', orc')"
  obtains (ok) "err = Success" "idvec_wf v'" "idvec_list v' = idvec_list v" "num v' = num v"
      "n \<le> alloced v'"
  | (nomem) "err = ENOMEM" "v' = v" "alloced v < n"
proof -
  have "err = Success \<and> idvec_wf v' \<and> idvec_list v' = idvec_list v \<and> num v' = num v \<and> n \<le> alloced v' \<or>
        err = ENOMEM \<and> v' = v \<and> alloced v < n"
    using assms
    by (cases "alloc orc")
      (auto simp: idvec_ensure_def idvec_wf_def idvec_list_def split: if_splits option.splits)
  then show thesis using that by blast
qed

lemma idvec_insert_cases:
  assumes wf: "idvec_wf v" and b: "num v < 2 ^ 31" "pos < 2 ^ 31"
    and ins: "idvec_insert v pos x orc = (err, v', orc')"
  obtains (ok) "err = Success" "idvec_wf v'" "idvec_list v' = insert_at pos x (idvec_list v)"
  | (nomem) "err = ENOMEM" "v' = v"
proof -
  define n where "n = num v"
  define m where "m = (if pos < n then n + 1 else pos + 1)"
  define need where "need = (if alloced v = n then m + n else m)"
  have lim: "m < 2 ^ 32" "need < 2 ^ 32" "m \<le> need"
    using b by (auto simp: n_def m_def need_def)
  have small: "pos + 1 < 2 ^ 32" "n + 1 < 2 ^ 32"
    using b by (auto simp: n_def)
  obtain e w o1 where ens: "idvec_ensure v need orc = (e, w, o1)"
    by (metis prod_cases3)
  have new_num: "(if pos < num v then u32_wrap (num v + 1) else u32_wrap (pos + 1)) = m"
    using small by (simp add: m_def n_def)
  have need: "(if alloced v = num v then idvec_ensure v (u32_wrap (m + num v)) orc
      else idvec_ensure v m orc) = (e, w, o1)"
    using ens lim by (auto simp: need_def n_def)
  have unf: "(err, v', orc') =
      (if e = Success then
         (Success, w\<lparr>ids := (if pos < n then memmove (ids w) (pos + 1) pos (n - pos)
                     else if pos > n then memset (ids w) n 0 (pos - n) else ids w)[pos := x],
           num := m\<rparr>, o1) else (e, w, o1))"
    using ins unfolding idvec_insert_def Let_def new_num need n_def by simp
  show thesis
    using wf lim(2) ens
  proof (cases rule: idvec_ensure_cases)
    case nomem
    then show ?thesis using unf that(2) by simp
  next
    case ok
    define a where "a = ids w"
    define a' where "a' = (if pos < n then memmove a (pos + 1) pos (n - pos)
                     else if pos > n then memset a n 0 (pos - n) else a)"
    have la: "need \<le> length a" "length a < 2 ^ 32" "length a = alloced w"
      using ok by (auto simp: idvec_wf_def a_def)
    have ml: "m \<le> length a" "pos < m" "n < m"
      using la lim by (auto simp: m_def)
    have la': "length a' = length a"
      using ml by (auto simp: a'_def m_def)
    have tk: "take n a = idvec_list v"
      using ok by (simp add: idvec_list_def a_def n_def)
    have v': "err = Success" "v' = w\<lparr>ids := a'[pos := x], num := m\<rparr>"
      using unf ok by (simp_all add: a_def a'_def)
    have "idvec_wf v'"
      using la la' ml by (simp add: v' idvec_wf_def)
    moreover have lst: "idvec_list v' = take m (a'[pos := x])"
      by (simp add: v' idvec_list_def)
    have "idvec_list v' = insert_at pos x (idvec_list v)"
    proof (cases "pos < n")
      case True
      have "take m (a'[pos := x]) = take pos a @ x # take (n - pos) (drop pos a)"
        using True ml
        by (simp add: m_def a'_def memmove_def list_update_append take_Cons' take_Suc_conv_app_nth)
      also have "take (n - pos) (drop pos a) = drop pos (take n a)"
        using True by (simp add: take_drop)
      also have "take pos a = take pos (take n a)"
        using True by (simp add: min_def)
      finally show ?thesis
        using True wf unfolding tk by (simp add: lst insert_at_def n_def)
    next
      case False
      have "take (Suc pos) (a'[pos := x]) = take pos a' @ [x]"
        using ml la' by (intro take_Suc_list_update) simp
      also have "take pos a' = take n a @ replicate (pos - n) 0"
        using False ml by (auto simp: a'_def memset_def)
      finally have "take m (a'[pos := x]) = take n a @ replicate (pos - n) 0 @ [x]"
        using False by (simp add: m_def)
      moreover have "length (idvec_list v) = n"
        using wf by (simp add: n_def)
      ultimately show ?thesis
        using False unfolding tk by (simp add: lst insert_at_def)
    qed
    ultimately show ?thesis using that(1) v'(1) by blast
  qed
qed

lemma insert_at_end [simp]: "insert_at (length l) x l = l @ [x]"
  by (simp add: insert_at_def)

lemma idvec_add_cases:
  assumes "idvec_wf v" and "num v < 2 ^ 31" and "idvec_add v x orc = (err, v', orc')"
  obtains (ok) "err = Success" "idvec_wf v'" "idvec_list v' = idvec_list v @ [x]"
      "num v' = Suc (num v)"
  | (nomem) "err = ENOMEM" "v' = v"
proof (rule idvec_insert_cases [OF assms(1,2,2) assms(3) [unfolded idvec_add_def]])
  assume "err = Success" "idvec_wf v'" "idvec_list v' = insert_at (num v) x (idvec_list v)"
  moreover have "insert_at (num v) x (idvec_list v) = idvec_list v @ [x]"
    by (metis assms(1) insert_at_end length_idvec_list)
  ultimately show thesis
    using that(1) by (metis assms(1) length_append_singleton length_idvec_list)
qed (rule that(2))

subsection \<open>Replacing and merging\<close>

lemma idvec_set_ids_cases:
  assumes "idvec_wf v" and "n < 2 ^ 32" and "n \<le> length xs"
    and "idvec_set_ids v xs n orc = (err, v', orc')"
  obtains (ok) "err = Success" "idvec_wf v'" "idvec_list v' = take n xs"
  | (nomem) "err = ENOMEM" "v' = v"
proof -
  obtain e w o1 where ens: "idvec_ensure v n orc = (e, w, o1)"
    by (metis prod_cases3)
  from assms(1,2) ens show thesis
  proof (cases rule: idvec_ensure_cases)
    case ok
    then have "err = Success" "idvec_wf v'" "idvec_list v' = take n xs"
      using assms(3,4) ens
      by (auto simp: idvec_set_ids_def idvec_wf_def idvec_list_def memcpy_def split: if_splits)
    then show ?thesis by (rule that(1))
  next
    case nomem
    then show ?thesis using assms(4) ens that(2) by (simp add: idvec_set_ids_def)
  qed
qed

lemma merge_search_iff:
  "i \<le> n \<Longrightarrow> n \<le> length a \<Longrightarrow> merge_search a i n x = n \<longleftrightarrow> x \<notin> set (drop i (take n a))"
proof (induction a i n x rule: merge_search.induct)
  case (1 a i n x)
  show ?case
  proof (cases "i < n")
    case True
    then have "drop i (take n a) = a ! i # drop (Suc i) (take n a)"
      using "1.prems" by (simp add: Cons_nth_drop_Suc [symmetric])
    then show ?thesis
      using True "1.IH" "1.prems" by (subst merge_search.simps) auto
  next
    case False
    then show ?thesis using "1.prems" by (subst merge_search.simps) simp
  qed
qed

text \<open>
  While the loop runs, the first \<open>num_old\<close> cells hold the original ids \<open>l\<close>, followed
  by the ids added so far.
\<close>

lemma merge_ids_loop_cases:
  assumes "idvec_wf v" and "idvec_list v = l @ acc" and "num v + length xs < 2 ^ 31"
    and "merge_ids_loop (length l) v xs orc = (err, v', orc')"
  obtains (ok) "err = Success" "idvec_wf v'" "idvec_list v' = l @ acc @ filter (\<lambda>x. x \<notin> set l) xs"
  | (nomem) k where "err = ENOMEM" "idvec_wf v'"
      "idvec_list v' = l @ acc @ filter (\<lambda>x. x \<notin> set l) (take k xs)"
proof -
  have "err = Success \<and> idvec_wf v' \<and> idvec_list v' = l @ acc @ filter (\<lambda>x. x \<notin> set l) xs \<or>
    err = ENOMEM \<and> idvec_wf v' \<and>
      (\<exists>k. idvec_list v' = l @ acc @ filter (\<lambda>x. x \<notin> set l) (take k xs))"
    using assms
  proof (induction xs arbitrary: v acc orc)
    case Nil
    then show ?case by simp
  next
    case (Cons x xs)
    have len: "length l + length acc = num v" "num v \<le> length (ids v)"
      using Cons.prems(1,2) length_idvec_list [of v] by (simp_all add: idvec_wf_def)
    have "take (length l) (ids v) = l"
      using Cons.prems(2) len(1)
      by (metis append_eq_append_conv_if idvec_list_def le_add1 length_append min.absorb1 take_take
          append_eq_conv_conj)
    then have srch: "merge_search (ids v) 0 (length l) x = length l \<longleftrightarrow> x \<notin> set l"
      using len by (subst merge_search_iff) auto
    show ?case
    proof (cases "x \<in> set l")
      case True
      then have "merge_ids_loop (length l) v xs orc = (err, v', orc')"
        using Cons.prems(4) srch by simp
      from Cons.IH [OF Cons.prems(1,2) _ this] Cons.prems(3) True
      have "err = Success \<and> idvec_wf v' \<and> idvec_list v' = l @ acc @ filter (\<lambda>x. x \<notin> set l) xs \<or>
        err = ENOMEM \<and> idvec_wf v' \<and>
          (\<exists>k. idvec_list v' = l @ acc @ filter (\<lambda>x. x \<notin> set l) (take k xs))" by simp
      then show ?thesis using True by (auto intro: exI [of _ "Suc _"])
    next
      case False
      obtain e w o1 where add: "idvec_add v x orc = (e, w, o1)"
        by (metis prod_cases3)
      have "num v < 2 ^ 31" using Cons.prems(3) by simp
      with Cons.prems(1) show ?thesis using add
      proof (cases rule: idvec_add_cases)
        case nomem
        then have "err = ENOMEM" "v' = v" using Cons.prems(4) srch False add by simp_all
        then show ?thesis using Cons.prems(1,2) by (auto intro: exI [of _ 0])
      next
        case ok
        then have "merge_ids_loop (length l) w xs o1 = (err, v', orc')"
          using Cons.prems(4) srch False add by simp
        from Cons.IH [OF ok(2) _ _ this, of "acc @ [x]"] Cons.prems(2,3) ok
        have "err = Success \<and> idvec_wf v' \<and>
            idvec_list v' = l @ (acc @ [x]) @ filter (\<lambda>x. x \<notin> set l) xs \<or>
          err = ENOMEM \<and> idvec_wf v' \<and>
            (\<exists>k. idvec_list v' = l @ (acc @ [x]) @ filter (\<lambda>x. x \<notin> set l) (take k xs))" by simp
        then show ?thesis using False by (auto intro: exI [of _ "Suc _"])
      qed
    qed
  qed
  then show thesis using that by blast
qed

lemma idvec_merge_ids_cases:
  assumes "idvec_wf v" and "num v + n < 2 ^ 31" and "n \<le> length xs"
    and "idvec_merge_ids v xs n orc = (err, v', orc')"
  obtains (ok) "err = Success" "idvec_wf v'"
      "idvec_list v' = idvec_list v @ filter (\<lambda>x. x \<notin> set (idvec_list v)) (take n xs)"
  | (nomem) k where "err = ENOMEM" "idvec_wf v'"
      "idvec_list v' = idvec_list v @ filter (\<lambda>x. x \<notin> set (idvec_list v)) (take k xs)"
proof (rule merge_ids_loop_cases [of v "idvec_list v" "[]" "take n xs" orc err v' orc'])
  show "merge_ids_loop (length (idvec_list v)) v (take n xs) orc = (err, v', orc')"
    using assms by (simp add: idvec_merge_ids_def)
qed (use assms that in \<open>auto simp: take_take\<close>)

subsection \<open>Removing\<close>

lemma remove_loop_spec:
  assumes "targ \<le> src" and "src + left \<le> length a"
    and "remove_loop left src targ a x = (s', t', a')"
  shows "s' = src + left \<and> length a' = length a \<and>
    t' = targ + length (filter (\<lambda>y. y \<noteq> x) (take left (drop src a))) \<and>
    take t' a' = take targ a @ filter (\<lambda>y. y \<noteq> x) (take left (drop src a))"
  using assms
proof (induction left arbitrary: src targ a)
  case 0
  then show ?case by simp
next
  case (Suc left)
  let ?b = "if src \<noteq> targ then a[targ := a ! src] else a"
  have cons: "take (Suc left) (drop src a) = a ! src # take left (drop (Suc src) a)"
    using Suc.prems(2) by (simp add: Cons_nth_drop_Suc [symmetric])
  show ?case
  proof (cases "a ! src = x")
    case True
    then have "remove_loop left (src + 1) targ a x = (s', t', a')"
      using Suc.prems(3) by simp
    then show ?thesis
      using Suc.IH [of targ "src + 1" a] Suc.prems(1,2) True unfolding cons by auto
  next
    case False
    have b: "length ?b = length a" "drop (Suc src) ?b = drop (Suc src) a"
      "take (Suc targ) ?b = take targ a @ [a ! src]"
      using Suc.prems(1,2) by (auto simp: take_Suc_conv_app_nth)
    have "remove_loop left (src + 1) (targ + 1) ?b x = (s', t', a')"
      using Suc.prems(3) False by simp
    then show ?thesis
      using Suc.IH [of "targ + 1" "src + 1" ?b] Suc.prems(1,2) False b unfolding cons by auto
  qed
qed

lemma filter_eq_self: "length (filter P xs) = length xs \<Longrightarrow> filter P xs = xs"
  by (metis filter_True length_filter_less nat_neq_iff)

lemma length_filter_iff: "length (filter P xs) = length xs \<longleftrightarrow> (\<forall>x \<in> set xs. P x)"
  by (metis filter_eq_self filter_id_conv)

lemma idvec_remove_spec:
  assumes wf: "idvec_wf v" and rm: "idvec_remove v pos x = (r, v')"
  shows "idvec_wf v' \<and> num v' \<le> num v \<and>
    idvec_list v' = take pos (idvec_list v) @ filter (\<lambda>y. y \<noteq> x) (drop pos (idvec_list v)) \<and>
    (r \<longleftrightarrow> x \<in> set (drop pos (idvec_list v)))"
proof (cases "pos < num v")
  case True
  obtain s t a where loop: "remove_loop (num v - pos) pos pos (ids v) x = (s, t, a)"
    by (metis prod_cases3)
  let ?d = "drop pos (idvec_list v)" and ?f = "filter (\<lambda>y. y \<noteq> x) (drop pos (idvec_list v))"
  have d: "take (num v - pos) (drop pos (ids v)) = ?d"
    using True by (simp add: idvec_list_def take_drop)
  have tp: "take pos (ids v) = take pos (idvec_list v)"
    using True by (simp add: idvec_list_def min_def)
  have sp: "s = num v" "length a = length (ids v)" "t = pos + length ?f"
    "take t a = take pos (idvec_list v) @ ?f"
    using remove_loop_spec [OF _ _ loop] wf True unfolding d tp by (auto simp: idvec_wf_def)
  have ld: "length ?d = num v - pos" using wf by simp
  have lf: "length ?f \<le> length ?d" by (rule length_filter_le)
  show ?thesis
  proof (cases "s = t")
    case eq: True
    then have "?f = ?d" using sp ld True by (intro filter_eq_self) simp
    then have nx: "x \<notin> set ?d" by (metis (mono_tags, lifting) mem_Collect_eq set_filter)
    have "r = False" "v' = v\<lparr>ids := a\<rparr>"
      using rm loop True eq by (simp_all add: idvec_remove_def)
    then show ?thesis using sp eq wf nx by (simp add: idvec_wf_def)
  next
    case ne: False
    then have "?f \<noteq> ?d" using sp ld True by auto
    then have nx: "x \<in> set ?d" by (metis (mono_tags, lifting) filter_True)
    have "r = True" "v' = v\<lparr>ids := a, num := t\<rparr>"
      using rm loop True ne by (simp_all add: idvec_remove_def)
    moreover have "t \<le> num v" using sp(3) lf ld True by linarith
    ultimately show ?thesis
      using sp wf nx by (simp add: idvec_wf_def)
  qed
next
  case False
  then show ?thesis using rm wf by (auto simp: idvec_remove_def)
qed

lemma subtract_loop_spec:
  assumes "idvec_wf v" and "subtract_loop v xs d = (r, v')"
  shows "idvec_wf v' \<and> idvec_list v' = filter (\<lambda>y. y \<notin> set xs) (idvec_list v) \<and>
    (r \<longleftrightarrow> d \<or> (\<exists>x \<in> set xs. x \<in> set (idvec_list v)))"
  using assms
proof (induction xs arbitrary: v d)
  case Nil
  then show ?case by simp
next
  case (Cons x xs)
  obtain q w where rm: "idvec_remove v 0 x = (q, w)" by fastforce
  from idvec_remove_spec [OF Cons.prems(1) rm] have w: "idvec_wf w"
    "idvec_list w = filter (\<lambda>y. y \<noteq> x) (idvec_list v)" "q \<longleftrightarrow> x \<in> set (idvec_list v)"
    by simp_all
  have "subtract_loop w xs (d \<or> q) = (r, v')"
    using Cons.prems(2) rm by simp
  from Cons.IH [OF w(1) this] w(2,3) show ?case
    by (auto simp: conj_commute)
qed

lemma keep_loop_spec:
  assumes "new \<le> old" and "old \<le> e" and "e \<le> length a" and "idvec_wf keep"
    and "keep_loop old new e a keep = (o', n', a')"
  shows "o' = e \<and> length a' = length a \<and>
    n' = new + length (filter (idvec_contains keep) (drop old (take e a))) \<and>
    take n' a' = take new a @ filter (idvec_contains keep) (drop old (take e a))"
  using assms
proof (induction old new e a keep rule: keep_loop.induct)
  case (1 old new e a keep)
  show ?case
  proof (cases "old < e")
    case False
    then show ?thesis using "1.prems" by (subst (asm) keep_loop.simps) auto
  next
    case True
    let ?x = "a ! old"
    let ?b = "if old + 1 \<noteq> new then a[new := ?x] else a"
    have cons: "drop old (take e a) = ?x # drop (Suc old) (take e a)"
      using True "1.prems" by (simp add: Cons_nth_drop_Suc [symmetric])
    show ?thesis
    proof (cases "idvec_contains keep ?x")
      case False
      then have "keep_loop (old + 1) new e a keep = (o', n', a')"
        using "1.prems"(5) True by (subst (asm) keep_loop.simps) (simp add: Let_def)
      then show ?thesis
        using "1.IH"(2) [OF True refl refl False] "1.prems" True False unfolding cons by auto
    next
      case in_keep: True
      have b: "length ?b = length a" "drop (Suc old) (take e ?b) = drop (Suc old) (take e a)"
        "take (Suc new) ?b = take new a @ [?x]"
        using True "1.prems" by (auto simp: take_Suc_conv_app_nth drop_take)
      have "keep_loop (old + 1) (new + 1) e ?b keep = (o', n', a')"
        using "1.prems"(5) True in_keep by (subst (asm) keep_loop.simps) (simp add: Let_def)
      then show ?thesis
        using "1.IH"(1) [OF True refl refl in_keep] "1.prems" True in_keep b unfolding cons by auto
    qed
  qed
qed

lemma idvec_keep_spec:
  assumes wf: "idvec_wf v" and wk: "idvec_wf keep" and kp: "idvec_keep v keep = (r, v')"
  shows "idvec_wf v' \<and> idvec_list v' = filter (\<lambda>x. x \<in> set (idvec_list keep)) (idvec_list v) \<and>
    (r \<longleftrightarrow> \<not> set (idvec_list v) \<subseteq> set (idvec_list keep))"
proof -
  obtain old new a where loop: "keep_loop 0 0 (num v) (ids v) keep = (old, new, a)"
    by (metis prod_cases3)
  let ?f = "filter (\<lambda>x. x \<in> set (idvec_list keep)) (idvec_list v)"
  have fc: "filter (idvec_contains keep) (idvec_list v) = ?f"
    using wk by (intro filter_cong) auto
  have sp: "old = num v" "length a = length (ids v)" "new = length ?f" "take new a = ?f"
    using keep_loop_spec [OF _ _ _ wk loop] wf fc by (auto simp: idvec_wf_def idvec_list_def)
  have le: "length ?f \<le> num v" using wf length_filter_le [of _ "idvec_list v"] by simp
  have full: "length ?f = num v \<longleftrightarrow> set (idvec_list v) \<subseteq> set (idvec_list keep)"
    unfolding length_idvec_list [OF wf, symmetric] length_filter_iff by blast
  show ?thesis
  proof (cases "old = new")
    case True
    then have "r = False" "v' = v\<lparr>ids := a\<rparr>"
      using kp loop by (simp_all add: idvec_keep_def)
    moreover have "idvec_list (v\<lparr>ids := a\<rparr>) = ?f"
      using True sp by simp
    ultimately show ?thesis using True sp full wf by (simp add: idvec_wf_def)
  next
    case False
    then have "r = True" "v' = v\<lparr>ids := a, num := new\<rparr>"
      using kp loop by (simp_all add: idvec_keep_def)
    moreover have "idvec_list (v\<lparr>ids := a, num := new\<rparr>) = ?f"
      using sp by simp
    ultimately show ?thesis using False sp le full wf by (simp add: idvec_wf_def)
  qed
qed

lemma idvec_delete_spec:
  assumes "idvec_wf v"
  shows "idvec_wf (idvec_delete v pos) \<and>
    idvec_list (idvec_delete v pos) = take pos (idvec_list v) @ drop (Suc pos) (idvec_list v)"
proof (cases "pos < num v")
  case True
  let ?n = "num v - 1"
  let ?a = "if ?n > pos then memmove (ids v) pos (pos + 1) (?n - pos) else ids v"
  have del: "idvec_delete v pos = v\<lparr>ids := ?a, num := ?n\<rparr>"
    using True by (simp add: idvec_delete_def Let_def)
  have len: "num v \<le> length (ids v)" using assms by (simp add: idvec_wf_def)
  have "length ?a = length (ids v)" using True len by simp
  moreover have "take ?n ?a = take pos (ids v) @ take (?n - pos) (drop (Suc pos) (ids v))"
  proof (cases "?n > pos")
    case False
    then have "?n = pos" using True by simp
    with False show ?thesis by simp
  qed (use len in \<open>simp add: memmove_def\<close>)
  moreover have "take pos (idvec_list v) = take pos (ids v)"
    using True by (simp add: idvec_list_def min_def)
  moreover have "drop (Suc pos) (idvec_list v) = take (?n - pos) (drop (Suc pos) (ids v))"
    by (simp add: idvec_list_def drop_take)
  ultimately show ?thesis
    using assms unfolding del by (auto simp: idvec_wf_def)
next
  case False
  then show ?thesis using assms by (simp add: idvec_delete_def)
qed

lemma idvec_insert_only_cases:
  assumes wf: "idvec_wf v" and b: "num v < 2 ^ 31" "pos \<le> num v"
    and ins: "idvec_insert_only v pos x orc = (err, v', orc')"
  obtains (ok) "err = Success" "idvec_wf v'" "\<exists>r. idvec_list v' = take pos (idvec_list v) @ x # r"
      "set (idvec_list v') = insert x (set (idvec_list v))"
  | (nomem) "err = ENOMEM" "idvec_wf v'"
proof (cases "num v > pos \<and> ids v ! pos = x")
  case True
  then have "idvec_list v = take pos (idvec_list v) @ x # drop (Suc pos) (idvec_list v)"
    using wf by (metis id_take_nth_drop idvec_list_nth length_idvec_list)
  moreover from this have "x \<in> set (idvec_list v)" by (metis in_set_conv_decomp)
  ultimately show ?thesis
    using True ins wf that(1) by (auto simp: idvec_insert_only_def)
next
  case False
  obtain q w where rm: "idvec_remove v pos x = (q, w)" by fastforce
  let ?l = "idvec_list v"
  from idvec_remove_spec [OF wf rm] have w: "idvec_wf w" "num w \<le> num v"
    "idvec_list w = take pos ?l @ filter (\<lambda>y. y \<noteq> x) (drop pos ?l)" by simp_all
  have len: "length (take pos ?l) = pos" using wf b by simp
  have "num w < 2 ^ 31" "pos < 2 ^ 31" using w(2) b by simp_all
  with w(1) have ins': "idvec_insert w pos x orc = (err, v', orc')"
    using ins rm False by (auto simp: idvec_insert_only_def)
  from w(1) \<open>num w < 2 ^ 31\<close> \<open>pos < 2 ^ 31\<close> ins' show ?thesis
  proof (cases rule: idvec_insert_cases)
    case ok
    have "set (take pos ?l) \<union> set (drop pos ?l) = set ?l"
      by (metis append_take_drop_id set_append)
    then have "set (idvec_list v') = insert x (set ?l)"
      using ok(3) w(3) len by (auto simp: insert_at_def)
    moreover have "idvec_list v' = take pos ?l @ x # filter (\<lambda>y. y \<noteq> x) (drop pos ?l)"
      using ok(3) w(3) len by (simp add: insert_at_def)
    ultimately show ?thesis using ok that(1) by blast
  next
    case nomem
    then show ?thesis using w that(2) by simp
  qed
qed

subsection \<open>Setting an id\<close>

lemma idvec_add_new_cases:
  assumes "idvec_wf v" and "num v < 2 ^ 31" and "idvec_add_new v x orc = (err, v', orc')"
  obtains (ok) "err = Success" "idvec_wf v'" "num v' \<le> Suc (num v)"
      "idvec_list v' = idvec_list v @ (if x \<in> set (idvec_list v) then [] else [x])"
  | (nomem) "err = ENOMEM" "v' = v"
proof (cases "x \<in> set (idvec_list v)")
  case True
  then show ?thesis using assms that(1) by (simp add: idvec_add_new_def)
next
  case False
  then have "idvec_add v x orc = (err, v', orc')"
    using assms by (simp add: idvec_add_new_def)
  with assms(1,2) show ?thesis
    by (cases rule: idvec_add_cases) (use that False in auto)
qed

text \<open>
  The two phases of \<open>idvec_setid\<close> on the list level: the new effective ids, then the
  available ids with \<open>x\<close> in second place.
\<close>

lemma setid_first_phase:
  assumes wf: "idvec_wf eff" "idvec_wf avail" and b: "num eff < 2 ^ 31" "num avail + 1 < 2 ^ 31"
    and ph: "(if num eff > 0 then
               (case idvec_add_new avail (ids eff ! 0) orc of
                  (Success, av, o1) \<Rightarrow> (Success, eff\<lparr>ids := (ids eff)[0 := x]\<rparr>, av, o1)
                | (err, av, o1) \<Rightarrow> (err, eff, av, o1))
             else
               (case idvec_add eff x orc of (err, ef, o1) \<Rightarrow> (err, ef, avail, o1))) =
         (Success, ef, av, o1)"
  shows "idvec_wf ef \<and> idvec_wf av \<and> idvec_list ef = x # tl (idvec_list eff) \<and>
      set (idvec_list av) = set (take 1 (idvec_list eff)) \<union> set (idvec_list avail) \<and>
      num av \<le> num avail + 1"
proof (cases "num eff > 0")
  case True
  obtain e w o2 where add: "idvec_add_new avail (ids eff ! 0) orc = (e, w, o2)"
    by (metis prod_cases3)
  have es: "e = Success" "ef = eff\<lparr>ids := (ids eff)[0 := x]\<rparr>" "av = w"
    using ph True add by (cases e; simp)+
  have hd: "take 1 (idvec_list eff) = [ids eff ! 0]" "idvec_list ef = x # tl (idvec_list eff)"
    using True wf es by (cases "ids eff"; simp add: idvec_list_def idvec_wf_def take_Cons')+
  have "num avail < 2 ^ 31" using b by simp
  with wf(2) have "idvec_wf w \<and> num w \<le> num avail + 1 \<and>
      set (idvec_list w) = insert (ids eff ! 0) (set (idvec_list avail))"
    using add es(1) by (cases rule: idvec_add_new_cases) auto
  then show ?thesis using wf es hd by (auto simp: idvec_wf_def)
next
  case False
  obtain e w o2 where add: "idvec_add eff x orc = (e, w, o2)"
    by (metis prod_cases3)
  have es: "e = Success" "ef = w" "av = avail"
    using ph False add by simp_all
  from wf(1) b(1) add have "idvec_wf w \<and> idvec_list w = idvec_list eff @ [x]"
    using es(1) by (cases rule: idvec_add_cases) auto
  moreover have "idvec_list eff = []" using False by (simp add: idvec_list_def)
  ultimately show ?thesis using wf es by simp
qed

lemma setid_second_phase:
  assumes wf: "idvec_wf av" and b: "num av < 2 ^ 31"
    and ph: "(if num av > 0 then idvec_insert_only av 1 x o1 else (Success, av, o1)) =
      (Success, av2, o2)"
  shows "idvec_wf av2 \<and> set (idvec_list av) \<subseteq> set (idvec_list av2) \<and>
      set (idvec_list av2) \<subseteq> insert x (set (idvec_list av)) \<and>
      (idvec_list av2 \<noteq> [] \<longrightarrow> 2 \<le> num av2 \<and> idvec_list av2 ! 1 = x)"
proof (cases "num av > 0")
  case True
  then have "1 \<le> num av" "idvec_insert_only av 1 x o1 = (Success, av2, o2)"
    using ph by simp_all
  with wf b show ?thesis
  proof (cases rule: idvec_insert_only_cases)
    case ok
    then obtain r where r: "idvec_list av2 = take 1 (idvec_list av) @ x # r" by blast
    have "length (take 1 (idvec_list av)) = 1" using wf True by simp
    then have "idvec_list av2 ! 1 = x" "2 \<le> length (idvec_list av2)"
      using r by (simp_all add: nth_append)
    then show ?thesis using ok by auto
  qed simp
next
  case False
  then have "av2 = av" "idvec_list av = []"
    using ph by (simp_all add: idvec_list_def)
  then show ?thesis using wf by simp
qed

lemma idvec_setid_decompose:
  assumes "idvec_setid eff avail x secure orc = (Success, eff', avail', secure', orc')"
  obtains av o1 where
    "(if num eff > 0 then
        (case idvec_add_new avail (ids eff ! 0) orc of
           (Success, av, o1) \<Rightarrow> (Success, eff\<lparr>ids := (ids eff)[0 := x]\<rparr>, av, o1)
         | (err, av, o1) \<Rightarrow> (err, eff, av, o1))
      else
        (case idvec_add eff x orc of (err, ef, o1) \<Rightarrow> (err, ef, avail, o1))) =
     (Success, eff', av, o1)"
    "(if num av > 0 then idvec_insert_only av 1 x o1 else (Success, av, o1)) =
     (Success, avail', orc')"
    "secure' = map_option (\<lambda>s. s \<or> \<not> idvec_contains eff x \<and> \<not> idvec_contains avail x) secure"
  using assms unfolding idvec_setid_def Let_def
  by (force split: prod.splits if_splits option.splits bool.splits)

lemmas idvec_setid_phases = setid_first_phase setid_second_phase

lemma idvec_setid_spec:
  assumes wf: "idvec_wf eff" "idvec_wf avail" and b: "num eff < 2 ^ 31" "num avail + 1 < 2 ^ 31"
    and set: "idvec_setid eff avail x secure orc = (Success, eff', avail', secure', orc')"
  shows "idvec_wf eff' \<and> idvec_wf avail' \<and>
    idvec_list eff' = x # tl (idvec_list eff) \<and>
    set (take 1 (idvec_list eff)) \<union> set (idvec_list avail) \<subseteq> set (idvec_list avail') \<and>
    set (idvec_list avail') \<subseteq>
      insert x (set (take 1 (idvec_list eff)) \<union> set (idvec_list avail)) \<and>
    (idvec_list avail' \<noteq> [] \<longrightarrow> 2 \<le> num avail' \<and> idvec_list avail' ! 1 = x) \<and>
    secure' = map_option
      (\<lambda>s. s \<or> x \<notin> set (idvec_list eff) \<and> x \<notin> set (idvec_list avail)) secure"
proof -
  from set obtain av o1 where first: "(if num eff > 0 then
        (case idvec_add_new avail (ids eff ! 0) orc of
           (Success, av, o1) \<Rightarrow> (Success, eff\<lparr>ids := (ids eff)[0 := x]\<rparr>, av, o1)
         | (err, av, o1) \<Rightarrow> (err, eff, av, o1))
      else
        (case idvec_add eff x orc of (err, ef, o1) \<Rightarrow> (err, ef, avail, o1))) =
     (Success, eff', av, o1)"
    and second: "(if num av > 0 then idvec_insert_only av 1 x o1 else (Success, av, o1)) =
     (Success, avail', orc')"
    and sec: "secure' = map_option
      (\<lambda>s. s \<or> \<not> idvec_contains eff x \<and> \<not> idvec_contains avail x) secure"
    by (rule idvec_setid_decompose)
  from setid_first_phase [OF wf b first] have f: "idvec_wf eff'" "idvec_wf av"
    "idvec_list eff' = x # tl (idvec_list eff)"
    "set (idvec_list av) = set (take 1 (idvec_list eff)) \<union> set (idvec_list avail)"
    "num av < 2 ^ 31"
    using b by auto
  from setid_second_phase [OF f(2,5) second] show ?thesis
    using f sec wf by auto
qed

section \<open>The interface the clients rely on\<close>

text \<open>
  Clients of the vectors (permission checks, the construction of iousers, the auth
  server) use membership and addition at the end. The contract is stated once, over
  the list of ids a vector stands for.
\<close>

locale id_vector =
  fixes vlist :: "'v \<Rightarrow> uid list"
    and vinv :: "'v \<Rightarrow> bool"
    and vcontains :: "'v \<Rightarrow> uid \<Rightarrow> bool"
    and vadd :: "'v \<Rightarrow> uid \<Rightarrow> allocs \<Rightarrow> error_t \<times> 'v \<times> allocs"
  assumes contains_iff: "vinv v \<Longrightarrow> vcontains v x \<longleftrightarrow> x \<in> set (vlist v)"
    and add_success: "vinv v \<Longrightarrow> length (vlist v) < 2 ^ 31 \<Longrightarrow> vadd v x orc = (Success, v', orc') \<Longrightarrow>
      vinv v' \<and> vlist v' = vlist v @ [x]"
    and add_failure: "vinv v \<Longrightarrow> length (vlist v) < 2 ^ 31 \<Longrightarrow> vadd v x orc = (err, v', orc') \<Longrightarrow>
      err \<noteq> Success \<Longrightarrow> err = ENOMEM \<and> v' = v"
begin

lemma any_contains_iff:
  "list_all vinv vs \<Longrightarrow> list_ex (\<lambda>v. vcontains v x) vs \<longleftrightarrow> x \<in> (\<Union>v \<in> set vs. set (vlist v))"
  by (induction vs) (auto simp: contains_iff)

end

interpretation idv: id_vector idvec_list idvec_wf idvec_contains idvec_add
proof unfold_locales
  fix v v' :: idvec and x :: uid and orc orc' :: allocs and err
  show "idvec_wf v \<Longrightarrow> idvec_contains v x \<longleftrightarrow> x \<in> set (idvec_list v)"
    by simp
  show "idvec_wf v' \<and> idvec_list v' = idvec_list v @ [x]"
    if "idvec_wf v" "length (idvec_list v) < 2 ^ 31" "idvec_add v x orc = (Success, v', orc')"
    using that by (auto elim: idvec_add_cases)
  show "err = ENOMEM \<and> v' = v"
    if "idvec_wf v" "length (idvec_list v) < 2 ^ 31" "idvec_add v x orc = (err, v', orc')"
      "err \<noteq> Success"
    using that by (auto elim: idvec_add_cases)
qed

lemma idvec_subtract_spec:
  assumes "idvec_wf v" and "idvec_subtract v sub = (r, v')"
  shows "idvec_wf v' \<and> idvec_list v' = filter (\<lambda>y. y \<notin> set (idvec_list sub)) (idvec_list v) \<and>
    (r \<longleftrightarrow> (\<exists>x \<in> set (idvec_list sub). x \<in> set (idvec_list v)))"
  using subtract_loop_spec [OF assms(1), of "idvec_list sub" False r v'] assms(2)
  by (simp add: idvec_subtract_def idvec_list_def [of sub])

end
