(* ===== verification/Idvec_Props.thy ===== *)
theory Idvec_Props
  imports Idvec "HOL-Library.Code_Target_Nat"
begin

text \<open>
  The properties of the identifier vectors, over the list of ids a vector holds:
  insertion with padding, the set operations, the merge, and the System V rule for
  setting an id.
\<close>

definition example_ids :: idvec where
  "example_ids = \<lparr>ids = [5, 7, 5, 9], num = 3, alloced = 4\<rparr>"

definition example_keep :: idvec where
  "example_keep = \<lparr>ids = [7, 8], num = 2, alloced = 2\<rparr>"

lemma example_ids_wf: "idvec_wf example_ids" "idvec_wf example_keep"
  "idvec_list example_ids = [5, 7, 5]" "idvec_list example_keep = [7, 8]"
  "num example_ids = 3" "num example_keep = 2"
  by (simp_all add: idvec_wf_def idvec_list_def example_ids_def example_keep_def)

section \<open>Inserting\<close>

text \<open>
  C5. \<open>idvec_insert\<close> on a well formed vector, for a position and a length below
  2^31, either succeeds or reports ENOMEM and leaves the vector as it was. On
  success the ids before the position are kept, the positions between the old end
  and the new id are filled with 0, and the ids from the position on move up by one.
\<close>

theorem idvec_insert_refines:
  assumes "idvec_wf v" and "num v < 2 ^ 31" and "pos < 2 ^ 31"
  shows "case idvec_insert v pos x orc of (err, v', orc') \<Rightarrow>
    err = Success \<and> idvec_wf v' \<and>
      idvec_list v' = take pos (idvec_list v) @ replicate (pos - num v) 0 @ x # drop pos (idvec_list v) \<or>
    err = ENOMEM \<and> v' = v"
proof -
  obtain err v' orc' where ins: "idvec_insert v pos x orc = (err, v', orc')" by (metis prod_cases3)
  from assms ins show ?thesis
    by (cases rule: idvec_insert_cases) (simp_all add: ins insert_at_def assms(1))
qed

theorem idvec_insert_refines_witness:
  "idvec_wf example_ids \<and> num example_ids < 2 ^ 31 \<and>
   (case idvec_insert example_ids 5 6 [] of (err, v', orc') \<Rightarrow>
    err = Success \<and> idvec_wf v' \<and>
      idvec_list v' = take 5 (idvec_list example_ids) @ replicate (5 - num example_ids) 0 @
        6 # drop 5 (idvec_list example_ids) \<or>
    err = ENOMEM \<and> v' = example_ids)"
  using idvec_insert_refines [of example_ids 5 6 "[]"] example_ids_wf by simp

section \<open>Set operations\<close>

text \<open>
  \<open>idvec_keep\<close> compacts the array in place: it keeps exactly the ids that occur
  in the other vector, in their order, and returns whether it removed any.
\<close>

theorem idvec_keep_refines:
  assumes "idvec_wf v" and "idvec_wf keep"
  shows "case idvec_keep v keep of (r, v') \<Rightarrow>
    idvec_wf v' \<and> idvec_list v' = filter (\<lambda>x. x \<in> set (idvec_list keep)) (idvec_list v) \<and>
    (r \<longleftrightarrow> \<not> set (idvec_list v) \<subseteq> set (idvec_list keep))"
  using idvec_keep_spec [OF assms] by (cases "idvec_keep v keep") simp

theorem idvec_keep_refines_witness:
  "idvec_wf example_ids \<and> idvec_wf example_keep \<and>
   (case idvec_keep example_ids example_keep of (r, v') \<Rightarrow>
    idvec_wf v' \<and>
    idvec_list v' = filter (\<lambda>x. x \<in> set (idvec_list example_keep)) (idvec_list example_ids) \<and>
    (r \<longleftrightarrow> \<not> set (idvec_list example_ids) \<subseteq> set (idvec_list example_keep)))"
  using example_ids_wf(1,2) idvec_keep_refines [OF example_ids_wf(1,2)] by blast

text \<open>
  \<open>idvec_remove\<close> removes every occurrence of an id from a position on and nothing
  else, \<open>idvec_subtract\<close> removes every id that occurs in the other vector; each
  returns whether anything was removed and keeps the vector well formed.
\<close>

theorem idvec_remove_subtract_refines:
  assumes "idvec_wf v"
  shows "(case idvec_remove v pos x of (r, v') \<Rightarrow>
      idvec_wf v' \<and>
      idvec_list v' = take pos (idvec_list v) @ filter (\<lambda>y. y \<noteq> x) (drop pos (idvec_list v)) \<and>
      (r \<longleftrightarrow> x \<in> set (drop pos (idvec_list v)))) \<and>
    (case idvec_subtract v sub of (r, v') \<Rightarrow>
      idvec_wf v' \<and> idvec_list v' = filter (\<lambda>y. y \<notin> set (idvec_list sub)) (idvec_list v) \<and>
      (r \<longleftrightarrow> set (idvec_list v) \<inter> set (idvec_list sub) \<noteq> {}))"
proof -
  obtain r1 v1 where 1: "idvec_remove v pos x = (r1, v1)" by fastforce
  obtain r2 v2 where 2: "idvec_subtract v sub = (r2, v2)" by fastforce
  show ?thesis
    using idvec_remove_spec [OF assms 1] idvec_subtract_spec [OF assms 2] by (auto simp: 1 2)
qed

theorem idvec_remove_subtract_refines_witness:
  "idvec_wf example_ids \<and>
   (case idvec_remove example_ids 0 5 of (r, v') \<Rightarrow>
      idvec_wf v' \<and>
      idvec_list v' = take 0 (idvec_list example_ids) @
        filter (\<lambda>y. y \<noteq> 5) (drop 0 (idvec_list example_ids)) \<and>
      (r \<longleftrightarrow> 5 \<in> set (drop 0 (idvec_list example_ids)))) \<and>
    (case idvec_subtract example_ids example_keep of (r, v') \<Rightarrow>
      idvec_wf v' \<and>
      idvec_list v' = filter (\<lambda>y. y \<notin> set (idvec_list example_keep)) (idvec_list example_ids) \<and>
      (r \<longleftrightarrow> set (idvec_list example_ids) \<inter> set (idvec_list example_keep) \<noteq> {}))"
  using example_ids_wf(1) idvec_remove_subtract_refines [OF example_ids_wf(1), of 0 5 example_keep]
  by blast

text \<open>
  \<open>idvec_merge_ids\<close> appends those of the given ids that the vector did not hold at
  the start, in their order. It compares with the original ids only: an id that
  occurs twice in the argument and not in the vector is added twice, although the
  header describes the function in terms of \<open>idvec_add_new\<close>. When memory runs out the
  ids before the failing one have been added.
\<close>

theorem idvec_merge_ids_refines:
  assumes "idvec_wf v" and "num v + n < 2 ^ 31" and "n \<le> length xs"
  shows "case idvec_merge_ids v xs n orc of (err, v', orc') \<Rightarrow> idvec_wf v' \<and>
    (err = Success \<and>
       idvec_list v' = idvec_list v @ filter (\<lambda>x. x \<notin> set (idvec_list v)) (take n xs) \<or>
     err = ENOMEM \<and>
       (\<exists>k. idvec_list v' = idvec_list v @ filter (\<lambda>x. x \<notin> set (idvec_list v)) (take k xs)))"
proof -
  obtain err v' orc' where m: "idvec_merge_ids v xs n orc = (err, v', orc')" by (metis prod_cases3)
  from assms m show ?thesis by (cases rule: idvec_merge_ids_cases) (auto simp: m)
qed

theorem idvec_merge_ids_refines_witness:
  "idvec_wf example_ids \<and> num example_ids + 3 < 2 ^ 31 \<and>
   (case idvec_merge_ids example_ids [8, 8, 7] 3 [] of (err, v', orc') \<Rightarrow> idvec_wf v' \<and>
    (err = Success \<and> idvec_list v' = idvec_list example_ids @
        filter (\<lambda>x. x \<notin> set (idvec_list example_ids)) (take 3 [8, 8, 7]) \<or>
     err = ENOMEM \<and> (\<exists>k. idvec_list v' = idvec_list example_ids @
        filter (\<lambda>x. x \<notin> set (idvec_list example_ids)) (take k [8, 8, 7]))))"
  using idvec_merge_ids_refines [of example_ids 3 "[8, 8, 7]" "[]"] example_ids_wf(1,5) by simp

section \<open>Setting an id\<close>

text \<open>
  \<open>idvec_setid\<close>, when it succeeds, makes the new id the first effective id and
  keeps the other effective ids; the old effective id and every available id stay
  available, nothing but the new id is added to them, the new id is in second place
  of the available ids (the saved id) when there are any, and the flag \<open>secure\<close>, if
  asked for, is set exactly when the new id was held in neither vector.
\<close>

theorem idvec_setid_posix:
  assumes "idvec_wf eff" and "idvec_wf avail" and "num eff < 2 ^ 31" and "num avail + 1 < 2 ^ 31"
    and "idvec_setid eff avail x secure orc = (Success, eff', avail', secure', orc')"
  shows "idvec_wf eff' \<and> idvec_wf avail' \<and>
    idvec_list eff' = x # tl (idvec_list eff) \<and>
    set (take 1 (idvec_list eff)) \<union> set (idvec_list avail) \<subseteq> set (idvec_list avail') \<and>
    set (idvec_list avail') \<subseteq> insert x (set (take 1 (idvec_list eff)) \<union> set (idvec_list avail)) \<and>
    (idvec_list avail' \<noteq> [] \<longrightarrow> 2 \<le> num avail' \<and> idvec_list avail' ! 1 = x) \<and>
    secure' = map_option
      (\<lambda>s. s \<or> x \<notin> set (idvec_list eff) \<and> x \<notin> set (idvec_list avail)) secure"
  by (rule idvec_setid_spec [OF assms])

lemma example_setid:
  "idvec_setid example_ids example_keep 11 (Some False) [] =
     (Success, \<lparr>ids = [11, 7, 5, 9], num = 3, alloced = 4\<rparr>,
      \<lparr>ids = [7, 11, 8, 5, 0], num = 4, alloced = 5\<rparr>, Some True, [])"
  by code_simp

theorem idvec_setid_posix_witness:
  "(case idvec_setid example_ids example_keep 11 (Some False) [] of
      (err, eff', avail', secure', orc') \<Rightarrow>
        idvec_list eff' = 11 # tl (idvec_list example_ids) \<and> idvec_list avail' ! 1 = 11)"
  using idvec_setid_posix [OF example_ids_wf(1,2) _ _ example_setid] example_ids_wf
  by (simp add: example_setid idvec_list_def)

end
