(* ===== verification/Iohelp.thy ===== *)
theory Iohelp
  imports Idvec
begin

text \<open>
  The identities of the users of a file, \<^verbatim>\<open>libiohelp/iouser-*.c\<close>: creating, copying
  and restricting an iouser, and obtaining one from the auth server. An out parameter
  of type \<^verbatim>\<open>struct iouser **\<close> is modelled by what it points to when the call returns:
  \<open>Unset\<close> when the call did not write it, \<open>Null\<close>, a user, or \<open>Freed\<close> when it still
  holds the address of a user that has been freed. The auth server is a parameter: the
  list of its replies to the authentication request.
\<close>

section \<open>Data\<close>

record iouser =
  uids :: idvec
  gids :: idvec
  hook :: nat

datatype user_ptr = Unset | Null | Freed | User iouser

section \<open>Creating\<close>

definition iohelp_create_iouser :: "idvec \<Rightarrow> idvec \<Rightarrow> allocs \<Rightarrow> error_t \<times> user_ptr \<times> allocs" where
  "iohelp_create_iouser u g orc =
     (case alloc orc of
        (None, orc') \<Rightarrow> (ENOMEM, Null, orc')
      | (Some _, orc') \<Rightarrow> (Success, User \<lparr>uids = u, gids = g, hook = 0\<rparr>, orc'))"

text \<open>The two vectors every constructor starts with.\<close>

definition make_idvecs :: "allocs \<Rightarrow> (idvec \<times> idvec) option \<times> allocs" where
  "make_idvecs orc =
     (case make_idvec orc of
        (None, o1) \<Rightarrow> (None, o1)
      | (Some u, o1) \<Rightarrow>
          (case make_idvec o1 of (None, o2) \<Rightarrow> (None, o2) | (Some g, o2) \<Rightarrow> (Some (u, g), o2)))"

definition iohelp_create_empty_iouser :: "allocs \<Rightarrow> error_t \<times> user_ptr \<times> allocs" where
  "iohelp_create_empty_iouser orc =
     (case make_idvecs orc of
        (None, o1) \<Rightarrow> (ENOMEM, Null, o1)
      | (Some (u, g), o1) \<Rightarrow> iohelp_create_iouser u g o1)"

definition iohelp_create_simple_iouser :: "uid \<Rightarrow> uid \<Rightarrow> allocs \<Rightarrow> error_t \<times> user_ptr \<times> allocs" where
  "iohelp_create_simple_iouser uid gid orc =
     (case make_idvecs orc of
        (None, o1) \<Rightarrow> (ENOMEM, Null, o1)
      | (Some (u, g), o1) \<Rightarrow>
          (let (err, u', o2) = idvec_add u uid o1
           in if err \<noteq> Success then (err, Null, o2)
              else let (err, g', o3) = idvec_add g gid o2
                   in if err \<noteq> Success then (err, Null, o3) else iohelp_create_iouser u' g' o3))"

definition iohelp_create_complex_iouser ::
  "uid list \<Rightarrow> nat \<Rightarrow> uid list \<Rightarrow> nat \<Rightarrow> allocs \<Rightarrow> error_t \<times> user_ptr \<times> allocs" where
  "iohelp_create_complex_iouser uvec nuids gvec ngids orc =
     (case make_idvecs orc of
        (None, o1) \<Rightarrow> (ENOMEM, Null, o1)
      | (Some (u, g), o1) \<Rightarrow>
          (let (err, u', o2) = idvec_set_ids u uvec nuids o1
           in if err \<noteq> Success then (err, Null, o2)
              else let (err, g', o3) = idvec_set_ids g gvec ngids o2
                   in if err \<noteq> Success then (err, Null, o3) else iohelp_create_iouser u' g' o3))"

section \<open>Copying\<close>

text \<open>Copying and reauthentication make both vectors before they test for failure.\<close>

definition iohelp_dup_iouser :: "iouser \<Rightarrow> allocs \<Rightarrow> error_t \<times> user_ptr \<times> allocs" where
  "iohelp_dup_iouser user orc =
     (case alloc orc of
        (None, o1) \<Rightarrow> (ENOMEM, Null, o1)
      | (Some _, o1) \<Rightarrow>
          (let (u, o2) = make_idvec o1;
               (g, o3) = make_idvec o2
           in if u = None \<or> g = None then (ENOMEM, Null, o3)
              else
                let (err, u', o4) = idvec_set (the u) (uids user) o3
                in if err \<noteq> Success then (err, Null, o4)
                   else let (err, g', o5) = idvec_set (the g) (gids user) o4
                        in if err \<noteq> Success then (err, Null, o5)
                           else (Success, User \<lparr>uids = u', gids = g', hook = 0\<rparr>, o5)))"

section \<open>Restricting\<close>

fun listmember_loop :: "uid list \<Rightarrow> uid \<Rightarrow> nat \<Rightarrow> nat \<Rightarrow> bool" where
  "listmember_loop xs query i 0 = False"
| "listmember_loop xs query i (Suc n) = (if xs ! i = query then True else listmember_loop xs query (i + 1) n)"

definition listmember :: "uid list \<Rightarrow> uid \<Rightarrow> nat \<Rightarrow> bool" where
  "listmember xs query n = listmember_loop xs query 0 n"

text \<open>The loop that adds the ids that satisfy a test, and stops at the first failed addition.\<close>

fun add_matching ::
  "('v \<Rightarrow> uid \<Rightarrow> allocs \<Rightarrow> error_t \<times> 'v \<times> allocs) \<Rightarrow> (uid \<Rightarrow> bool) \<Rightarrow> uid list \<Rightarrow> 'v \<Rightarrow> allocs \<Rightarrow>
   error_t \<times> 'v \<times> allocs" where
  "add_matching add P [] v orc = (Success, v, orc)"
| "add_matching add P (x # xs) v orc =
     (if P x then
        let (err, v', orc') = add v x orc
        in if err \<noteq> Success then (err, v', orc') else add_matching add P xs v' orc'
      else add_matching add P xs v orc)"

definition iohelp_restrict_iouser ::
  "iouser \<Rightarrow> uid list \<Rightarrow> nat \<Rightarrow> uid list \<Rightarrow> nat \<Rightarrow> allocs \<Rightarrow> error_t \<times> user_ptr \<times> allocs" where
  "iohelp_restrict_iouser old us nuids gs ngids orc =
     (if idvec_contains (uids old) 0 then iohelp_create_complex_iouser us nuids gs ngids orc
      else
        (case make_idvecs orc of
           (None, o1) \<Rightarrow> (ENOMEM, Unset, o1)
         | (Some (u, g), o1) \<Rightarrow>
             (let (err, u', o2) = add_matching idvec_add (\<lambda>x. listmember us x nuids)
                                    (take (num (uids old)) (ids (uids old))) u o1
              in if err \<noteq> Success then (err, Unset, o2)
                 else let (err, g', o3) = add_matching idvec_add (\<lambda>x. listmember gs x ngids)
                                            (take (num (gids old)) (ids (gids old))) g o2
                      in if err \<noteq> Success then (err, Unset, o3) else iohelp_create_iouser u' g' o3)))"

section \<open>Reauthentication\<close>

text \<open>
  A reply of the auth server is an error or the four id lists (effective and available
  uids, effective and available gids). The request is repeated while it is interrupted;
  \<open>None\<close> means that the replies ran out and the call is still waiting. Unlike the other
  constructors, \<open>iohelp_reauth\<close> leaves \<open>hook\<close> as the allocation returned it.
\<close>

type_synonym auth_ids = "uid list \<times> uid list \<times> uid list \<times> uid list"

fun server_authenticate :: "(error_t + auth_ids) list \<Rightarrow> (error_t + auth_ids) option" where
  "server_authenticate [] = None"
| "server_authenticate (r # rs) = (if r = Inl EINTR then server_authenticate rs else Some r)"

definition reauth_set_ids ::
  "idvec \<Rightarrow> idvec \<Rightarrow> nat \<Rightarrow> uid list \<Rightarrow> uid list \<Rightarrow> allocs \<Rightarrow> error_t \<times> user_ptr \<times> allocs" where
  "reauth_set_ids u g hk gen_uids gen_gids orc =
     (let (err, u', o1) = idvec_set_ids u gen_uids (length gen_uids) orc
      in if err \<noteq> Success then (err, Null, o1)
         else let (err, g', o2) = idvec_set_ids g gen_gids (length gen_gids) o1
              in if err \<noteq> Success then (err, Null, o2)
                 else (Success, User \<lparr>uids = u', gids = g', hook = hk\<rparr>, o2))"

definition iohelp_reauth ::
  "(error_t + auth_ids) list \<Rightarrow> bool \<Rightarrow> allocs \<Rightarrow> (error_t \<times> user_ptr \<times> allocs) option" where
  "iohelp_reauth replies permit_failure orc =
     (case alloc orc of
        (None, o1) \<Rightarrow> Some (ENOMEM, Null, o1)
      | (Some j, o1) \<Rightarrow>
          (let (u, o2) = make_idvec o1;
               (g, o3) = make_idvec o2
           in if u = None \<or> g = None then Some (ENOMEM, Freed, o3)
              else
                (case server_authenticate replies of
                   None \<Rightarrow> None
                 | Some (Inl err) \<Rightarrow>
                     if permit_failure then Some (reauth_set_ids (the u) (the g) (unat j) [] [] o3)
                     else Some (err, Null, o3)
                 | Some (Inr (gu, au, gg, ag)) \<Rightarrow>
                     Some (reauth_set_ids (the u) (the g) (unat j) gu gg o3))))"

section \<open>The loops\<close>

lemma listmember_loop_iff:
  "i + n \<le> length xs \<Longrightarrow> listmember_loop xs q i n \<longleftrightarrow> q \<in> set (take n (drop i xs))"
proof (induction n arbitrary: i)
  case (Suc n)
  then have "take (Suc n) (drop i xs) = xs ! i # take n (drop (Suc i) xs)"
    by (simp add: Cons_nth_drop_Suc [symmetric])
  then show ?case using Suc by auto
qed simp

lemma listmember_iff [simp]: "n \<le> length xs \<Longrightarrow> listmember xs q n \<longleftrightarrow> q \<in> set (take n xs)"
  by (simp add: listmember_def listmember_loop_iff)

context id_vector
begin

lemma add_matching_ok:
  assumes "vinv v" "length (vlist v) + length xs \<le> 2 ^ 31"
  shows "case add_matching vadd P xs v orc of (err, v', orc') \<Rightarrow>
    vinv v' \<and> (err = Success \<and> vlist v' = vlist v @ filter P xs \<or> err = ENOMEM)"
  using assms
proof (induction xs arbitrary: v orc)
  case (Cons x xs)
  show ?case
  proof (cases "P x")
    case True
    obtain e w o1 where add: "vadd v x orc = (e, w, o1)" by (metis prod_cases3)
    have len: "length (vlist v) < 2 ^ 31" using Cons.prems(2) by simp
    show ?thesis
    proof (cases "e = Success")
      case ok: True
      then have w: "vinv w" "vlist w = vlist v @ [x]"
        using add_success [OF Cons.prems(1) len] add by blast+
      then have "case add_matching vadd P xs w o1 of (err, v', orc') \<Rightarrow>
        vinv v' \<and> (err = Success \<and> vlist v' = vlist w @ filter P xs \<or> err = ENOMEM)"
        using Cons.prems(2) by (intro Cons.IH) auto
      then show ?thesis using True add ok w by auto
    next
      case False
      then show ?thesis
        using True add add_failure [OF Cons.prems(1) len add] Cons.prems(1) by auto
    qed
  qed (use Cons in auto)
qed simp

end

lemma make_idvecs_cases:
  "make_idvecs orc = (r, orc') \<Longrightarrow> r = None \<or> r = Some (idvec_init, idvec_init)"
  by (auto simp: make_idvecs_def dest!: make_idvec_cases split: prod.splits option.splits)

lemma create_iouser_cases:
  "iohelp_create_iouser u g orc = (err, p, orc') \<Longrightarrow>
     err = Success \<and> p = User \<lparr>uids = u, gids = g, hook = 0\<rparr> \<or> err = ENOMEM \<and> p = Null"
  by (auto simp: iohelp_create_iouser_def split: prod.splits option.splits)

lemma set_ids_init:
  assumes "idvec_set_ids idvec_init xs k orc = (err, v, orc')" "k \<le> length xs" "k < 2 ^ 32"
  shows "err = Success \<and> idvec_wf v \<and> idvec_list v = take k xs \<or> err = ENOMEM"
  using idvec_set_ids_cases [OF idvec_wf_init(1) assms(3,2,1)] by blast

lemma add_matching_init:
  assumes "add_matching idvec_add P xs idvec_init orc = (err, v, orc')" "length xs \<le> 2 ^ 31"
  shows "err = Success \<and> idvec_wf v \<and> idvec_list v = filter P xs \<or> err = ENOMEM"
  using idv.add_matching_ok [of idvec_init xs P orc] assms by simp

lemma create_complex_cases:
  assumes "n \<le> length us" "m \<le> length gs" "length us < 2 ^ 32" "length gs < 2 ^ 32"
  shows "case iohelp_create_complex_iouser us n gs m orc of (err, p, orc') \<Rightarrow>
    err = Success \<and> (\<exists>u. p = User u \<and> idvec_wf (uids u) \<and> idvec_wf (gids u) \<and>
        idvec_list (uids u) = take n us \<and> idvec_list (gids u) = take m gs) \<or>
    err = ENOMEM \<and> p = Null"
proof -
  have b: "n < 2 ^ 32" "m < 2 ^ 32" using assms by simp_all
  obtain r o1 where r: "make_idvecs orc = (r, o1)" by fastforce
  obtain e2 u o2 where 2: "idvec_set_ids idvec_init us n o1 = (e2, u, o2)" by (metis prod_cases3)
  obtain e3 g o3 where 3: "idvec_set_ids idvec_init gs m o2 = (e3, g, o3)" by (metis prod_cases3)
  obtain e4 p o4 where 4: "iohelp_create_iouser u g o3 = (e4, p, o4)" by (metis prod_cases3)
  show ?thesis
    using make_idvecs_cases [OF r] set_ids_init [OF 2 assms(1) b(1)] set_ids_init [OF 3 assms(2) b(2)]
      create_iouser_cases [OF 4]
    by (auto simp: iohelp_create_complex_iouser_def r 2 3 4)
qed

lemma restrict_iouser_cases:
  assumes "idvec_wf (uids old)" and "idvec_wf (gids old)"
    and "num (uids old) \<le> 2 ^ 31" and "num (gids old) \<le> 2 ^ 31"
    and "nuids \<le> length us" and "ngids \<le> length gs" and "length us < 2 ^ 32" and "length gs < 2 ^ 32"
  shows "case iohelp_restrict_iouser old us nuids gs ngids orc of (err, p, orc') \<Rightarrow>
    err = Success \<and> (\<exists>u. p = User u \<and> idvec_wf (uids u) \<and> idvec_wf (gids u) \<and>
      (if 0 \<in> set (idvec_list (uids old)) then
         idvec_list (uids u) = take nuids us \<and> idvec_list (gids u) = take ngids gs
       else
         idvec_list (uids u) = filter (\<lambda>x. x \<in> set (take nuids us)) (idvec_list (uids old)) \<and>
         idvec_list (gids u) = filter (\<lambda>x. x \<in> set (take ngids gs)) (idvec_list (gids old)))) \<or>
    err = ENOMEM \<and> (p = Null \<or> p = Unset)"
proof (cases "0 \<in> set (idvec_list (uids old))")
  case True
  then show ?thesis
    using create_complex_cases [OF assms(5-8), of orc] assms(1)
    by (auto simp: iohelp_restrict_iouser_def)
next
  case False
  let ?us = "idvec_list (uids old)" and ?gs = "idvec_list (gids old)"
  obtain r o1 where r: "make_idvecs orc = (r, o1)" by fastforce
  obtain e2 u o2 where 2: "add_matching idvec_add (\<lambda>x. x \<in> set (take nuids us)) ?us idvec_init o1 = (e2, u, o2)"
    by (metis prod_cases3)
  obtain e3 g o3 where 3: "add_matching idvec_add (\<lambda>x. x \<in> set (take ngids gs)) ?gs idvec_init o2 = (e3, g, o3)"
    by (metis prod_cases3)
  obtain e4 p o4 where 4: "iohelp_create_iouser u g o3 = (e4, p, o4)" by (metis prod_cases3)
  have ml: "length ?us \<le> 2 ^ 31" "length ?gs \<le> 2 ^ 31" using assms(1-4) by simp_all
  show ?thesis
    using make_idvecs_cases [OF r] add_matching_init [OF 2 ml(1)] add_matching_init [OF 3 ml(2)]
      create_iouser_cases [OF 4] False assms(1)
    by (auto simp: iohelp_restrict_iouser_def idvec_list_def [symmetric] assms r 2 3 4)
qed

text \<open>
  A restricted user has no more rights than the original. \<open>iohelp_restrict_iouser\<close>
  either fails with ENOMEM and produces no user, or produces one. A superuser obtains
  exactly the requested ids; any other user obtains those of its own uids and gids, in
  their order, that were requested, and so never an id it did not have.
\<close>

theorem iohelp_restrict_iouser_ids:
  assumes "idvec_wf (uids old)" and "idvec_wf (gids old)"
    and "num (uids old) \<le> 2 ^ 31" and "num (gids old) \<le> 2 ^ 31"
    and "nuids \<le> length us" and "ngids \<le> length gs" and "length us < 2 ^ 32" and "length gs < 2 ^ 32"
  shows "case iohelp_restrict_iouser old us nuids gs ngids orc of (err, p, orc') \<Rightarrow>
    err = Success \<and> (\<exists>u. p = User u \<and> idvec_wf (uids u) \<and> idvec_wf (gids u) \<and>
      (if 0 \<in> set (idvec_list (uids old)) then
         idvec_list (uids u) = take nuids us \<and> idvec_list (gids u) = take ngids gs
       else
         idvec_list (uids u) = filter (\<lambda>x. x \<in> set (take nuids us)) (idvec_list (uids old)) \<and>
         idvec_list (gids u) = filter (\<lambda>x. x \<in> set (take ngids gs)) (idvec_list (gids old)))) \<or>
    err = ENOMEM \<and> (p = Null \<or> p = Unset)"
  by (rule restrict_iouser_cases [OF assms])

definition example_user :: iouser where
  "example_user = \<lparr>uids = \<lparr>ids = [1000, 1001], num = 2, alloced = 2\<rparr>,
     gids = \<lparr>ids = [100, 0], num = 1, alloced = 2\<rparr>, hook = 0\<rparr>"

lemma example_user_wf: "idvec_wf (uids example_user)" "idvec_wf (gids example_user)"
  "num (uids example_user) \<le> 2 ^ 31" "num (gids example_user) \<le> 2 ^ 31"
  by (simp_all add: example_user_def idvec_wf_def)

theorem iohelp_restrict_iouser_ids_witness:
  "idvec_wf (uids example_user) \<and> idvec_wf (gids example_user) \<and>
   (case iohelp_restrict_iouser example_user [0, 1001] 2 [100] 1 [] of (err, p, orc') \<Rightarrow>
    err = Success \<and> (\<exists>u. p = User u \<and> idvec_wf (uids u) \<and> idvec_wf (gids u) \<and>
      (if 0 \<in> set (idvec_list (uids example_user)) then
         idvec_list (uids u) = take 2 [0, 1001] \<and> idvec_list (gids u) = take 1 [100]
       else
         idvec_list (uids u) = filter (\<lambda>x. x \<in> set (take 2 [0, 1001])) (idvec_list (uids example_user)) \<and>
         idvec_list (gids u) = filter (\<lambda>x. x \<in> set (take 1 [100])) (idvec_list (gids example_user)))) \<or>
    err = ENOMEM \<and> (p = Null \<or> p = Unset))"
proof -
  have "2 \<le> length [0, 1001 :: uid]" "1 \<le> length [100 :: uid]" "length [0, 1001 :: uid] < 2 ^ 32"
    "length [100 :: uid] < 2 ^ 32" by simp_all
  from iohelp_restrict_iouser_ids [OF example_user_wf this, of "[]"] show ?thesis
    using example_user_wf(1,2) by blast
qed

lemma reauth_set_ids_cases:
  assumes "reauth_set_ids idvec_init idvec_init h us gs orc = (err, p, orc')"
    "length us < 2 ^ 32" "length gs < 2 ^ 32"
  shows "err = Success \<and> (\<exists>u. p = User u \<and> idvec_wf (uids u) \<and> idvec_wf (gids u) \<and>
      idvec_list (uids u) = us \<and> idvec_list (gids u) = gs) \<or> err = ENOMEM \<and> p = Null"
proof -
  obtain e2 u o2 where 2: "idvec_set_ids idvec_init us (length us) orc = (e2, u, o2)" by (metis prod_cases3)
  obtain e3 g o3 where 3: "idvec_set_ids idvec_init gs (length gs) o2 = (e3, g, o3)" by (metis prod_cases3)
  show ?thesis
    using set_ids_init [OF 2 _ assms(2)] set_ids_init [OF 3 _ assms(3)] assms(1)
    by (auto simp: reauth_set_ids_def 2 3 split: if_splits)
qed

lemma server_authenticate_retries:
  "r \<noteq> Inl EINTR \<Longrightarrow> server_authenticate (replicate k (Inl EINTR) @ r # rest) = Some r"
  by (induction k) simp_all

text \<open>
  \<open>iohelp_reauth\<close> repeats the request to the auth server while it is interrupted
  and returns once there is another reply. It then fails for lack of memory; or the
  reply was an error, failure is not permitted, and it returns that error with no
  user; or it yields a user. The user has exactly the effective uids and gids of the
  reply, and none at all when the reply was an error.
\<close>

theorem iohelp_reauth_ids:
  assumes "r \<noteq> Inl EINTR"
    and "case r of Inl e \<Rightarrow> e \<noteq> Success | Inr (gu, au, gg, ag) \<Rightarrow> length gu < 2 ^ 32 \<and> length gg < 2 ^ 32"
  shows "\<exists>err p orc'. iohelp_reauth (replicate k (Inl EINTR) @ r # rest) permit_failure orc = Some (err, p, orc') \<and>
    (err = ENOMEM \<and> (\<forall>u. p \<noteq> User u) \<or>
     r = Inl err \<and> \<not> permit_failure \<and> p = Null \<or>
     err = Success \<and> (isl r \<longrightarrow> permit_failure) \<and>
       (\<exists>u. p = User u \<and> idvec_wf (uids u) \<and> idvec_wf (gids u) \<and>
          (idvec_list (uids u), idvec_list (gids u)) =
             (case r of Inl e \<Rightarrow> ([], []) | Inr (gu, au, gg, ag) \<Rightarrow> (gu, gg))))"
proof -
  note sa = server_authenticate_retries [OF assms(1), of k rest]
  obtain j o1 where 1: "alloc orc = (j, o1)" by fastforce
  obtain u o2 where 2: "make_idvec o1 = (u, o2)" by fastforce
  obtain g o3 where 3: "make_idvec o2 = (g, o3)" by fastforce
  have ug: "u = None \<or> u = Some idvec_init" "g = None \<or> g = Some idvec_init"
    using make_idvec_cases [OF 2] make_idvec_cases [OF 3] by simp_all
  show ?thesis
  proof (cases "j = None \<or> u = None \<or> g = None")
    case True
    then show ?thesis by (auto simp: iohelp_reauth_def 1 2 3 split: option.splits)
  next
    case False
    then obtain h where h: "j = Some h" "u = Some idvec_init" "g = Some idvec_init" using ug by auto
    show ?thesis
    proof (cases r)
      case (Inl e)
      obtain err p o4 where 4: "reauth_set_ids idvec_init idvec_init (unat h) [] [] o3 = (err, p, o4)"
        by (metis prod_cases3)
      from reauth_set_ids_cases [OF 4] show ?thesis using Inl assms(2) sa
        by (cases permit_failure) (auto simp: iohelp_reauth_def 1 2 3 4 h)
    next
      case (Inr t)
      obtain gu au gg ag where t: "t = (gu, au, gg, ag)" by (metis prod_cases4)
      obtain err p o4 where 4: "reauth_set_ids idvec_init idvec_init (unat h) gu gg o3 = (err, p, o4)"
        by (metis prod_cases3)
      from reauth_set_ids_cases [OF 4] show ?thesis using Inr t assms(2) sa
        by (auto simp: iohelp_reauth_def 1 2 3 4 h)
    qed
  qed
qed

theorem iohelp_reauth_ids_witness:
  "\<exists>err p orc'. iohelp_reauth (replicate 2 (Inl EINTR) @ Inl EPERM # []) True [] = Some (err, p, orc') \<and>
    (err = ENOMEM \<and> (\<forall>u. p \<noteq> User u) \<or>
     (Inl EPERM :: error_t + auth_ids) = Inl err \<and> \<not> True \<and> p = Null \<or>
     err = Success \<and>
       (\<exists>u. p = User u \<and> idvec_wf (uids u) \<and> idvec_wf (gids u) \<and>
          (idvec_list (uids u), idvec_list (gids u)) = ([], [])))"
  using iohelp_reauth_ids [of "Inl EPERM" 2 "[]" True "[]"] by simp

text \<open>
  \<open>iohelp_dup_iouser\<close> yields a user with the same uids and gids, and a cleared
  hook, or reports ENOMEM with the out parameter set to null, as its header says.
\<close>

theorem iohelp_dup_iouser_copies:
  assumes "idvec_wf (uids user)" and "idvec_wf (gids user)"
  shows "case iohelp_dup_iouser user orc of (err, p, orc') \<Rightarrow>
    err = Success \<and> (\<exists>u. p = User u \<and> idvec_wf (uids u) \<and> idvec_wf (gids u) \<and> hook u = 0 \<and>
      idvec_list (uids u) = idvec_list (uids user) \<and> idvec_list (gids u) = idvec_list (gids user)) \<or>
    err = ENOMEM \<and> p = Null"
proof -
  obtain j o1 where 1: "alloc orc = (j, o1)" by fastforce
  obtain u o2 where 2: "make_idvec o1 = (u, o2)" by fastforce
  obtain g o3 where 3: "make_idvec o2 = (g, o3)" by fastforce
  obtain e4 u' o4 where 4: "idvec_set idvec_init (uids user) o3 = (e4, u', o4)" by (metis prod_cases3)
  obtain e5 g' o5 where 5: "idvec_set idvec_init (gids user) o4 = (e5, g', o5)" by (metis prod_cases3)
  have b: "num (uids user) \<le> length (ids (uids user))" "num (uids user) < 2 ^ 32"
    "num (gids user) \<le> length (ids (gids user))" "num (gids user) < 2 ^ 32"
    using assms by (simp_all add: idvec_wf_def)
  show ?thesis
    using make_idvec_cases [OF 2] make_idvec_cases [OF 3]
      set_ids_init [OF 4 [unfolded idvec_set_def] b(1,2)] set_ids_init [OF 5 [unfolded idvec_set_def] b(3,4)]
    by (cases j) (auto simp: iohelp_dup_iouser_def idvec_list_def [of "uids user"]
        idvec_list_def [of "gids user"] 1 2 3 4 5)
qed

theorem iohelp_dup_iouser_copies_witness:
  "idvec_wf (uids example_user) \<and> idvec_wf (gids example_user) \<and>
   (case iohelp_dup_iouser example_user [] of (err, p, orc') \<Rightarrow>
    err = Success \<and> (\<exists>u. p = User u \<and> idvec_wf (uids u) \<and> idvec_wf (gids u) \<and> hook u = 0 \<and>
      idvec_list (uids u) = idvec_list (uids example_user) \<and>
      idvec_list (gids u) = idvec_list (gids example_user)) \<or>
    err = ENOMEM \<and> p = Null)"
  using example_user_wf iohelp_dup_iouser_copies [OF example_user_wf(1,2), of "[]"] by blast

end
