(* ===== verification/Fshelp_Perms.thy ===== *)
theory Fshelp_Perms
  imports Iohelp
begin

text \<open>
  The permission checks of \<^verbatim>\<open>libfshelp\<close> (\<^verbatim>\<open>perms-isowner.c\<close>, \<^verbatim>\<open>perms-access.c\<close>,
  \<^verbatim>\<open>perms-checkdirmod.c\<close>, \<^verbatim>\<open>perms-iscontroller.c\<close>). The mode of a file is a 32 bit
  word, of which the code tests bits with shifted masks; the properties state the
  decision in terms of the classes of the POSIX permission model, extended by the
  class of users without any uid.
\<close>

unbundle bit_operations_syntax

section \<open>Data\<close>

record stat =
  st_mode :: u32
  st_uid :: uid
  st_gid :: uid

abbreviation S_IREAD :: u32 where "S_IREAD \<equiv> 0x100"
abbreviation S_IWRITE :: u32 where "S_IWRITE \<equiv> 0x80"
abbreviation S_IEXEC :: u32 where "S_IEXEC \<equiv> 0x40"
abbreviation S_IXUSR :: u32 where "S_IXUSR \<equiv> 0x40"
abbreviation S_IXGRP :: u32 where "S_IXGRP \<equiv> 0x8"
abbreviation S_IXOTH :: u32 where "S_IXOTH \<equiv> 0x1"
abbreviation S_ISVTX :: u32 where "S_ISVTX \<equiv> 0x200"
abbreviation S_IFMT :: u32 where "S_IFMT \<equiv> 0xF000"
abbreviation S_IFREG :: u32 where "S_IFREG \<equiv> 0x8000"
abbreviation S_IUSEUNK :: u32 where "S_IUSEUNK \<equiv> 0x20000"
abbreviation S_IUNKSHIFT :: nat where "S_IUNKSHIFT \<equiv> 12"

definition S_ISREG :: "u32 \<Rightarrow> bool" where
  "S_ISREG m \<longleftrightarrow> m AND S_IFMT = S_IFREG"

section \<open>Operations\<close>

definition fshelp_isowner :: "stat \<Rightarrow> iouser \<Rightarrow> error_t" where
  "fshelp_isowner st user =
     (if idvec_contains (uids user) (st_uid st)
         \<or> idvec_contains (uids user) 0
         \<or> idvec_contains (gids user) (st_gid st) \<and> idvec_contains (uids user) (st_gid st)
      then Success else EPERM)"

definition fshelp_access :: "stat \<Rightarrow> u32 \<Rightarrow> iouser \<Rightarrow> error_t" where
  "fshelp_access st op user =
     (let gotit =
        (if idvec_contains (uids user) 0 then
           op \<noteq> S_IEXEC \<or> \<not> S_ISREG (st_mode st) \<or> st_mode st AND (S_IXUSR OR S_IXGRP OR S_IXOTH) \<noteq> 0
         else if num (uids user) = 0 \<and> st_mode st AND S_IUSEUNK \<noteq> 0 then
           st_mode st AND push_bit S_IUNKSHIFT op \<noteq> 0
         else if fshelp_isowner st user = Success then st_mode st AND op \<noteq> 0
         else if idvec_contains (gids user) (st_gid st) then st_mode st AND drop_bit 3 op \<noteq> 0
         else st_mode st AND drop_bit 6 op \<noteq> 0)
      in if gotit then Success else EACCES)"

definition fshelp_checkdirmod :: "stat \<Rightarrow> stat option \<Rightarrow> iouser \<Rightarrow> error_t" where
  "fshelp_checkdirmod dir st user =
     (let err = fshelp_access dir S_IWRITE user
      in if err \<noteq> Success then err
         else if st_mode dir AND S_ISVTX \<noteq> 0 \<and>
                 (case st of
                    None \<Rightarrow> False
                  | Some s \<Rightarrow> fshelp_isowner dir user \<noteq> Success \<and> fshelp_isowner s user \<noteq> Success)
         then EACCES else Success)"

definition fshelp_iscontroller :: "uid \<Rightarrow> stat \<Rightarrow> iouser \<Rightarrow> error_t" where
  "fshelp_iscontroller geteuid st user =
     (if idvec_contains (uids user) 0
         \<or> idvec_contains (uids user) (st_uid st)
         \<or> idvec_contains (uids user) geteuid
      then Success else EPERM)"

section \<open>Classes\<close>

definition iouser_wf :: "iouser \<Rightarrow> bool" where
  "iouser_wf user \<longleftrightarrow> idvec_wf (uids user) \<and> idvec_wf (gids user)"

abbreviation user_uids :: "iouser \<Rightarrow> uid set" where
  "user_uids user \<equiv> set (idvec_list (uids user))"

abbreviation user_gids :: "iouser \<Rightarrow> uid set" where
  "user_gids user \<equiv> set (idvec_list (gids user))"

definition owns :: "uid set \<Rightarrow> uid set \<Rightarrow> stat \<Rightarrow> bool" where
  "owns U G st \<longleftrightarrow> st_uid st \<in> U \<or> 0 \<in> U \<or> st_gid st \<in> G \<and> st_gid st \<in> U"

text \<open>The lowest mode bit of the permission triple that applies to a user who is not root.\<close>

definition class_shift :: "uid set \<Rightarrow> uid set \<Rightarrow> stat \<Rightarrow> nat" where
  "class_shift U G st =
     (if U = {} \<and> bit (st_mode st) 17 then 18
      else if owns U G st then 6
      else if st_gid st \<in> G then 3
      else 0)"

lemma and_power_2_iff: "m AND 2 ^ n \<noteq> (0 :: u32) \<longleftrightarrow> bit m n"
  by (simp add: and_exp_eq_0_iff_not_bit)

lemma isowner_iff: "iouser_wf user \<Longrightarrow> fshelp_isowner st user = Success \<longleftrightarrow> owns (user_uids user) (user_gids user) st"
  by (simp add: fshelp_isowner_def iouser_wf_def owns_def)

lemma no_uids_iff: "iouser_wf user \<Longrightarrow> num (uids user) = 0 \<longleftrightarrow> user_uids user = {}"
  by (metis iouser_wf_def length_0_conv length_idvec_list set_empty)

lemma access_class:
  assumes "iouser_wf user" "i < 3"
  shows "fshelp_access st (2 ^ (6 + i)) user =
    (if (if 0 \<in> user_uids user then
           i \<noteq> 0 \<or> \<not> S_ISREG (st_mode st) \<or> bit (st_mode st) 0 \<or> bit (st_mode st) 3 \<or> bit (st_mode st) 6
         else bit (st_mode st) (class_shift (user_uids user) (user_gids user) st + i))
     then Success else EACCES)"
proof -
  have op: "push_bit 12 (2 ^ (6 + i) :: u32) = 2 ^ (18 + i)" "drop_bit 3 (2 ^ (6 + i) :: u32) = 2 ^ (3 + i)"
    "drop_bit 6 (2 ^ (6 + i) :: u32) = 2 ^ i" "(2 ^ (6 + i) = S_IEXEC) \<longleftrightarrow> i = 0"
    using assms(2) by (auto simp: less_Suc_eq numeral_3_eq_3 drop_bit_eq_div)
  have x: "st_mode st AND (S_IXUSR OR S_IXGRP OR S_IXOTH) \<noteq> 0 \<longleftrightarrow>
      bit (st_mode st) 0 \<or> bit (st_mode st) 3 \<or> bit (st_mode st) 6"
  proof -
    have "S_IXUSR = 2 ^ 6" "S_IXGRP = 2 ^ 3" "S_IXOTH = 2 ^ 0" by simp_all
    then have "st_mode st AND (S_IXUSR OR S_IXGRP OR S_IXOTH) =
        (st_mode st AND 2 ^ 6) OR (st_mode st AND 2 ^ 3) OR (st_mode st AND 2 ^ 0)"
      by (simp only: bit.conj_disj_distrib)
    then show ?thesis by (auto simp: and_power_2_iff [symmetric] or_eq_0_iff)
  qed
  have unk: "st_mode st AND S_IUSEUNK \<noteq> 0 \<longleftrightarrow> bit (st_mode st) 17"
    using and_power_2_iff [of "st_mode st" 17] by simp
  show ?thesis
    unfolding fshelp_access_def Let_def op x unk and_power_2_iff class_shift_def
      isowner_iff [OF assms(1)] no_uids_iff [OF assms(1)]
    using assms(1) by (auto simp: iouser_wf_def add.commute)
qed

text \<open>
  C6. \<open>fshelp_access\<close> decides by the permission class of the user. For the operation
  whose bit in a permission triple is \<open>i\<close> (0 execute, 1 write, 2 read), root is granted
  everything except executing a regular file that nobody may execute; everybody else
  is granted it exactly when bit \<open>i\<close> of one triple of the mode is set: the triple of
  unknown users if the user has no uid and the mode has S_IUSEUNK, otherwise that of
  the owner, the group or the others, in this order of precedence.
\<close>

theorem fshelp_access_class:
  assumes "iouser_wf user" and "i < 3"
  shows "fshelp_access st (2 ^ (6 + i)) user = Success \<longleftrightarrow>
    (if 0 \<in> user_uids user then
       i \<noteq> 0 \<or> \<not> S_ISREG (st_mode st) \<or> bit (st_mode st) 0 \<or> bit (st_mode st) 3 \<or> bit (st_mode st) 6
     else
       bit (st_mode st)
         (i + (if user_uids user = {} \<and> bit (st_mode st) 17 then 18
               else if owns (user_uids user) (user_gids user) st then 6
               else if st_gid st \<in> user_gids user then 3 else 0)))"
  unfolding access_class [OF assms] class_shift_def by (simp add: add.commute)

definition example_file :: stat where
  "example_file = \<lparr>st_mode = 0x81A0, st_uid = 0, st_gid = 100\<rparr>"

lemma example_user_iouser_wf: "iouser_wf example_user"
  using example_user_wf by (simp add: iouser_wf_def)

theorem fshelp_access_class_witness:
  "iouser_wf example_user \<and> fshelp_access example_file S_IREAD example_user = Success \<and>
   fshelp_access example_file S_IWRITE example_user \<noteq> Success"
proof -
  have u: "idvec_list (uids example_user) = [1000, 1001]" "idvec_list (gids example_user) = [100]"
    by (simp_all add: example_user_def idvec_list_def)
  have "fshelp_access example_file (2 ^ (6 + 2)) example_user = Success"
    by (subst fshelp_access_class [OF example_user_iouser_wf]) (simp_all add: u owns_def example_file_def)
  moreover have "fshelp_access example_file (2 ^ (6 + 1)) example_user \<noteq> Success"
    by (subst fshelp_access_class [OF example_user_iouser_wf]) (simp_all add: u owns_def example_file_def)
  ultimately show ?thesis using example_user_iouser_wf by simp
qed

text \<open>
  \<open>fshelp_checkdirmod\<close> permits a change of a directory exactly when the user may
  write the directory and, if the directory is sticky and the change is about an
  existing file, owns the directory or the file. Otherwise the error is EACCES.
\<close>

theorem fshelp_checkdirmod_sticky:
  assumes "iouser_wf user"
  shows "fshelp_checkdirmod dir st user =
    (if fshelp_access dir S_IWRITE user = Success \<and>
        (bit (st_mode dir) 9 \<longrightarrow>
           (case st of
              None \<Rightarrow> True
            | Some s \<Rightarrow> owns (user_uids user) (user_gids user) dir \<or> owns (user_uids user) (user_gids user) s))
     then Success else EACCES)"
proof -
  have v: "st_mode dir AND S_ISVTX \<noteq> 0 \<longleftrightarrow> bit (st_mode dir) 9"
    using and_power_2_iff [of "st_mode dir" 9] by simp
  have "fshelp_access dir S_IWRITE user \<noteq> Success \<longleftrightarrow> fshelp_access dir S_IWRITE user = EACCES"
    by (simp add: fshelp_access_def)
  then show ?thesis
    unfolding fshelp_checkdirmod_def Let_def v isowner_iff [OF assms] by (auto split: option.splits)
qed

theorem fshelp_checkdirmod_sticky_witness:
  "fshelp_checkdirmod \<lparr>st_mode = 0x43FF, st_uid = 0, st_gid = 0\<rparr> (Some example_file) example_user = EACCES"
proof -
  have u: "idvec_list (uids example_user) = [1000, 1001]" "idvec_list (gids example_user) = [100]"
    by (simp_all add: example_user_def idvec_list_def)
  show ?thesis
    unfolding fshelp_checkdirmod_sticky [OF example_user_iouser_wf]
    by (simp add: u owns_def example_file_def)
qed

end
