(* ===== verification/Fshelp_Lock.thy ===== *)
theory Fshelp_Lock
  imports Hurd_Prelude
begin

text \<open>
  Whole file locks, \<^verbatim>\<open>libfshelp/lock-acquire.c\<close> and \<^verbatim>\<open>lock-init.c\<close>. A call of
  \<open>fshelp_acquire_lock\<close> runs under the mutex of the node, which it gives up only while
  it waits for the condition of the lock box. The code is therefore split at its two
  waiting loops: \<open>fshelp_acquire_lock\<close> is the part up to the first wait,
  \<open>lock_loop_ex\<close> starts at the loop that waits for an exclusive lock to end, and
  \<open>lock_loop_sh\<close> at the loop that waits for the shared locks. The step relation
  interleaves the calls of any number of open files. \<open>None\<close> is a failed assertion.
\<close>

unbundle bit_operations_syntax

section \<open>Data\<close>

abbreviation LOCK_SH :: u32 where "LOCK_SH \<equiv> 1"
abbreviation LOCK_EX :: u32 where "LOCK_EX \<equiv> 2"
abbreviation LOCK_NB :: u32 where "LOCK_NB \<equiv> 4"
abbreviation LOCK_UN :: u32 where "LOCK_UN \<equiv> 8"
abbreviation LOCK_ATOMIC :: u32 where "LOCK_ATOMIC \<equiv> 16"
abbreviation LOCK_UPGRADE :: u32 where "LOCK_UPGRADE \<equiv> 3"

text \<open>
  The condition variable of a box is modelled by whether it has been broadcast since
  the mutex was taken.
\<close>

record lock_box =
  ltype :: u32
  bcast :: bool
  waiting :: bool
  shcount :: int

datatype wait_point = At_ex | At_sh

datatype lock_result = Return error_t | Wait wait_point

type_synonym lock_outcome = "(lock_box \<times> u32 \<times> lock_result) option"

section \<open>Operations\<close>

definition fshelp_lock_init :: "lock_box \<Rightarrow> lock_box" where
  "fshelp_lock_init b = b\<lparr>ltype := LOCK_UN, bcast := False, waiting := False, shcount := 0\<rparr>"

definition lock_wake :: "lock_box \<Rightarrow> lock_box" where
  "lock_wake b = (if waiting b then b\<lparr>waiting := False, bcast := True\<rparr> else b)"

definition lock_loop_sh :: "lock_box \<Rightarrow> u32 \<Rightarrow> u32 \<Rightarrow> bool \<Rightarrow> lock_outcome" where
  "lock_loop_sh b user flags atomic =
     (if user = LOCK_SH \<and> shcount b > 1 \<or> user = LOCK_UN \<and> ltype b \<noteq> LOCK_UN then
        if flags AND LOCK_NB \<noteq> 0 then Some (b, user, Return EAGAIN)
        else
          let b1 = (if user = LOCK_SH \<and> atomic then b\<lparr>ltype := LOCK_SH OR LOCK_EX\<rparr> else b)
          in Some (b1\<lparr>waiting := True\<rparr>, user, Wait At_sh)
      else if user = LOCK_SH then
        if shcount b = 1 then Some (b\<lparr>shcount := 0, ltype := LOCK_EX\<rparr>, LOCK_EX, Return Success)
        else None
      else Some (b\<lparr>ltype := LOCK_EX\<rparr>, LOCK_EX, Return Success))"

definition lock_loop_ex :: "lock_box \<Rightarrow> u32 \<Rightarrow> u32 \<Rightarrow> bool \<Rightarrow> lock_outcome" where
  "lock_loop_ex b user flags atomic =
     (if ltype b AND LOCK_EX \<noteq> 0 then
        if flags AND LOCK_NB \<noteq> 0 then Some (b, user, Return EAGAIN)
        else Some (b\<lparr>waiting := True\<rparr>, user, Wait At_ex)
      else if flags AND LOCK_SH = 0 \<and> flags AND LOCK_EX = 0 then None
      else if flags AND LOCK_SH \<noteq> 0 then
        Some (b\<lparr>ltype := LOCK_SH, shcount := shcount b + 1\<rparr>, LOCK_SH, Return Success)
      else lock_loop_sh b user flags atomic)"

text \<open>Unlocking.\<close>

definition lock_release :: "lock_box \<Rightarrow> u32 \<Rightarrow> lock_outcome" where
  "lock_release b user =
     (if user AND LOCK_UN \<noteq> 0 then Some (b, user, Return Success)
      else if \<not> (user = ltype b \<or> user = LOCK_SH \<and> ltype b = (LOCK_SH OR LOCK_EX)) then None
      else if \<not> (user = LOCK_SH \<or> user = LOCK_EX \<or> user = (LOCK_SH OR LOCK_EX)) then None
      else
        let b1 = (if user = LOCK_SH then
                    let b0 = b\<lparr>shcount := shcount b - 1\<rparr>
                    in if shcount b0 = 0 then b0\<lparr>ltype := LOCK_UN\<rparr> else b0
                  else if user = LOCK_EX then b\<lparr>ltype := LOCK_UN\<rparr>
                  else b);
            b2 = (if ltype b1 = LOCK_UN then lock_wake b1 else b1);
            b3 = (if ltype b2 = (LOCK_SH OR LOCK_EX) \<and> shcount b2 = 1 then lock_wake b2 else b2)
        in Some (b3, LOCK_UN, Return Success))"

text \<open>The releases before a non-atomic change of the lock.\<close>

definition lock_drop_ex :: "lock_box \<Rightarrow> u32 \<Rightarrow> bool \<Rightarrow> lock_box \<times> u32" where
  "lock_drop_ex b user atomic =
     (if user = LOCK_EX \<and> \<not> atomic then (lock_wake (b\<lparr>ltype := LOCK_UN\<rparr>), LOCK_UN) else (b, user))"

definition lock_drop_sh :: "lock_box \<Rightarrow> u32 \<Rightarrow> bool \<Rightarrow> lock_box \<times> u32" where
  "lock_drop_sh b user atomic =
     (if user = LOCK_SH \<and> \<not> atomic then
        let b0 = b\<lparr>shcount := shcount b - 1\<rparr>;
            b1 = (if shcount b0 = 0 then lock_wake (b0\<lparr>ltype := LOCK_UN\<rparr>) else b0);
            b2 = (if ltype b1 = (LOCK_SH OR LOCK_EX) \<and> shcount b1 = 1 then lock_wake b1 else b1)
        in (b2, LOCK_UN)
      else (b, user))"

definition lock_acquire_new :: "lock_box \<Rightarrow> u32 \<Rightarrow> u32 \<Rightarrow> bool \<Rightarrow> lock_outcome" where
  "lock_acquire_new b user flags atomic =
     (if atomic \<and> user = flags AND (LOCK_SH OR LOCK_EX) then Some (b, user, Return Success)
      else if atomic \<and> user = LOCK_EX \<and> flags AND LOCK_SH \<noteq> 0 then
        Some (lock_wake (b\<lparr>ltype := LOCK_SH, shcount := 1\<rparr>), LOCK_SH, Return Success)
      else if user = LOCK_SH \<and> atomic \<and> ltype b = (LOCK_SH OR LOCK_EX) then
        Some (b, user, Return EDEADLK)
      else
        let (b1, user1) = lock_drop_ex b user atomic;
            (b2, user2) = lock_drop_sh b1 user1 atomic
        in lock_loop_ex b2 user2 flags atomic)"

definition lock_flags :: "u32 \<Rightarrow> u32" where
  "lock_flags flags =
     (let f1 = (if flags AND LOCK_ATOMIC \<noteq> 0 then flags AND NOT LOCK_ATOMIC else flags)
      in if f1 AND LOCK_EX \<noteq> 0 then f1 AND NOT LOCK_SH else f1)"

definition lock_atomic :: "u32 \<Rightarrow> bool" where
  "lock_atomic flags \<longleftrightarrow> flags AND LOCK_ATOMIC \<noteq> 0"

definition fshelp_acquire_lock :: "lock_box \<Rightarrow> u32 \<Rightarrow> u32 \<Rightarrow> lock_outcome" where
  "fshelp_acquire_lock b user flags =
     (if flags AND (LOCK_UN OR LOCK_EX OR LOCK_SH) = 0 then Some (b, user, Return Success)
      else if flags AND LOCK_UN \<noteq> 0 \<and> flags AND (LOCK_SH OR LOCK_EX) \<noteq> 0 then Some (b, user, Return EINVAL)
      else if lock_flags flags AND LOCK_UN \<noteq> 0 then lock_release b user
      else lock_acquire_new b user (lock_flags flags) (lock_atomic flags))"

definition lock_resume :: "wait_point \<Rightarrow> lock_box \<Rightarrow> u32 \<Rightarrow> u32 \<Rightarrow> bool \<Rightarrow> lock_outcome" where
  "lock_resume p b user flags atomic =
     (case p of At_ex \<Rightarrow> lock_loop_ex b user flags atomic | At_sh \<Rightarrow> lock_loop_sh b user flags atomic)"

end
