(* ===== verification/Fshelp_Lock_Props.thy ===== *)
theory Fshelp_Lock_Props
  imports Fshelp_Lock "HOL-Library.Monad_Syntax"
begin

text \<open>
  The interleaving of lock requests on one file as a step relation, its invariant, and
  the properties of whole file locking: no assertion fails, exclusive locks exclude all
  others, and no request sleeps on although its condition has become false. Each open
  file has at most one request in progress; what happens otherwise is shown last.
\<close>

section \<open>The machine\<close>

record pending =
  pflags :: u32
  patomic :: bool
  ppoint :: wait_point
  psignalled :: bool

record lock_state =
  box :: lock_box
  status :: "nat \<Rightarrow> u32"
  pend :: "nat \<Rightarrow> pending option"

text \<open>
  The effect of a part of a call that runs under the mutex: a broadcast marks all
  sleeping requests, and the request of open file \<open>i\<close> has returned or sleeps.
\<close>

definition signal_all :: "(nat \<Rightarrow> pending option) \<Rightarrow> nat \<Rightarrow> pending option" where
  "signal_all p i = map_option (\<lambda>q. q\<lparr>psignalled := True\<rparr>) (p i)"

definition finish ::
  "lock_state \<Rightarrow> nat \<Rightarrow> u32 \<Rightarrow> bool \<Rightarrow> lock_box \<times> u32 \<times> lock_result \<Rightarrow> lock_state" where
  "finish s i flags atomic r =
     (case r of (b, u, res) \<Rightarrow>
        let p = (if bcast b then signal_all (pend s) else pend s)
        in \<lparr>box = b\<lparr>bcast := False\<rparr>, status = (status s)(i := u),
            pend = p(i := (case res of
                             Return _ \<Rightarrow> None
                           | Wait w \<Rightarrow> Some \<lparr>pflags = flags, patomic = atomic, ppoint = w,
                                             psignalled = False\<rparr>))\<rparr>)"

inductive lock_step :: "lock_state \<Rightarrow> lock_state \<Rightarrow> bool" where
  call: "pend s i = None \<Longrightarrow> fshelp_acquire_lock (box s) (status s i) flags = Some r \<Longrightarrow>
    lock_step s (finish s i (lock_flags flags) (lock_atomic flags) r)"
| resume: "pend s i = Some p \<Longrightarrow>
    lock_resume (ppoint p) (box s) (status s i) (pflags p) (patomic p) = Some r \<Longrightarrow>
    lock_step s (finish s i (pflags p) (patomic p) r)"
| interrupt: "pend s i = Some p \<Longrightarrow> lock_step s (s\<lparr>pend := (pend s)(i := None)\<rparr>)"

definition lock_start :: lock_state where
  "lock_start = \<lparr>box = \<lparr>ltype = LOCK_UN, bcast = False, waiting = False, shcount = 0\<rparr>,
     status = (\<lambda>_. LOCK_UN), pend = (\<lambda>_. None)\<rparr>"

inductive reachable :: "lock_state \<Rightarrow> bool" where
  start: "reachable lock_start"
| step: "reachable s \<Longrightarrow> lock_step s t \<Longrightarrow> reachable t"

section \<open>The invariant of a box\<close>

definition holders :: "(nat \<Rightarrow> u32) \<Rightarrow> u32 \<Rightarrow> nat set" where
  "holders st v = {j. st j = v}"

definition box_ok :: "lock_box \<Rightarrow> (nat \<Rightarrow> u32) \<Rightarrow> bool" where
  "box_ok b st \<longleftrightarrow>
     finite (holders st LOCK_SH) \<and> (\<forall>j. st j = LOCK_UN \<or> st j = LOCK_SH \<or> st j = LOCK_EX) \<and>
     (ltype b = LOCK_UN \<and> holders st LOCK_SH = {} \<and> holders st LOCK_EX = {} \<and> shcount b = 0 \<or>
      ltype b = LOCK_EX \<and> holders st LOCK_SH = {} \<and> (\<exists>i. holders st LOCK_EX = {i}) \<and> shcount b = 0 \<or>
      (ltype b = LOCK_SH \<or> ltype b = LOCK_UPGRADE) \<and> holders st LOCK_SH \<noteq> {} \<and>
        holders st LOCK_EX = {} \<and> shcount b = int (card (holders st LOCK_SH)))"

lemma holders_update:
  "holders (st(i := v)) w = (if v = w then insert i (holders st w) else holders st w - {i})"
  by (auto simp: holders_def)

lemma holders_iff [simp]: "j \<in> holders st v \<longleftrightarrow> st j = v"
  by (simp add: holders_def)

lemma box_ok_cong:
  "ltype b' = ltype b \<Longrightarrow> shcount b' = shcount b \<Longrightarrow> box_ok b' st = box_ok b st"
  by (simp add: box_ok_def)

lemma box_ok_same [simp]: "box_ok b (st(i := st i)) = box_ok b st"
  by simp

text \<open>What a part of a call owes to the requests that sleep meanwhile.\<close>

definition keeps_sleepers :: "lock_box \<Rightarrow> (nat \<Rightarrow> u32) \<Rightarrow> nat \<Rightarrow> lock_box \<Rightarrow> bool" where
  "keeps_sleepers b st i b' \<longleftrightarrow>
     (bcast b \<longrightarrow> bcast b') \<and>
     (\<forall>j. j \<noteq> i \<longrightarrow> st j = LOCK_SH \<longrightarrow> ltype b = LOCK_UPGRADE \<longrightarrow> ltype b' = LOCK_UPGRADE) \<and>
     (waiting b \<longrightarrow> \<not> bcast b' \<longrightarrow>
        waiting b' \<and>
        (ltype b AND LOCK_EX \<noteq> 0 \<longrightarrow> ltype b' AND LOCK_EX \<noteq> 0) \<and>
        (ltype b \<noteq> LOCK_UN \<longrightarrow> ltype b' \<noteq> LOCK_UN) \<and>
        (\<forall>j. j \<noteq> i \<longrightarrow> st j = LOCK_SH \<longrightarrow> ltype b = LOCK_UPGRADE \<longrightarrow>
           shcount b > 1 \<longrightarrow> shcount b' > 1))"

lemma box_types: "box_ok b st \<Longrightarrow> ltype b = 8 \<or> ltype b = 2 \<or> ltype b = 1 \<or> ltype b = 3"
  by (auto simp: box_ok_def)

lemma box_ok_count:
  "box_ok b st \<Longrightarrow> st i = LOCK_SH \<Longrightarrow>
     shcount b = int (card (holders st LOCK_SH - {i})) + 1 \<and> (ltype b = 1 \<or> ltype b = 3) \<and>
     finite (holders st LOCK_SH)"
proof -
  assume b: "box_ok b st" "st i = LOCK_SH"
  then have "i \<in> holders st LOCK_SH" "finite (holders st LOCK_SH)" by (auto simp: box_ok_def)
  then have "card (holders st LOCK_SH) = Suc (card (holders st LOCK_SH - {i}))"
    by (rule card.remove [rotated])
  then show ?thesis using b by (auto simp: box_ok_def holders_def)
qed

lemma box_ok_other:
  "box_ok b st \<Longrightarrow> st i = LOCK_SH \<Longrightarrow> j \<noteq> i \<Longrightarrow> st j = LOCK_SH \<Longrightarrow> card (holders st LOCK_SH - {i}) \<noteq> 0"
proof -
  assume "box_ok b st" "st i = LOCK_SH" and j: "j \<noteq> i" "st j = LOCK_SH"
  then have "finite (holders st LOCK_SH - {i})" using box_ok_count [of b st i] by blast
  moreover have "j \<in> holders st LOCK_SH - {i}" using j by simp
  ultimately show ?thesis by (metis card_eq_0_iff empty_iff)
qed

lemma box_ok_EX:
  "box_ok b st \<Longrightarrow> st i = LOCK_EX \<Longrightarrow>
     ltype b = 2 \<and> shcount b = 0 \<and> holders st LOCK_EX = {i} \<and> holders st LOCK_SH = {}"
proof -
  assume b: "box_ok b st" "st i = LOCK_EX"
  then have "i \<in> holders st LOCK_EX" by simp
  then show ?thesis using b(1) unfolding box_ok_def by (metis empty_iff singletonD)
qed

text \<open>What holds of a sleeping request.\<close>

definition sleeper_ok :: "lock_box \<Rightarrow> u32 \<Rightarrow> pending \<Rightarrow> bool" where
  "sleeper_ok b u p \<longleftrightarrow>
     (pflags p AND LOCK_SH \<noteq> 0 \<or> pflags p AND LOCK_EX \<noteq> 0) \<and>
     (case ppoint p of
        At_ex \<Rightarrow> u = LOCK_UN \<and> (\<not> psignalled p \<longrightarrow> waiting b \<and> ltype b AND LOCK_EX \<noteq> 0)
      | At_sh \<Rightarrow> (u = LOCK_UN \<or> u = LOCK_SH \<and> patomic p \<and> ltype b = LOCK_UPGRADE) \<and>
          (\<not> psignalled p \<longrightarrow> waiting b \<and> (u = LOCK_UN \<and> ltype b \<noteq> LOCK_UN \<or> u = LOCK_SH \<and> shcount b > 1)))"

definition seg_ok :: "lock_box \<Rightarrow> (nat \<Rightarrow> u32) \<Rightarrow> nat \<Rightarrow> u32 \<Rightarrow> bool \<Rightarrow> lock_outcome \<Rightarrow> bool" where
  "seg_ok b st i flags atomic r \<longleftrightarrow>
     (case r of
        None \<Rightarrow> False
      | Some (b', u, res) \<Rightarrow>
          box_ok b' (st(i := u)) \<and> keeps_sleepers b st i b' \<and>
          (case res of
             Return _ \<Rightarrow> True
           | Wait w \<Rightarrow> sleeper_ok b' u
               \<lparr>pflags = flags, patomic = atomic, ppoint = w, psignalled = False\<rparr>))"

lemma keeps_sleepers_refl [simp]: "keeps_sleepers b st i b"
  by (simp add: keeps_sleepers_def)

lemma keeps_sleepers_wait: "keeps_sleepers b st i b' \<Longrightarrow> keeps_sleepers b st i (b'\<lparr>waiting := True\<rparr>)"
  by (simp add: keeps_sleepers_def)

lemma keeps_sleepers_trans:
  "keeps_sleepers b st i b1 \<Longrightarrow> keeps_sleepers b1 (st(i := u)) i b2 \<Longrightarrow> keeps_sleepers b st i b2"
  by (auto simp: keeps_sleepers_def)

lemma seg_loop_sh:
  assumes ok: "box_ok b st" and f: "flags AND LOCK_SH \<noteq> 0 \<or> flags AND LOCK_EX \<noteq> 0"
    and u: "st i = LOCK_UN \<or> st i = LOCK_SH \<and> atomic"
  shows "seg_ok b st i flags atomic (lock_loop_sh b (st i) flags atomic)"
proof (cases "st i = LOCK_UN")
  case un: True
  have "st(i := LOCK_UN) = st" using un by auto
  moreover have "box_ok (b\<lparr>ltype := LOCK_EX\<rparr>) (st(i := LOCK_EX))" "keeps_sleepers b st i (b\<lparr>ltype := LOCK_EX\<rparr>)"
    if "ltype b = LOCK_UN"
    using ok un that by (auto simp: box_ok_def holders_update keeps_sleepers_def holders_def)
  ultimately show ?thesis
    using un ok f by (auto simp: seg_ok_def sleeper_ok_def lock_loop_sh_def keeps_sleepers_wait box_ok_cong [of "b\<lparr>waiting := True\<rparr>" b])
next
  case False
  then have sh: "st i = LOCK_SH" "atomic" using u by auto
  note c = box_ok_count [OF ok sh(1)] and o = box_ok_other [OF ok sh(1)]
  have same: "st(i := LOCK_SH) = st" using sh by auto
  show ?thesis
  proof (cases "shcount b > 1")
    case True
    have "box_ok (b\<lparr>ltype := LOCK_UPGRADE\<rparr>) st"
      using ok sh c by (auto simp: box_ok_def holders_def)
    then show ?thesis
      using True sh same ok c f
      by (auto simp: seg_ok_def sleeper_ok_def lock_loop_sh_def keeps_sleepers_def
          box_ok_cong [of "b\<lparr>ltype := LOCK_UPGRADE, waiting := True\<rparr>" "b\<lparr>ltype := LOCK_UPGRADE\<rparr>"])
  next
    case False
    then have z: "card (holders st LOCK_SH - {i}) = 0" "shcount b = 1" using c by auto
    then have e: "holders st LOCK_SH - {i} = {}" using c by simp
    have "holders st LOCK_EX = {}" using ok c by (auto simp: box_ok_def)
    then have "box_ok (b\<lparr>shcount := 0, ltype := LOCK_EX\<rparr>) (st(i := LOCK_EX))"
      using ok c e by (auto simp: box_ok_def holders_update)
    moreover have "keeps_sleepers b st i (b\<lparr>shcount := 0, ltype := LOCK_EX\<rparr>)"
      using o z by (auto simp: keeps_sleepers_def)
    ultimately show ?thesis using sh z by (simp add: seg_ok_def lock_loop_sh_def)
  qed
qed

lemma seg_loop_ex:
  assumes ok: "box_ok b st" and f: "flags AND LOCK_SH \<noteq> 0 \<or> flags AND LOCK_EX \<noteq> 0"
    and u: "st i = LOCK_UN \<or> st i = LOCK_SH \<and> atomic \<and> ltype b = LOCK_SH \<and> flags AND LOCK_SH = 0"
  shows "seg_ok b st i flags atomic (lock_loop_ex b (st i) flags atomic)"
proof (cases "st i = LOCK_UN \<and> (ltype b AND LOCK_EX \<noteq> 0 \<or> flags AND LOCK_SH \<noteq> 0)")
  case False
  then show ?thesis using u f seg_loop_sh [OF ok f] by (auto simp: lock_loop_ex_def)
next
  case un: True
  then have same: "st(i := LOCK_UN) = st" by auto
  show ?thesis
  proof (cases "ltype b AND LOCK_EX \<noteq> 0")
    case True
    then show ?thesis
      using un ok same f
      by (auto simp: seg_ok_def sleeper_ok_def lock_loop_ex_def keeps_sleepers_wait box_ok_cong [of "b\<lparr>waiting := True\<rparr>" b])
  next
    case False
    let ?b = "b\<lparr>ltype := LOCK_SH, shcount := shcount b + 1\<rparr>"
    have t: "ltype b = LOCK_UN \<or> ltype b = LOCK_SH" using False box_types [OF ok] by auto
    have "box_ok ?b (st(i := LOCK_SH))"
      using ok un t by (auto simp: box_ok_def holders_update)
    moreover have "keeps_sleepers b st i ?b" using t by (auto simp: keeps_sleepers_def)
    ultimately show ?thesis using un False by (simp add: seg_ok_def lock_loop_ex_def)
  qed
qed

lemma lock_wake_simps [simp]:
  "ltype (lock_wake b) = ltype b" "shcount (lock_wake b) = shcount b" "\<not> waiting (lock_wake b)"
  "bcast (lock_wake b) \<longleftrightarrow> bcast b \<or> waiting b"
  by (simp_all add: lock_wake_def)

lemma drop_sh_ok:
  assumes ok: "box_ok b st" and sh: "st i = LOCK_SH"
  obtains b' where "lock_drop_sh b LOCK_SH False = (b', LOCK_UN)" "box_ok b' (st(i := LOCK_UN))"
    "keeps_sleepers b st i b'" "lock_release b LOCK_SH = Some (b', LOCK_UN, Return Success)"
proof -
  note c = box_ok_count [OF ok sh] and o = box_ok_other [OF ok sh]
  obtain b' where b': "lock_drop_sh b LOCK_SH False = (b', LOCK_UN)" by (simp add: lock_drop_sh_def Let_def)
  have f: "ltype b' = (if shcount b = 1 then LOCK_UN else ltype b)" "shcount b' = shcount b - 1"
    "waiting b \<Longrightarrow> \<not> bcast b' \<Longrightarrow> waiting b' \<and> shcount b \<noteq> 1 \<and> \<not> (ltype b = LOCK_UPGRADE \<and> shcount b = 2)"
    "bcast b \<Longrightarrow> bcast b'"
    using b' by (auto simp: lock_drop_sh_def Let_def)
  have hEX: "holders st LOCK_EX = {}" using ok c by (auto simp: box_ok_def)
  define H where "H = holders st LOCK_SH - {i}"
  have H: "finite H" "shcount b = int (card H) + 1" using c by (simp_all add: H_def)
  have "\<forall>j. (st(i := LOCK_UN)) j = LOCK_UN \<or> (st(i := LOCK_UN)) j = LOCK_SH \<or> (st(i := LOCK_UN)) j = LOCK_EX"
    using ok by (simp add: box_ok_def)
  moreover have "holders (st(i := LOCK_UN)) LOCK_SH = H" "holders (st(i := LOCK_UN)) LOCK_EX = {}"
    using hEX by (simp_all add: holders_update H_def)
  ultimately have "box_ok b' (st(i := LOCK_UN))"
    using H f(1,2) c unfolding box_ok_def by (cases "H = {}") auto
  moreover have "keeps_sleepers b st i b'"
    using f o c by (auto simp: keeps_sleepers_def)
  moreover have "lock_release b LOCK_SH = Some (b', LOCK_UN, Return Success)"
    using b' conjunct1 [OF conjunct2 [OF c]] by (auto simp: lock_release_def lock_drop_sh_def Let_def)
  ultimately show thesis using that b' by blast
qed

lemma drop_ex_ok:
  assumes ok: "box_ok b st" and ex: "st i = LOCK_EX"
  obtains b' where "lock_drop_ex b LOCK_EX False = (b', LOCK_UN)" "box_ok b' (st(i := LOCK_UN))"
    "keeps_sleepers b st i b'" "lock_release b LOCK_EX = Some (b', LOCK_UN, Return Success)"
proof -
  note e = box_ok_EX [OF ok ex]
  let ?b = "lock_wake (b\<lparr>ltype := LOCK_UN\<rparr>)"
  have "box_ok ?b (st(i := LOCK_UN))" using ok e by (auto simp: box_ok_def holders_update)
  moreover have "keeps_sleepers b st i ?b" using e by (auto simp: keeps_sleepers_def)
  moreover have "lock_release b LOCK_EX = Some (?b, LOCK_UN, Return Success)"
    using e by (simp add: lock_release_def Let_def)
  ultimately show thesis using that [of ?b] by (simp add: lock_drop_ex_def)
qed

lemma seg_release:
  assumes ok: "box_ok b st"
  shows "seg_ok b st i flags atomic (lock_release b (st i))"
proof -
  have "st i = LOCK_UN \<or> st i = LOCK_SH \<or> st i = LOCK_EX" using ok by (simp add: box_ok_def)
  then consider "st i = LOCK_UN" | "st i = LOCK_SH" | "st i = LOCK_EX" by blast
  then show ?thesis
  proof cases
    case 1
    then have "st(i := LOCK_UN) = st" by auto
    then show ?thesis using 1 ok by (simp add: seg_ok_def lock_release_def)
  next
    case 2
    from ok 2 obtain b' where "box_ok b' (st(i := LOCK_UN))"
      "keeps_sleepers b st i b'" "lock_release b LOCK_SH = Some (b', LOCK_UN, Return Success)"
      by (rule drop_sh_ok) blast
    then show ?thesis using 2 by (simp add: seg_ok_def)
  next
    case 3
    from ok 3 obtain b' where "box_ok b' (st(i := LOCK_UN))"
      "keeps_sleepers b st i b'" "lock_release b LOCK_EX = Some (b', LOCK_UN, Return Success)"
      by (rule drop_ex_ok) blast
    then show ?thesis using 3 by (simp add: seg_ok_def)
  qed
qed

lemma seg_ok_after_drop:
  assumes "keeps_sleepers b st i b1" "seg_ok b1 (st(i := LOCK_UN)) i flags atomic r"
  shows "seg_ok b st i flags atomic r"
  using assms keeps_sleepers_trans [OF assms(1)]
  by (auto simp: seg_ok_def split: option.splits prod.splits lock_result.splits wait_point.splits)

lemma seg_acquire_new:
  assumes ok: "box_ok b st" and f: "flags AND LOCK_SH \<noteq> 0 \<or> flags AND LOCK_EX \<noteq> 0"
    and m: "flags AND LOCK_UPGRADE = (if flags AND LOCK_EX \<noteq> 0 then LOCK_EX else LOCK_SH)"
    and x: "flags AND LOCK_EX \<noteq> 0 \<Longrightarrow> flags AND LOCK_SH = 0"
  shows "seg_ok b st i flags atomic (lock_acquire_new b (st i) flags atomic)"
proof -
  have "st i = LOCK_UN \<or> st i = LOCK_SH \<or> st i = LOCK_EX" using ok by (simp add: box_ok_def)
  then consider (un) "st i = LOCK_UN" | (sh) "st i = LOCK_SH" "atomic" | (ex) "st i = LOCK_EX" "atomic"
    | (dsh) "st i = LOCK_SH" "\<not> atomic" | (dex) "st i = LOCK_EX" "\<not> atomic" by blast
  then show ?thesis
  proof cases
    case un
    then have "lock_acquire_new b (st i) flags atomic = lock_loop_ex b (st i) flags atomic"
      using m by (simp add: lock_acquire_new_def lock_drop_ex_def lock_drop_sh_def)
    then show ?thesis using seg_loop_ex [OF ok f, of i atomic] un by simp
  next
    case sh
    have same: "st(i := LOCK_SH) = st" using sh by auto
    show ?thesis
    proof (cases "flags AND LOCK_EX \<noteq> 0 \<and> ltype b \<noteq> LOCK_UPGRADE")
      case True
      then have "lock_acquire_new b (st i) flags atomic = lock_loop_ex b (st i) flags atomic"
        using sh m by (simp add: lock_acquire_new_def lock_drop_ex_def lock_drop_sh_def)
      moreover have "ltype b = LOCK_SH" using box_ok_count [OF ok sh(1)] True by auto
      ultimately show ?thesis using seg_loop_ex [OF ok f, of i atomic] sh x True by simp
    next
      case False
      then show ?thesis using sh same ok m f by (auto simp: lock_acquire_new_def seg_ok_def)
    qed
  next
    case ex
    have same: "st(i := LOCK_EX) = st" using ex by auto
    note e = box_ok_EX [OF ok ex(1)]
    let ?b = "lock_wake (b\<lparr>ltype := LOCK_SH, shcount := 1\<rparr>)"
    have "box_ok ?b (st(i := LOCK_SH))" using ok e by (auto simp: box_ok_def holders_update)
    moreover have "keeps_sleepers b st i ?b" using e by (auto simp: keeps_sleepers_def)
    ultimately show ?thesis using ex same ok m f by (auto simp: lock_acquire_new_def seg_ok_def)
  next
    case dsh
    from ok dsh(1) obtain b1 where b1: "lock_drop_sh b LOCK_SH False = (b1, LOCK_UN)"
      "box_ok b1 (st(i := LOCK_UN))" "keeps_sleepers b st i b1"
      by (rule drop_sh_ok) blast
    have "lock_acquire_new b (st i) flags atomic = lock_loop_ex b1 ((st(i := LOCK_UN)) i) flags atomic"
      using dsh b1(1) by (simp add: lock_acquire_new_def lock_drop_ex_def)
    then show ?thesis using seg_ok_after_drop [OF b1(3) seg_loop_ex [OF b1(2) f]] by simp
  next
    case dex
    from ok dex(1) obtain b1 where b1: "lock_drop_ex b LOCK_EX False = (b1, LOCK_UN)"
      "box_ok b1 (st(i := LOCK_UN))" "keeps_sleepers b st i b1"
      by (rule drop_ex_ok) blast
    have "lock_acquire_new b (st i) flags atomic = lock_loop_ex b1 ((st(i := LOCK_UN)) i) flags atomic"
      using dex b1(1) by (simp add: lock_acquire_new_def lock_drop_sh_def)
    then show ?thesis using seg_ok_after_drop [OF b1(3) seg_loop_ex [OF b1(2) f]] by simp
  qed
qed

lemma and_bit: "x AND 2 ^ n = (if bit x n then 2 ^ n else 0 :: u32)"
  by (rule bit_eqI) (auto simp: bit_simps)

lemma and_lock_bits:
  "x AND (1 :: u32) = (if bit x 0 then 1 else 0)" "x AND (2 :: u32) = (if bit x 1 then 2 else 0)"
  "x AND (8 :: u32) = (if bit x 3 then 8 else 0)" "x AND (16 :: u32) = (if bit x 4 then 16 else 0)"
  "x AND (3 :: u32) = (if bit x 0 then 1 else 0) OR (if bit x 1 then 2 else 0)"
  "x AND (11 :: u32) = (if bit x 0 then 1 else 0) OR (if bit x 1 then 2 else 0) OR (if bit x 3 then 8 else 0)"
proof -
  show 1: "x AND (1 :: u32) = (if bit x 0 then 1 else 0)" "x AND (2 :: u32) = (if bit x 1 then 2 else 0)"
    "x AND (8 :: u32) = (if bit x 3 then 8 else 0)" "x AND (16 :: u32) = (if bit x 4 then 16 else 0)"
    using and_bit [of x 0] and_bit [of x 1] and_bit [of x 3] and_bit [of x 4] by simp_all
  have "x AND (1 OR 2) = (x AND 1) OR (x AND 2)" "x AND (1 OR 2 OR 8) = (x AND 1) OR (x AND 2) OR (x AND 8)"
    by (simp_all only: bit.conj_disj_distrib)
  then show "x AND (3 :: u32) = (if bit x 0 then 1 else 0) OR (if bit x 1 then 2 else 0)"
    "x AND (11 :: u32) = (if bit x 0 then 1 else 0) OR (if bit x 1 then 2 else 0) OR (if bit x 3 then 8 else 0)"
    by (simp_all add: 1)
qed

lemma lock_flags_bits:
  "bit (lock_flags f) 0 \<longleftrightarrow> bit f 0 \<and> \<not> bit f 1" "bit (lock_flags f) 1 \<longleftrightarrow> bit f 1"
  "bit (lock_flags f) 3 \<longleftrightarrow> bit f 3"
  using bit_not_iff [of "1 :: u32"] bit_not_iff [of "16 :: u32"]
  by (auto simp: lock_flags_def Let_def and_lock_bits bit_and_iff bit_numeral_rec)

lemma seg_acquire:
  assumes "box_ok b st"
  shows "seg_ok b st i (lock_flags flags) (lock_atomic flags) (fshelp_acquire_lock b (st i) flags)"
proof -
  let ?f = "lock_flags flags"
  have same: "st(i := st i) = st" by simp
  consider (none) "\<not> bit flags 0" "\<not> bit flags 1" "\<not> bit flags 3"
    | (inval) "bit flags 3" "bit flags 0 \<or> bit flags 1"
    | (un) "bit flags 3" "\<not> bit flags 0" "\<not> bit flags 1"
    | (new) "\<not> bit flags 3" "bit flags 0 \<or> bit flags 1" by blast
  then show ?thesis
  proof cases
    case none
    then show ?thesis using assms by (simp add: fshelp_acquire_lock_def seg_ok_def and_lock_bits)
  next
    case inval
    then show ?thesis using assms by (auto simp: fshelp_acquire_lock_def seg_ok_def and_lock_bits)
  next
    case un
    then have "fshelp_acquire_lock b (st i) flags = lock_release b (st i)"
      by (simp add: fshelp_acquire_lock_def and_lock_bits lock_flags_bits)
    then show ?thesis using seg_release [OF assms] by simp
  next
    case new
    then have "fshelp_acquire_lock b (st i) flags = lock_acquire_new b (st i) ?f (lock_atomic flags)"
      by (auto simp: fshelp_acquire_lock_def and_lock_bits lock_flags_bits lock_flags_bits [simplified])
    moreover have "seg_ok b st i ?f (lock_atomic flags) (lock_acquire_new b (st i) ?f (lock_atomic flags))"
      using new by (intro seg_acquire_new assms) (auto simp: and_lock_bits lock_flags_bits lock_flags_bits [simplified] split: if_splits)
    ultimately show ?thesis by simp
  qed
qed

section \<open>The invariant of the machine\<close>

definition lock_inv :: "lock_state \<Rightarrow> bool" where
  "lock_inv s \<longleftrightarrow> \<not> bcast (box s) \<and> box_ok (box s) (status s) \<and>
     (\<forall>i p. pend s i = Some p \<longrightarrow> sleeper_ok (box s) (status s i) p)"

lemma sleeper_kept:
  assumes "sleeper_ok b (st j) p" "keeps_sleepers b st i b'" "j \<noteq> i"
  shows "sleeper_ok (b'\<lparr>bcast := False\<rparr>) (st j) (if bcast b' then p\<lparr>psignalled := True\<rparr> else p)"
  using assms by (auto simp: sleeper_ok_def keeps_sleepers_def split: wait_point.splits)

lemma finish_inv:
  assumes inv: "lock_inv s" and seg: "seg_ok (box s) (status s) i flags atomic (Some r)"
  shows "lock_inv (finish s i flags atomic r)"
proof -
  obtain b u res where r: "r = (b, u, res)" by (metis prod_cases3)
  have seg': "box_ok b ((status s)(i := u))" "keeps_sleepers (box s) (status s) i b"
    "case res of Return _ \<Rightarrow> True
     | Wait w \<Rightarrow> sleeper_ok b u \<lparr>pflags = flags, patomic = atomic, ppoint = w, psignalled = False\<rparr>"
    using seg by (simp_all add: seg_ok_def r)
  have "box_ok (b\<lparr>bcast := False\<rparr>) ((status s)(i := u))" using seg'(1) by (simp add: box_ok_def)
  moreover have "sleeper_ok (b\<lparr>bcast := False\<rparr>) u p" if "sleeper_ok b u p" for p
    using that by (simp add: sleeper_ok_def split: wait_point.splits)
  moreover have "sleeper_ok (b\<lparr>bcast := False\<rparr>) (status s j) p"
    if "(if bcast b then signal_all (pend s) else pend s) j = Some p" "j \<noteq> i" for j p
  proof -
    from that(1) obtain q where q: "pend s j = Some q" "p = (if bcast b then q\<lparr>psignalled := True\<rparr> else q)"
      by (auto simp: signal_all_def split: if_splits)
    have "sleeper_ok (box s) (status s j) q" using inv q(1) by (simp add: lock_inv_def)
    from sleeper_kept [OF this seg'(2) that(2)] q(2) show ?thesis by simp
  qed
  ultimately show ?thesis
    using seg'(3) by (auto simp: lock_inv_def finish_def r Let_def split: lock_result.splits if_splits)
qed

lemma seg_resume:
  assumes "lock_inv s" "pend s i = Some p"
  shows "seg_ok (box s) (status s) i (pflags p) (patomic p)
    (lock_resume (ppoint p) (box s) (status s i) (pflags p) (patomic p))"
proof -
  have p: "sleeper_ok (box s) (status s i) p" and ok: "box_ok (box s) (status s)"
    using assms by (simp_all add: lock_inv_def)
  then have f: "pflags p AND LOCK_SH \<noteq> 0 \<or> pflags p AND LOCK_EX \<noteq> 0" by (simp add: sleeper_ok_def)
  show ?thesis
    using p seg_loop_ex [OF ok f, of i "patomic p"] seg_loop_sh [OF ok f, of i "patomic p"]
    by (cases "ppoint p") (auto simp: sleeper_ok_def lock_resume_def)
qed

lemma lock_step_inv: "lock_step s t \<Longrightarrow> lock_inv s \<Longrightarrow> lock_inv t"
proof (induction rule: lock_step.induct)
  case (call s i flags r)
  then show ?case using seg_acquire [of "box s" "status s" i flags] finish_inv by (simp add: lock_inv_def)
next
  case (resume s i p r)
  then show ?case using seg_resume finish_inv by metis
next
  case (interrupt s i p)
  then show ?case by (simp add: lock_inv_def)
qed

lemma reachable_inv: "reachable s \<Longrightarrow> lock_inv s"
proof (induction rule: reachable.induct)
  case start
  then show ?case by (auto simp: lock_inv_def lock_start_def box_ok_def holders_def)
next
  case (step s t)
  then show ?case using lock_step_inv by blast
qed

section \<open>Properties\<close>

text \<open>
  C7. Mutual exclusion: in every state that any interleaving of lock requests, wake
  ups and interruptions can reach, with at most one request in progress per open file, an open file that holds
  the exclusive lock is the only one that holds any lock.
\<close>

theorem fshelp_lock_exclusive:
  assumes "reachable s" and "status s i = LOCK_EX" and "j \<noteq> i"
  shows "status s j = LOCK_UN"
proof -
  have ok: "box_ok (box s) (status s)" using reachable_inv [OF assms(1)] by (simp add: lock_inv_def)
  have "j \<notin> holders (status s) LOCK_EX" "j \<notin> holders (status s) LOCK_SH"
    using box_ok_EX [OF ok assms(2)] assms(3) by auto
  then show ?thesis using ok by (auto simp: box_ok_def)
qed

definition one_exclusive :: lock_state where
  "one_exclusive = finish lock_start 0 LOCK_EX False
     (\<lparr>ltype = LOCK_EX, bcast = False, waiting = False, shcount = 0\<rparr>, LOCK_EX, Return Success)"

lemma one_exclusive_reachable: "reachable one_exclusive"
proof -
  have a: "fshelp_acquire_lock (box lock_start) (status lock_start 0) LOCK_EX =
      Some (\<lparr>ltype = LOCK_EX, bcast = False, waiting = False, shcount = 0\<rparr>, LOCK_EX, Return Success)"
    by (simp add: lock_start_def fshelp_acquire_lock_def lock_flags_def lock_atomic_def
        lock_acquire_new_def lock_drop_ex_def lock_drop_sh_def lock_loop_ex_def lock_loop_sh_def)
  have b: "lock_flags LOCK_EX = LOCK_EX" "lock_atomic LOCK_EX = False"
    by (simp_all add: lock_flags_def lock_atomic_def)
  have "pend lock_start 0 = None" by (simp add: lock_start_def)
  from lock_step.call [OF this a] show ?thesis
    unfolding one_exclusive_def b by (rule reachable.step [OF reachable.start])
qed

theorem fshelp_lock_exclusive_witness:
  "reachable one_exclusive \<and> status one_exclusive 0 = LOCK_EX \<and> status one_exclusive 1 = LOCK_UN"
proof -
  have "status one_exclusive 0 = LOCK_EX" by (simp add: one_exclusive_def finish_def Let_def)
  then show ?thesis
    using one_exclusive_reachable fshelp_lock_exclusive [OF one_exclusive_reachable, of 0 1] by simp
qed

text \<open>
  No assertion of \<open>fshelp_acquire_lock\<close> can fail: in a state that is reachable with at most one request
  in progress per open file, a new request
  with any flags runs to its return or to a wait, and so does a sleeping request when
  it wakes up, for whatever reason.
\<close>

theorem fshelp_acquire_lock_asserts:
  assumes "reachable s"
  shows "(pend s i = None \<longrightarrow> (\<exists>r. fshelp_acquire_lock (box s) (status s i) flags = Some r)) \<and>
    (\<forall>p. pend s i = Some p \<longrightarrow>
       (\<exists>r. lock_resume (ppoint p) (box s) (status s i) (pflags p) (patomic p) = Some r))"
proof -
  have inv: "lock_inv s" by (rule reachable_inv [OF assms])
  then have "seg_ok (box s) (status s) i (lock_flags flags) (lock_atomic flags)
      (fshelp_acquire_lock (box s) (status s i) flags)"
    by (intro seg_acquire) (simp add: lock_inv_def)
  moreover note seg_resume [OF inv, of i]
  ultimately show ?thesis by (fastforce simp: seg_ok_def split: option.splits)
qed

theorem fshelp_acquire_lock_asserts_witness:
  "reachable one_exclusive \<and> pend one_exclusive 1 = None \<and>
   (\<exists>r. fshelp_acquire_lock (box one_exclusive) (status one_exclusive 1) LOCK_SH = Some r)"
proof -
  have "pend one_exclusive 1 = None" by (simp add: one_exclusive_def finish_def Let_def lock_start_def)
  then show ?thesis
    using one_exclusive_reachable fshelp_acquire_lock_asserts [OF one_exclusive_reachable, of 1 LOCK_SH]
    by blast
qed

text \<open>
  C8. No wake up is lost, as long as each open file has at most one request in progress: in a state that is
  reachable that way, a request that sleeps and has not been
  woken by a broadcast waits for something that still holds. The condition on the requests is not one that the
  code enforces, and it is needed: \<open>fshelp_lock_two_requests\<close> below. If the request waits for the
  exclusive lock to end, the box is still exclusive or being upgraded; if it waits for
  the other locks, they are still there (more than one shared lock for an upgrade).
\<close>

theorem fshelp_lock_no_lost_wakeup:
  assumes "reachable s" and "pend s i = Some p" and "\<not> psignalled p"
  shows "waiting (box s) \<and>
    (case ppoint p of
       At_ex \<Rightarrow> ltype (box s) AND LOCK_EX \<noteq> 0
     | At_sh \<Rightarrow> (if status s i = LOCK_SH then shcount (box s) > 1 else ltype (box s) \<noteq> LOCK_UN))"
proof -
  have "sleeper_ok (box s) (status s i) p"
    using reachable_inv [OF assms(1)] assms(2) by (simp add: lock_inv_def)
  then show ?thesis using assms(3) by (cases "ppoint p") (auto simp: sleeper_ok_def)
qed

definition one_waiting :: lock_state where
  "one_waiting = finish one_exclusive 1 LOCK_SH False
     (\<lparr>ltype = LOCK_EX, bcast = False, waiting = True, shcount = 0\<rparr>, LOCK_UN, Wait At_ex)"

lemma one_waiting_reachable: "reachable one_waiting"
proof -
  have a: "fshelp_acquire_lock (box one_exclusive) (status one_exclusive 1) LOCK_SH =
      Some (\<lparr>ltype = LOCK_EX, bcast = False, waiting = True, shcount = 0\<rparr>, LOCK_UN, Wait At_ex)"
    by (simp add: one_exclusive_def finish_def Let_def lock_start_def fshelp_acquire_lock_def
        lock_flags_def lock_atomic_def lock_acquire_new_def lock_drop_ex_def lock_drop_sh_def
        lock_loop_ex_def)
  have b: "lock_flags LOCK_SH = LOCK_SH" "lock_atomic LOCK_SH = False"
    by (simp_all add: lock_flags_def lock_atomic_def)
  have "pend one_exclusive 1 = None" by (simp add: one_exclusive_def finish_def Let_def lock_start_def)
  from lock_step.call [OF this a] show ?thesis
    unfolding one_waiting_def b by (rule reachable.step [OF one_exclusive_reachable])
qed

theorem fshelp_lock_no_lost_wakeup_witness:
  "reachable one_waiting \<and> (\<exists>p. pend one_waiting 1 = Some p \<and> \<not> psignalled p) \<and> waiting (box one_waiting)"
proof -
  have p: "pend one_waiting 1 =
      Some \<lparr>pflags = LOCK_SH, patomic = False, ppoint = At_ex, psignalled = False\<rparr>"
    by (simp add: one_waiting_def finish_def Let_def)
  have "\<not> psignalled \<lparr>pflags = LOCK_SH, patomic = False, ppoint = At_ex, psignalled = False\<rparr>" by simp
  from fshelp_lock_no_lost_wakeup [OF one_waiting_reachable p this] show ?thesis
    using one_waiting_reachable p by auto
qed

lemma reachable_call:
  assumes "reachable s" "pend s i = None" "fshelp_acquire_lock (box s) (status s i) flags = Some r"
    "t = finish s i (lock_flags flags) (lock_atomic flags) r"
  shows "reachable t"
  unfolding assms(4) by (rule reachable.step [OF assms(1) lock_step.call [OF assms(2,3)]])

lemmas lock_eval = fshelp_acquire_lock_def lock_flags_def lock_atomic_def lock_acquire_new_def
  lock_drop_ex_def lock_drop_sh_def lock_loop_ex_def lock_loop_sh_def lock_release_def lock_wake_def

text \<open>A reachable state is given by the box, the status of the open files, and the requests.\<close>

abbreviation lstate :: "u32 \<Rightarrow> bool \<Rightarrow> int \<Rightarrow> (nat \<Rightarrow> u32) \<Rightarrow> (nat \<Rightarrow> pending option) \<Rightarrow> lock_state" where
  "lstate t w n st pd \<equiv> \<lparr>box = \<lparr>ltype = t, bcast = False, waiting = w, shcount = n\<rparr>, status = st, pend = pd\<rparr>"

lemma interrupted_upgrade_reachable:
  "reachable (lstate LOCK_UPGRADE True 2 ((\<lambda>_. LOCK_UN)(0 := LOCK_SH, 1 := LOCK_SH)) (\<lambda>_. None))"
proof -
  have 1: "reachable (lstate LOCK_SH False 1 ((\<lambda>_. LOCK_UN)(0 := LOCK_SH)) (\<lambda>_. None))"
    by (rule reachable_call [OF reachable.start, of 0 LOCK_SH])
      (auto simp: lock_start_def lock_eval finish_def fun_eq_iff)
  have 2: "reachable (lstate LOCK_SH False 2 ((\<lambda>_. LOCK_UN)(0 := LOCK_SH, 1 := LOCK_SH)) (\<lambda>_. None))"
    by (rule reachable_call [OF 1, of 1 LOCK_SH]) (auto simp: lock_eval finish_def fun_eq_iff)
  have 3: "reachable (lstate LOCK_UPGRADE True 2 ((\<lambda>_. LOCK_UN)(0 := LOCK_SH, 1 := LOCK_SH))
      ((\<lambda>_. None)(0 := Some \<lparr>pflags = LOCK_EX, patomic = True, ppoint = At_sh, psignalled = False\<rparr>)))"
    by (rule reachable_call [OF 2, of 0 "LOCK_EX OR LOCK_ATOMIC"]) (auto simp: lock_eval finish_def fun_eq_iff)
  from lock_step.interrupt [of "lstate LOCK_UPGRADE True 2 ((\<lambda>_. LOCK_UN)(0 := LOCK_SH, 1 := LOCK_SH))
      ((\<lambda>_. None)(0 := Some \<lparr>pflags = LOCK_EX, patomic = True, ppoint = At_sh, psignalled = False\<rparr>))" 0]
  have "reachable (lstate LOCK_UPGRADE True 2 ((\<lambda>_. LOCK_UN)(0 := LOCK_SH, 1 := LOCK_SH))
      ((\<lambda>_. None)(0 := None)))"
    using reachable.step [OF 3] by auto
  then show ?thesis by (simp add: fun_upd_idem)
qed

text \<open>
  An upgrade that is interrupted leaves its mark on the box. There is a reachable
  state with no request in progress and only shared locks held, in which a third open
  file is refused a shared lock, because \<open>fshelp_acquire_lock\<close> returns EINTR without
  taking back the announcement that an upgrade is pending.
\<close>

theorem fshelp_lock_interrupted_upgrade:
  "\<exists>s. reachable s \<and> (\<forall>i. pend s i = None) \<and> (\<forall>i. status s i \<noteq> LOCK_EX) \<and>
     status s 0 = LOCK_SH \<and> status s 2 = LOCK_UN \<and>
     fshelp_acquire_lock (box s) (status s 2) (LOCK_SH OR LOCK_NB) = Some (box s, LOCK_UN, Return EAGAIN)"
  by (rule exI, rule conjI, rule interrupted_upgrade_reachable) (auto simp: lock_eval)

text \<open>The other holders of a shared lock release it, one after the other.\<close>

primrec unlock_shared :: "nat \<Rightarrow> lock_box \<Rightarrow> lock_box option" where
  "unlock_shared 0 b = Some b"
| "unlock_shared (Suc n) b = do { (b', _, _) \<leftarrow> fshelp_acquire_lock b LOCK_SH LOCK_UN; unlock_shared n b' }"

lemma unlock_shared_count:
  assumes "ltype b = LOCK_SH" "shcount b = int n + 1"
  shows "unlock_shared n b = Some (b\<lparr>shcount := 1\<rparr>)"
  using assms
proof (induction n arbitrary: b)
  case (Suc n)
  then have "fshelp_acquire_lock b LOCK_SH LOCK_UN = Some (b\<lparr>shcount := int n + 1\<rparr>, LOCK_UN, Return Success)" by (simp add: lock_eval Let_def)
  then show ?case using Suc by simp
qed (cases b, simp)

text \<open>
  Why the absence of lost wake ups needs its condition: two requests of one open file, both in progress, lose a wake up. However many
  open files, \<open>n\<close>, hold a shared lock: a first request of another open file for the exclusive lock goes to sleep, a second one
  for a shared lock succeeds and changes the status of the open file, and then all other holders unlock.
  Nobody has broadcast, so the first request sleeps on with \<open>waiting\<close> set, although the condition of its loop is false: if it ran it would get the lock
  at once.
\<close>

theorem fshelp_lock_two_requests:
  assumes "ltype b = LOCK_SH" "shcount b = int n" "0 < n" "\<not> bcast b"
  shows "\<exists>b1 b2 b3 b4. fshelp_acquire_lock b LOCK_UN LOCK_EX = Some (b1, LOCK_UN, Wait At_sh) \<and>
    fshelp_acquire_lock b1 LOCK_UN LOCK_SH = Some (b2, LOCK_SH, Return Success) \<and>
    unlock_shared n b2 = Some b3 \<and> \<not> bcast b3 \<and> waiting b3 \<and>
    lock_resume At_sh b3 LOCK_SH LOCK_EX False = Some (b4, LOCK_EX, Return Success)"
proof -
  let ?b1 = "b\<lparr>waiting := True\<rparr>"
  let ?b2 = "?b1\<lparr>ltype := LOCK_SH, shcount := int n + 1\<rparr>"
  have "fshelp_acquire_lock b LOCK_UN LOCK_EX = Some (?b1, LOCK_UN, Wait At_sh)" using assms(1) by (simp add: lock_eval)
  moreover have "fshelp_acquire_lock ?b1 LOCK_UN LOCK_SH = Some (?b2, LOCK_SH, Return Success)" using assms(1,2) by (simp add: lock_eval)
  moreover have "unlock_shared n ?b2 = Some (?b2\<lparr>shcount := 1\<rparr>)" by (rule unlock_shared_count) simp_all
  ultimately show ?thesis using assms(4) by (intro exI conjI) (assumption, assumption, assumption, simp_all add: lock_resume_def lock_loop_sh_def)
qed

theorem fshelp_lock_two_requests_witness:
  "\<exists>b1 b2 b3 b4. fshelp_acquire_lock \<lparr>ltype = LOCK_SH, bcast = False, waiting = False, shcount = 3\<rparr> LOCK_UN LOCK_EX = Some (b1, LOCK_UN, Wait At_sh) \<and>
    fshelp_acquire_lock b1 LOCK_UN LOCK_SH = Some (b2, LOCK_SH, Return Success) \<and> unlock_shared 3 b2 = Some b3 \<and> \<not> bcast b3 \<and> waiting b3 \<and>
    lock_resume At_sh b3 LOCK_SH LOCK_EX False = Some (b4, LOCK_EX, Return Success)"
  by (rule fshelp_lock_two_requests) simp_all

text \<open>
  Two requests of the same open file that wait at the same time corrupt the count
  of shared locks. While another file holds the exclusive lock, both ask for a shared
  lock and sleep; when the exclusive lock is released both wake up and each counts the
  lock. The open file unlocks, no lock is held, and the box still counts one shared
  lock: an exclusive lock is refused from then on.
\<close>

theorem fshelp_lock_double_count:
  "do { (b1, x1, r1) \<leftarrow> fshelp_acquire_lock \<lparr>ltype = LOCK_UN, bcast = False, waiting = False, shcount = 0\<rparr>
          LOCK_UN LOCK_EX;
        (b2, u2, r2) \<leftarrow> fshelp_acquire_lock b1 LOCK_UN LOCK_SH;
        (b3, u3, r3) \<leftarrow> fshelp_acquire_lock b2 u2 LOCK_SH;
        (b4, x4, r4) \<leftarrow> fshelp_acquire_lock b3 x1 LOCK_UN;
        (b5, u5, r5) \<leftarrow> lock_resume At_ex b4 u3 LOCK_SH False;
        (b6, u6, r6) \<leftarrow> lock_resume At_ex b5 u5 LOCK_SH False;
        (b7, u7, r7) \<leftarrow> fshelp_acquire_lock b6 u6 LOCK_UN;
        (b8, x8, r8) \<leftarrow> fshelp_acquire_lock b7 x4 (LOCK_EX OR LOCK_NB);
        Some ([r1, r2, r3, r4, r5, r6, r7, r8], x4, u7, shcount b7) } =
   Some ([Return Success, Wait At_ex, Wait At_ex, Return Success, Return Success, Return Success,
          Return Success, Return EAGAIN], LOCK_UN, LOCK_UN, 1)"
  by (simp add: lock_eval lock_resume_def)

end
