(* ===== verification/Rlock.thy ===== *)
theory Rlock
  imports Hurd_Prelude
begin

text \<open>
  Record locks (\<^verbatim>\<open>libfshelp/rlock-tweak.c\<close>, \<^verbatim>\<open>rlock-status.c\<close>, \<^verbatim>\<open>rlock-drop-peropen.c\<close>, \<^verbatim>\<open>rlock.h\<close>).
  The locks live in a store; an open file and the node each have a list of locks. A lock
  with length 0 extends to the end of every file. The loops over the list of an open
  file insert new locks only in front of the current lock, or return; they read the link of a
  lock after it has been freed, here the value it had. So they visit the locks that
  were on the list when they began. \<open>None\<close> is a failed assertion, a request
  whose start or end is not a signed 64 bit number (the sums overflow), or a wait that
  has not ended when the outcomes of the waits are used up.
\<close>

section \<open>Data\<close>

datatype flock_type = F_RDLCK | F_WRLCK | F_UNLCK | F_OTHER
datatype flock_cmd = F_GETLK64 | F_SETLK64 | F_SETLKW64 | F_CMD_OTHER
datatype whence = SEEK_SET | SEEK_CUR | SEEK_END | SEEK_OTHER
datatype lock_status = LOCK_UN | LOCK_SH | LOCK_EX

record rlock =
  rl_start :: int
  rl_len :: int
  rl_type :: flock_type
  rl_waiting :: bool
  rl_po :: nat

record rlocks =
  store :: "nat \<Rightarrow> rlock"
  po_list :: "nat \<Rightarrow> nat list"
  node_list :: "nat list"
  woken :: "nat list"

record flock64 =
  l_type :: flock_type
  l_whence :: whence
  l_start :: int
  l_len :: int
  l_pid :: int

definition set_lock :: "rlocks \<Rightarrow> nat \<Rightarrow> rlock \<Rightarrow> rlocks" where
  "set_lock st i l = st\<lparr>store := (store st)(i := l)\<rparr>"

text \<open>Insertion in sorted order.\<close>

fun list_link :: "(nat \<Rightarrow> rlock) \<Rightarrow> nat list \<Rightarrow> nat \<Rightarrow> nat list" where
  "list_link m [] n = [n]"
| "list_link m (x # xs) n = (if rl_start (m x) < rl_start (m n) then x # list_link m xs n else n # x # xs)"

definition overlap :: "int \<Rightarrow> int \<Rightarrow> rlock \<Rightarrow> bool" where
  "overlap start len l \<longleftrightarrow>
     (len = 0 \<and> rl_len l = 0) \<or> (len = 0 \<and> rl_start l + rl_len l > start) \<or>
     (rl_len l = 0 \<and> start + len > rl_start l) \<or>
     (rl_start l + rl_len l > start \<and> start + len > rl_start l)"

section \<open>Creating and releasing a lock\<close>

definition fshelp_rlock_init :: "rlocks \<Rightarrow> rlocks" where
  "fshelp_rlock_init st = st\<lparr>node_list := []\<rparr>"

text \<open>An open file gets a list of its own, whose address is its identity.\<close>

definition fshelp_rlock_po_init :: "rlocks \<Rightarrow> allocs \<Rightarrow> error_t \<times> nat option \<times> rlocks \<times> allocs" where
  "fshelp_rlock_po_init st orc =
     (case alloc orc of
        (None, o1) \<Rightarrow> (ENOMEM, None, st, o1)
      | (Some j, o1) \<Rightarrow> (Success, Some (unat j), st\<lparr>po_list := (po_list st)(unat j := [])\<rparr>, o1))"

definition gen_lock ::
  "nat \<Rightarrow> int \<Rightarrow> int \<Rightarrow> flock_type \<Rightarrow> rlocks \<Rightarrow> allocs \<Rightarrow> bool \<times> rlocks \<times> allocs" where
  "gen_lock po start len ty st orc =
     (case alloc orc of
        (None, o1) \<Rightarrow> (False, st, o1)
      | (Some j, o1) \<Rightarrow>
          let n = unat j;
              m = (store st)(n := \<lparr>rl_start = start, rl_len = len, rl_type = ty, rl_waiting = False, rl_po = po\<rparr>)
          in (True, st\<lparr>store := m, po_list := (po_list st)(po := list_link m (po_list st po) n),
                       node_list := list_link m (node_list st) n\<rparr>, o1))"

definition rele_lock :: "nat \<Rightarrow> nat \<Rightarrow> bool \<Rightarrow> rlocks \<Rightarrow> rlocks" where
  "rele_lock po i wake_waiters st =
     st\<lparr>po_list := (po_list st)(po := remove1 i (po_list st po)), node_list := remove1 i (node_list st),
        woken := woken st @ (if wake_waiters \<and> rl_waiting (store st i) then [i] else [])\<rparr>"

text \<open>Changing a lock and waking those who wait for it.\<close>

definition move_lock :: "nat \<Rightarrow> int \<Rightarrow> int \<Rightarrow> rlocks \<Rightarrow> rlocks" where
  "move_lock i start len st =
     (let l = store st i
      in (set_lock st i (l\<lparr>rl_start := start, rl_len := len, rl_waiting := False\<rparr>))
           \<lparr>woken := woken st @ (if rl_waiting l then [i] else [])\<rparr>)"

section \<open>Unlocking a region\<close>

fun unlock_loop :: "nat \<Rightarrow> int \<Rightarrow> int \<Rightarrow> nat list \<Rightarrow> rlocks \<Rightarrow> allocs \<Rightarrow> (error_t \<times> rlocks \<times> allocs) option" where
  "unlock_loop po start len [] st orc = Some (Success, st, orc)"
| "unlock_loop po start len (i # is) st orc =
     (let l = store st i; ls = rl_start l; ll = rl_len l in
      if ll \<noteq> 0 \<and> ls + ll \<le> start then unlock_loop po start len is st orc
      else if len \<noteq> 0 \<and> start + len \<le> ls then Some (Success, st, orc)
      else if start \<le> ls \<and> (len = 0 \<or> ll \<noteq> 0 \<and> ls + ll \<le> start + len) then
        unlock_loop po start len is (rele_lock po i True st) orc
      else if start \<le> ls \<and> (ll = 0 \<or> ls < start + len) then
        if \<not> (len \<noteq> 0 \<and> (ll = 0 \<or> start + len < ls + ll)) then None
        else unlock_loop po start len is
               (move_lock i (start + len) (if ll \<noteq> 0 then ll - (start + len - ls) else ll) st) orc
      else if ls < start \<and> (start < ls + ll \<and> (len = 0 \<or> ls + ll \<le> start + len) \<or> len = 0 \<and> ll = 0) then
        if \<not> (len = 0 \<or> ll \<noteq> 0 \<and> ls + ll \<le> start + len) then None
        else unlock_loop po start len is (move_lock i ls (start - ls) st) orc
      else if ls < start \<and> (ll = 0 \<or> len \<noteq> 0 \<and> start + len < ls + ll) then
        if len = 0 then None
        else
          let (ok, st1, o1) =
            gen_lock po (start + len) (if ll \<noteq> 0 then ls + ll - (start + len) else 0) (rl_type l) st orc
          in if \<not> ok then Some (ENOMEM, st1, o1)
             else Some (Success, set_lock st1 i ((store st1 i)\<lparr>rl_len := start - ls\<rparr>), o1)
      else if start < ls \<and> len \<noteq> 0 \<and> start + len \<le> ls then Some (Success, st, orc)
      else None)"

definition unlock_region :: "nat \<Rightarrow> int \<Rightarrow> int \<Rightarrow> rlocks \<Rightarrow> allocs \<Rightarrow> (error_t \<times> rlocks \<times> allocs) option" where
  "unlock_region po start len st orc = unlock_loop po start len (po_list st po) st orc"

section \<open>Setting a lock\<close>

fun conflict_loop :: "nat \<Rightarrow> int \<Rightarrow> int \<Rightarrow> flock_type \<Rightarrow> (nat \<Rightarrow> rlock) \<Rightarrow> nat list \<Rightarrow> nat option" where
  "conflict_loop po start len ty m [] = None"
| "conflict_loop po start len ty m (i # is) =
     (if rl_po (m i) = po then conflict_loop po start len ty m is
      else if (rl_type (m i) = F_WRLCK \<or> ty = F_WRLCK) \<and> overlap start len (m i) then Some i
      else conflict_loop po start len ty m is)"

definition find_conflict :: "nat \<Rightarrow> int \<Rightarrow> int \<Rightarrow> flock_type \<Rightarrow> rlocks \<Rightarrow> nat option" where
  "find_conflict po start len ty st = conflict_loop po start len ty (store st) (node_list st)"

text \<open>
  The case of \<open>merge_in\<close> in which the lock \<open>i\<close> is a read lock that wraps the write
  lock to be set: its head and its tail are split off. The result is the error, whether
  there was a tail, and the lock that remains.
\<close>

definition split_wrapped ::
  "nat \<Rightarrow> int \<Rightarrow> int \<Rightarrow> nat \<Rightarrow> rlocks \<Rightarrow> allocs \<Rightarrow> error_t \<times> bool \<times> rlocks \<times> allocs" where
  "split_wrapped po start len i st orc =
     (let l = store st i; ls = rl_start l; ll = rl_len l;
          need_head = (ls < start);
          need_tail = (ll = 0 \<and> len \<noteq> 0 \<or> start + len < ls + ll);
          head = fst (alloc orc);
          (ok1, st1, o1) = (if need_head then gen_lock po ls (start - ls) F_RDLCK st orc else (True, st, orc))
      in if \<not> ok1 then (ENOMEM, False, st1, o1)
         else
           let (ok2, st2, o2) =
             (if need_tail
              then gen_lock po (start + len) (if ll \<noteq> 0 then ls + ll - (start + len) else 0) F_RDLCK st1 o1
              else (True, st1, o1))
           in if \<not> ok2 then
                (ENOMEM, False,
                 (if need_head then rele_lock po (case head of Some j \<Rightarrow> unat j | None \<Rightarrow> 0) False st2 else st2), o2)
              else
                let shift = (if need_head then start - ls else 0);
                    l1 = (store st2 i)\<lparr>rl_len := (if ll \<noteq> 0 then ll - shift else ll), rl_start := ls + shift\<rparr>;
                    l2 = (if need_tail then l1\<lparr>rl_len := start + len - rl_start l1\<rparr> else l1)
                in (Success, need_tail, set_lock st2 i l2, o2))"

fun merge_loop ::
  "nat \<Rightarrow> flock_type \<Rightarrow> int \<Rightarrow> int \<Rightarrow> nat list \<Rightarrow> rlocks \<Rightarrow> allocs \<Rightarrow> (error_t \<times> rlocks \<times> allocs) option" where
  "merge_loop po ty start len [] st orc =
     (let (ok, st1, o1) = gen_lock po start len ty st orc in Some (if ok then Success else ENOMEM, st1, o1))"
| "merge_loop po ty start len (i # is) st orc =
     (let l = store st i; ls = rl_start l; ll = rl_len l in
      if ls \<le> start \<and> (ll = 0 \<or> len \<noteq> 0 \<and> start + len \<le> ls + ll) then
        if ty = rl_type l \<or> ty = F_RDLCK then Some (Success, st, orc)
        else if \<not> (ty = F_WRLCK \<and> rl_type l = F_RDLCK) then None
        else
          let (err, tail, st1, o1) = split_wrapped po start len i st orc;
              l1 = store st1 i
          in if err \<noteq> Success then Some (err, st1, o1)
             else if tail then Some (Success, set_lock st1 i (l1\<lparr>rl_type := F_WRLCK\<rparr>), o1)
             else merge_loop po ty (rl_start l1) (rl_len l1) is (rele_lock po i True st1) o1
      else if start \<le> ls \<and> (len = 0 \<or> ll \<noteq> 0 \<and> ls + ll \<le> start + len) then
        if ty = rl_type l \<or> ty = F_WRLCK then merge_loop po ty start len is (rele_lock po i True st) orc
        else if \<not> (ty = F_RDLCK \<and> rl_type l = F_WRLCK) then None
        else
          let (ok, st1, o1) = (if start < ls then gen_lock po start (ls - start) F_RDLCK st orc else (True, st, orc))
          in if \<not> ok then Some (ENOMEM, st1, o1)
             else if ll \<noteq> 0 \<and> (len = 0 \<or> ls + ll < start + len) then
               merge_loop po ty (ls + ll) (if len \<noteq> 0 then start + len - (ls + ll) else len) is st1 o1
             else if \<not> start < ls then None
             else Some (Success, st1, o1)
      else if ls < start \<and> start \<le> ls + ll \<and> (len = 0 \<or> start + len > ls + ll) then
        if ll = 0 then None
        else if ty = rl_type l then
          merge_loop po ty ls (if len \<noteq> 0 then len + (start - ls) else len) is (rele_lock po i True st) orc
        else if start = ls + ll then merge_loop po ty start len is st orc
        else if ty = F_WRLCK then
          if rl_type l \<noteq> F_RDLCK then None
          else merge_loop po ty start len is (set_lock st i (l\<lparr>rl_len := ll - (ls + ll - start)\<rparr>)) orc
        else if \<not> (ty = F_RDLCK \<and> rl_type l = F_WRLCK) then None
        else
          let common = ls + ll - start
          in merge_loop po ty (start + common) (if len \<noteq> 0 then len - common else len) is st orc
      else if start < ls \<and> (ll = 0 \<or> ls \<le> start + len) then
        if \<not> (len \<noteq> 0 \<and> (ll = 0 \<or> start + len < ls + ll)) then None
        else if ty = rl_type l then
          Some (Success, set_lock st i (l\<lparr>rl_len := (if ll \<noteq> 0 then ll + (ls - start) else ll), rl_start := start\<rparr>), orc)
        else if ls = start + len then merge_loop po ty start len is st orc
        else if ty = F_WRLCK then
          if rl_type l \<noteq> F_RDLCK then None
          else
            let common = start + len - ls;
                (ok, st1, o1) = gen_lock po start len F_WRLCK st orc
            in if \<not> ok then Some (ENOMEM, st1, o1)
               else Some (Success, set_lock st1 i
                      ((store st1 i)\<lparr>rl_len := (if ll \<noteq> 0 then ll - common else ll), rl_start := ls + common\<rparr>), o1)
        else if \<not> (rl_type l = F_WRLCK \<and> ty = F_RDLCK) then None
        else
          let (ok, st1, o1) = gen_lock po start (ls - start) F_RDLCK st orc
          in Some (if ok then Success else ENOMEM, st1, o1)
      else if start < ls \<and> len \<noteq> 0 \<and> start + len \<le> ls then
        let (ok, st1, o1) = gen_lock po start len ty st orc in Some (if ok then Success else ENOMEM, st1, o1)
      else if \<not> (start \<ge> ls + ll \<and> ll \<noteq> 0) then None
      else merge_loop po ty start len is st orc)"

definition merge_in ::
  "nat \<Rightarrow> int \<Rightarrow> int \<Rightarrow> flock_type \<Rightarrow> rlocks \<Rightarrow> allocs \<Rightarrow> (error_t \<times> rlocks \<times> allocs) option" where
  "merge_in po start len ty st orc = merge_loop po ty start len (po_list st po) st orc"

section \<open>Requests\<close>

text \<open>An outcome of a wait: \<open>None\<close> is an interruption, \<open>Some f\<close> a wake up after others have changed the locks by \<open>f\<close>.\<close>

type_synonym rlock_waits = "(rlocks \<Rightarrow> rlocks) option list"

fun rlock_request ::
  "nat \<Rightarrow> flock_cmd \<Rightarrow> flock64 \<Rightarrow> int \<Rightarrow> int \<Rightarrow> rlock_waits \<Rightarrow> rlocks \<Rightarrow> allocs \<Rightarrow>
   (error_t \<times> flock64 \<times> rlocks \<times> allocs) option" where
  "rlock_request po cmd lk start len ws st orc =
     (let c = find_conflict po start len (l_type lk) st in
      if cmd = F_GETLK64 then
        (case c of
           Some e \<Rightarrow>
             let l = store st e
             in Some (Success, \<lparr>l_type = rl_type l, l_whence = SEEK_SET, l_start = rl_start l, l_len = rl_len l, l_pid = - 1\<rparr>, st, orc)
         | None \<Rightarrow> Some (Success, lk\<lparr>l_type := F_UNLCK\<rparr>, st, orc))
      else
        (case c of
           None \<Rightarrow> map_option (\<lambda>(err, st1, o1). (err, lk, st1, o1)) (merge_in po start len (l_type lk) st orc)
         | Some e \<Rightarrow>
             if cmd = F_SETLKW64 then
               let st1 = set_lock st e ((store st e)\<lparr>rl_waiting := True\<rparr>)
               in (case ws of
                     [] \<Rightarrow> None
                   | None # ws' \<Rightarrow> Some (EINTR, lk, st1, orc)
                   | Some f # ws' \<Rightarrow> rlock_request po cmd lk start len ws' (f st1) orc)
             else Some (EAGAIN, lk, st, orc)))"

declare rlock_request.simps [simp del]

definition loff_ok :: "int \<Rightarrow> bool" where
  "loff_ok x \<longleftrightarrow> - (2 ^ 63) \<le> x \<and> x < 2 ^ 63"

definition lock_base :: "flock64 \<Rightarrow> int \<Rightarrow> int \<Rightarrow> int option" where
  "lock_base lk obj_size cur_pointer =
     (case l_whence lk of
        SEEK_SET \<Rightarrow> Some 0 | SEEK_CUR \<Rightarrow> Some cur_pointer | SEEK_END \<Rightarrow> Some obj_size | SEEK_OTHER \<Rightarrow> None)"

definition fshelp_rlock_tweak ::
  "nat \<Rightarrow> bool \<Rightarrow> int \<Rightarrow> int \<Rightarrow> flock_cmd \<Rightarrow> flock64 \<Rightarrow> mach_port \<Rightarrow> rlock_waits \<Rightarrow> rlocks \<Rightarrow> allocs \<Rightarrow>
   (error_t \<times> flock64 \<times> rlocks \<times> allocs) option" where
  "fshelp_rlock_tweak po writable obj_size cur_pointer cmd lk rendezvous ws st orc =
     (if rendezvous \<noteq> 0 then Some (EOPNOTSUPP, lk, st, orc)
      else if cmd = F_CMD_OTHER then Some (EOPNOTSUPP, lk, st, orc)
      else if l_type lk = F_OTHER then Some (EINVAL, lk, st, orc)
      else if l_type lk = F_UNLCK \<and> cmd = F_GETLK64 then Some (EINVAL, lk, st, orc)
      else
        let cmd1 = (if l_type lk = F_UNLCK \<and> cmd = F_SETLKW64 then F_SETLK64 else cmd) in
        if (cmd1 = F_SETLK64 \<or> cmd1 = F_SETLKW64) \<and> l_type lk = F_WRLCK \<and> \<not> writable then Some (EBADF, lk, st, orc)
        else
          (case lock_base lk obj_size cur_pointer of
             None \<Rightarrow> Some (EINVAL, lk, st, orc)
           | Some base \<Rightarrow>
               let start = base + l_start lk; len = l_len lk in
               if \<not> loff_ok start then None
               else if start < 0 then Some (EINVAL, lk, st, orc)
               else if len < 0 then Some (EINVAL, lk, st, orc)
               else if \<not> loff_ok (start + len) then None
               else if cmd1 = F_SETLK64 \<and> l_type lk = F_UNLCK then
                 map_option (\<lambda>(err, st1, o1). (err, lk, st1, o1)) (unlock_region po start len st orc)
               else rlock_request po cmd1 lk start len ws st orc))"

section \<open>Status and closing\<close>

fun status_loop :: "(nat \<Rightarrow> rlock) \<Rightarrow> nat list \<Rightarrow> lock_status" where
  "status_loop m [] = LOCK_SH"
| "status_loop m (i # is) = (if rl_type (m i) = F_WRLCK then LOCK_EX else status_loop m is)"

definition fshelp_rlock_peropen_status :: "nat \<Rightarrow> rlocks \<Rightarrow> lock_status" where
  "fshelp_rlock_peropen_status po st = (if po_list st po = [] then LOCK_UN else status_loop (store st) (po_list st po))"

definition fshelp_rlock_node_status :: "rlocks \<Rightarrow> lock_status" where
  "fshelp_rlock_node_status st = (if node_list st = [] then LOCK_UN else status_loop (store st) (node_list st))"

text \<open>
  The locks of an open file that is closed are unlinked from the node only; the
  list of the open file is about to be freed with it.
\<close>

fun drop_loop :: "nat list \<Rightarrow> rlocks \<Rightarrow> rlocks" where
  "drop_loop [] st = st"
| "drop_loop (i # is) st =
     drop_loop is (st\<lparr>store := (store st)(i := (store st i)\<lparr>rl_waiting := False\<rparr>), node_list := remove1 i (node_list st),
       woken := woken st @ (if rl_waiting (store st i) then [i] else [])\<rparr>)"

definition fshelp_rlock_drop_peropen :: "nat \<Rightarrow> rlocks \<Rightarrow> rlocks" where
  "fshelp_rlock_drop_peropen po st = drop_loop (po_list st po) st"

end
