(* ===== verification/Rlock_Props.thy ===== *)
theory Rlock_Props
  imports Rlock
begin

text \<open>
  What record locks mean byte by byte: \<open>merge_in\<close> on the sorted list of the locks of an
  open file is a function on lists of locks, which sets the type of exactly the bytes
  requested as long as no lock without end lies beyond them.
\<close>

section \<open>Bytes\<close>

definition region :: "int \<Rightarrow> int \<Rightarrow> int \<Rightarrow> bool" where
  "region start len b \<longleftrightarrow> start \<le> b \<and> (len = 0 \<or> b < start + len)"

definition holds_list :: "rlock list \<Rightarrow> int \<Rightarrow> flock_type \<Rightarrow> bool" where
  "holds_list ls b t \<longleftrightarrow> (\<exists>l \<in> set ls. region (rl_start l) (rl_len l) b \<and> rl_type l = t)"

lemma holds_list_simps [simp]:
  "holds_list [] b t \<longleftrightarrow> False"
  "holds_list (l # ls) b t \<longleftrightarrow> region (rl_start l) (rl_len l) b \<and> rl_type l = t \<or> holds_list ls b t"
  "holds_list (ks @ ls) b t \<longleftrightarrow> holds_list ks b t \<or> holds_list ls b t"
  by (auto simp: holds_list_def)

definition lock_ok :: "rlock \<Rightarrow> bool" where
  "lock_ok l \<longleftrightarrow> 0 \<le> rl_start l \<and> 0 \<le> rl_len l \<and> (rl_type l = F_RDLCK \<or> rl_type l = F_WRLCK)"

definition before :: "rlock \<Rightarrow> int \<Rightarrow> bool" where
  "before l s \<longleftrightarrow> 0 < rl_len l \<and> rl_start l + rl_len l \<le> s"

fun sorted_locks :: "rlock list \<Rightarrow> bool" where
  "sorted_locks [] \<longleftrightarrow> True"
| "sorted_locks (l # ls) \<longleftrightarrow> lock_ok l \<and> (\<forall>x \<in> set ls. before l (rl_start x)) \<and> sorted_locks ls"

lemma sorted_locks_append:
  "sorted_locks (ks @ ls) \<longleftrightarrow>
     sorted_locks ks \<and> sorted_locks ls \<and> (\<forall>k \<in> set ks. \<forall>l \<in> set ls. before k (rl_start l))"
  by (induction ks) auto

lemma holds_after:
  assumes "\<forall>x \<in> set ls. s \<le> rl_start x" "holds_list ls b t"
  shows "s \<le> b"
  using assms by (force simp: holds_list_def region_def)

section \<open>Merging on lists\<close>

definition new_lock :: "nat \<Rightarrow> flock_type \<Rightarrow> int \<Rightarrow> int \<Rightarrow> rlock" where
  "new_lock po ty s n = \<lparr>rl_start = s, rl_len = n, rl_type = ty, rl_waiting = False, rl_po = po\<rparr>"

fun merge_list :: "nat \<Rightarrow> flock_type \<Rightarrow> int \<Rightarrow> int \<Rightarrow> rlock list \<Rightarrow> rlock list" where
  "merge_list po ty s n [] = [new_lock po ty s n]"
| "merge_list po ty s n (l # ls) =
     (let a = rl_start l; k = rl_len l; e = a + k in
      if a \<le> s \<and> (k = 0 \<or> n \<noteq> 0 \<and> s + n \<le> e) then
        if ty = rl_type l \<or> ty = F_RDLCK then l # ls
        else (if a < s then [new_lock po F_RDLCK a (s - a)] else []) @
          (if k = 0 \<and> n \<noteq> 0 \<or> s + n < e
           then l\<lparr>rl_start := s, rl_len := n, rl_type := F_WRLCK\<rparr> #
             new_lock po F_RDLCK (s + n) (if k \<noteq> 0 then e - (s + n) else 0) # ls
           else merge_list po ty s n ls)
      else if s \<le> a \<and> (n = 0 \<or> k \<noteq> 0 \<and> e \<le> s + n) then
        if ty = rl_type l \<or> ty = F_WRLCK then merge_list po ty s n ls
        else (if s < a then [new_lock po F_RDLCK s (a - s)] else []) @
          l # (if k \<noteq> 0 \<and> (n = 0 \<or> e < s + n)
               then merge_list po ty e (if n \<noteq> 0 then s + n - e else n) ls else ls)
      else if a < s \<and> s \<le> e \<and> (n = 0 \<or> s + n > e) then
        if ty = rl_type l then merge_list po ty a (if n \<noteq> 0 then n + (s - a) else n) ls
        else if s = e then l # merge_list po ty s n ls
        else if ty = F_WRLCK then l\<lparr>rl_len := s - a\<rparr> # merge_list po ty s n ls
        else l # merge_list po ty e (if n \<noteq> 0 then s + n - e else n) ls
      else if s < a \<and> (k = 0 \<or> a \<le> s + n) then
        if ty = rl_type l then l\<lparr>rl_start := s, rl_len := (if k \<noteq> 0 then e - s else k)\<rparr> # ls
        else if a = s + n then new_lock po ty s n # l # ls
        else if ty = F_WRLCK
        then new_lock po F_WRLCK s n # l\<lparr>rl_start := s + n, rl_len := (if k \<noteq> 0 then e - (s + n) else k)\<rparr> # ls
        else new_lock po F_RDLCK s (a - s) # l # ls
      else if s < a then new_lock po ty s n # l # ls
      else l # merge_list po ty s n ls)"

text \<open>The bytes held afterwards: a write lock replaces a read lock, a read lock leaves a write lock.\<close>

definition merged :: "(int \<Rightarrow> flock_type \<Rightarrow> bool) \<Rightarrow> flock_type \<Rightarrow> int \<Rightarrow> int \<Rightarrow> int \<Rightarrow> flock_type \<Rightarrow> bool" where
  "merged h ty s n b t \<longleftrightarrow>
     (if region s n b then t = (if ty = F_WRLCK \<or> h b F_WRLCK then F_WRLCK else F_RDLCK) else h b t)"

definition reaches :: "int \<Rightarrow> int \<Rightarrow> rlock list \<Rightarrow> bool" where
  "reaches s n ls \<longleftrightarrow> (\<forall>l \<in> set ls. rl_len l = 0 \<longrightarrow> n = 0 \<or> rl_start l \<le> s + n)"

lemma new_lock_simps [simp]:
  "rl_start (new_lock po ty s n) = s" "rl_len (new_lock po ty s n) = n" "rl_type (new_lock po ty s n) = ty"
  by (simp_all add: new_lock_def)

lemma holds_after_lock:
  assumes "\<forall>x \<in> set ls. before l (rl_start x)" "holds_list ls b t"
  shows "0 < rl_len l \<and> rl_start l + rl_len l \<le> b"
  using assms by (force simp: holds_list_def region_def before_def)

lemma reaches_Cons: "reaches s n (l # ls) \<longleftrightarrow> (rl_len l = 0 \<longrightarrow> n = 0 \<or> rl_start l \<le> s + n) \<and> reaches s n ls"
  by (simp add: reaches_def)

lemma reaches_shift: "n \<noteq> 0 \<Longrightarrow> reaches s n ls \<Longrightarrow> reaches s' (s + n - s') ls"
  by (auto simp: reaches_def)

lemma reaches_end: "reaches s 0 ls"
  by (simp add: reaches_def)

lemma merge_list_holds:
  "sorted_locks ls \<Longrightarrow> 0 \<le> n \<Longrightarrow> ty = F_RDLCK \<or> ty = F_WRLCK \<Longrightarrow> reaches s n ls \<Longrightarrow>
     holds_list (merge_list po ty s n ls) b t \<longleftrightarrow> merged (holds_list ls) ty s n b t"
proof (induction ls arbitrary: s n)
  case Nil
  then show ?case by (auto simp: merged_def)
next
  case (Cons l ls)
  define a k e where "a = rl_start l" and "k = rl_len l" and "e = a + k"
  have lk: "0 \<le> k" "rl_type l = F_RDLCK \<or> rl_type l = F_WRLCK" using Cons.prems(1) by (auto simp: lock_ok_def k_def)
  have srt: "sorted_locks ls" and bef: "\<forall>x \<in> set ls. before l (rl_start x)" using Cons.prems(1) by auto
  have lo: "holds_list ls b t' \<Longrightarrow> 0 < k \<and> e \<le> b" for t'
    using holds_after_lock [OF bef] by (auto simp: k_def e_def a_def)
  have re: "k = 0 \<longrightarrow> n = 0 \<or> a \<le> s + n" "reaches s n ls" using Cons.prems(4) by (auto simp: reaches_Cons k_def a_def)
  have IH: "0 \<le> m \<Longrightarrow> reaches r m ls \<Longrightarrow>
      holds_list (merge_list po ty r m ls) b t \<longleftrightarrow> merged (holds_list ls) ty r m b t" for r m
    using Cons.IH [OF srt _ Cons.prems(3)] by blast
  have IH1: "holds_list (merge_list po ty s n ls) b t \<longleftrightarrow> merged (holds_list ls) ty s n b t"
    using IH Cons.prems(2) re(2) by blast
  have reg: "region a k b \<longleftrightarrow> a \<le> b \<and> (k = 0 \<or> b < e)" by (simp add: region_def e_def)
  consider (wrapped) "a \<le> s" "k = 0 \<or> n \<noteq> 0 \<and> s + n \<le> e"
    | (wraps) "\<not> (a \<le> s \<and> (k = 0 \<or> n \<noteq> 0 \<and> s + n \<le> e))" "s \<le> a" "n = 0 \<or> k \<noteq> 0 \<and> e \<le> s + n"
    | (within) "\<not> (a \<le> s \<and> (k = 0 \<or> n \<noteq> 0 \<and> s + n \<le> e))" "a < s" "s \<le> e" "n = 0 \<or> s + n > e"
    | (below) "\<not> (a \<le> s \<and> (k = 0 \<or> n \<noteq> 0 \<and> s + n \<le> e))" "\<not> (s \<le> a \<and> (n = 0 \<or> k \<noteq> 0 \<and> e \<le> s + n))"
        "s < a" "k = 0 \<or> a \<le> s + n"
    | (apart) "s < a" "n \<noteq> 0" "k \<noteq> 0" "s + n < a"
    | (beyond) "a \<le> s" "k \<noteq> 0" "e < s"
    using re(1) lk(1) unfolding e_def by linarith
  then show ?case
  proof cases
    case wrapped
    show ?thesis
    proof (cases "ty = rl_type l \<or> ty = F_RDLCK")
      case True
      then have "merge_list po ty s n (l # ls) = l # ls" using wrapped by (simp add: a_def k_def e_def Let_def)
      then show ?thesis using True wrapped lk lo [of t] lo [of F_WRLCK]
        by (auto simp: merged_def region_def a_def [symmetric] k_def [symmetric] e_def)
    next
      case False
      then have ty: "ty = F_WRLCK" "rl_type l = F_RDLCK" using lk Cons.prems(3) by auto
      define hd where "hd = (if a < s then [new_lock po F_RDLCK a (s - a)] else [])"
      have hd: "holds_list hd b t \<longleftrightarrow> t = F_RDLCK \<and> a \<le> b \<and> b < s" by (auto simp: hd_def region_def)
      have eq: "merge_list po ty s n (l # ls) = hd @
          (if k = 0 \<and> n \<noteq> 0 \<or> s + n < e
           then l\<lparr>rl_start := s, rl_len := n, rl_type := F_WRLCK\<rparr> #
             new_lock po F_RDLCK (s + n) (if k \<noteq> 0 then e - (s + n) else 0) # ls
           else merge_list po ty s n ls)"
        using wrapped ty by (simp add: a_def k_def e_def Let_def hd_def)
      show ?thesis
      proof (cases "k = 0 \<and> n \<noteq> 0 \<or> s + n < e")
        case True
        then show ?thesis using wrapped ty lk(1) lo [of t] Cons.prems(2) unfolding eq
          by (auto simp: hd merged_def region_def a_def [symmetric] k_def [symmetric] e_def)
      next
        case False
        then show ?thesis using wrapped ty lk(1) lo [of t] IH1 Cons.prems(2) unfolding eq
          by (auto simp: hd merged_def region_def a_def [symmetric] k_def [symmetric] e_def)
      qed
    qed
  next
    case wraps
    show ?thesis
    proof (cases "ty = rl_type l \<or> ty = F_WRLCK")
      case True
      then have "merge_list po ty s n (l # ls) = merge_list po ty s n ls"
        using wraps by (auto simp: a_def k_def e_def Let_def)
      moreover have "region a k b \<Longrightarrow> region s n b" using wraps(2,3) by (auto simp: region_def e_def)
      moreover have "ty \<noteq> F_WRLCK \<Longrightarrow> rl_type l \<noteq> F_WRLCK" using True by auto
      ultimately show ?thesis using IH1 by (auto simp: merged_def a_def [symmetric] k_def [symmetric])
    next
      case False
      then have ty: "ty = F_RDLCK" "rl_type l = F_WRLCK" using lk Cons.prems(3) by auto
      define hd where "hd = (if s < a then [new_lock po F_RDLCK s (a - s)] else [])"
      have hd: "holds_list hd b t \<longleftrightarrow> t = F_RDLCK \<and> s \<le> b \<and> b < a" by (auto simp: hd_def region_def)
      define n' where "n' = (if n \<noteq> 0 then s + n - e else n)"
      have eq: "merge_list po ty s n (l # ls) =
          hd @ l # (if k \<noteq> 0 \<and> (n = 0 \<or> e < s + n) then merge_list po ty e n' ls else ls)"
        using wraps False by (auto simp: a_def k_def e_def Let_def hd_def n'_def)
      have below: "b < e \<or> k = 0 \<Longrightarrow> \<not> holds_list ls b t'" for t' using lo [of t'] by auto
      show ?thesis
      proof (cases "k \<noteq> 0 \<and> (n = 0 \<or> e < s + n)")
        case True
        then have IH2: "holds_list (merge_list po ty e n' ls) b t \<longleftrightarrow> merged (holds_list ls) ty e n' b t"
          using IH [of n' e] reaches_shift [OF _ re(2)] reaches_end [of e ls] by (auto simp: n'_def)
        have rest: "region e n' b \<longleftrightarrow> e \<le> b \<and> (n = 0 \<or> b < s + n)"
          using True by (auto simp: region_def n'_def)
        have eq1: "merge_list po ty s n (l # ls) = hd @ l # merge_list po ty e n' ls" using True unfolding eq by simp
        define i1 i2 i3 where "i1 \<longleftrightarrow> s \<le> b \<and> b < a" and "i2 \<longleftrightarrow> region a k b" and "i3 \<longleftrightarrow> region e n' b"
        have r: "region s n b \<longleftrightarrow> i1 \<or> i2 \<or> i3" "\<not> (i1 \<and> i2)" "\<not> (i1 \<and> i3)" "\<not> (i2 \<and> i3)"
          using True wraps(2) lk(1) unfolding i1_def i2_def i3_def rest unfolding region_def e_def
          by (presburger, linarith, linarith, linarith)
        have nh: "i1 \<or> i2 \<Longrightarrow> \<not> holds_list ls b t'" for t'
          using below [of t'] True lk(1) by (auto simp: i1_def i2_def region_def e_def)
        have "holds_list (merge_list po ty s n (l # ls)) b t \<longleftrightarrow> t = F_RDLCK \<and> i1 \<or> i2 \<and> F_WRLCK = t \<or>
            (if i3 then t = (if ty = F_WRLCK \<or> holds_list ls b F_WRLCK then F_WRLCK else F_RDLCK) else holds_list ls b t)"
          unfolding eq1 holds_list_simps hd IH2 merged_def i1_def i2_def i3_def ty(2) a_def k_def ..
        then show ?thesis
          using r nh [of t] nh [of F_WRLCK] ty
          by (auto simp: merged_def i2_def [symmetric] a_def [symmetric] k_def [symmetric])
      next
        case False
        have "region s n b \<longleftrightarrow> s \<le> b \<and> b < a \<or> region a k b" using False wraps(2,3) lk(1) by (auto simp: region_def e_def)
        then show ?thesis
          using False wraps(2) ty lk(1) below [of F_WRLCK] below [of t] unfolding eq
          by (auto simp: hd merged_def a_def [symmetric] k_def [symmetric]) (auto simp: region_def e_def)
      qed
    qed
  next
    case within
    have k: "k \<noteq> 0" using within by (auto simp: e_def)
    have eq: "merge_list po ty s n (l # ls) =
        (if ty = rl_type l then merge_list po ty a (if n \<noteq> 0 then n + (s - a) else n) ls
         else if s = e then l # merge_list po ty s n ls
         else if ty = F_WRLCK then l\<lparr>rl_len := s - a\<rparr> # merge_list po ty s n ls
         else l # merge_list po ty e (if n \<noteq> 0 then s + n - e else n) ls)"
      using within by (auto simp: a_def k_def e_def Let_def)
    have IH2: "holds_list (merge_list po ty e (if n \<noteq> 0 then s + n - e else n) ls) b t \<longleftrightarrow>
        merged (holds_list ls) ty e (if n \<noteq> 0 then s + n - e else n) b t"
      using within IH [of "if n \<noteq> 0 then s + n - e else n" e] reaches_shift [OF _ re(2)] reaches_end [of e ls] by auto
    have "reaches a (if n \<noteq> 0 then n + (s - a) else n) ls"
      using reaches_shift [OF _ re(2), of a] reaches_end [of a ls] by (simp add: algebra_simps)
    then have IH3: "holds_list (merge_list po ty a (if n \<noteq> 0 then n + (s - a) else n) ls) b t \<longleftrightarrow>
        merged (holds_list ls) ty a (if n \<noteq> 0 then n + (s - a) else n) b t"
      using within Cons.prems(2) by (intro IH) auto
    consider "ty = rl_type l" | "ty \<noteq> rl_type l" "s = e" | "ty \<noteq> rl_type l" "s \<noteq> e" "ty = F_WRLCK"
      | "ty \<noteq> rl_type l" "s \<noteq> e" "ty \<noteq> F_WRLCK" by blast
    then show ?thesis
    proof cases
      case 1
      then show ?thesis using within lk k lo [of t] lo [of F_WRLCK] IH3 unfolding eq
        by (auto simp: merged_def region_def a_def [symmetric] k_def [symmetric] e_def split: if_splits)
    next
      case 2
      then show ?thesis using within lk k lo [of t] lo [of F_WRLCK] IH1 unfolding eq
        by (auto simp: merged_def region_def a_def [symmetric] k_def [symmetric] e_def split: if_splits)
    next
      case 3
      then show ?thesis using within lk k lo [of t] lo [of F_WRLCK] IH1 unfolding eq
        by (auto simp: merged_def region_def a_def [symmetric] k_def [symmetric] e_def split: if_splits)
    next
      case 4
      then show ?thesis using within lk k lo [of t] lo [of F_WRLCK] IH2 Cons.prems(3) unfolding eq
        by (auto simp: merged_def region_def a_def [symmetric] k_def [symmetric] e_def split: if_splits)
    qed
  next
    case below
    have n: "n \<noteq> 0" "a \<le> s + n" "k = 0 \<or> s + n < e" using below re(1) by auto
    have eq: "merge_list po ty s n (l # ls) =
        (if ty = rl_type l then l\<lparr>rl_start := s, rl_len := (if k \<noteq> 0 then e - s else k)\<rparr> # ls
         else if a = s + n then new_lock po ty s n # l # ls
         else if ty = F_WRLCK
         then new_lock po F_WRLCK s n # l\<lparr>rl_start := s + n, rl_len := (if k \<noteq> 0 then e - (s + n) else k)\<rparr> # ls
         else new_lock po F_RDLCK s (a - s) # l # ls)"
      using below by (auto simp: a_def k_def e_def Let_def)
    consider "ty = rl_type l" | "ty \<noteq> rl_type l" "a = s + n" | "ty \<noteq> rl_type l" "a \<noteq> s + n" "ty = F_WRLCK"
      | "ty \<noteq> rl_type l" "a \<noteq> s + n" "ty \<noteq> F_WRLCK" by blast
    then show ?thesis
    proof cases
      case 1
      then show ?thesis using below(3) n lk lo [of t] lo [of F_WRLCK] unfolding eq
        by (auto simp: merged_def region_def a_def [symmetric] k_def [symmetric] e_def split: if_splits)
    next
      case 2
      then show ?thesis using below(3) n lk lo [of t] lo [of F_WRLCK] Cons.prems(3) unfolding eq
        by (auto simp: merged_def region_def a_def [symmetric] k_def [symmetric] e_def split: if_splits)
    next
      case 3
      then show ?thesis using below(3) n lk lo [of t] lo [of F_WRLCK] unfolding eq
        by (auto simp: merged_def region_def a_def [symmetric] k_def [symmetric] e_def split: if_splits)
    next
      case 4
      then show ?thesis using below(3) n lk lo [of t] lo [of F_WRLCK] Cons.prems(3) unfolding eq
        by (auto simp: merged_def region_def a_def [symmetric] k_def [symmetric] e_def split: if_splits)
    qed
  next
    case apart
    have "merge_list po ty s n (l # ls) = new_lock po ty s n # l # ls"
      using apart lk(1) Cons.prems(2) by (auto simp: a_def k_def e_def Let_def)
    then show ?thesis using apart lk(1) lo [of t] lo [of F_WRLCK] Cons.prems(2,3)
      by (auto simp: merged_def region_def a_def [symmetric] k_def [symmetric] e_def split: if_splits)
  next
    case beyond
    have "merge_list po ty s n (l # ls) = l # merge_list po ty s n ls"
      using beyond lk(1) Cons.prems(2) by (auto simp: a_def k_def e_def Let_def)
    then show ?thesis using beyond lk(1) lo [of t] lo [of F_WRLCK] IH1
      by (auto simp: merged_def region_def a_def [symmetric] k_def [symmetric] e_def split: if_splits)
  qed
qed

end
