(* ===== verification/Rlock_Merge.thy ===== *)
theory Rlock_Merge
  imports Rlock_Props
begin

text \<open>
  \<open>merge_in\<close> on the lists of locks computes \<open>merge_list\<close>: the bookkeeping of the two linked
  lists, the store and fresh locks, and the properties of requests.
\<close>

section \<open>The lists of an open file and of the node\<close>

definition own :: "rlocks \<Rightarrow> nat \<Rightarrow> rlock list" where
  "own st po = map (store st) (po_list st po)"

definition linked :: "rlocks \<Rightarrow> nat \<Rightarrow> bool" where
  "linked st po \<longleftrightarrow>
     distinct (node_list st) \<and> distinct (po_list st po) \<and> set (po_list st po) \<subseteq> set (node_list st) \<and>
     (\<forall>i \<in> set (po_list st po). rl_po (store st i) = po)"

definition others :: "rlocks \<Rightarrow> nat \<Rightarrow> nat set" where
  "others st po = set (node_list st) - set (po_list st po)"

text \<open>What an operation of one open file leaves as it was.\<close>

definition frame :: "nat \<Rightarrow> rlocks \<Rightarrow> rlocks \<Rightarrow> bool" where
  "frame po st st' \<longleftrightarrow>
     linked st' po \<and> others st' po = others st po \<and>
     (\<forall>i \<in> others st po. store st' i = store st i) \<and> (\<forall>q. q \<noteq> po \<longrightarrow> po_list st' q = po_list st q)"

lemma frame_refl: "linked st po \<Longrightarrow> frame po st st"
  by (simp add: frame_def)

lemma frame_trans: "frame po st st1 \<Longrightarrow> frame po st1 st2 \<Longrightarrow> frame po st st2"
  by (simp add: frame_def)

text \<open>The identities that allocations will yield are not in use.\<close>

definition stock :: "rlocks \<Rightarrow> u32 list \<Rightarrow> nat \<Rightarrow> bool" where
  "stock st js n \<longleftrightarrow> distinct js \<and> (\<forall>j \<in> set js. unat j \<notin> set (node_list st)) \<and> n \<le> length js"

lemma set_list_link [simp]: "set (list_link m xs n) = insert n (set xs)"
  by (induction xs) auto

lemma distinct_list_link: "distinct xs \<Longrightarrow> n \<notin> set xs \<Longrightarrow> distinct (list_link m xs n)"
  by (induction xs) auto

lemma list_link_append:
  assumes "\<forall>x \<in> set xs. rl_start (m x) < rl_start (m n)" "\<forall>y \<in> set ys. rl_start (m n) \<le> rl_start (m y)"
  shows "list_link m (xs @ ys) n = xs @ n # ys"
  using assms by (induction xs) (cases ys, auto)

lemma rele_lock_frame:
  assumes "linked st po" "i \<in> set (po_list st po)"
  shows "frame po st (rele_lock po i w st)" "store (rele_lock po i w st) = store st"
    "po_list (rele_lock po i w st) po = remove1 i (po_list st po)"
    "set (node_list (rele_lock po i w st)) \<subseteq> set (node_list st)"
  using assms unfolding frame_def linked_def others_def rele_lock_def
  by (auto simp: distinct_remove1 notin_set_remove1)

lemma set_lock_frame:
  assumes "linked st po" "i \<in> set (po_list st po)" "rl_po l = po"
  shows "frame po st (set_lock st i l)"
  using assms by (auto simp: frame_def linked_def others_def set_lock_def)

lemma set_lock_simps [simp]:
  "store (set_lock st i l) = (store st)(i := l)" "po_list (set_lock st i l) = po_list st"
  "node_list (set_lock st i l) = node_list st"
  by (simp_all add: set_lock_def)

lemma gen_lock_some:
  assumes "linked st po" "stock st js (Suc n)"
  obtains j js' st' where "js = j # js'"
    "gen_lock po s k ty st (map Some js) = (True, st', map Some js')" "frame po st st'" "stock st' js' n"
    "store st' = (store st)(unat j := new_lock po ty s k)" "unat j \<notin> set (node_list st)"
    "po_list st' po = list_link (store st') (po_list st po) (unat j)"
proof -
  obtain j js' where js: "js = j # js'" "j \<notin> set js'" "distinct js'" "n \<le> length js'"
    using assms(2) by (cases js) (auto simp: stock_def)
  define st' where "st' = fst (snd (gen_lock po s k ty st (map Some js)))"
  have st': "store st' = (store st)(unat j := new_lock po ty s k)"
    "po_list st' = (po_list st)(po := list_link (store st') (po_list st po) (unat j))"
    "node_list st' = list_link (store st') (node_list st) (unat j)"
    by (simp_all add: st'_def gen_lock_def js(1) alloc_def Let_def new_lock_def)
  have new: "unat j \<notin> set (node_list st)" using assms(2) js(1) by (simp add: stock_def)
  have g: "gen_lock po s k ty st (map Some js) = (True, st', map Some js')"
    by (simp add: st'_def gen_lock_def js(1) alloc_def Let_def)
  have "frame po st st'"
    using assms(1) new by (auto simp: frame_def linked_def others_def st' new_lock_def intro!: distinct_list_link)
  moreover have "stock st' js' n"
    using assms(2) js by (auto simp: stock_def st' word_eq_iff_unsigned [symmetric])
  ultimately show ?thesis using that [OF js(1) g _ _ st'(1) new] st' by simp
qed

section \<open>The loop\<close>

definition ctx :: "rlocks \<Rightarrow> nat \<Rightarrow> nat list \<Rightarrow> nat list \<Rightarrow> int \<Rightarrow> bool" where
  "ctx st po pre is s \<longleftrightarrow>
     linked st po \<and> po_list st po = pre @ is \<and> sorted_locks (map (store st) is) \<and>
     (\<forall>p \<in> set pre. rl_start (store st p) < s \<and> (\<forall>i \<in> set is. rl_start (store st p) < rl_start (store st i)))"

lemma ctxD:
  assumes "ctx st po pre (i # is) s"
  shows "linked st po" "i \<in> set (po_list st po)" "i \<notin> set pre" "i \<notin> set is" "distinct (pre @ is)"
    "lock_ok (store st i)" "\<forall>x \<in> set is. before (store st i) (rl_start (store st x))"
    "\<forall>p \<in> set pre. rl_start (store st p) < s" "\<forall>p \<in> set pre. rl_start (store st p) < rl_start (store st i)"
    "rl_po (store st i) = po"
  using assms by (auto simp: ctx_def linked_def)

lemma stock_less: "stock st js n \<Longrightarrow> m \<le> n \<Longrightarrow> set (node_list st') \<subseteq> set (node_list st) \<Longrightarrow> stock st' js m"
  by (auto simp: stock_def)

lemma ctx_rele:
  assumes "ctx st po pre (i # is) s" "\<forall>p \<in> set pre. rl_start (store st p) < s'"
  shows "ctx (rele_lock po i w st) po pre is s'" "frame po st (rele_lock po i w st)"
    "store (rele_lock po i w st) = store st" "stock st js (Suc n) \<Longrightarrow> stock (rele_lock po i w st) js n"
proof -
  note c = ctxD [OF assms(1)]
  note r = rele_lock_frame [OF c(1,2), of w]
  show "frame po st (rele_lock po i w st)" "store (rele_lock po i w st) = store st" by (rule r(1), rule r(2))
  have "po_list (rele_lock po i w st) po = pre @ is"
    using assms(1) c(3) by (simp add: r(3) ctx_def remove1_append)
  then show "ctx (rele_lock po i w st) po pre is s'"
    using assms r(1,2) by (auto simp: ctx_def frame_def)
  show "stock st js (Suc n) \<Longrightarrow> stock (rele_lock po i w st) js n" using stock_less [OF _ _ r(4)] by simp
qed

lemma ctx_skip:
  assumes "ctx st po pre (i # is) s" "rl_start (store st i) < s'" "\<forall>p \<in> set pre. rl_start (store st p) < s'"
  shows "ctx st po (pre @ [i]) is s'"
  using assms ctxD(7) [OF assms(1)] by (auto simp: ctx_def before_def)

text \<open>Changing the current lock without moving it past its neighbours.\<close>

lemma ctx_set:
  assumes "ctx st po pre (i # is) s" "lock_ok l" "rl_po l = po" "\<forall>x \<in> set is. before l (rl_start (store st x))"
    "\<forall>p \<in> set pre. rl_start (store st p) < rl_start l"
  shows "ctx (set_lock st i l) po pre (i # is) s" "frame po st (set_lock st i l)"
    "stock st js n \<Longrightarrow> stock (set_lock st i l) js n"
proof -
  note c = ctxD [OF assms(1)]
  show f: "frame po st (set_lock st i l)" by (rule set_lock_frame [OF c(1,2) assms(3)])
  then show "ctx (set_lock st i l) po pre (i # is) s"
    using assms c(3,4) by (auto simp: ctx_def frame_def)
  show "stock st js n \<Longrightarrow> stock (set_lock st i l) js n" by (simp add: stock_def)
qed

lemma gen_insert:
  assumes l: "linked st po" "po_list st po = pre @ is" and "stock st js (Suc n)" "\<forall>p \<in> set pre. rl_start (store st p) < x"
    "\<forall>i \<in> set is. x \<le> rl_start (store st i)"
  obtains j js' st' where "gen_lock po x k ty st (map Some js) = (True, st', map Some js')" "frame po st st'"
    "store st' = (store st)(j := new_lock po ty x k)" "j \<notin> set (pre @ is)" "po_list st' po = pre @ j # is"
    "stock st' js' n" "fst (alloc (map Some js)) = Some (hd js)" "unat (hd js) = j"
proof -
  from gen_lock_some [OF l(1) assms(3), of x k ty] obtain j js' st' where g: "js = j # js'"
    "gen_lock po x k ty st (map Some js) = (True, st', map Some js')" "frame po st st'" "stock st' js' n"
    "store st' = (store st)(unat j := new_lock po ty x k)" "unat j \<notin> set (node_list st)"
    "po_list st' po = list_link (store st') (po_list st po) (unat j)" by blast
  have n: "unat j \<notin> set (pre @ is)" using g(6) l(1,2) by (auto simp: linked_def)
  have "list_link (store st') (pre @ is) (unat j) = pre @ unat j # is"
    using assms(4,5) n by (intro list_link_append) (auto simp: g(5))
  then show ?thesis using that [OF g(2,3,5) n _ g(4)] g(1,7) l(2) by (simp add: alloc_def)
qed

text \<open>The end of the loop: one lock is inserted and the rest is left.\<close>

definition result :: "nat \<Rightarrow> rlocks \<Rightarrow> rlock list \<Rightarrow> (error_t \<times> rlocks \<times> allocs) option \<Rightarrow> bool" where
  "result po st ls r \<longleftrightarrow> (\<exists>st' orc'. r = Some (Success, st', orc') \<and> own st' po = ls \<and> frame po st st')"

lemma resultI: "own st' po = ls \<Longrightarrow> frame po st st' \<Longrightarrow> result po st ls (Some (Success, st', orc'))"
  by (simp add: result_def)

lemma result_frame: "frame po st st1 \<Longrightarrow> result po st1 ls r \<Longrightarrow> result po st ls r"
  using frame_trans by (auto simp: result_def)

lemma result_gen:
  assumes "ctx st po pre is s" "stock st js (Suc n)" "\<forall>p \<in> set pre. rl_start (store st p) < x"
    "\<forall>i \<in> set is. x \<le> rl_start (store st i)"
  shows "result po st (map (store st) pre @ new_lock po ty x k # map (store st) is)
    (case gen_lock po x k ty st (map Some js) of (ok, st1, o1) \<Rightarrow> Some (if ok then Success else ENOMEM, st1, o1))"
proof -
  have li: "linked st po" "po_list st po = pre @ is" using assms(1) by (simp_all add: ctx_def)
  obtain j js' st' where g: "gen_lock po x k ty st (map Some js) = (True, st', map Some js')" "frame po st st'"
    "store st' = (store st)(j := new_lock po ty x k)" "j \<notin> set (pre @ is)" "po_list st' po = pre @ j # is"
    by (rule gen_insert [OF li assms(2-4)])
  then show ?thesis by (auto simp: result_def own_def)
qed

text \<open>Inserting a lock in front of the current one, and going on with the current lock.\<close>

lemma ctx_gen:
  assumes c: "ctx st po pre (i # is) s" and "stock st js (Suc n)" "\<forall>p \<in> set pre. rl_start (store st p) < x"
    "x < rl_start (store st i)"
  obtains j js' st' where "gen_lock po x k ty st (map Some js) = (True, st', map Some js')" "frame po st st'"
    "store st' = (store st)(j := new_lock po ty x k)" "j \<notin> set (pre @ i # is)" "ctx st' po (pre @ [j]) (i # is) (rl_start (store st i))"
    "stock st' js' n"
proof -
  have li: "linked st po" "po_list st po = pre @ i # is" using c by (simp_all add: ctx_def)
  have lt: "\<forall>y \<in> set (i # is). x < rl_start (store st y)"
    using assms(4) ctxD(7) [OF c] by (auto simp: before_def)
  then have le: "\<forall>y \<in> set (i # is). x \<le> rl_start (store st y)" by auto
  obtain j js' st' where g:
    "gen_lock po x k ty st (map Some js) = (True, st', map Some js')" "frame po st st'"
    "store st' = (store st)(j := new_lock po ty x k)" "j \<notin> set (pre @ i # is)" "po_list st' po = pre @ j # i # is"
    "stock st' js' n" by (rule gen_insert [OF li assms(2,3) le])
  have m: "map (store st') (i # is) = map (store st) (i # is)" using g(4) by (auto simp: g(3))
  have "ctx st' po (pre @ [j]) (i # is) (rl_start (store st i))"
    unfolding ctx_def m
    using c g(2,4,5) lt ctxD(9) [OF c] by (auto simp: ctx_def frame_def g(3))
  then show ?thesis using that g by blast
qed

lemma split_wrapped_some:
  assumes c: "ctx st po pre (i # is) s" and st: "stock st js (length is + 3)"
    and l: "store st i = l" "rl_start l = a" "rl_len l = k" and "a \<le> s" and "k = 0 \<or> n \<noteq> 0 \<and> s + n \<le> a + k" and "0 \<le> n"
    and tl: "tail \<longleftrightarrow> k = 0 \<and> n \<noteq> 0 \<or> s + n < a + k"
  obtains st1 js1 hs ts where "split_wrapped po s n i st (map Some js) = (Success, tail, st1, map Some js1)" "frame po st st1"
    "po_list st1 po = pre @ hs @ i # ts @ is" "store st1 i = l\<lparr>rl_start := s, rl_len := n\<rparr>"
    "map (store st1) pre = map (store st) pre" "map (store st1) is = map (store st) is"
    "map (store st1) hs = (if a < s then [new_lock po F_RDLCK a (s - a)] else [])"
    "map (store st1) ts = (if tail then [new_lock po F_RDLCK (s + n) (if k \<noteq> 0 then a + k - (s + n) else 0)] else [])"
    "stock st1 js1 (if tail then length is + 1 else length is + 2)"
proof -
  note d = ctxD [OF c]
  have li: "linked st po" "po_list st po = pre @ i # is" using c by (simp_all add: ctx_def)
  have ge: "\<forall>y \<in> set (i # is). a \<le> rl_start (store st y)" using d(7) l by (auto simp: before_def)
  have "\<exists>st1 js1 hs. (if a < s then gen_lock po a (s - a) F_RDLCK st (map Some js) else (True, st, map Some js)) =
      (True, st1, map Some js1) \<and> frame po st st1 \<and> po_list st1 po = pre @ hs @ i # is \<and> set hs \<inter> set (pre @ i # is) = {} \<and>
      (\<forall>x \<in> set (pre @ i # is). store st1 x = store st x) \<and>
      map (store st1) hs = (if a < s then [new_lock po F_RDLCK a (s - a)] else []) \<and> stock st1 js1 (length is + 2)"
  proof (cases "a < s")
    case True
    have pre: "\<forall>p \<in> set pre. rl_start (store st p) < a" using d(9) l by simp
    have "stock st js (Suc (length is + 2))" using st by (simp add: numeral_3_eq_3)
    from gen_insert [OF li this pre ge, of "s - a" F_RDLCK] obtain j js1 st1 where
      "gen_lock po a (s - a) F_RDLCK st (map Some js) = (True, st1, map Some js1)" "frame po st st1"
      "store st1 = (store st)(j := new_lock po F_RDLCK a (s - a))" "j \<notin> set (pre @ i # is)" "po_list st1 po = pre @ j # i # is"
      "stock st1 js1 (length is + 2)" by metis
    then show ?thesis using True by (intro exI [of _ st1] exI [of _ js1] exI [of _ "[j]"]) auto
  next
    case False
    then show ?thesis using li frame_refl stock_less [OF st]
      by (intro exI [of _ st] exI [of _ js] exI [of _ "[]"]) simp
  qed
  then obtain st1 js1 hs where h: "(if a < s then gen_lock po a (s - a) F_RDLCK st (map Some js) else (True, st, map Some js)) =
      (True, st1, map Some js1)" "frame po st st1" "po_list st1 po = pre @ hs @ i # is" "set hs \<inter> set (pre @ i # is) = {}"
      "\<forall>x \<in> set (pre @ i # is). store st1 x = store st x"
      "map (store st1) hs = (if a < s then [new_lock po F_RDLCK a (s - a)] else [])" "stock st1 js1 (length is + 2)" by blast
  have n: "tail \<Longrightarrow> 0 < n" using tl assms(6-8) by linarith
  let ?k' = "if k \<noteq> 0 then a + k - (s + n) else 0"
  have "\<exists>st2 js2 ts. (if tail then gen_lock po (s + n) ?k' F_RDLCK st1 (map Some js1) else (True, st1, map Some js1)) =
      (True, st2, map Some js2) \<and> frame po st1 st2 \<and> po_list st2 po = pre @ hs @ i # ts @ is \<and>
      (\<forall>x \<in> set (pre @ hs @ i # is). store st2 x = store st1 x) \<and> set ts \<inter> set (pre @ hs @ i # is) = {} \<and>
      map (store st2) ts = (if tail then [new_lock po F_RDLCK (s + n) ?k'] else []) \<and>
      stock st2 js2 (if tail then length is + 1 else length is + 2)"
  proof (cases tail)
    case True
    have li1: "linked st1 po" "po_list st1 po = (pre @ hs @ [i]) @ is" using h(2,3) by (simp_all add: frame_def)
    have "rl_start x < s + n" if "x \<in> set (map (store st1) hs)" for x
      using that n [OF True] unfolding h(6) by (auto split: if_splits)
    moreover have "rl_start (store st1 x) < s + n" if "x \<in> set (pre @ [i])" for x
      using that h(5) d(8) l assms(6) n [OF True] by fastforce
    ultimately have lt: "\<forall>x \<in> set (pre @ hs @ [i]). rl_start (store st1 x) < s + n" by auto
    have ge: "\<forall>x \<in> set is. s + n \<le> rl_start (store st1 x)"
      using d(7) h(5) l tl True assms(7) by (fastforce simp: before_def)
    have "stock st1 js1 (Suc (length is + 1))" using h(7) by simp
    from gen_insert [OF li1 this lt ge, of ?k' F_RDLCK] obtain j js2 st2 where
      "gen_lock po (s + n) ?k' F_RDLCK st1 (map Some js1) = (True, st2, map Some js2)" "frame po st1 st2"
      "store st2 = (store st1)(j := new_lock po F_RDLCK (s + n) ?k')" "j \<notin> set ((pre @ hs @ [i]) @ is)"
      "po_list st2 po = (pre @ hs @ [i]) @ j # is" "stock st2 js2 (length is + 1)" by metis
    then show ?thesis using True by (intro exI [of _ st2] exI [of _ js2] exI [of _ "[j]"]) auto
  next
    case False
    then show ?thesis using h(2,3,7) frame_refl
      by (intro exI [of _ st1] exI [of _ js1] exI [of _ "[]"]) (simp add: frame_def)
  qed
  then obtain st2 js2 ts where t:
    "(if tail then gen_lock po (s + n) ?k' F_RDLCK st1 (map Some js1) else (True, st1, map Some js1)) = (True, st2, map Some js2)"
    "frame po st1 st2" "po_list st2 po = pre @ hs @ i # ts @ is"
    "\<forall>x \<in> set (pre @ hs @ i # is). store st2 x = store st1 x" "set ts \<inter> set (pre @ hs @ i # is) = {}"
    "map (store st2) ts = (if tail then [new_lock po F_RDLCK (s + n) ?k'] else [])"
    "stock st2 js2 (if tail then length is + 1 else length is + 2)" by blast
  have i2: "store st2 i = l" using t(4) h(5) l by simp
  let ?l = "l\<lparr>rl_start := s, rl_len := n\<rparr>"
  have "split_wrapped po s n i st (map Some js) = (Success, tail, set_lock st2 i ?l, map Some js2)"
  proof -
    have e: "k = 0 \<and> n \<noteq> 0 \<or> s + n < a + k \<longleftrightarrow> tail" using tl by simp
    have x: "\<not> tail \<Longrightarrow> k \<noteq> 0 \<Longrightarrow> k - (s - a) = n" "\<not> tail \<Longrightarrow> k = 0 \<Longrightarrow> n = 0" "\<not> a < s \<Longrightarrow> a = s"
      using tl assms(6,7) by auto
    have com: "l\<lparr>rl_len := u, rl_start := v\<rparr> = l\<lparr>rl_start := v, rl_len := u\<rparr>" for u v by (cases l) simp
    show ?thesis unfolding split_wrapped_def Let_def l e h(1) prod.case t(1) i2 using x by (auto simp: com)
  qed
  moreover have "frame po st (set_lock st2 i ?l)"
  proof -
    have "linked st2 po" using t(2) by (simp add: frame_def)
    then have "frame po st2 (set_lock st2 i ?l)" using t(3) d(10) l by (intro set_lock_frame) auto
    then show ?thesis using frame_trans h(2) t(2) by blast
  qed
  moreover have "distinct (pre @ hs @ i # ts @ is)" using t(2,3) by (simp add: frame_def linked_def)
  ultimately show ?thesis
    using t(3-7) h(4,5,6) i2 by (intro that [of "set_lock st2 i ?l" js2 hs ts]) (auto simp: stock_def)
qed

lemma own_ctx: "ctx st po pre is s \<Longrightarrow> own st po = map (store st) pre @ map (store st) is"
  by (simp add: own_def ctx_def)

lemma merge_wrapped:
  assumes c: "ctx st po pre (i # is) s" and st: "stock st js (length is + 3)" and n: "0 \<le> n"
    and ty: "ty = F_RDLCK \<or> ty = F_WRLCK"
    and w: "rl_start (store st i) \<le> s" "rl_len (store st i) = 0 \<or> n \<noteq> 0 \<and> s + n \<le> rl_start (store st i) + rl_len (store st i)"
    and IH: "\<And>st1 pre1 js1. ctx st1 po pre1 is s \<Longrightarrow> stock st1 js1 (length is + 2) \<Longrightarrow>
      map (store st1) is = map (store st) is \<Longrightarrow>
      result po st1 (map (store st1) pre1 @ merge_list po ty s n (map (store st) is)) (merge_loop po ty s n is st1 (map Some js1))"
  shows "result po st (map (store st) pre @ merge_list po ty s n (map (store st) (i # is)))
    (merge_loop po ty s n (i # is) st (map Some js))"
proof -
  define l a k where "l = store st i" and "a = rl_start l" and "k = rl_len l"
  have d: "lock_ok l" "\<forall>x \<in> set is. before l (rl_start (store st x))" "rl_po l = po" "\<forall>p \<in> set pre. rl_start (store st p) < s"
    using ctxD [OF c] by (simp_all add: l_def)
  have w': "a \<le> s \<and> (k = 0 \<or> n \<noteq> 0 \<and> s + n \<le> a + k)" using w by (simp add: l_def a_def k_def)
  show ?thesis
  proof (cases "ty = rl_type l \<or> ty = F_RDLCK")
    case True
    then have "merge_loop po ty s n (i # is) st (map Some js) = Some (Success, st, map Some js)"
      "merge_list po ty s n (map (store st) (i # is)) = map (store st) (i # is)"
      using w' by (simp_all add: Let_def l_def [symmetric] a_def [symmetric] k_def [symmetric])
    then show ?thesis using own_ctx [OF c] frame_refl ctxD(1) [OF c] by (simp add: resultI)
  next
    case False
    then have t: "ty = F_WRLCK" "rl_type l = F_RDLCK" using ty d(1) by (auto simp: lock_ok_def)
    define tail where "tail \<longleftrightarrow> k = 0 \<and> n \<noteq> 0 \<or> s + n < a + k"
    let ?k' = "if k \<noteq> 0 then a + k - (s + n) else 0"
    obtain st1 js1 hs ts where sp: "split_wrapped po s n i st (map Some js) = (Success, tail, st1, map Some js1)" "frame po st st1"
      "po_list st1 po = pre @ hs @ i # ts @ is" "store st1 i = l\<lparr>rl_start := s, rl_len := n\<rparr>"
      "map (store st1) pre = map (store st) pre" "map (store st1) is = map (store st) is"
      "map (store st1) hs = (if a < s then [new_lock po F_RDLCK a (s - a)] else [])"
      "map (store st1) ts = (if tail then [new_lock po F_RDLCK (s + n) ?k'] else [])"
      "stock st1 js1 (if tail then length is + 1 else length is + 2)"
      using w' by (auto intro: split_wrapped_some [OF c st l_def [symmetric] a_def [symmetric] k_def [symmetric] _ _ n tail_def])
    have ml: "merge_list po ty s n (map (store st) (i # is)) = map (store st1) hs @
        (if tail then l\<lparr>rl_start := s, rl_len := n, rl_type := F_WRLCK\<rparr> # map (store st1) ts @ map (store st) is
         else merge_list po ty s n (map (store st) is))"
      using w' t by (simp add: Let_def l_def [symmetric] a_def [symmetric] k_def [symmetric] sp(7,8) tail_def)
    have mp: "merge_loop po ty s n (i # is) st (map Some js) =
        (if tail then Some (Success, set_lock st1 i (l\<lparr>rl_start := s, rl_len := n, rl_type := F_WRLCK\<rparr>), map Some js1)
         else merge_loop po ty s n is (rele_lock po i True st1) (map Some js1))"
      using w' t sp(1,4) by (simp add: Let_def l_def [symmetric] a_def [symmetric] k_def [symmetric])
    have dist: "distinct (pre @ hs @ i # ts @ is)" and lk: "linked st1 po" using sp(2,3) by (simp_all add: frame_def linked_def)
    show ?thesis
    proof (cases tail)
      case True
      have "frame po st1 (set_lock st1 i (l\<lparr>rl_start := s, rl_len := n, rl_type := F_WRLCK\<rparr>))"
        using lk sp(3) d(3) by (intro set_lock_frame) auto
      then have "frame po st (set_lock st1 i (l\<lparr>rl_start := s, rl_len := n, rl_type := F_WRLCK\<rparr>))"
        using frame_trans sp(2) by blast
      moreover have "own (set_lock st1 i (l\<lparr>rl_start := s, rl_len := n, rl_type := F_WRLCK\<rparr>)) po =
          map (store st) pre @ merge_list po ty s n (map (store st) (i # is))"
        using dist sp(3,5,6) True unfolding ml by (simp add: own_def)
      ultimately show ?thesis unfolding mp using True by (simp add: resultI)
    next
      case False
      have k: "k \<noteq> 0 \<Longrightarrow> s + n = a + k" "k = 0 \<Longrightarrow> n = 0" using False w' by (auto simp: tail_def)
      have ts: "ts = []" using sp(8) False by simp
      have hs: "\<forall>x \<in> set hs. rl_start (store st1 x) < s"
      proof
        fix x
        assume "x \<in> set hs"
        then have "store st1 x \<in> set (map (store st1) hs)" by simp
        then show "rl_start (store st1 x) < s" unfolding sp(7) by (auto split: if_splits)
      qed
      have pre: "\<forall>x \<in> set pre. rl_start (store st1 x) < s" using d(4) sp(5) by (metis list.set_map map_eq_conv)
      have st1: "\<forall>x \<in> set is. store st1 x = store st x" using sp(6) by simp
      have isn: "\<forall>x \<in> set is. s < rl_start (store st1 x) \<and> before (l\<lparr>rl_start := s, rl_len := n\<rparr>) (rl_start (store st1 x))"
      proof
        fix x
        assume x: "x \<in> set is"
        then have "0 < k" "a + k \<le> rl_start (store st1 x)" using d(2) st1 by (auto simp: before_def a_def k_def)
        then show "s < rl_start (store st1 x) \<and> before (l\<lparr>rl_start := s, rl_len := n\<rparr>) (rl_start (store st1 x))"
          using k(1) n w' by (auto simp: before_def)
      qed
      have "lock_ok (l\<lparr>rl_start := s, rl_len := n\<rparr>)" using d(1) n w' by (auto simp: lock_ok_def a_def)
      moreover have "sorted_locks (map (store st1) is)" using c unfolding sp(6) by (simp add: ctx_def)
      ultimately have "ctx st1 po (pre @ hs) (i # is) s"
        using lk sp(3,4) ts hs pre isn unfolding ctx_def by force
      note r = ctx_rele [OF this, where s' = s and w = True]
      have p1: "\<forall>p \<in> set (pre @ hs). rl_start (store st1 p) < s" using hs pre by auto
      let ?st = "rele_lock po i True st1"
      have "stock ?st js1 (length is + 2)"
        using stock_less [OF _ order_refl rele_lock_frame(4) [OF lk]] sp(3,9) False by simp
      then have "result po ?st (map (store ?st) (pre @ hs) @ merge_list po ty s n (map (store st) is))
          (merge_loop po ty s n is ?st (map Some js1))"
        using IH [OF r(1) [OF p1]] r(3) [OF p1] sp(6) by simp
      then have "result po st (map (store ?st) (pre @ hs) @ merge_list po ty s n (map (store st) is))
          (merge_loop po ty s n is ?st (map Some js1))"
        using result_frame frame_trans [OF sp(2) r(2) [OF p1]] by blast
      then show ?thesis unfolding mp ml using False r(3) [OF p1] sp(5) by simp
    qed
  qed
qed

lemma merge_wraps:
  assumes c: "ctx st po pre (i # is) s" and st: "stock st js (length is + 3)" and n: "0 \<le> n"
    and ty: "ty = F_RDLCK \<or> ty = F_WRLCK"
    and w: "\<not> (rl_start (store st i) \<le> s \<and> (rl_len (store st i) = 0 \<or> n \<noteq> 0 \<and> s + n \<le> rl_start (store st i) + rl_len (store st i)))"
      "s \<le> rl_start (store st i)" "n = 0 \<or> rl_len (store st i) \<noteq> 0 \<and> rl_start (store st i) + rl_len (store st i) \<le> s + n"
    and IH: "\<And>st1 pre1 js1 s1 n1. ctx st1 po pre1 is s1 \<Longrightarrow> stock st1 js1 (length is + 2) \<Longrightarrow>
      map (store st1) is = map (store st) is \<Longrightarrow> 0 \<le> n1 \<Longrightarrow> n = 0 \<and> n1 = 0 \<or> n \<noteq> 0 \<and> s1 + n1 = s + n \<and> n1 \<noteq> 0 \<Longrightarrow>
      result po st1 (map (store st1) pre1 @ merge_list po ty s1 n1 (map (store st) is)) (merge_loop po ty s1 n1 is st1 (map Some js1))"
  shows "result po st (map (store st) pre @ merge_list po ty s n (map (store st) (i # is)))
    (merge_loop po ty s n (i # is) st (map Some js))"
proof -
  define l a k where "l = store st i" and "a = rl_start l" and "k = rl_len l"
  note d = ctxD [OF c, folded l_def]
  note w' = w [folded l_def, folded a_def k_def]
  have n0: "n = 0 \<and> n = 0 \<or> n \<noteq> 0 \<and> s + n = s + n \<and> n \<noteq> 0" by simp
  show ?thesis
  proof (cases "ty = rl_type l \<or> ty = F_WRLCK")
    case True
    note r = ctx_rele [OF c d(8), where w = True]
    have e: "merge_list po ty s n (map (store st) (i # is)) = merge_list po ty s n (map (store st) is)"
      "merge_loop po ty s n (i # is) st (map Some js) = merge_loop po ty s n is (rele_lock po i True st) (map Some js)"
      using w' True by (auto simp: Let_def l_def [symmetric] a_def [symmetric] k_def [symmetric])
    have "stock (rele_lock po i True st) js (length is + 2)" using r(4) [of js "length is + 2"] st by (simp add: numeral_3_eq_3)
    then show ?thesis unfolding e using IH [OF r(1) _ _ n n0, of js] r(2,3) result_frame by simp
  next
    case False
    then have t: "ty = F_RDLCK" "rl_type l = F_WRLCK" using ty d(6) by (auto simp: lock_ok_def)
    define n' where "n' = (if n \<noteq> 0 then s + n - (a + k) else n)"
    define more where "more \<longleftrightarrow> k \<noteq> 0 \<and> (n = 0 \<or> a + k < s + n)"
    have "\<exists>st1 js1 hs. (if s < a then gen_lock po s (a - s) F_RDLCK st (map Some js) else (True, st, map Some js)) =
        (True, st1, map Some js1) \<and> frame po st st1 \<and> ctx st1 po (pre @ hs) (i # is) a \<and>
        (\<forall>x \<in> set (pre @ i # is). store st1 x = store st x) \<and>
        map (store st1) hs = (if s < a then [new_lock po F_RDLCK s (a - s)] else []) \<and> stock st1 js1 (length is + 2)"
    proof (cases "s < a")
      case True
      have "stock st js (Suc (length is + 2))" using st by (simp add: numeral_3_eq_3)
      from ctx_gen [OF c this d(8), of "a - s" F_RDLCK] True obtain j js1 st1 where
        "gen_lock po s (a - s) F_RDLCK st (map Some js) = (True, st1, map Some js1)" "frame po st st1"
        "store st1 = (store st)(j := new_lock po F_RDLCK s (a - s))" "j \<notin> set (pre @ i # is)"
        "ctx st1 po (pre @ [j]) (i # is) (rl_start (store st i))" "stock st1 js1 (length is + 2)"
        unfolding a_def l_def by blast
      then show ?thesis using True by (intro exI [of _ st1] exI [of _ js1] exI [of _ "[j]"]) (auto simp: a_def l_def)
    next
      case False
      then have "a = s" using w'(2) by simp
      then show ?thesis using False c frame_refl [OF d(1)] stock_less [OF st]
        by (intro exI [of _ st] exI [of _ js] exI [of _ "[]"]) simp
    qed
    then obtain st1 js1 hs where h:
      "(if s < a then gen_lock po s (a - s) F_RDLCK st (map Some js) else (True, st, map Some js)) = (True, st1, map Some js1)"
      "frame po st st1" "ctx st1 po (pre @ hs) (i # is) a" "\<forall>x \<in> set (pre @ i # is). store st1 x = store st x"
      "map (store st1) hs = (if s < a then [new_lock po F_RDLCK s (a - s)] else [])" "stock st1 js1 (length is + 2)" by blast
    have ml: "merge_list po ty s n (map (store st) (i # is)) = map (store st1) hs @ l #
        (if more then merge_list po ty (a + k) n' (map (store st) is) else map (store st) is)"
      using w' t by (auto simp: Let_def l_def [symmetric] a_def [symmetric] k_def [symmetric] h(5) more_def n'_def)
    have hd: "\<not> more \<Longrightarrow> s < a" using w' by (auto simp: more_def)
    have mp: "merge_loop po ty s n (i # is) st (map Some js) =
        (if more then merge_loop po ty (a + k) n' is st1 (map Some js1) else Some (Success, st1, map Some js1))"
    proof -
      have wr: "a \<le> s \<and> (k = 0 \<or> n \<noteq> 0 \<and> s + n \<le> a + k) \<longleftrightarrow> False" "s \<le> a \<and> (n = 0 \<or> k \<noteq> 0 \<and> a + k \<le> s + n) \<longleftrightarrow> True"
        using w' by auto
      show ?thesis
        unfolding merge_loop.simps Let_def l_def [symmetric] a_def [symmetric] k_def [symmetric] wr if_True if_False
        using t hd h(1) by (auto simp: more_def n'_def)
    qed
    have eq: "map (store st1) pre = map (store st) pre" "map (store st1) is = map (store st) is" "store st1 i = l"
      using h(4) by (simp_all add: l_def)
    show ?thesis
    proof (cases more)
      case True
      have kp: "0 < k" using True d(6) by (auto simp: more_def lock_ok_def k_def)
      have "ctx st1 po ((pre @ hs) @ [i]) is (a + k)"
        using kp ctxD(8) [OF h(3)] eq(3) by (intro ctx_skip [OF h(3)]) (fastforce simp: a_def)+
      moreover have "n = 0 \<and> n' = 0 \<or> n \<noteq> 0 \<and> (a + k) + n' = s + n \<and> n' \<noteq> 0" "0 \<le> n'"
        using True by (auto simp: n'_def more_def)
      ultimately have "result po st1 (map (store st1) ((pre @ hs) @ [i]) @ merge_list po ty (a + k) n' (map (store st) is))
          (merge_loop po ty (a + k) n' is st1 (map Some js1))"
        using IH h(6) eq(2) by blast
      then show ?thesis unfolding mp ml using True result_frame [OF h(2)] eq by simp
    next
      case False
      then show ?thesis unfolding mp ml using own_ctx [OF h(3)] h(2) eq by (simp add: resultI)
    qed
  qed
qed

lemma merge_within:
  assumes c: "ctx st po pre (i # is) s" and st: "stock st js (length is + 3)" and n: "0 \<le> n"
    and ty: "ty = F_RDLCK \<or> ty = F_WRLCK"
    and w: "rl_start (store st i) < s" "s \<le> rl_start (store st i) + rl_len (store st i)"
      "n = 0 \<or> s + n > rl_start (store st i) + rl_len (store st i)"
    and IH: "\<And>st1 pre1 js1 s1 n1. ctx st1 po pre1 is s1 \<Longrightarrow> stock st1 js1 (length is + 2) \<Longrightarrow>
      map (store st1) is = map (store st) is \<Longrightarrow> 0 \<le> n1 \<Longrightarrow> n = 0 \<and> n1 = 0 \<or> n \<noteq> 0 \<and> s1 + n1 = s + n \<and> n1 \<noteq> 0 \<Longrightarrow>
      result po st1 (map (store st1) pre1 @ merge_list po ty s1 n1 (map (store st) is)) (merge_loop po ty s1 n1 is st1 (map Some js1))"
  shows "result po st (map (store st) pre @ merge_list po ty s n (map (store st) (i # is)))
    (merge_loop po ty s n (i # is) st (map Some js))"
proof -
  define l a k where "l = store st i" and "a = rl_start l" and "k = rl_len l"
  note d = ctxD [OF c, folded l_def]
  note w' = w [folded l_def, folded a_def k_def]
  have k: "0 < k" using w' by linarith
  have nw: "a \<le> s \<and> (k = 0 \<or> n \<noteq> 0 \<and> s + n \<le> a + k) \<longleftrightarrow> False" "s \<le> a \<and> (n = 0 \<or> k \<noteq> 0 \<and> a + k \<le> s + n) \<longleftrightarrow> False"
    "a < s \<and> s \<le> a + k \<and> (n = 0 \<or> a + k < s + n) \<longleftrightarrow> True" "k = 0 \<longleftrightarrow> False"
    using w' k by auto
  have n0: "n = 0 \<and> n = 0 \<or> n \<noteq> 0 \<and> s + n = s + n \<and> n \<noteq> 0" by simp
  have st2: "stock st js (length is + 2)" using stock_less [OF st] by simp
  have ml: "merge_list po ty s n (map (store st) (i # is)) =
      (if ty = rl_type l then merge_list po ty a (if n \<noteq> 0 then n + (s - a) else n) (map (store st) is)
       else if s = a + k then l # merge_list po ty s n (map (store st) is)
       else if ty = F_WRLCK then l\<lparr>rl_len := s - a\<rparr> # merge_list po ty s n (map (store st) is)
       else l # merge_list po ty (a + k) (if n \<noteq> 0 then s + n - (a + k) else n) (map (store st) is))"
    using w' k by (auto simp: Let_def l_def [symmetric] a_def [symmetric] k_def [symmetric])
  have mp: "merge_loop po ty s n (i # is) st (map Some js) =
      (if ty = rl_type l then merge_loop po ty a (if n \<noteq> 0 then n + (s - a) else n) is (rele_lock po i True st) (map Some js)
       else if s = a + k then merge_loop po ty s n is st (map Some js)
       else if ty = F_WRLCK then merge_loop po ty s n is (set_lock st i (l\<lparr>rl_len := s - a\<rparr>)) (map Some js)
       else merge_loop po ty (a + k) (if n \<noteq> 0 then s + n - (a + k) else n) is st (map Some js))"
    using w' k ty d(6) by (auto simp: Let_def l_def [symmetric] a_def [symmetric] k_def [symmetric] lock_ok_def algebra_simps)
  have skip: "ctx st po (pre @ [i]) is s1" if "s \<le> s1" for s1
    using that d(8) w'(1) by (intro ctx_skip [OF c]) (auto simp: a_def l_def)
  consider "ty = rl_type l" | "ty \<noteq> rl_type l" "s = a + k" | "ty \<noteq> rl_type l" "s \<noteq> a + k" "ty = F_WRLCK"
    | "ty \<noteq> rl_type l" "s \<noteq> a + k" "ty \<noteq> F_WRLCK" by blast
  then show ?thesis
  proof cases
    case 1
    have "\<forall>p \<in> set pre. rl_start (store st p) < a" using d(9) by (simp add: a_def l_def)
    note r = ctx_rele [OF c this, where w = True]
    have "stock (rele_lock po i True st) js (length is + 2)" using r(4) [of js "length is + 2"] st by (simp add: numeral_3_eq_3)
    moreover have "n = 0 \<and> (if n \<noteq> 0 then n + (s - a) else n) = 0 \<or>
        n \<noteq> 0 \<and> a + (if n \<noteq> 0 then n + (s - a) else n) = s + n \<and> (if n \<noteq> 0 then n + (s - a) else n) \<noteq> 0"
      "0 \<le> (if n \<noteq> 0 then n + (s - a) else n)" using n w'(1) by auto
    ultimately have "result po (rele_lock po i True st) (map (store st) pre @
        merge_list po ty a (if n \<noteq> 0 then n + (s - a) else n) (map (store st) is))
        (merge_loop po ty a (if n \<noteq> 0 then n + (s - a) else n) is (rele_lock po i True st) (map Some js))"
      using IH [OF r(1)] r(3) by simp
    then show ?thesis unfolding ml mp if_P [OF 1] by (rule result_frame [OF r(2)])
  next
    case 2
    have "result po st (map (store st) (pre @ [i]) @ merge_list po ty s n (map (store st) is)) (merge_loop po ty s n is st (map Some js))"
      by (rule IH [OF skip st2 refl n n0]) simp
    then show ?thesis unfolding ml mp using 2 by (simp add: l_def)
  next
    case 3
    then have t: "rl_type l = F_RDLCK" using d(6) by (auto simp: lock_ok_def)
    let ?l = "l\<lparr>rl_len := s - a\<rparr>"
    have "lock_ok ?l" "\<forall>x \<in> set is. before ?l (rl_start (store st x))" "\<forall>p \<in> set pre. rl_start (store st p) < rl_start ?l"
      using d(6,7,9) w' unfolding lock_ok_def before_def l_def [symmetric] a_def [symmetric] k_def [symmetric]
      by (auto simp: l_def [symmetric] a_def [symmetric])
    note r = ctx_set [OF c this(1) _ this(2,3)]
    have f: "frame po st (set_lock st i ?l)" "ctx (set_lock st i ?l) po pre (i # is) s" using r(1,2) d(10) by simp_all
    have "ctx (set_lock st i ?l) po (pre @ [i]) is s"
      using ctxD(8) [OF f(2)] w'(1) by (intro ctx_skip [OF f(2)]) (auto simp: a_def)
    moreover have "stock (set_lock st i ?l) js (length is + 2)" using st2 by (simp add: stock_def)
    moreover have "map (store (set_lock st i ?l)) is = map (store st) is" using d(4) by simp
    ultimately have "result po (set_lock st i ?l) (map (store (set_lock st i ?l)) (pre @ [i]) @ merge_list po ty s n (map (store st) is))
        (merge_loop po ty s n is (set_lock st i ?l) (map Some js))"
      using IH n n0 by blast
    then have "result po st (map (store st) pre @ ?l # merge_list po ty s n (map (store st) is))
        (merge_loop po ty s n is (set_lock st i ?l) (map Some js))"
      using result_frame [OF f(1)] d(3) by simp
    then show ?thesis unfolding ml mp if_not_P [OF 3(1)] if_not_P [OF 3(2)] if_P [OF 3(3)] .
  next
    case 4
    then have t: "rl_type l = F_WRLCK" "ty = F_RDLCK" using d(6) ty by (auto simp: lock_ok_def)
    let ?n = "if n \<noteq> 0 then s + n - (a + k) else n"
    have "n = 0 \<and> ?n = 0 \<or> n \<noteq> 0 \<and> (a + k) + ?n = s + n \<and> ?n \<noteq> 0" "0 \<le> ?n" using w'(3) by auto
    then have "result po st (map (store st) (pre @ [i]) @ merge_list po ty (a + k) ?n (map (store st) is))
        (merge_loop po ty (a + k) ?n is st (map Some js))"
      using IH [OF skip st2 refl] w'(2) by blast
    then show ?thesis unfolding ml mp if_not_P [OF 4(1)] if_not_P [OF 4(2)] if_not_P [OF 4(3)] by (simp add: l_def)
  qed
qed

lemma merge_below:
  assumes c: "ctx st po pre (i # is) s" and st: "stock st js (length is + 3)"
    and ty: "ty = F_RDLCK \<or> ty = F_WRLCK"
    and w: "s < rl_start (store st i)" "n \<noteq> 0" "0 \<le> n" "rl_start (store st i) \<le> s + n"
      "rl_len (store st i) = 0 \<or> s + n < rl_start (store st i) + rl_len (store st i)"
    and r: "reaches s n (map (store st) is)"
  shows "result po st (map (store st) pre @ merge_list po ty s n (map (store st) (i # is)))
    (merge_loop po ty s n (i # is) st (map Some js))"
proof -
  define l a k where "l = store st i" and "a = rl_start l" and "k = rl_len l"
  note d = ctxD [OF c, folded l_def]
  note w' = w [folded l_def, folded a_def k_def]
  have st1: "stock st js (Suc (length is + 2))" using st by (simp add: numeral_3_eq_3)
  have ge: "\<forall>x \<in> set (i # is). s \<le> rl_start (store st x)" using d(7) w'(1) by (auto simp: before_def a_def l_def)
  let ?g = "\<lambda>k ty. case gen_lock po s k ty st (map Some js) of (ok, st1, o1) \<Rightarrow> Some (if ok then Success else ENOMEM, st1, o1)"
  have ml: "merge_list po ty s n (map (store st) (i # is)) =
      (if ty = rl_type l then l\<lparr>rl_start := s, rl_len := (if k \<noteq> 0 then a + k - s else k)\<rparr> # map (store st) is
       else if a = s + n then new_lock po ty s n # l # map (store st) is
       else if ty = F_WRLCK
       then new_lock po F_WRLCK s n # l\<lparr>rl_start := s + n, rl_len := (if k \<noteq> 0 then a + k - (s + n) else k)\<rparr> # map (store st) is
       else new_lock po F_RDLCK s (a - s) # l # map (store st) is)"
    using w' by (auto simp: Let_def l_def [symmetric] a_def [symmetric] k_def [symmetric])
  have rest: "merge_loop po ty s n is st (map Some js) = ?g n ty" if "a = s + n"
  proof (cases "is")
    case (Cons x xs)
    have x: "k \<noteq> 0" "0 < k" "a + k \<le> rl_start (store st x)" "rl_len (store st x) = 0 \<longrightarrow> rl_start (store st x) \<le> s + n"
      "0 \<le> rl_len (store st x)"
      using d(7) r w'(2) c Cons by (auto simp: before_def a_def k_def reaches_def ctx_def lock_ok_def l_def)
    then show ?thesis using that w'(1-3) by (auto simp: Cons Let_def split: prod.split)
  qed (simp split: prod.split)
  have mp: "merge_loop po ty s n (i # is) st (map Some js) =
      (if ty = rl_type l then
         Some (Success, set_lock st i (l\<lparr>rl_start := s, rl_len := (if k \<noteq> 0 then a + k - s else k)\<rparr>), map Some js)
       else if a = s + n then merge_loop po ty s n is st (map Some js)
       else if ty = F_WRLCK
       then (case gen_lock po s n F_WRLCK st (map Some js) of
               (ok, st1, o1) \<Rightarrow> if \<not> ok then Some (ENOMEM, st1, o1)
                 else Some (Success, set_lock st1 i ((store st1 i)\<lparr>rl_start := s + n,
                   rl_len := (if k \<noteq> 0 then a + k - (s + n) else k)\<rparr>), o1))
       else ?g (a - s) F_RDLCK)"
  proof -
    have com: "x\<lparr>rl_len := p, rl_start := q\<rparr> = x\<lparr>rl_start := q, rl_len := p\<rparr>" for x :: rlock and p q by (cases x) simp
    have n1: "a \<le> s \<and> (k = 0 \<or> n \<noteq> 0 \<and> s + n \<le> a + k) \<longleftrightarrow> False" "s \<le> a \<and> (n = 0 \<or> k \<noteq> 0 \<and> a + k \<le> s + n) \<longleftrightarrow> False"
      "a < s \<and> s \<le> a + k \<and> (n = 0 \<or> s + n > a + k) \<longleftrightarrow> False" "s < a \<and> (k = 0 \<or> a \<le> s + n) \<longleftrightarrow> True"
      "n \<noteq> 0 \<and> (k = 0 \<or> s + n < a + k) \<longleftrightarrow> True" "k + (a - s) = a + k - s" "k - (s + n - a) = a + k - (s + n)" "a + (s + n - a) = s + n"
      using w' by auto
    have t: "ty \<noteq> rl_type l \<Longrightarrow> ty = F_WRLCK \<Longrightarrow> rl_type l = F_RDLCK" "ty \<noteq> rl_type l \<Longrightarrow> ty \<noteq> F_WRLCK \<Longrightarrow> rl_type l = F_WRLCK \<and> ty = F_RDLCK"
      using d(6) ty by (auto simp: lock_ok_def)
    show ?thesis
      unfolding merge_loop.simps Let_def l_def [symmetric] a_def [symmetric] k_def [symmetric] n1 if_True if_False com not_True_eq_False
      using t by (auto split: prod.split)
  qed
  consider "ty = rl_type l" | "ty \<noteq> rl_type l" "a = s + n" | "ty \<noteq> rl_type l" "a \<noteq> s + n" "ty = F_WRLCK"
    | "ty \<noteq> rl_type l" "a \<noteq> s + n" "ty \<noteq> F_WRLCK" by blast
  then show ?thesis
  proof cases
    case 1
    have p: "po_list st po = pre @ i # is" using c by (simp add: ctx_def)
    show ?thesis unfolding ml mp if_P [OF 1]
    proof (rule resultI)
      show "frame po st (set_lock st i (l\<lparr>rl_start := s, rl_len := (if k \<noteq> 0 then a + k - s else k)\<rparr>))"
        using d(1,2,10) by (intro set_lock_frame) simp_all
    qed (use p d(3,4) in \<open>simp add: own_def\<close>)
  next
    case 2
    show ?thesis unfolding ml mp if_not_P [OF 2(1)] if_P [OF 2(2)] rest [OF 2(2)]
      using result_gen [OF c st1 d(8) ge, of ty n] by (auto simp: l_def split: prod.splits)
  next
    case 3
    have lt: "s < rl_start (store st i)" using w(1) .
    from ctx_gen [OF c st1 d(8) lt, of n F_WRLCK] obtain j js' st' where g:
      "gen_lock po s n F_WRLCK st (map Some js) = (True, st', map Some js')" "frame po st st'"
      "store st' = (store st)(j := new_lock po F_WRLCK s n)" "j \<notin> set (pre @ i # is)"
      "ctx st' po (pre @ [j]) (i # is) (rl_start (store st i))" by metis
    let ?l = "l\<lparr>rl_start := s + n, rl_len := (if k \<noteq> 0 then a + k - (s + n) else k)\<rparr>"
    have i: "store st' i = l" using g(3,4) by (simp add: l_def)
    have p: "po_list st' po = pre @ j # i # is" using g(5) by (simp add: ctx_def)
    have f: "frame po st (set_lock st' i ?l)"
      using frame_trans [OF g(2) set_lock_frame [OF ctxD(1,2) [OF g(5)]]] d(10) by simp
    have "own (set_lock st' i ?l) po = map (store st) pre @ new_lock po F_WRLCK s n # ?l # map (store st) is"
      using g(3,4) p d(3,4) by (auto simp: own_def)
    then show ?thesis unfolding ml mp if_not_P [OF 3(1)] if_not_P [OF 3(2)] if_P [OF 3(3)] g(1) prod.case
      using f i by (simp add: resultI)
  next
    case 4
    show ?thesis unfolding ml mp if_not_P [OF 4(1)] if_not_P [OF 4(2)] if_not_P [OF 4(3)]
      using result_gen [OF c st1 d(8) ge, of F_RDLCK "a - s"] by (auto simp: l_def split: prod.splits)
  qed
qed

lemma merge_loop_list:
  "ctx st po pre is s \<Longrightarrow> stock st js (length is + 2) \<Longrightarrow> 0 \<le> n \<Longrightarrow> ty = F_RDLCK \<or> ty = F_WRLCK \<Longrightarrow>
     reaches s n (map (store st) is) \<Longrightarrow>
     result po st (map (store st) pre @ merge_list po ty s n (map (store st) is)) (merge_loop po ty s n is st (map Some js))"
proof (induction "is" arbitrary: st pre s n js)
  case Nil
  have "\<forall>p \<in> set pre. rl_start (store st p) < s" using Nil(1) by (simp add: ctx_def)
  moreover have "stock st js (Suc 1)" using Nil(2) by (simp add: numeral_2_eq_2)
  ultimately show ?case using result_gen [OF Nil(1), of js 1 s ty n] by (auto split: prod.splits)
next
  case (Cons i "is")
  define a k where "a = rl_start (store st i)" and "k = rl_len (store st i)"
  have st: "stock st js (length is + 3)" using Cons.prems(2) by (simp add: numeral_3_eq_3)
  have re: "k = 0 \<longrightarrow> n = 0 \<or> a \<le> s + n" "reaches s n (map (store st) is)"
    using Cons.prems(5) by (auto simp: reaches_Cons a_def k_def)
  have k0: "0 \<le> k" using ctxD(6) [OF Cons.prems(1)] by (simp add: lock_ok_def k_def)
  have IH: "result po st1 (map (store st1) pre1 @ merge_list po ty s1 n1 (map (store st) is)) (merge_loop po ty s1 n1 is st1 (map Some js1))"
    if "ctx st1 po pre1 is s1" "stock st1 js1 (length is + 2)" "map (store st1) is = map (store st) is" "0 \<le> n1"
      "n = 0 \<and> n1 = 0 \<or> n \<noteq> 0 \<and> s1 + n1 = s + n \<and> n1 \<noteq> 0" for st1 pre1 js1 s1 n1
  proof -
    have "reaches s1 n1 (map (store st) is)" using that(5) re(2) by (auto simp: reaches_def)
    then show ?thesis using Cons.IH [OF that(1,2,4) Cons.prems(4)] that(3) by simp
  qed
  have n0: "n = 0 \<and> n = 0 \<or> n \<noteq> 0 \<and> s + n = s + n \<and> n \<noteq> 0" by simp
  note ak = a_def [symmetric] k_def [symmetric]
  consider (wrapped) "a \<le> s" "k = 0 \<or> n \<noteq> 0 \<and> s + n \<le> a + k"
    | (wraps) "\<not> (a \<le> s \<and> (k = 0 \<or> n \<noteq> 0 \<and> s + n \<le> a + k))" "s \<le> a" "n = 0 \<or> k \<noteq> 0 \<and> a + k \<le> s + n"
    | (within) "a < s" "s \<le> a + k" "n = 0 \<or> s + n > a + k"
    | (below) "s < a" "n \<noteq> 0" "0 \<le> n" "a \<le> s + n" "k = 0 \<or> s + n < a + k"
    | (apart) "s < a" "n \<noteq> 0" "k \<noteq> 0" "s + n < a"
    | (beyond) "a \<le> s" "k \<noteq> 0" "a + k < s"
    using re(1) k0 Cons.prems(3) by linarith
  then show ?case
  proof cases
    case wrapped
    then show ?thesis using IH n0 Cons.prems(3) by (intro merge_wrapped [OF Cons.prems(1) st Cons.prems(3,4)]) (simp_all add: ak)
  next
    case wraps
    then show ?thesis using IH by (intro merge_wraps [OF Cons.prems(1) st Cons.prems(3,4)]) (simp_all add: ak)
  next
    case within
    then show ?thesis using IH by (intro merge_within [OF Cons.prems(1) st Cons.prems(3,4)]) (simp_all add: ak)
  next
    case below
    then show ?thesis using re(2) by (intro merge_below [OF Cons.prems(1) st Cons.prems(4)]) (simp_all add: ak)
  next
    case apart
    have e: "merge_list po ty s n (map (store st) (i # is)) = new_lock po ty s n # map (store st) (i # is)"
      "merge_loop po ty s n (i # is) st (map Some js) =
        (case gen_lock po s n ty st (map Some js) of (ok, st1, o1) \<Rightarrow> Some (if ok then Success else ENOMEM, st1, o1))"
      using apart k0 Cons.prems(3) by (auto simp: Let_def ak split: prod.split)
    have "\<forall>x \<in> set (i # is). s \<le> rl_start (store st x)" using ctxD(7) [OF Cons.prems(1)] apart(1) by (auto simp: before_def ak)
    then show ?thesis unfolding e
      using result_gen [OF Cons.prems(1) _ ctxD(8) [OF Cons.prems(1)], of js "length is + 2" ty n] st
      by (auto simp: numeral_3_eq_3 split: prod.splits)
  next
    case beyond
    have e: "merge_list po ty s n (map (store st) (i # is)) = store st i # merge_list po ty s n (map (store st) is)"
      "merge_loop po ty s n (i # is) st (map Some js) = merge_loop po ty s n is st (map Some js)"
      using beyond k0 Cons.prems(3) by (auto simp: Let_def ak)
    have "ctx st po (pre @ [i]) is s"
      using beyond k0 ctxD(8) [OF Cons.prems(1)] by (intro ctx_skip [OF Cons.prems(1)]) (auto simp: ak)
    moreover have "stock st js (length is + 2)" using stock_less [OF st] by simp
    ultimately have "result po st (map (store st) (pre @ [i]) @ merge_list po ty s n (map (store st) is))
        (merge_loop po ty s n is st (map Some js))"
      using IH n0 Cons.prems(3) by blast
    then show ?thesis unfolding e by simp
  qed
qed

end
