(* ===== verification/Rlock_Tweak.thy ===== *)
theory Rlock_Tweak
  imports Rlock_Merge
begin

text \<open>
  Requests for record locks: merging keeps the list of an open file sorted, \<open>find_conflict\<close>
  finds every overlap with another open file, and a request that is granted sets exactly its bytes. A lock
  without end beyond the range is the exception.
\<close>

section \<open>The result of merging is sorted\<close>

lemma merge_list_ge:
  "0 \<le> n \<Longrightarrow> m \<le> s \<Longrightarrow> sorted_locks ls \<Longrightarrow> \<forall>y \<in> set ls. m \<le> rl_start y \<Longrightarrow> x \<in> set (merge_list po ty s n ls) \<Longrightarrow> m \<le> rl_start x"
proof (induction ls arbitrary: s n)
  case (Cons l ls)
  have lk: "0 \<le> rl_len l" "m \<le> rl_start l" "sorted_locks ls" "\<forall>y \<in> set ls. m \<le> rl_start y"
    using Cons.prems by (auto simp: lock_ok_def)
  have IH: "0 \<le> n' \<Longrightarrow> m \<le> s' \<Longrightarrow> x \<in> set (merge_list po ty s' n' ls) \<Longrightarrow> m \<le> rl_start x" for s' n'
    using Cons.IH lk(3,4) by blast
  show ?case
    using Cons.prems(1,2,5) lk IH [of n s] IH [of n "rl_start l + rl_len l"] 
      IH [of "s + n - (rl_start l + rl_len l)" "rl_start l + rl_len l"] IH [of "n + (s - rl_start l)" "rl_start l"] IH [of 0 "rl_start l"]
    by (auto simp: Let_def split: if_splits)
qed auto

lemma merge_list_sorted:
  "sorted_locks ls \<Longrightarrow> 0 \<le> n \<Longrightarrow> 0 \<le> s \<Longrightarrow> ty = F_RDLCK \<or> ty = F_WRLCK \<Longrightarrow> reaches s n ls \<Longrightarrow>
     sorted_locks (merge_list po ty s n ls)"
proof (induction ls arbitrary: s n)
  case Nil
  then show ?case by (auto simp: lock_ok_def)
next
  case (Cons l ls)
  define a k where "a = rl_start l" and "k = rl_len l"
  have lk: "0 \<le> a" "0 \<le> k" "rl_type l = F_RDLCK \<or> rl_type l = F_WRLCK" using Cons.prems(1) by (auto simp: lock_ok_def k_def a_def)
  have srt: "sorted_locks ls" and bef: "\<forall>x \<in> set ls. 0 < k \<and> a + k \<le> rl_start x" using Cons.prems(1) by (auto simp: before_def a_def k_def)
  have re: "k = 0 \<longrightarrow> n = 0 \<or> a \<le> s + n" "reaches s n ls" using Cons.prems(5) by (auto simp: reaches_Cons k_def a_def)
  have IH: "0 \<le> m \<Longrightarrow> 0 \<le> r \<Longrightarrow> reaches r m ls \<Longrightarrow> sorted_locks (merge_list po ty r m ls)" for r m
    using Cons.IH [OF srt _ _ Cons.prems(4)] by blast
  have ge: "0 \<le> m \<Longrightarrow> p \<le> r \<Longrightarrow> \<forall>y \<in> set ls. p \<le> rl_start y \<Longrightarrow> x \<in> set (merge_list po ty r m ls) \<Longrightarrow> p \<le> rl_start x" for p r m x
    using merge_list_ge srt by blast
  consider (wrapped) "a \<le> s" "k = 0 \<or> n \<noteq> 0 \<and> s + n \<le> a + k"
    | (wraps) "\<not> (a \<le> s \<and> (k = 0 \<or> n \<noteq> 0 \<and> s + n \<le> a + k))" "s \<le> a" "n = 0 \<or> k \<noteq> 0 \<and> a + k \<le> s + n"
    | (within) "a < s" "s \<le> a + k" "n = 0 \<or> s + n > a + k"
    | (below) "s < a" "n \<noteq> 0" "a \<le> s + n" "k = 0 \<or> s + n < a + k"
    | (apart) "s < a" "n \<noteq> 0" "k \<noteq> 0" "s + n < a"
    | (beyond) "a \<le> s" "k \<noteq> 0" "a + k < s"
    using re(1) lk(2) Cons.prems(2) by linarith
  then show ?case
  proof cases
    case wrapped
    have t: "\<not> (ty = rl_type l \<or> ty = F_RDLCK) \<Longrightarrow> ty = F_WRLCK" using Cons.prems(4) by auto
    define hs where "hs = (if a < s then [new_lock po F_RDLCK a (s - a)] else [])"
    have hs: "sorted_locks hs" "\<And>h r. h \<in> set hs \<Longrightarrow> s \<le> r \<Longrightarrow> before h r"
      using lk(1) by (auto simp: hs_def lock_ok_def before_def split: if_splits)
    have e: "merge_list po ty s n (l # ls) =
       (if ty = rl_type l \<or> ty = F_RDLCK then l # ls else hs @
          (if k = 0 \<and> n \<noteq> 0 \<or> s + n < a + k
           then l\<lparr>rl_start := s, rl_len := n, rl_type := F_WRLCK\<rparr> #
             new_lock po F_RDLCK (s + n) (if k \<noteq> 0 then a + k - (s + n) else 0) # ls
           else merge_list po ty s n ls))"
      using wrapped by (simp add: Let_def a_def [symmetric] k_def [symmetric] hs_def)
    have ls: "\<forall>x \<in> set ls. s \<le> rl_start x \<and> s + n \<le> rl_start x" using bef wrapped Cons.prems(2) by fastforce
    have r: "sorted_locks (hs @ merge_list po ty s n ls)"
      using IH [OF Cons.prems(2,3) re(2)] ge [OF Cons.prems(2) order_refl] ls hs unfolding sorted_locks_append by blast
    show ?thesis
    proof (cases "ty = rl_type l \<or> ty = F_RDLCK")
      case False
      show ?thesis
      proof (cases "k = 0 \<and> n \<noteq> 0 \<or> s + n < a + k")
        case True
        then have n: "0 < n" using wrapped Cons.prems(2) by auto
        show ?thesis unfolding e if_not_P [OF False] if_P [OF True]
          using n True hs srt bef ls Cons.prems(2,3) by (auto simp: sorted_locks_append lock_ok_def before_def)
      qed (use e False r in auto)
    qed (use e Cons.prems(1) in auto)
  next
    case wraps
    define hs where "hs = (if s < a then [new_lock po F_RDLCK s (a - s)] else [])"
    have hs: "sorted_locks hs" "\<And>h r. h \<in> set hs \<Longrightarrow> a \<le> r \<Longrightarrow> before h r"
      using Cons.prems(3) by (auto simp: hs_def lock_ok_def before_def split: if_splits)
    define n' where "n' = (if n \<noteq> 0 then s + n - (a + k) else n)"
    have e: "merge_list po ty s n (l # ls) =
       (if ty = rl_type l \<or> ty = F_WRLCK then merge_list po ty s n ls
        else hs @ l # (if k \<noteq> 0 \<and> (n = 0 \<or> a + k < s + n) then merge_list po ty (a + k) n' ls else ls))"
      using wraps by (auto simp: Let_def a_def [symmetric] k_def [symmetric] hs_def n'_def)
    show ?thesis
    proof (cases "ty = rl_type l \<or> ty = F_WRLCK")
      case True
      show ?thesis unfolding e if_P [OF True] using IH [OF Cons.prems(2,3) re(2)] .
    next
      case False
      have l: "sorted_locks (hs @ l # xs)" if "sorted_locks xs" "\<forall>x \<in> set xs. 0 < k \<and> a + k \<le> rl_start x" for xs
        using that hs Cons.prems(1) lk(2) unfolding sorted_locks_append
        by (fastforce simp: before_def a_def [symmetric] k_def [symmetric])
      show ?thesis
      proof (cases "k \<noteq> 0 \<and> (n = 0 \<or> a + k < s + n)")
        case True
        then have n': "0 \<le> n'" "reaches (a + k) n' ls" "0 < k"
          using reaches_shift [OF _ re(2), of "a + k"] reaches_end [of "a + k" ls] lk(2) by (auto simp: n'_def)
        have "sorted_locks (merge_list po ty (a + k) n' ls)" using IH [OF n'(1) _ n'(2)] lk by simp
        moreover have "\<forall>x \<in> set (merge_list po ty (a + k) n' ls). 0 < k \<and> a + k \<le> rl_start x"
          using ge [OF n'(1) order_refl] bef n'(3) by blast
        ultimately show ?thesis unfolding e if_not_P [OF False] if_P [OF True] by (rule l)
      next
        case m: False
        show ?thesis unfolding e if_not_P [OF False] if_not_P [OF m] using srt bef by (rule l)
      qed
    qed
  next
    case within
    have k: "0 < k" using within by linarith
    define n1 n2 where "n1 = (if n \<noteq> 0 then n + (s - a) else n)" and "n2 = (if n \<noteq> 0 then s + n - (a + k) else n)"
    have e: "merge_list po ty s n (l # ls) =
      (if ty = rl_type l then merge_list po ty a n1 ls
       else if s = a + k then l # merge_list po ty s n ls
       else if ty = F_WRLCK then l\<lparr>rl_len := s - a\<rparr> # merge_list po ty s n ls
       else l # merge_list po ty (a + k) n2 ls)"
      using within k by (auto simp: Let_def a_def [symmetric] k_def [symmetric] n1_def n2_def)
    have n12: "0 \<le> n1" "0 \<le> n2" "reaches a n1 ls" "reaches (a + k) n2 ls"
      using within Cons.prems(2) reaches_shift [OF _ re(2), of a] reaches_shift [OF _ re(2), of "a + k"] reaches_end
      by (auto simp: n1_def n2_def algebra_simps)
    have s1: "sorted_locks (merge_list po ty a n1 ls)" "sorted_locks (merge_list po ty s n ls)"
      "sorted_locks (merge_list po ty (a + k) n2 ls)"
      using IH [OF n12(1) lk(1) n12(3)] IH [OF Cons.prems(2,3) re(2)] IH [OF n12(2) _ n12(4)] lk by simp_all
    have "\<forall>y \<in> set ls. s \<le> rl_start y" using bef within(2) by fastforce
    then have g: "\<forall>x \<in> set (merge_list po ty s n ls). s \<le> rl_start x" "\<forall>x \<in> set (merge_list po ty (a + k) n2 ls). a + k \<le> rl_start x"
      using ge [OF Cons.prems(2) order_refl] ge [OF n12(2) order_refl] bef by blast+
    have lo: "lock_ok l" using Cons.prems(1) by simp
    show ?thesis unfolding e
      using s1 g k lo within(1) by (auto simp: lock_ok_def before_def a_def [symmetric] k_def [symmetric])
  next
    case below
    have e: "merge_list po ty s n (l # ls) =
      (if ty = rl_type l then l\<lparr>rl_start := s, rl_len := (if k \<noteq> 0 then a + k - s else k)\<rparr> # ls
       else if a = s + n then new_lock po ty s n # l # ls
       else if ty = F_WRLCK
       then new_lock po F_WRLCK s n # l\<lparr>rl_start := s + n, rl_len := (if k \<noteq> 0 then a + k - (s + n) else k)\<rparr> # ls
       else new_lock po F_RDLCK s (a - s) # l # ls)"
      using below by (auto simp: Let_def a_def [symmetric] k_def [symmetric])
    have lo: "lock_ok l" using Cons.prems(1) by simp
    have n: "0 < n" using below Cons.prems(2) by simp
    have ls: "\<forall>x \<in> set ls. s \<le> rl_start x \<and> s + n \<le> rl_start x \<and> a \<le> rl_start x \<and> a + k \<le> rl_start x \<and> 0 < k"
      using bef below n lk(2) by fastforce
    show ?thesis unfolding e
      using ls n lo srt lk below Cons.prems(3,4) by (auto simp: lock_ok_def before_def a_def [symmetric] k_def [symmetric])
  next
    case apart
    have "merge_list po ty s n (l # ls) = new_lock po ty s n # l # ls"
      using apart lk(2) Cons.prems(2) by (auto simp: a_def k_def Let_def)
    then show ?thesis using apart lk Cons.prems by (auto simp: lock_ok_def before_def a_def k_def)
  next
    case beyond
    have "merge_list po ty s n (l # ls) = l # merge_list po ty s n ls"
      using beyond lk(2) Cons.prems(2) by (auto simp: a_def k_def Let_def)
    then show ?thesis using beyond lk Cons.prems(1) IH [OF Cons.prems(2,3) re(2)] ge [OF Cons.prems(2), of "a + k" s]  bef
      by (auto simp: before_def a_def k_def)
  qed
qed

section \<open>The table of locks\<close>

definition holds :: "rlocks \<Rightarrow> nat \<Rightarrow> int \<Rightarrow> flock_type \<Rightarrow> bool" where
  "holds st po b t \<longleftrightarrow> holds_list (own st po) b t"

text \<open>Each list of an open file is sorted and disjoint, and the list of the node has the locks of all of them.\<close>

definition lock_table :: "rlocks \<Rightarrow> bool" where
  "lock_table st \<longleftrightarrow>
     distinct (node_list st) \<and>
     (\<forall>q. distinct (po_list st q) \<and> sorted_locks (own st q) \<and>
          set (po_list st q) = {i \<in> set (node_list st). rl_po (store st i) = q})"

text \<open>No byte has a write lock of one open file and a lock of another.\<close>

definition exclusive :: "rlocks \<Rightarrow> bool" where
  "exclusive st \<longleftrightarrow> (\<forall>p q b t. p \<noteq> q \<longrightarrow> holds st p b F_WRLCK \<longrightarrow> \<not> holds st q b t)"

lemma lock_table_linked: "lock_table st \<Longrightarrow> linked st po"
  by (auto simp: lock_table_def linked_def)

lemma frame_own: "lock_table st \<Longrightarrow> frame po st st' \<Longrightarrow> q \<noteq> po \<Longrightarrow> own st' q = own st q"
  by (auto simp: frame_def own_def others_def lock_table_def)

lemma frame_table:
  assumes t: "lock_table st" and f: "frame po st st'" and "sorted_locks (own st' po)"
  shows "lock_table st'"
proof -
  have l: "linked st' po" "others st' po = others st po" "\<forall>i \<in> others st po. store st' i = store st i"
    "\<forall>q. q \<noteq> po \<longrightarrow> po_list st' q = po_list st q" using f by (auto simp: frame_def)
  have o: "others st po = {i \<in> set (node_list st). rl_po (store st i) \<noteq> po}" using t by (auto simp: lock_table_def others_def)
  have n: "set (node_list st') = set (po_list st' po) \<union> others st po" "set (po_list st' po) \<inter> others st po = {}"
    using l(1,2) by (auto simp: linked_def others_def)
  have "distinct (po_list st' q) \<and> sorted_locks (own st' q) \<and> set (po_list st' q) = {i \<in> set (node_list st'). rl_po (store st' i) = q}" for q
  proof (cases "q = po")
    case True
    have "\<forall>i \<in> others st po. rl_po (store st' i) \<noteq> po" using l(3) o by auto
    then show ?thesis using l(1) assms(3) n True by (auto simp: linked_def)
  next
    case False
    have "set (po_list st' q) = {i \<in> set (node_list st). rl_po (store st i) = q}" using False l(4) t by (simp add: lock_table_def)
    also have "\<dots> = {i \<in> others st po. rl_po (store st' i) = q}" using False l(3) o by auto
    also have "\<dots> = {i \<in> set (node_list st'). rl_po (store st' i) = q}" using False l(1) unfolding n(1) by (auto simp: linked_def)
    finally show ?thesis using False frame_own [OF t f False] t l(4) by (simp add: lock_table_def)
  qed
  then show ?thesis using l(1) by (simp add: lock_table_def linked_def)
qed

section \<open>Conflicts\<close>

lemma overlap_region:
  assumes "0 \<le> n" "0 \<le> rl_len l"
  shows "overlap s n l \<longleftrightarrow> (\<exists>b. region s n b \<and> region (rl_start l) (rl_len l) b)"
proof
  assume "overlap s n l"
  then show "\<exists>b. region s n b \<and> region (rl_start l) (rl_len l) b"
    using assms by (intro exI [of _ "max s (rl_start l)"]) (auto simp: overlap_def region_def)
qed (use assms in \<open>auto simp: overlap_def region_def\<close>)

lemma sorted_locks_ok: "sorted_locks ls \<Longrightarrow> l \<in> set ls \<Longrightarrow> lock_ok l"
  by (induction ls) auto

definition conflicting :: "rlocks \<Rightarrow> nat \<Rightarrow> int \<Rightarrow> int \<Rightarrow> flock_type \<Rightarrow> bool" where
  "conflicting st po s n ty \<longleftrightarrow>
     (\<exists>q b t. q \<noteq> po \<and> region s n b \<and> holds st q b t \<and> (t = F_WRLCK \<or> ty = F_WRLCK))"

lemma conflict_loop_None:
  "conflict_loop po s n ty m is = None \<longleftrightarrow>
     (\<forall>i \<in> set is. rl_po (m i) \<noteq> po \<longrightarrow> (rl_type (m i) = F_WRLCK \<or> ty = F_WRLCK) \<longrightarrow> \<not> overlap s n (m i))"
  by (induction "is") auto

lemma find_conflict_None:
  assumes "lock_table st" "0 \<le> n"
  shows "find_conflict po s n ty st = None \<longleftrightarrow> \<not> conflicting st po s n ty"
proof -
  have ok: "0 \<le> rl_len (store st i)" if "i \<in> set (po_list st q)" for i q
    using that sorted_locks_ok [of "own st q" "store st i"] assms(1) by (simp add: lock_table_def own_def lock_ok_def)
  have mem: "i \<in> set (node_list st) \<and> rl_po (store st i) = q \<longleftrightarrow> i \<in> set (po_list st q)" for i q
    using assms(1) by (auto simp: lock_table_def)
  have "find_conflict po s n ty st = None \<longleftrightarrow> (\<forall>q. \<forall>i \<in> set (po_list st q). q \<noteq> po \<longrightarrow>
      (rl_type (store st i) = F_WRLCK \<or> ty = F_WRLCK) \<longrightarrow> \<not> overlap s n (store st i))"
    unfolding find_conflict_def conflict_loop_None by (auto simp: mem [symmetric])
  also have "\<dots> \<longleftrightarrow> (\<forall>q. \<forall>i \<in> set (po_list st q). q \<noteq> po \<longrightarrow> (rl_type (store st i) = F_WRLCK \<or> ty = F_WRLCK) \<longrightarrow>
      \<not> (\<exists>b. region s n b \<and> region (rl_start (store st i)) (rl_len (store st i)) b))"
    using overlap_region [OF assms(2) ok] by meson
  also have "\<dots> \<longleftrightarrow> \<not> conflicting st po s n ty"
    unfolding conflicting_def holds_def holds_list_def own_def by auto
  finally show ?thesis .
qed

section \<open>Setting a lock\<close>

lemma merge_in_holds:
  assumes t: "lock_table st" and "stock st js (length (po_list st po) + 2)" "0 \<le> s" "0 \<le> n"
    and ty: "ty = F_RDLCK \<or> ty = F_WRLCK" and r: "reaches s n (own st po)"
  obtains st' orc' where "merge_in po s n ty st (map Some js) = Some (Success, st', orc')"
    "lock_table st'" "\<And>b t. holds st' po b t \<longleftrightarrow> merged (holds st po) ty s n b t" "\<And>q. q \<noteq> po \<Longrightarrow> own st' q = own st q"
proof -
  have s: "sorted_locks (own st po)" using t by (simp add: lock_table_def)
  have c: "ctx st po [] (po_list st po) s" using s lock_table_linked [OF t] by (simp add: ctx_def own_def)
  obtain st' orc' where m: "merge_in po s n ty st (map Some js) = Some (Success, st', orc')"
    "own st' po = merge_list po ty s n (own st po)" "frame po st st'"
    using merge_loop_list [OF c assms(2,4) ty] r by (auto simp: result_def merge_in_def own_def)
  have "sorted_locks (own st' po)" unfolding m(2) using s assms(3-5) r by (intro merge_list_sorted)
  moreover have "holds st' po b t \<longleftrightarrow> merged (holds st po) ty s n b t" for b t
    unfolding holds_def m(2) using merge_list_holds [OF s assms(4) ty r] by (simp add: holds_def merged_def)
  ultimately show ?thesis using that [OF m(1)] frame_table [OF t m(3)] frame_own [OF t m(3)] by blast
qed

lemma merged_exclusive:
  assumes e: "exclusive st" and c: "\<not> conflicting st po s n ty"
    and m: "\<And>b t. holds st' po b t \<longleftrightarrow> merged (holds st po) ty s n b t" and o: "\<And>q. q \<noteq> po \<Longrightarrow> own st' q = own st q"
  shows "exclusive st'"
proof -
  have f: "\<forall>q b t. q \<noteq> po \<longrightarrow> region s n b \<longrightarrow> holds st q b t \<longrightarrow> t \<noteq> F_WRLCK \<and> ty \<noteq> F_WRLCK"
    using c by (auto simp: conflicting_def)
  have q: "holds st' q b t \<longleftrightarrow> holds st q b t" if "q \<noteq> po" for q b t using o that by (simp add: holds_def)
  have "\<not> holds st' r b t" if "p \<noteq> r" "holds st' p b F_WRLCK" for p r b t
  proof
    assume h: "holds st' r b t"
    consider "p = po" "r \<noteq> po" | "p \<noteq> po" "r = po" | "p \<noteq> po" "r \<noteq> po" using \<open>p \<noteq> r\<close> by blast
    then show False
    proof cases
      case 1
      then show ?thesis using that h e f q m unfolding exclusive_def merged_def by (metis (no_types, opaque_lifting) flock_type.distinct(1))
    next
      case 2
      then show ?thesis using that h e f q m unfolding exclusive_def merged_def by (metis (no_types, opaque_lifting) flock_type.distinct(1))
    next
      case 3
      then show ?thesis using that h e q unfolding exclusive_def by metis
    qed
  qed
  then show ?thesis by (simp add: exclusive_def)
qed


section \<open>Requests\<close>

lemma fshelp_rlock_tweak_request:
  assumes "lock_base lk osize cur = Some base" "0 \<le> base + l_start lk" "0 \<le> l_len lk" "loff_ok (base + l_start lk + l_len lk)"
    "cmd = F_SETLK64 \<or> cmd = F_SETLKW64" "l_type lk = F_RDLCK \<or> l_type lk = F_WRLCK \<and> writable"
  shows "fshelp_rlock_tweak po writable osize cur cmd lk 0 ws st orc = rlock_request po cmd lk (base + l_start lk) (l_len lk) ws st orc"
proof -
  have "loff_ok (base + l_start lk)" using assms(2-4) by (auto simp: loff_ok_def)
  then show ?thesis using assms by (auto simp: fshelp_rlock_tweak_def Let_def)
qed

lemma rlock_request_set:
  assumes "lock_table st" "exclusive st" "stock st js (length (po_list st po) + 2)" "0 \<le> s" "0 \<le> n"
    "l_type lk = F_RDLCK \<or> l_type lk = F_WRLCK" "reaches s n (own st po)"
  shows "if conflicting st po s n (l_type lk)
     then rlock_request po F_SETLK64 lk s n ws st (map Some js) = Some (EAGAIN, lk, st, map Some js)
     else \<exists>st' orc'. rlock_request po F_SETLK64 lk s n ws st (map Some js) = Some (Success, lk, st', orc') \<and>
       lock_table st' \<and> exclusive st' \<and> (\<forall>b t. holds st' po b t \<longleftrightarrow> merged (holds st po) (l_type lk) s n b t) \<and>
       (\<forall>q. q \<noteq> po \<longrightarrow> own st' q = own st q)"
proof (cases "conflicting st po s n (l_type lk)")
  case True
  then obtain e where "find_conflict po s n (l_type lk) st = Some e" using find_conflict_None [OF assms(1,5)] by blast
  then show ?thesis using True by (simp add: rlock_request.simps Let_def)
next
  case False
  then have f: "find_conflict po s n (l_type lk) st = None" using find_conflict_None [OF assms(1,5)] by blast
  obtain st' orc' where m: "merge_in po s n (l_type lk) st (map Some js) = Some (Success, st', orc')" "lock_table st'"
    "\<And>b t. holds st' po b t \<longleftrightarrow> merged (holds st po) (l_type lk) s n b t" "\<And>q. q \<noteq> po \<Longrightarrow> own st' q = own st q"
    using merge_in_holds [OF assms(1,3-7)] by blast
  have "rlock_request po F_SETLK64 lk s n ws st (map Some js) = Some (Success, lk, st', orc')"
    using f m(1) by (simp add: rlock_request.simps Let_def)
  then show ?thesis using False m(2-4) merged_exclusive [OF assms(2) False m(3,4)] by auto
qed

text \<open>A small table for the examples.\<close>

definition ex_lock :: "nat \<Rightarrow> int \<Rightarrow> int \<Rightarrow> rlock" where
  "ex_lock po s n = \<lparr>rl_start = s, rl_len = n, rl_type = F_WRLCK, rl_waiting = False, rl_po = po\<rparr>"

definition ex_flock :: "flock_type \<Rightarrow> flock64" where
  "ex_flock ty = \<lparr>l_type = ty, l_whence = SEEK_SET, l_start = 0, l_len = 10, l_pid = 0\<rparr>"

text \<open>Open file 0 has one write lock from \<open>a\<close>, open file 1 the bytes from 50 to 59.\<close>

definition ex_rlocks :: "int \<Rightarrow> int \<Rightarrow> rlocks" where
  "ex_rlocks a n =
     \<lparr>store = (\<lambda>_. ex_lock 0 a n)(1 := ex_lock 1 50 10), po_list = (\<lambda>_. [])(0 := [0], 1 := [1]),
      node_list = (if a < 50 then [0, 1] else [1, 0]), woken = []\<rparr>"

lemma ex_rlocks_simps [simp]:
  "store (ex_rlocks a n) = (\<lambda>_. ex_lock 0 a n)(1 := ex_lock 1 50 10)"
  "po_list (ex_rlocks a n) = (\<lambda>_. [])(0 := [0], 1 := [1])"
  "set (node_list (ex_rlocks a n)) = {0, 1}" "distinct (node_list (ex_rlocks a n))"
  by (auto simp: ex_rlocks_def)

lemma ex_table: "0 \<le> a \<Longrightarrow> 0 \<le> n \<Longrightarrow> lock_table (ex_rlocks a n)"
  by (auto simp: lock_table_def own_def ex_lock_def lock_ok_def)

lemma ex_holds:
  "holds (ex_rlocks a n) q b t \<longleftrightarrow> t = F_WRLCK \<and> (q = 0 \<and> region a n b \<or> q = 1 \<and> region 50 10 b)"
  by (auto simp: holds_def own_def ex_lock_def)

section \<open>Properties\<close>

text \<open>
  C9. Setting a record lock. When the byte range requested by \<open>F_SETLK\<close> conflicts with a lock of another
  open file the request fails with EAGAIN and changes nothing. Otherwise, when memory suffices and no lock without end of
  the open file starts beyond the range, it succeeds: the bytes of the range then have the requested type, except that a read
  request leaves write locks in place, all other bytes and the locks of all other open files are unchanged,
  the lists stay sorted, disjoint and consistent with each other, and no byte with a write lock
  is locked by two open files.
\<close>

theorem fshelp_rlock_tweak_set:
  assumes "lock_table st" "exclusive st" "stock st js (length (po_list st po) + 2)"
    and "lock_base lk osize cur = Some base" "0 \<le> base + l_start lk" "0 \<le> l_len lk" "loff_ok (base + l_start lk + l_len lk)"
    and "l_type lk = F_RDLCK \<or> l_type lk = F_WRLCK \<and> writable"
    and "reaches (base + l_start lk) (l_len lk) (own st po)"
  shows "if conflicting st po (base + l_start lk) (l_len lk) (l_type lk)
     then fshelp_rlock_tweak po writable osize cur F_SETLK64 lk 0 ws st (map Some js) = Some (EAGAIN, lk, st, map Some js)
     else \<exists>st' orc'. fshelp_rlock_tweak po writable osize cur F_SETLK64 lk 0 ws st (map Some js) = Some (Success, lk, st', orc') \<and>
       lock_table st' \<and> exclusive st' \<and>
       (\<forall>b t. holds st' po b t \<longleftrightarrow> merged (holds st po) (l_type lk) (base + l_start lk) (l_len lk) b t) \<and>
       (\<forall>q. q \<noteq> po \<longrightarrow> own st' q = own st q)"
proof -
  have "l_type lk = F_RDLCK \<or> l_type lk = F_WRLCK" using assms(8) by blast
  then show ?thesis
    unfolding fshelp_rlock_tweak_request [OF assms(4-7) disjI1 [OF refl] assms(8)]
    by (rule rlock_request_set [OF assms(1-3,5,6) _ assms(9)])
qed

theorem fshelp_rlock_tweak_set_witness:
  "\<exists>st' orc'. fshelp_rlock_tweak 0 True 0 0 F_SETLK64 (ex_flock F_WRLCK) 0 [] (ex_rlocks 5 15) (map Some [2, 3, 4]) =
      Some (Success, ex_flock F_WRLCK, st', orc') \<and> lock_table st' \<and> exclusive st' \<and>
      (\<forall>b t. holds st' 0 b t \<longleftrightarrow> merged (holds (ex_rlocks 5 15) 0) F_WRLCK 0 10 b t) \<and>
      own st' 1 = [ex_lock 1 50 10]"
proof -
  have c: "\<not> conflicting (ex_rlocks 5 15) 0 0 10 F_WRLCK" by (auto simp: conflicting_def ex_holds region_def)
  have e: "exclusive (ex_rlocks 5 15)" by (auto simp: exclusive_def ex_holds region_def)
  have s: "stock (ex_rlocks 5 15) [2, 3, 4] (Suc (Suc (Suc 0)))" by (simp add: stock_def)
  have r: "reaches 0 10 (own (ex_rlocks 5 15) 0)" by (simp add: reaches_def own_def ex_lock_def)
  have f: "lock_base (ex_flock F_WRLCK) 0 0 = Some 0" "l_start (ex_flock F_WRLCK) = 0" "l_len (ex_flock F_WRLCK) = 10"
    "l_type (ex_flock F_WRLCK) = F_WRLCK" by (simp_all add: ex_flock_def lock_base_def)
  have o: "own (ex_rlocks 5 15) 1 = [ex_lock 1 50 10]" by (simp add: own_def)
  have t: "lock_table (ex_rlocks 5 15)" by (rule ex_table) simp_all
  have "\<exists>st' orc'. fshelp_rlock_tweak 0 True 0 0 F_SETLK64 (ex_flock F_WRLCK) 0 [] (ex_rlocks 5 15) (map Some [2, 3, 4]) =
      Some (Success, ex_flock F_WRLCK, st', orc') \<and> lock_table st' \<and> exclusive st' \<and>
      (\<forall>b t. holds st' 0 b t \<longleftrightarrow> merged (holds (ex_rlocks 5 15) 0) F_WRLCK 0 10 b t) \<and>
      (\<forall>q. q \<noteq> 0 \<longrightarrow> own st' q = own (ex_rlocks 5 15) q)"
    using fshelp_rlock_tweak_set [OF t e _ f(1), of "[2, 3, 4]" 0 True "[]"] s r c unfolding f add_0_left if_not_P [OF c]
    by (simp add: loff_ok_def)
  then show ?thesis using o by (metis zero_neq_one)
qed

text \<open>
  C10. A lock without end breaks exclusion. When an open file has a write lock from some byte
  to the end of the file and sets a write lock on a range entirely in front of it, \<open>merge_in\<close>
  extends the old lock down to the start of the new one: the file is then locked from there on,
  also where another open file has a lock in between, which is not looked for.
\<close>

theorem fshelp_rlock_tweak_endless_lock:
  assumes "lock_table st" "po_list st po = [i]" "rl_len (store st i) = 0" "rl_type (store st i) = F_WRLCK"
    and "0 \<le> l_start lk" "0 < l_len lk" "l_start lk + l_len lk < rl_start (store st i)" "rl_start (store st i) < 2 ^ 63"
    and "l_type lk = F_WRLCK" "l_whence lk = SEEK_SET" "\<not> conflicting st po (l_start lk) (l_len lk) F_WRLCK"
    and "q \<noteq> po" "holds st q b t" "l_start lk \<le> b"
  shows "\<exists>st'. fshelp_rlock_tweak po True osize cur F_SETLK64 lk 0 ws st orc = Some (Success, lk, st', orc) \<and>
    (\<forall>b. holds st' po b F_WRLCK \<longleftrightarrow> l_start lk \<le> b) \<and> holds st' q b t \<and> \<not> exclusive st'"
proof -
  let ?st = "set_lock st i ((store st i)\<lparr>rl_len := 0, rl_start := l_start lk\<rparr>)"
  have base: "lock_base lk osize cur = Some 0" using assms(10) by (simp add: lock_base_def)
  have "find_conflict po (l_start lk) (l_len lk) F_WRLCK st = None"
    using find_conflict_None [OF assms(1)] assms(6,11) by simp
  moreover have "merge_in po (l_start lk) (l_len lk) F_WRLCK st orc = Some (Success, ?st, orc)"
    using assms(2-7) by (simp add: merge_in_def Let_def)
  ultimately have r: "rlock_request po F_SETLK64 lk (l_start lk) (l_len lk) ws st orc = Some (Success, lk, ?st, orc)"
    using assms(9) by (simp add: rlock_request.simps Let_def)
  have "fshelp_rlock_tweak po True osize cur F_SETLK64 lk 0 ws st orc = Some (Success, lk, ?st, orc)"
    using fshelp_rlock_tweak_request [OF base, where cmd = F_SETLK64 and writable = True] r assms(5-9) by (simp add: loff_ok_def)
  moreover have h: "holds ?st po b F_WRLCK \<longleftrightarrow> l_start lk \<le> b" for b
    using assms(2-4) by (simp add: holds_def own_def region_def)
  moreover have "rl_po (store st i) = po" using lock_table_linked [OF assms(1), of po] assms(2) by (simp add: linked_def)
  then have "i \<notin> set (po_list st q)" using assms(1,12) by (auto simp: lock_table_def)
  then have "own ?st q = own st q" by (simp add: own_def)
  then have "holds ?st q b t" using assms(13) by (simp add: holds_def)
  moreover have "\<not> exclusive ?st" using calculation(3) h [of b] assms(12,14) unfolding exclusive_def by metis
  ultimately show ?thesis by blast
qed

theorem fshelp_rlock_tweak_endless_lock_witness:
  "\<exists>st'. fshelp_rlock_tweak 0 True 0 0 F_SETLK64 (ex_flock F_WRLCK) 0 [] (ex_rlocks 100 0) [] = Some (Success, ex_flock F_WRLCK, st', []) \<and>
    (\<forall>b. holds st' 0 b F_WRLCK \<longleftrightarrow> 0 \<le> b) \<and> holds st' 1 55 F_WRLCK \<and> \<not> exclusive st'"
proof -
  have "\<not> conflicting (ex_rlocks 100 0) 0 0 10 F_WRLCK" by (simp add: conflicting_def ex_holds region_def)
  then show ?thesis
    using fshelp_rlock_tweak_endless_lock [of "ex_rlocks 100 0" 0 0 "ex_flock F_WRLCK" 1 55 F_WRLCK 0 0 "[]" "[]"]
    by (simp add: ex_table ex_holds region_def ex_flock_def ex_lock_def)
qed

end
