(* ===== verification/Rlock_Unlock.thy ===== *)
theory Rlock_Unlock
  imports Rlock_Tweak
begin

text \<open>
  Unlocking a region: \<open>unlock_region\<close> on the list of an open file, byte by byte, and requests
  that unlock.
\<close>

section \<open>Unlocking on lists\<close>

fun unlock_list :: "nat \<Rightarrow> int \<Rightarrow> int \<Rightarrow> rlock list \<Rightarrow> rlock list" where
  "unlock_list po s n [] = []"
| "unlock_list po s n (l # ls) =
     (let a = rl_start l; k = rl_len l in
      if k \<noteq> 0 \<and> a + k \<le> s then l # unlock_list po s n ls
      else if n \<noteq> 0 \<and> s + n \<le> a then l # ls
      else if s \<le> a \<and> (n = 0 \<or> k \<noteq> 0 \<and> a + k \<le> s + n) then unlock_list po s n ls
      else if s \<le> a then
        l\<lparr>rl_start := s + n, rl_len := (if k \<noteq> 0 then a + k - (s + n) else 0), rl_waiting := False\<rparr> # ls
      else if n = 0 \<or> k \<noteq> 0 \<and> a + k \<le> s + n then l\<lparr>rl_len := s - a, rl_waiting := False\<rparr> # unlock_list po s n ls
      else l\<lparr>rl_len := s - a\<rparr> # new_lock po (rl_type l) (s + n) (if k \<noteq> 0 then a + k - (s + n) else 0) # ls)"

lemma unlock_list_ge:
  "0 \<le> n \<Longrightarrow> sorted_locks ls \<Longrightarrow> \<forall>y \<in> set ls. m \<le> rl_start y \<Longrightarrow> x \<in> set (unlock_list po s n ls) \<Longrightarrow> m \<le> rl_start x"
  by (induction ls) (auto simp: Let_def lock_ok_def split: if_splits)

lemma unlock_list_sorted:
  "sorted_locks ls \<Longrightarrow> 0 \<le> n \<Longrightarrow> 0 \<le> s \<Longrightarrow> sorted_locks (unlock_list po s n ls)"
proof (induction ls)
  case (Cons l ls)
  define a k where "a = rl_start l" and "k = rl_len l"
  have lk: "lock_ok l" "0 \<le> a" "0 \<le> k" "sorted_locks ls" and bef: "\<forall>x \<in> set ls. 0 < k \<and> a + k \<le> rl_start x"
    using Cons.prems(1) by (auto simp: lock_ok_def before_def a_def k_def)
  have IH: "sorted_locks (unlock_list po s n ls)" using Cons by auto
  have ge: "x \<in> set (unlock_list po s n ls) \<Longrightarrow> 0 < k \<and> a + k \<le> rl_start x" for x
    using unlock_list_ge [OF Cons.prems(2) lk(4), of "a + k"] bef by (cases ls) auto
  then show ?case
    using lk bef IH Cons.prems(2,3)
    by (force simp: Let_def a_def [symmetric] k_def [symmetric] lock_ok_def before_def split: if_splits)
qed simp

lemma unlock_list_holds:
  "sorted_locks ls \<Longrightarrow> 0 \<le> n \<Longrightarrow> holds_list (unlock_list po s n ls) b t \<longleftrightarrow> \<not> region s n b \<and> holds_list ls b t"
proof (induction ls)
  case (Cons l ls)
  define a k where "a = rl_start l" and "k = rl_len l"
  have lk: "0 \<le> k" using Cons.prems(1) by (auto simp: lock_ok_def k_def)
  have IH: "holds_list (unlock_list po s n ls) b t \<longleftrightarrow> \<not> region s n b \<and> holds_list ls b t" using Cons by auto
  have lo: "holds_list ls b t \<Longrightarrow> 0 < k \<and> a + k \<le> b"
    using holds_after_lock [of ls l] Cons.prems(1) by (auto simp: k_def a_def)
  show ?case
    using lk lo IH Cons.prems(2) by (auto simp: Let_def a_def [symmetric] k_def [symmetric] region_def)
qed simp

section \<open>The loop\<close>

lemma unlock_loop_done:
  assumes "n \<noteq> 0" "\<forall>x \<in> set is. s + n \<le> rl_start (store st x) \<and> lock_ok (store st x)" "0 \<le> n"
  shows "unlock_loop po s n is st orc = Some (Success, st, orc)"
proof (cases "is")
  case (Cons x xs)
  then have "s + n \<le> rl_start (store st x)" "0 \<le> rl_len (store st x)" using assms(2) by (auto simp: lock_ok_def)
  then show ?thesis using assms(1,3) by (simp add: Cons Let_def)
qed simp

text \<open>Changing a lock and waking those who wait for it is a change of the store.\<close>

lemma move_lock_set:
  assumes "rl_start l' = a" "rl_len l' = k" "l' = (store st i)\<lparr>rl_start := a, rl_len := k, rl_waiting := False\<rparr>"
  obtains w where "move_lock i a k st = (set_lock st i l')\<lparr>woken := w\<rparr>"
  using assms by (auto simp: move_lock_def Let_def)

lemma woken_simps [simp]:
  "frame po st (st'\<lparr>woken := w\<rparr>) \<longleftrightarrow> frame po st st'" "ctx (st'\<lparr>woken := w\<rparr>) po pre is s \<longleftrightarrow> ctx st' po pre is s"
  "stock (st'\<lparr>woken := w\<rparr>) js m \<longleftrightarrow> stock st' js m" "own (st'\<lparr>woken := w\<rparr>) po = own st' po"
  by (simp_all add: frame_def linked_def others_def ctx_def stock_def own_def)

lemma unlock_loop_list:
  "ctx st po pre is s \<Longrightarrow> stock st js 1 \<Longrightarrow> 0 \<le> n \<Longrightarrow>
     result po st (map (store st) pre @ unlock_list po s n (map (store st) is)) (unlock_loop po s n is st (map Some js))"
proof (induction "is" arbitrary: st pre)
  case Nil
  then show ?case using own_ctx [OF Nil(1)] by (simp add: resultI frame_refl ctx_def)
next
  case (Cons i "is")
  define l a k where "l = store st i" and "a = rl_start l" and "k = rl_len l"
  note c = Cons.prems(1)
  note d = ctxD [OF c, folded l_def]
  have k0: "0 \<le> k" using d(6) by (simp add: lock_ok_def k_def)
  have bef: "\<forall>x \<in> set is. 0 < k \<and> a + k \<le> rl_start (store st x)" using d(7) by (simp add: before_def a_def k_def)
  have pl: "po_list st po = pre @ i # is" using c by (simp add: ctx_def)
  have sl: "sorted_locks (map (store st) is)" using c by (simp add: ctx_def)
  let ?k = "if k \<noteq> 0 then a + k - (s + n) else 0"
  consider (skip) "k \<noteq> 0" "a + k \<le> s" | (stop) "k = 0 \<or> s < a + k" "n \<noteq> 0" "s + n \<le> a"
    | (wraps) "k = 0 \<or> s < a + k" "n = 0 \<or> a < s + n" "s \<le> a" "n = 0 \<or> k \<noteq> 0 \<and> a + k \<le> s + n"
    | (tail) "k = 0 \<or> s < a + k" "n \<noteq> 0" "a < s + n" "s \<le> a" "k = 0 \<or> s + n < a + k"
    | (head) "k = 0 \<or> s < a + k" "a < s" "n = 0 \<or> k \<noteq> 0 \<and> a + k \<le> s + n"
    | (mid) "k = 0 \<or> s < a + k" "a < s" "n \<noteq> 0" "k = 0 \<or> s + n < a + k"
    by linarith
  then show ?case
  proof cases
    case skip
    then have "rl_start (store st i) < s" using k0 by (simp add: a_def l_def)
    then have "result po st (map (store st) (pre @ [i]) @ unlock_list po s n (map (store st) is)) (unlock_loop po s n is st (map Some js))"
      using d(8) Cons.prems(2,3) by (intro Cons.IH ctx_skip [OF c]) simp_all
    then show ?thesis using skip by (simp add: Let_def l_def [symmetric] a_def [symmetric] k_def [symmetric])
  next
    case stop
    then have "unlock_loop po s n (i # is) st (map Some js) = Some (Success, st, map Some js)"
      "unlock_list po s n (map (store st) (i # is)) = map (store st) (i # is)"
      using k0 by (auto simp: Let_def l_def [symmetric] a_def [symmetric] k_def [symmetric])
    then show ?thesis using own_ctx [OF c] frame_refl [OF d(1)] by (simp add: resultI)
  next
    case wraps
    note r = ctx_rele [OF c d(8), where w = True]
    have "unlock_loop po s n (i # is) st (map Some js) = unlock_loop po s n is (rele_lock po i True st) (map Some js)"
      "unlock_list po s n (map (store st) (i # is)) = unlock_list po s n (map (store st) is)"
      using wraps by (auto simp: Let_def l_def [symmetric] a_def [symmetric] k_def [symmetric])
    moreover have "stock (rele_lock po i True st) js 1" using stock_less [OF Cons.prems(2) _ rele_lock_frame(4) [OF ctxD(1,2) [OF c]]] by simp
    ultimately show ?thesis using Cons.IH [OF r(1) _ Cons.prems(3)] r(2,3) result_frame by simp
  next
    case tail
    let ?l = "l\<lparr>rl_start := s + n, rl_len := ?k, rl_waiting := False\<rparr>"
    obtain w where w: "move_lock i (s + n) ?k st = (set_lock st i ?l)\<lparr>woken := w\<rparr>"
      using move_lock_set [of ?l "s + n" ?k st i] by (auto simp: l_def)
    define st1 where "st1 = (set_lock st i ?l)\<lparr>woken := w\<rparr>"
    have kk: "k - (s + n - a) = a + k - (s + n)" by simp
    have e: "unlock_loop po s n (i # is) st (map Some js) = unlock_loop po s n is st1 (map Some js)"
      "unlock_list po s n (map (store st) (i # is)) = ?l # map (store st) is"
      using tail w unfolding st1_def by (auto simp: kk Let_def l_def [symmetric] a_def [symmetric] k_def [symmetric])
    have "\<forall>x \<in> set is. s + n \<le> rl_start (store st1 x) \<and> lock_ok (store st1 x)"
      using bef tail(5) d(4) sorted_locks_ok [OF sl] by (fastforce simp: st1_def)
    then have "unlock_loop po s n is st1 (map Some js) = Some (Success, st1, map Some js)"
      using tail(2) Cons.prems(3) by (intro unlock_loop_done)
    moreover have "frame po st st1" using set_lock_frame [OF d(1,2), of ?l] d(10) by (simp add: st1_def)
    moreover have "own st1 po = map (store st) pre @ ?l # map (store st) is" using pl d(3,4) by (simp add: st1_def own_def)
    ultimately show ?thesis unfolding e by (simp add: resultI)
  next
    case head
    let ?l = "l\<lparr>rl_len := s - a, rl_waiting := False\<rparr>"
    have "?l = l\<lparr>rl_start := a, rl_len := s - a, rl_waiting := False\<rparr>" by (cases l) (simp add: a_def)
    then obtain w where w: "move_lock i a (s - a) st = (set_lock st i ?l)\<lparr>woken := w\<rparr>"
      using move_lock_set [of ?l a "s - a" st i] by (auto simp: l_def a_def)
    define st1 where "st1 = (set_lock st i ?l)\<lparr>woken := w\<rparr>"
    have e: "unlock_loop po s n (i # is) st (map Some js) = unlock_loop po s n is st1 (map Some js)"
      "unlock_list po s n (map (store st) (i # is)) = ?l # unlock_list po s n (map (store st) is)"
      using head w unfolding st1_def by (auto simp: Let_def l_def [symmetric] a_def [symmetric] k_def [symmetric])
    have l: "lock_ok ?l" "rl_po ?l = po" "\<forall>x \<in> set is. before ?l (rl_start (store st x))"
      "\<forall>p \<in> set pre. rl_start (store st p) < rl_start ?l"
      using d(6,9,10) head bef by (auto simp: lock_ok_def before_def a_def [symmetric] l_def [symmetric])
    note r = ctx_set [OF c l]
    have "ctx st1 po (pre @ [i]) is s"
      using ctx_skip [OF r(1)] ctxD(8) [OF r(1)] head(2) by (simp add: st1_def a_def)
    moreover have "stock st1 js 1" using r(3) Cons.prems(2) by (simp add: st1_def)
    ultimately have "result po st1 (map (store st1) (pre @ [i]) @ unlock_list po s n (map (store st1) is))
        (unlock_loop po s n is st1 (map Some js))" using Cons.prems(3) by (rule Cons.IH)
    then have "result po st1 (map (store st) pre @ ?l # unlock_list po s n (map (store st) is))
        (unlock_loop po s n is st1 (map Some js))" using d(3,4) by (simp add: st1_def)
    moreover have "frame po st st1" using r(2) by (simp add: st1_def)
    ultimately show ?thesis unfolding e using result_frame by blast
  next
    case mid
    have li: "linked st po" "po_list st po = (pre @ [i]) @ is" using c by (simp_all add: ctx_def)
    have g0: "stock st js (Suc 0)" "\<forall>p \<in> set (pre @ [i]). rl_start (store st p) < s + n" "\<forall>x \<in> set is. s + n \<le> rl_start (store st x)"
      using Cons.prems(2,3) mid bef d(8) by (fastforce simp: a_def l_def)+
    obtain j js' st' where g: "gen_lock po (s + n) ?k (rl_type l) st (map Some js) = (True, st', map Some js')" "frame po st st'"
      "store st' = (store st)(j := new_lock po (rl_type l) (s + n) ?k)" "j \<notin> set ((pre @ [i]) @ is)" "po_list st' po = (pre @ [i]) @ j # is"
      using gen_insert [OF li g0, of ?k "rl_type l"] by metis
    define st1 where "st1 = set_lock st' i (l\<lparr>rl_len := s - a\<rparr>)"
    have i: "store st' i = l" "rl_start (store st' i) = a" using g(3,4) by (auto simp: l_def a_def)
    have e: "unlock_loop po s n (i # is) st (map Some js) = Some (Success, st1, map Some js')"
      "unlock_list po s n (map (store st) (i # is)) = l\<lparr>rl_len := s - a\<rparr> # new_lock po (rl_type l) (s + n) ?k # map (store st) is"
      using mid k0 g(1) i(1) Cons.prems(3) unfolding st1_def
      by (auto simp: i(1) Let_def l_def [symmetric] a_def [symmetric] k_def [symmetric] simp del: fun_upd_apply)
    have "linked st' po" using g(2) by (simp add: frame_def)
    then have "frame po st st1"
      using frame_trans [OF g(2) set_lock_frame [of st' po i "l\<lparr>rl_len := s - a\<rparr>"]] g(5) d(10) by (simp add: st1_def)
    moreover have "own st1 po = map (store st) pre @ l\<lparr>rl_len := s - a\<rparr> # new_lock po (rl_type l) (s + n) ?k # map (store st) is"
      using g(3-5) d(3,4) by (auto simp: st1_def own_def)
    ultimately show ?thesis unfolding e by (simp add: resultI)
  qed
qed

section \<open>Requests\<close>

lemma unlock_region_holds:
  assumes t: "lock_table st" and "stock st js 1" "0 \<le> s" "0 \<le> n"
  obtains st' orc' where "unlock_region po s n st (map Some js) = Some (Success, st', orc')" "lock_table st'"
    "\<And>b t. holds st' po b t \<longleftrightarrow> \<not> region s n b \<and> holds st po b t" "\<And>q. q \<noteq> po \<Longrightarrow> own st' q = own st q"
proof -
  have s: "sorted_locks (own st po)" using t by (simp add: lock_table_def)
  have c: "ctx st po [] (po_list st po) s" using s lock_table_linked [OF t] by (simp add: ctx_def own_def)
  obtain st' orc' where m: "unlock_region po s n st (map Some js) = Some (Success, st', orc')"
    "own st' po = unlock_list po s n (own st po)" "frame po st st'"
    using unlock_loop_list [OF c assms(2,4)] by (auto simp: result_def unlock_region_def own_def)
  have "sorted_locks (own st' po)" unfolding m(2) using s assms(3,4) by (intro unlock_list_sorted)
  moreover have "holds st' po b t \<longleftrightarrow> \<not> region s n b \<and> holds st po b t" for b t
    unfolding holds_def m(2) by (rule unlock_list_holds [OF s assms(4)])
  ultimately show ?thesis using that [OF m(1)] frame_table [OF t m(3)] frame_own [OF t m(3)] by blast
qed

section \<open>Closing an open file\<close>

lemma drop_loop_lists:
  "distinct (node_list st) \<Longrightarrow> set (node_list (drop_loop is st)) = set (node_list st) - set is \<and> po_list (drop_loop is st) = po_list st \<and>
     (\<forall>i. i \<notin> set is \<longrightarrow> store (drop_loop is st) i = store st i)"
  by (induction "is" arbitrary: st) (auto simp: distinct_remove1)

lemma fshelp_rlock_drop_peropen_locks:
  assumes "lock_table st"
  shows "set (node_list (fshelp_rlock_drop_peropen po st)) = {i \<in> set (node_list st). rl_po (store st i) \<noteq> po}"
    and "q \<noteq> po \<Longrightarrow> own (fshelp_rlock_drop_peropen po st) q = own st q"
proof -
  have d: "distinct (node_list st)" and m: "\<And>q. set (po_list st q) = {i \<in> set (node_list st). rl_po (store st i) = q}"
    using assms by (auto simp: lock_table_def)
  note l = drop_loop_lists [OF d, of "po_list st po", folded fshelp_rlock_drop_peropen_def]
  show "set (node_list (fshelp_rlock_drop_peropen po st)) = {i \<in> set (node_list st). rl_po (store st i) \<noteq> po}"
    using l m by auto
  show "own (fshelp_rlock_drop_peropen po st) q = own st q" if "q \<noteq> po" using l m that by (auto simp: own_def)
qed

text \<open>
  C11. Unlocking. A request that unlocks a range always succeeds when memory for one lock is left,
  also if it was made with \<open>F_SETLKW\<close>: exactly the locks of the open file on bytes of the range
  are gone, a lock that surrounds the range is split, the other open files keep their locks, and
  the lists stay sorted and consistent and the locks exclusive.
\<close>

theorem fshelp_rlock_tweak_unlock:
  assumes "lock_table st" "exclusive st" "stock st js 1" "cmd = F_SETLK64 \<or> cmd = F_SETLKW64" "l_type lk = F_UNLCK"
    and "lock_base lk osize cur = Some base" "0 \<le> base + l_start lk" "0 \<le> l_len lk" "loff_ok (base + l_start lk + l_len lk)"
  shows "\<exists>st' orc'. fshelp_rlock_tweak po writable osize cur cmd lk 0 ws st (map Some js) = Some (Success, lk, st', orc') \<and>
       lock_table st' \<and> exclusive st' \<and>
       (\<forall>b t. holds st' po b t \<longleftrightarrow> \<not> region (base + l_start lk) (l_len lk) b \<and> holds st po b t) \<and>
       (\<forall>q. q \<noteq> po \<longrightarrow> own st' q = own st q)"
proof -
  obtain st' orc' where u: "unlock_region po (base + l_start lk) (l_len lk) st (map Some js) = Some (Success, st', orc')" "lock_table st'"
    "\<And>b t. holds st' po b t \<longleftrightarrow> \<not> region (base + l_start lk) (l_len lk) b \<and> holds st po b t" "\<And>q. q \<noteq> po \<Longrightarrow> own st' q = own st q"
    using unlock_region_holds [OF assms(1,3,7,8)] by blast
  have "loff_ok (base + l_start lk)" using assms(7-9) by (auto simp: loff_ok_def)
  then have "fshelp_rlock_tweak po writable osize cur cmd lk 0 ws st (map Some js) = Some (Success, lk, st', orc')"
    using assms(4-9) u(1) by (auto simp: fshelp_rlock_tweak_def Let_def)
  moreover have "holds st' q b t \<Longrightarrow> holds st q b t" for q b t using u(3,4) by (cases "q = po") (auto simp: holds_def)
  then have "exclusive st'" using assms(2) unfolding exclusive_def by blast
  ultimately show ?thesis using u(2-4) by blast
qed

theorem fshelp_rlock_tweak_unlock_witness:
  "\<exists>st' orc'. fshelp_rlock_tweak 0 False 0 0 F_SETLKW64 (ex_flock F_UNLCK) 0 [] (ex_rlocks 5 15) (map Some [2]) =
      Some (Success, ex_flock F_UNLCK, st', orc') \<and> lock_table st' \<and> exclusive st' \<and>
      (\<forall>b t. holds st' 0 b t \<longleftrightarrow> \<not> region 0 10 b \<and> holds (ex_rlocks 5 15) 0 b t) \<and> own st' 1 = [ex_lock 1 50 10]"
proof -
  have e: "exclusive (ex_rlocks 5 15)" by (auto simp: exclusive_def ex_holds region_def)
  have s: "stock (ex_rlocks 5 15) [2] 1" by (simp add: stock_def)
  have f: "lock_base (ex_flock F_UNLCK) 0 0 = Some 0" "l_start (ex_flock F_UNLCK) = 0" "l_len (ex_flock F_UNLCK) = 10"
    "l_type (ex_flock F_UNLCK) = F_UNLCK" by (simp_all add: ex_flock_def lock_base_def)
  have o: "own (ex_rlocks 5 15) 1 = [ex_lock 1 50 10]" by (simp add: own_def)
  have t: "lock_table (ex_rlocks 5 15)" by (rule ex_table) simp_all
  have "\<exists>st' orc'. fshelp_rlock_tweak 0 False 0 0 F_SETLKW64 (ex_flock F_UNLCK) 0 [] (ex_rlocks 5 15) (map Some [2]) =
      Some (Success, ex_flock F_UNLCK, st', orc') \<and> lock_table st' \<and> exclusive st' \<and>
      (\<forall>b t. holds st' 0 b t \<longleftrightarrow> \<not> region 0 10 b \<and> holds (ex_rlocks 5 15) 0 b t) \<and>
      (\<forall>q. q \<noteq> 0 \<longrightarrow> own st' q = own (ex_rlocks 5 15) q)"
    using fshelp_rlock_tweak_unlock [OF t e s _ f(4,1), of F_SETLKW64 0 False "[]"] unfolding f add_0_left
    by (simp add: loff_ok_def)
  then show ?thesis using o by (metis zero_neq_one)
qed

end
