(* ===== verification/Pq.thy ===== *)
theory Pq
  imports Hurd_Prelude "HOL-Library.Monad_Syntax"
begin

text \<open>
  Packets and packet queues of \<^verbatim>\<open>libpipe\<close> (\<^verbatim>\<open>pq.c\<close> and the inline functions of
  \<^verbatim>\<open>pq.h\<close>). A packet keeps the pointers of the C struct as addresses and the contents
  of its buffer as a function of the address, so that moving, growing and giving away
  the buffer are the address computations of the code. An allocation that succeeds
  yields a number: the address of a block from \<^verbatim>\<open>malloc\<close>, or the page number of a region
  from \<^verbatim>\<open>mmap\<close>. The linked list of a queue is a list, its head first; the list of free
  packets likewise. Deallocated ports and source addresses are logged. \<open>None\<close> is a
  failed assertion.
\<close>

section \<open>Data\<close>

definition vm_page_size :: nat where
  "vm_page_size = 4096"

definition trunc_page :: "nat \<Rightarrow> nat" where
  "trunc_page a = a div vm_page_size * vm_page_size"

definition round_page :: "nat \<Rightarrow> nat" where
  "round_page a = (a + vm_page_size - 1) div vm_page_size * vm_page_size"

definition PACKET_SIZE_LARGE :: nat where
  "PACKET_SIZE_LARGE = 8192"

abbreviation (input) PACKET_TYPE_ANY :: nat where "PACKET_TYPE_ANY \<equiv> 0"
abbreviation (input) PACKET_TYPE_DATA :: nat where "PACKET_TYPE_DATA \<equiv> 1"
abbreviation (input) PACKET_TYPE_CONTROL :: nat where "PACKET_TYPE_CONTROL \<equiv> 2"

record packet =
  ptype :: nat
  source :: "nat option"
  buf :: nat
  buf_len :: nat
  buf_start :: nat
  buf_end :: nat
  buf_vm_alloced :: bool
  mem :: "nat \<Rightarrow> u8"
  ports :: "mach_port list"
  num_ports :: nat
  ports_alloced :: nat

record pq =
  queue :: "packet list"
  free :: "packet list"
  dead_ports :: "mach_port list"
  dead_addrs :: "nat list"

section \<open>The buffer of a packet\<close>

definition packet_readable :: "packet \<Rightarrow> nat" where
  "packet_readable p = buf_end p - buf_start p"

definition packet_fit :: "packet \<Rightarrow> nat \<Rightarrow> bool \<times> packet" where
  "packet_fit p amount =
     (let left = buf p + buf_len p - buf_end p in
      if amount > left then
        let cur_len = buf_end p - buf_start p in
        if buf_len p - cur_len \<ge> amount \<and> cur_len < PACKET_SIZE_LARGE \<and> cur_len < buf_len p div 4 then
          (True, p\<lparr>mem := (\<lambda>a. if buf p \<le> a \<and> a < buf p + cur_len
                              then mem p (buf_start p + (a - buf p)) else mem p a),
                  buf_start := buf p, buf_end := buf p + cur_len\<rparr>)
        else (False, p)
      else (True, p))"

definition packet_new_size :: "packet \<Rightarrow> nat \<Rightarrow> nat" where
  "packet_new_size p extra =
     (let new_len = (buf_end p - buf p) + extra
      in if buf_vm_alloced p \<or> new_len \<ge> PACKET_SIZE_LARGE then round_page new_len
         else (new_len + 511) div 512 * 512)"

definition packet_extend :: "packet \<Rightarrow> nat \<Rightarrow> allocs \<Rightarrow> bool \<times> packet \<times> allocs" where
  "packet_extend p new_len orc =
     (if buf_len p = 0 then (False, p, orc)
      else if buf_vm_alloced p then
        (case alloc orc of
           (None, orc') \<Rightarrow> (False, p, orc')
         | (Some _, orc') \<Rightarrow>
             (True, p\<lparr>mem := (\<lambda>a. if buf p + buf_len p \<le> a then 0 else mem p a), buf_len := new_len\<rparr>, orc'))
      else if new_len \<ge> PACKET_SIZE_LARGE then (False, p, orc)
      else
        (case alloc orc of
           (None, orc') \<Rightarrow> (False, p, orc')
         | (Some j, orc') \<Rightarrow>
             (let new_buf = unat j in
              (True, p\<lparr>mem := (\<lambda>a. if new_buf \<le> a \<and> a < new_buf + buf_len p
                                   then mem p (buf p + (a - new_buf)) else ucast j),
                       buf_start := new_buf + (buf_start p - buf p),
                       buf_end := new_buf + (buf_end p - buf p),
                       buf := new_buf, buf_len := new_len\<rparr>, orc'))))"

definition packet_realloc :: "packet \<Rightarrow> nat \<Rightarrow> allocs \<Rightarrow> error_t \<times> packet \<times> allocs" where
  "packet_realloc p new_len orc =
     (let vm_alloc = (new_len \<ge> PACKET_SIZE_LARGE) in
      case alloc orc of
        (None, orc') \<Rightarrow> (ENOMEM, p, orc')
      | (Some j, orc') \<Rightarrow>
          (let new_buf = (if vm_alloc then unat j * vm_page_size else unat j);
               fresh = (if vm_alloc then 0 else ucast j);
               n = buf_end p - buf_start p
           in (Success,
               p\<lparr>mem := (\<lambda>a. if new_buf \<le> a \<and> a < new_buf + n
                            then mem p (buf_start p + (a - new_buf)) else fresh),
                 buf := new_buf, buf_len := new_len, buf_vm_alloced := vm_alloc,
                 buf_start := new_buf, buf_end := new_buf + n\<rparr>, orc')))"

definition packet_ensure :: "packet \<Rightarrow> nat \<Rightarrow> allocs \<Rightarrow> error_t \<times> packet \<times> allocs" where
  "packet_ensure p amount orc =
     (let (fit, p1) = packet_fit p amount in
      if fit then (Success, p1, orc)
      else
        let new_len = packet_new_size p1 amount;
            (ext, p2, o2) = packet_extend p1 new_len orc
        in if ext then (Success, p2, o2) else packet_realloc p2 new_len o2)"

definition packet_ensure_efficiently :: "packet \<Rightarrow> nat \<Rightarrow> allocs \<Rightarrow> bool \<times> packet \<times> allocs" where
  "packet_ensure_efficiently p amount orc =
     (let (fit, p1) = packet_fit p amount in
      if fit then (False, p1, orc)
      else
        let new_len = packet_new_size p1 amount;
            (ext, p2, o2) = packet_extend p1 new_len orc
        in if ext then (True, p2, o2)
           else if buf_end p2 - buf_start p2 < PACKET_SIZE_LARGE then
             let (err, p3, o3) = packet_realloc p2 new_len o2 in (err = Success, p3, o3)
           else (False, p2, o2))"

section \<open>The contents of a packet\<close>

definition packet_write :: "packet \<Rightarrow> u8 list \<Rightarrow> allocs \<Rightarrow> error_t \<times> packet \<times> allocs" where
  "packet_write p bytes orc =
     (let (err, p1, o1) = packet_ensure p (length bytes) orc in
      if err \<noteq> Success then (err, p1, o1)
      else (Success,
            p1\<lparr>mem := (\<lambda>a. if buf_end p1 \<le> a \<and> a < buf_end p1 + length bytes
                          then bytes ! (a - buf_end p1) else mem p1 a),
               buf_end := buf_end p1 + length bytes\<rparr>, o1))"

text \<open>
  \<open>packet_fetch\<close> returns the bytes that the caller finds at \<^verbatim>\<open>*data\<close>; \<open>room\<close> is the
  original \<^verbatim>\<open>*data_len\<close>. The first branch gives whole pages of the buffer away.
\<close>

definition packet_fetch_pages :: "packet \<Rightarrow> nat \<Rightarrow> u8 list \<times> packet" where
  "packet_fetch_pages p amount =
     (let start = buf_start p + amount in
      if start < buf_end p then
        let amount' = amount - (start - trunc_page start);
            start' = trunc_page start
        in (map (mem p) [buf_start p ..< buf_start p + amount'],
            p\<lparr>buf := start', buf_start := start', buf_len := buf_len p - (start' - buf p)\<rparr>)
      else
        let start' = round_page start
        in (map (mem p) [buf_start p ..< buf_start p + amount],
            p\<lparr>buf_end := start', buf := start', buf_start := start',
              buf_len := buf_len p - (start' - buf p)\<rparr>))"

definition packet_fetch_copy ::
  "packet \<Rightarrow> nat \<Rightarrow> nat \<Rightarrow> bool \<Rightarrow> allocs \<Rightarrow> (u8 list \<times> packet \<times> allocs) option" where
  "packet_fetch_copy p room amount remove orc =
     do {
       o1 \<leftarrow> (if room < amount then
                (case alloc orc of (None, o1) \<Rightarrow> None | (Some _, o1) \<Rightarrow> Some o1)
              else Some orc);
       let bytes = map (mem p) [buf_start p ..< buf_start p + amount];
       let start = buf_start p + amount;
       let p1 = (if remove \<and> start - buf p > 2 * PACKET_SIZE_LARGE then
                   let dealloc = trunc_page start - buf p
                   in p\<lparr>buf := buf p + dealloc, buf_len := buf_len p - dealloc\<rparr>
                 else p);
       let p2 = (if remove then p1\<lparr>buf_start := start\<rparr> else p1);
       Some (bytes, p2, o1)
     }"

definition packet_fetch ::
  "packet \<Rightarrow> nat \<Rightarrow> nat \<Rightarrow> bool \<Rightarrow> allocs \<Rightarrow> (u8 list \<times> packet \<times> allocs) option" where
  "packet_fetch p room amount remove orc =
     (let n = (if amount > buf_end p - buf_start p then buf_end p - buf_start p else amount) in
      if n > 0 then
        if remove \<and> buf_vm_alloced p \<and> n \<ge> vm_page_size then
          let (bytes, p') = packet_fetch_pages p n in Some (bytes, p', orc)
        else packet_fetch_copy p room n remove orc
      else Some ([], p, orc))"

definition packet_read :: "packet \<Rightarrow> nat \<Rightarrow> nat \<Rightarrow> allocs \<Rightarrow> (u8 list \<times> packet \<times> allocs) option" where
  "packet_read p room amount orc = packet_fetch p room amount True orc"

definition packet_peek :: "packet \<Rightarrow> nat \<Rightarrow> nat \<Rightarrow> allocs \<Rightarrow> (u8 list \<times> packet \<times> allocs) option" where
  "packet_peek p room amount orc = packet_fetch p room amount False orc"

definition packet_read_source :: "packet \<Rightarrow> nat option \<times> packet" where
  "packet_read_source p = (source p, p\<lparr>source := None\<rparr>)"

section \<open>The ports of a packet\<close>

definition packet_dealloc_ports :: "packet \<Rightarrow> mach_port list" where
  "packet_dealloc_ports p = filter (\<lambda>port. port \<noteq> 0) (take (num_ports p) (ports p))"

text \<open>Returns the error, the ports it deallocated and the packet.\<close>

definition packet_set_ports ::
  "packet \<Rightarrow> mach_port list \<Rightarrow> allocs \<Rightarrow> error_t \<times> mach_port list \<times> packet \<times> allocs" where
  "packet_set_ports p new orc =
     (let dead = (if num_ports p > 0 then packet_dealloc_ports p else []) in
      if length new > ports_alloced p then
        (case alloc orc of
           (None, o1) \<Rightarrow> (ENOMEM, dead, p, o1)
         | (Some j, o1) \<Rightarrow>
             (Success, dead, p\<lparr>ports := new, ports_alloced := length new, num_ports := length new\<rparr>, o1))
      else (Success, dead, p\<lparr>ports := new @ drop (length new) (ports p), num_ports := length new\<rparr>, orc))"

definition packet_read_ports ::
  "packet \<Rightarrow> nat \<Rightarrow> allocs \<Rightarrow> error_t \<times> mach_port list \<times> packet \<times> allocs" where
  "packet_read_ports p room orc =
     (let (ok, o1) = (if room < num_ports p then (case alloc orc of (r, o1) \<Rightarrow> (r \<noteq> None, o1)) else (True, orc))
      in if \<not> ok then (ENOMEM, [], p, o1)
         else (Success, take (num_ports p) (ports p), p\<lparr>num_ports := 0\<rparr>, o1))"

section \<open>Queues\<close>

definition pq_create :: "allocs \<Rightarrow> pq option \<times> allocs" where
  "pq_create orc =
     (case alloc orc of
        (None, o1) \<Rightarrow> (None, o1)
      | (Some _, o1) \<Rightarrow> (Some \<lparr>queue = [], free = [], dead_ports = [], dead_addrs = []\<rparr>, o1))"

fun pq_dequeue_list :: "packet list \<Rightarrow> pq \<Rightarrow> bool \<times> pq" where
  "pq_dequeue_list [] q = (False, q)"
| "pq_dequeue_list (p # ps) q =
     (True, q\<lparr>queue := ps, free := p # free q,
              dead_ports := dead_ports q @ (if num_ports p \<noteq> 0 then packet_dealloc_ports p else []),
              dead_addrs := dead_addrs q @ (case source p of None \<Rightarrow> [] | Some a \<Rightarrow> [a])\<rparr>)"

definition pq_dequeue :: "pq \<Rightarrow> bool \<times> pq" where
  "pq_dequeue q = pq_dequeue_list (queue q) q"

function pq_drain :: "pq \<Rightarrow> pq" where
  "pq_drain q = (let (more, q') = pq_dequeue q in if more then pq_drain q' else q')"
  by pat_completeness auto
termination
proof (relation "measure (\<lambda>q. length (queue q))", goal_cases)
  case (2 q r more q')
  then show ?case by (cases "queue q") (auto simp: pq_dequeue_def)
qed simp

declare pq_drain.simps [simp del]

text \<open>\<open>pq_queue\<close> returns whether there is a new packet; it is the last of the queue.\<close>

definition pq_queue :: "pq \<Rightarrow> nat \<Rightarrow> nat option \<Rightarrow> allocs \<Rightarrow> bool \<times> pq \<times> allocs" where
  "pq_queue q ty src orc =
     (let (r, fr, o1) =
        (case free q of
           p # ps \<Rightarrow> (Some p, ps, orc)
         | [] \<Rightarrow>
             (case alloc orc of
                (None, o1) \<Rightarrow> (None, [], o1)
              | (Some _, o1) \<Rightarrow>
                  (Some \<lparr>ptype = 0, source = None, buf = 0, buf_len = 0, buf_start = 0, buf_end = 0,
                         buf_vm_alloced = False, mem = (\<lambda>_. 0), ports = [], num_ports = 0,
                         ports_alloced = 0\<rparr>, [], o1)))
      in case r of
           None \<Rightarrow> (False, q, o1)
         | Some p \<Rightarrow>
             (True, q\<lparr>queue := queue q @ [p\<lparr>num_ports := 0, buf_start := buf p, buf_end := buf p,
                                             ptype := ty, source := src\<rparr>],
                      free := fr\<rparr>, o1))"

definition pq_matches :: "packet \<Rightarrow> nat \<Rightarrow> nat option \<Rightarrow> bool" where
  "pq_matches p ty src \<longleftrightarrow> (ty = PACKET_TYPE_ANY \<or> ptype p = ty) \<and> (src = None \<or> source p = src)"

definition pq_tail :: "pq \<Rightarrow> nat \<Rightarrow> nat option \<Rightarrow> allocs \<Rightarrow> bool \<times> pq \<times> allocs" where
  "pq_tail q ty src orc =
     (if queue q = [] \<or> \<not> pq_matches (last (queue q)) ty src then pq_queue q ty src orc
      else (True, q, orc))"

definition pq_head :: "pq \<Rightarrow> nat \<Rightarrow> nat option \<Rightarrow> packet option" where
  "pq_head q ty src =
     (case queue q of [] \<Rightarrow> None | p # _ \<Rightarrow> if pq_matches p ty src then Some p else None)"

definition pq_next :: "pq \<Rightarrow> nat \<Rightarrow> nat option \<Rightarrow> packet option \<times> pq" where
  "pq_next q ty src =
     (if queue q = [] then (None, q)
      else let (_, q') = pq_dequeue q in (pq_head q' ty src, q'))"

text \<open>Writing through the pointer to the last or to the first packet.\<close>

definition set_tail :: "pq \<Rightarrow> packet \<Rightarrow> pq" where
  "set_tail q p = q\<lparr>queue := butlast (queue q) @ [p]\<rparr>"

definition set_head :: "pq \<Rightarrow> packet \<Rightarrow> pq" where
  "set_head q p = q\<lparr>queue := p # tl (queue q)\<rparr>"

end
