(* ===== verification/Pipe.thy ===== *)
theory Pipe
  imports Pq
begin

text \<open>
  Pipes, \<^verbatim>\<open>libpipe/pipe.c\<close> with the inline functions of \<^verbatim>\<open>pipe.h\<close>, and the three
  classes of pipes (\<^verbatim>\<open>stream.c\<close>, \<^verbatim>\<open>seqpack.c\<close>, \<^verbatim>\<open>dgram.c\<close>). Condition variables and
  timestamps are modelled by a log of events. A call that waits for a condition is given
  the outcomes of its waits: \<open>None\<close> when the wait is interrupted, or the change that the
  other threads made to the pipe before the caller woke up; where the code releases the
  lock and takes it again, the other threads change the pipe by the argument \<open>yield\<close>. A
  result \<open>None\<close> means that the call does not return: it is still waiting when the
  outcomes are used up, an assertion failed, a null pointer was dereferenced, or it
  loops forever.
\<close>

section \<open>Data\<close>

datatype pipe_class = Stream | Seqpack | Dgram

datatype pipe_event =
    Stamp_read | Stamp_write | Wake_reads | Wake_read_selects | Wake_writes | Wake_write_selects
  | Wake_select nat

record pipe =
  pclass :: pipe_class
  readers :: nat
  writers :: nat
  broken :: bool
  pending_selects :: "nat list"
  write_limit :: nat
  write_atomic :: nat
  pqueue :: pq
  events :: "pipe_event list"

type_synonym waits = "(pipe \<Rightarrow> pipe) option list"

definition emit :: "pipe \<Rightarrow> pipe_event list \<Rightarrow> pipe" where
  "emit p es = p\<lparr>events := events p @ es\<rparr>"

definition size_sub :: "nat \<Rightarrow> nat \<Rightarrow> nat" where
  "size_sub a b = (if b \<le> a then a - b else 2 ^ 64 - (b - a))"

section \<open>The classes\<close>

definition page_aligned :: "int \<Rightarrow> bool" where
  "page_aligned n \<longleftrightarrow> n mod int vm_page_size = 0"

definition stream_write ::
  "pq \<Rightarrow> nat option \<Rightarrow> u8 list \<Rightarrow> nat \<Rightarrow> allocs \<Rightarrow> (error_t \<times> pq \<times> allocs) option" where
  "stream_write q src bytes addr orc =
     (let (ok, q1, o1) = pq_tail q PACKET_TYPE_DATA src orc in
      if \<not> ok then None
      else
        let p1 = last (queue q1);
            large = (packet_readable p1 > 0 \<and> length bytes > PACKET_SIZE_LARGE);
            (eff, p2, o2) =
              (if large \<and> page_aligned (int addr - int (buf_end p1))
               then packet_ensure_efficiently p1 (length bytes) o1 else (False, p1, o1));
            q2 = set_tail q1 p2;
            (ok3, q3, o3) = (if large \<and> \<not> eff then pq_queue q2 PACKET_TYPE_DATA src o2 else (True, q2, o2))
        in if \<not> ok3 then Some (ENOBUFS, q3, o3)
           else let (err, p4, o4) = packet_write (last (queue q3)) bytes o3
                in Some (err, set_tail q3 p4, o4))"

definition seqpack_write :: "pq \<Rightarrow> nat option \<Rightarrow> u8 list \<Rightarrow> allocs \<Rightarrow> error_t \<times> pq \<times> allocs" where
  "seqpack_write q src bytes orc =
     (let (ok, q1, o1) = pq_queue q PACKET_TYPE_DATA src orc in
      if \<not> ok then (ENOBUFS, q1, o1)
      else let (err, p, o2) = packet_write (last (queue q1)) bytes o1 in (err, set_tail q1 p, o2))"

definition dgram_write :: "pq \<Rightarrow> nat option \<Rightarrow> u8 list \<Rightarrow> allocs \<Rightarrow> error_t \<times> pq \<times> allocs" where
  "dgram_write q src bytes orc =
     (let (ok, q1, o1) = pq_queue q PACKET_TYPE_DATA src orc in
      if \<not> ok then (ENOBUFS, q1, o1)
      else let (err, p, o2) = packet_write (last (queue q1)) bytes o1 in (err, set_tail q1 p, o2))"

definition class_write ::
  "pipe_class \<Rightarrow> pq \<Rightarrow> nat option \<Rightarrow> u8 list \<Rightarrow> nat \<Rightarrow> allocs \<Rightarrow> (error_t \<times> pq \<times> allocs) option" where
  "class_write c q src bytes addr orc =
     (case c of
        Stream \<Rightarrow> stream_write q src bytes addr orc
      | Seqpack \<Rightarrow> Some (seqpack_write q src bytes orc)
      | Dgram \<Rightarrow> Some (dgram_write q src bytes orc))"

text \<open>The read functions return the data, whether to dequeue the packet, and the packet.\<close>

definition stream_read ::
  "packet \<Rightarrow> bool \<Rightarrow> nat \<Rightarrow> nat \<Rightarrow> allocs \<Rightarrow> (u8 list \<times> bool \<times> packet \<times> allocs) option" where
  "stream_read p peek room amount orc =
     (if peek then do { (bs, p', o1) \<leftarrow> packet_peek p room amount orc; Some (bs, False, p', o1) }
      else do { (bs, p', o1) \<leftarrow> packet_read p room amount orc; Some (bs, packet_readable p' = 0, p', o1) })"

definition seqpack_read ::
  "packet \<Rightarrow> bool \<Rightarrow> nat \<Rightarrow> nat \<Rightarrow> allocs \<Rightarrow> (u8 list \<times> bool \<times> packet \<times> allocs) option" where
  "seqpack_read p peek room amount orc =
     (if peek then do { (bs, p', o1) \<leftarrow> packet_peek p room amount orc; Some (bs, False, p', o1) }
      else do { (bs, p', o1) \<leftarrow> packet_read p room amount orc; Some (bs, packet_readable p' = 0, p', o1) })"

definition dgram_read ::
  "packet \<Rightarrow> bool \<Rightarrow> nat \<Rightarrow> nat \<Rightarrow> allocs \<Rightarrow> (u8 list \<times> bool \<times> packet \<times> allocs) option" where
  "dgram_read p peek room amount orc =
     (if peek then do { (bs, p', o1) \<leftarrow> packet_peek p room amount orc; Some (bs, False, p', o1) }
      else do { (bs, p', o1) \<leftarrow> packet_read p room amount orc; Some (bs, True, p', o1) })"

definition class_read ::
  "pipe_class \<Rightarrow> packet \<Rightarrow> bool \<Rightarrow> nat \<Rightarrow> nat \<Rightarrow> allocs \<Rightarrow> (u8 list \<times> bool \<times> packet \<times> allocs) option" where
  "class_read c p peek room amount orc =
     (case c of
        Stream \<Rightarrow> stream_read p peek room amount orc
      | Seqpack \<Rightarrow> seqpack_read p peek room amount orc
      | Dgram \<Rightarrow> dgram_read p peek room amount orc)"

section \<open>Creation, readers and writers\<close>

definition pipe_is_connless :: "pipe \<Rightarrow> bool" where
  "pipe_is_connless p \<longleftrightarrow> pclass p = Dgram"

text \<open>
  \<open>pipe_create\<close> does not check whether the queue could be created; the Boolean result
  tells whether the pipe has a queue or a null pointer in its place.
\<close>

definition pipe_create :: "pipe_class \<Rightarrow> allocs \<Rightarrow> error_t \<times> (pipe \<times> bool) option \<times> allocs" where
  "pipe_create c orc =
     (case alloc orc of
        (None, o1) \<Rightarrow> (ENOMEM, None, o1)
      | (Some _, o1) \<Rightarrow>
          (let (q, o2) = pq_create o1;
               new = \<lparr>pclass = c, readers = 0, writers = 0, broken = False, pending_selects = [],
                      write_limit = 16 * 1024, write_atomic = 16 * 1024,
                      pqueue = \<lparr>queue = [], free = [], dead_ports = [], dead_addrs = []\<rparr>, events = []\<rparr>
           in (Success, Some (new\<lparr>broken := \<not> pipe_is_connless new\<rparr>, q \<noteq> None), o2)))"

definition pipe_add_select_cond :: "pipe \<Rightarrow> nat \<Rightarrow> pipe" where
  "pipe_add_select_cond p c = p\<lparr>pending_selects := pending_selects p @ [c]\<rparr>"

definition pipe_remove_select_cond :: "pipe \<Rightarrow> nat \<Rightarrow> pipe" where
  "pipe_remove_select_cond p c = p\<lparr>pending_selects := remove1 c (pending_selects p)\<rparr>"

text \<open>
  The select conditions form a ring that starts at \<open>pending_selects\<close>; the loop walks it
  from the first one until it reaches the one before the first.
\<close>

function select_ring :: "nat list \<Rightarrow> nat \<Rightarrow> nat \<Rightarrow> nat \<Rightarrow> nat list" where
  "select_ring cs i lst n =
     (if n = 0 then []
      else let i' = (i + 1) mod length cs
           in cs ! i # (if i' \<noteq> lst then select_ring cs i' lst (n - 1) else []))"
  by pat_completeness auto
termination
  by (relation "measure (\<lambda>(cs, i, lst, n). n)") auto

declare select_ring.simps [simp del]

definition pipe_select_cond_broadcast :: "pipe \<Rightarrow> pipe" where
  "pipe_select_cond_broadcast p =
     (let cs = pending_selects p in
      if cs = [] then p
      else emit p (map Wake_select (select_ring cs 0 (length cs - 1) (length cs))))"

definition pipe_first_writer :: "pipe \<Rightarrow> pipe" where
  "pipe_first_writer p = (if readers p > 0 then p\<lparr>broken := False\<rparr> else p)"

definition pipe_first_reader :: "pipe \<Rightarrow> pipe" where
  "pipe_first_reader p = (if writers p > 0 then p\<lparr>broken := False\<rparr> else p)"

text \<open>The result is \<open>None\<close> when the pipe has been freed.\<close>

definition pipe_no_readers :: "pipe \<Rightarrow> pipe option" where
  "pipe_no_readers p =
     (if writers p = 0 then None
      else
        let p1 = p\<lparr>broken := True\<rparr>
        in Some (if writers p1 > 0
                 then pipe_select_cond_broadcast (emit p1 [Wake_writes, Wake_write_selects]) else p1))"

definition pipe_no_writers :: "pipe \<Rightarrow> pipe option" where
  "pipe_no_writers p =
     (if readers p = 0 then None
      else if \<not> pipe_is_connless p then
        let p1 = p\<lparr>broken := True\<rparr>
        in Some (if readers p1 > 0
                 then pipe_select_cond_broadcast (emit p1 [Wake_reads, Wake_read_selects]) else p1)
      else Some p)"

definition pipe_acquire_reader :: "pipe \<Rightarrow> pipe" where
  "pipe_acquire_reader p =
     (let p1 = p\<lparr>readers := readers p + 1\<rparr> in if readers p = 0 then pipe_first_reader p1 else p1)"

definition pipe_acquire_writer :: "pipe \<Rightarrow> pipe" where
  "pipe_acquire_writer p =
     (let p1 = p\<lparr>writers := writers p + 1\<rparr> in if writers p = 0 then pipe_first_writer p1 else p1)"

definition pipe_release_reader :: "pipe \<Rightarrow> pipe option" where
  "pipe_release_reader p =
     (let p1 = p\<lparr>readers := readers p - 1\<rparr> in if readers p1 = 0 then pipe_no_readers p1 else Some p1)"

definition pipe_release_writer :: "pipe \<Rightarrow> pipe option" where
  "pipe_release_writer p =
     (let p1 = p\<lparr>writers := writers p - 1\<rparr> in if writers p1 = 0 then pipe_no_writers p1 else Some p1)"

definition pipe_drain :: "pipe \<Rightarrow> pipe" where
  "pipe_drain p = p\<lparr>pqueue := pq_drain (pqueue p)\<rparr>"

section \<open>Waiting\<close>

fun readable_loop :: "packet list \<Rightarrow> nat \<Rightarrow> nat" where
  "readable_loop [] n = n"
| "readable_loop (k # ks) n =
     readable_loop ks (if ptype k = PACKET_TYPE_DATA then n + packet_readable k else n)"

definition pipe_readable :: "pipe \<Rightarrow> nat" where
  "pipe_readable p = readable_loop (queue (pqueue p)) 0"

definition pipe_is_readable :: "pipe \<Rightarrow> bool \<Rightarrow> bool" where
  "pipe_is_readable p data_only =
     (let ks = queue (pqueue p)
      in (if data_only then dropWhile (\<lambda>k. ptype k = PACKET_TYPE_CONTROL) ks else ks) \<noteq> [])"

fun pipe_wait_readable :: "pipe \<Rightarrow> bool \<Rightarrow> bool \<Rightarrow> waits \<Rightarrow> (error_t \<times> pipe \<times> waits) option" where
  "pipe_wait_readable p noblock data_only ws =
     (if \<not> pipe_is_readable p data_only \<and> \<not> broken p then
        if noblock then Some (EWOULDBLOCK, p, ws)
        else (case ws of
                [] \<Rightarrow> None
              | None # ws' \<Rightarrow> Some (EINTR, p, ws')
              | Some f # ws' \<Rightarrow> pipe_wait_readable (f p) noblock data_only ws')
      else Some (Success, p, ws))"

fun wait_writable_loop :: "pipe \<Rightarrow> bool \<Rightarrow> nat \<Rightarrow> waits \<Rightarrow> (error_t \<times> pipe \<times> waits) option" where
  "wait_writable_loop p noblock amount ws =
     (if pipe_readable p + amount \<ge> write_limit p then
        if noblock then Some (EWOULDBLOCK, p, ws)
        else (case ws of
                [] \<Rightarrow> None
              | None # ws' \<Rightarrow> Some (EINTR, p, ws')
              | Some f # ws' \<Rightarrow>
                  if broken (f p) then Some (EPIPE, f p, ws') else wait_writable_loop (f p) noblock amount ws')
      else Some (Success, p, ws))"

declare pipe_wait_readable.simps [simp del] wait_writable_loop.simps [simp del]

definition pipe_wait_writable_amount ::
  "pipe \<Rightarrow> bool \<Rightarrow> nat \<Rightarrow> waits \<Rightarrow> (error_t \<times> pipe \<times> waits) option" where
  "pipe_wait_writable_amount p noblock amount ws =
     (if broken p then Some (EPIPE, p, ws) else wait_writable_loop p noblock amount ws)"

definition pipe_wait_writable :: "pipe \<Rightarrow> bool \<Rightarrow> waits \<Rightarrow> (error_t \<times> pipe \<times> waits) option" where
  "pipe_wait_writable p noblock ws = pipe_wait_writable_amount p noblock 1 ws"

definition pipe_wake_writers :: "(pipe \<Rightarrow> pipe) \<Rightarrow> pipe \<Rightarrow> pipe" where
  "pipe_wake_writers yield p =
     (let p1 = yield (emit p [Wake_writes])
      in if pipe_readable p1 < write_limit p1
         then pipe_select_cond_broadcast (emit p1 [Wake_write_selects]) else p1)"

section \<open>Selecting\<close>

text \<open>A timed wait ends with an error (a timeout or an interruption) or with a wake up.\<close>

fun pipe_select_readable ::
  "pipe \<Rightarrow> bool \<Rightarrow> (error_t + (pipe \<Rightarrow> pipe)) list \<Rightarrow> (error_t \<times> pipe) option" where
  "pipe_select_readable p data_only ws =
     (if \<not> pipe_is_readable p data_only \<and> \<not> broken p then
        (case ws of
           [] \<Rightarrow> None
         | Inl err # ws' \<Rightarrow> Some (err, p)
         | Inr f # ws' \<Rightarrow> pipe_select_readable (f p) data_only ws')
      else Some (Success, p))"

fun pipe_select_writable ::
  "pipe \<Rightarrow> (error_t + (pipe \<Rightarrow> pipe)) list \<Rightarrow> (error_t \<times> pipe) option" where
  "pipe_select_writable p ws =
     (if \<not> broken p \<and> pipe_readable p \<ge> write_limit p then
        (case ws of
           [] \<Rightarrow> None
         | Inl err # ws' \<Rightarrow> Some (err, p)
         | Inr f # ws' \<Rightarrow> pipe_select_writable (f p) ws')
      else Some (Success, p))"

declare pipe_select_readable.simps [simp del] pipe_select_writable.simps [simp del]

definition rpipe_blocked :: "pipe \<Rightarrow> bool \<Rightarrow> bool" where
  "rpipe_blocked p data_only \<longleftrightarrow> \<not> (broken p \<or> pipe_is_readable p data_only)"

definition wpipe_blocked :: "pipe \<Rightarrow> nat \<Rightarrow> bool" where
  "wpipe_blocked p wlimit \<longleftrightarrow> \<not> (broken p \<or> pipe_readable p < wlimit)"

text \<open>The loop of \<open>pipe_pair_select\<close> over two different pipes, or over one (\<open>same\<close>).\<close>

fun pair_select_loop ::
  "bool \<Rightarrow> bool \<Rightarrow> nat \<Rightarrow> pipe \<Rightarrow> pipe \<Rightarrow> (error_t + (pipe \<times> pipe \<Rightarrow> pipe \<times> pipe)) list \<Rightarrow>
   (error_t \<times> pipe \<times> pipe) option" where
  "pair_select_loop same data_only wlimit rp wp ws =
     (if rpipe_blocked rp data_only \<and> wpipe_blocked wp wlimit then
        (case ws of
           [] \<Rightarrow> None
         | Inl err # ws' \<Rightarrow> Some (err, rp, wp)
         | Inr f # ws' \<Rightarrow>
             let (rp', wp') = f (rp, wp)
             in pair_select_loop same data_only wlimit rp' (if same then rp' else wp') ws')
      else Some (Success, rp, wp))"

declare pair_select_loop.simps [simp del]

text \<open>\<open>sel\<close> is the pair of the read and the write bit of the select type.\<close>

definition pipe_pair_select ::
  "bool \<Rightarrow> pipe \<Rightarrow> pipe \<Rightarrow> bool \<times> bool \<Rightarrow> bool \<Rightarrow> nat \<Rightarrow>
   (error_t + (pipe \<times> pipe \<Rightarrow> pipe \<times> pipe)) list \<Rightarrow>
   (error_t \<times> (bool \<times> bool) \<times> pipe \<times> pipe) option" where
  "pipe_pair_select same rp wp sel data_only c ws =
     do {
       (err, sel', rp', wp') \<leftarrow>
         (if sel = (True, False) then
            do { (err, rp') \<leftarrow> pipe_select_readable rp data_only
                   (map (map_sum id (\<lambda>f p. fst (f (p, wp)))) ws);
                 Some (err, sel, rp', wp) }
          else if sel = (False, True) then
            do { (err, wp') \<leftarrow> pipe_select_writable wp (map (map_sum id (\<lambda>f p. snd (f (rp, p)))) ws);
                 Some (err, sel, rp, wp') }
          else
            do {
              let rp1 = pipe_add_select_cond rp c;
              let wp1 = (if same then rp1 else pipe_add_select_cond wp c);
              (err, rp2, wp2) \<leftarrow> pair_select_loop same data_only (write_limit wp) rp1 wp1 ws;
              let rb = rpipe_blocked rp2 data_only;
              let wb = wpipe_blocked wp2 (write_limit wp);
              let sel2 = (if err = Success then (fst sel \<and> \<not> rb, snd sel \<and> \<not> wb) else sel);
              let rp3 = pipe_remove_select_cond rp2 c;
              Some (err, sel2, rp3, (if same then rp3 else pipe_remove_select_cond wp2 c))
            });
       Some (if err = ETIMEDOUT then (Success, (False, False), rp', wp') else (err, sel', rp', wp'))
     }"

section \<open>Sending\<close>

text \<open>
  The size of the next piece. With nothing to write the inner loop never ends: it waits,
  if at all, for a condition that holds already.
\<close>

definition send_piece :: "pipe \<Rightarrow> nat \<Rightarrow> nat" where
  "send_piece p todo =
     (let left = size_sub (write_limit p) (pipe_readable p)
      in if todo > left then (if pclass p = Stream then left else 0) else todo)"

function send_wait ::
  "pipe \<Rightarrow> bool \<Rightarrow> nat \<Rightarrow> waits \<Rightarrow> (error_t \<times> nat \<times> pipe \<times> waits) option" where
  "send_wait p noblock todo ws =
     (let piece = send_piece p todo in
      if piece \<noteq> 0 then Some (Success, piece, p, ws)
      else if noblock then None
      else
        (case pipe_wait_writable_amount p False (if pclass p = Stream then 1 else todo) ws of
           None \<Rightarrow> None
         | Some (err, p', ws') \<Rightarrow>
             if err \<noteq> Success then Some (err, 0, p', ws')
             else if length ws' < length ws then send_wait p' noblock todo ws'
             else None))"
  by pat_completeness auto
termination
  by (relation "measure (\<lambda>(p, noblock, todo, ws). length ws)") auto

declare send_wait.simps [simp del]

lemma send_wait_positive:
  "send_wait p noblock todo ws = Some (err, piece, p', ws') \<Longrightarrow> err = Success \<Longrightarrow> 0 < piece"
proof (induction p noblock todo ws rule: send_wait.induct)
  case (1 p noblock todo ws)
  show ?case using "1.prems" "1.IH" [OF refl] by (subst (asm) send_wait.simps) (auto simp: Let_def split: if_splits option.splits)
qed

function send_loop ::
  "(pipe \<Rightarrow> pipe) \<Rightarrow> bool \<Rightarrow> nat option \<Rightarrow> u8 list \<Rightarrow> nat \<Rightarrow> nat \<Rightarrow> pipe \<Rightarrow> waits \<Rightarrow> allocs \<Rightarrow>
   (error_t \<times> nat \<times> pipe \<times> waits \<times> allocs) option" where
  "send_loop yield noblock src bytes addr don p ws orc =
     (case send_wait p noblock (length bytes - don) ws of
        None \<Rightarrow> None
      | Some (err, piece, p1, ws1) \<Rightarrow>
          if err \<noteq> Success then Some (err, don, p1, ws1, orc)
          else
            (case class_write (pclass p1) (pqueue p1) src (take piece (drop don bytes)) (addr + don) orc of
               None \<Rightarrow> None
             | Some (err, q, o1) \<Rightarrow>
                 let p2 = p1\<lparr>pqueue := q\<rparr> in
                 if err \<noteq> Success then Some (err, don, p2, ws1, o1)
                 else
                   let don' = don + piece in
                   if don' < length bytes \<and> src \<noteq> None then None
                   else
                     let p3 = yield (emit p2 [Stamp_write, Wake_reads]);
                         p4 = (if pipe_is_readable p3 False
                               then pipe_select_cond_broadcast (emit p3 [Wake_read_selects]) else p3)
                     in if \<not> noblock \<and> don' < length bytes
                        then send_loop yield noblock src bytes addr don' p4 ws1 o1
                        else Some (Success, don', p4, ws1, o1)))"
  by pat_completeness auto
termination
  by (relation "measure (\<lambda>(yield, noblock, src, bytes, addr, don, p, ws, orc). length bytes - don)")
    (auto dest: send_wait_positive)

declare send_loop.simps [simp del]

text \<open>
  The data is the list \<open>bytes\<close> at address \<open>addr\<close>. The number in the result is the amount,
  which the code leaves unset when it returns an error.
\<close>

definition pipe_send ::
  "(pipe \<Rightarrow> pipe) \<Rightarrow> pipe \<Rightarrow> bool \<Rightarrow> nat option \<Rightarrow> u8 list \<Rightarrow> nat \<Rightarrow> u8 list \<Rightarrow> mach_port list \<Rightarrow> waits \<Rightarrow> allocs \<Rightarrow>
   (error_t \<times> nat \<times> pipe \<times> waits \<times> allocs) option" where
  "pipe_send yield p noblock src bytes addr control prts ws orc =
     (if bytes = [] \<and> control = [] \<and> prts = [] then Some (Success, 0, p, ws, orc)
      else
        do {
          (err, p1, ws1) \<leftarrow> pipe_wait_writable p noblock ws;
          if err \<noteq> Success then Some (err, 0, p1, ws1, orc)
          else
            let left = size_sub (write_limit p1) (pipe_readable p1) in
            if noblock \<and> left < length bytes \<and> (pclass p1 \<noteq> Stream \<or> length bytes \<le> write_atomic p1)
            then Some (EWOULDBLOCK, 0, p1, ws1, orc)
            else
              let bytes1 = (if noblock \<and> left < length bytes then take left bytes else bytes);
                  (err2, p2, o2) =
                    (if control \<noteq> [] \<or> prts \<noteq> [] then
                       let (ok, q, o1) = pq_queue (pqueue p1) PACKET_TYPE_CONTROL None orc in
                       if \<not> ok then (ENOBUFS, p1\<lparr>pqueue := q\<rparr>, o1)
                       else
                         let (e, k, o2) = packet_write (last (queue q)) control o1 in
                         if e \<noteq> Success then (e, p1\<lparr>pqueue := set_tail q k\<rparr>, o2)
                         else let (e, dead, k', o3) = packet_set_ports k prts o2
                              in (e, p1\<lparr>pqueue := (set_tail q k')\<lparr>dead_ports := dead_ports q @ dead\<rparr>\<rparr>, o3)
                     else (Success, p1, orc))
              in if err2 \<noteq> Success then Some (err2, 0, p2, ws1, o2)
                 else
                   do {
                     (err3, don, p3, ws3, o3) \<leftarrow> send_loop yield noblock src bytes1 addr 0 p2 ws1 o2;
                     if don \<noteq> 0 then Some (Success, don, p3, ws3, o3)
                     else Some (err3, 0, p3, ws3, o3)
                   }
        })"

section \<open>Receiving\<close>

function skip_control :: "pq \<Rightarrow> pq" where
  "skip_control q =
     (case pq_head q PACKET_TYPE_ANY None of
        None \<Rightarrow> q
      | Some k \<Rightarrow>
          if ptype k = PACKET_TYPE_CONTROL then skip_control (snd (pq_next q PACKET_TYPE_ANY None)) else q)"
  by pat_completeness auto
termination
proof (relation "measure (\<lambda>q. length (queue q))", goal_cases)
  case (2 q k)
  then show ?case by (cases "queue q") (auto simp: pq_head_def pq_next_def pq_dequeue_def)
qed simp

declare skip_control.simps [simp del]

record recv_result =
  r_source :: "nat option"
  r_data :: "u8 list"
  r_control :: "u8 list"
  r_ports :: "mach_port list"

text \<open>
  The arguments for the control data and the ports are \<open>None\<close> for null pointers, otherwise
  the room there is; the error of \<open>packet_read_ports\<close> is ignored, as in the code.
\<close>

definition recv_control ::
  "pq \<Rightarrow> nat option \<Rightarrow> nat option \<Rightarrow> allocs \<Rightarrow> (u8 list \<times> mach_port list \<times> pq \<times> allocs) option" where
  "recv_control q croom proom orc =
     do {
       let k = hd (queue q);
       (cbytes, k1, o1) \<leftarrow> (case croom of
                              None \<Rightarrow> Some ([], k, orc)
                            | Some room \<Rightarrow> packet_read k room (packet_readable k) orc);
       let (prts, k2, o2) = (case proom of
                              None \<Rightarrow> ([], k1, o1)
                            | Some room \<Rightarrow> case packet_read_ports k1 room o1 of (err, prts, k2, o2) \<Rightarrow> (prts, k2, o2));
       let (nxt, q1) = pq_next (set_head q k2) PACKET_TYPE_DATA None;
       if nxt = None then None else Some (cbytes, prts, q1, o2)
     }"

definition pipe_recv ::
  "(pipe \<Rightarrow> pipe) \<Rightarrow> pipe \<Rightarrow> bool \<Rightarrow> bool \<Rightarrow> bool \<Rightarrow> nat \<Rightarrow> nat \<Rightarrow> nat option \<Rightarrow> nat option \<Rightarrow> waits \<Rightarrow> allocs \<Rightarrow>
   (error_t \<times> recv_result \<times> pipe \<times> waits \<times> allocs) option" where
  "pipe_recv yield p noblock peek want_source room amount croom proom ws orc =
     do {
       let nothing = \<lparr>r_source = None, r_data = [], r_control = [], r_ports = []\<rparr>;
       let data_only = (croom = None \<and> proom = None);
       (err, p1, ws1) \<leftarrow> pipe_wait_readable p noblock data_only ws;
       if err \<noteq> Success then Some (err, nothing, p1, ws1, orc)
       else
         do {
           let q = pqueue p1;
           (cbytes, prts, q1, o1) \<leftarrow>
             (if data_only then Some ([], [], skip_control q, orc)
              else if queue q \<noteq> [] \<and> ptype (hd (queue q)) = PACKET_TYPE_CONTROL
              then recv_control q croom proom orc
              else Some ([], [], q, orc));
           (case queue q1 of
              [] \<Rightarrow> Some (Success, nothing\<lparr>r_control := cbytes, r_ports := prts\<rparr>, p1\<lparr>pqueue := q1\<rparr>, ws1, o1)
            | k # ks \<Rightarrow>
                do {
                  let (src, k1) = (if want_source then packet_read_source k else (None, k));
                  (bytes, dq, k2, o2) \<leftarrow> class_read (pclass p1) k1 peek room amount o1;
                  let q2 = set_head q1 k2;
                  let q3 = (if dq then snd (pq_dequeue q2) else q2);
                  let p2 = emit (p1\<lparr>pqueue := q3\<rparr>) [Stamp_read];
                  Some (Success, \<lparr>r_source = src, r_data = bytes, r_control = cbytes, r_ports = prts\<rparr>,
                        pipe_wake_writers yield p2, ws1, o2)
                })
         }
     }"

end
