(* ===== verification/Pq_Props.thy ===== *)
theory Pq_Props
  imports Pq
begin

text \<open>
  Correctness of packets and packet queues: the buffer invariant, that making room never
  loses data, that writing appends and reading removes a prefix, and that a queue is
  first in, first out.
\<close>

section \<open>The buffer invariant\<close>

definition packet_data :: "packet \<Rightarrow> u8 list" where
  "packet_data p = map (mem p) [buf_start p ..< buf_end p]"

definition packet_ok :: "packet \<Rightarrow> bool" where
  "packet_ok p \<longleftrightarrow>
     buf p \<le> buf_start p \<and> buf_start p \<le> buf_end p \<and> buf_end p \<le> buf p + buf_len p \<and>
     (\<not> buf_vm_alloced p \<longrightarrow> buf_len p < PACKET_SIZE_LARGE) \<and>
     (buf_vm_alloced p \<longrightarrow> vm_page_size dvd buf p \<and> vm_page_size dvd buf_len p)"

lemma packet_ok_bounds:
  assumes "packet_ok p"
  shows "buf p \<le> buf_start p" "buf_start p \<le> buf_end p" "buf_end p \<le> buf p + buf_len p"
  using assms by (simp_all add: packet_ok_def)

lemma length_packet_data: "length (packet_data p) = packet_readable p"
  by (simp add: packet_data_def packet_readable_def)

lemma map_interval_eq:
  "map f [a ..< a + n] = map g [b ..< b + n] \<longleftrightarrow> (\<forall>i < n. f (a + i) = g (b + i))"
  by (auto simp: list_eq_iff_nth_eq)

lemma moved_data:
  assumes "buf_end p' = buf_start p' + (buf_end p - buf_start p)" "buf_start p \<le> buf_end p"
    and "\<And>i. i < buf_end p - buf_start p \<Longrightarrow> mem p' (buf_start p' + i) = mem p (buf_start p + i)"
  shows "packet_data p' = packet_data p"
proof -
  obtain n where "buf_end p = buf_start p + n" using assms(2) le_Suc_ex by blast
  then show ?thesis using assms unfolding packet_data_def by (simp add: map_interval_eq)
qed

lemma round_page_ge: "a \<le> round_page a"
proof -
  have "a + 4095 = (a + 4095) div 4096 * 4096 + (a + 4095) mod 4096" by simp
  moreover have "(a + 4095) mod 4096 \<le> 4095" using mod_less_divisor [of 4096 "a + 4095"] by simp
  ultimately show ?thesis by (simp add: round_page_def vm_page_size_def)
qed

lemma round_page_dvd [simp]: "vm_page_size dvd round_page a"
  by (simp add: round_page_def)

lemma trunc_page_dvd [simp]: "vm_page_size dvd trunc_page a"
  by (simp add: trunc_page_def)

lemma trunc_page_le: "trunc_page a \<le> a"
  by (simp add: trunc_page_def)

lemma trunc_page_gt: "a < trunc_page a + vm_page_size"
proof -
  have "a = a div vm_page_size * vm_page_size + a mod vm_page_size" by simp
  moreover have "a mod vm_page_size < vm_page_size" by (simp add: vm_page_size_def)
  ultimately show ?thesis unfolding trunc_page_def by linarith
qed

lemma round_page_le: "vm_page_size dvd b \<Longrightarrow> a \<le> b \<Longrightarrow> round_page a \<le> b"
proof -
  assume b: "vm_page_size dvd b" "a \<le> b"
  then obtain k where k: "b = k * vm_page_size" by (metis dvdE mult.commute)
  have "(a + vm_page_size - 1) div vm_page_size \<le> (k * vm_page_size + vm_page_size - 1) div vm_page_size"
    using b k by (intro div_le_mono) simp
  also have "\<dots> = k" by (simp add: vm_page_size_def)
  finally show ?thesis unfolding round_page_def k by simp
qed

lemma round_page_large: "PACKET_SIZE_LARGE \<le> a \<Longrightarrow> PACKET_SIZE_LARGE \<le> round_page a"
  using round_page_ge [of a] by simp

lemma page_large: "vm_page_size dvd PACKET_SIZE_LARGE" "0 < vm_page_size"
  by (simp_all add: vm_page_size_def PACKET_SIZE_LARGE_def)

section \<open>Making room\<close>

lemma packet_fit_ok:
  assumes ok: "packet_ok p" and fit: "packet_fit p n = (r, p')"
  shows "packet_ok p'" "packet_data p' = packet_data p" "\<not> r \<Longrightarrow> p' = p"
    "r \<longleftrightarrow> buf_end p' + n \<le> buf p' + buf_len p'" "buf p' = buf p" "buf_len p' = buf_len p"
    "ptype p' = ptype p" "source p' = source p"
proof -
  note b = packet_ok_bounds [OF ok]
  let ?c = "buf_end p - buf_start p"
  let ?q = "p\<lparr>mem := (\<lambda>a. if buf p \<le> a \<and> a < buf p + ?c then mem p (buf_start p + (a - buf p)) else mem p a),
      buf_start := buf p, buf_end := buf p + ?c\<rparr>"
  have moved: "packet_data ?q = packet_data p" using b by (intro moved_data) auto
  have "packet_ok p' \<and> packet_data p' = packet_data p \<and> (\<not> r \<longrightarrow> p' = p) \<and>
      (r \<longleftrightarrow> buf_end p' + n \<le> buf p' + buf_len p') \<and> buf p' = buf p \<and> buf_len p' = buf_len p \<and>
      ptype p' = ptype p \<and> source p' = source p"
  proof (cases "n > buf p + buf_len p - buf_end p \<and> buf_len p - ?c \<ge> n \<and> ?c < PACKET_SIZE_LARGE \<and> ?c < buf_len p div 4")
    case True
    then have "r" "p' = ?q" using fit by (simp_all add: packet_fit_def Let_def)
    then show ?thesis using True moved b ok by (auto simp: packet_ok_def)
  next
    case False
    then have "p' = p" "r \<longleftrightarrow> \<not> n > buf p + buf_len p - buf_end p"
      using fit by (auto simp: packet_fit_def Let_def split: if_splits)
    then show ?thesis using b ok by auto
  qed
  then show "packet_ok p'" "packet_data p' = packet_data p" "\<not> r \<Longrightarrow> p' = p"
    "r \<longleftrightarrow> buf_end p' + n \<le> buf p' + buf_len p'" "buf p' = buf p" "buf_len p' = buf_len p"
    "ptype p' = ptype p" "source p' = source p" by blast+
qed

lemma packet_new_size_ok:
  assumes "packet_ok p" "buf p + buf_len p < buf_end p + n"
  shows "buf_len p < packet_new_size p n" "(buf_end p - buf p) + n \<le> packet_new_size p n"
    "buf_vm_alloced p \<or> PACKET_SIZE_LARGE \<le> packet_new_size p n \<Longrightarrow> vm_page_size dvd packet_new_size p n"
proof -
  define m where "m = (buf_end p - buf p) + n"
  have lt: "buf_len p < m" using assms packet_ok_bounds [OF assms(1)] by (simp add: m_def)
  have r512: "m \<le> (m + 511) div 512 * 512"
  proof -
    have "m + 511 = (m + 511) div 512 * 512 + (m + 511) mod 512" by simp
    moreover have "(m + 511) mod 512 \<le> 511" using mod_less_divisor [of 512 "m + 511"] by simp
    ultimately show ?thesis by linarith
  qed
  show le: "(buf_end p - buf p) + n \<le> packet_new_size p n"
    using r512 round_page_ge [of m] by (simp add: packet_new_size_def Let_def m_def)
  then show "buf_len p < packet_new_size p n" using lt by (simp add: m_def)
  assume a: "buf_vm_alloced p \<or> PACKET_SIZE_LARGE \<le> packet_new_size p n"
  show "vm_page_size dvd packet_new_size p n"
  proof (cases "buf_vm_alloced p \<or> PACKET_SIZE_LARGE \<le> m")
    case False
    then have "m < 8192" and "packet_new_size p n = (m + 511) div 512 * 512"
      by (simp_all add: packet_new_size_def Let_def m_def PACKET_SIZE_LARGE_def)
    moreover from this have "(m + 511) div 512 \<le> 16" by simp
    ultimately have "packet_new_size p n = PACKET_SIZE_LARGE"
      using a False by (simp add: PACKET_SIZE_LARGE_def)
    then show ?thesis by (simp add: page_large)
  qed (auto simp: packet_new_size_def Let_def m_def)
qed

lemma packet_extend_ok:
  assumes ok: "packet_ok p" and n: "buf_len p < n" "buf_vm_alloced p \<Longrightarrow> vm_page_size dvd n"
    and ext: "packet_extend p n orc = (r, p', orc')"
  shows "packet_ok p' \<and> packet_data p' = packet_data p \<and> (\<not> r \<longrightarrow> p' = p) \<and>
    (r \<longrightarrow> buf_len p' = n \<and> buf_end p' - buf p' = buf_end p - buf p) \<and>
    ptype p' = ptype p \<and> source p' = source p"
proof -
  note b = packet_ok_bounds [OF ok]
  show ?thesis
  proof (cases "r")
    case False
    then have "p' = p" using ext by (auto simp: packet_extend_def Let_def split: if_splits option.splits prod.splits)
    then show ?thesis using ok False by simp
  next
    case r: True
    obtain o1 j where al: "alloc orc = (Some j, o1)" and bl: "buf_len p \<noteq> 0"
      using ext r by (auto simp: packet_extend_def split: if_splits option.splits prod.splits)
    show ?thesis
    proof (cases "buf_vm_alloced p")
      case True
      then have p': "p' = p\<lparr>mem := (\<lambda>a. if buf p + buf_len p \<le> a then 0 else mem p a), buf_len := n\<rparr>"
        using ext bl al by (simp add: packet_extend_def)
      have "packet_data p' = packet_data p" using b by (intro moved_data) (auto simp: p')
      then show ?thesis using p' True r b ok n by (auto simp: packet_ok_def)
    next
      case False
      then have l: "n < PACKET_SIZE_LARGE" using ext r bl by (auto simp: packet_extend_def split: if_splits)
      have p': "p' = p\<lparr>mem := (\<lambda>a. if unat j \<le> a \<and> a < unat j + buf_len p
                           then mem p (buf p + (a - unat j)) else ucast j),
               buf_start := unat j + (buf_start p - buf p), buf_end := unat j + (buf_end p - buf p),
               buf := unat j, buf_len := n\<rparr>"
        using ext bl al False l by (simp add: packet_extend_def Let_def)
      have "packet_data p' = packet_data p" using b by (intro moved_data) (auto simp: p')
      then show ?thesis using p' False l r b ok n by (auto simp: packet_ok_def)
    qed
  qed
qed

lemma packet_realloc_ok:
  assumes ok: "packet_ok p" and n: "buf_end p - buf_start p \<le> n"
    "PACKET_SIZE_LARGE \<le> n \<Longrightarrow> vm_page_size dvd n"
    and re: "packet_realloc p n orc = (err, p', orc')"
  shows "err = ENOMEM \<and> p' = p \<or>
    err = Success \<and> packet_ok p' \<and> packet_data p' = packet_data p \<and> buf_len p' = n \<and>
      buf_end p' - buf p' = buf_end p - buf_start p \<and> buf p' \<le> buf_end p' \<and>
      ptype p' = ptype p \<and> source p' = source p"
proof -
  note b = packet_ok_bounds [OF ok]
  show ?thesis
  proof (cases "alloc orc")
    case (Pair r o1)
    show ?thesis
    proof (cases r)
      case None
      then show ?thesis using re Pair by (simp add: packet_realloc_def)
    next
      case (Some k)
      define nb where "nb = (if PACKET_SIZE_LARGE \<le> n then unat k * vm_page_size else unat k)"
      define fr :: u8 where "fr = (if PACKET_SIZE_LARGE \<le> n then 0 else ucast k)"
      have e: "err = Success" and p': "p' = p\<lparr>mem := (\<lambda>a. if nb \<le> a \<and> a < nb + (buf_end p - buf_start p)
                           then mem p (buf_start p + (a - nb)) else fr),
               buf := nb, buf_len := n, buf_vm_alloced := PACKET_SIZE_LARGE \<le> n,
               buf_start := nb, buf_end := nb + (buf_end p - buf_start p)\<rparr>"
        using re Pair Some unfolding packet_realloc_def Let_def nb_def fr_def by simp_all
      have "PACKET_SIZE_LARGE \<le> n \<Longrightarrow> vm_page_size dvd nb" by (simp add: nb_def)
      moreover have "packet_data p' = packet_data p" using b by (intro moved_data) (auto simp: p')
      ultimately show ?thesis using e p' n by (auto simp: packet_ok_def)
    qed
  qed
qed

lemma packet_ensure_ok:
  assumes ok: "packet_ok p" and en: "packet_ensure p n orc = (err, p', orc')"
  shows "err = ENOMEM \<and> p' = p \<or>
    err = Success \<and> packet_ok p' \<and> packet_data p' = packet_data p \<and> buf_end p' + n \<le> buf p' + buf_len p' \<and>
      ptype p' = ptype p \<and> source p' = source p"
proof -
  obtain r p1 where fit: "packet_fit p n = (r, p1)" by fastforce
  note f = packet_fit_ok [OF ok fit]
  show ?thesis
  proof (cases r)
    case True
    then have "err = Success" "p' = p1" using en fit by (simp_all add: packet_ensure_def)
    then show ?thesis using f(1,2,4,7,8) True by blast
  next
    case False
    have p1e: "p1 = p" by (rule f(3) [OF False])
    have "\<not> buf_end p + n \<le> buf p + buf_len p" using False f(4) unfolding p1e by blast
    then have p1: "p1 = p" "buf p + buf_len p < buf_end p + n" using p1e by linarith+
    let ?n = "packet_new_size p n"
    note ns = packet_new_size_ok [OF ok p1(2)] and b = packet_ok_bounds [OF ok]
    obtain e p2 o2 where ext: "packet_extend p ?n orc = (e, p2, o2)" by (metis prod_cases3)
    note x = packet_extend_ok [OF ok ns(1) _ ext]
    show ?thesis
    proof (cases e)
      case True
      then have "err = Success" "p' = p2" using en fit False p1 ext by (simp_all add: packet_ensure_def)
      moreover have "packet_ok p2 \<and> packet_data p2 = packet_data p \<and> buf_len p2 = ?n \<and>
          buf_end p2 - buf p2 = buf_end p - buf p \<and> ptype p2 = ptype p \<and> source p2 = source p"
        using x True ns(3) by blast
      moreover from this have "buf p2 \<le> buf_end p2" by (auto simp: packet_ok_def)
      ultimately show ?thesis using ns(2) by auto
    next
      case False
      then have p2: "p2 = p" using x ns(3) by blast
      then have re: "packet_realloc p ?n o2 = (err, p', orc')"
        using en fit \<open>\<not> r\<close> p1 ext False by (simp add: packet_ensure_def)
      have "buf_end p - buf_start p \<le> ?n" using ns(2) b by simp
      from packet_realloc_ok [OF ok this _ re] ns(2,3) b show ?thesis by auto
    qed
  qed
qed

lemma packet_write_ok:
  assumes ok: "packet_ok p" and w: "packet_write p bytes orc = (err, p', orc')"
  shows "err = ENOMEM \<and> p' = p \<or>
    err = Success \<and> packet_ok p' \<and> packet_data p' = packet_data p @ bytes \<and>
      ptype p' = ptype p \<and> source p' = source p"
proof -
  obtain e p1 o1 where en: "packet_ensure p (length bytes) orc = (e, p1, o1)" by (metis prod_cases3)
  note x = packet_ensure_ok [OF ok en]
  show ?thesis
  proof (cases "e = Success")
    case False
    then show ?thesis using x w en by (auto simp: packet_write_def)
  next
    case True
    then have p1: "packet_ok p1" "packet_data p1 = packet_data p" "buf_end p1 + length bytes \<le> buf p1 + buf_len p1"
      "ptype p1 = ptype p" "source p1 = source p"
      using x by auto
    note b = packet_ok_bounds [OF p1(1)]
    have p': "err = Success" "p' = p1\<lparr>mem := (\<lambda>a. if buf_end p1 \<le> a \<and> a < buf_end p1 + length bytes
                          then bytes ! (a - buf_end p1) else mem p1 a),
               buf_end := buf_end p1 + length bytes\<rparr>"
      using w en True by (simp_all add: packet_write_def)
    have "[buf_start p1 ..< buf_end p1 + length bytes] =
        [buf_start p1 ..< buf_end p1] @ [buf_end p1 ..< buf_end p1 + length bytes]"
      using b by (intro upt_add_eq_append)
    moreover have "map (\<lambda>a. if buf_end p1 \<le> a \<and> a < buf_end p1 + length bytes
        then bytes ! (a - buf_end p1) else mem p1 a) [buf_end p1 ..< buf_end p1 + length bytes] = bytes"
      by (rule nth_equalityI) simp_all
    ultimately have "packet_data p' = packet_data p1 @ bytes" by (simp add: packet_data_def p'(2))
    then show ?thesis using p' p1 b by (auto simp: packet_ok_def)
  qed
qed

section \<open>Reading\<close>

lemma packet_data_split:
  assumes "buf_start p + n \<le> buf_end p"
  shows "take n (packet_data p) = map (mem p) [buf_start p ..< buf_start p + n]"
    "drop n (packet_data p) = map (mem p) [buf_start p + n ..< buf_end p]"
  using assms by (simp_all add: packet_data_def take_map drop_map take_upt)

lemma fetch_pages_ok:
  assumes ok: "packet_ok p" and vm: "buf_vm_alloced p" and n: "vm_page_size \<le> n" "n \<le> packet_readable p"
    and f: "packet_fetch_pages p n = (bytes, p')"
  shows "\<exists>m. 0 < m \<and> m \<le> n \<and> bytes = take m (packet_data p) \<and> packet_data p' = drop m (packet_data p) \<and>
    packet_ok p' \<and> ptype p' = ptype p \<and> source p' = source p"
proof -
  note b = packet_ok_bounds [OF ok]
  let ?s = "buf_start p + n"
  have e: "?s \<le> buf_end p" using n(2) b by (simp add: packet_readable_def)
  have pg: "vm_page_size dvd buf p" "vm_page_size dvd buf_len p" using ok vm by (simp_all add: packet_ok_def)
  show ?thesis
  proof (cases "?s < buf_end p")
    case True
    let ?t = "trunc_page ?s"
    have t: "?t \<le> ?s" "buf_start p < ?t" using trunc_page_le trunc_page_gt [of ?s] n(1) by auto
    then have m: "n - (?s - ?t) = ?t - buf_start p" "buf_start p + (?t - buf_start p) = ?t" by auto
    have p': "bytes = map (mem p) [buf_start p ..< ?t]"
      "p' = p\<lparr>buf := ?t, buf_start := ?t, buf_len := buf_len p - (?t - buf p)\<rparr>"
      using f True t by (simp_all add: packet_fetch_pages_def Let_def)
    have "vm_page_size dvd buf_len p - (?t - buf p)"
      using pg by (intro dvd_diff_nat) (simp_all add: dvd_diff_nat)
    then have "packet_ok p'" using p'(2) ok vm True t b e by (simp add: packet_ok_def)
    then show ?thesis
      using packet_data_split [of p "?t - buf_start p"] p' t e m
      by (intro exI [of _ "?t - buf_start p"]) (auto simp: packet_data_def)
  next
    case False
    then have end_eq: "?s = buf_end p" using e by simp
    let ?t = "round_page (buf_end p)"
    have p': "bytes = packet_data p" "p' = p\<lparr>buf_end := ?t, buf := ?t, buf_start := ?t, buf_len := buf_len p - (?t - buf p)\<rparr>"
      using f end_eq by (simp_all add: packet_fetch_pages_def Let_def packet_data_def)
    have "vm_page_size dvd buf p + buf_len p" using pg by simp
    from round_page_le [OF this] b have "?t \<le> buf p + buf_len p" "buf p \<le> ?t"
      using round_page_ge [of "buf_end p"] by simp_all
    moreover have "vm_page_size dvd buf_len p - (?t - buf p)"
      using pg by (intro dvd_diff_nat) (simp_all add: dvd_diff_nat)
    ultimately have "packet_ok p'" using p'(2) ok vm by (simp add: packet_ok_def)
    moreover have "length (packet_data p) = n" using end_eq b by (simp add: packet_data_def)
    moreover have "0 < n" using n(1) page_large(2) by simp
    ultimately show ?thesis using p' by (intro exI [of _ n]) (simp add: packet_data_def)
  qed
qed

lemma fetch_copy_ok:
  assumes ok: "packet_ok p" and n: "n \<le> packet_readable p"
    and f: "packet_fetch_copy p room n remove orc = Some (bytes, p', orc')"
  shows "bytes = take n (packet_data p) \<and> packet_data p' = (if remove then drop n (packet_data p) else packet_data p) \<and>
    packet_ok p' \<and> ptype p' = ptype p \<and> source p' = source p \<and> (\<not> remove \<longrightarrow> p' = p)"
proof -
  note b = packet_ok_bounds [OF ok]
  let ?s = "buf_start p + n"
  have e: "?s \<le> buf_end p" using n b by (simp add: packet_readable_def)
  let ?p1 = "if remove \<and> ?s - buf p > 2 * PACKET_SIZE_LARGE
      then p\<lparr>buf := buf p + (trunc_page ?s - buf p), buf_len := buf_len p - (trunc_page ?s - buf p)\<rparr> else p"
  have p': "bytes = map (mem p) [buf_start p ..< ?s]" "p' = (if remove then ?p1\<lparr>buf_start := ?s\<rparr> else ?p1)"
    using f by (auto simp: packet_fetch_copy_def Let_def split: if_splits option.splits prod.splits)
  have "packet_ok p'"
  proof (cases "remove \<and> ?s - buf p > 2 * PACKET_SIZE_LARGE")
    case True
    then have vm: "buf_vm_alloced p" using ok e b by (auto simp: packet_ok_def)
    then have pg: "vm_page_size dvd buf p" "vm_page_size dvd buf_len p" using ok by (simp_all add: packet_ok_def)
    let ?t = "trunc_page ?s"
    have t: "?t \<le> ?s" "buf p \<le> ?t" "buf p + (?t - buf p) = ?t"
      using trunc_page_le [of ?s] trunc_page_gt [of ?s] True by (auto simp: PACKET_SIZE_LARGE_def vm_page_size_def)
    have "vm_page_size dvd buf_len p - (?t - buf p)"
      using pg by (intro dvd_diff_nat) (simp_all add: dvd_diff_nat)
    then show ?thesis using True p'(2) ok vm t e b by (simp add: packet_ok_def)
  next
    case False
    then show ?thesis using p'(2) ok e b by (auto simp: packet_ok_def)
  qed
  moreover have "packet_data p' = (if remove then drop n (packet_data p) else packet_data p)"
    using packet_data_split(2) [OF e] p'(2) by (auto simp: packet_data_def)
  moreover have "p' = p" if "\<not> remove" using that p'(2) by simp
  moreover have "ptype p' = ptype p" "source p' = source p" using p'(2) by (simp_all split: if_splits)
  ultimately show ?thesis using packet_data_split(1) [OF e] p'(1) by simp
qed

text \<open>
  What a fetch promises: a non-empty prefix when there is data, removed unless it only
  peeks; all that was asked for when it peeks, or when the request is below a page.
\<close>

definition fetched :: "packet \<Rightarrow> nat \<Rightarrow> bool \<Rightarrow> u8 list \<Rightarrow> packet \<Rightarrow> bool" where
  "fetched p amount remove bytes p' \<longleftrightarrow>
     packet_ok p' \<and> ptype p' = ptype p \<and> source p' = source p \<and>
     (if remove then packet_data p = bytes @ packet_data p' else p' = p \<and> bytes = take amount (packet_data p)) \<and>
     length bytes \<le> amount \<and> (0 < amount \<longrightarrow> packet_data p \<noteq> [] \<longrightarrow> bytes \<noteq> []) \<and>
     (min amount (packet_readable p) < vm_page_size \<longrightarrow> bytes = take amount (packet_data p))"

lemma packet_fetch_ok:
  assumes ok: "packet_ok p" and f: "packet_fetch p room amount remove orc = Some (bytes, p', orc')"
  shows "fetched p amount remove bytes p'"
proof -
  define n where "n = min amount (packet_readable p)"
  have n: "(if amount > buf_end p - buf_start p then buf_end p - buf_start p else amount) = n"
    by (simp add: n_def packet_readable_def)
  have le: "n \<le> packet_readable p" "n \<le> amount" by (simp_all add: n_def)
  have tk: "take n (packet_data p) = take amount (packet_data p)"
    by (simp add: n_def length_packet_data [symmetric] take_all_iff min_def)
  have nz: "n = 0 \<longleftrightarrow> amount = 0 \<or> packet_data p = []"
    using length_packet_data [of p] by (auto simp: n_def min_def)
  consider (zero) "n = 0" "bytes = []" "p' = p"
    | (pages) "remove" "buf_vm_alloced p" "vm_page_size \<le> n" "packet_fetch_pages p n = (bytes, p')"
    | (copy) "0 < n" "packet_fetch_copy p room n remove orc = Some (bytes, p', orc')"
    using f unfolding packet_fetch_def n Let_def by (auto split: if_splits prod.splits)
  then show ?thesis
  proof cases
    case zero
    then have "take amount (packet_data p) = []" using nz by auto
    then show ?thesis using zero nz ok by (auto simp: fetched_def)
  next
    case pages
    from fetch_pages_ok [OF ok pages(2,3) le(1) pages(4)] obtain m where
      "0 < m" "m \<le> n" "bytes = take m (packet_data p)" "packet_data p' = drop m (packet_data p)"
      "packet_ok p'" "ptype p' = ptype p" "source p' = source p" by blast
    moreover have "\<not> min amount (packet_readable p) < vm_page_size" using pages(3) unfolding n_def by linarith
    ultimately show ?thesis using pages(1) le(2) by (simp add: fetched_def)
  next
    case copy
    have ne: "take amount (packet_data p) \<noteq> []" using copy(1) nz by auto
    have sp: "packet_data p = take amount (packet_data p) @ drop n (packet_data p)"
      unfolding tk [symmetric] by simp
    have c: "bytes = take amount (packet_data p)"
      "packet_data p' = (if remove then drop n (packet_data p) else packet_data p)"
      "packet_ok p'" "ptype p' = ptype p" "source p' = source p" "\<not> remove \<longrightarrow> p' = p"
      using fetch_copy_ok [OF ok le(1) copy(2)] tk by simp_all
    show ?thesis
      unfolding fetched_def c(1) using c ne sp by (cases remove) simp_all
  qed
qed

lemma packet_fetch_returns:
  assumes "fst (alloc orc) \<noteq> None"
  shows "packet_fetch p room amount remove orc \<noteq> None"
  using assms
  by (cases "alloc orc") (auto simp: packet_fetch_def packet_fetch_copy_def Let_def split: prod.splits option.splits)

text \<open>
  C12. Writing to a packet whose buffer pointers are in order (start, end and capacity,
  with page alignment for buffers of whole pages) either appends exactly the given
  bytes to the data of the packet, whether the data had to be moved to the front of the
  buffer, the buffer extended or replaced, or fails with ENOMEM and leaves the packet
  as it was. The pointers stay in order, so no byte is written outside the buffer.
\<close>

theorem packet_write_appends:
  assumes "packet_ok p"
  shows "case packet_write p bytes orc of (err, p', orc') \<Rightarrow>
    err = ENOMEM \<and> p' = p \<or>
    err = Success \<and> packet_ok p' \<and> packet_data p' = packet_data p @ bytes \<and>
      ptype p' = ptype p \<and> source p' = source p"
proof -
  obtain err p' orc' where w: "packet_write p bytes orc = (err, p', orc')" by (metis prod_cases3)
  show ?thesis using packet_write_ok [OF assms w] by (simp add: w)
qed

definition example_packet :: packet where
  "example_packet = \<lparr>ptype = PACKET_TYPE_DATA, source = None, buf = 100, buf_len = 512, buf_start = 600,
     buf_end = 603, buf_vm_alloced = False, mem = (\<lambda>a. of_nat a), ports = [], num_ports = 0,
     ports_alloced = 0\<rparr>"

lemma example_packet_ok: "packet_ok example_packet"
  by (simp add: packet_ok_def example_packet_def PACKET_SIZE_LARGE_def)

theorem packet_write_appends_witness:
  "packet_ok example_packet \<and>
   (case packet_write example_packet (replicate 20 7) [] of (err, p', orc') \<Rightarrow>
    err = ENOMEM \<and> p' = example_packet \<or>
    err = Success \<and> packet_ok p' \<and> packet_data p' = packet_data example_packet @ replicate 20 7 \<and>
      ptype p' = ptype example_packet \<and> source p' = source example_packet)"
  using example_packet_ok packet_write_appends [OF example_packet_ok, of "replicate 20 7" "[]"] by blast

text \<open>
  Reading from a packet returns, unless the allocation of the result fails, a prefix
  of its data of at most the requested length, which is not empty if there was data
  and some was requested, and all of the request if that is less than a page; what
  was read and what is left together are the old data, and the buffer pointers stay
  in order. Peeking returns the requested prefix and leaves the packet unchanged.
\<close>

theorem packet_read_prefix:
  assumes "packet_ok p" and "fst (alloc orc) \<noteq> None"
  shows "(\<exists>bytes p' orc'. packet_read p room amount orc = Some (bytes, p', orc') \<and>
      packet_ok p' \<and> packet_data p = bytes @ packet_data p' \<and> length bytes \<le> amount \<and>
      (bytes = [] \<longleftrightarrow> amount = 0 \<or> packet_data p = []) \<and>
      (amount < vm_page_size \<longrightarrow> bytes = take amount (packet_data p))) \<and>
    (\<exists>orc'. packet_peek p room amount orc = Some (take amount (packet_data p), p, orc'))"
proof (intro conjI)
  obtain bytes p' orc' where r: "packet_read p room amount orc = Some (bytes, p', orc')"
    using packet_fetch_returns [OF assms(2), of p room amount True] by (auto simp: packet_read_def)
  then have "fetched p amount True bytes p'" using packet_fetch_ok [OF assms(1)] by (simp add: packet_read_def)
  then have f: "packet_ok p'" "packet_data p = bytes @ packet_data p'" "length bytes \<le> amount"
    "0 < amount \<longrightarrow> packet_data p \<noteq> [] \<longrightarrow> bytes \<noteq> []"
    "min amount (packet_readable p) < vm_page_size \<longrightarrow> bytes = take amount (packet_data p)"
    unfolding fetched_def if_True by blast+
  have "amount < vm_page_size \<longrightarrow> bytes = take amount (packet_data p)" using f(5) by simp
  moreover note f(1-4)
  moreover have "bytes = [] \<longleftrightarrow> amount = 0 \<or> packet_data p = []" using f(2,3,4) by fastforce
  ultimately show "\<exists>bytes p' orc'. packet_read p room amount orc = Some (bytes, p', orc') \<and>
      packet_ok p' \<and> packet_data p = bytes @ packet_data p' \<and> length bytes \<le> amount \<and>
      (bytes = [] \<longleftrightarrow> amount = 0 \<or> packet_data p = []) \<and>
      (amount < vm_page_size \<longrightarrow> bytes = take amount (packet_data p))"
    using r by (intro exI conjI)
  obtain bytes p' orc' where k: "packet_peek p room amount orc = Some (bytes, p', orc')"
    using packet_fetch_returns [OF assms(2), of p room amount False] by (auto simp: packet_peek_def)
  then have "fetched p amount False bytes p'" using packet_fetch_ok [OF assms(1)] by (simp add: packet_peek_def)
  then show "\<exists>orc'. packet_peek p room amount orc = Some (take amount (packet_data p), p, orc')"
    using k by (auto simp: fetched_def)
qed

theorem packet_read_prefix_witness:
  "packet_ok example_packet \<and>
   (\<exists>bytes p' orc'. packet_read example_packet 0 2 [] = Some (bytes, p', orc') \<and>
      packet_ok p' \<and> packet_data example_packet = bytes @ packet_data p' \<and> length bytes \<le> 2)"
proof -
  have "fst (alloc []) \<noteq> None" by (simp add: alloc_def)
  from packet_read_prefix [OF example_packet_ok this, of 0 2] show ?thesis
    using example_packet_ok by blast
qed

section \<open>Queues\<close>

definition pq_ok :: "pq \<Rightarrow> bool" where
  "pq_ok q \<longleftrightarrow> (\<forall>p \<in> set (queue q) \<union> set (free q). packet_ok p)"

lemma pq_ok_head: "pq_ok q \<Longrightarrow> queue q = p # ps \<Longrightarrow> packet_ok p"
  by (simp add: pq_ok_def)

lemma pq_queue_ok:
  assumes "pq_ok q" and "pq_queue q ty src orc = (r, q', orc')"
  shows "if r then pq_ok q' \<and> dead_ports q' = dead_ports q \<and> dead_addrs q' = dead_addrs q \<and>
      (\<exists>p. queue q' = queue q @ [p] \<and> packet_data p = [] \<and> ptype p = ty \<and> source p = src \<and> num_ports p = 0)
    else q' = q \<and> free q = [] \<and> fst (alloc orc) = None"
proof (cases "free q")
  case Nil
  then show ?thesis
    using assms
    by (cases "alloc orc"; cases "fst (alloc orc)")
      (auto simp: pq_queue_def pq_ok_def packet_ok_def packet_data_def PACKET_SIZE_LARGE_def)
next
  case (Cons p ps)
  then show ?thesis using assms by (auto simp: pq_queue_def pq_ok_def packet_ok_def packet_data_def)
qed

lemma pq_dequeue_ok:
  "pq_ok q \<Longrightarrow> pq_dequeue q = (r, q') \<Longrightarrow> pq_ok q' \<and> queue q' = tl (queue q) \<and> (r \<longleftrightarrow> queue q \<noteq> [])"
  by (cases "queue q") (auto simp: pq_dequeue_def pq_ok_def)

end
