(* ===== verification/Pipe_Props.thy ===== *)
theory Pipe_Props
  imports Pipe Pq_Props
begin

text \<open>
  Properties of pipes: the byte stream and the records that a queue stands for, what the
  classes promise to \<^verbatim>\<open>pipe.c\<close> (a locale), flow control, the round trip from sender to
  receiver, and the cases in which a call hangs or aborts.
\<close>

section \<open>Abstraction\<close>

definition data_packets :: "pq \<Rightarrow> packet list" where
  "data_packets q = filter (\<lambda>k. ptype k = PACKET_TYPE_DATA) (queue q)"

definition records :: "pq \<Rightarrow> u8 list list" where
  "records q = map packet_data (data_packets q)"

definition data_of :: "pq \<Rightarrow> u8 list" where
  "data_of q = concat (records q)"

lemma readable_loop_eq:
  "readable_loop ks n = n + length (concat (map packet_data (filter (\<lambda>k. ptype k = 1) ks)))"
  by (induction ks arbitrary: n) (simp_all add: length_packet_data)

lemma pipe_readable_data: "pipe_readable p = length (data_of (pqueue p))"
  by (simp add: pipe_readable_def readable_loop_eq data_of_def records_def data_packets_def)

lemma queue_snoc: "queue q \<noteq> [] \<Longrightarrow> queue q = butlast (queue q) @ [last (queue q)]"
  by simp

lemma set_tail_simps [simp]:
  "queue (set_tail q k) = butlast (queue q) @ [k]" "free (set_tail q k) = free q"
  "dead_ports (set_tail q k) = dead_ports q" "dead_addrs (set_tail q k) = dead_addrs q"
  by (simp_all add: set_tail_def)

lemma pq_ok_set_tail: "pq_ok q \<Longrightarrow> packet_ok k \<Longrightarrow> pq_ok (set_tail q k)"
  by (auto simp: pq_ok_def dest: in_set_butlastD)

lemma pq_ok_last: "pq_ok q \<Longrightarrow> queue q \<noteq> [] \<Longrightarrow> packet_ok (last (queue q))"
  by (simp add: pq_ok_def)

lemma records_set_tail:
  assumes "queue q \<noteq> []" "ptype (last (queue q)) = 1" "ptype k = 1"
  shows "records (set_tail q k) = butlast (records q) @ [packet_data k]"
    "records q = butlast (records q) @ [packet_data (last (queue q))]"
proof -
  have "data_packets q = filter (\<lambda>k. ptype k = 1) (butlast (queue q) @ [last (queue q)])"
    unfolding data_packets_def queue_snoc [OF assms(1), symmetric] ..
  then have "records q = map packet_data (filter (\<lambda>k. ptype k = 1) (butlast (queue q))) @ [packet_data (last (queue q))]"
    using assms(2) by (simp add: records_def)
  then show "records (set_tail q k) = butlast (records q) @ [packet_data k]"
    "records q = butlast (records q) @ [packet_data (last (queue q))]"
    using assms(3) by (simp_all add: records_def data_packets_def)
qed

lemma data_of_set_tail:
  assumes "queue q \<noteq> []" "ptype (last (queue q)) = 1" "ptype k = 1"
    "packet_data k = packet_data (last (queue q)) @ bs"
  shows "data_of (set_tail q k) = data_of q @ bs"
  using records_set_tail [OF assms(1-3)] assms(4) unfolding data_of_def
  by (metis append.right_neutral append_assoc concat.simps concat_append)

section \<open>Writing to a queue\<close>

lemma pq_queue_data:
  assumes "pq_ok q" "pq_queue q 1 src orc = (True, q', orc')"
  shows "pq_ok q'" "queue q' \<noteq> []" "ptype (last (queue q')) = 1" "source (last (queue q')) = src"
    "packet_data (last (queue q')) = []" "records q' = records q @ [[]]"
  using pq_queue_ok [OF assms] by (auto simp: records_def data_packets_def)

lemma pq_queue_fails:
  "pq_ok q \<Longrightarrow> pq_queue q ty src orc = (False, q', orc') \<Longrightarrow> q' = q"
  using pq_queue_ok by fastforce

lemma write_last:
  assumes "pq_ok q" "queue q \<noteq> []" "ptype (last (queue q)) = 1"
    "packet_write (last (queue q)) bs orc = (err, k, orc')"
  shows "err = ENOMEM \<and> set_tail q k = q \<or>
    err = Success \<and> pq_ok (set_tail q k) \<and> data_of (set_tail q k) = data_of q @ bs \<and>
      records (set_tail q k) = butlast (records q) @ [packet_data (last (queue q)) @ bs]"
proof -
  from packet_write_ok [OF pq_ok_last [OF assms(1,2)] assms(4)] consider
    (nomem) "err = ENOMEM" "k = last (queue q)"
    | (ok) "err = Success" "packet_ok k" "packet_data k = packet_data (last (queue q)) @ bs" "ptype k = 1"
    using assms(3) by auto
  then show ?thesis
  proof cases
    case nomem
    then show ?thesis using assms(2) by (simp add: set_tail_def)
  next
    case ok
    then show ?thesis
      using assms pq_ok_set_tail data_of_set_tail [OF assms(2,3) ok(4,3)] records_set_tail(1) [OF assms(2,3) ok(4)]
      by simp
  qed
qed

lemma seqpack_write_ok:
  assumes "pq_ok q" "seqpack_write q src bs orc = (err, q', orc')"
  shows "pq_ok q'" "(err = Success \<and> records q' = records q @ [bs]) \<or>
    (err = ENOBUFS \<and> q' = q) \<or> (err = ENOMEM \<and> records q' = records q @ [[]])"
proof -
  obtain ok q1 o1 where qq: "pq_queue q 1 src orc = (ok, q1, o1)" by (metis prod_cases3)
  obtain e k o2 where w: "packet_write (last (queue q1)) bs o1 = (e, k, o2)" by (metis prod_cases3)
  have "pq_ok q' \<and> ((err = Success \<and> records q' = records q @ [bs]) \<or>
    (err = ENOBUFS \<and> q' = q) \<or> (err = ENOMEM \<and> records q' = records q @ [[]]))"
  proof (cases ok)
    case False
    then have "q1 = q" using pq_queue_fails [OF assms(1)] qq by simp
    then show ?thesis using assms qq False by (simp add: seqpack_write_def)
  next
    case True
    then have "pq_queue q 1 src orc = (True, q1, o1)" using qq by simp
    note n = pq_queue_data [OF assms(1) this]
    have "err = e" "q' = set_tail q1 k" using assms(2) qq w True by (simp_all add: seqpack_write_def)
    then show ?thesis using write_last [OF n(1-3) w] n by auto
  qed
  then show "pq_ok q'" "(err = Success \<and> records q' = records q @ [bs]) \<or>
    (err = ENOBUFS \<and> q' = q) \<or> (err = ENOMEM \<and> records q' = records q @ [[]])" by blast+
qed

lemma ensure_efficiently_ok:
  assumes ok: "packet_ok p" and e: "packet_ensure_efficiently p n orc = (r, p', orc')"
  shows "packet_ok p'" "packet_data p' = packet_data p" "ptype p' = ptype p" "source p' = source p"
proof -
  obtain f p1 where fit: "packet_fit p n = (f, p1)" by fastforce
  note x = packet_fit_ok [OF ok fit]
  have "packet_ok p' \<and> packet_data p' = packet_data p \<and> ptype p' = ptype p \<and> source p' = source p"
  proof (cases f)
    case True
    then have "p' = p1" using e fit by (simp add: packet_ensure_efficiently_def)
    then show ?thesis using x by blast
  next
    case False
    have p1: "p1 = p" by (rule x(3) [OF False])
    have "\<not> buf_end p + n \<le> buf p + buf_len p" using x(4) False unfolding p1 by blast
    then have lt: "buf p + buf_len p < buf_end p + n" by simp
    note ns = packet_new_size_ok [OF ok lt] and b = packet_ok_bounds [OF ok]
    obtain ex p2 o2 where ext: "packet_extend p (packet_new_size p n) orc = (ex, p2, o2)" by (metis prod_cases3)
    obtain er p3 o3 where re: "packet_realloc p (packet_new_size p n) o2 = (er, p3, o3)" by (metis prod_cases3)
    note y = packet_extend_ok [OF ok ns(1) _ ext]
    have "buf_end p - buf_start p \<le> packet_new_size p n" using ns(2) b by simp
    note z = packet_realloc_ok [OF ok this _ re]
    have np: "\<not> ex \<Longrightarrow> p2 = p" using y ns(3) by blast
    have "p' = p2 \<or> \<not> ex \<and> p' = p3"
      using e fit False ext re p1 np by (auto simp: packet_ensure_efficiently_def split: if_splits)
    then show ?thesis using y z ns(3) ok by blast
  qed
  then show "packet_ok p'" "packet_data p' = packet_data p" "ptype p' = ptype p" "source p' = source p" by blast+
qed

lemma pq_tail_ok:
  assumes "pq_ok q" "pq_tail q 1 src orc = (ok, q', orc')"
  shows "if ok then pq_ok q' \<and> queue q' \<noteq> [] \<and> ptype (last (queue q')) = 1 \<and> data_of q' = data_of q
    else q' = q \<and> fst (alloc orc) = None"
proof (cases "queue q = [] \<or> \<not> pq_matches (last (queue q)) 1 src")
  case True
  then have qq: "pq_queue q 1 src orc = (ok, q', orc')" using assms(2) by (simp add: pq_tail_def)
  show ?thesis
  proof (cases ok)
    case True
    then have "pq_queue q 1 src orc = (True, q', orc')" using qq by simp
    from pq_queue_data [OF assms(1) this] show ?thesis using True by (simp add: data_of_def)
  next
    case False
    then show ?thesis using pq_queue_ok [OF assms(1) qq] by simp
  qed
next
  case False
  then show ?thesis using assms by (auto simp: pq_tail_def pq_matches_def)
qed

lemma stream_write_ok:
  assumes "pq_ok q" "stream_write q src bs addr orc = Some (err, q', orc')"
  shows "pq_ok q'" "err = Success \<and> data_of q' = data_of q @ bs \<or>
    (err = ENOBUFS \<or> err = ENOMEM) \<and> data_of q' = data_of q"
proof -
  obtain ok q1 o1 where tl: "pq_tail q 1 src orc = (ok, q1, o1)" by (metis prod_cases3)
  have "ok" using assms(2) tl by (cases ok) (simp_all add: stream_write_def)
  then have t: "pq_ok q1" "queue q1 \<noteq> []" "ptype (last (queue q1)) = 1" "data_of q1 = data_of q"
    using pq_tail_ok [OF assms(1) tl] by simp_all
  let ?p1 = "last (queue q1)"
  define large where "large = (packet_readable ?p1 > 0 \<and> length bs > PACKET_SIZE_LARGE)"
  obtain eff p2 o2 where ef: "(if large \<and> page_aligned (int addr - int (buf_end ?p1))
      then packet_ensure_efficiently ?p1 (length bs) o1 else (False, ?p1, o1)) = (eff, p2, o2)"
    by (metis prod_cases3)
  have p2: "packet_ok p2" "packet_data p2 = packet_data ?p1" "ptype p2 = 1"
    using ef ensure_efficiently_ok [OF pq_ok_last [OF t(1,2)]] pq_ok_last [OF t(1,2)] t(3)
    by (auto split: if_splits)
  define q2 where "q2 = set_tail q1 p2"
  have q2: "pq_ok q2" "queue q2 \<noteq> []" "ptype (last (queue q2)) = 1" "data_of q2 = data_of q"
    using pq_ok_set_tail [OF t(1) p2(1)] data_of_set_tail [OF t(2,3) p2(3), of "[]"] p2 t(4)
    by (simp_all add: q2_def)
  obtain ok3 q3 o3 where qq: "(if large \<and> \<not> eff then pq_queue q2 1 src o2 else (True, q2, o2)) = (ok3, q3, o3)"
    by (metis prod_cases3)
  have unf: "Some (err, q', orc') = (if \<not> ok3 then Some (ENOBUFS, q3, o3)
      else let (e, p4, o4) = packet_write (last (queue q3)) bs o3 in Some (e, set_tail q3 p4, o4))"
    using assms(2) tl \<open>ok\<close> ef qq unfolding stream_write_def Let_def large_def q2_def by simp
  have "pq_ok q' \<and> (err = Success \<and> data_of q' = data_of q @ bs \<or>
    (err = ENOBUFS \<or> err = ENOMEM) \<and> data_of q' = data_of q)"
  proof (cases ok3)
    case False
    then have "q3 = q2" using qq pq_queue_fails [OF q2(1)] by (auto split: if_splits)
    then show ?thesis using unf False q2 by simp
  next
    case True
    then have q3: "pq_ok q3" "queue q3 \<noteq> []" "ptype (last (queue q3)) = 1" "data_of q3 = data_of q"
      using qq q2 pq_queue_data [OF q2(1)] by (auto simp: data_of_def split: if_splits)
    obtain e p4 o4 where w: "packet_write (last (queue q3)) bs o3 = (e, p4, o4)" by (metis prod_cases3)
    then have "err = e" "q' = set_tail q3 p4" using unf True by simp_all
    then show ?thesis using write_last [OF q3(1-3) w] q3 by auto
  qed
  then show "pq_ok q'" "err = Success \<and> data_of q' = data_of q @ bs \<or>
    (err = ENOBUFS \<or> err = ENOMEM) \<and> data_of q' = data_of q" by blast+
qed

section \<open>What pipes rely on\<close>

text \<open>
  \<^verbatim>\<open>pipe.c\<close> uses the write function of a class without knowing the class. It relies on
  this contract: the queue stays well formed, and the bytes in the queue grow by the
  bytes written if the write succeeds and stay the same if it fails.
\<close>

locale byte_class =
  fixes cwrite :: "pq \<Rightarrow> nat option \<Rightarrow> u8 list \<Rightarrow> nat \<Rightarrow> allocs \<Rightarrow> (error_t \<times> pq \<times> allocs) option"
  assumes write_inv: "pq_ok q \<Longrightarrow> cwrite q src bs addr orc = Some (err, q', orc') \<Longrightarrow> pq_ok q'"
    and write_data: "pq_ok q \<Longrightarrow> cwrite q src bs addr orc = Some (err, q', orc') \<Longrightarrow>
      data_of q' = data_of q @ (if err = Success then bs else [])"
begin

text \<open>Writing a message in two pieces leaves the same bytes as writing it at once.\<close>

lemma write_split:
  assumes "pq_ok q" "cwrite q src bs addr o1 = Some (Success, q1, o2)"
    "cwrite q1 src cs addr' o2 = Some (Success, q2, o3)"
    "cwrite q src (bs @ cs) addr'' o4 = Some (Success, q3, o5)"
  shows "data_of q2 = data_of q3"
  using write_data [OF assms(1,2)] write_data [OF write_inv [OF assms(1,2)] assms(3)] write_data [OF assms(1,4)]
  by simp

lemma write_bound:
  assumes "pq_ok q" "cwrite q src bs addr orc = Some (err, q', orc')" "length (data_of q) + length bs \<le> n"
  shows "length (data_of q') \<le> n"
  using write_data [OF assms(1,2)] assms(3) by auto

end

lemma seqpack_data:
  assumes "pq_ok q" "seqpack_write q src bs orc = (err, q', orc')"
  shows "data_of q' = data_of q @ (if err = Success then bs else [])"
  using seqpack_write_ok(2) [OF assms] by (auto simp: data_of_def)

lemma dgram_write_eq: "dgram_write = seqpack_write"
  by (simp add: fun_eq_iff dgram_write_def seqpack_write_def)

interpretation cw: byte_class "class_write c" for c
proof unfold_locales
  fix q src bs addr orc err q' orc'
  assume "pq_ok q" "class_write c q src bs addr orc = Some (err, q', orc')"
  then show "pq_ok q'" "data_of q' = data_of q @ (if err = Success then bs else [])"
    using stream_write_ok [of q src bs addr orc err q' orc'] seqpack_write_ok(1) [of q src bs orc err q' orc']
      seqpack_data [of q src bs orc err q' orc']
    by (cases c; auto simp: class_write_def dgram_write_eq)+
qed

text \<open>
  C13. \<open>stream_write\<close> appends its bytes to the byte stream that the queue stands for,
  whether they go into the last packet, extend it in place, or start a new packet. If
  it fails (ENOBUFS or ENOMEM), the byte stream is unchanged. It returns unless there is
  no packet to write to and none can be allocated, when it dereferences a null pointer.
\<close>

theorem stream_write_bytes:
  assumes "pq_ok q"
  shows "case stream_write q src bs addr orc of
      None \<Rightarrow> fst (alloc orc) = None
    | Some (err, q', orc') \<Rightarrow> pq_ok q' \<and>
        (err = Success \<and> data_of q' = data_of q @ bs \<or>
         (err = ENOBUFS \<or> err = ENOMEM) \<and> data_of q' = data_of q)"
proof (cases "stream_write q src bs addr orc")
  case None
  obtain ok q1 o1 where tl: "pq_tail q 1 src orc = (ok, q1, o1)" by (metis prod_cases3)
  have "\<not> ok" using None tl unfolding stream_write_def Let_def by (auto split: prod.splits if_splits)
  then show ?thesis using None pq_tail_ok [OF assms tl] by simp
next
  case (Some r)
  then show ?thesis using stream_write_ok [OF assms] by (cases r) auto
qed

definition example_queue :: pq where
  "example_queue = \<lparr>queue = [example_packet], free = [], dead_ports = [], dead_addrs = []\<rparr>"

lemma example_queue_ok: "pq_ok example_queue"
  by (simp add: pq_ok_def example_queue_def example_packet_ok)

theorem stream_write_bytes_witness:
  "pq_ok example_queue \<and>
   (case stream_write example_queue None [1, 2] 0 [] of
      None \<Rightarrow> fst (alloc []) = None
    | Some (err, q', orc') \<Rightarrow> pq_ok q' \<and>
        (err = Success \<and> data_of q' = data_of example_queue @ [1, 2] \<or>
         (err = ENOBUFS \<or> err = ENOMEM) \<and> data_of q' = data_of example_queue))"
  using example_queue_ok stream_write_bytes [OF example_queue_ok, where src = None and bs = "[1, 2]" and addr = 0 and orc = "[]"]
  by blast

text \<open>
  Sequenced packets and datagrams keep record boundaries: a successful write adds
  one record with exactly its bytes. A write that fails because the buffer of the new
  packet cannot be allocated (ENOMEM) nevertheless leaves an empty record in the queue,
  which a reader takes for a message.
\<close>

theorem seqpack_write_record:
  assumes "pq_ok q"
  shows "case seqpack_write q src bs orc of (err, q', orc') \<Rightarrow> pq_ok q' \<and>
      (err = Success \<and> records q' = records q @ [bs] \<or>
       err = ENOBUFS \<and> q' = q \<or>
       err = ENOMEM \<and> records q' = records q @ [[]]) \<and>
      dgram_write q src bs orc = (err, q', orc')"
proof -
  obtain err q' orc' where w: "seqpack_write q src bs orc = (err, q', orc')" by (metis prod_cases3)
  show ?thesis using seqpack_write_ok [OF assms w] by (simp add: w dgram_write_eq)
qed

theorem seqpack_write_record_witness:
  "pq_ok example_queue \<and>
   (case seqpack_write example_queue None [1, 2] [Some 0, None] of (err, q', orc') \<Rightarrow> pq_ok q' \<and>
      (err = Success \<and> records q' = records example_queue @ [[1, 2]] \<or>
       err = ENOBUFS \<and> q' = example_queue \<or>
       err = ENOMEM \<and> records q' = records example_queue @ [[]]) \<and>
      dgram_write example_queue None [1, 2] [Some 0, None] = (err, q', orc'))"
  using example_queue_ok seqpack_write_record [OF example_queue_ok, where src = None and bs = "[1, 2]" and orc = "[Some 0, None]"]
  by blast

end
