(* ===== verification/Pipe_Transfer.thy ===== *)
theory Pipe_Transfer
  imports Pipe_Props
begin

text \<open>
  Sending and receiving: flow control of non-blocking sends, conservation of the byte
  stream by reads, the round trip, and the calls that do not return.
\<close>

section \<open>Enough memory\<close>

definition enough :: "allocs \<Rightarrow> bool" where
  "enough orc \<longleftrightarrow> None \<notin> set orc"

lemma enough_alloc:
  assumes "enough orc"
  obtains j orc' where "alloc orc = (Some j, orc')" "enough orc'"
proof (cases orc)
  case Nil
  then show ?thesis using that [of 0 "[]"] by (simp add: alloc_def enough_def)
next
  case (Cons r rs)
  then obtain j where "r = Some j" using assms by (cases r) (auto simp: enough_def)
  then show ?thesis using that [of j rs] Cons assms by (simp add: alloc_def enough_def)
qed

lemma enough_extend:
  assumes "enough orc" "packet_extend p n orc = (r, p', orc')"
  shows "enough orc'"
proof -
  obtain j o1 where "alloc orc = (Some j, o1)" "enough o1" using assms(1) by (rule enough_alloc)
  then show ?thesis using assms by (auto simp: packet_extend_def Let_def split: if_splits)
qed

lemma enough_realloc:
  assumes "enough orc" "packet_realloc p n orc = (err, p', orc')"
  shows "err = Success" "enough orc'"
proof -
  obtain j o1 where "alloc orc = (Some j, o1)" "enough o1" using assms(1) by (rule enough_alloc)
  then show "err = Success" "enough orc'" using assms by (auto simp: packet_realloc_def Let_def)
qed

lemma enough_ensure:
  assumes "enough orc"
  shows "packet_ensure p n orc = (err, p', orc') \<Longrightarrow> err = Success \<and> enough orc'"
    and "packet_ensure_efficiently p n orc = (r, p', orc') \<Longrightarrow> enough orc'"
proof -
  obtain f p1 where fit: "packet_fit p n = (f, p1)" by fastforce
  obtain ex p2 o2 where ext: "packet_extend p1 (packet_new_size p1 n) orc = (ex, p2, o2)" by (metis prod_cases3)
  obtain er p3 o3 where re: "packet_realloc p2 (packet_new_size p1 n) o2 = (er, p3, o3)" by (metis prod_cases3)
  have e: "enough o2" "er = Success" "enough o3"
    using enough_extend [OF assms ext] enough_realloc [OF enough_extend [OF assms ext] re] by simp_all
  show "packet_ensure p n orc = (err, p', orc') \<Longrightarrow> err = Success \<and> enough orc'"
    using e assms by (auto simp: packet_ensure_def fit ext re split: if_splits)
  show "packet_ensure_efficiently p n orc = (r, p', orc') \<Longrightarrow> enough orc'"
    using e assms by (auto simp: packet_ensure_efficiently_def fit ext re split: if_splits)
qed

lemma enough_write:
  assumes "enough orc" "packet_write p bs orc = (err, p', orc')"
  shows "err = Success" "enough orc'"
proof -
  obtain e p1 o1 where en: "packet_ensure p (length bs) orc = (e, p1, o1)" by (metis prod_cases3)
  have "e = Success \<and> enough o1" by (rule enough_ensure(1) [OF assms(1) en])
  then show "err = Success" "enough orc'" using assms(2) en by (simp_all add: packet_write_def)
qed

lemma enough_queue:
  assumes "enough orc" "pq_queue q ty src orc = (r, q', orc')"
  shows "r" "enough orc'"
proof -
  obtain j o1 where al: "alloc orc = (Some j, o1)" "enough o1" using assms(1) by (rule enough_alloc)
  show "r" "enough orc'"
    using assms al by (cases "free q"; auto simp: pq_queue_def)+
qed

lemma enough_seqpack_write:
  assumes "enough orc" "seqpack_write q src bs orc = (err, q', orc')"
  shows "err = Success" "enough orc'"
proof -
  obtain r q1 o1 where qq: "pq_queue q 1 src orc = (r, q1, o1)" by (metis prod_cases3)
  obtain e k o2 where w: "packet_write (last (queue q1)) bs o1 = (e, k, o2)" by (metis prod_cases3)
  note a = enough_queue [OF assms(1) qq] and b = enough_write [OF enough_queue(2) [OF assms(1) qq] w]
  show "err = Success" "enough orc'" using assms(2) qq w a b by (simp_all add: seqpack_write_def)
qed

lemma enough_stream_write:
  assumes "enough orc"
  shows "\<exists>q' orc'. stream_write q src bs addr orc = Some (Success, q', orc') \<and> enough orc'"
proof -
  obtain ok q1 o1 where tl: "pq_tail q 1 src orc = (ok, q1, o1)" by (metis prod_cases3)
  have t: "ok" "enough o1"
    using tl assms enough_queue [OF assms, of q 1 src ok q1 o1] by (auto simp: pq_tail_def split: if_splits)
  let ?p1 = "last (queue q1)"
  obtain eff p2 o2 where ef: "(if (packet_readable ?p1 > 0 \<and> length bs > PACKET_SIZE_LARGE) \<and>
        page_aligned (int addr - int (buf_end ?p1))
      then packet_ensure_efficiently ?p1 (length bs) o1 else (False, ?p1, o1)) = (eff, p2, o2)"
    by (metis prod_cases3)
  have e2: "enough o2"
    using ef t(2) enough_ensure(2) [OF t(2)] by (auto split: if_splits)
  obtain ok3 q3 o3 where qq: "(if (packet_readable ?p1 > 0 \<and> length bs > PACKET_SIZE_LARGE) \<and> \<not> eff
      then pq_queue (set_tail q1 p2) 1 src o2 else (True, set_tail q1 p2, o2)) = (ok3, q3, o3)"
    by (metis prod_cases3)
  have e3: "ok3" "enough o3" using qq e2 enough_queue [OF e2] by (auto split: if_splits)
  obtain e p4 o4 where w: "packet_write (last (queue q3)) bs o3 = (e, p4, o4)" by (metis prod_cases3)
  show ?thesis
    using tl t ef qq e3 w enough_write [OF e3(2) w] unfolding stream_write_def Let_def by simp
qed

lemma enough_class_write:
  assumes "enough orc"
  obtains q' orc' where "class_write c q src bs addr orc = Some (Success, q', orc')" "enough orc'"
proof -
  obtain e q1 o1 where s: "seqpack_write q src bs orc = (e, q1, o1)" by (metis prod_cases3)
  have "\<exists>q' orc'. class_write c q src bs addr orc = Some (Success, q', orc') \<and> enough orc'"
    using enough_stream_write [OF assms, of q src bs addr] s enough_seqpack_write [OF assms s]
    by (cases c) (simp_all add: class_write_def dgram_write_eq)
  then show thesis using that by blast
qed

section \<open>Sending\<close>

lemma emit_simps [simp]:
  "pqueue (emit p es) = pqueue p" "pclass (emit p es) = pclass p" "write_limit (emit p es) = write_limit p"
  "broken (emit p es) = broken p" "pipe_readable (emit p es) = pipe_readable p"
  by (simp_all add: emit_def pipe_readable_def)

lemma broadcast_simps [simp]:
  "pqueue (pipe_select_cond_broadcast p) = pqueue p" "pclass (pipe_select_cond_broadcast p) = pclass p"
  "write_limit (pipe_select_cond_broadcast p) = write_limit p"
  "broken (pipe_select_cond_broadcast p) = broken p"
  by (simp_all add: pipe_select_cond_broadcast_def Let_def)

lemma send_wait_ready:
  "send_piece p todo \<noteq> 0 \<Longrightarrow> send_wait p noblock todo ws = Some (Success, send_piece p todo, p, ws)"
  by (subst send_wait.simps) (simp add: Let_def)

text \<open>A non-blocking send that fits is one write of the class.\<close>

lemma send_loop_once:
  assumes fits: "bs \<noteq> []" "length bs \<le> write_limit p - pipe_readable p" and mem: "enough orc"
    and ok: "pq_ok (pqueue p)"
  obtains p' orc' where "send_loop (\<lambda>p. p) noblock src bs addr 0 p ws orc = Some (Success, length bs, p', ws, orc')"
    "pq_ok (pqueue p')" "data_of (pqueue p') = data_of (pqueue p) @ bs" "write_limit p' = write_limit p"
    "pclass p' = pclass p" "broken p' = broken p"
    "class_write (pclass p) (pqueue p) src bs addr orc = Some (Success, pqueue p', orc')" "enough orc'"
proof -
  have le: "pipe_readable p \<le> write_limit p" using fits by (cases "pipe_readable p \<le> write_limit p") auto
  have pc: "send_piece p (length bs) = length bs" using fits le by (simp add: send_piece_def size_sub_def)
  have sw: "send_wait p noblock (length bs) ws = Some (Success, length bs, p, ws)"
    using send_wait_ready [of p "length bs" noblock ws] pc fits(1) by simp
  obtain q o1 where cw: "class_write (pclass p) (pqueue p) src bs addr orc = Some (Success, q, o1)" "enough o1"
    using mem by (rule enough_class_write)
  define p3 where "p3 = emit (p\<lparr>pqueue := q\<rparr>) [Stamp_write, Wake_reads]"
  define p4 where "p4 = (if pipe_is_readable p3 False
      then pipe_select_cond_broadcast (emit p3 [Wake_read_selects]) else p3)"
  have "send_loop (\<lambda>p. p) noblock src bs addr 0 p ws orc = Some (Success, length bs, p4, ws, o1)"
    using sw cw(1) by (subst send_loop.simps) (simp add: p4_def p3_def Let_def)
  moreover have "pqueue p4 = q" "write_limit p4 = write_limit p" "pclass p4 = pclass p" "broken p4 = broken p"
    by (simp_all add: p4_def p3_def)
  ultimately show thesis
    using that [of p4 o1] cw cw.write_inv [OF ok cw(1)] cw.write_data [OF ok cw(1)] by simp
qed

lemma wait_writable_noblock:
  "pipe_wait_writable p True ws = Some
     (if broken p then EPIPE else if write_limit p \<le> pipe_readable p + 1 then EWOULDBLOCK else Success, p, ws)"
  by (simp add: pipe_wait_writable_def pipe_wait_writable_amount_def wait_writable_loop.simps)

text \<open>
  C14. A non-blocking send of data, with enough memory and no interference, always returns.
  It reports EPIPE on a broken pipe and EWOULDBLOCK when the pipe is full, or when the
  data does not fit and must be written atomically (records, or at most \<open>write_atomic\<close>
  bytes); then the pipe is unchanged. Otherwise it appends as many bytes as fit, all of
  them unless the pipe is a stream, reports their number, and the pipe never holds more
  than its write limit.
\<close>

theorem pipe_send_noblock:
  assumes "pq_ok (pqueue p)" and "enough orc" and "bs \<noteq> []"
  shows "\<exists>err n p' orc'. pipe_send (\<lambda>p. p) p True src bs addr [] [] ws orc = Some (err, n, p', ws, orc') \<and>
    (if broken p then err = EPIPE \<and> p' = p
     else if write_limit p \<le> pipe_readable p + 1 \<or>
       write_limit p - pipe_readable p < length bs \<and> (pclass p \<noteq> Stream \<or> length bs \<le> write_atomic p)
     then err = EWOULDBLOCK \<and> p' = p
     else err = Success \<and> n = min (length bs) (write_limit p - pipe_readable p) \<and> 0 < n \<and>
       pq_ok (pqueue p') \<and> data_of (pqueue p') = data_of (pqueue p) @ take n bs \<and>
       pipe_readable p' \<le> write_limit p')"
proof (cases "broken p \<or> write_limit p \<le> pipe_readable p + 1")
  case True
  then show ?thesis using assms(3) by (auto simp: pipe_send_def wait_writable_noblock)
next
  case False
  then have lt: "pipe_readable p + 1 < write_limit p" by simp
  define l where "l = write_limit p - pipe_readable p"
  have sz: "size_sub (write_limit p) (pipe_readable p) = l" using lt by (simp add: size_sub_def l_def)
  show ?thesis
  proof (cases "l < length bs \<and> (pclass p \<noteq> Stream \<or> length bs \<le> write_atomic p)")
    case True
    then show ?thesis using False assms(3) by (auto simp: pipe_send_def wait_writable_noblock sz l_def [symmetric])
  next
    case go: False
    define bs1 where "bs1 = (if l < length bs then take l bs else bs)"
    have b1: "bs1 = take (min (length bs) l) bs" "length bs1 = min (length bs) l" "bs1 \<noteq> []"
      using assms(3) lt by (auto simp: bs1_def l_def)
    then have "length bs1 \<le> write_limit p - pipe_readable p" by (simp add: l_def)
    from b1(3) this assms(2,1) obtain p' orc' where
      s: "send_loop (\<lambda>p. p) True src bs1 addr 0 p ws orc = Some (Success, length bs1, p', ws, orc')"
      "pq_ok (pqueue p')" "data_of (pqueue p') = data_of (pqueue p) @ bs1" "write_limit p' = write_limit p"
      by (rule send_loop_once [where noblock = True and src = src and addr = addr and ws = ws]) blast
    have "pipe_send (\<lambda>p. p) p True src bs addr [] [] ws orc = Some (Success, length bs1, p', ws, orc')"
      using False go assms(3) s(1) b1(3)
      by (cases "l < length bs") (simp_all add: pipe_send_def wait_writable_noblock sz bs1_def Let_def)
    moreover have "pipe_readable p' \<le> write_limit p'"
      using s(3,4) b1(2) lt by (simp add: pipe_readable_data l_def)
    moreover have "0 < length bs1" using b1(3) by simp
    ultimately show ?thesis using False go s(2,3) b1 unfolding l_def by auto
  qed
qed

definition example_pipe :: pipe where
  "example_pipe = \<lparr>pclass = Stream, readers = 1, writers = 1, broken = False, pending_selects = [],
     write_limit = 10, write_atomic = 4, pqueue = example_queue, events = []\<rparr>"

lemma example_pipe_ok: "pq_ok (pqueue example_pipe)" "enough []"
  by (simp_all add: example_pipe_def example_queue_ok enough_def)

lemma example_pipe_readable: "pipe_readable example_pipe = 3"
  by (simp add: pipe_readable_def example_pipe_def example_queue_def example_packet_def packet_readable_def)

theorem pipe_send_noblock_witness:
  "\<exists>n p' orc'. pipe_send (\<lambda>p. p) example_pipe True None [1, 2, 3, 4, 5, 6, 7, 8, 9] 0 [] [] [] [] =
     Some (Success, n, p', [], orc') \<and> n = 7 \<and> pipe_readable p' \<le> write_limit p'"
proof -
  have ne: "[1, 2, 3, 4, 5, 6, 7, 8, 9 :: u8] \<noteq> []" by simp
  have c: "\<not> broken example_pipe" "write_limit example_pipe = 10" "pclass example_pipe = Stream"
    "write_atomic example_pipe = 4" by (simp_all add: example_pipe_def)
  from pipe_send_noblock [OF example_pipe_ok ne, where src = None and addr = 0 and ws = "[]"]
  show ?thesis unfolding c example_pipe_readable using c by auto
qed

section \<open>Receiving\<close>

definition pipe_ok :: "pipe \<Rightarrow> bool" where
  "pipe_ok p \<longleftrightarrow> pq_ok (pqueue p) \<and>
     (\<forall>k \<in> set (queue (pqueue p)). ptype k = PACKET_TYPE_DATA \<or> ptype k = PACKET_TYPE_CONTROL)"

lemma skip_control_ok:
  assumes "pq_ok q"
  shows "pq_ok (skip_control q) \<and> queue (skip_control q) = dropWhile (\<lambda>k. ptype k = 2) (queue q)"
  using assms
proof (induction "queue q" arbitrary: q)
  case Nil
  then show ?case by (subst (1 2) skip_control.simps) (simp add: pq_head_def)
next
  case (Cons k ks)
  have q: "queue q = k # ks" using Cons.hyps(2) by simp
  show ?case
  proof (cases "ptype k = 2")
    case True
    define q' where "q' = snd (pq_next q 0 None)"
    have q': "queue q' = ks" "pq_ok q'"
      using pq_dequeue_ok [OF Cons.prems] q by (cases "pq_dequeue q"; simp add: q'_def pq_next_def)+
    have "skip_control q = skip_control q'"
      using q True by (subst skip_control.simps) (simp add: pq_head_def pq_matches_def q'_def)
    then show ?thesis using Cons.hyps(1) [of q'] q' q True by simp
  next
    case False
    then have "skip_control q = q" using q by (subst skip_control.simps) (simp add: pq_head_def pq_matches_def)
    then show ?thesis using q False Cons.prems by simp
  qed
qed

lemma data_packets_dropWhile:
  "filter (\<lambda>k. ptype k = 1) (dropWhile (\<lambda>k. ptype k = 2) ks) = filter (\<lambda>k. ptype k = 1) ks"
  by (induction ks) auto

lemma skip_control_data: "pq_ok q \<Longrightarrow> data_packets (skip_control q) = data_packets q"
  using skip_control_ok data_packets_dropWhile by (simp add: data_packets_def)

lemma class_read_fetched:
  assumes "packet_ok k" "enough orc"
  obtains bytes dq k' orc' where "class_read c k False room amount orc = Some (bytes, dq, k', orc')"
    "fetched k amount True bytes k'" "c \<noteq> Dgram \<Longrightarrow> dq \<longleftrightarrow> packet_data k' = []" "c = Dgram \<Longrightarrow> dq"
proof -
  obtain j o1 where "alloc orc = (Some j, o1)" using assms(2) by (rule enough_alloc)
  then have "packet_fetch k room amount True orc \<noteq> None" by (intro packet_fetch_returns) simp
  then obtain bytes k' o2 where f: "packet_fetch k room amount True orc = Some (bytes, k', o2)" by auto
  have e: "packet_readable k' = 0 \<longleftrightarrow> packet_data k' = []" using length_packet_data [of k'] by auto
  show thesis
    using that packet_fetch_ok [OF assms(1) f] f e
    by (cases c) (auto simp: class_read_def stream_read_def seqpack_read_def dgram_read_def packet_read_def)
qed

lemma wake_writers_simps [simp]:
  "pqueue (pipe_wake_writers (\<lambda>p. p) p) = pqueue p" "pclass (pipe_wake_writers (\<lambda>p. p) p) = pclass p"
  by (simp_all add: pipe_wake_writers_def Let_def)

text \<open>An ordinary, non-blocking read of a pipe that has a data packet.\<close>

lemma recv_data:
  assumes ok: "pipe_ok p" and mem: "enough orc" and d: "data_packets (pqueue p) = k # ks"
  obtains r p' orc' k' where
    "pipe_recv (\<lambda>p. p) p noblock False want room amount None None ws orc = Some (Success, r, p', ws, orc')"
    "pq_ok (pqueue p')" "\<forall>x \<in> set (queue (pqueue p')). x = k' \<or> x \<in> set (queue (pqueue p))"
    "packet_ok k'" "ptype k' = 1" "fetched (k\<lparr>source := source k'\<rparr>) amount True (r_data r) k'"
    "data_packets (pqueue p') = (if pclass p \<noteq> Dgram \<and> packet_data k' \<noteq> [] then k' # ks else ks)"
proof -
  have q: "pq_ok (pqueue p)" using ok by (simp add: pipe_ok_def)
  let ?q1 = "skip_control (pqueue p)"
  note sk = skip_control_ok [OF q] skip_control_data [OF q]
  have nd: "queue ?q1 \<noteq> []" using d sk(2) by (auto simp: data_packets_def)
  then obtain h t where ht: "queue ?q1 = h # t" by (cases "queue ?q1") auto
  have "dropWhile (\<lambda>k. ptype k = 2) (queue (pqueue p)) = h # t" using sk(1) ht by simp
  then have "ptype h \<noteq> 2" by (simp add: dropWhile_eq_Cons_conv)
  moreover have "h \<in> set (queue (pqueue p))" using sk(1) ht set_dropWhileD [of h] by (metis list.set_intros(1))
  ultimately have h1: "ptype h = 1" using ok by (auto simp: pipe_ok_def)
  then have hk: "h = k" "filter (\<lambda>k. ptype k = 1) t = ks" using d sk(2) ht by (simp_all add: data_packets_def)
  have kok: "packet_ok k" using sk(1) ht hk(1) by (auto simp: pq_ok_def)
  have wr: "pipe_wait_readable p noblock True ws = Some (Success, p, ws)"
    using nd sk(1) by (subst pipe_wait_readable.simps) (simp add: pipe_is_readable_def)
  define k1 where "k1 = (if want then k\<lparr>source := None\<rparr> else k)"
  have k1: "packet_ok k1" "ptype k1 = 1" "packet_data k1 = packet_data k" "k1 = k\<lparr>source := source k1\<rparr>"
    using kok h1 hk(1) by (simp_all add: k1_def packet_ok_def packet_data_def)
  obtain bytes dq k2 o2 where cr: "class_read (pclass p) k1 False room amount orc = Some (bytes, dq, k2, o2)"
    "fetched k1 amount True bytes k2" "pclass p \<noteq> Dgram \<Longrightarrow> dq \<longleftrightarrow> packet_data k2 = []" "pclass p = Dgram \<Longrightarrow> dq"
    using class_read_fetched [OF k1(1) mem] by metis
  have k2: "packet_ok k2" "ptype k2 = 1" "source k2 = source k1" using cr(2) k1(2) by (simp_all add: fetched_def)
  define q3 where "q3 = (if dq then snd (pq_dequeue (set_head ?q1 k2)) else set_head ?q1 k2)"
  have q3: "queue q3 = (if dq then t else k2 # t)" "pq_ok q3"
    using conjunct1 [OF sk(1)] ht k2(1) by (auto simp: q3_def set_head_def pq_dequeue_def pq_ok_def)
  define p' where "p' = pipe_wake_writers (\<lambda>p. p) (emit (p\<lparr>pqueue := q3\<rparr>) [Stamp_read])"
  define r where "r = \<lparr>r_source = (if want then source k else None), r_data = bytes, r_control = [], r_ports = []\<rparr>"
  have rs: "(if want then packet_read_source k else (None, k)) = (if want then source k else None, k1)"
    by (simp add: packet_read_source_def k1_def)
  have "pipe_recv (\<lambda>p. p) p noblock False want room amount None None ws orc = Some (Success, r, p', ws, o2)"
    using wr ht hk(1) cr(1) rs by (simp add: pipe_recv_def q3_def [symmetric] p'_def r_def)
  moreover have "t = [] \<or> set t \<subseteq> set (queue (pqueue p))"
    using sk(1) ht set_dropWhileD by (metis list.set_intros(2) subsetI)
  moreover have "fetched (k\<lparr>source := source k2\<rparr>) amount True (r_data r) k2"
    using cr(2) k1(4) k2(3) by (simp add: r_def)
  moreover have "dq \<longleftrightarrow> \<not> (pclass p \<noteq> Dgram \<and> packet_data k2 \<noteq> [])" using cr(3,4) by blast
  then have "data_packets q3 = (if pclass p \<noteq> Dgram \<and> packet_data k2 \<noteq> [] then k2 # ks else ks)"
    using q3(1) k2(2) hk(2) by (auto simp: data_packets_def)
  moreover have "pqueue p' = q3" by (simp add: p'_def)
  moreover have "\<forall>x \<in> set (queue q3). x = k2 \<or> x \<in> set t" using q3(1) by simp
  ultimately show thesis
    using q3(2) k2(1,2) by (intro that [of r p' o2 k2]) auto
qed

text \<open>
  C15. An ordinary read of a pipe with data in it, with enough memory and no interference,
  returns a prefix of the first record, not empty unless that record is empty or nothing
  was asked for. On a stream, or for sequenced packets, no byte is lost or reordered: what
  was read and what is left in the pipe together are what was in it; the rest of a
  datagram is discarded, and only that.
\<close>

theorem pipe_recv_data:
  assumes "pipe_ok p" and "enough orc" and "records (pqueue p) = rec # recs"
  shows "\<exists>r p' orc'. pipe_recv (\<lambda>p. p) p noblock False want room amount None None ws orc =
      Some (Success, r, p', ws, orc') \<and> pipe_ok p' \<and>
    (\<exists>rest. rec = r_data r @ rest \<and>
       records (pqueue p') = (if pclass p \<noteq> Dgram \<and> rest \<noteq> [] then rest # recs else recs)) \<and>
    length (r_data r) \<le> amount \<and> (r_data r = [] \<longleftrightarrow> amount = 0 \<or> rec = [])"
proof -
  from assms(3) obtain k ks where d: "data_packets (pqueue p) = k # ks" "packet_data k = rec"
    "map packet_data ks = recs" by (auto simp: records_def)
  from assms(1,2) d(1) obtain r p' orc' k' where
    r: "pipe_recv (\<lambda>p. p) p noblock False want room amount None None ws orc = Some (Success, r, p', ws, orc')"
    "pq_ok (pqueue p')" "\<forall>x \<in> set (queue (pqueue p')). x = k' \<or> x \<in> set (queue (pqueue p))"
    "ptype k' = 1" "fetched (k\<lparr>source := source k'\<rparr>) amount True (r_data r) k'"
    "data_packets (pqueue p') = (if pclass p \<noteq> Dgram \<and> packet_data k' \<noteq> [] then k' # ks else ks)"
    by (rule recv_data [where noblock = noblock and want = want and room = room and amount = amount and ws = ws]) blast
  have "packet_data (k\<lparr>source := source k'\<rparr>) = rec" using d(2) by (simp add: packet_data_def)
  then have f: "rec = r_data r @ packet_data k'" "length (r_data r) \<le> amount"
    "0 < amount \<longrightarrow> rec \<noteq> [] \<longrightarrow> r_data r \<noteq> []"
    using r(5) unfolding fetched_def if_True by simp_all
  have "r_data r = [] \<longleftrightarrow> amount = 0 \<or> rec = []" using f by fastforce
  moreover have "pipe_ok p'" using r(2,3,4) assms(1) by (auto simp: pipe_ok_def)
  moreover have "records (pqueue p') = (if pclass p \<noteq> Dgram \<and> packet_data k' \<noteq> [] then packet_data k' # recs else recs)"
    using r(6) d(3) by (simp add: records_def)
  ultimately show ?thesis using r(1) f(1,2) by blast
qed

lemma example_pipe_pipe_ok: "pipe_ok example_pipe"
  using example_queue_ok by (simp add: pipe_ok_def example_pipe_def example_queue_def example_packet_def)

lemma example_pipe_records: "records (pqueue example_pipe) = [packet_data example_packet]"
  by (simp add: records_def data_packets_def example_pipe_def example_queue_def) (simp add: example_packet_def)

theorem pipe_recv_data_witness:
  "pipe_ok example_pipe \<and>
   (\<exists>r p' orc'. pipe_recv (\<lambda>p. p) example_pipe True False True 0 2 None None [] [] = Some (Success, r, p', [], orc') \<and>
      pipe_ok p' \<and> (\<exists>rest. packet_data example_packet = r_data r @ rest \<and>
        records (pqueue p') = (if pclass example_pipe \<noteq> Dgram \<and> rest \<noteq> [] then rest # [] else [])))"
  using example_pipe_pipe_ok
    pipe_recv_data [OF example_pipe_pipe_ok example_pipe_ok(2) example_pipe_records,
      where noblock = True and want = True and room = 0 and amount = 2 and ws = "[]"]
  by blast

section \<open>The round trip\<close>

text \<open>Without data in the queue every class starts a new packet.\<close>

lemma class_write_empty:
  assumes "pq_ok q" "data_packets q = []"
  shows "class_write c q src bs addr orc =
    (if c = Stream \<and> \<not> fst (pq_queue q PACKET_TYPE_DATA src orc) then None else Some (seqpack_write q src bs orc))"
proof -
  have "queue q = [] \<or> ptype (last (queue q)) \<noteq> 1"
    using assms(2) by (auto simp: data_packets_def filter_empty_conv)
  then have tl: "pq_tail q 1 src orc = pq_queue q 1 src orc" by (auto simp: pq_tail_def pq_matches_def)
  obtain ok q2 o2 where qq: "pq_queue q 1 src orc = (ok, q2, o2)" by (metis prod_cases3)
  have "stream_write q src bs addr orc = (if \<not> ok then None else Some (seqpack_write q src bs orc))"
  proof (cases ok)
    case True
    then have "pq_queue q 1 src orc = (True, q2, o2)" using qq by simp
    note n = pq_queue_data [OF assms(1) this]
    have "packet_readable (last (queue q2)) = 0" using n(5) length_packet_data [of "last (queue q2)"] by simp
    moreover have "set_tail q2 (last (queue q2)) = q2" using n(2) by (simp add: set_tail_def)
    ultimately show ?thesis
      using qq True tl by (simp add: stream_write_def seqpack_write_def split: prod.splits)
  next
    case False
    then show ?thesis using qq tl by (simp add: stream_write_def)
  qed
  then show ?thesis using qq by (cases c) (auto simp: class_write_def dgram_write_eq)
qed

lemma seqpack_write_types:
  assumes "pq_ok q" "seqpack_write q src bs orc = (err, q', orc')" "k \<in> set (queue q')"
  shows "k \<in> set (queue q) \<or> ptype k = PACKET_TYPE_DATA"
proof -
  obtain ok q1 o1 where qq: "pq_queue q 1 src orc = (ok, q1, o1)" by (metis prod_cases3)
  obtain e k' o2 where w: "packet_write (last (queue q1)) bs o1 = (e, k', o2)" by (metis prod_cases3)
  show ?thesis
  proof (cases ok)
    case True
    with pq_queue_ok [OF assms(1) qq] obtain n where n: "pq_ok q1" "queue q1 = queue q @ [n]" "ptype n = 1"
      by auto
    have "ptype k' = 1" using packet_write_ok [OF _ w] n pq_ok_last [OF n(1)] by auto
    moreover have "q' = set_tail q1 k'" using assms(2) qq w True by (simp add: seqpack_write_def)
    ultimately show ?thesis using assms(3) n by auto
  next
    case False
    then have "q' = q" using assms(2) qq pq_queue_ok [OF assms(1) qq] by (simp add: seqpack_write_def)
    then show ?thesis using assms(3) by simp
  qed
qed

text \<open>
  C16. What one end writes the other end reads: on a pipe of any class that is not broken
  and has no data in it, a message of less than a page that fits is sent without
  blocking, and the next read that asks for at least its length returns exactly the
  message and leaves the pipe without data.
\<close>

theorem pipe_send_recv_roundtrip:
  assumes "pipe_ok p" and "\<not> broken p" and "data_packets (pqueue p) = []"
    and "enough orc" and "bs \<noteq> []" and "length bs + 1 < write_limit p" and "length bs < vm_page_size"
    and "length bs \<le> amount"
  shows "\<exists>p1 o1 r p2 o2.
    pipe_send (\<lambda>p. p) p True src bs addr [] [] ws orc = Some (Success, length bs, p1, ws, o1) \<and>
    pipe_recv (\<lambda>p. p) p1 True False want room amount None None ws o1 = Some (Success, r, p2, ws, o2) \<and>
    r_data r = bs \<and> data_packets (pqueue p2) = []"
proof -
  have q: "pq_ok (pqueue p)" using assms(1) by (simp add: pipe_ok_def)
  have rd: "pipe_readable p = 0" using assms(3) by (simp add: pipe_readable_data data_of_def records_def)
  have fit: "length bs \<le> write_limit p - pipe_readable p" using assms(6) rd by simp
  from assms(5) fit assms(4) q obtain p1 o1 where
    s: "send_loop (\<lambda>p. p) True src bs addr 0 p ws orc = Some (Success, length bs, p1, ws, o1)"
    "pq_ok (pqueue p1)" "pclass p1 = pclass p"
    "class_write (pclass p) (pqueue p) src bs addr orc = Some (Success, pqueue p1, o1)" "enough o1"
    by (rule send_loop_once [where noblock = True and src = src and addr = addr and ws = ws]) blast
  have sz: "size_sub (write_limit p) 0 = write_limit p" by (simp add: size_sub_def)
  have send: "pipe_send (\<lambda>p. p) p True src bs addr [] [] ws orc = Some (Success, length bs, p1, ws, o1)"
    using assms(2,5,6) s(1) rd by (simp add: pipe_send_def wait_writable_noblock sz Let_def)
  have sq: "seqpack_write (pqueue p) src bs orc = (Success, pqueue p1, o1)"
    using s(4) unfolding class_write_empty [OF q assms(3)] by (simp split: if_splits)
  then have rec: "records (pqueue p1) = [bs]"
    using seqpack_write_ok(2) [OF q sq] assms(3) by (auto simp: records_def)
  then obtain k where d: "data_packets (pqueue p1) = [k]" "packet_data k = bs" by (auto simp: records_def)
  have ok1: "pipe_ok p1" using s(2) assms(1) seqpack_write_types [OF q sq] by (auto simp: pipe_ok_def)
  from ok1 s(5) d(1) obtain r p2 o2 k' where
    r: "pipe_recv (\<lambda>p. p) p1 True False want room amount None None ws o1 = Some (Success, r, p2, ws, o2)"
    "fetched (k\<lparr>source := source k'\<rparr>) amount True (r_data r) k'"
    "data_packets (pqueue p2) = (if pclass p1 \<noteq> Dgram \<and> packet_data k' \<noteq> [] then [k'] else [])"
    by (rule recv_data [where noblock = True and want = want and room = room and amount = amount and ws = ws]) blast
  let ?k = "k\<lparr>source := source k'\<rparr>"
  have kd: "packet_data ?k = bs"
    using d(2) by (simp add: packet_data_def)
  have kr: "packet_readable ?k = length bs"
    using kd by (metis length_packet_data)
  have f: "bs = r_data r @ packet_data k'" "length bs < vm_page_size \<longrightarrow> r_data r = take amount bs"
    using r(2) unfolding fetched_def if_True kd kr min_absorb2 [OF assms(8)] by blast+
  have rd': "r_data r = bs" using f(2) assms(7,8) by simp
  have kn: "packet_data k' = []" using f(1) unfolding rd' by simp
  have "data_packets (pqueue p2) = []" using r(3) kn by simp
  then show ?thesis using send r(1) rd' by blast
qed

definition empty_pipe :: pipe where
  "empty_pipe = \<lparr>pclass = Stream, readers = 1, writers = 1, broken = False, pending_selects = [7, 8, 9],
     write_limit = 10, write_atomic = 4,
     pqueue = \<lparr>queue = [], free = [], dead_ports = [], dead_addrs = []\<rparr>, events = []\<rparr>"

lemma empty_pipe_ok: "pipe_ok empty_pipe" "\<not> broken empty_pipe" "data_packets (pqueue empty_pipe) = []"
  by (simp_all add: empty_pipe_def pipe_ok_def pq_ok_def data_packets_def)

theorem pipe_send_recv_roundtrip_witness:
  "pipe_ok empty_pipe \<and>
   (\<exists>p1 o1 r p2 o2.
    pipe_send (\<lambda>p. p) empty_pipe True None [1, 2, 3] 0 [] [] [] [] = Some (Success, length [1, 2, 3 :: u8], p1, [], o1) \<and>
    pipe_recv (\<lambda>p. p) p1 True False False 8 8 None None [] o1 = Some (Success, r, p2, [], o2) \<and>
    r_data r = [1, 2, 3] \<and> data_packets (pqueue p2) = [])"
proof -
  have h: "[1, 2, 3 :: u8] \<noteq> []" "length [1, 2, 3 :: u8] + 1 < write_limit empty_pipe"
    "length [1, 2, 3 :: u8] < vm_page_size" "length [1, 2, 3 :: u8] \<le> 8"
    by (simp_all add: empty_pipe_def vm_page_size_def)
  show ?thesis
    using empty_pipe_ok(1) pipe_send_recv_roundtrip [OF empty_pipe_ok example_pipe_ok(2) h,
      where src = None and addr = 0 and ws = "[]" and want = False and room = 8] by blast
qed

section \<open>Calls that do not return\<close>

lemma control_readable:
  assumes "pq_ok q" "pq_queue q 2 None orc = (True, q1, o1)"
    "packet_write (last (queue q1)) control o1 = (Success, k, o2)" "ptype k' = ptype k"
  shows "data_packets (set_tail q1 k') = data_packets q"
proof -
  from pq_queue_ok [OF assms(1,2)] obtain n where n: "pq_ok q1" "queue q1 = queue q @ [n]" "ptype n = 2" by auto
  have "ptype k = 2" using packet_write_ok [OF _ assms(3)] n pq_ok_last [OF n(1)] by auto
  then show ?thesis using n(2) assms(4) by (simp add: data_packets_def)
qed

lemma enough_set_ports:
  "enough orc \<Longrightarrow> packet_set_ports p new orc = (err, dead, p', orc') \<Longrightarrow> err = Success \<and> ptype p' = ptype p"
  by (erule enough_alloc) (auto simp: packet_set_ports_def Let_def split: if_splits)

lemma send_wait_nothing:
  assumes "\<not> broken p" "pipe_readable p + 1 < write_limit p"
  shows "send_wait p noblock 0 ws = None"
  using assms
  by (subst send_wait.simps)
    (simp add: send_piece_def pipe_wait_writable_amount_def wait_writable_loop.simps Let_def)

text \<open>
  C17. Sending control data or ports without ordinary data never returns. On a pipe that
  is not broken and has room, \<open>pipe_send\<close> queues the control packet and then looks, with
  the pipe locked, for room for a piece of no bytes: no size is found, nothing is waited
  for, and the loop starts again, whatever the other threads do.
\<close>

theorem pipe_send_control_only_hangs:
  assumes "pq_ok (pqueue p)" and "enough orc" and "\<not> broken p" and "pipe_readable p + 1 < write_limit p"
    and "control \<noteq> [] \<or> prts \<noteq> []"
  shows "pipe_send yield p noblock src [] addr control prts ws orc = None"
proof -
  obtain ok q o1 where qq: "pq_queue (pqueue p) 2 None orc = (ok, q, o1)" by (metis prod_cases3)
  note e1 = enough_queue [OF assms(2) qq]
  obtain e k o2 where w: "packet_write (last (queue q)) control o1 = (e, k, o2)" by (metis prod_cases3)
  note e2 = enough_write [OF e1(2) w]
  obtain e' dead k' o3 where sp: "packet_set_ports k prts o2 = (e', dead, k', o3)" by (metis prod_cases4)
  note e3 = enough_set_ports [OF e2(2) sp]
  define p2 where "p2 = p\<lparr>pqueue := (set_tail q k')\<lparr>dead_ports := dead_ports q @ dead\<rparr>\<rparr>"
  have dp: "data_packets (set_tail q k') = data_packets (pqueue p)"
    using control_readable [OF assms(1) _ _ conjunct2 [OF e3]] qq w e1(1) e2(1) by simp
  then have "pipe_readable p2 = pipe_readable p"
    by (simp add: pipe_readable_data data_of_def records_def p2_def data_packets_def)
  then have "send_wait p2 noblock 0 ws = None" using assms(3,4) by (intro send_wait_nothing) (simp_all add: p2_def)
  then have "send_loop yield noblock src [] addr 0 p2 ws o3 = None" by (subst send_loop.simps) simp
  moreover have "pipe_wait_writable p noblock ws = Some (Success, p, ws)"
    using assms(3,4) by (simp add: pipe_wait_writable_def pipe_wait_writable_amount_def wait_writable_loop.simps)
  ultimately show ?thesis
    using assms(5) qq w sp e1(1) e2(1) e3 by (auto simp: pipe_send_def p2_def [symmetric])
qed

theorem pipe_send_control_only_hangs_witness:
  "pq_ok (pqueue empty_pipe) \<and>
   pipe_send (\<lambda>p. p) empty_pipe False None [] 0 [] [42] [None, None] [] = None"
proof -
  have h: "pq_ok (pqueue empty_pipe)" "pipe_readable empty_pipe + 1 < write_limit empty_pipe"
    "([] :: u8 list) \<noteq> [] \<or> [42 :: mach_port] \<noteq> []"
    using empty_pipe_ok by (simp_all add: pipe_ok_def pipe_readable_def empty_pipe_def)
  show ?thesis using h(1) pipe_send_control_only_hangs [OF h(1) example_pipe_ok(2) empty_pipe_ok(2) h(2,3)] by blast
qed

lemma bind_none: "(\<And>x. f x = None) \<Longrightarrow> Option.bind m f = None"
  by (cases m) simp_all

text \<open>
  The header promises an empty data buffer when the control packet at the head of a
  pipe is followed by another control packet or by nothing. The code asserts that a data
  packet follows: a read that asks for the control data or the ports aborts.
\<close>

theorem pipe_recv_control_only_aborts:
  assumes "queue (pqueue p) = k # ks" and "ptype k = PACKET_TYPE_CONTROL"
    and "ks = [] \<or> ptype (hd ks) \<noteq> PACKET_TYPE_DATA" and "croom \<noteq> None \<or> proom \<noteq> None"
  shows "pipe_recv yield p noblock peek want room amount croom proom ws orc = None"
proof -
  have wr: "pipe_wait_readable p noblock False ws = Some (Success, p, ws)"
    using assms(1) by (subst pipe_wait_readable.simps) (simp add: pipe_is_readable_def)
  have hd: "pq_head (snd (pq_dequeue (set_head (pqueue p) k2))) 1 None = None" for k2
    using assms(1,3) by (cases ks) (auto simp: pq_dequeue_def set_head_def pq_head_def pq_matches_def)
  then have "fst (pq_next (set_head (pqueue p) k2) 1 None) = None" for k2
    by (simp add: pq_next_def set_head_def pq_dequeue_def)
  then have nx: "pq_next (set_head (pqueue p) k2) 1 None \<noteq> (Some y, q2)" for k2 y q2
    by (metis fst_conv option.distinct(1))
  have "recv_control (pqueue p) croom proom orc = None"
    unfolding recv_control_def Let_def
    by (rule bind_none) (auto dest: nx [unfolded One_nat_def, THEN notE] split: prod.split)
  then show ?thesis using wr assms(1,2,4) by (auto simp: pipe_recv_def)
qed

definition control_pipe :: pipe where
  "control_pipe = empty_pipe\<lparr>pqueue := example_queue\<lparr>queue := [example_packet\<lparr>ptype := 2\<rparr>]\<rparr>\<rparr>"

theorem pipe_recv_control_only_aborts_witness:
  "queue (pqueue control_pipe) = [example_packet\<lparr>ptype := 2\<rparr>] \<and>
   pipe_recv (\<lambda>p. p) control_pipe True False False 8 8 (Some 8) None [] [] = None"
proof -
  have h: "queue (pqueue control_pipe) = example_packet\<lparr>ptype := 2\<rparr> # []" "ptype (example_packet\<lparr>ptype := 2\<rparr>) = 2"
    "([] :: packet list) = [] \<or> ptype (hd []) \<noteq> 1" "Some (8 :: nat) \<noteq> None \<or> (None :: nat option) \<noteq> None"
    by (simp_all add: control_pipe_def)
  show ?thesis using h(1) pipe_recv_control_only_aborts [OF h] by blast
qed

section \<open>Waking selects\<close>

lemma select_ring_prefix:
  "i + 1 < length cs \<Longrightarrow> length cs - i \<le> n \<Longrightarrow>
     select_ring cs i (length cs - 1) n = drop i (butlast cs)"
proof (induction n arbitrary: i)
  case (Suc n)
  have d: "drop i (butlast cs) = cs ! i # drop (i + 1) (butlast cs)"
    using Suc.prems(1) by (metis Cons_nth_drop_Suc Suc_eq_plus1 length_butlast less_diff_conv nth_butlast)
  show ?case
  proof (cases "i + 2 < length cs")
    case True
    then have "(i + 1) mod length cs = i + 1" "i + 1 \<noteq> length cs - 1" by simp_all
    then show ?thesis
      using Suc.IH [of "i + 1"] Suc.prems True d by (subst select_ring.simps) (simp add: Let_def)
  next
    case False
    then have "i + 2 = length cs" using Suc.prems(1) by simp
    then have "drop (i + 1) (butlast cs) = []" "i + 1 = length cs - 1" by simp_all
    then show ?thesis using d Suc.prems by (subst select_ring.simps) (simp add: Let_def)
  qed
qed simp

text \<open>
  Of several selects that wait on a pipe, \<open>pipe_select_cond_broadcast\<close> wakes all but
  the last: its loop stops when it reaches the last condition of the ring, before it
  has been signalled.
\<close>

theorem pipe_select_broadcast_misses_last:
  assumes "2 \<le> length (pending_selects p)"
  shows "pipe_select_cond_broadcast p = emit p (map Wake_select (butlast (pending_selects p)))"
  using select_ring_prefix [of 0 "pending_selects p" "length (pending_selects p)"] assms
  by (auto simp: pipe_select_cond_broadcast_def Let_def)

theorem pipe_select_broadcast_misses_last_witness:
  "pending_selects empty_pipe = [7, 8, 9] \<and>
   pipe_select_cond_broadcast empty_pipe = emit empty_pipe [Wake_select 7, Wake_select 8]"
proof -
  have h: "pending_selects empty_pipe = [7, 8, 9]" by (simp add: empty_pipe_def)
  then show ?thesis using pipe_select_broadcast_misses_last [of empty_pipe] by simp
qed

end
