(* ===== verification/Bpf.thy ===== *)
theory Bpf
  imports Hurd_Prelude
begin

text \<open>
  The packet filter of \<^verbatim>\<open>libbpf/bpf_impl.c\<close>: the interpreter \<open>bpf_do_filter\<close>, the check
  of programs \<open>bpf_validate\<close>, the comparison of programs and the hash table of a filter
  with a match instruction. A program is a list of instructions whose first element is
  the header word of the filter. The interpreter is a step function on the registers
  and an iteration with fuel; \<open>Fault\<close> is an access outside an array, a division by zero or
  a shift by the width of the register or more, all undefined in C. Pointers are 64 bit
  wide, \<^verbatim>\<open>int\<close> and \<^verbatim>\<open>char\<close> are 32 and 8 bit wide and signed, \<^verbatim>\<open>NET_RCV_MAX\<close> is 4095.
\<close>

section \<open>Instructions\<close>

record bpf_insn =
  code :: u16
  jt :: u8
  jf :: u8
  kval :: u32

abbreviation (input) BPF_LD :: u16 where "BPF_LD \<equiv> 0x00"
abbreviation (input) BPF_LDX :: u16 where "BPF_LDX \<equiv> 0x01"
abbreviation (input) BPF_ST :: u16 where "BPF_ST \<equiv> 0x02"
abbreviation (input) BPF_STX :: u16 where "BPF_STX \<equiv> 0x03"
abbreviation (input) BPF_ALU :: u16 where "BPF_ALU \<equiv> 0x04"
abbreviation (input) BPF_JMP :: u16 where "BPF_JMP \<equiv> 0x05"
abbreviation (input) BPF_RET :: u16 where "BPF_RET \<equiv> 0x06"
abbreviation (input) BPF_MISC :: u16 where "BPF_MISC \<equiv> 0x07"
abbreviation (input) BPF_W :: u16 where "BPF_W \<equiv> 0x00"
abbreviation (input) BPF_H :: u16 where "BPF_H \<equiv> 0x08"
abbreviation (input) BPF_B :: u16 where "BPF_B \<equiv> 0x10"
abbreviation (input) BPF_IMM :: u16 where "BPF_IMM \<equiv> 0x00"
abbreviation (input) BPF_ABS :: u16 where "BPF_ABS \<equiv> 0x20"
abbreviation (input) BPF_IND :: u16 where "BPF_IND \<equiv> 0x40"
abbreviation (input) BPF_MEM :: u16 where "BPF_MEM \<equiv> 0x60"
abbreviation (input) BPF_LEN :: u16 where "BPF_LEN \<equiv> 0x80"
abbreviation (input) BPF_MSH :: u16 where "BPF_MSH \<equiv> 0xa0"
abbreviation (input) BPF_ADD :: u16 where "BPF_ADD \<equiv> 0x00"
abbreviation (input) BPF_SUB :: u16 where "BPF_SUB \<equiv> 0x10"
abbreviation (input) BPF_MUL :: u16 where "BPF_MUL \<equiv> 0x20"
abbreviation (input) BPF_DIV :: u16 where "BPF_DIV \<equiv> 0x30"
abbreviation (input) BPF_OR :: u16 where "BPF_OR \<equiv> 0x40"
abbreviation (input) BPF_AND :: u16 where "BPF_AND \<equiv> 0x50"
abbreviation (input) BPF_LSH :: u16 where "BPF_LSH \<equiv> 0x60"
abbreviation (input) BPF_RSH :: u16 where "BPF_RSH \<equiv> 0x70"
abbreviation (input) BPF_NEG :: u16 where "BPF_NEG \<equiv> 0x80"
abbreviation (input) BPF_JA :: u16 where "BPF_JA \<equiv> 0x00"
abbreviation (input) BPF_JEQ :: u16 where "BPF_JEQ \<equiv> 0x10"
abbreviation (input) BPF_JGT :: u16 where "BPF_JGT \<equiv> 0x20"
abbreviation (input) BPF_JGE :: u16 where "BPF_JGE \<equiv> 0x30"
abbreviation (input) BPF_JSET :: u16 where "BPF_JSET \<equiv> 0x40"
abbreviation (input) BPF_K :: u16 where "BPF_K \<equiv> 0x00"
abbreviation (input) BPF_X :: u16 where "BPF_X \<equiv> 0x08"
abbreviation (input) BPF_A :: u16 where "BPF_A \<equiv> 0x10"
abbreviation (input) BPF_MATCH_IMM :: u16 where "BPF_MATCH_IMM \<equiv> 0x18"
abbreviation (input) BPF_TAX :: u16 where "BPF_TAX \<equiv> 0x00"
abbreviation (input) BPF_TXA :: u16 where "BPF_TXA \<equiv> 0x80"
abbreviation (input) BPF_KEY :: u16 where "BPF_KEY \<equiv> 0x10"

definition BPF_CLASS :: "u16 \<Rightarrow> u16" where
  "BPF_CLASS c = c AND 0x07"

definition BPF_OP :: "u16 \<Rightarrow> u16" where
  "BPF_OP c = c AND 0xf0"

definition BPF_MEMWORDS :: nat where
  "BPF_MEMWORDS = 16"

definition NET_RCV_MAX :: nat where
  "NET_RCV_MAX = 4095"

definition NET_HASH_SIZE :: nat where
  "NET_HASH_SIZE = 256"

definition N_NET_HASH_KEYS :: nat where
  "N_NET_HASH_KEYS = 4"

text \<open>The cases of the switch of \<open>bpf_do_filter\<close>; a code that is in no case has none.\<close>

datatype bpf_size = Word | Half | Byte
datatype bpf_operand = Const | Index
datatype bpf_cmp = Gt | Ge | Eq | Set
datatype bpf_arith = Add | Sub | Mul | Div | And | Or | Lsh | Rsh

datatype bpf_op =
    Ret_k | Ret_a | Ret_match
  | Ld_abs bpf_size | Ld_ind bpf_size | Ld_len | Ldx_len | Ldx_msh
  | Ld_imm | Ldx_imm | Ld_mem | Ldx_mem | St | Stx
  | Ja | Jump bpf_cmp bpf_operand | Alu bpf_arith bpf_operand | Neg | Tax | Txa

definition opcodes :: "(u16 \<times> bpf_op) list" where
  "opcodes =
    [(BPF_RET OR BPF_K, Ret_k), (BPF_RET OR BPF_A, Ret_a), (BPF_RET OR BPF_MATCH_IMM, Ret_match),
     (BPF_LD OR BPF_W OR BPF_ABS, Ld_abs Word), (BPF_LD OR BPF_H OR BPF_ABS, Ld_abs Half),
     (BPF_LD OR BPF_B OR BPF_ABS, Ld_abs Byte),
     (BPF_LD OR BPF_W OR BPF_LEN, Ld_len), (BPF_LDX OR BPF_W OR BPF_LEN, Ldx_len),
     (BPF_LD OR BPF_W OR BPF_IND, Ld_ind Word), (BPF_LD OR BPF_H OR BPF_IND, Ld_ind Half),
     (BPF_LD OR BPF_B OR BPF_IND, Ld_ind Byte),
     (BPF_LDX OR BPF_MSH OR BPF_B, Ldx_msh),
     (BPF_LD OR BPF_IMM, Ld_imm), (BPF_LDX OR BPF_IMM, Ldx_imm),
     (BPF_LD OR BPF_MEM, Ld_mem), (BPF_LDX OR BPF_MEM, Ldx_mem), (BPF_ST, St), (BPF_STX, Stx),
     (BPF_JMP OR BPF_JA, Ja),
     (BPF_JMP OR BPF_JGT OR BPF_K, Jump Gt Const), (BPF_JMP OR BPF_JGE OR BPF_K, Jump Ge Const),
     (BPF_JMP OR BPF_JEQ OR BPF_K, Jump Eq Const), (BPF_JMP OR BPF_JSET OR BPF_K, Jump Set Const),
     (BPF_JMP OR BPF_JGT OR BPF_X, Jump Gt Index), (BPF_JMP OR BPF_JGE OR BPF_X, Jump Ge Index),
     (BPF_JMP OR BPF_JEQ OR BPF_X, Jump Eq Index), (BPF_JMP OR BPF_JSET OR BPF_X, Jump Set Index),
     (BPF_ALU OR BPF_ADD OR BPF_X, Alu Add Index), (BPF_ALU OR BPF_SUB OR BPF_X, Alu Sub Index),
     (BPF_ALU OR BPF_MUL OR BPF_X, Alu Mul Index), (BPF_ALU OR BPF_DIV OR BPF_X, Alu Div Index),
     (BPF_ALU OR BPF_AND OR BPF_X, Alu And Index), (BPF_ALU OR BPF_OR OR BPF_X, Alu Or Index),
     (BPF_ALU OR BPF_LSH OR BPF_X, Alu Lsh Index), (BPF_ALU OR BPF_RSH OR BPF_X, Alu Rsh Index),
     (BPF_ALU OR BPF_ADD OR BPF_K, Alu Add Const), (BPF_ALU OR BPF_SUB OR BPF_K, Alu Sub Const),
     (BPF_ALU OR BPF_MUL OR BPF_K, Alu Mul Const), (BPF_ALU OR BPF_DIV OR BPF_K, Alu Div Const),
     (BPF_ALU OR BPF_AND OR BPF_K, Alu And Const), (BPF_ALU OR BPF_OR OR BPF_K, Alu Or Const),
     (BPF_ALU OR BPF_LSH OR BPF_K, Alu Lsh Const), (BPF_ALU OR BPF_RSH OR BPF_K, Alu Rsh Const),
     (BPF_ALU OR BPF_NEG, Neg), (BPF_MISC OR BPF_TAX, Tax), (BPF_MISC OR BPF_TXA, Txa)]"

definition bpf_opcode :: "u16 \<Rightarrow> bpf_op option" where
  "bpf_opcode c = map_of opcodes c"

section \<open>Filters and hash tables\<close>

record net_rcv_port =
  rcv_port :: mach_port
  rcv_count :: int
  priority :: int
  filter_prog :: "bpf_insn list"

record net_hash_entry =
  he_id :: nat
  he_port :: mach_port
  he_keys :: "u32 list"

text \<open>The ring of entries with the same hash value is a list, empty for a null pointer.\<close>

record net_hash_header =
  hdr_rcv :: net_rcv_port
  n_keys :: nat
  ref_count :: int
  hash_table :: "net_hash_entry list list"

fun hash_loop :: "nat \<Rightarrow> u32 list \<Rightarrow> u32 \<Rightarrow> u32" where
  "hash_loop 0 keys hval = hval"
| "hash_loop (Suc n) keys hval = hash_loop n (tl keys) (hval + hd keys)"

definition bpf_hash :: "nat \<Rightarrow> u32 list \<Rightarrow> nat" where
  "bpf_hash n keys = unat (hash_loop n keys 0) mod NET_HASH_SIZE"

text \<open>The index at which the keys differ, or \<open>n\<close>.\<close>

function first_diff :: "nat \<Rightarrow> nat \<Rightarrow> u32 list \<Rightarrow> u32 list \<Rightarrow> nat" where
  "first_diff i n keys es =
     (if i < n then if keys ! i \<noteq> es ! i then i else first_diff (i + 1) n keys es else i)"
  by pat_completeness auto
termination
  by (relation "measure (\<lambda>(i, n, keys, es). n - i)") auto

declare first_diff.simps [simp del]

fun match_loop :: "nat \<Rightarrow> u32 list \<Rightarrow> net_hash_entry list \<Rightarrow> net_hash_entry option" where
  "match_loop n keys [] = None"
| "match_loop n keys (e # es) =
     (if first_diff 0 n keys (he_keys e) = n then Some e else match_loop n keys es)"

text \<open>\<open>bpf_match\<close> returns the slot of the table and the entry; the Boolean result is whether there is an entry.\<close>

definition bpf_match :: "net_hash_header \<Rightarrow> nat \<Rightarrow> u32 list \<Rightarrow> nat option \<times> net_hash_entry option" where
  "bpf_match h n keys =
     (if n \<noteq> n_keys h then (None, None)
      else let slot = bpf_hash n keys in (Some slot, match_loop n keys (hash_table h ! slot)))"

section \<open>The interpreter\<close>

record bpf_state =
  pc :: int
  acc :: u32
  idx :: u32
  scratch :: "u32 list"

datatype bpf_fault = Bad_pc | Bad_mem | Bad_data | Bad_shift | Div_zero | Bad_hash

datatype bpf_result =
    Next bpf_state
  | Ret u32 "nat option" "net_hash_entry option"
  | Fault bpf_fault

definition next_insn :: "bpf_state \<Rightarrow> bpf_result" where
  "next_insn s = Next (s\<lparr>pc := pc s + 1\<rparr>)"

definition jump_by :: "bpf_state \<Rightarrow> int \<Rightarrow> bpf_result" where
  "jump_by s off = Next (s\<lparr>pc := pc s + off + 1\<rparr>)"

definition read_at :: "u8 list \<Rightarrow> int \<Rightarrow> nat \<Rightarrow> u8 list option" where
  "read_at b i n = (if 0 \<le> i \<and> nat i + n \<le> length b then Some (take n (drop (nat i) b)) else None)"

definition big_endian :: "u8 list \<Rightarrow> u32" where
  "big_endian bs = foldl (\<lambda>a b. push_bit 8 a OR ucast b) 0 bs"

definition size_of :: "bpf_size \<Rightarrow> nat" where
  "size_of sz = (case sz of Word \<Rightarrow> 4 | Half \<Rightarrow> 2 | Byte \<Rightarrow> 1)"

text \<open>
  The bytes at the offset \<open>k\<close>: those of the header if they are all there, otherwise those of
  the packet. \<open>Some None\<close> is a rejected packet, \<open>None\<close> an access outside the buffers.
\<close>

definition fetch :: "u8 list \<Rightarrow> u8 list \<Rightarrow> u32 \<Rightarrow> nat \<Rightarrow> u8 list option option" where
  "fetch header p k n =
     (if unat k + n \<le> length header then map_option Some (read_at header (int (unat k)) n)
      else if unat k + n \<le> NET_RCV_MAX
      then map_option Some (read_at p (int (unat k) - int (length header)) n)
      else Some None)"

text \<open>A byte is loaded through a pointer to (signed) \<^verbatim>\<open>char\<close>.\<close>

definition bpf_load :: "u8 list \<Rightarrow> u8 list \<Rightarrow> bpf_size \<Rightarrow> u32 \<Rightarrow> bpf_state \<Rightarrow> bpf_result" where
  "bpf_load header p sz k s =
     (case fetch header p k (size_of sz) of
        None \<Rightarrow> Fault Bad_data
      | Some None \<Rightarrow> Ret 0 None None
      | Some (Some bs) \<Rightarrow>
          next_insn (s\<lparr>acc := (case sz of Byte \<Rightarrow> scast (hd bs) | _ \<Rightarrow> big_endian bs)\<rparr>))"

definition bpf_msh :: "u8 list \<Rightarrow> u8 list \<Rightarrow> u32 \<Rightarrow> bpf_state \<Rightarrow> bpf_result" where
  "bpf_msh header p k s =
     (case fetch header p k 1 of
        None \<Rightarrow> Fault Bad_data
      | Some None \<Rightarrow> Ret 0 None None
      | Some (Some bs) \<Rightarrow> next_insn (s\<lparr>idx := push_bit 2 (ucast (hd bs) AND 0xf)\<rparr>))"

definition mem_index :: "u32 \<Rightarrow> bool" where
  "mem_index k \<longleftrightarrow> 0 \<le> sint k \<and> sint k < int BPF_MEMWORDS"

definition bpf_test :: "bpf_cmp \<Rightarrow> u32 \<Rightarrow> u32 \<Rightarrow> bool" where
  "bpf_test c a b =
     (case c of Gt \<Rightarrow> a > b | Ge \<Rightarrow> a \<ge> b | Eq \<Rightarrow> a = b | Set \<Rightarrow> a AND b \<noteq> 0)"

definition bpf_alu :: "bpf_arith \<Rightarrow> u32 \<Rightarrow> bpf_state \<Rightarrow> bpf_result" where
  "bpf_alu ar b s =
     (let a = acc s in
      case ar of
        Add \<Rightarrow> next_insn (s\<lparr>acc := a + b\<rparr>)
      | Sub \<Rightarrow> next_insn (s\<lparr>acc := a - b\<rparr>)
      | Mul \<Rightarrow> next_insn (s\<lparr>acc := a * b\<rparr>)
      | Div \<Rightarrow> if b = 0 then Fault Div_zero else next_insn (s\<lparr>acc := a div b\<rparr>)
      | And \<Rightarrow> next_insn (s\<lparr>acc := a AND b\<rparr>)
      | Or \<Rightarrow> next_insn (s\<lparr>acc := a OR b\<rparr>)
      | Lsh \<Rightarrow> if unat b < 32 then next_insn (s\<lparr>acc := push_bit (unat b) a\<rparr>) else Fault Bad_shift
      | Rsh \<Rightarrow> if unat b < 32 then next_insn (s\<lparr>acc := drop_bit (unat b) a\<rparr>) else Fault Bad_shift)"

definition bpf_return :: "mach_port \<Rightarrow> u32 \<Rightarrow> u32 \<Rightarrow> bpf_result" where
  "bpf_return port wirelen v =
     (if port = 0 then Ret 0 None None else Ret (if v \<le> wirelen then v else wirelen) None None)"

text \<open>
  \<open>hash\<close> is the hash header that \<open>infp\<close> is the beginning of, if it is one. The scratch
  memory is not initialised, its first contents are an argument.
\<close>

definition bpf_exec ::
  "net_rcv_port \<Rightarrow> net_hash_header option \<Rightarrow> u8 list \<Rightarrow> u32 \<Rightarrow> u8 list \<Rightarrow> bpf_insn \<Rightarrow> bpf_op \<Rightarrow> bpf_state \<Rightarrow> bpf_result"
where
  "bpf_exec infp hash p wirelen header i c s =
     (let k = kval i;
          operand = (\<lambda>src. case src of Const \<Rightarrow> k | Index \<Rightarrow> idx s)
      in case c of
        Ret_k \<Rightarrow> bpf_return (rcv_port infp) wirelen k
      | Ret_a \<Rightarrow> bpf_return (rcv_port infp) wirelen (acc s)
      | Ret_match \<Rightarrow>
          (case hash of
             None \<Rightarrow> Fault Bad_hash
           | Some h \<Rightarrow>
               let (slot, e) = bpf_match h (unat (jt i)) (scratch s)
               in if e \<noteq> None then Ret (if k \<le> wirelen then k else wirelen) slot e else Ret 0 slot None)
      | Ld_abs sz \<Rightarrow> bpf_load header p sz k s
      | Ld_ind sz \<Rightarrow> bpf_load header p sz (idx s + k) s
      | Ld_len \<Rightarrow> next_insn (s\<lparr>acc := wirelen\<rparr>)
      | Ldx_len \<Rightarrow> next_insn (s\<lparr>idx := wirelen\<rparr>)
      | Ldx_msh \<Rightarrow> bpf_msh header p k s
      | Ld_imm \<Rightarrow> next_insn (s\<lparr>acc := k\<rparr>)
      | Ldx_imm \<Rightarrow> next_insn (s\<lparr>idx := k\<rparr>)
      | Ld_mem \<Rightarrow> if mem_index k then next_insn (s\<lparr>acc := scratch s ! unat k\<rparr>) else Fault Bad_mem
      | Ldx_mem \<Rightarrow> if mem_index k then next_insn (s\<lparr>idx := scratch s ! unat k\<rparr>) else Fault Bad_mem
      | St \<Rightarrow> if mem_index k then next_insn (s\<lparr>scratch := (scratch s)[unat k := acc s]\<rparr>) else Fault Bad_mem
      | Stx \<Rightarrow> if mem_index k then next_insn (s\<lparr>scratch := (scratch s)[unat k := idx s]\<rparr>) else Fault Bad_mem
      | Ja \<Rightarrow> jump_by s (sint k)
      | Jump cmp src \<Rightarrow> jump_by s (int (unat (if bpf_test cmp (acc s) (operand src) then jt i else jf i)))
      | Alu ar src \<Rightarrow>
          if ar = Div \<and> src = Index \<and> idx s = 0 then Ret 0 None None else bpf_alu ar (operand src) s
      | Neg \<Rightarrow> next_insn (s\<lparr>acc := - acc s\<rparr>)
      | Tax \<Rightarrow> next_insn (s\<lparr>idx := acc s\<rparr>)
      | Txa \<Rightarrow> next_insn (s\<lparr>acc := idx s\<rparr>))"

definition bpf_step ::
  "net_rcv_port \<Rightarrow> net_hash_header option \<Rightarrow> u8 list \<Rightarrow> u32 \<Rightarrow> u8 list \<Rightarrow> bpf_state \<Rightarrow> bpf_result" where
  "bpf_step infp hash p wirelen header s =
     (let prog = filter_prog infp in
      if pc s \<ge> int (length prog) then Ret 0 None None
      else if pc s < 0 then Fault Bad_pc
      else let i = prog ! nat (pc s) in
        case bpf_opcode (code i) of
          None \<Rightarrow> Ret 0 None None
        | Some c \<Rightarrow> bpf_exec infp hash p wirelen header i c s)"

text \<open>The loop, for at most \<open>n\<close> instructions; \<open>None\<close> when it has not ended by then.\<close>

fun bpf_run ::
  "nat \<Rightarrow> net_rcv_port \<Rightarrow> net_hash_header option \<Rightarrow> u8 list \<Rightarrow> u32 \<Rightarrow> u8 list \<Rightarrow> bpf_state \<Rightarrow> bpf_result option"
where
  "bpf_run 0 infp hash p wirelen header s = None"
| "bpf_run (Suc n) infp hash p wirelen header s =
     (case bpf_step infp hash p wirelen header s of
        Next s' \<Rightarrow> bpf_run n infp hash p wirelen header s'
      | r \<Rightarrow> Some r)"

definition bpf_do_filter ::
  "nat \<Rightarrow> net_rcv_port \<Rightarrow> net_hash_header option \<Rightarrow> u8 list \<Rightarrow> u32 \<Rightarrow> u8 list \<Rightarrow> u32 list \<Rightarrow> bpf_result option" where
  "bpf_do_filter fuel infp hash p wirelen header mem0 =
     bpf_run fuel infp hash p wirelen header \<lparr>pc = 1, acc = 0, idx = 0, scratch = mem0\<rparr>"

section \<open>The check of programs\<close>

text \<open>\<^verbatim>\<open>from + p->k\<close> is a 32 bit sum; its signed value is compared with the length.\<close>

definition bad_jump :: "bpf_insn \<Rightarrow> nat \<Rightarrow> nat \<Rightarrow> bool" where
  "bad_jump p i len \<longleftrightarrow>
     BPF_CLASS (code p) = BPF_JMP \<and>
     (let from = i + 1 in
      if BPF_OP (code p) = BPF_JA then sint (of_nat from + kval p) \<ge> int len
      else from + unat (jt p) \<ge> len \<or> from + unat (jf p) \<ge> len)"

definition bad_mem :: "bpf_insn \<Rightarrow> bool" where
  "bad_mem p \<longleftrightarrow>
     (BPF_CLASS (code p) = BPF_ST \<or> BPF_CLASS (code p) = BPF_LD \<and> code p AND 0xe0 = BPF_MEM) \<and>
     (sint (kval p) \<ge> int BPF_MEMWORDS \<or> sint (kval p) < 0)"

definition bad_div :: "bpf_insn \<Rightarrow> bool" where
  "bad_div p \<longleftrightarrow> code p = BPF_ALU OR BPF_DIV OR BPF_K \<and> kval p = 0"

text \<open>The loop returns \<open>None\<close> for an invalid program, otherwise the index of the match instruction, if there is one.\<close>

function validate_loop :: "bpf_insn list \<Rightarrow> nat \<Rightarrow> nat option \<Rightarrow> nat option option" where
  "validate_loop f i m =
     (if i < length f then
        let p = f ! i in
        if bad_jump p i (length f) \<or> bad_mem p \<or> bad_div p then None
        else if code p = BPF_RET OR BPF_MATCH_IMM then
          if m \<noteq> None \<or> jt p = 0 \<or> unat (jt p) > N_NET_HASH_KEYS then None
          else if i + unat (jt p) + 1 > length f then None
          else if list_ex (\<lambda>j. code (f ! (i + j)) \<noteq> BPF_MISC OR BPF_KEY) [1 ..< unat (jt p) + 1] then None
          else validate_loop f (i + unat (jt p) + 1) (Some i)
        else validate_loop f (i + 1) m
      else Some m)"
  by pat_completeness auto
termination
  by (relation "measure (\<lambda>(f, i, m). length f - i)") auto

declare validate_loop.simps [simp del]

text \<open>
  The result is 0, 1 or 2 and the match instruction. The last instruction of an empty
  program is outside the array.
\<close>

definition bpf_validate :: "bpf_insn list \<Rightarrow> nat option \<Rightarrow> (nat \<times> nat option) option" where
  "bpf_validate f m =
     (case validate_loop f 1 m of
        None \<Rightarrow> Some (0, m)
      | Some m' \<Rightarrow>
          if f = [] then None
          else if BPF_CLASS (code (f ! (length f - 1))) = BPF_RET then Some (if m' = None then 1 else 2, m')
          else Some (0, m'))"

definition insn_eq :: "bpf_insn \<Rightarrow> bpf_insn \<Rightarrow> bool" where
  "insn_eq p q \<longleftrightarrow> code p = code q \<and> jt p = jt q \<and> jf p = jf q \<and> kval p = kval q"

fun bpf_eq :: "nat \<Rightarrow> bpf_insn list \<Rightarrow> bpf_insn list \<Rightarrow> bool" where
  "bpf_eq 0 f1 f2 \<longleftrightarrow> True"
| "bpf_eq (Suc count) f1 f2 \<longleftrightarrow>
     (if \<not> insn_eq (hd f1) (hd f2) then
        if code (hd f1) = BPF_MISC OR BPF_KEY \<and> code (hd f2) = BPF_MISC OR BPF_KEY
        then bpf_eq count (tl f1) (tl f2) else False
      else bpf_eq count (tl f1) (tl f2))"

end
