(* ===== verification/Bpf_Filter.thy ===== *)
theory Bpf_Filter
  imports Bpf "HOL-Library.Monad_Syntax"
begin

text \<open>
  The filters of an interface (\<^verbatim>\<open>net_set_filter\<close>, \<^verbatim>\<open>hash_ent_remove\<close>,
  \<^verbatim>\<open>remove_dead_filter\<close> of \<^verbatim>\<open>libbpf/bpf_impl.c\<close>). A filter is either a plain one, allocated
  for one port, or one of the four static hash headers, which serve all ports whose
  programs differ in the keys of the match instruction only; a hash header on a list has
  no port (0). The two lists of an interface are lists of filters, the rings of a hash
  table are lists of entries with their addresses. While the code walks a list or a ring
  it takes nothing out of it but the current element, so that it visits the elements
  there were at the start. \<open>None\<close> is a null pointer dereference, a plain filter
  taken for a hash header, or a write behind an array.
\<close>

section \<open>State\<close>

datatype infp = Dummy nat | Plain nat

datatype io_return = D_SUCCESS | D_INVALID_OPERATION | D_NO_MEMORY

definition N_NET_HASH :: nat where
  "N_NET_HASH = 4"

abbreviation (input) NETF_IN :: u16 where "NETF_IN \<equiv> 1"
abbreviation (input) NETF_OUT :: u16 where "NETF_OUT \<equiv> 2"
abbreviation (input) NETF_TYPE_MASK :: u16 where "NETF_TYPE_MASK \<equiv> 0xfc00"
abbreviation (input) NETF_BPF :: u16 where "NETF_BPF \<equiv> 0x400"

text \<open>\<open>dead\<close> collects the ports whose rights are deallocated, not in their order.\<close>

record filters =
  headers :: "net_hash_header list"
  plains :: "nat \<Rightarrow> net_rcv_port"
  rcv_list :: "infp list"
  snd_list :: "infp list"
  dead :: "mach_port list"

definition infp_data :: "filters \<Rightarrow> infp \<Rightarrow> net_rcv_port" where
  "infp_data st x = (case x of Dummy i \<Rightarrow> hdr_rcv (headers st ! i) | Plain a \<Rightarrow> plains st a)"

definition filter_flags :: "net_rcv_port \<Rightarrow> u16" where
  "filter_flags d = code (hd (filter_prog d))"

text \<open>Taking a filter off the lists its flags say it is on.\<close>

definition queue_remove :: "filters \<Rightarrow> infp \<Rightarrow> filters" where
  "queue_remove st x =
     (let fl = filter_flags (infp_data st x);
          st1 = (if fl AND NETF_IN \<noteq> 0 then st\<lparr>rcv_list := remove1 x (rcv_list st)\<rparr> else st)
      in if fl AND NETF_OUT \<noteq> 0 then st1\<lparr>snd_list := remove1 x (snd_list st1)\<rparr> else st1)"

definition set_header :: "filters \<Rightarrow> nat \<Rightarrow> net_hash_header \<Rightarrow> filters" where
  "set_header st i h = st\<lparr>headers := (headers st)[i := h]\<rparr>"

section \<open>Removing\<close>

text \<open>Removes an entry from a ring. The result tells whether the filter has been taken off the lists.\<close>

definition hash_ent_remove :: "filters \<Rightarrow> nat \<Rightarrow> bool \<Rightarrow> nat \<Rightarrow> net_hash_entry \<Rightarrow> bool \<times> filters" where
  "hash_ent_remove st i used slot e =
     (let h = headers st ! i;
          ring = hash_table h ! slot;
          h1 = h\<lparr>ref_count := ref_count h - 1,
                 hash_table := (hash_table h)[slot := remove1 e ring]\<rparr>;
          st1 = (set_header st i h1)\<lparr>dead := dead st @ [he_port e]\<rparr>
      in if e = hd ring \<and> length ring = 1 \<and> ref_count h1 = 0 \<and> \<not> used
         then (True, set_header (queue_remove st1 (Dummy i)) i (h1\<lparr>n_keys := 0\<rparr>))
         else (False, st1))"

text \<open>
  The \<^verbatim>\<open>do\<close> loop over a ring: the current entry and the entries after it. It stops when the
  ring is empty or the next entry is its head, which it also is after the head has been
  removed.
\<close>

fun ring_loop ::
  "mach_port \<Rightarrow> nat \<Rightarrow> bool \<Rightarrow> nat \<Rightarrow> net_hash_entry list \<Rightarrow> filters \<Rightarrow> bool \<times> filters" where
  "ring_loop port i used slot [] st = (False, st)"
| "ring_loop port i used slot (e # es) st =
     (let (ret, st1) = (if he_port e = port then hash_ent_remove st i used slot e else (False, st));
          ring = hash_table (headers st1 ! i) ! slot
      in if ret then (True, st1)
         else if ring = [] \<or> es = [] \<or> hd es = hd ring then (False, st1)
         else ring_loop port i used slot es st1)"

fun slots_loop :: "mach_port \<Rightarrow> nat \<Rightarrow> bool \<Rightarrow> nat list \<Rightarrow> filters \<Rightarrow> filters" where
  "slots_loop port i used [] st = st"
| "slots_loop port i used (slot # slots) st =
     (let (ret, st1) = ring_loop port i used slot (hash_table (headers st ! i) ! slot) st
      in if ret then st1 else slots_loop port i used slots st1)"

text \<open>Taking a plain filter off its lists; its right is deallocated when the call returns.\<close>

definition drop_plain :: "filters \<Rightarrow> infp \<Rightarrow> filters" where
  "drop_plain st x = (queue_remove st x)\<lparr>dead := dead st @ [rcv_port (infp_data st x)]\<rparr>"

fun dead_loop :: "mach_port \<Rightarrow> infp list \<Rightarrow> filters \<Rightarrow> filters option" where
  "dead_loop port [] st = Some st"
| "dead_loop port (x # xs) st =
     do {
       st1 \<leftarrow> (if rcv_port (infp_data st x) = 0 then
                 (case x of Plain a \<Rightarrow> None | Dummy i \<Rightarrow> Some (slots_loop port i False [0 ..< NET_HASH_SIZE] st))
               else if rcv_port (infp_data st x) = port then Some (drop_plain st x)
               else Some st);
       dead_loop port xs st1
     }"

text \<open>\<open>inp\<close> says which of the two lists is meant.\<close>

definition remove_dead_filter :: "filters \<Rightarrow> bool \<Rightarrow> mach_port \<Rightarrow> filters option" where
  "remove_dead_filter st inp dead_port = dead_loop dead_port (if inp then rcv_list st else snd_list st) st"

section \<open>Setting a filter\<close>

text \<open>The loop of \<open>check_filter_list\<close>, with the filter found for the new one, if any.\<close>

fun check_loop ::
  "bpf_insn list \<Rightarrow> nat option \<Rightarrow> int \<Rightarrow> mach_port \<Rightarrow> infp list \<Rightarrow> infp option \<Rightarrow> filters \<Rightarrow> (infp option \<times> filters) option"
where
  "check_loop f match prio port [] my st = Some (my, st)"
| "check_loop f match prio port (x # xs) my st =
     (let d = infp_data st x in
      if rcv_port d = 0 then
        (case x of
           Plain a \<Rightarrow> None
         | Dummy i \<Rightarrow>
             let my1 = (if match \<noteq> None \<and> priority d = prio \<and> my = None \<and>
                           length (filter_prog d) = length f \<and> bpf_eq (length f) (filter_prog d) f
                        then Some x else my)
             in check_loop f match prio port xs my1
                  (slots_loop port i (my1 = Some x) [0 ..< NET_HASH_SIZE] st))
      else check_loop f match prio port xs my (if rcv_port d = port then drop_plain st x else st))"

definition check_filter_list ::
  "bpf_insn list \<Rightarrow> nat option \<Rightarrow> int \<Rightarrow> mach_port \<Rightarrow> bool \<Rightarrow> infp option \<times> filters \<Rightarrow> (infp option \<times> filters) option" where
  "check_filter_list f match prio port inp = (\<lambda>(my, st).
     check_loop f match prio port (if inp then rcv_list st else snd_list st) my st)"

fun free_header :: "net_hash_header list \<Rightarrow> nat \<Rightarrow> nat option" where
  "free_header [] i = None"
| "free_header (h # hs) i = (if n_keys h = 0 then Some i else free_header hs (i + 1))"

text \<open>A new filter, whether plain or a hash header: its program and its place in the lists.\<close>

definition set_data :: "filters \<Rightarrow> infp \<Rightarrow> net_rcv_port \<Rightarrow> filters" where
  "set_data st x d =
     (case x of
        Dummy i \<Rightarrow> set_header st i ((headers st ! i)\<lparr>hdr_rcv := d\<rparr>)
      | Plain a \<Rightarrow> st\<lparr>plains := (plains st)(a := d)\<rparr>)"

text \<open>The array \<open>filter\<close> has \<^verbatim>\<open>NET_MAX_FILTER\<close> words of 16 bits, room for 32 instructions; the code copies into it without a check.\<close>

definition NET_MAX_BPF :: nat where
  "NET_MAX_BPF = 128 * 2 div 8"

definition enter_filter :: "bpf_insn list \<Rightarrow> infp \<Rightarrow> filters \<Rightarrow> filters" where
  "enter_filter f x st =
     (let st1 = (if code (hd f) AND NETF_IN \<noteq> 0 then st\<lparr>rcv_list := rcv_list st @ [x]\<rparr> else st)
      in if code (hd f) AND NETF_OUT \<noteq> 0 then st1\<lparr>snd_list := snd_list st1 @ [x]\<rparr> else st1)"

definition install :: "bpf_insn list \<Rightarrow> int \<Rightarrow> infp \<Rightarrow> filters \<Rightarrow> filters option" where
  "install f prio x st =
     (if length f > NET_MAX_BPF then None
      else Some (enter_filter f x (set_data st x ((infp_data st x)\<lparr>priority := prio, rcv_count := 0, filter_prog := f\<rparr>))))"

definition insert_entry :: "bpf_insn list \<Rightarrow> nat \<Rightarrow> mach_port \<Rightarrow> nat \<Rightarrow> nat \<Rightarrow> filters \<Rightarrow> filters" where
  "insert_entry f m port a i st =
     (let n = unat (jt (f ! m));
          ks = map (\<lambda>j. kval (f ! (m + j + 1))) [0 ..< n];
          e = \<lparr>he_id = a, he_port = port, he_keys = ks @ replicate (N_NET_HASH_KEYS - n) 0\<rparr>;
          h = headers st ! i;
          slot = bpf_hash n (he_keys e)
      in set_header st i (h\<lparr>hash_table := (hash_table h)[slot := hash_table h ! slot @ [e]],
                            ref_count := ref_count h + 1\<rparr>))"

text \<open>
  The filter without a match instruction: a new plain filter. With one: the filter that
  was found, or a free hash header. The allocation yields the address of the new
  structure.
\<close>

definition set_plain :: "bpf_insn list \<Rightarrow> int \<Rightarrow> mach_port \<Rightarrow> nat \<Rightarrow> filters \<Rightarrow> filters option" where
  "set_plain f prio port a st =
     install f prio (Plain a)
       (set_data st (Plain a) \<lparr>rcv_port = port, rcv_count = 0, priority = 0, filter_prog = []\<rparr>)"

definition init_header :: "nat \<Rightarrow> nat \<Rightarrow> filters \<Rightarrow> filters" where
  "init_header i n st =
     (let h = headers st ! i
      in set_header st i (h\<lparr>n_keys := n, ref_count := 0, hash_table := replicate NET_HASH_SIZE [],
                            hdr_rcv := (hdr_rcv h)\<lparr>rcv_port := 0\<rparr>\<rparr>))"

definition set_match ::
  "bpf_insn list \<Rightarrow> nat \<Rightarrow> int \<Rightarrow> mach_port \<Rightarrow> u32 option \<Rightarrow> infp option \<times> filters \<Rightarrow> (io_return \<times> filters) option" where
  "set_match f m prio port ent = (\<lambda>(my, st).
     do {
       (x, st1) \<leftarrow>
         (case my of
            Some x \<Rightarrow> Some (Some x, st)
          | None \<Rightarrow>
              (case free_header (headers st) 0 of
                 None \<Rightarrow> Some (None, st)
               | Some i \<Rightarrow> map_option (Pair (Some (Dummy i))) (install f prio (Dummy i) (init_header i (unat (jt (f ! m))) st))));
       (case x of
          None \<Rightarrow> Some (D_NO_MEMORY, st1\<lparr>dead := dead st1 @ [port]\<rparr>)
        | Some (Plain a) \<Rightarrow> None
        | Some (Dummy i) \<Rightarrow>
            (case ent of
               None \<Rightarrow> None
             | Some a \<Rightarrow> Some (D_SUCCESS, insert_entry f m port (unat a) i st1)))
     })"

definition net_set_filter ::
  "filters \<Rightarrow> mach_port \<Rightarrow> int \<Rightarrow> bpf_insn list \<Rightarrow> allocs \<Rightarrow> (io_return \<times> filters) option" where
  "net_set_filter st port prio f orc =
     (if f = [] then Some (D_INVALID_OPERATION, st)
      else if code (hd f) AND NETF_IN = 0 \<and> code (hd f) AND NETF_OUT = 0 then Some (D_INVALID_OPERATION, st)
      else if code (hd f) AND NETF_TYPE_MASK \<noteq> NETF_BPF then Some (D_INVALID_OPERATION, st)
      else
        do {
          (ret, match) \<leftarrow> bpf_validate f None;
          if ret = 0 then Some (D_INVALID_OPERATION, st)
          else
            do {
              let (ent, o1) = alloc orc;
              a \<leftarrow> (if match = None then map_option unat ent else Some 0);
              let my = (if match = None then Some (Plain a) else None);
              (my1, st1) \<leftarrow> (if code (hd f) AND NETF_IN \<noteq> 0
                              then check_filter_list f match prio port True (my, st) else Some (my, st));
              (my2, st2) \<leftarrow> (if code (hd f) AND NETF_OUT \<noteq> 0
                              then check_filter_list f match prio port False (my1, st1) else Some (my1, st1));
              (case match of
                 None \<Rightarrow> map_option (Pair D_SUCCESS) (set_plain f prio port a st2)
               | Some m \<Rightarrow> set_match f m prio port ent (my2, st2))
            }
        })"

end
