(* ===== verification/Bpf_Props.thy ===== *)
theory Bpf_Props
  imports Bpf
begin

text \<open>
  What \<open>bpf_validate\<close> ensures about \<open>bpf_do_filter\<close>: an accepted program runs forward
  through its instructions and ends, as far as the jumps and memory accesses that
  \<open>bpf_validate\<close> does not check are well behaved; and programs that it accepts although
  they run forever or write outside the scratch memory.
\<close>

section \<open>Accepted programs\<close>

definition checked :: "bpf_insn list \<Rightarrow> nat \<Rightarrow> bool" where
  "checked f j \<longleftrightarrow> code (f ! j) = 0x17 \<or>
     \<not> bad_jump (f ! j) j (length f) \<and> \<not> bad_mem (f ! j) \<and> \<not> bad_div (f ! j)"

lemma validate_loop_match: "validate_loop f i m = Some m' \<Longrightarrow> m \<noteq> None \<Longrightarrow> m' \<noteq> None"
proof (induction f i m rule: validate_loop.induct)
  case (1 f i m)
  show ?case using "1.prems" "1.IH" [OF _ refl] by (subst (asm) validate_loop.simps) (auto simp: Let_def split: if_splits)
qed

lemma validate_loop_checked:
  "validate_loop f i m = Some m' \<Longrightarrow> i \<le> j \<Longrightarrow> j < length f \<Longrightarrow>
     checked f j \<and> (code (f ! j) = 0x1e \<longrightarrow> m' \<noteq> None)"
proof (induction f i m rule: validate_loop.induct)
  case (1 f i m)
  let ?p = "f ! i"
  have i: "i < length f" using "1.prems" by simp
  have ok: "\<not> (bad_jump ?p i (length f) \<or> bad_mem ?p \<or> bad_div ?p)"
    using "1.prems"(1) i by (subst (asm) validate_loop.simps) (auto simp: Let_def)
  show ?case
  proof (cases "code ?p = 0x1e")
    case True
    have keys: "\<forall>j \<in> set [1 ..< unat (jt ?p) + 1]. code (f ! (i + j)) = 0x17"
      and rest: "validate_loop f (i + unat (jt ?p) + 1) (Some i) = Some m'"
      using "1.prems"(1) i ok True
      by (subst (asm) validate_loop.simps; auto simp: Let_def list_ex_iff split: if_splits)+
    consider "j = i" | "i < j" "j \<le> i + unat (jt ?p)" | "i + unat (jt ?p) + 1 \<le> j" using "1.prems"(2) by linarith
    then show ?thesis
    proof cases
      case 1
      then show ?thesis using ok validate_loop_match [OF rest] by (simp add: checked_def)
    next
      case 2
      then have "j - i \<in> set [1 ..< unat (jt ?p) + 1]" by auto
      then have "code (f ! (i + (j - i))) = 0x17" using keys by blast
      then show ?thesis using 2 by (simp add: checked_def)
    next
      case 3
      have "jt ?p \<noteq> 0" "\<not> unat (jt ?p) > N_NET_HASH_KEYS" "\<not> i + unat (jt ?p) + 1 > length f" "m = None"
        using "1.prems"(1) i ok True by (subst (asm) validate_loop.simps; auto simp: Let_def split: if_splits)+
      then show ?thesis using "1.IH"(1) [OF i refl ok] True keys rest 3 "1.prems"(3) by (auto simp: list_ex_iff)
    qed
  next
    case False
    then have rest: "validate_loop f (i + 1) m = Some m'"
      using "1.prems"(1) i ok by (subst (asm) validate_loop.simps) (auto simp: Let_def)
    show ?thesis
      using "1.IH"(2) [OF i refl ok] False rest ok "1.prems" by (cases "j = i") (auto simp: checked_def)
  qed
qed

lemma bpf_validate_checked:
  assumes "bpf_validate f None = Some (r, m)" "r \<noteq> 0" "1 \<le> j" "j < length f"
  shows "checked f j" "code (f ! j) = 0x1e \<longrightarrow> r = 2"
proof -
  obtain m' where v: "validate_loop f 1 None = Some m'" "r = (if m' = None then 1 else 2)"
    using assms(1,2) by (auto simp: bpf_validate_def split: option.splits if_splits)
  show "checked f j" "code (f ! j) = 0x1e \<longrightarrow> r = 2"
    using validate_loop_checked [OF v(1) assms(3,4)] v(2) by auto
qed

text \<open>The conditions on jumps and memory accesses that \<open>bpf_validate\<close> omits.\<close>

definition unchecked_ok :: "bpf_insn list \<Rightarrow> bool" where
  "unchecked_ok f \<longleftrightarrow>
     list_all (\<lambda>(i, p).
       (code p = BPF_JMP OR BPF_JA \<longrightarrow> 0 \<le> sint (kval p) \<and> int i + 1 + sint (kval p) < 2 ^ 31) \<and>
       (code p = BPF_STX \<or> code p = BPF_LDX OR BPF_MEM \<longrightarrow> mem_index (kval p)))
     (zip [0 ..< length f] f)"

lemma unchecked_okD:
  assumes "unchecked_ok f" "j < length f"
  shows "code (f ! j) = 5 \<Longrightarrow> 0 \<le> sint (kval (f ! j)) \<and> int j + 1 + sint (kval (f ! j)) < 2 ^ 31"
    "code (f ! j) = 3 \<or> code (f ! j) = 0x61 \<Longrightarrow> mem_index (kval (f ! j))"
proof -
  have "(j, f ! j) \<in> set (zip [0 ..< length f] f)" using assms(2) by (auto simp: set_zip intro!: exI [of _ j])
  then show "code (f ! j) = 5 \<Longrightarrow> 0 \<le> sint (kval (f ! j)) \<and> int j + 1 + sint (kval (f ! j)) < 2 ^ 31"
    "code (f ! j) = 3 \<or> code (f ! j) = 0x61 \<Longrightarrow> mem_index (kval (f ! j))"
    using assms(1) by (auto simp: unchecked_ok_def list_all_iff)
qed

lemma sint_add_no_overflow:
  fixes k :: u32
  assumes "0 \<le> sint k" "int n + sint k < 2 ^ 31"
  shows "sint (of_nat n + k) = int n + sint k"
proof -
  have "k = of_int (sint k)" by simp
  then have "of_nat n + k = of_int (int n + sint k)" by (metis of_int_add of_int_of_nat_eq)
  then have "sint (of_nat n + k) = signed_take_bit 31 (int n + sint k)"
    by (simp only: sint_sbintrunc') simp
  then show ?thesis using assms by (simp add: signed_take_bit_int_eq_self)
qed

section \<open>One step\<close>

lemma bpf_opcode_code:
  "bpf_opcode c = Some Ja \<Longrightarrow> c = 5" "bpf_opcode c = Some Ld_mem \<Longrightarrow> c = 0x60"
  "bpf_opcode c = Some Ldx_mem \<Longrightarrow> c = 0x61" "bpf_opcode c = Some St \<Longrightarrow> c = 2"
  "bpf_opcode c = Some Stx \<Longrightarrow> c = 3" "bpf_opcode c = Some Ret_match \<Longrightarrow> c = 0x1e"
  "bpf_opcode c = Some (Alu Div Const) \<Longrightarrow> c = 0x34"
  by (auto simp: bpf_opcode_def opcodes_def split: if_splits)

lemma bpf_opcode_jump: "bpf_opcode c = Some (Jump x y) \<Longrightarrow> BPF_CLASS c = 5 \<and> BPF_OP c \<noteq> 0 \<and> c \<noteq> 0x17"
  by (auto simp: bpf_opcode_def opcodes_def BPF_CLASS_def BPF_OP_def split: if_splits)

definition step_ok :: "nat \<Rightarrow> u8 list \<Rightarrow> u8 list \<Rightarrow> u32 \<Rightarrow> bpf_state \<Rightarrow> bpf_result \<Rightarrow> bool" where
  "step_ok len header p wirelen s r =
     (case r of
        Next s' \<Rightarrow> pc s < pc s' \<and> pc s' \<le> int len
      | Ret v slot e \<Rightarrow> v \<le> wirelen
      | Fault x \<Rightarrow> x = Bad_shift \<or> x = Bad_data \<and> (header \<noteq> [] \<or> length p < NET_RCV_MAX))"

lemma step_ok_simps [simp]:
  "step_ok len header p wirelen s (Next s') \<longleftrightarrow> pc s < pc s' \<and> pc s' \<le> int len"
  "step_ok len header p wirelen s (Ret v slot e) \<longleftrightarrow> v \<le> wirelen"
  "step_ok len header p wirelen s (Fault x) \<longleftrightarrow>
     x = Bad_shift \<or> x = Bad_data \<and> (header \<noteq> [] \<or> length p < NET_RCV_MAX)"
  by (simp_all add: step_ok_def)

lemma fetch_fault: "fetch header p k n = None \<Longrightarrow> header \<noteq> [] \<or> length p < NET_RCV_MAX"
  by (auto simp: fetch_def read_at_def split: if_splits)

lemma load_ok: "pc s < int len \<Longrightarrow> step_ok len header p wirelen s (bpf_load header p sz k s)"
  using fetch_fault [of header p k]
  by (auto simp: bpf_load_def next_insn_def split: option.splits)

lemma msh_ok: "pc s < int len \<Longrightarrow> step_ok len header p wirelen s (bpf_msh header p k s)"
  using fetch_fault [of header p k]
  by (auto simp: bpf_msh_def next_insn_def split: option.splits)

lemma alu_ok:
  "pc s < int len \<Longrightarrow> \<not> (ar = Div \<and> b = 0) \<Longrightarrow> step_ok len header p wirelen s (bpf_alu ar b s)"
  by (cases ar) (auto simp: bpf_alu_def next_insn_def)

lemma jump_ok:
  assumes "bpf_opcode (code (f ! j)) = Some (Jump c src)" "checked f j" "pc s = int j"
  shows "step_ok (length f) header p wirelen s (jump_by s (int (unat (if t then jt (f ! j) else jf (f ! j)))))"
proof -
  define n where "n = unat (if t then jt (f ! j) else jf (f ! j))"
  have "j + 1 + n < length f"
    using assms(2) bpf_opcode_jump [OF assms(1)] by (auto simp: checked_def bad_jump_def Let_def n_def)
  then show ?thesis using assms(3) unfolding n_def [symmetric] by (simp add: jump_by_def)
qed

lemma ja_ok:
  assumes "bpf_opcode (code (f ! j)) = Some Ja" "checked f j" "unchecked_ok f" "j < length f" "pc s = int j"
  shows "step_ok (length f) header p wirelen s (jump_by s (sint (kval (f ! j))))"
proof -
  have c: "code (f ! j) = 5" using bpf_opcode_code(1) [OF assms(1)] .
  note u = unchecked_okD(1) [OF assms(3,4) c]
  have "sint (of_nat (j + 1) + kval (f ! j)) = int (j + 1) + sint (kval (f ! j))"
    using u by (intro sint_add_no_overflow) simp_all
  moreover have "sint (of_nat (j + 1) + kval (f ! j)) < int (length f)"
    using assms(2) c by (simp add: checked_def bad_jump_def BPF_CLASS_def BPF_OP_def Let_def)
  ultimately show ?thesis using u assms(5) by (simp add: jump_by_def)
qed

lemma mem_ok:
  assumes "bpf_opcode (code (f ! j)) = Some c" "c \<in> {Ld_mem, Ldx_mem, St, Stx}" "checked f j" "unchecked_ok f" "j < length f"
  shows "mem_index (kval (f ! j))"
proof -
  have "code (f ! j) \<in> {0x60, 0x61, 2, 3}" using assms(1,2) bpf_opcode_code(2-5) by auto
  then show ?thesis
    using assms(3) unchecked_okD(2) [OF assms(4,5)]
    by (auto simp: checked_def bad_mem_def mem_index_def BPF_CLASS_def)
qed

lemma step_checked:
  assumes "filter_prog infp = f" "checked f j" "unchecked_ok f" "j < length f" "pc s = int j"
    and "code (f ! j) = 0x1e \<longrightarrow> hash \<noteq> None"
  shows "step_ok (length f) header p wirelen s (bpf_step infp hash p wirelen header s)"
proof (cases "bpf_opcode (code (f ! j))")
  case None
  then show ?thesis using assms by (simp add: bpf_step_def)
next
  case (Some c)
  have lt: "pc s < int (length f)" using assms(4,5) by simp
  have st: "bpf_step infp hash p wirelen header s = bpf_exec infp hash p wirelen header (f ! j) c s"
    using assms Some by (simp add: bpf_step_def)
  have div: "c = Alu Div Const \<Longrightarrow> kval (f ! j) \<noteq> 0"
    using assms(2) bpf_opcode_code(7) [of "code (f ! j)"] Some by (auto simp: checked_def bad_div_def)
  show ?thesis
  proof (cases c)
    case Ret_match
    then obtain h where "hash = Some h" using assms(6) bpf_opcode_code(6) [of "code (f ! j)"] Some by auto
    then show ?thesis unfolding st using Ret_match by (simp add: bpf_exec_def Let_def split: prod.split)
  next
    case Ja
    then show ?thesis using st ja_ok [OF _ assms(2-5)] Some by (simp add: bpf_exec_def)
  next
    case (Jump x y)
    then show ?thesis using st jump_ok [OF _ assms(2,5)] Some by (simp add: bpf_exec_def)
  next
    case (Alu ar src)
    then show ?thesis using st lt alu_ok [of s "length f"] div by (cases src) (auto simp: bpf_exec_def)
  next
    case Ld_mem
    then show ?thesis using st lt mem_ok [OF Some _ assms(2-4)] by (simp add: bpf_exec_def next_insn_def)
  next
    case Ldx_mem
    then show ?thesis using st lt mem_ok [OF Some _ assms(2-4)] by (simp add: bpf_exec_def next_insn_def)
  next
    case St
    then show ?thesis using st lt mem_ok [OF Some _ assms(2-4)] by (simp add: bpf_exec_def next_insn_def)
  next
    case Stx
    then show ?thesis using st lt mem_ok [OF Some _ assms(2-4)] by (simp add: bpf_exec_def next_insn_def)
  qed (use st lt load_ok [of s "length f"] msh_ok [of s "length f"] in
      \<open>simp_all add: bpf_exec_def next_insn_def bpf_return_def Let_def\<close>)
qed

lemma run_checked:
  assumes "filter_prog infp = f" "unchecked_ok f"
    and "\<And>j. 1 \<le> j \<Longrightarrow> j < length f \<Longrightarrow> checked f j \<and> (code (f ! j) = 0x1e \<longrightarrow> hash \<noteq> None)"
  shows "1 \<le> pc s \<Longrightarrow> pc s \<le> int (length f) \<Longrightarrow> int (length f) < pc s + int n \<Longrightarrow>
    \<exists>r s0. bpf_run n infp hash p wirelen header s = Some r \<and> step_ok (length f) header p wirelen s0 r \<and>
      (\<forall>s'. r \<noteq> Next s')"
proof (induction n arbitrary: s)
  case (Suc n)
  let ?r = "bpf_step infp hash p wirelen header s"
  have ok: "step_ok (length f) header p wirelen s ?r"
  proof (cases "pc s = int (length f)")
    case True
    then show ?thesis using assms(1) by (simp add: bpf_step_def)
  next
    case False
    then have j: "pc s = int (nat (pc s))" "1 \<le> nat (pc s)" "nat (pc s) < length f" using Suc.prems by linarith+
    show ?thesis
      using step_checked [OF assms(1) conjunct1 [OF assms(3) [OF j(2,3)]] assms(2) j(3,1) conjunct2 [OF assms(3) [OF j(2,3)]]] .
  qed
  show ?case
  proof (cases ?r)
    case (Next s')
    then show ?thesis using Suc.IH [of s'] Suc.prems ok by simp
  qed (use ok in \<open>auto intro: exI [of _ s]\<close>)
qed simp

section \<open>Properties\<close>

text \<open>
  C18. A program that \<open>bpf_validate\<close> accepts, and whose unconditional jumps and accesses
  with the index register to the scratch memory (which it does not check) are in range,
  ends after at most as many steps as it has instructions. It returns at most the length
  of the packet, and it never jumps outside the program, accesses memory outside
  the scratch memory, divides by zero, or looks up a hash table that does not exist.
  What remains is a shift by 32 or more, and a load that is not wholly inside the header
  or the packet buffer.
\<close>

theorem bpf_validate_sound:
  assumes "bpf_validate f None = Some (r, m)" and "r \<noteq> 0" and "unchecked_ok f"
    and "filter_prog infp = f" and "r = 2 \<longrightarrow> hash \<noteq> None"
  shows "case bpf_do_filter (length f) infp hash p wirelen header scr of
      Some (Ret v slot e) \<Rightarrow> v \<le> wirelen
    | Some (Fault x) \<Rightarrow> x = Bad_shift \<or> x = Bad_data \<and> (header \<noteq> [] \<or> length p < NET_RCV_MAX)
    | _ \<Rightarrow> False"
proof -
  have ne: "f \<noteq> []" using assms(1,2) by (auto simp: bpf_validate_def split: option.splits if_splits)
  have "checked f j \<and> (code (f ! j) = 0x1e \<longrightarrow> hash \<noteq> None)" if "1 \<le> j" "j < length f" for j
    using bpf_validate_checked [OF assms(1,2) that] assms(5) by blast
  note run = run_checked [OF assms(4,3) this, where n = "length f"
      and s = "\<lparr>pc = 1, acc = 0, idx = 0, scratch = scr\<rparr>" and p = p and wirelen = wirelen and header = header]
  have len: "1 \<le> length f" using ne by (cases f) simp_all
  obtain r s0 where "bpf_do_filter (length f) infp hash p wirelen header scr = Some r"
    "step_ok (length f) header p wirelen s0 r" "\<forall>s'. r \<noteq> Next s'"
    unfolding bpf_do_filter_def using run len by auto
  then show ?thesis by (cases r) auto
qed

definition insn :: "u16 \<Rightarrow> u32 \<Rightarrow> bpf_insn" where
  "insn c k = \<lparr>code = c, jt = 0, jf = 0, kval = k\<rparr>"

definition prog_port :: "bpf_insn list \<Rightarrow> net_rcv_port" where
  "prog_port f = \<lparr>rcv_port = 5, rcv_count = 0, priority = 0, filter_prog = f\<rparr>"

definition example_prog :: "bpf_insn list" where
  "example_prog = [insn 0x401 0, insn 0x28 12, \<lparr>code = 0x15, jt = 0, jf = 1, kval = 0x800\<rparr>, insn 6 96, insn 6 0]"

theorem bpf_validate_sound_witness:
  "bpf_validate example_prog None = Some (1, None) \<and>
   (case bpf_do_filter (length example_prog) (prog_port example_prog) None (replicate 60 1) 60 (replicate 14 8) [] of
      Some (Ret v slot e) \<Rightarrow> v \<le> 60
    | Some (Fault x) \<Rightarrow> x = Bad_shift \<or> x = Bad_data \<and> (replicate 14 (8 :: u8) \<noteq> [] \<or> length (replicate 60 (1 :: u8)) < NET_RCV_MAX)
    | _ \<Rightarrow> False)"
proof -
  have v: "bpf_validate example_prog None = Some (1, None)"
    by (simp add: bpf_validate_def validate_loop.simps example_prog_def insn_def bad_jump_def bad_mem_def bad_div_def
        BPF_CLASS_def BPF_OP_def Let_def)
  have u: "unchecked_ok example_prog" by (simp add: unchecked_ok_def example_prog_def insn_def upt_rec)
  show ?thesis
    using v bpf_validate_sound [OF v _ u, where infp = "prog_port example_prog" and hash = None
        and p = "replicate 60 1" and wirelen = 60 and header = "replicate 14 8" and scr = "[]"]
    by (simp add: prog_port_def)
qed

text \<open>
  C19. The comment of \<open>bpf_validate\<close> requires that each jump be forward. It accepts a
  program that jumps backward to the same instruction and so never ends, and a program
  that stores the index register behind the end of the scratch memory.
\<close>

theorem bpf_validate_incomplete:
  "(let f = [insn 0x401 0, insn 5 (- 1), insn 6 0] in
    bpf_validate f None = Some (1, None) \<and>
    (\<forall>fuel. bpf_do_filter fuel (prog_port f) None p wirelen header scr = None)) \<and>
   (let f = [insn 0x401 0, insn 3 16, insn 6 0] in
    bpf_validate f None = Some (1, None) \<and>
    bpf_do_filter 3 (prog_port f) None p wirelen header scr = Some (Fault Bad_mem))"
proof -
  let ?f = "[insn 0x401 0, insn 5 (- 1), insn 6 0]"
  have v: "bpf_validate ?f None = Some (1, None)" "bpf_validate [insn 0x401 0, insn 3 16, insn 6 0] None = Some (1, None)"
    by (simp_all add: bpf_validate_def validate_loop.simps insn_def bad_jump_def bad_mem_def bad_div_def
        BPF_CLASS_def BPF_OP_def Let_def)
  have "bpf_run fuel (prog_port ?f) None p wirelen header \<lparr>pc = 1, acc = a, idx = x, scratch = scr\<rparr> = None" for fuel a x
    by (induction fuel)
      (simp_all add: bpf_step_def prog_port_def insn_def bpf_opcode_def opcodes_def bpf_exec_def jump_by_def)
  then show ?thesis
    using v by (simp add: Let_def bpf_do_filter_def numeral_3_eq_3 bpf_step_def prog_port_def insn_def bpf_opcode_def
        opcodes_def bpf_exec_def mem_index_def BPF_MEMWORDS_def)
qed

end
