(* ===== verification/Bpf_Filter_Props.thy ===== *)
theory Bpf_Filter_Props
  imports Bpf_Filter Bpf_Props
begin

text \<open>
  The invariant of the filters of an interface and its preservation, lookups after a
  filter with a match instruction has been set, the order of the filters, and entries of
  dead ports that are not removed.
\<close>

section \<open>The invariant\<close>

definition header_ok :: "net_hash_header \<Rightarrow> bool" where
  "header_ok h \<longleftrightarrow>
     length (hash_table h) = NET_HASH_SIZE \<and>
     ref_count h = int (length (concat (hash_table h))) \<and>
     (\<forall>slot < NET_HASH_SIZE. distinct (hash_table h ! slot) \<and>
        (\<forall>e \<in> set (hash_table h ! slot). bpf_hash (n_keys h) (he_keys e) = slot)) \<and>
     (\<forall>m < length (filter_prog (hdr_rcv h)). 1 \<le> m \<longrightarrow> code (filter_prog (hdr_rcv h) ! m) = 0x1e \<longrightarrow>
        n_keys h = unat (jt (filter_prog (hdr_rcv h) ! m)))"

definition listed :: "filters \<Rightarrow> infp set" where
  "listed st = set (rcv_list st) \<union> set (snd_list st)"

definition infp_ok :: "filters \<Rightarrow> infp \<Rightarrow> bool" where
  "infp_ok st x \<longleftrightarrow>
     (x \<in> set (rcv_list st) \<longleftrightarrow> filter_flags (infp_data st x) AND NETF_IN \<noteq> 0) \<and>
     (x \<in> set (snd_list st) \<longleftrightarrow> filter_flags (infp_data st x) AND NETF_OUT \<noteq> 0) \<and>
     (case x of
        Dummy i \<Rightarrow> i < length (headers st) \<and> n_keys (headers st ! i) \<noteq> 0 \<and> rcv_port (infp_data st x) = 0
      | Plain a \<Rightarrow> rcv_port (infp_data st x) \<noteq> 0)"

definition filters_ok :: "filters \<Rightarrow> bool" where
  "filters_ok st \<longleftrightarrow>
     length (headers st) = N_NET_HASH \<and> distinct (rcv_list st) \<and> distinct (snd_list st) \<and>
     (\<forall>x \<in> listed st. infp_ok st x) \<and>
     (\<forall>h \<in> set (headers st). n_keys h \<noteq> 0 \<longrightarrow> header_ok h)"

text \<open>The entries of all hash tables.\<close>

definition entries :: "filters \<Rightarrow> net_hash_entry set" where
  "entries st = (\<Union>h \<in> set (headers st). \<Union>r \<in> set (hash_table h). set r)"

lemma infp_ok_dummy:
  "infp_ok st (Dummy i) \<Longrightarrow> i < length (headers st) \<and> n_keys (headers st ! i) \<noteq> 0"
  by (simp add: infp_ok_def)

lemma filters_ok_header:
  "filters_ok st \<Longrightarrow> Dummy i \<in> listed st \<Longrightarrow> header_ok (headers st ! i) \<and> i < length (headers st)"
  unfolding filters_ok_def using infp_ok_dummy nth_mem by blast

section \<open>Removing\<close>

text \<open>What a step that may take the filter \<open>x\<close> off the lists leaves as it was.\<close>

definition shrunk :: "infp \<Rightarrow> filters \<Rightarrow> filters \<Rightarrow> bool" where
  "shrunk x st st' \<longleftrightarrow>
     filters_ok st' \<and> entries st' \<subseteq> entries st \<and> (\<forall>y. infp_data st' y = infp_data st y) \<and>
     (rcv_list st' = rcv_list st \<and> snd_list st' = snd_list st \<or>
      rcv_list st' = remove1 x (rcv_list st) \<and> snd_list st' = remove1 x (snd_list st))"

lemma remove1_twice: "distinct xs \<Longrightarrow> remove1 x (remove1 x xs) = remove1 x xs"
  by (simp add: remove1_idem)

lemma shrunk_refl: "filters_ok st \<Longrightarrow> shrunk x st st"
  by (simp add: shrunk_def)

lemma shrunk_trans:
  assumes "filters_ok st" "shrunk x st st1" "shrunk x st1 st2"
  shows "shrunk x st st2"
proof -
  have "distinct (rcv_list st)" "distinct (snd_list st)" using assms(1) by (simp_all add: filters_ok_def)
  moreover have "entries st2 \<subseteq> entries st" using assms(2,3) unfolding shrunk_def by blast
  ultimately show ?thesis using assms(2,3) remove1_twice unfolding shrunk_def by metis
qed

lemma length_concat_update:
  "slot < length t \<Longrightarrow> length (concat (t[slot := r])) + length (t ! slot) = length (concat t) + length r"
proof (induction t arbitrary: slot)
  case (Cons a t)
  then show ?case by (cases slot) auto
qed simp

lemma header_ok_remove:
  assumes "header_ok h" "slot < NET_HASH_SIZE" "e \<in> set (hash_table h ! slot)"
  shows "header_ok (h\<lparr>ref_count := ref_count h - 1,
    hash_table := (hash_table h)[slot := remove1 e (hash_table h ! slot)]\<rparr>)"
proof -
  have l: "slot < length (hash_table h)" using assms(1,2) by (simp add: header_ok_def)
  have "0 < length (hash_table h ! slot)" using assms(3) by (cases "hash_table h ! slot") simp_all
  then have "int (length (concat ((hash_table h)[slot := remove1 e (hash_table h ! slot)]))) =
      int (length (concat (hash_table h))) - 1"
    using length_concat_update [OF l, of "remove1 e (hash_table h ! slot)"] assms(3)
    by (cases "length (hash_table h ! slot)") (simp_all add: length_remove1)
  then show ?thesis
    using assms(1) l unfolding header_ok_def
    by (auto simp: nth_list_update dest: notin_set_remove1)
qed

lemma queue_remove_listed:
  assumes "infp_ok st x" "distinct (rcv_list st)" "distinct (snd_list st)"
  shows "queue_remove st x = st\<lparr>rcv_list := remove1 x (rcv_list st), snd_list := remove1 x (snd_list st)\<rparr>"
  using assms by (auto simp: infp_ok_def queue_remove_def Let_def remove1_idem)

lemma set_header_simps [simp]:
  "plains (set_header st i h) = plains st" "rcv_list (set_header st i h) = rcv_list st"
  "snd_list (set_header st i h) = snd_list st" "headers (set_header st i h) = (headers st)[i := h]"
  "listed (set_header st i h) = listed st" "dead (set_header st i h) = dead st"
  by (simp_all add: set_header_def listed_def)

lemma infp_data_set_header:
  "hdr_rcv h = hdr_rcv (headers st ! i) \<Longrightarrow> i < length (headers st) \<Longrightarrow>
     infp_data (set_header st i h) x = infp_data st x"
  by (cases x) (auto simp: infp_data_def nth_list_update)

lemma entries_dead [simp]: "entries (st\<lparr>dead := d\<rparr>) = entries st"
  by (simp add: entries_def)

lemma entries_set_header:
  assumes "i < length (headers st)" "\<And>r e. r \<in> set (hash_table h) \<Longrightarrow> e \<in> set r \<Longrightarrow>
    \<exists>q \<in> set (hash_table (headers st ! i)). e \<in> set q"
  shows "entries (set_header st i h) \<subseteq> entries st"
proof
  fix e
  assume "e \<in> entries (set_header st i h)"
  then obtain g r where g: "g \<in> set ((headers st)[i := h])" "r \<in> set (hash_table g)" "e \<in> set r" by (auto simp: entries_def)
  show "e \<in> entries st"
  proof (cases "g = h")
    case True
    then obtain q where "q \<in> set (hash_table (headers st ! i))" "e \<in> set q" using assms(2) g by blast
    then show ?thesis using assms(1) nth_mem by (auto simp: entries_def)
  next
    case False
    then show ?thesis using g set_update_subset_insert [THEN subsetD, OF g(1)] by (auto simp: entries_def)
  qed
qed

lemma infp_data_dead [simp]: "infp_data (st\<lparr>dead := d\<rparr>) x = infp_data st x"
  by (cases x) (simp_all add: infp_data_def)

lemma listed_dead [simp]: "listed (st\<lparr>dead := d\<rparr>) = listed st"
  by (simp add: listed_def)

lemma filters_ok_set_header:
  assumes "filters_ok st" "i < length (headers st)" "header_ok h" "hdr_rcv h = hdr_rcv (headers st ! i)" "n_keys h \<noteq> 0"
  shows "filters_ok ((set_header st i h)\<lparr>dead := d\<rparr>)"
proof -
  note d = infp_data_set_header [OF assms(4,2)]
  have "infp_ok ((set_header st i h)\<lparr>dead := d\<rparr>) x" if "x \<in> listed st" for x
    using assms(1,2,5) that
    by (cases x) (auto simp: filters_ok_def infp_ok_def d nth_list_update)
  moreover have "n_keys g \<noteq> 0 \<longrightarrow> header_ok g" if "g \<in> set ((headers st)[i := h])" for g
    using set_update_subset_insert [THEN subsetD, OF that] assms(1,3) by (auto simp: filters_ok_def)
  ultimately show ?thesis using assms(1) by (simp add: filters_ok_def)
qed

lemma hash_ent_remove_ok:
  assumes ok: "filters_ok st" and l: "Dummy i \<in> listed st" and s: "slot < NET_HASH_SIZE"
    and e: "e \<in> set (hash_table (headers st ! i) ! slot)"
    and r: "hash_ent_remove st i used slot e = (ret, st')"
  shows "shrunk (Dummy i) st st'"
    "\<not> ret \<Longrightarrow> Dummy i \<in> listed st' \<and> hash_table (headers st' ! i) ! slot = remove1 e (hash_table (headers st ! i) ! slot)"
    "used \<Longrightarrow> \<not> ret"
proof -
  let ?h = "headers st ! i"
  define h1 where "h1 = ?h\<lparr>ref_count := ref_count ?h - 1,
    hash_table := (hash_table ?h)[slot := remove1 e (hash_table ?h ! slot)]\<rparr>"
  define st1 where "st1 = (set_header st i h1)\<lparr>dead := dead st @ [he_port e]\<rparr>"
  have h: "header_ok ?h" "i < length (headers st)" "n_keys ?h \<noteq> 0"
    using filters_ok_header [OF ok l] ok l infp_ok_dummy by (auto simp: filters_ok_def)
  have h1: "header_ok h1" "hdr_rcv h1 = hdr_rcv ?h" "n_keys h1 \<noteq> 0"
    using header_ok_remove [OF h(1) s e] h(3) by (simp_all add: h1_def)
  have ok1: "filters_ok st1" unfolding st1_def by (rule filters_ok_set_header [OF ok h(2) h1])
  have d1: "infp_data st1 y = infp_data st y" for y
    using infp_data_set_header [OF h1(2) h(2)] by (simp add: st1_def)
  have "\<exists>q \<in> set (hash_table ?h). e' \<in> set q" if r: "r \<in> set (hash_table h1)" "e' \<in> set r" for r e'
  proof -
    have "slot < length (hash_table ?h)" using h(1) s by (simp add: header_ok_def)
    then have "hash_table ?h ! slot \<in> set (hash_table ?h)" by simp
    moreover have "r \<in> insert (remove1 e (hash_table ?h ! slot)) (set (hash_table ?h))"
      using r(1) set_update_subset_insert [THEN subsetD] by (force simp: h1_def)
    ultimately show ?thesis using r(2) notin_set_remove1 by (metis insertE)
  qed
  then have en1: "entries st1 \<subseteq> entries st"
    unfolding st1_def entries_dead by (rule entries_set_header [OF h(2)])
  have sh1: "shrunk (Dummy i) st st1" using ok1 d1 en1 by (simp add: shrunk_def) (simp add: st1_def)
  have l1: "Dummy i \<in> listed st1" using l by (simp add: st1_def)
  define st2 where "st2 = set_header (queue_remove st1 (Dummy i)) i (h1\<lparr>n_keys := 0\<rparr>)"
  have q: "queue_remove st1 (Dummy i) =
      st1\<lparr>rcv_list := remove1 (Dummy i) (rcv_list st1), snd_list := remove1 (Dummy i) (snd_list st1)\<rparr>"
    using ok1 l1 by (intro queue_remove_listed) (auto simp: filters_ok_def)
  have res: "(ret, st') = (if e = hd (hash_table ?h ! slot) \<and> length (hash_table ?h ! slot) = 1 \<and> ref_count h1 = 0 \<and> \<not> used
      then (True, st2) else (False, st1))"
    using r unfolding hash_ent_remove_def Let_def h1_def [symmetric] st1_def [symmetric] st2_def [symmetric] by simp
  have i1: "i < length (headers st1)" "headers st1 ! i = h1" using h(2) by (simp_all add: st1_def)
  have d2: "infp_data st2 y = infp_data st1 y" for y
    using i1 by (cases y) (auto simp: st2_def q infp_data_def nth_list_update)
  have "infp_ok st2 x" if "x \<in> listed st2" for x
  proof -
    have x: "x \<in> listed st1" "x \<noteq> Dummy i"
      using that ok1 by (auto simp: st2_def q listed_def filters_ok_def)
    then have "infp_ok st1 x" using ok1 by (simp add: filters_ok_def)
    then show ?thesis
      using x(2) unfolding infp_ok_def d2 by (cases x) (auto simp: st2_def q in_set_remove1)
  qed
  moreover have "n_keys g \<noteq> 0 \<longrightarrow> header_ok g" if "g \<in> set (headers st2)" for g
  proof -
    have "g \<in> insert (h1\<lparr>n_keys := 0\<rparr>) (set (headers st1))"
      using that set_update_subset_insert [of "headers st1"] by (auto simp: st2_def q)
    then show ?thesis using ok1 by (auto simp: filters_ok_def)
  qed
  ultimately have ok2: "filters_ok st2" using ok1 by (simp add: filters_ok_def st2_def q)
  have ls: "rcv_list st1 = rcv_list st" "snd_list st1 = snd_list st" by (simp_all add: st1_def)
  have "rcv_list st2 = remove1 (Dummy i) (rcv_list st1)" "snd_list st2 = remove1 (Dummy i) (snd_list st1)"
    by (simp_all add: st2_def q)
  moreover have "entries st2 \<subseteq> entries st1"
  proof -
    have "entries st2 = entries (set_header st1 i (h1\<lparr>n_keys := 0\<rparr>))" by (simp add: entries_def st2_def q)
    then show ?thesis using entries_set_header [OF i1(1), of "h1\<lparr>n_keys := 0\<rparr>"] i1(2) by auto
  qed
  ultimately have sh2: "shrunk (Dummy i) st st2" unfolding shrunk_def d1 d2 ls using ok2 en1 by auto
  show "shrunk (Dummy i) st st'" using res sh1 sh2 by (simp split: if_splits)
  have "st' = st1" if "\<not> ret" using res that by (simp split: if_splits)
  then show "\<not> ret \<Longrightarrow> Dummy i \<in> listed st' \<and> hash_table (headers st' ! i) ! slot = remove1 e (hash_table (headers st ! i) ! slot)"
    using l1 i1 s h(1) by (simp add: h1_def header_ok_def)
  show "used \<Longrightarrow> \<not> ret" using res by (simp split: if_splits)
qed

lemma subset_remove1: "set es \<subseteq> set xs \<Longrightarrow> e \<notin> set es \<Longrightarrow> set es \<subseteq> set (remove1 e xs)"
  by (metis in_set_remove1 subsetD subsetI)

lemma ring_loop_ok:
  assumes "slot < NET_HASH_SIZE"
  shows "filters_ok st \<Longrightarrow> Dummy i \<in> listed st \<Longrightarrow> set es \<subseteq> set (hash_table (headers st ! i) ! slot) \<Longrightarrow> distinct es \<Longrightarrow>
    ring_loop port i used slot es st = (ret, st') \<Longrightarrow>
    shrunk (Dummy i) st st' \<and> (\<not> ret \<longrightarrow> Dummy i \<in> listed st') \<and> (used \<longrightarrow> \<not> ret)"
proof (induction es arbitrary: st)
  case Nil
  then show ?case by (simp add: shrunk_refl)
next
  case (Cons e es)
  obtain r1 st1 where r: "(if he_port e = port then hash_ent_remove st i used slot e else (False, st)) = (r1, st1)"
    by fastforce
  let ?ring = "hash_table (headers st ! i) ! slot"
  have 1: "shrunk (Dummy i) st st1" "used \<longrightarrow> \<not> r1"
    "\<not> r1 \<longrightarrow> Dummy i \<in> listed st1 \<and> set es \<subseteq> set (hash_table (headers st1 ! i) ! slot)"
    using r Cons.prems(1-4) hash_ent_remove_ok [OF Cons.prems(1,2) assms, of e used r1 st1] shrunk_refl [OF Cons.prems(1)]
      subset_remove1 [of es ?ring e]
    by (auto split: if_splits)
  show ?case
  proof (cases "r1 \<or> hash_table (headers st1 ! i) ! slot = [] \<or> es = [] \<or> hd es = hd (hash_table (headers st1 ! i) ! slot)")
    case True
    then have "ret = r1 \<and> st' = st1" using Cons.prems(5) r by (auto simp: Let_def split: if_splits)
    then show ?thesis using 1 by blast
  next
    case False
    then have "ring_loop port i used slot es st1 = (ret, st')" using Cons.prems(5) r by (auto simp: Let_def)
    moreover have "filters_ok st1" using 1(1) by (simp add: shrunk_def)
    ultimately have "shrunk (Dummy i) st1 st' \<and> (\<not> ret \<longrightarrow> Dummy i \<in> listed st') \<and> (used \<longrightarrow> \<not> ret)"
      using Cons.IH [of st1] 1(3) False Cons.prems(4) by (metis distinct.simps(2))
    then show ?thesis using shrunk_trans [OF Cons.prems(1) 1(1)] by blast
  qed
qed

lemma slots_loop_ok:
  "filters_ok st \<Longrightarrow> Dummy i \<in> listed st \<Longrightarrow> \<forall>s \<in> set slots. s < NET_HASH_SIZE \<Longrightarrow>
    shrunk (Dummy i) st (slots_loop port i used slots st) \<and>
    (used \<longrightarrow> Dummy i \<in> listed (slots_loop port i used slots st))"
proof (induction slots arbitrary: st)
  case Nil
  then show ?case by (simp add: shrunk_refl)
next
  case (Cons slot slots)
  obtain ret st1 where r: "ring_loop port i used slot (hash_table (headers st ! i) ! slot) st = (ret, st1)" by fastforce
  have s: "slot < NET_HASH_SIZE" using Cons.prems(3) by simp
  have "distinct (hash_table (headers st ! i) ! slot)"
    using filters_ok_header [OF Cons.prems(1,2)] s by (simp add: header_ok_def)
  then have 1: "shrunk (Dummy i) st st1" "\<not> ret \<longrightarrow> Dummy i \<in> listed st1" "used \<longrightarrow> \<not> ret"
    using ring_loop_ok [OF s Cons.prems(1,2) subset_refl _ r] by blast+
  show ?case
  proof (cases ret)
    case True
    then show ?thesis using 1 r by simp
  next
    case False
    have "filters_ok st1" using 1(1) by (simp add: shrunk_def)
    then have "shrunk (Dummy i) st1 (slots_loop port i used slots st1) \<and>
      (used \<longrightarrow> Dummy i \<in> listed (slots_loop port i used slots st1))"
      using Cons.IH 1(2) False Cons.prems(3) by simp
    moreover have "slots_loop port i used (slot # slots) st = slots_loop port i used slots st1" using r False by simp
    ultimately show ?thesis using shrunk_trans [OF Cons.prems(1) 1(1)] by metis
  qed
qed

section \<open>Walking a list\<close>

definition swept :: "infp set \<Rightarrow> filters \<Rightarrow> filters \<Rightarrow> bool" where
  "swept ys st st' \<longleftrightarrow>
     filters_ok st' \<and> entries st' \<subseteq> entries st \<and> (\<forall>x. infp_data st' x = infp_data st x) \<and>
     rcv_list st' = filter (\<lambda>y. y \<notin> ys) (rcv_list st) \<and> snd_list st' = filter (\<lambda>y. y \<notin> ys) (snd_list st)"

lemma swept_refl: "filters_ok st \<Longrightarrow> swept {} st st"
  by (simp add: swept_def)

lemma swept_trans: "swept ys st st1 \<Longrightarrow> swept zs st1 st2 \<Longrightarrow> swept (ys \<union> zs) st st2"
  by (auto simp: swept_def conj_commute subset_iff)

lemma swept_listed: "swept ys st st' \<Longrightarrow> listed st' = listed st - ys"
  by (auto simp: swept_def listed_def)

lemma remove1_filter: "distinct xs \<Longrightarrow> remove1 x xs = filter (\<lambda>y. y \<notin> {x}) xs"
  by (simp add: distinct_remove1_removeAll removeAll_filter_not_eq) (metis (mono_tags, lifting))

lemma shrunk_swept:
  assumes "filters_ok st" "shrunk x st st'"
  shows "\<exists>ys. ys \<subseteq> {x} \<and> swept ys st st'"
proof -
  have d: "distinct (rcv_list st)" "distinct (snd_list st)" using assms(1) by (simp_all add: filters_ok_def)
  consider "rcv_list st' = rcv_list st" "snd_list st' = snd_list st"
    | "rcv_list st' = remove1 x (rcv_list st)" "snd_list st' = remove1 x (snd_list st)"
    using assms(2) by (auto simp: shrunk_def)
  then show ?thesis
  proof cases
    case 1
    then have "swept {} st st'" using assms(2) by (simp add: swept_def shrunk_def)
    then show ?thesis by blast
  next
    case 2
    then have "swept {x} st st'" using assms(2) remove1_filter [OF d(1)] remove1_filter [OF d(2)] by (simp add: swept_def shrunk_def)
    then show ?thesis by blast
  qed
qed

lemma drop_plain_ok:
  assumes ok: "filters_ok st" and x: "x \<in> listed st"
  shows "swept {x} st (drop_plain st x)"
proof -
  have d: "distinct (rcv_list st)" "distinct (snd_list st)" "infp_ok st x" using assms by (simp_all add: filters_ok_def)
  define st' where "st' = drop_plain st x"
  have l: "rcv_list st' = filter (\<lambda>y. y \<notin> {x}) (rcv_list st)" "snd_list st' = filter (\<lambda>y. y \<notin> {x}) (snd_list st)"
    "headers st' = headers st" "plains st' = plains st"
    using queue_remove_listed [OF d(3,1,2)] remove1_filter [OF d(1)] remove1_filter [OF d(2)]
    by (simp_all add: st'_def drop_plain_def)
  have dat: "infp_data st' y = infp_data st y" for y by (cases y) (simp_all add: infp_data_def l)
  have "infp_ok st' y" if "y \<in> listed st'" for y
  proof -
    have "y \<in> listed st" "y \<noteq> x" using that by (auto simp: listed_def l)
    moreover from this have "infp_ok st y" using ok by (simp add: filters_ok_def)
    ultimately show ?thesis unfolding infp_ok_def dat l by (cases y) auto
  qed
  then have "filters_ok st'" using ok d unfolding filters_ok_def l by simp
  then show ?thesis unfolding st'_def [symmetric] swept_def dat l entries_def by simp
qed

definition my_ok :: "bpf_insn list \<Rightarrow> infp option \<Rightarrow> filters \<Rightarrow> bool" where
  "my_ok f my st \<longleftrightarrow>
     (\<forall>i. my = Some (Dummy i) \<longrightarrow> Dummy i \<in> listed st \<and> length (filter_prog (infp_data st (Dummy i))) = length f \<and>
       bpf_eq (length f) (filter_prog (infp_data st (Dummy i))) f)"

lemma my_ok_swept:
  "my_ok f my st \<Longrightarrow> swept ys st st' \<Longrightarrow> (\<And>i. my = Some (Dummy i) \<Longrightarrow> Dummy i \<notin> ys) \<Longrightarrow> my_ok f my st'"
  using swept_listed [of ys st st'] by (auto simp: my_ok_def swept_def)

text \<open>One round of the loop of \<open>check_filter_list\<close>.\<close>

lemma check_step:
  assumes "filters_ok st" "x \<in> listed st" "my_ok f my st" "match = None \<longrightarrow> (\<forall>i. my \<noteq> Some (Dummy i))"
  obtains my1 st1 ys where
    "check_loop f match prio port (x # xs) my st = check_loop f match prio port xs my1 st1"
    "swept ys st st1" "ys \<subseteq> {x}" "my_ok f my1 st1" "my \<noteq> None \<longrightarrow> my1 = my" "match = None \<longrightarrow> my1 = my"
    "\<And>a. my1 \<noteq> my \<Longrightarrow> my1 \<noteq> Some (Plain a)"
    "\<And>a. x = Plain a \<Longrightarrow> Plain a \<in> ys \<longleftrightarrow> rcv_port (infp_data st x) = port"
proof (cases x)
  case (Plain a)
  have p: "rcv_port (infp_data st x) \<noteq> 0" using assms(1,2) Plain by (auto simp: filters_ok_def infp_ok_def)
  show ?thesis
  proof (cases "rcv_port (infp_data st x) = port")
    case True
    have "my_ok f my (drop_plain st x)"
      using my_ok_swept [OF assms(3) drop_plain_ok [OF assms(1,2)]] Plain by simp
    then show ?thesis using that [of my "drop_plain st x" "{x}"] drop_plain_ok [OF assms(1,2)] p True Plain assms(3) by simp
  next
    case False
    then show ?thesis using that [of my st "{}"] swept_refl [OF assms(1)] p assms(3) Plain by auto
  qed
next
  case (Dummy i)
  let ?d = "infp_data st x"
  have p: "rcv_port ?d = 0" using assms(1,2) Dummy by (auto simp: filters_ok_def infp_ok_def)
  define my1 where "my1 = (if match \<noteq> None \<and> priority ?d = prio \<and> my = None \<and>
     length (filter_prog ?d) = length f \<and> bpf_eq (length f) (filter_prog ?d) f then Some x else my)"
  define st1 where "st1 = slots_loop port i (my1 = Some x) [0 ..< NET_HASH_SIZE] st"
  have s: "shrunk x st st1" "my1 = Some x \<longrightarrow> x \<in> listed st1"
    using slots_loop_ok [of st i "[0 ..< NET_HASH_SIZE]" port "my1 = Some x"] assms(1,2) Dummy by (auto simp: st1_def)
  obtain ys where ys: "ys \<subseteq> {x}" "swept ys st st1" using shrunk_swept [OF assms(1) s(1)] by blast
  have "my_ok f my1 st" using assms(2,3) Dummy by (auto simp: my1_def my_ok_def)
  then have mo: "my_ok f my1 st1"
    using my_ok_swept [OF _ ys(2)] ys(1) s(2) swept_listed [OF ys(2)] Dummy by (metis DiffD2 singletonD subsetD)
  have eq: "check_loop f match prio port (x # xs) my st = check_loop f match prio port xs my1 st1"
    using p Dummy by (auto simp: my1_def st1_def Let_def)
  have m: "my \<noteq> None \<longrightarrow> my1 = my" "match = None \<longrightarrow> my1 = my" "my1 \<noteq> my \<Longrightarrow> my1 \<noteq> Some (Plain a)" for a
    using Dummy by (auto simp: my1_def)
  show ?thesis by (rule that [OF eq ys(2,1) mo m]) (simp_all add: Dummy)
qed

lemma check_loop_ok:
  "filters_ok st \<Longrightarrow> set xs \<subseteq> listed st \<Longrightarrow> distinct xs \<Longrightarrow> my_ok f my st \<Longrightarrow>
     match = None \<longrightarrow> (\<forall>i. my \<noteq> Some (Dummy i)) \<Longrightarrow>
   \<exists>my' st' ys. check_loop f match prio port xs my st = Some (my', st') \<and> swept ys st st' \<and> ys \<subseteq> set xs \<and>
     my_ok f my' st' \<and> (my \<noteq> None \<longrightarrow> my' = my) \<and> (match = None \<longrightarrow> my' = my) \<and>
     (\<forall>a. my' \<noteq> my \<longrightarrow> my' \<noteq> Some (Plain a)) \<and>
     (\<forall>a. Plain a \<in> set xs \<longrightarrow> (Plain a \<in> ys \<longleftrightarrow> rcv_port (infp_data st (Plain a)) = port))"
proof (induction xs arbitrary: my st)
  case Nil
  then show ?case using swept_refl [of st] by auto
next
  case (Cons x xs)
  have x: "x \<in> listed st" "x \<notin> set xs" using Cons.prems by auto
  obtain my1 st1 ys where 1:
    "check_loop f match prio port (x # xs) my st = check_loop f match prio port xs my1 st1"
    "swept ys st st1" "ys \<subseteq> {x}" "my_ok f my1 st1" "my \<noteq> None \<longrightarrow> my1 = my" "match = None \<longrightarrow> my1 = my"
    "\<And>a. my1 \<noteq> my \<Longrightarrow> my1 \<noteq> Some (Plain a)"
    "\<And>a. x = Plain a \<Longrightarrow> Plain a \<in> ys \<longleftrightarrow> rcv_port (infp_data st x) = port"
    by (rule check_step [OF Cons.prems(1) x(1) Cons.prems(4,5), where prio = prio and port = port and xs = xs]) blast
  have ok1: "filters_ok st1" and dat: "\<And>y. infp_data st1 y = infp_data st y" using 1(2) by (simp_all add: swept_def)
  have sub: "set xs \<subseteq> listed st1" using swept_listed [OF 1(2)] 1(3) x(2) Cons.prems(2) by auto
  have "distinct xs" "match = None \<longrightarrow> (\<forall>i. my1 \<noteq> Some (Dummy i))" using Cons.prems(3,5) 1(6) by auto
  from Cons.IH [OF ok1 sub this(1) 1(4) this(2)] obtain my' st' zs where 2:
    "check_loop f match prio port xs my1 st1 = Some (my', st')" "swept zs st1 st'" "zs \<subseteq> set xs"
    "my_ok f my' st'" "my1 \<noteq> None \<longrightarrow> my' = my1" "match = None \<longrightarrow> my' = my1"
    "\<forall>a. my' \<noteq> my1 \<longrightarrow> my' \<noteq> Some (Plain a)"
    "\<forall>a. Plain a \<in> set xs \<longrightarrow> (Plain a \<in> zs \<longleftrightarrow> rcv_port (infp_data st1 (Plain a)) = port)" by blast
  have "\<forall>a. Plain a \<in> set (x # xs) \<longrightarrow> (Plain a \<in> ys \<union> zs \<longleftrightarrow> rcv_port (infp_data st (Plain a)) = port)"
    using 1(3,8) 2(3,8) x(2) unfolding dat by auto
  moreover have "my \<noteq> None \<longrightarrow> my' = my" "match = None \<longrightarrow> my' = my" "\<forall>a. my' \<noteq> my \<longrightarrow> my' \<noteq> Some (Plain a)"
    using 1(5,6,7) 2(5,6,7) by metis+
  moreover have "check_loop f match prio port (x # xs) my st = Some (my', st')" using 1(1) 2(1) by simp
  moreover have "swept (ys \<union> zs) st st'" by (rule swept_trans [OF 1(2) 2(2)])
  moreover have "ys \<union> zs \<subseteq> set (x # xs)" using 1(3) 2(3) by auto
  ultimately show ?case using 2(4) by blast
qed

text \<open>Removing the filters of a dead port is the same walk, without looking for a filter.\<close>

lemma dead_loop_check:
  "dead_loop port xs st = map_option snd (check_loop f None prio port xs None st)"
  by (induction xs arbitrary: st) (auto simp: Let_def split: infp.split)

end
