(* ===== verification/Bpf_Set_Props.thy ===== *)
theory Bpf_Set_Props
  imports Bpf_Filter_Props
begin

text \<open>
  Setting filters: the invariant of the filters of an interface is kept, a new filter is
  found by its keys, filters are kept in the order in which they were set, and what
  removing the filters of a dead port leaves behind.
\<close>

section \<open>The match instruction\<close>

text \<open>After the match instruction there is no other one.\<close>

lemma validate_loop_unique:
  "validate_loop f i (Some m) = Some m' \<Longrightarrow> i \<le> j \<Longrightarrow> j < length f \<Longrightarrow> code (f ! j) \<noteq> 0x1e"
proof (induction f i "Some m" arbitrary: m rule: validate_loop.induct)
  case (1 f i m)
  let ?p = "f ! i"
  have i: "i < length f" using "1.prems" by simp
  have ok: "\<not> (bad_jump ?p i (length f) \<or> bad_mem ?p \<or> bad_div ?p)" "code ?p \<noteq> 0x1e" "validate_loop f (i + 1) (Some m) = Some m'"
    using "1.prems"(1) i by (subst (asm) validate_loop.simps; auto simp: Let_def split: if_splits)+
  then show ?case using "1.hyps"(2) [OF i refl ok(1)] "1.prems" by (cases "j = i") simp_all
qed

lemma validate_loop_some: "validate_loop f i (Some m) = Some m' \<Longrightarrow> m' = Some m"
proof (induction f i "Some m" arbitrary: m rule: validate_loop.induct)
  case (1 f i m)
  show ?case
  proof (cases "i < length f")
    case True
    let ?p = "f ! i"
    have ok: "\<not> (bad_jump ?p i (length f) \<or> bad_mem ?p \<or> bad_div ?p)" "code ?p \<noteq> 0x1e" "validate_loop f (i + 1) (Some m) = Some m'"
      using "1.prems" True by (subst (asm) validate_loop.simps; auto simp: Let_def split: if_splits)+
    then show ?thesis using "1.hyps"(2) [OF True refl ok(1)] by simp
  next
    case False
    then show ?thesis using "1.prems" by (subst (asm) validate_loop.simps) simp
  qed
qed

lemma validate_loop_find:
  "validate_loop f i None = Some (Some m) \<Longrightarrow>
     i \<le> m \<and> m + unat (jt (f ! m)) < length f \<and> code (f ! m) = 0x1e \<and> jt (f ! m) \<noteq> 0 \<and>
     unat (jt (f ! m)) \<le> N_NET_HASH_KEYS \<and>
     (\<forall>j. i \<le> j \<longrightarrow> j < length f \<longrightarrow> code (f ! j) = 0x1e \<longrightarrow> j = m)"
proof (induction f i "None :: nat option" rule: validate_loop.induct)
  case (1 f i)
  have i: "i < length f" using "1.prems" by (subst (asm) validate_loop.simps) (auto split: if_splits)
  let ?p = "f ! i"
  have ok: "\<not> (bad_jump ?p i (length f) \<or> bad_mem ?p \<or> bad_div ?p)"
    using "1.prems" i by (subst (asm) validate_loop.simps) (auto simp: Let_def)
  show ?case
  proof (cases "code ?p = 0x1e")
    case True
    have v: "jt ?p \<noteq> 0" "unat (jt ?p) \<le> N_NET_HASH_KEYS" "i + unat (jt ?p) < length f"
      "\<forall>j \<in> set [1 ..< unat (jt ?p) + 1]. code (f ! (i + j)) = 0x17"
      "validate_loop f (i + unat (jt ?p) + 1) (Some i) = Some (Some m)"
      using "1.prems" i ok True
      by (subst (asm) validate_loop.simps; auto simp: Let_def list_ex_iff split: if_splits)+
    have m: "m = i" using validate_loop_some [OF v(5)] by simp
    have "j = i" if j: "i \<le> j" "j < length f" "code (f ! j) = 0x1e" for j
    proof (rule ccontr)
      assume "j \<noteq> i"
      show False
      proof (cases "j \<le> i + unat (jt ?p)")
        case True
        then have "j - i \<in> set [1 ..< unat (jt ?p) + 1]" using j \<open>j \<noteq> i\<close> by auto
        then have "code (f ! (i + (j - i))) = 0x17" using v(4) by blast
        then show False using j by simp
      next
        case False
        then show False using validate_loop_unique [OF v(5), of j] j by simp
      qed
    qed
    then show ?thesis using v True m by blast
  next
    case False
    then have "validate_loop f (i + 1) None = Some (Some m)"
      using "1.prems" i ok by (subst (asm) validate_loop.simps) (auto simp: Let_def)
    then have "i + 1 \<le> m \<and> m + unat (jt (f ! m)) < length f \<and> code (f ! m) = 0x1e \<and> jt (f ! m) \<noteq> 0 \<and>
       unat (jt (f ! m)) \<le> N_NET_HASH_KEYS \<and>
       (\<forall>j. i + 1 \<le> j \<longrightarrow> j < length f \<longrightarrow> code (f ! j) = 0x1e \<longrightarrow> j = m)"
      using "1.hyps" [OF i refl ok] False by simp
    then show ?thesis using False by (metis Suc_eq_plus1 Suc_leI add_leD1 le_neq_implies_less)
  qed
qed

lemma bpf_validate_match:
  assumes "bpf_validate f None = Some (r, Some m)" "r \<noteq> 0"
  shows "1 \<le> m" "m + unat (jt (f ! m)) < length f" "code (f ! m) = 0x1e" "unat (jt (f ! m)) \<noteq> 0"
    "unat (jt (f ! m)) \<le> N_NET_HASH_KEYS" "1 \<le> j \<Longrightarrow> j < length f \<Longrightarrow> code (f ! j) = 0x1e \<Longrightarrow> j = m"
proof -
  have "validate_loop f 1 None = Some (Some m)"
    using assms by (auto simp: bpf_validate_def split: option.splits if_splits)
  note v = validate_loop_find [OF this]
  show "1 \<le> m" "m + unat (jt (f ! m)) < length f" "code (f ! m) = 0x1e" "unat (jt (f ! m)) \<noteq> 0"
    "unat (jt (f ! m)) \<le> N_NET_HASH_KEYS" "1 \<le> j \<Longrightarrow> j < length f \<Longrightarrow> code (f ! j) = 0x1e \<Longrightarrow> j = m"
    using v by (auto simp: unat_eq_0)
qed

lemma bpf_eq_nth:
  "bpf_eq n f g \<Longrightarrow> j < n \<Longrightarrow> n \<le> length f \<Longrightarrow> n \<le> length g \<Longrightarrow>
     insn_eq (f ! j) (g ! j) \<or> code (f ! j) = 0x17 \<and> code (g ! j) = 0x17"
proof (induction n f g arbitrary: j rule: bpf_eq.induct)
  case (2 n f g)
  obtain x f' y g' where fg: "f = x # f'" "g = y # g'" using 2 by (cases f; cases g) auto
  show ?case using 2 fg by (cases j) (auto split: if_splits)
qed simp

section \<open>Hash tables\<close>

lemma first_diff_eq: "i \<le> n \<Longrightarrow> first_diff i n ks es = n \<longleftrightarrow> (\<forall>j. i \<le> j \<longrightarrow> j < n \<longrightarrow> ks ! j = es ! j)"
proof (induction i n ks es rule: first_diff.induct)
  case (1 i n ks es)
  show ?case
  proof (cases "i < n \<and> ks ! i = es ! i")
    case True
    then show ?thesis using 1 by (subst first_diff.simps) (auto simp: le_Suc_eq dest: le_neq_implies_less) 
  next
    case False
    then show ?thesis using 1 by (subst first_diff.simps) auto
  qed
qed

lemma match_loop_found:
  assumes "e \<in> set es" "\<forall>j < n. ks ! j = he_keys e ! j"
  shows "\<exists>e'. match_loop n ks es = Some e' \<and> e' \<in> set es \<and> (\<forall>j < n. ks ! j = he_keys e' ! j)"
  using assms by (induction es) (auto simp: first_diff_eq)

lemma hash_loop_take: "n \<le> length ks \<Longrightarrow> n \<le> length es \<Longrightarrow> (\<forall>j < n. ks ! j = es ! j) \<Longrightarrow> hash_loop n ks h = hash_loop n es h"
proof (induction n arbitrary: ks es h)
  case (Suc n)
  obtain k ks' where k: "ks = k # ks'" using Suc.prems by (cases ks) simp_all
  obtain e es' where e: "es = e # es'" using Suc.prems by (cases es) simp_all
  have "k = e" using Suc.prems(3) k e by force
  moreover have "\<forall>j < n. ks' ! j = es' ! j" using Suc.prems(3) k e by force
  ultimately show ?case using Suc.IH [of ks' es'] Suc.prems k e by simp
qed simp

section \<open>Setting a filter\<close>

lemma set_plain_ok:
  assumes ok: "filters_ok st" and new: "Plain a \<notin> listed st" and port: "port \<noteq> 0" and r: "set_plain f prio port a st = Some st'"
  shows "filters_ok st'"
    "rcv_list st' = rcv_list st @ (if code (hd f) AND 1 \<noteq> 0 then [Plain a] else [])"
    "snd_list st' = snd_list st @ (if code (hd f) AND 2 \<noteq> 0 then [Plain a] else [])"
    "infp_data st' (Plain a) = \<lparr>rcv_port = port, rcv_count = 0, priority = prio, filter_prog = f\<rparr>"
    "x \<noteq> Plain a \<Longrightarrow> infp_data st' x = infp_data st x"
proof -
  note defs = set_plain_def install_def enter_filter_def set_data_def Let_def infp_data_def
  show l: "rcv_list st' = rcv_list st @ (if code (hd f) AND 1 \<noteq> 0 then [Plain a] else [])"
    "snd_list st' = snd_list st @ (if code (hd f) AND 2 \<noteq> 0 then [Plain a] else [])"
    and d: "infp_data st' (Plain a) = \<lparr>rcv_port = port, rcv_count = 0, priority = prio, filter_prog = f\<rparr>"
    using r by (auto simp: defs split: if_splits)
  have h: "headers st' = headers st" using r by (auto simp: defs split: if_splits)
  have o: "infp_data st' x = infp_data st x" if "x \<noteq> Plain a" for x
    using that r by (cases x) (auto simp: defs split: if_splits)
  have "infp_ok st' x" if "x \<in> listed st'" for x
  proof (cases "x = Plain a")
    case True
    then show ?thesis using new port by (auto simp: infp_ok_def d l filter_flags_def listed_def)
  next
    case False
    then have "x \<in> listed st" using that by (auto simp: listed_def l split: if_splits)
    then have "infp_ok st x" using ok by (simp add: filters_ok_def)
    then show ?thesis using False unfolding infp_ok_def o [OF False] l h by (cases x) auto
  qed
  then show "filters_ok st'" using ok new by (auto simp: filters_ok_def l h listed_def)
  show "x \<noteq> Plain a \<Longrightarrow> infp_data st' x = infp_data st x" by (rule o)
qed

definition fresh :: "nat \<Rightarrow> filters \<Rightarrow> bool" where
  "fresh a st \<longleftrightarrow> Plain a \<notin> listed st \<and> (\<forall>e \<in> entries st. he_id e \<noteq> a)"

lemma fresh_swept: "fresh a st \<Longrightarrow> swept ys st st' \<Longrightarrow> fresh a st'"
  using swept_listed [of ys st st'] by (auto simp: fresh_def swept_def)

lemma free_header_Some:
  "free_header hs k = Some i \<Longrightarrow> k \<le> i \<and> i < k + length hs \<and> n_keys (hs ! (i - k)) = 0"
proof (induction hs arbitrary: k)
  case (Cons h hs)
  then show ?case by (auto split: if_splits simp: Suc_diff_le dest!: Cons.IH) 
qed simp

lemma concat_replicate_Nil [simp]: "concat (replicate n []) = []"
  by (induction n) simp_all

lemma install_header_ok:
  fixes prio :: int
  assumes ok: "filters_ok st" and i: "i < length (headers st)" "n_keys (headers st ! i) = 0"
    and n: "n \<noteq> 0" and m: "\<forall>j. 1 \<le> j \<longrightarrow> j < length f \<longrightarrow> code (f ! j) = 0x1e \<longrightarrow> unat (jt (f ! j)) = n"
    and fl: "code (hd f) AND 1 \<noteq> 0 \<or> code (hd f) AND 2 \<noteq> 0"
    and r: "install f prio (Dummy i) (init_header i n st) = Some st'"
  shows "filters_ok st'" "Dummy i \<in> listed st'" "n_keys (headers st' ! i) = n" "entries st' \<subseteq> entries st"
    "\<And>a. Plain a \<in> listed st' \<longleftrightarrow> Plain a \<in> listed st"
proof -
  define h where "h = (headers st ! i)\<lparr>n_keys := n, ref_count := 0, hash_table := replicate NET_HASH_SIZE [],
    hdr_rcv := (hdr_rcv (headers st ! i))\<lparr>rcv_port := 0, priority := prio, rcv_count := 0, filter_prog := f\<rparr>\<rparr>"
  have l: "rcv_list st' = rcv_list st @ (if code (hd f) AND 1 \<noteq> 0 then [Dummy i] else [])"
    "snd_list st' = snd_list st @ (if code (hd f) AND 2 \<noteq> 0 then [Dummy i] else [])"
    "headers st' = (headers st)[i := h]" "plains st' = plains st"
    using i r by (auto simp: install_def enter_filter_def set_data_def init_header_def Let_def infp_data_def h_def split: if_splits)
  have new: "Dummy i \<notin> listed st" using ok i(2) infp_ok_dummy by (fastforce simp: filters_ok_def)
  have h: "header_ok h" using m by (auto simp: header_ok_def h_def)
  have "infp_ok st' x" if "x \<in> listed st'" for x
  proof (cases "x = Dummy i")
    case True
    then show ?thesis using new i n by (auto simp: infp_ok_def l infp_data_def h_def filter_flags_def listed_def)
  next
    case False
    then have "x \<in> listed st" using that by (auto simp: listed_def l split: if_splits)
    then have "infp_ok st x" using ok by (simp add: filters_ok_def)
    moreover have "infp_data st' x = infp_data st x" using False by (cases x) (simp_all add: infp_data_def l)
    ultimately show ?thesis using False unfolding infp_ok_def l by (cases x) auto
  qed
  moreover have "n_keys g \<noteq> 0 \<longrightarrow> header_ok g" if "g \<in> set (headers st')" for g
    using that set_update_subset_insert [of "headers st" i h] ok h by (auto simp: l filters_ok_def)
  ultimately show "filters_ok st'" using ok new by (auto simp: filters_ok_def l listed_def)
  show "Dummy i \<in> listed st'" using fl by (auto simp: listed_def l)
  show "n_keys (headers st' ! i) = n" using i by (simp add: l h_def)
  show "entries st' \<subseteq> entries st"
  proof -
    have "entries st' = entries (set_header st i h)" by (simp add: entries_def l)
    then show ?thesis using entries_set_header [OF i(1), of h] by (auto simp: h_def)
  qed
  show "\<And>a. Plain a \<in> listed st' \<longleftrightarrow> Plain a \<in> listed st" by (auto simp: listed_def l)
qed

lemma header_ok_insert:
  assumes "header_ok h" "slot = bpf_hash (n_keys h) (he_keys e)" "e \<notin> set (hash_table h ! slot)"
  shows "header_ok (h\<lparr>hash_table := (hash_table h)[slot := hash_table h ! slot @ [e]], ref_count := ref_count h + 1\<rparr>)"
proof -
  have l: "slot < length (hash_table h)" using assms(1,2) by (simp add: header_ok_def bpf_hash_def NET_HASH_SIZE_def)
  have "int (length (concat ((hash_table h)[slot := hash_table h ! slot @ [e]]))) = ref_count h + 1"
    using length_concat_update [OF l, of "hash_table h ! slot @ [e]"] assms(1) by (simp add: header_ok_def)
  then show ?thesis using assms l unfolding header_ok_def by (auto simp: nth_list_update)
qed

lemma insert_entry_ok:
  fixes port :: mach_port
  assumes ok: "filters_ok st" and l: "Dummy i \<in> listed st" and n: "n_keys (headers st ! i) = unat (jt (f ! m))"
    and fr: "fresh a st" and nk: "unat (jt (f ! m)) \<le> N_NET_HASH_KEYS"
  defines "st' \<equiv> insert_entry f m port a i st"
  shows "filters_ok st'" "Dummy i \<in> listed st'" "n_keys (headers st' ! i) = unat (jt (f ! m))"
    "\<exists>e slot. slot = bpf_hash (n_keys (headers st' ! i)) (he_keys e) \<and> e \<in> set (hash_table (headers st' ! i) ! slot) \<and>
       he_port e = port \<and> length (he_keys e) = N_NET_HASH_KEYS \<and>
       (\<forall>j < unat (jt (f ! m)). he_keys e ! j = kval (f ! (m + j + 1))) \<and> entries st' \<subseteq> insert e (entries st)"
proof -
  let ?n = "unat (jt (f ! m))" and ?h = "headers st ! i"
  define e where "e = \<lparr>he_id = a, he_port = port,
    he_keys = map (\<lambda>j. kval (f ! (m + j + 1))) [0 ..< ?n] @ replicate (N_NET_HASH_KEYS - ?n) 0\<rparr>"
  define slot where "slot = bpf_hash (n_keys ?h) (he_keys e)"
  define h where "h = ?h\<lparr>hash_table := (hash_table ?h)[slot := hash_table ?h ! slot @ [e]], ref_count := ref_count ?h + 1\<rparr>"
  have st': "st' = set_header st i h"
    by (simp add: st'_def insert_entry_def Let_def h_def slot_def e_def n)
  have i: "header_ok ?h" "i < length (headers st)" "n_keys ?h \<noteq> 0"
    using filters_ok_header [OF ok l] ok l infp_ok_dummy by (auto simp: filters_ok_def)
  have sl: "slot < length (hash_table ?h)" using i(1) by (simp add: header_ok_def slot_def bpf_hash_def NET_HASH_SIZE_def)
  have "e \<notin> set (hash_table ?h ! slot)"
  proof
    assume "e \<in> set (hash_table ?h ! slot)"
    then have "e \<in> entries st"
      using nth_mem [OF sl] nth_mem [OF i(2)] unfolding entries_def by blast
    then show False using fr by (auto simp: fresh_def e_def)
  qed
  then have h: "header_ok h" "hdr_rcv h = hdr_rcv ?h" "n_keys h = n_keys ?h"
    using header_ok_insert [OF i(1) slot_def] by (simp_all add: h_def)
  have "filters_ok ((set_header st i h)\<lparr>dead := dead st\<rparr>)"
    by (rule filters_ok_set_header [OF ok i(2) h(1,2)]) (simp add: h(3) i(3))
  moreover have "(set_header st i h)\<lparr>dead := dead st\<rparr> = set_header st i h" by (simp add: set_header_def)
  ultimately show "filters_ok st'" by (simp add: st')
  show "Dummy i \<in> listed st'" using l by (simp add: st')
  have hi: "headers st' ! i = h" using i(2) by (simp add: st')
  show "n_keys (headers st' ! i) = ?n" using hi h(3) n by simp
  have "e \<in> set (hash_table h ! slot)" using sl by (simp add: h_def)
  moreover have "\<forall>j < ?n. he_keys e ! j = kval (f ! (m + j + 1))" by (simp add: e_def nth_append)
  moreover have "length (he_keys e) = N_NET_HASH_KEYS" using nk by (simp add: e_def)
  moreover have en: "entries st' \<subseteq> insert e (entries st)"
  proof -
    have in_h: "set r \<subseteq> entries st" if "r \<in> set (hash_table ?h)" for r using that i(2) nth_mem [OF i(2)] unfolding entries_def by blast
    have "set r \<subseteq> insert e (entries st)" if "r \<in> set (hash_table h)" for r
    proof -
      have "r = hash_table ?h ! slot @ [e] \<or> r \<in> set (hash_table ?h)"
        using that set_update_subset_insert [of "hash_table ?h" slot "hash_table ?h ! slot @ [e]"] by (auto simp: h_def)
      then show ?thesis using in_h [of r] in_h [OF nth_mem [OF sl]] by auto
    qed
    then have "(\<Union>r \<in> set (hash_table h). set r) \<subseteq> insert e (entries st)" by blast
    moreover have "g = h \<or> g \<in> set (headers st)" if "g \<in> set (headers st')" for g
      using that set_update_subset_insert [of "headers st" i h] by (auto simp: st' set_header_def)
    moreover have "set r \<subseteq> entries st" if "g \<in> set (headers st)" "r \<in> set (hash_table g)" for g r using that unfolding entries_def by blast
    ultimately show ?thesis unfolding entries_def [of st'] by fast
  qed
  ultimately show "\<exists>e slot. slot = bpf_hash (n_keys (headers st' ! i)) (he_keys e) \<and> e \<in> set (hash_table (headers st' ! i) ! slot) \<and>
       he_port e = port \<and> length (he_keys e) = N_NET_HASH_KEYS \<and>
       (\<forall>j < ?n. he_keys e ! j = kval (f ! (m + j + 1))) \<and> entries st' \<subseteq> insert e (entries st)"
    using h(3) en by (intro exI [of _ e] exI [of _ slot]) (simp add: hi slot_def, simp add: e_def)
qed

lemma check_list_ok:
  assumes ok: "filters_ok st" and my: "my_ok f my st" "match = None \<longrightarrow> (\<forall>i. my \<noteq> Some (Dummy i))"
  obtains my' st' ys where
    "(if c then check_filter_list f match prio port inp (my, st) else Some (my, st)) = Some (my', st')"
    "swept ys st st'" "my_ok f my' st'" "match = None \<longrightarrow> my' = my" "\<And>a. my' = Some (Plain a) \<Longrightarrow> my = Some (Plain a)"
    "\<And>a. Plain a \<in> ys \<Longrightarrow> rcv_port (infp_data st (Plain a)) = port"
    "\<And>a. c \<Longrightarrow> Plain a \<in> set (if inp then rcv_list st else snd_list st) \<Longrightarrow>
       rcv_port (infp_data st (Plain a)) = port \<Longrightarrow> Plain a \<in> ys"
proof (cases c)
  case True
  let ?xs = "if inp then rcv_list st else snd_list st"
  have "set ?xs \<subseteq> listed st" "distinct ?xs" using ok by (auto simp: listed_def filters_ok_def)
  from check_loop_ok [OF ok this my, of prio port] obtain my' st' ys where 1:
    "check_loop f match prio port ?xs my st = Some (my', st')" "swept ys st st'" "ys \<subseteq> set ?xs" "my_ok f my' st'"
    "match = None \<longrightarrow> my' = my" "\<forall>a. my' \<noteq> my \<longrightarrow> my' \<noteq> Some (Plain a)"
    "\<forall>a. Plain a \<in> set ?xs \<longrightarrow> (Plain a \<in> ys \<longleftrightarrow> rcv_port (infp_data st (Plain a)) = port)" by blast
  have "(if c then check_filter_list f match prio port inp (my, st) else Some (my, st)) = Some (my', st')"
    using 1(1) True by (simp add: check_filter_list_def)
  then show ?thesis using that [of my' st' ys] 1 by blast
next
  case False
  then show ?thesis using that [of my st "{}"] swept_refl [OF ok] my(1) by simp
qed

lemma bpf_validate_some: "f \<noteq> [] \<Longrightarrow> \<exists>r m. bpf_validate f None = Some (r, m)"
  by (auto simp: bpf_validate_def split: option.split)

text \<open>The outcomes of setting a filter.\<close>

lemma net_set_filter_cases:
  assumes ok: "filters_ok st" and al: "alloc orc = (Some a, o1)" and fr: "fresh (unat a) st" and len: "length f \<le> NET_MAX_BPF"
  obtains (invalid) "net_set_filter st port prio f orc = Some (D_INVALID_OPERATION, st)"
  | (plain) st2 st' ys where "net_set_filter st port prio f orc = Some (D_SUCCESS, st')" "set_plain f prio port (unat a) st2 = Some st'"
      "swept ys st st2"
      "\<And>b. Plain b \<in> ys \<Longrightarrow> rcv_port (infp_data st (Plain b)) = port"
      "\<And>b. code (hd f) AND 1 \<noteq> 0 \<Longrightarrow> Plain b \<in> set (rcv_list st) \<Longrightarrow>
         rcv_port (infp_data st (Plain b)) = port \<Longrightarrow> Plain b \<in> ys"
      "snd (the (bpf_validate f None)) = None"
  | (nomem) st2 ys where "net_set_filter st port prio f orc = Some (D_NO_MEMORY, st2\<lparr>dead := dead st2 @ [port]\<rparr>)"
      "swept ys st st2" "snd (the (bpf_validate f None)) \<noteq> None"
  | (found) r m i st2 where "net_set_filter st port prio f orc = Some (D_SUCCESS, insert_entry f m port (unat a) i st2)"
      "bpf_validate f None = Some (r, Some m)" "r \<noteq> 0"
      "filters_ok st2" "Dummy i \<in> listed st2" "n_keys (headers st2 ! i) = unat (jt (f ! m))" "fresh (unat a) st2" "entries st2 \<subseteq> entries st"
proof (cases "f = [] \<or> code (hd f) AND 1 = 0 \<and> code (hd f) AND 2 = 0 \<or> code (hd f) AND 0xfc00 \<noteq> 0x400 \<or>
    fst (the (bpf_validate f None)) = 0")
  case True
  then have "net_set_filter st port prio f orc = Some (D_INVALID_OPERATION, st)"
    using bpf_validate_some [of f] by (auto simp: net_set_filter_def)
  then show ?thesis by (rule invalid)
next
  case False
  then have flags: "f \<noteq> []" "code (hd f) AND 1 \<noteq> 0 \<or> code (hd f) AND 2 \<noteq> 0" "code (hd f) AND 0xfc00 = 0x400" by auto
  obtain r match where v: "bpf_validate f None = Some (r, match)"
    using bpf_validate_some [OF flags(1)] by blast
  then have r: "r \<noteq> 0" using False by simp
  define my where "my = (if match = None then Some (Plain (unat a)) else None)"
  have my: "my_ok f my st" "match = None \<longrightarrow> (\<forall>i. my \<noteq> Some (Dummy i))" by (auto simp: my_def my_ok_def)
  from ok my obtain my1 st1 ys1 where 1:
    "(if code (hd f) AND 1 \<noteq> 0 then check_filter_list f match prio port True (my, st) else Some (my, st)) = Some (my1, st1)"
    "swept ys1 st st1" "my_ok f my1 st1" "match = None \<longrightarrow> my1 = my" "\<And>b. my1 = Some (Plain b) \<Longrightarrow> my = Some (Plain b)"
    "\<And>b. Plain b \<in> ys1 \<Longrightarrow> rcv_port (infp_data st (Plain b)) = port"
    "\<And>b. code (hd f) AND 1 \<noteq> 0 \<Longrightarrow> Plain b \<in> set (if True then rcv_list st else snd_list st) \<Longrightarrow>
       rcv_port (infp_data st (Plain b)) = port \<Longrightarrow> Plain b \<in> ys1"
    by (rule check_list_ok) blast
  have ok1: "filters_ok st1" and my1: "match = None \<longrightarrow> (\<forall>i. my1 \<noteq> Some (Dummy i))"
    using 1(2,4) my(2) by (auto simp: swept_def)
  from ok1 1(3) my1 obtain my2 st2 ys2 where 2:
    "(if code (hd f) AND 2 \<noteq> 0 then check_filter_list f match prio port False (my1, st1) else Some (my1, st1)) = Some (my2, st2)"
    "swept ys2 st1 st2" "my_ok f my2 st2" "match = None \<longrightarrow> my2 = my1" "\<And>b. my2 = Some (Plain b) \<Longrightarrow> my1 = Some (Plain b)"
    "\<And>b. Plain b \<in> ys2 \<Longrightarrow> rcv_port (infp_data st1 (Plain b)) = port"
    by (rule check_list_ok) blast
  have sw: "swept (ys1 \<union> ys2) st st2" by (rule swept_trans [OF 1(2) 2(2)])
  have ok2: "filters_ok st2" and fr2: "fresh (unat a) st2" using sw fresh_swept [OF fr sw] by (simp_all add: swept_def)
  have main: "net_set_filter st port prio f orc =
      (case match of None \<Rightarrow> map_option (Pair D_SUCCESS) (set_plain f prio port (unat a) st2)
       | Some m \<Rightarrow> set_match f m prio port (Some a) (my2, st2))"
    using flags v r al 1(1) 2(1) by (cases match) (auto simp: net_set_filter_def my_def Let_def)
  show ?thesis
  proof (cases match)
    case None
    have dat: "infp_data st1 x = infp_data st x" for x using 1(2) by (simp add: swept_def)
    obtain st' where st': "set_plain f prio port (unat a) st2 = Some st'" using len by (simp add: set_plain_def install_def)
    show ?thesis
    proof (rule plain [of st' st2 "ys1 \<union> ys2"])
      show "net_set_filter st port prio f orc = Some (D_SUCCESS, st')" "set_plain f prio port (unat a) st2 = Some st'" using main None st' by simp_all
      show "\<And>b. Plain b \<in> ys1 \<union> ys2 \<Longrightarrow> rcv_port (infp_data st (Plain b)) = port" using 1(6) 2(6) unfolding dat by blast
    qed (use sw 1(7) v None in auto)
  next
    case (Some m)
    note mt = bpf_validate_match [OF v [unfolded Some] r]
    have sm: "snd (the (bpf_validate f None)) \<noteq> None" using v Some by simp
    have np: "my2 \<noteq> Some (Plain b)" for b using 1(5) 2(5) Some by (auto simp: my_def)
    show ?thesis
    proof (cases my2)
      case None
      show ?thesis
      proof (cases "free_header (headers st2) 0")
        case None
        have "net_set_filter st port prio f orc = Some (D_NO_MEMORY, st2\<lparr>dead := dead st2 @ [port]\<rparr>)"
          using main Some \<open>my2 = None\<close> None by (simp add: set_match_def)
        then show ?thesis using nomem sw sm by blast
      next
        case (Some i)
        obtain st3 where st3: "install f prio (Dummy i) (init_header i (unat (jt (f ! m))) st2) = Some st3" using len by (simp add: install_def)
        have i: "i < length (headers st2)" "n_keys (headers st2 ! i) = 0" using free_header_Some [OF Some] by simp_all
        have uniq: "\<forall>j. 1 \<le> j \<longrightarrow> j < length f \<longrightarrow> code (f ! j) = 0x1e \<longrightarrow> unat (jt (f ! j)) = unat (jt (f ! m))"
          using mt(6) by blast
        note h = install_header_ok [OF ok2 i mt(4) uniq flags(2) st3]
        have f3: "fresh (unat a) st3" unfolding fresh_def
        proof (intro conjI ballI)
          show "Plain (unat a) \<notin> listed st3" unfolding h(5) using fr2 by (simp add: fresh_def)
          show "he_id e \<noteq> unat a" if "e \<in> entries st3" for e using subsetD [OF h(4) that] fr2 by (simp add: fresh_def)
        qed
        have n3: "net_set_filter st port prio f orc = Some (D_SUCCESS, insert_entry f m port (unat a) i st3)"
          using main \<open>match = Some m\<close> None Some st3 by (simp add: set_match_def)
        have e3: "entries st3 \<subseteq> entries st" using h(4) sw by (auto simp: swept_def)
        show ?thesis by (rule found [OF n3 v [unfolded \<open>match = Some m\<close>] r h(1-3) f3 e3])
      qed
    next
      case (Some x)
      then obtain i where x: "my2 = Some (Dummy i)" using np by (cases x) auto
      let ?g = "filter_prog (infp_data st2 (Dummy i))"
      have d: "Dummy i \<in> listed st2" "length ?g = length f" "bpf_eq (length f) ?g f" using 2(3) x by (auto simp: my_ok_def)
      have "insn_eq (?g ! m) (f ! m)" using bpf_eq_nth [OF d(3), of m] mt(2,3) d(2) by auto
      then have "code (?g ! m) = 0x1e" "jt (?g ! m) = jt (f ! m)" using mt(3) by (auto simp: insn_eq_def)
      moreover have "m < length ?g" using mt(2) d(2) by simp
      ultimately have k2: "n_keys (headers st2 ! i) = unat (jt (f ! m))"
        using filters_ok_header [OF ok2 d(1)] mt(1) by (auto simp: header_ok_def infp_data_def)
      have n2: "net_set_filter st port prio f orc = Some (D_SUCCESS, insert_entry f m port (unat a) i st2)"
        using main \<open>match = Some m\<close> x by (simp add: set_match_def)
      have e2: "entries st2 \<subseteq> entries st" using sw by (simp add: swept_def)
      show ?thesis by (rule found [OF n2 v [unfolded \<open>match = Some m\<close>] r ok2 d(1) k2 fr2 e2])
    qed
  qed
qed

section \<open>Properties\<close>

definition no_header :: net_hash_header where
  "no_header = \<lparr>hdr_rcv = \<lparr>rcv_port = 0, rcv_count = 0, priority = 0, filter_prog = []\<rparr>, n_keys = 0,
     ref_count = 0, hash_table = []\<rparr>"

definition no_filters :: filters where
  "no_filters = \<lparr>headers = replicate 4 no_header, plains = (\<lambda>_. hdr_rcv no_header), rcv_list = [], snd_list = [], dead = []\<rparr>"

lemma no_filters_ok: "filters_ok no_filters" "fresh 0 no_filters" "alloc [] = (Some 0, [])"
  by (auto simp: filters_ok_def no_filters_def N_NET_HASH_def listed_def no_header_def fresh_def entries_def alloc_def)

definition match_prog :: "bpf_insn list" where
  "match_prog = [insn 0x401 0, insn 0 7, insn 2 0, \<lparr>code = 0x1e, jt = 1, jf = 0, kval = 96\<rparr>, insn 0x17 7, insn 6 0]"

lemma match_prog_len: "length match_prog = 6"
  by (simp add: match_prog_def)

lemma match_prog_valid: "bpf_validate match_prog None = Some (2, Some 3)"
  by (simp add: bpf_validate_def validate_loop.simps match_prog_def insn_def bad_jump_def bad_mem_def bad_div_def
      BPF_CLASS_def BPF_OP_def Let_def N_NET_HASH_KEYS_def BPF_MEMWORDS_def)

text \<open>
  C20. When the program fits into the array for it (32 instructions, which the code does not check) and the memory for
  the new structure is granted (which the code does not check either), setting a filter and removing the filters of a dead port return, without taking
  a plain filter for a hash header, and keep the filters of an interface consistent: a
  filter is on exactly the lists its flags name and on each only once; the reference count of a hash
  header is the number of its entries, each entry is in the ring of its hash value, and a
  header is on a list only while it is in use.
\<close>

theorem net_set_filter_invariant:
  assumes "filters_ok st" and "alloc orc = (Some a, o1)" and "fresh (unat a) st" and "length f \<le> NET_MAX_BPF" and "port \<noteq> 0"
  shows "(\<exists>r st'. net_set_filter st port prio f orc = Some (r, st') \<and> filters_ok st') \<and>
    (\<exists>st'. remove_dead_filter st inp port = Some st' \<and> filters_ok st')"
proof
  show "\<exists>r st'. net_set_filter st port prio f orc = Some (r, st') \<and> filters_ok st'"
  proof (rule net_set_filter_cases [OF assms(1-4), where port = port and prio = prio])
    fix st2 st' ys
    assume "net_set_filter st port prio f orc = Some (D_SUCCESS, st')" "set_plain f prio port (unat a) st2 = Some st'" "swept ys st st2"
    then show ?thesis
      using set_plain_ok(1) [of st2 "unat a" port f prio st'] fresh_swept [OF assms(3)] assms(5) by (auto simp: swept_def fresh_def)
  next
    fix st2 ys
    assume n: "net_set_filter st port prio f orc = Some (D_NO_MEMORY, st2\<lparr>dead := dead st2 @ [port]\<rparr>)" "swept ys st st2"
    have "infp_ok (st2\<lparr>dead := dead st2 @ [port]\<rparr>) x \<longleftrightarrow> infp_ok st2 x" for x by (cases x) (simp_all add: infp_ok_def)
    then show ?thesis using n by (auto simp: swept_def filters_ok_def)
  next
    fix r m i st2
    assume f: "net_set_filter st port prio f orc = Some (D_SUCCESS, insert_entry f m port (unat a) i st2)"
      "bpf_validate f None = Some (r, Some m)" "r \<noteq> 0"
      "filters_ok st2" "Dummy i \<in> listed st2" "n_keys (headers st2 ! i) = unat (jt (f ! m))" "fresh (unat a) st2"
    then show ?thesis using insert_entry_ok(1) [OF f(4-7) bpf_validate_match(5) [OF f(2,3)]] by blast
  qed (use assms(1) in blast)
next
  let ?xs = "if inp then rcv_list st else snd_list st"
  have "set ?xs \<subseteq> listed st" "distinct ?xs" "my_ok f None st" using assms(1) by (auto simp: listed_def filters_ok_def my_ok_def)
  from check_loop_ok [OF assms(1) this, where match = None and prio = prio and port = port]
  obtain my' st' ys where "check_loop f None prio port ?xs None st = Some (my', st')" "swept ys st st'" by auto
  then show "\<exists>st'. remove_dead_filter st inp port = Some st' \<and> filters_ok st'"
    using dead_loop_check [of port ?xs st f prio] by (simp add: remove_dead_filter_def swept_def)
qed

theorem net_set_filter_invariant_witness:
  "filters_ok no_filters \<and>
   (\<exists>r st'. net_set_filter no_filters 5 3 match_prog [] = Some (r, st') \<and> filters_ok st') \<and>
   (\<exists>st'. remove_dead_filter no_filters True 5 = Some st' \<and> filters_ok st')"
proof -
  have "fresh (unat (0 :: u32)) no_filters" "length match_prog \<le> NET_MAX_BPF" "(5 :: nat) \<noteq> 0" using no_filters_ok(2) by (simp_all add: match_prog_def NET_MAX_BPF_def)
  then show ?thesis
    using no_filters_ok(1) net_set_filter_invariant [OF no_filters_ok(1,3), where port = 5 and prio = 3 and f = match_prog and inp = True]
    by blast
qed

lemma match_loop_mem: "match_loop n keys es = Some e \<Longrightarrow> e \<in> set es"
  by (induction n keys es rule: match_loop.induct) (auto split: if_splits)

lemma ring_entries:
  assumes "filters_ok st" "Dummy i \<in> listed st"
  shows "set (hash_table (headers st ! i) ! bpf_hash (n_keys (headers st ! i)) keys) \<subseteq> entries st"
proof -
  let ?h = "headers st ! i"
  have h: "header_ok ?h" "i < length (headers st)" using filters_ok_header [OF assms] assms infp_ok_dummy by (auto simp: filters_ok_def)
  have "bpf_hash (n_keys ?h) keys < length (hash_table ?h)" using h(1) by (simp add: header_ok_def bpf_hash_def NET_HASH_SIZE_def)
  then show ?thesis using nth_mem [OF h(2)] nth_mem unfolding entries_def by blast
qed

text \<open>
  C21. After a filter with a match instruction has been set, a packet whose keys are those of
  the filter is matched: the hash header is on a list of the interface, the ring of these keys has an entry with the port of
  the filter, and the lookup in the table finds an entry with these keys. What it finds is an entry of the port of the filter, or an
  entry that was there before: when no entry had these keys, packets with these keys go to the port of the new filter.
\<close>

theorem net_set_filter_match_found:
  assumes "filters_ok st" and "alloc orc = (Some a, o1)" and "fresh (unat a) st" and "length f \<le> NET_MAX_BPF"
    and "bpf_validate f None = Some (2, Some m)"
    and "net_set_filter st port prio f orc = Some (D_SUCCESS, st')"
    and "length keys = BPF_MEMWORDS" and "\<forall>j < unat (jt (f ! m)). keys ! j = kval (f ! (m + j + 1))"
  shows "\<exists>i slot e. Dummy i \<in> listed st' \<and> bpf_match (headers st' ! i) (unat (jt (f ! m))) keys = (Some slot, Some e) \<and>
    (\<forall>j < unat (jt (f ! m)). he_keys e ! j = keys ! j) \<and> (he_port e = port \<or> e \<in> entries st) \<and>
    (\<exists>e' \<in> set (hash_table (headers st' ! i) ! slot). he_port e' = port \<and>
       (\<forall>j < unat (jt (f ! m)). he_keys e' ! j = keys ! j))"
proof (rule net_set_filter_cases [OF assms(1-4), where port = port and prio = prio])
  fix r m' i st2
  assume f: "net_set_filter st port prio f orc = Some (D_SUCCESS, insert_entry f m' port (unat a) i st2)"
    "bpf_validate f None = Some (r, Some m')" "r \<noteq> 0"
    "filters_ok st2" "Dummy i \<in> listed st2" "n_keys (headers st2 ! i) = unat (jt (f ! m'))" "fresh (unat a) st2" "entries st2 \<subseteq> entries st"
  let ?n = "unat (jt (f ! m))"
  have m: "m' = m" "st' = insert_entry f m port (unat a) i st2" using f(1,2) assms(5,6) by simp_all
  note mt = bpf_validate_match [OF f(2,3), unfolded m(1)]
  note ins = insert_entry_ok [OF f(4,5) f(6,7) [unfolded m(1)] mt(5), where port = port, folded m(2)]
  from ins(4) obtain e slot where e: "slot = bpf_hash (n_keys (headers st' ! i)) (he_keys e)"
    "e \<in> set (hash_table (headers st' ! i) ! slot)" "he_port e = port" "length (he_keys e) = N_NET_HASH_KEYS"
    "\<forall>j < ?n. he_keys e ! j = kval (f ! (m + j + 1))" "entries st' \<subseteq> insert e (entries st2)" by blast
  have same: "\<forall>j < ?n. keys ! j = he_keys e ! j" using e(5) assms(8) by simp
  have "?n \<le> length keys" "?n \<le> length (he_keys e)"
    using mt(5) assms(7) e(4) by (simp_all add: N_NET_HASH_KEYS_def BPF_MEMWORDS_def)
  then have "bpf_hash ?n keys = slot" using hash_loop_take [OF _ _ same] e(1) ins(3) by (simp add: bpf_hash_def)
  moreover obtain e' where e': "match_loop ?n keys (hash_table (headers st' ! i) ! slot) = Some e'" "\<forall>j < ?n. keys ! j = he_keys e' ! j"
    using match_loop_found [OF e(2) same] by blast
  ultimately have "bpf_match (headers st' ! i) ?n keys = (Some slot, Some e')" "\<forall>j < ?n. he_keys e' ! j = keys ! j"
    using ins(3) by (simp_all add: bpf_match_def)
  moreover have "\<forall>j < ?n. he_keys e ! j = keys ! j" using same by simp
  moreover have "e' \<in> set (hash_table (headers st' ! i) ! slot)" by (rule match_loop_mem [OF e'(1)])
  then have "e' \<in> entries st'" using ring_entries [OF ins(1,2)] e(1) by blast
  then have "he_port e' = port \<or> e' \<in> entries st" using e(3,6) f(8) by auto
  ultimately show ?thesis using ins(2) e(2,3) by blast
qed (use assms(5,6) in auto)

theorem net_set_filter_match_found_witness:
  "\<exists>st'. net_set_filter no_filters 5 3 match_prog [] = Some (D_SUCCESS, st') \<and>
    (\<exists>i slot e. Dummy i \<in> listed st' \<and> bpf_match (headers st' ! i) (unat (jt (match_prog ! 3))) (replicate 16 7) = (Some slot, Some e))"
proof -
  have fr: "fresh (unat (0 :: u32)) no_filters" using no_filters_ok(2) by simp
  have c: "match_prog \<noteq> []" "code (hd match_prog) AND 1 = 1" "code (hd match_prog) AND 2 = 0"
    "code (hd match_prog) AND 0xfc00 = 0x400"
    by (simp_all add: match_prog_def insn_def)
  have l: "check_filter_list match_prog (Some 3) 3 5 True (None, no_filters) = Some (None, no_filters)"
    by (simp add: check_filter_list_def no_filters_def)
  have "replicate 4 no_header = no_header # replicate 3 no_header" by (simp add: numeral_eq_Suc)
  then have "free_header (headers no_filters) 0 = Some 0" by (simp add: no_filters_def no_header_def)
  then obtain st' where s: "net_set_filter no_filters 5 3 match_prog [] = Some (D_SUCCESS, st')"
    using c l match_prog_valid no_filters_ok(3) by (simp add: net_set_filter_def Let_def set_match_def install_def NET_MAX_BPF_def match_prog_len)
  have k: "length (replicate 16 (7 :: u32)) = BPF_MEMWORDS"
    "\<forall>j < unat (jt (match_prog ! 3)). replicate 16 7 ! j = kval (match_prog ! (3 + j + 1))"
    by (simp_all add: BPF_MEMWORDS_def match_prog_def insn_def)
  have n: "length match_prog \<le> NET_MAX_BPF" by (simp add: match_prog_def NET_MAX_BPF_def)
  show ?thesis using s net_set_filter_match_found [OF no_filters_ok(1,3) fr n match_prog_valid s k] by blast
qed

text \<open>
  A filter without a match instruction replaces the filters of its port, and no other
  filter of a port is touched. It becomes the last of the list, whatever its priority: the
  code looks for a place according to the priority and then enters it at the tail.
\<close>

theorem net_set_filter_appends:
  assumes "filters_ok st" and "alloc orc = (Some a, o1)" and "fresh (unat a) st" and "length f \<le> NET_MAX_BPF" and "port \<noteq> 0"
    and "bpf_validate f None = Some (1, None)" and "code (hd f) AND 1 \<noteq> 0" and "code (hd f) AND 0xfc00 = 0x400" and "f \<noteq> []"
  shows "\<exists>st' ys. net_set_filter st port prio f orc = Some (D_SUCCESS, st') \<and>
    rcv_list st' = filter (\<lambda>y. y \<notin> ys) (rcv_list st) @ [Plain (unat a)] \<and>
    (\<forall>b. Plain b \<in> set (rcv_list st) \<longrightarrow> (Plain b \<in> ys \<longleftrightarrow> rcv_port (plains st b) = port)) \<and>
    infp_data st' (Plain (unat a)) = \<lparr>rcv_port = port, rcv_count = 0, priority = prio, filter_prog = f\<rparr>"
proof (rule net_set_filter_cases [OF assms(1-4), where port = port and prio = prio])
  assume "net_set_filter st port prio f orc = Some (D_INVALID_OPERATION, st)"
  moreover have "net_set_filter st port prio f orc \<noteq> Some (D_INVALID_OPERATION, st)"
    using assms(2,6-9) by (auto simp: net_set_filter_def bind_eq_Some_conv split: if_splits)
  ultimately show ?thesis by blast
next
  fix st2 st' ys
  assume q: "set_plain f prio port (unat a) st2 = Some st'" and p: "net_set_filter st port prio f orc = Some (D_SUCCESS, st')" "swept ys st st2"
    "\<And>b. Plain b \<in> ys \<Longrightarrow> rcv_port (infp_data st (Plain b)) = port"
    "\<And>b. code (hd f) AND 1 \<noteq> 0 \<Longrightarrow> Plain b \<in> set (rcv_list st) \<Longrightarrow> rcv_port (infp_data st (Plain b)) = port \<Longrightarrow> Plain b \<in> ys"
  have "filters_ok st2" "Plain (unat a) \<notin> listed st2" "rcv_list st2 = filter (\<lambda>y. y \<notin> ys) (rcv_list st)"
    using p(2) fresh_swept [OF assms(3) p(2)] by (simp_all add: swept_def fresh_def)
  then show ?thesis
    using p(1,3,4) assms(7) set_plain_ok(2,4) [OF _ _ assms(5) q]
    by (intro exI [of _ st'] exI [of _ ys]) (auto simp: infp_data_def)
qed (use assms(6) in auto)

theorem net_set_filter_appends_witness:
  "bpf_validate example_prog None = Some (1, None) \<and>
   (\<exists>st' ys. net_set_filter no_filters 5 3 example_prog [] = Some (D_SUCCESS, st') \<and>
    rcv_list st' = filter (\<lambda>y. y \<notin> ys) (rcv_list no_filters) @ [Plain (unat (0 :: u32))])"
proof -
  have fr: "fresh (unat (0 :: u32)) no_filters" "(5 :: nat) \<noteq> 0" using no_filters_ok(2) by simp_all
  have v: "bpf_validate example_prog None = Some (1, None)"
    by (simp add: bpf_validate_def validate_loop.simps example_prog_def insn_def bad_jump_def bad_mem_def bad_div_def
        BPF_CLASS_def BPF_OP_def Let_def)
  have c: "code (hd example_prog) AND 1 \<noteq> 0" "code (hd example_prog) AND 0xfc00 = 0x400" "example_prog \<noteq> []"
    by (simp_all add: example_prog_def insn_def)
  have n: "length example_prog \<le> NET_MAX_BPF" by (simp add: example_prog_def NET_MAX_BPF_def)
  show ?thesis using v net_set_filter_appends [OF no_filters_ok(1,3) fr(1) n fr(2) v c, where prio = 3] by blast
qed

text \<open>
  The condition on the length is needed: \<open>net_set_filter\<close> has no test for it. Whatever filters there are, a valid
  program without a match instruction that has more than 32 instructions is written over the end of the array \<open>filter\<close> of the new structure.
\<close>

theorem net_set_filter_overflow:
  assumes "alloc orc = (Some a, o1)" and "bpf_validate f None = Some (1, None)"
    and "code (hd f) AND 1 \<noteq> 0 \<or> code (hd f) AND 2 \<noteq> 0" and "code (hd f) AND 0xfc00 = 0x400" and "length f > NET_MAX_BPF"
  shows "net_set_filter st port prio f orc = None"
proof -
  have n: "f \<noteq> []" using assms(5) by auto
  have p: "set_plain f prio port b s = None" for b s using assms(5) by (simp add: set_plain_def install_def)
  show ?thesis using n assms(1-4) p by (auto simp: net_set_filter_def Let_def bind_eq_None_conv split_beta)
qed

definition long_prog :: "bpf_insn list" where
  "long_prog = insn 0x401 0 # replicate 32 (insn 0 7) @ [insn 6 0]"

theorem net_set_filter_overflow_witness:
  "bpf_validate long_prog None = Some (1, None) \<and> length long_prog = 34 \<and> net_set_filter no_filters 5 3 long_prog [] = None"
proof -
  have 1: "bpf_validate long_prog None = Some (1, None)" "length long_prog = 34" "code (hd long_prog) AND 1 \<noteq> 0" "code (hd long_prog) AND 0xfc00 = 0x400" by code_simp+
  then have "code (hd long_prog) AND 1 \<noteq> 0 \<or> code (hd long_prog) AND 2 \<noteq> 0" "length long_prog > NET_MAX_BPF" by (simp_all add: NET_MAX_BPF_def)
  from net_set_filter_overflow [OF no_filters_ok(3) 1(1) this(1) 1(4) this(2)] show ?thesis using 1 by simp
qed

section \<open>Entries of dead ports\<close>

definition ring_of :: "filters \<Rightarrow> nat \<Rightarrow> nat \<Rightarrow> net_hash_entry list" where
  "ring_of st i slot = hash_table (headers st ! i) ! slot"

definition has_header :: "filters \<Rightarrow> nat \<Rightarrow> bool" where
  "has_header st i \<longleftrightarrow> i < length (headers st) \<and> length (hash_table (headers st ! i)) = NET_HASH_SIZE"

lemma queue_remove_headers [simp]: "headers (queue_remove st x) = headers st"
  by (simp add: queue_remove_def Let_def)

lemma hash_ent_remove_ring:
  assumes "has_header st i" "s < NET_HASH_SIZE" "hash_ent_remove st i used s e = (ret, st')"
  shows "has_header st' i" "ring_of st' i s' = (if s' = s then remove1 e (ring_of st i s) else ring_of st i s')"
    "2 \<le> length (ring_of st i s) \<Longrightarrow> \<not> ret"
  using assms by (auto simp: hash_ent_remove_def has_header_def ring_of_def Let_def nth_list_update split: if_splits)

lemma ring_loop_other:
  assumes "s < NET_HASH_SIZE" "s' \<noteq> s"
  shows "has_header st i \<Longrightarrow> ring_loop port i used s es st = (ret, st') \<Longrightarrow>
    has_header st' i \<and> ring_of st' i s' = ring_of st i s'"
proof (induction es arbitrary: st)
  case (Cons e es)
  obtain r1 st1 where r: "(if he_port e = port then hash_ent_remove st i used s e else (False, st)) = (r1, st1)"
    by fastforce
  have 1: "has_header st1 i" "ring_of st1 i s' = ring_of st i s'"
    using r hash_ent_remove_ring [OF Cons.prems(1) assms(1)] assms(2) Cons.prems(1) by (auto split: if_splits)
  have "(ret, st') = (r1, st1) \<or> ring_loop port i used s es st1 = (ret, st')"
    using Cons.prems(2) r by (auto simp: Let_def split: if_splits)
  then show ?case using Cons.IH [OF 1(1)] 1 by auto
qed simp

text \<open>After the head of a ring has been removed, the loop ends.\<close>

lemma ring_loop_head:
  assumes "has_header st i" "s < NET_HASH_SIZE" "ring_of st i s = ea # eb # es" "he_port ea = port"
    and "ring_loop port i used s (ring_of st i s) st = (ret, st')"
  shows "has_header st' i \<and> ring_of st' i s = eb # es"
proof -
  obtain r1 st1 where r: "hash_ent_remove st i used s ea = (r1, st1)" by fastforce
  have 1: "has_header st1 i" "ring_of st1 i s = eb # es" "\<not> r1"
    using hash_ent_remove_ring [OF assms(1,2) r] assms(3) by auto
  then have "(ret, st') = (False, st1)" using assms(3-5) r by (auto simp: Let_def ring_of_def)
  then show ?thesis using 1 by simp
qed

lemma slots_loop_other:
  "has_header st i \<Longrightarrow> s' \<notin> set slots \<Longrightarrow> \<forall>s \<in> set slots. s < NET_HASH_SIZE \<Longrightarrow>
     ring_of (slots_loop port i used slots st) i s' = ring_of st i s'"
proof (induction slots arbitrary: st)
  case (Cons s slots)
  obtain ret st1 where r: "ring_loop port i used s (hash_table (headers st ! i) ! s) st = (ret, st1)" by fastforce
  then have "has_header st1 i \<and> ring_of st1 i s' = ring_of st i s'"
    using ring_loop_other [OF _ _ Cons.prems(1) r] Cons.prems(2,3) by auto
  then show ?case using Cons r by auto
qed simp

lemma slots_loop_misses:
  "has_header st i \<Longrightarrow> s' \<in> set slots \<Longrightarrow> distinct slots \<Longrightarrow> \<forall>s \<in> set slots. s < NET_HASH_SIZE \<Longrightarrow>
     ring_of st i s' = ea # eb # es \<Longrightarrow> he_port ea = port \<Longrightarrow>
     eb \<in> set (ring_of (slots_loop port i used slots st) i s')"
proof (induction slots arbitrary: st)
  case (Cons s slots)
  obtain ret st1 where r: "ring_loop port i used s (hash_table (headers st ! i) ! s) st = (ret, st1)" by fastforce
  have s: "s < NET_HASH_SIZE" using Cons.prems(4) by simp
  have eq: "slots_loop port i used (s # slots) st = (if ret then st1 else slots_loop port i used slots st1)" using r by simp
  show ?case
  proof (cases "s = s'")
    case True
    have r': "ring_loop port i used s (ring_of st i s) st = (ret, st1)" using r by (simp add: ring_of_def)
    have 1: "has_header st1 i" "ring_of st1 i s' = eb # es"
      using ring_loop_head [OF Cons.prems(1) s _ Cons.prems(6) r'] Cons.prems(5) True by blast+
    then have "ring_of (slots_loop port i used slots st1) i s' = eb # es"
      using slots_loop_other [OF 1(1)] Cons.prems(3,4) True by simp
    then show ?thesis using 1 unfolding eq by simp
  next
    case False
    then have 1: "has_header st1 i" "ring_of st1 i s' = ea # eb # es"
      using ring_loop_other [OF s not_sym [OF False] Cons.prems(1) r] Cons.prems(5) by simp_all
    have "eb \<in> set (ring_of (slots_loop port i used slots st1) i s')"
      using Cons.IH [OF 1(1) _ _ _ 1(2) Cons.prems(6)] Cons.prems(2-4) False by simp
    then show ?thesis using 1 unfolding eq by simp
  qed
qed simp

text \<open>
  When the ring of a hash value begins with an entry of a dead port, the loop of
  \<open>remove_dead_filter\<close> ends after it has removed this entry, since the next entry is the new
  head of the ring. The entry after it stays in the table even if it belongs to the same
  dead port.
\<close>

theorem remove_dead_filter_misses:
  assumes "rcv_list st = [Dummy i]" and "rcv_port (infp_data st (Dummy i)) = 0" and "i < length (headers st)"
    and "length (hash_table (headers st ! i)) = NET_HASH_SIZE" and "slot < NET_HASH_SIZE"
    and "hash_table (headers st ! i) ! slot = ea # eb # es" and "he_port ea = port"
  shows "\<exists>st'. remove_dead_filter st True port = Some st' \<and> eb \<in> set (hash_table (headers st' ! i) ! slot)"
proof -
  have "has_header st i" "ring_of st i slot = ea # eb # es" using assms(3,4,6) by (simp_all add: has_header_def ring_of_def)
  then have "eb \<in> set (ring_of (slots_loop port i False [0 ..< NET_HASH_SIZE] st) i slot)"
    using assms(5,7) by (intro slots_loop_misses) auto
  then show ?thesis using assms(1,2) by (simp add: remove_dead_filter_def ring_of_def)
qed

definition two_sessions :: filters where
  "two_sessions = no_filters\<lparr>rcv_list := [Dummy 0],
     headers := [no_header\<lparr>n_keys := 1, ref_count := 2,
       hash_table := [\<lparr>he_id = 1, he_port = 5, he_keys = [0, 0, 0, 0]\<rparr>, \<lparr>he_id = 2, he_port = 5, he_keys = [0, 0, 0, 0]\<rparr>] #
         replicate 255 []\<rparr>]\<rparr>"

theorem remove_dead_filter_misses_witness:
  "\<exists>st'. remove_dead_filter two_sessions True 5 = Some st' \<and>
    \<lparr>he_id = 2, he_port = 5, he_keys = [0, 0, 0, 0]\<rparr> \<in> set (hash_table (headers st' ! 0) ! 0)"
  by (rule remove_dead_filter_misses [where ea = "\<lparr>he_id = 1, he_port = 5, he_keys = [0, 0, 0, 0]\<rparr>" and es = "[]"])
    (simp_all add: two_sessions_def infp_data_def no_header_def NET_HASH_SIZE_def)

end
