(* ===== verification/Refcount.thy ===== *)
theory Refcount
  imports Hurd_Prelude
begin

text \<open>
  Reference counts without locks (\<^verbatim>\<open>libshouldbeinlibc/refcount.h\<close>). A pair of counts, hard and weak
  references, is one 64 bit word that is changed by atomic additions; the hard count is in the
  lower half. \<open>None\<close> is a failed assertion. The properties show that the additions, with their carries, act
  on the two counts as they should, and detect overflow and underflow.
\<close>

section \<open>Simple counts\<close>

type_synonym refcount = u32

abbreviation UINT_MAX :: u32 where "UINT_MAX \<equiv> - 1"
abbreviation UINT32_MAX :: u32 where "UINT32_MAX \<equiv> - 1"

definition refcount_init :: "u32 \<Rightarrow> refcount option" where
  "refcount_init n = (if n > 0 then Some n else None)"

definition refcount_unsafe_ref :: "refcount \<Rightarrow> refcount option" where
  "refcount_unsafe_ref v = (let r = v + 1 in if r = UINT_MAX then None else Some r)"

definition refcount_ref :: "refcount \<Rightarrow> refcount option" where
  "refcount_ref v = (case refcount_unsafe_ref v of None \<Rightarrow> None | Some r \<Rightarrow> if r = 1 then None else Some r)"

definition refcount_deref :: "refcount \<Rightarrow> refcount option" where
  "refcount_deref v = (let r = v - 1 in if r = UINT_MAX then None else Some r)"

section \<open>Hard and weak counts\<close>

type_synonym refcounts = u64

record references =
  hard :: u32
  weak :: u32

text \<open>The two views of the union.\<close>

definition refs_value :: "references \<Rightarrow> refcounts" where
  "refs_value r = word_cat (weak r) (hard r)"

definition value_refs :: "refcounts \<Rightarrow> references" where
  "value_refs v = \<lparr>hard = ucast v, weak = ucast (drop_bit 32 v)\<rparr>"

abbreviation REFCOUNT_REFERENCES :: "u32 \<Rightarrow> u32 \<Rightarrow> references" where
  "REFCOUNT_REFERENCES h w \<equiv> \<lparr>hard = h, weak = w\<rparr>"

definition refcounts_init :: "u32 \<Rightarrow> u32 \<Rightarrow> refcounts option" where
  "refcounts_init h w = (if h \<noteq> 0 \<or> w \<noteq> 0 then Some (refs_value (REFCOUNT_REFERENCES h w)) else None)"

definition refcounts_unsafe_ref :: "refcounts \<Rightarrow> refcounts option" where
  "refcounts_unsafe_ref v =
     (let r = v + refs_value (REFCOUNT_REFERENCES 1 0) in if hard (value_refs r) = UINT32_MAX then None else Some r)"

definition refcounts_ref :: "refcounts \<Rightarrow> refcounts option" where
  "refcounts_ref v =
     (case refcounts_unsafe_ref v of
        None \<Rightarrow> None
      | Some r \<Rightarrow> if hard (value_refs r) = 1 \<and> weak (value_refs r) = 0 then None else Some r)"

definition refcounts_deref :: "refcounts \<Rightarrow> refcounts option" where
  "refcounts_deref v =
     (let r = v - refs_value (REFCOUNT_REFERENCES 1 0) in if hard (value_refs r) = UINT32_MAX then None else Some r)"

definition refcounts_promote :: "refcounts \<Rightarrow> refcounts option" where
  "refcounts_promote v =
     (let r = v + refs_value (REFCOUNT_REFERENCES 1 (NOT 0))
      in if hard (value_refs r) = UINT32_MAX then None else if weak (value_refs r) = UINT32_MAX then None else Some r)"

definition refcounts_demote :: "refcounts \<Rightarrow> refcounts option" where
  "refcounts_demote v =
     (let r = v + refs_value (REFCOUNT_REFERENCES (NOT 0) 0)
      in if hard (value_refs r) = UINT32_MAX then None else if weak (value_refs r) = UINT32_MAX then None else Some r)"

definition refcounts_unsafe_ref_weak :: "refcounts \<Rightarrow> refcounts option" where
  "refcounts_unsafe_ref_weak v =
     (let r = v + refs_value (REFCOUNT_REFERENCES 0 1) in if weak (value_refs r) = UINT32_MAX then None else Some r)"

definition refcounts_ref_weak :: "refcounts \<Rightarrow> refcounts option" where
  "refcounts_ref_weak v =
     (case refcounts_unsafe_ref_weak v of
        None \<Rightarrow> None
      | Some r \<Rightarrow> if hard (value_refs r) = 0 \<and> weak (value_refs r) = 1 then None else Some r)"

definition refcounts_deref_weak :: "refcounts \<Rightarrow> refcounts option" where
  "refcounts_deref_weak v =
     (let r = v - refs_value (REFCOUNT_REFERENCES 0 1) in if weak (value_refs r) = UINT32_MAX then None else Some r)"

definition refcounts_references :: "refcounts \<Rightarrow> references" where
  "refcounts_references v = value_refs v"

definition refcounts_hard_references :: "refcounts \<Rightarrow> u32" where
  "refcounts_hard_references v = hard (refcounts_references v)"

definition refcounts_weak_references :: "refcounts \<Rightarrow> u32" where
  "refcounts_weak_references v = weak (refcounts_references v)"

section \<open>Counts\<close>

definition counts :: "refcounts \<Rightarrow> nat \<times> nat" where
  "counts v = (unat (hard (value_refs v)), unat (weak (value_refs v)))"

abbreviation ref_max :: nat where "ref_max \<equiv> 2 ^ 32 - 1"

datatype ref_op = Ref | Deref | Promote | Demote | Ref_Weak | Deref_Weak

fun ref_apply :: "ref_op \<Rightarrow> refcounts \<Rightarrow> refcounts option" where
  "ref_apply Ref v = refcounts_ref v"
| "ref_apply Deref v = refcounts_deref v"
| "ref_apply Promote v = refcounts_promote v"
| "ref_apply Demote v = refcounts_demote v"
| "ref_apply Ref_Weak v = refcounts_ref_weak v"
| "ref_apply Deref_Weak v = refcounts_deref_weak v"

text \<open>What the operations should do: a count may not reach the largest number, nor be taken from when it is zero, and an object without references stays dead.\<close>

fun ref_spec :: "ref_op \<Rightarrow> nat \<times> nat \<Rightarrow> (nat \<times> nat) option" where
  "ref_spec Ref (h, w) = (if h + 1 < ref_max \<and> (h, w) \<noteq> (0, 0) then Some (h + 1, w) else None)"
| "ref_spec Deref (h, w) = (if 0 < h then Some (h - 1, w) else None)"
| "ref_spec Promote (h, w) = (if 0 < w \<and> h + 1 < ref_max then Some (h + 1, w - 1) else None)"
| "ref_spec Demote (h, w) = (if 0 < h \<and> w + 1 < ref_max then Some (h - 1, w + 1) else None)"
| "ref_spec Ref_Weak (h, w) = (if w + 1 < ref_max \<and> (h, w) \<noteq> (0, 0) then Some (h, w + 1) else None)"
| "ref_spec Deref_Weak (h, w) = (if 0 < w then Some (h, w - 1) else None)"

text \<open>A sequence of operations, which ends when one fails.\<close>

primrec ref_run :: "(ref_op \<Rightarrow> 'v \<Rightarrow> 'v option) \<Rightarrow> ref_op list \<Rightarrow> 'v \<Rightarrow> 'v option" where
  "ref_run f [] v = Some v"
| "ref_run f (op # ops) v = Option.bind (f op v) (ref_run f ops)"

lemma unat_refs_value: "unat (refs_value r) = unat (hard r) + 2 ^ 32 * unat (weak r)"
proof -
  have b: "unat (hard r) < 2 ^ 32" "unat (weak r) < 2 ^ 32"
    using unsigned_less [of "hard r", where 'a = nat] unsigned_less [of "weak r", where 'a = nat] by simp_all
  have u: "(ucast x :: u64) = of_nat (unat x)" for x :: u32 by (simp add: of_nat_unat)
  have "refs_value r = of_nat (unat (hard r) + 2 ^ 32 * unat (weak r))"
    unfolding refs_value_def word_cat_eq u push_bit_eq_mult by (simp add: mult.commute add.commute)
  moreover have "unat (hard r) + 2 ^ 32 * unat (weak r) < 2 ^ 64" using b by simp
  moreover have "unat (of_nat x :: u64) = x" if "x < 2 ^ 64" for x using that by (simp add: unat_of_nat take_bit_eq_mod)
  ultimately show ?thesis by metis
qed

lemma hard_value: "unat (hard (value_refs v)) = unat v mod 2 ^ 32"
  by (simp add: value_refs_def unsigned_ucast_eq take_bit_eq_mod)

lemma weak_value: "unat (weak (value_refs v)) = unat v div 2 ^ 32"
proof -
  have "unat v div 2 ^ 32 < 2 ^ 32" using unsigned_less [of v, where 'a = nat] by simp
  moreover have "unat (ucast (drop_bit 32 v) :: u32) = (unat v div 2 ^ 32) mod 2 ^ 32"
    unfolding unsigned_ucast_eq unat_drop_bit_eq by (simp add: take_bit_eq_mod drop_bit_eq_div)
  ultimately show ?thesis by (simp add: value_refs_def)
qed

lemma counts_unat: "counts v = (unat v mod 2 ^ 32, unat v div 2 ^ 32)"
  by (simp only: counts_def hard_value weak_value)

lemma countsI: "unat v = h + 2 ^ 32 * w \<Longrightarrow> h < 2 ^ 32 \<Longrightarrow> counts v = (h, w)"
  by (simp add: counts_unat)

lemma counts_cases:
  obtains h w where "unat v = h + 2 ^ 32 * w" "h < 2 ^ 32" "w < 2 ^ 32" "counts v = (h, w)"
proof -
  have "unat v div 2 ^ 32 < 2 ^ 32" using unsigned_less [of v, where 'a = nat] by simp
  then show ?thesis using that [of "unat v mod 2 ^ 32" "unat v div 2 ^ 32"] by (simp add: counts_unat)
qed

lemma unat_minus_1: "unat (- 1 :: u32) = ref_max"
  by (simp add: unsigned_minus_1_eq_mask mask_eq_exp_minus_1)

lemma unat_max: "x = (UINT32_MAX :: u32) \<longleftrightarrow> unat x = ref_max"
  unfolding unat_minus_1 [symmetric] by (rule word_eq_iff_unsigned)

lemma unat_small: "x = (0 :: u32) \<longleftrightarrow> unat x = 0" "x = (1 :: u32) \<longleftrightarrow> unat x = 1"
  by (metis unsigned_0 unsigned_1 word_eq_iff_unsigned)+

lemma unat_add64: "unat (v + a :: u64) = (unat v + unat a) mod 2 ^ 64"
  by (simp add: unat_word_ariths)

lemma unat_sub64: "unat a \<le> unat v \<Longrightarrow> unat (v - a :: u64) = unat v - unat a"
  by (simp add: unat_sub_if')

lemma unat_sub64_less: "unat v < unat a \<Longrightarrow> unat (v - a :: u64) = 2 ^ 64 + unat v - unat a"
  by (simp add: unat_sub_if')

lemma unat_ops:
  "unat (refs_value (REFCOUNT_REFERENCES 1 0)) = 1" "unat (refs_value (REFCOUNT_REFERENCES 0 1)) = 2 ^ 32"
  "unat (refs_value (REFCOUNT_REFERENCES 1 (NOT 0))) = 2 ^ 64 - 2 ^ 32 + 1"
  "unat (refs_value (REFCOUNT_REFERENCES (NOT 0) 0)) = 2 ^ 32 - 1"
  unfolding unat_refs_value by (simp_all add: unat_minus_1)

text \<open>The sum and the difference of a pair of counts, when no count leaves its range.\<close>

lemma counts_refs: "counts v = (h, w) \<Longrightarrow> unat (hard (value_refs v)) = h \<and> unat (weak (value_refs v)) = w"
  by (simp add: counts_def)

lemmas ref_defs = refcounts_ref_def refcounts_unsafe_ref_def refcounts_deref_def refcounts_promote_def refcounts_demote_def
  refcounts_ref_weak_def refcounts_unsafe_ref_weak_def refcounts_deref_weak_def

lemma ref_apply_spec:
  assumes c: "unat v = h + 2 ^ 32 * w" and b: "h < ref_max" "w < ref_max"
  shows "map_option counts (ref_apply op v) = ref_spec op (h, w)"
proof (cases op)
  case Ref
  have 1: "counts (v + refs_value (REFCOUNT_REFERENCES 1 0)) = (h + 1, w)"
    by (rule countsI, unfold unat_add64 unat_ops) (use c b in simp_all)
  show ?thesis using 1 counts_refs [OF 1] b Ref by (auto simp: ref_defs Let_def unat_max unat_small)
next
  case Deref
  show ?thesis
  proof (cases "0 < h")
    case True
    have 1: "counts (v - refs_value (REFCOUNT_REFERENCES 1 0)) = (h - 1, w)"
      by (rule countsI) (use c b True in \<open>simp_all add: unat_sub64 unat_ops\<close>)
    show ?thesis using 1 counts_refs [OF 1] b Deref True by (auto simp: ref_defs Let_def unat_max)
  next
    case False
    have "unat (hard (value_refs (v - refs_value (REFCOUNT_REFERENCES 1 0)))) = ref_max"
    proof (cases "w = 0")
      case True
      then show ?thesis using False c by (simp add: hard_value unat_sub64_less unat_ops)
    next
      case w: False
      have "counts (v - refs_value (REFCOUNT_REFERENCES 1 0)) = (ref_max, w - 1)"
        by (rule countsI) (use c b w False in \<open>auto simp: unat_sub64 unat_ops algebra_simps\<close>)
      then show ?thesis by (simp add: counts_refs)
    qed
    then show ?thesis using Deref False by (simp add: ref_defs Let_def unat_max)
  qed
next
  case Promote
  show ?thesis
  proof (cases "0 < w")
    case True
    then have "(h + 2 ^ 32 * w + (2 ^ 64 - 2 ^ 32 + 1)) = (h + 1 + 2 ^ 32 * (w - 1)) + 2 ^ 64" by (cases w) simp_all
    moreover have "h + 1 + 2 ^ 32 * (w - 1) < 2 ^ 64" using b by simp
    ultimately have "(h + 2 ^ 32 * w + (2 ^ 64 - 2 ^ 32 + 1)) mod 2 ^ 64 = h + 1 + 2 ^ 32 * (w - 1)" by (metis mod_add_self2 mod_less)
    then have "unat (v + refs_value (REFCOUNT_REFERENCES 1 (NOT 0))) = h + 1 + 2 ^ 32 * (w - 1)"
      unfolding unat_add64 unat_ops c .
    then have 1: "counts (v + refs_value (REFCOUNT_REFERENCES 1 (NOT 0))) = (h + 1, w - 1)"
      using b by (intro countsI) simp_all
    show ?thesis using 1 counts_refs [OF 1] b Promote True by (auto simp: ref_defs Let_def unat_max)
  next
    case False
    have 1: "counts (v + refs_value (REFCOUNT_REFERENCES 1 (NOT 0))) = (h + 1, ref_max)"
      by (rule countsI, unfold unat_add64 unat_ops) (use c b False in simp_all)
    show ?thesis using counts_refs [OF 1] Promote False by (auto simp: ref_defs Let_def unat_max)
  qed
next
  case Demote
  show ?thesis
  proof (cases "0 < h")
    case True
    have 1: "counts (v + refs_value (REFCOUNT_REFERENCES (NOT 0) 0)) = (h - 1, w + 1)"
      by (rule countsI, unfold unat_add64 unat_ops) (use c b True in simp_all)
    show ?thesis using 1 counts_refs [OF 1] b Demote True by (auto simp: ref_defs Let_def unat_max)
  next
    case False
    have 1: "counts (v + refs_value (REFCOUNT_REFERENCES (NOT 0) 0)) = (ref_max, w)"
      by (rule countsI, unfold unat_add64 unat_ops) (use c b False in simp_all)
    show ?thesis using counts_refs [OF 1] Demote False by (auto simp: ref_defs Let_def unat_max)
  qed
next
  case Ref_Weak
  have 1: "counts (v + refs_value (REFCOUNT_REFERENCES 0 1)) = (h, w + 1)"
    by (rule countsI, unfold unat_add64 unat_ops) (use c b in simp_all)
  show ?thesis using 1 counts_refs [OF 1] b Ref_Weak by (auto simp: ref_defs Let_def unat_max unat_small)
next
  case Deref_Weak
  show ?thesis
  proof (cases "0 < w")
    case True
    have 1: "counts (v - refs_value (REFCOUNT_REFERENCES 0 1)) = (h, w - 1)"
      by (rule countsI) (use c b True in \<open>cases w, simp_all add: unat_sub64 unat_ops\<close>)
    show ?thesis using 1 counts_refs [OF 1] b Deref_Weak True by (auto simp: ref_defs Let_def unat_max)
  next
    case False
    have 1: "counts (v - refs_value (REFCOUNT_REFERENCES 0 1)) = (h, ref_max)"
      by (rule countsI) (use c b False in \<open>simp_all add: unat_sub64_less unat_ops\<close>)
    show ?thesis using counts_refs [OF 1] Deref_Weak False by (auto simp: ref_defs Let_def unat_max)
  qed
qed

lemma refcounts_refines:
  assumes "fst (counts v) < ref_max" "snd (counts v) < ref_max"
  shows "map_option counts (ref_apply op v) = ref_spec op (counts v)"
proof -
  obtain h w where "unat v = h + 2 ^ 32 * w" "counts v = (h, w)" using counts_cases by metis
  then show ?thesis using ref_apply_spec assms by simp
qed

section \<open>The interface of counts\<close>

text \<open>What clients of reference counts rely on, whatever the representation: each operation acts as specified on the pair of counts.\<close>

locale ref_counter =
  fixes app :: "ref_op \<Rightarrow> 'v \<Rightarrow> 'v option" and cnt :: "'v \<Rightarrow> nat \<times> nat"
  assumes refines: "fst (cnt v) < ref_max \<Longrightarrow> snd (cnt v) < ref_max \<Longrightarrow> map_option cnt (app op v) = ref_spec op (cnt v)"
begin

definition bounded :: "'v \<Rightarrow> bool" where
  "bounded v \<longleftrightarrow> fst (cnt v) < ref_max \<and> snd (cnt v) < ref_max"

lemma one_step:
  assumes "app op v = Some v'" "bounded v"
  shows "ref_spec op (cnt v) = Some (cnt v')" "bounded v'"
proof -
  show s: "ref_spec op (cnt v) = Some (cnt v')" using refines [of v op] assms by (simp add: bounded_def)
  obtain h w h' w' where "cnt v = (h, w)" "cnt v' = (h', w')" by fastforce
  then show "bounded v'" using s assms(2) by (cases op) (auto simp: bounded_def split: if_splits)
qed

lemma many_steps: "bounded v \<Longrightarrow> map_option cnt (ref_run app ops v) = ref_run ref_spec ops (cnt v)"
proof (induction ops arbitrary: v)
  case (Cons op ops)
  show ?case
  proof (cases "app op v")
    case None
    then show ?thesis using refines [of v op] Cons.prems by (simp add: bounded_def)
  next
    case (Some v')
    then show ?thesis using one_step [OF Some Cons.prems] Cons.IH by simp
  qed
qed simp

end

interpretation packed: ref_counter ref_apply counts
  by unfold_locales (rule refcounts_refines)

text \<open>Without the test for use after free, as lookups take references.\<close>

lemma refcounts_unsafe_ref_counts:
  assumes "fst (counts v) < ref_max" "snd (counts v) < ref_max" "counts v \<noteq> (0, 0)"
  shows "refcounts_unsafe_ref v = refcounts_ref v"
proof -
  obtain h w where c: "unat v = h + 2 ^ 32 * w" "counts v = (h, w)" using counts_cases by metis
  have "counts (v + refs_value (REFCOUNT_REFERENCES 1 0)) = (h + 1, w)"
    by (rule countsI, unfold unat_add64 unat_ops) (use c assms in simp_all)
  then have "\<not> (hard (value_refs (v + refs_value (REFCOUNT_REFERENCES 1 0))) = 1 \<and> weak (value_refs (v + refs_value (REFCOUNT_REFERENCES 1 0))) = 0)"
    using assms(3) c(2) by (auto simp: counts_def)
  then show ?thesis by (auto simp: refcounts_ref_def refcounts_unsafe_ref_def Let_def)
qed

section \<open>Property\<close>

text \<open>
  C22. The packed counts. From a word whose counts are both below the largest number, any sequence of
  operations on the 64 bit word acts as the intended operations on the pair of counts: taking, dropping, promoting and demoting
  references change exactly the counts they should, with no carry or borrow between them that is not
  wanted; overflow, underflow and taking a first reference of a dead object fail an assertion.
\<close>

theorem refcounts_refine:
  assumes "fst (counts v) < ref_max" "snd (counts v) < ref_max"
  shows "map_option counts (ref_run ref_apply ops v) = ref_run ref_spec ops (counts v)"
  using assms by (intro packed.many_steps) (simp add: packed.bounded_def)

theorem refcounts_refine_witness:
  "map_option counts (ref_run ref_apply [Demote, Ref_Weak] (refs_value (REFCOUNT_REFERENCES 1 2))) = Some (0, 4) \<and>
    map_option counts (ref_run ref_apply [Demote, Deref] (refs_value (REFCOUNT_REFERENCES 1 2))) = None"
proof -
  have "counts (refs_value (REFCOUNT_REFERENCES 1 2)) = (1, 2)" by (rule countsI) (simp_all add: unat_refs_value)
  then show ?thesis
    using refcounts_refine [of "refs_value (REFCOUNT_REFERENCES 1 2)" "[Demote, Ref_Weak]"]
      refcounts_refine [of "refs_value (REFCOUNT_REFERENCES 1 2)" "[Demote, Deref]"] by simp
qed

end
