(* ===== verification/Ports_Deferred.thy ===== *)
theory Ports_Deferred
  imports Hurd_Prelude
begin

text \<open>
  Deferred dereferencing of port objects (\<^verbatim>\<open>libports/port-deref-deferred.c\<close>, \<^verbatim>\<open>port-deref-deferred.h\<close>).
  A thread pool has two generations of threads and of objects; the objects of the old generation are
  dereferenced when every old thread has been through a quiescent period. The objects are of any
  type, a failed assertion is \<open>None\<close>. The counters are integers; that they count threads, and so never
  underflow, is part of the invariant. Leaving the pool repeats a step until the thread
  is young; the loop has fuel.
\<close>

section \<open>Thread pools\<close>

type_synonym color = u32

abbreviation COLOR_BLACK :: color where "COLOR_BLACK \<equiv> 0"
abbreviation COLOR_WHITE :: color where "COLOR_WHITE \<equiv> 1"
abbreviation COLOR_INVALID :: color where "COLOR_INVALID \<equiv> - 1"

record 'o threadpool =
  pool_color :: color
  old_threads :: int
  old_objects :: "'o list"
  young_threads :: int
  young_objects :: "'o list"

definition valid_color :: "color \<Rightarrow> bool" where
  "valid_color c \<longleftrightarrow> c = COLOR_BLACK \<or> c = COLOR_WHITE"

definition flip_color :: "color \<Rightarrow> color option" where
  "flip_color c = (if valid_color c then Some (if c = 0 then 1 else 0) else None)"

definition ports_threadpool_init :: "'o threadpool" where
  "ports_threadpool_init =
     \<lparr>pool_color = COLOR_BLACK, old_threads = 0, old_objects = [], young_threads = 0, young_objects = []\<rparr>"

definition flip_generations :: "'o threadpool \<Rightarrow> 'o threadpool option" where
  "flip_generations p =
     (if old_threads p \<noteq> 0 \<or> old_objects p \<noteq> [] then None
      else
        map_option
          (\<lambda>c. p\<lparr>old_threads := young_threads p, old_objects := young_objects p, young_threads := 0,
                 young_objects := [], pool_color := c\<rparr>)
          (flip_color (pool_color p)))"

definition ports_thread_online :: "'o threadpool \<Rightarrow> ('o threadpool \<times> color) option" where
  "ports_thread_online p = map_option (\<lambda>c. (p\<lparr>young_threads := young_threads p + 1\<rparr>, c)) (flip_color (pool_color p))"

text \<open>The result has the objects to be dereferenced after the lock has been released, in order.\<close>

definition ports_thread_quiescent :: "'o threadpool \<Rightarrow> color \<Rightarrow> ('o threadpool \<times> color \<times> 'o list) option" where
  "ports_thread_quiescent p c =
     (if \<not> valid_color c then None
      else if c = pool_color p then
        (case flip_color c of
           None \<Rightarrow> None
         | Some c' \<Rightarrow>
             let p1 = p\<lparr>old_threads := old_threads p - 1, young_threads := young_threads p + 1\<rparr>
             in if old_threads p1 = 0
                then map_option (\<lambda>p2. (p2, c', old_objects p1)) (flip_generations (p1\<lparr>old_objects := []\<rparr>))
                else Some (p1, c', []))
      else Some (p, c, []))"

datatype 'a run = Returns 'a | Aborts | Running

definition thread_leave :: "'o threadpool \<Rightarrow> 'o threadpool \<times> color" where
  "thread_leave p = (p\<lparr>young_threads := young_threads p - 1\<rparr>, COLOR_INVALID)"

fun offline_loop :: "nat \<Rightarrow> 'o threadpool \<Rightarrow> color \<Rightarrow> 'o list \<Rightarrow> ('o threadpool \<times> color \<times> 'o list) run" where
  "offline_loop 0 p c fl = Running"
| "offline_loop (Suc n) p c fl =
     (if c = pool_color p then
        (case ports_thread_quiescent p c of
           None \<Rightarrow> Aborts
         | Some (p1, c1, fl1) \<Rightarrow> offline_loop n p1 c1 (fl @ fl1))
      else let (p1, c1) = thread_leave p in Returns (p1, c1, fl))"

definition ports_thread_offline :: "nat \<Rightarrow> 'o threadpool \<Rightarrow> color \<Rightarrow> ('o threadpool \<times> color \<times> 'o list) run" where
  "ports_thread_offline n p c = (if \<not> valid_color c then Aborts else offline_loop n p c [])"

text \<open>When there is no memory the object is never dereferenced.\<close>

definition ports_port_deref_deferred :: "'o \<Rightarrow> 'o threadpool \<Rightarrow> allocs \<Rightarrow> ('o threadpool \<times> allocs) option" where
  "ports_port_deref_deferred pi p orc =
     (case alloc orc of
        (None, o1) \<Rightarrow> Some (p, o1)
      | (Some _, o1) \<Rightarrow>
          let p1 = p\<lparr>young_objects := pi # young_objects p\<rparr>
          in if old_threads p1 = 0
             then if old_objects p1 \<noteq> [] then None else map_option (\<lambda>p2. (p2, o1)) (flip_generations p1)
             else Some (p1, o1))"

section \<open>All interleavings\<close>

text \<open>
  The threads of a pool, with their colors. An object is tagged with the moment at which it was
  scheduled; \<open>seen t\<close> is the moment at which thread \<open>t\<close> joined the pool or was last quiescent.
\<close>

record pool_sys =
  pool :: "(nat \<times> nat) threadpool"
  colors :: "nat \<Rightarrow> color option"
  now :: nat
  seen :: "nat \<Rightarrow> nat"

definition pool_start :: pool_sys where
  "pool_start = \<lparr>pool = ports_threadpool_init, colors = (\<lambda>_. None), now = 0, seen = (\<lambda>_. 0)\<rparr>"

definition quiet :: "nat \<Rightarrow> (nat \<times> nat) threadpool \<Rightarrow> color \<Rightarrow> pool_sys \<Rightarrow> pool_sys" where
  "quiet t p c s = s\<lparr>pool := p, colors := (colors s)(t \<mapsto> c), now := now s + 1, seen := (seen s)(t := now s)\<rparr>"

inductive pool_step :: "pool_sys \<Rightarrow> pool_sys \<Rightarrow> bool" where
  online: "colors s t = None \<Longrightarrow> ports_thread_online (pool s) = Some (p, c) \<Longrightarrow> pool_step s (quiet t p c s)"
| quiescent: "colors s t = Some c \<Longrightarrow> ports_thread_quiescent (pool s) c = Some (p, c', fl) \<Longrightarrow>
    pool_step s (quiet t p c' s)"
| leave: "colors s t = Some c \<Longrightarrow> c \<noteq> pool_color (pool s) \<Longrightarrow>
    pool_step s (s\<lparr>pool := fst (thread_leave (pool s)), colors := (colors s)(t := None), now := now s + 1\<rparr>)"
| schedule: "ports_port_deref_deferred (pi, now s) (pool s) orc = Some (p, orc') \<Longrightarrow>
    pool_step s (s\<lparr>pool := p, now := now s + 1\<rparr>)"

inductive pool_reach :: "pool_sys \<Rightarrow> bool" where
  start: "pool_reach pool_start"
| step: "pool_reach s \<Longrightarrow> pool_step s s' \<Longrightarrow> pool_reach s'"

definition olds :: "pool_sys \<Rightarrow> nat set" where
  "olds s = {t. colors s t = Some (pool_color (pool s))}"

definition youngs :: "pool_sys \<Rightarrow> nat set" where
  "youngs s = {t. \<exists>c. colors s t = Some c \<and> c \<noteq> pool_color (pool s)}"

definition pool_inv :: "pool_sys \<Rightarrow> bool" where
  "pool_inv s \<longleftrightarrow>
     valid_color (pool_color (pool s)) \<and> (\<forall>t c. colors s t = Some c \<longrightarrow> valid_color c \<and> seen s t < now s) \<and>
     finite (dom (colors s)) \<and> old_threads (pool s) = int (card (olds s)) \<and> young_threads (pool s) = int (card (youngs s)) \<and>
     (\<forall>(pi, d) \<in> set (old_objects (pool s)) \<union> set (young_objects (pool s)). d < now s) \<and>
     (\<forall>(pi, d) \<in> set (old_objects (pool s)). \<forall>t \<in> youngs s. d < seen s t)"

definition flipped :: "color \<Rightarrow> color" where
  "flipped c = (if c = 0 then 1 else 0)"

lemma flip_color_valid [simp]:
  "valid_color c \<Longrightarrow> flip_color c = Some (flipped c)" "valid_color (flipped c)" "flipped c \<noteq> c" "c \<noteq> flipped c"
  by (auto simp: valid_color_def flip_color_def flipped_def)

lemma other_color: "valid_color c \<Longrightarrow> valid_color d \<Longrightarrow> c \<noteq> d \<longleftrightarrow> c = flipped d"
  unfolding valid_color_def flipped_def by (elim disjE) simp_all

lemma pool_invD:
  assumes "pool_inv s"
  shows "valid_color (pool_color (pool s))" "\<And>t c. colors s t = Some c \<Longrightarrow> valid_color c" "\<And>t c. colors s t = Some c \<Longrightarrow> seen s t < now s"
    "finite (olds s)" "finite (youngs s)" "finite (dom (colors s))" "old_threads (pool s) = int (card (olds s))"
    "young_threads (pool s) = int (card (youngs s))" "\<And>pi d. (pi, d) \<in> set (old_objects (pool s)) \<Longrightarrow> d < now s"
    "\<And>pi d. (pi, d) \<in> set (young_objects (pool s)) \<Longrightarrow> d < now s"
    "\<And>pi d t. (pi, d) \<in> set (old_objects (pool s)) \<Longrightarrow> t \<in> youngs s \<Longrightarrow> d < seen s t"
proof -
  show f: "finite (dom (colors s))" using assms by (simp add: pool_inv_def)
  show "finite (olds s)" "finite (youngs s)" by (rule finite_subset [OF _ f], force simp: olds_def youngs_def)+
qed (use assms in \<open>auto simp: pool_inv_def\<close>)

lemma pool_invI:
  assumes "valid_color (pool_color (pool s))" "\<And>t c. colors s t = Some c \<Longrightarrow> valid_color c \<and> seen s t < now s"
    "finite (dom (colors s))" "old_threads (pool s) = int (card (olds s))" "young_threads (pool s) = int (card (youngs s))"
    "\<And>pi d. (pi, d) \<in> set (old_objects (pool s)) \<Longrightarrow> d < now s" "\<And>pi d. (pi, d) \<in> set (young_objects (pool s)) \<Longrightarrow> d < now s"
    "\<And>pi d t. (pi, d) \<in> set (old_objects (pool s)) \<Longrightarrow> t \<in> youngs s \<Longrightarrow> d < seen s t"
  shows "pool_inv s"
  using assms by (fastforce simp: pool_inv_def)

lemma dom_split: "dom (colors s) = olds s \<union> youngs s" "olds s \<inter> youngs s = {}"
  by (auto simp: olds_def youngs_def)

text \<open>The generations flip when no thread is old: then every thread is.\<close>

lemma flip_generations_inv:
  assumes i: "pool_inv s" and f: "flip_generations (pool s) = Some p"
  shows "pool_inv (s\<lparr>pool := p\<rparr>)" "old_threads p = int (card (dom (colors s)))" "young_threads p = 0"
    "pool_color p = flipped (pool_color (pool s))" "young_objects p = []" "old_objects p = young_objects (pool s)"
proof -
  note d = pool_invD [OF i]
  have o: "olds s = {}" and p: "p = (pool s)\<lparr>old_threads := young_threads (pool s), old_objects := young_objects (pool s), young_threads := 0,
      young_objects := [], pool_color := flipped (pool_color (pool s))\<rparr>"
    using f d(1,4,7) by (simp_all add: flip_generations_def split: if_splits)
  have c: "olds (s\<lparr>pool := p\<rparr>) = youngs s" "youngs (s\<lparr>pool := p\<rparr>) = {}"
  proof -
    have y: "c = flipped (pool_color (pool s))" if "colors s t = Some c" for t c
      using that o other_color [OF d(2) [OF that] d(1)] unfolding olds_def by blast
    show "olds (s\<lparr>pool := p\<rparr>) = youngs s" "youngs (s\<lparr>pool := p\<rparr>) = {}"
      using y flip_color_valid(3) unfolding olds_def youngs_def p by (simp_all, metis option.sel)
  qed
  show "pool_inv (s\<lparr>pool := p\<rparr>)" by (rule pool_invI) (use d c in \<open>simp_all add: p\<close>)
  show "old_threads p = int (card (dom (colors s)))" "young_threads p = 0" "young_objects p = []"
    "pool_color p = flipped (pool_color (pool s))" "old_objects p = young_objects (pool s)"
    using o dom_split [of s] d(8) by (simp_all add: p)
qed

lemma pool_inv_now: "pool_inv s \<Longrightarrow> pool_inv (s\<lparr>now := Suc (now s)\<rparr>)"
  unfolding pool_inv_def olds_def youngs_def by (simp add: less_Suc_eq split: prod.splits)

text \<open>An old thread that is quiescent becomes young.\<close>

lemma become_young:
  assumes i: "pool_inv s" and t: "t \<in> olds s"
  defines "s1 \<equiv> s\<lparr>pool := (pool s)\<lparr>old_threads := old_threads (pool s) - 1, young_threads := young_threads (pool s) + 1\<rparr>,
    colors := (colors s)(t \<mapsto> flipped (pool_color (pool s))), now := now s + 1, seen := (seen s)(t := now s)\<rparr>"
  shows "pool_inv s1" "olds s1 = olds s - {t}" "youngs s1 = insert t (youngs s)"
proof -
  note d = pool_invD [OF i]
  show c: "olds s1 = olds s - {t}" "youngs s1 = insert t (youngs s)" using d(1) t by (auto simp: olds_def youngs_def s1_def)
  have n: "t \<notin> youngs s" using t dom_split(2) by blast
  show "pool_inv s1"
  proof (rule pool_invI)
    show "old_threads (pool s1) = int (card (olds s1))" "young_threads (pool s1) = int (card (youngs s1))"
      unfolding c using d(4,5,7,8) t n card_gt_0_iff [of "olds s"] by (auto simp: s1_def card_Diff_singleton of_nat_diff)
    show "valid_color c \<and> seen s1 u < now s1" if "colors s1 u = Some c" for u c
      using that d(1,2,3) by (auto simp: s1_def less_Suc_eq split: if_splits)
    show "e < seen s1 u" if "(pi, e) \<in> set (old_objects (pool s1))" "u \<in> youngs s1" for pi e u
      using that d(9,11) unfolding c by (auto simp: s1_def)
  qed (use d(1,6,9,10) in \<open>auto simp: s1_def less_Suc_eq\<close>)
qed

lemma pool_first:
  "s\<lparr>colors := a, now := b, seen := c, pool := p\<rparr> = s\<lparr>pool := p, colors := a, now := b, seen := c\<rparr>"
  "s\<lparr>now := b, pool := p\<rparr> = s\<lparr>pool := p, now := b\<rparr>" for s :: pool_sys
  by (cases s; simp)+

text \<open>The two ways in which a quiescent old thread goes on.\<close>

lemma quiescent_old:
  assumes i: "pool_inv s" and t: "t \<in> olds s" and q: "ports_thread_quiescent (pool s) (pool_color (pool s)) = Some (p, c, fl)"
  shows "pool_inv (quiet t p c s)" "c = flipped (pool_color (pool s))"
    "if olds s = {t} then fl = old_objects (pool s) \<and> old_threads p = int (card (dom (colors s))) \<and> pool_color p = c
     else fl = [] \<and> pool_color p = pool_color (pool s)"
proof -
  note d = pool_invD [OF i] and y = become_young [OF i t]
  let ?p1 = "(pool s)\<lparr>old_threads := old_threads (pool s) - 1, young_threads := young_threads (pool s) + 1\<rparr>"
  let ?s1 = "s\<lparr>pool := ?p1, colors := (colors s)(t \<mapsto> flipped (pool_color (pool s))), now := now s + 1, seen := (seen s)(t := now s)\<rparr>"
  have last: "old_threads (pool s) - 1 = 0 \<longleftrightarrow> olds s = {t}"
    using d(4,7) t by (auto simp: card_1_singleton_iff)
  have "pool_inv (quiet t p c s) \<and> c = flipped (pool_color (pool s)) \<and>
    (if olds s = {t} then fl = old_objects (pool s) \<and> old_threads p = int (card (dom (colors s))) \<and> pool_color p = c
     else fl = [] \<and> pool_color p = pool_color (pool s))"
  proof (cases "olds s = {t}")
    case True
    then have f: "flip_generations (?p1\<lparr>old_objects := []\<rparr>) = Some p" "c = flipped (pool_color (pool s))" "fl = old_objects (pool s)"
      using q d(1) last by (auto simp: ports_thread_quiescent_def Let_def)
    have i2: "pool_inv (?s1\<lparr>pool := ?p1\<lparr>old_objects := []\<rparr>\<rparr>)"
      using y(1) by (simp add: pool_inv_def olds_def youngs_def)
    have "dom ((colors s)(t \<mapsto> c)) = dom (colors s)" using t by (auto simp: olds_def)
    then show ?thesis
      using True f flip_generations_inv [OF i2, of p] by (simp add: quiet_def pool_first)
  next
    case False
    then have "p = ?p1" "c = flipped (pool_color (pool s))" "fl = []"
      using q d(1) last by (auto simp: ports_thread_quiescent_def Let_def)
    then show ?thesis using False y(1) by (simp add: quiet_def)
  qed
  then show "pool_inv (quiet t p c s)" "c = flipped (pool_color (pool s))"
    "if olds s = {t} then fl = old_objects (pool s) \<and> old_threads p = int (card (dom (colors s))) \<and> pool_color p = c
     else fl = [] \<and> pool_color p = pool_color (pool s)" by blast+
qed

lemma quiescent_young:
  assumes i: "pool_inv s" and t: "colors s t = Some c" "c \<noteq> pool_color (pool s)" and q: "ports_thread_quiescent (pool s) c = Some (p, c', fl)"
  shows "pool_inv (quiet t p c' s)" "fl = []"
proof -
  note d = pool_invD [OF i]
  have e: "p = pool s" "c' = c" "fl = []" using q t(2) by (auto simp: ports_thread_quiescent_def split: if_splits)
  show "fl = []" by (rule e(3))
  have c: "olds (quiet t p c' s) = olds s" "youngs (quiet t p c' s) = youngs s" "(colors s)(t \<mapsto> c) = colors s"
    using t by (auto simp: olds_def youngs_def quiet_def e)
  show "pool_inv (quiet t p c' s)"
    by (rule pool_invI, unfold c) (use c(3) d in \<open>auto simp: quiet_def e less_Suc_eq\<close>)
qed

lemma pool_step_inv: "pool_step s s' \<Longrightarrow> pool_inv s \<Longrightarrow> pool_inv s'"
proof (induction rule: pool_step.induct)
  case (online s t p c)
  note d = pool_invD [OF online(3)]
  have e: "c = flipped (pool_color (pool s))" "p = (pool s)\<lparr>young_threads := young_threads (pool s) + 1\<rparr>"
    using online(2) d(1) by (auto simp: ports_thread_online_def)
  have c: "olds (quiet t p c s) = olds s" "youngs (quiet t p c s) = insert t (youngs s)" "t \<notin> youngs s"
    using online(1) by (auto simp: olds_def youngs_def quiet_def e)
  show ?case
    by (rule pool_invI, unfold c) (use c(3) d in \<open>auto simp: quiet_def e less_Suc_eq split: if_splits\<close>)
next
  case (quiescent s t c p c' fl)
  show ?case
  proof (cases "c = pool_color (pool s)")
    case True
    then show ?thesis using quiescent quiescent_old(1) by (auto simp: olds_def)
  next
    case False
    then show ?thesis using quiescent quiescent_young(1) by blast
  qed
next
  case (leave s t c)
  note d = pool_invD [OF leave(3)]
  let ?s = "s\<lparr>pool := fst (thread_leave (pool s)), colors := (colors s)(t := None), now := now s + 1\<rparr>"
  have c: "olds ?s = olds s" "youngs ?s = youngs s - {t}" "t \<in> youngs s"
    using leave(1,2) by (auto simp: olds_def youngs_def thread_leave_def)
  have "0 < card (youngs s)" using c(3) d(5) card_gt_0_iff by blast
  then show ?case
    by (intro pool_invI, unfold c)
      (use c(3) d in \<open>auto simp: thread_leave_def less_Suc_eq card_Diff_singleton of_nat_diff split: if_splits\<close>)
next
  case (schedule pi s orc p orc')
  note d = pool_invD [OF schedule(2)]
  let ?p = "(pool s)\<lparr>young_objects := (pi, now s) # young_objects (pool s)\<rparr>"
  let ?s = "s\<lparr>now := Suc (now s)\<rparr>\<lparr>pool := ?p\<rparr>"
  have i: "pool_inv ?s"
    using pool_inv_now [OF schedule(2)] by (auto simp: pool_inv_def olds_def youngs_def)
  consider "p = pool s" | "p = ?p" | "flip_generations (pool ?s) = Some p"
    using schedule(1) by (auto simp: ports_port_deref_deferred_def Let_def split: option.splits prod.splits if_splits)
  then show ?case
  proof cases
    case 1
    then show ?thesis using pool_inv_now [OF schedule(2)] by simp
  next
    case 2
    then show ?thesis using i by (simp add: pool_first)
  next
    case 3
    then show ?thesis using flip_generations_inv(1) [OF i 3] by (simp add: pool_first)
  qed
qed

lemma pool_reach_inv: "pool_reach s \<Longrightarrow> pool_inv s"
proof (induction rule: pool_reach.induct)
  case start
  show ?case by (simp add: pool_inv_def pool_start_def ports_threadpool_init_def valid_color_def olds_def youngs_def)
qed (rule pool_step_inv)

section \<open>An example\<close>

text \<open>Threads 1 and 2 join, object 7 is scheduled, thread 1 is quiescent.\<close>

definition ex_one :: pool_sys where
  "ex_one = \<lparr>pool = ports_threadpool_init\<lparr>young_threads := 1\<rparr>, colors = [1 \<mapsto> 1], now = 1, seen = (\<lambda>_. 0)\<rparr>"

definition ex_old :: pool_sys where
  "ex_old = \<lparr>pool = \<lparr>pool_color = 1, old_threads = 1, old_objects = [(7, 1)], young_threads = 0, young_objects = []\<rparr>,
     colors = [1 \<mapsto> 1], now = 2, seen = (\<lambda>_. 0)\<rparr>"

definition ex_two :: pool_sys where
  "ex_two = \<lparr>pool = \<lparr>pool_color = 1, old_threads = 1, old_objects = [(7, 1)], young_threads = 1, young_objects = []\<rparr>,
     colors = [1 \<mapsto> 1, 2 \<mapsto> 0], now = 3, seen = (\<lambda>_. 0)(2 := 2)\<rparr>"

lemma ex_reach: "pool_reach ex_one" "pool_reach ex_old" "pool_reach ex_two"
proof -
  have "ports_thread_online (pool pool_start) = Some (ports_threadpool_init\<lparr>young_threads := 1\<rparr>, 1)"
    by (simp add: ports_thread_online_def pool_start_def ports_threadpool_init_def flip_color_def valid_color_def)
  then have "pool_step pool_start (quiet 1 (ports_threadpool_init\<lparr>young_threads := 1\<rparr>) 1 pool_start)"
    by (intro pool_step.online) (simp_all add: pool_start_def)
  moreover have "quiet 1 (ports_threadpool_init\<lparr>young_threads := 1\<rparr>) 1 pool_start = ex_one"
    by (simp add: quiet_def ex_one_def pool_start_def fun_eq_iff)
  ultimately show 1: "pool_reach ex_one" using pool_reach.step [OF pool_reach.start] by simp
  have "ports_port_deref_deferred (7, now ex_one) (pool ex_one) [] = Some (pool ex_old, [])"
    by (simp add: ports_port_deref_deferred_def flip_generations_def alloc_def Let_def ex_one_def ex_old_def
        ports_threadpool_init_def flip_color_def valid_color_def)
  from pool_step.schedule [OF this] have "pool_step ex_one ex_old" by (simp add: ex_one_def ex_old_def numeral_2_eq_2)
  then show 2: "pool_reach ex_old" using pool_reach.step [OF 1] by blast
  have "ports_thread_online (pool ex_old) = Some (pool ex_two, 0)"
    by (simp add: ports_thread_online_def ex_old_def ex_two_def flip_color_def valid_color_def)
  from pool_step.online [OF _ this, of 2] have "pool_step ex_old (quiet 2 (pool ex_two) 0 ex_old)" by (simp add: ex_old_def)
  moreover have "quiet 2 (pool ex_two) 0 ex_old = ex_two" by (simp add: quiet_def ex_old_def ex_two_def numeral_2_eq_2 numeral_3_eq_3)
  ultimately show "pool_reach ex_two" using pool_reach.step [OF 2] by simp
qed

section \<open>Properties\<close>

text \<open>
  C23. Grace period. Whatever threads join, are quiescent, leave and schedule objects in any order: when a
  quiescent thread releases an object for dereferencing, every other thread of the pool
  has joined it or been quiescent after the object was scheduled.
\<close>

theorem ports_deferred_grace_period:
  assumes "pool_reach s" "colors s t = Some c" "ports_thread_quiescent (pool s) c = Some (p, c', fl)" "(pi, d) \<in> set fl"
    and "colors s u = Some e" "u \<noteq> t"
  shows "d < seen s u"
proof -
  have i: "pool_inv s" using assms(1) by (rule pool_reach_inv)
  have f: "fl \<noteq> []" using assms(4) by auto
  then have c: "c = pool_color (pool s)" using quiescent_young(2) [OF i assms(2) _ assms(3)] by blast
  then have t: "t \<in> olds s" using assms(2) by (simp add: olds_def)
  have "olds s = {t} \<and> fl = old_objects (pool s)"
    using quiescent_old(3) [OF i t assms(3) [unfolded c]] f by presburger
  moreover have "u \<in> olds s \<union> youngs s" using assms(5) dom_split(1) [of s] by blast
  ultimately show ?thesis using pool_invD(11) [OF i, of pi d u] assms(4,6) by blast
qed

theorem ports_deferred_grace_period_witness:
  "(\<exists>p c fl. ports_thread_quiescent (pool ex_two) 1 = Some (p, c, fl) \<and> (7, 1) \<in> set fl) \<and> 1 < seen ex_two 2"
proof -
  have "\<exists>p c fl. ports_thread_quiescent (pool ex_two) 1 = Some (p, c, fl) \<and> (7, 1) \<in> set fl"
    by (simp add: ports_thread_quiescent_def flip_generations_def flip_color_def valid_color_def ex_two_def)
  then obtain p c fl where q: "ports_thread_quiescent (pool ex_two) 1 = Some (p, c, fl)" "(7, 1) \<in> set fl" by blast
  have "colors ex_two 1 = Some 1" "colors ex_two 2 = Some 0" by (simp_all add: ex_two_def)
  from ports_deferred_grace_period [OF ex_reach(3) this(1) q this(2)] q show ?thesis by simp
qed

lemma quiescent_some:
  assumes "pool_inv s" "t \<in> olds s"
  obtains p c fl where "ports_thread_quiescent (pool s) (pool_color (pool s)) = Some (p, c, fl)"
proof -
  note d = pool_invD [OF assms(1)]
  show ?thesis
    using that d(1) by (cases "old_threads (pool s) - 1 = 0") (auto simp: ports_thread_quiescent_def flip_generations_def Let_def)
qed

lemma quiet_simps [simp]: "pool (quiet t p c s) = p" "colors (quiet t p c s) = (colors s)(t \<mapsto> c)"
  by (simp_all add: quiet_def)

text \<open>The only thread of a pool that is old becomes young and, with the generations, old again.\<close>

lemma offline_last:
  "pool_inv s \<Longrightarrow> dom (colors s) = {t} \<Longrightarrow> t \<in> olds s \<Longrightarrow> offline_loop n (pool s) (pool_color (pool s)) fl = Running"
proof (induction n arbitrary: s fl)
  case (Suc n)
  obtain p c fl1 where q: "ports_thread_quiescent (pool s) (pool_color (pool s)) = Some (p, c, fl1)"
    using quiescent_some [OF Suc.prems(1,3)] .
  have o: "olds s = {t}" using Suc.prems(2,3) dom_split(1) [of s] by blast
  note r = quiescent_old [OF Suc.prems(1,3) q]
  have c: "pool_color p = c" using r(3) o by simp
  have "offline_loop n (pool (quiet t p c s)) (pool_color (pool (quiet t p c s))) (fl @ fl1) = Running"
    by (rule Suc.IH [OF r(1)]) (use Suc.prems(2) c in \<open>auto simp: olds_def\<close>)
  then show ?case using q c by simp
qed simp

lemma offline_young: "c \<noteq> pool_color p \<Longrightarrow> offline_loop (Suc n) p c fl = Returns (fst (thread_leave p), snd (thread_leave p), fl)"
  by (simp split: prod.split)

lemma offline_old:
  assumes i: "pool_inv s" "t \<in> olds s" "olds s \<noteq> {t}"
  shows "\<exists>r. offline_loop (Suc (Suc n)) (pool s) (pool_color (pool s)) fl = Returns r"
proof -
  obtain p c fl1 where q: "ports_thread_quiescent (pool s) (pool_color (pool s)) = Some (p, c, fl1)"
    using quiescent_some [OF i(1,2)] .
  have c: "c \<noteq> pool_color p" using quiescent_old(2,3) [OF i(1,2) q] i(3) by simp
  show ?thesis using q offline_young [OF c] by simp
qed

text \<open>
  C24. Leaving a thread pool. A thread that goes offline returns if it is young or another thread
  is in the pool; the last thread of a pool that is old never returns: being quiescent makes it
  young, and because it was the last old thread, the generations flip and it is old again.
\<close>

theorem ports_thread_offline_returns:
  assumes "pool_reach s" "colors s t = Some c"
  shows "(\<exists>n r. ports_thread_offline n (pool s) c = Returns r) \<longleftrightarrow>
    c \<noteq> pool_color (pool s) \<or> (\<exists>u. u \<noteq> t \<and> colors s u \<noteq> None)"
proof -
  have i: "pool_inv s" using assms(1) by (rule pool_reach_inv)
  have v: "valid_color c" using pool_invD(2) [OF i assms(2)] .
  have off: "ports_thread_offline n (pool s) c = offline_loop n (pool s) c []" for n using v by (simp add: ports_thread_offline_def)
  show ?thesis
  proof (cases "c = pool_color (pool s)")
    case True
    then have t: "t \<in> olds s" using assms(2) by (simp add: olds_def)
    show ?thesis
    proof (cases "\<exists>u. u \<noteq> t \<and> colors s u \<noteq> None")
      case u: True
      obtain p c1 fl where q: "ports_thread_quiescent (pool s) (pool_color (pool s)) = Some (p, c1, fl)" using quiescent_some [OF i t] .
      note r = quiescent_old [OF i t q]
      have "\<exists>r. offline_loop (Suc (Suc (Suc 0))) (pool s) (pool_color (pool s)) [] = Returns r"
      proof (cases "olds s = {t}")
        case last: True
        then have c1: "pool_color p = c1" using r(3) by simp
        have i1: "pool_inv (quiet t p c1 s)" and t1: "t \<in> olds (quiet t p c1 s)" using r(1) c1 by (simp_all add: olds_def)
        obtain v where v: "v \<noteq> t" "colors s v \<noteq> None" using u by blast
        have "int (card (olds (quiet t p c1 s))) = int (card (dom (colors s)))" using pool_invD(7) [OF i1] r(3) last by simp
        moreover have "card {t, v} \<le> card (dom (colors s))" using v t pool_invD(6) [OF i] by (intro card_mono) (auto simp: olds_def)
        moreover have "card {t, v} = 2" using v(1) by simp
        ultimately have "card (olds (quiet t p c1 s)) \<noteq> 1" by linarith
        then have "olds (quiet t p c1 s) \<noteq> {t}" by force
        then show ?thesis using offline_old [OF i1 t1, of 0 fl] q c1 by simp
      next
        case False
        then show ?thesis using offline_old [OF i t] by blast
      qed
      then show ?thesis unfolding off using u True by blast
    next
      case False
      then have "dom (colors s) \<subseteq> {t}" by blast
      moreover have "t \<in> dom (colors s)" using assms(2) by (rule domI)
      ultimately have "dom (colors s) = {t}" by blast
      then have "offline_loop n (pool s) c [] = Running" for n using offline_last [OF i _ t] True by simp
      then have "\<not> (\<exists>n r. offline_loop n (pool s) c [] = Returns r)" by (metis run.distinct(3))
      then show ?thesis unfolding off using False True by blast
    qed
  next
    case False
    then show ?thesis unfolding off using offline_young [OF False, of 0 "[]"] by blast
  qed
qed

theorem ports_thread_offline_returns_witness:
  "(\<exists>n r. ports_thread_offline n (pool ex_two) 1 = Returns r) \<and> \<not> (\<exists>n r. ports_thread_offline n (pool ex_old) 1 = Returns r)"
proof -
  have 1: "colors ex_two 1 = Some 1" "colors ex_two 2 \<noteq> None" "colors ex_old 1 = Some 1" by (simp_all add: ex_two_def ex_old_def)
  have "(\<exists>n r. ports_thread_offline n (pool ex_two) 1 = Returns r)"
    unfolding ports_thread_offline_returns [OF ex_reach(3) 1(1)] using 1(2) by (intro disjI2 exI [of _ 2]) simp
  moreover have "\<not> (\<exists>n r. ports_thread_offline n (pool ex_old) 1 = Returns r)"
    unfolding ports_thread_offline_returns [OF ex_reach(2) 1(3)] by (simp add: ex_old_def)
  ultimately show ?thesis ..
qed

text \<open>
  A pool without threads. Objects scheduled while no thread is in the pool are never released: the first
  becomes old at once, and scheduling a second one fails an assertion.
\<close>

theorem ports_deferred_no_threads:
  assumes "pool_reach s" "colors s = (\<lambda>_. None)" "old_objects (pool s) = []"
  shows "\<exists>p. ports_port_deref_deferred pi (pool s) (Some j # orc) = Some (p, orc) \<and> pi \<in> set (old_objects p) \<and>
    ports_port_deref_deferred pi' p (Some j' # orc) = None"
proof -
  note d = pool_invD [OF pool_reach_inv [OF assms(1)]]
  have o: "old_threads (pool s) = 0" "young_threads (pool s) = 0"
    using d(7,8) assms(2) by (simp_all add: olds_def youngs_def)
  show ?thesis using o d(1) assms(3)
    by (simp add: ports_port_deref_deferred_def flip_generations_def alloc_def Let_def)
qed

theorem ports_deferred_no_threads_witness:
  "\<exists>p. ports_port_deref_deferred (7, 0) (pool pool_start) [Some 0] = Some (p, []) \<and> (7, 0) \<in> set (old_objects p) \<and>
    ports_port_deref_deferred (8, 0) p [Some 0] = None"
proof -
  have "colors pool_start = (\<lambda>_. None)" "old_objects (pool pool_start) = []"
    by (simp_all add: pool_start_def ports_threadpool_init_def)
  from ports_deferred_no_threads [OF pool_reach.start this] show ?thesis by blast
qed

end
