(* ===== verification/Ports.thy ===== *)
theory Ports
  imports Refcount Ports_Deferred
begin

text \<open>
  The data of \<^verbatim>\<open>libports\<close> (\<^verbatim>\<open>ports.h\<close>, \<^verbatim>\<open>init.c\<close>): port objects, classes, buckets, the table of all ports, and the
  RPCs in progress. A set of flags stands for the bits of a flag word. The lists of current RPCs that hang off the port
  objects are one list whose elements name their port; the hash tables are association lists from port names to
  objects, newest first. The state also has the threads that have been cancelled, the number of broadcasts on the one
  condition of the library, the objects whose clean routine has been called and those that have been freed.
\<close>

datatype port_flag = INHIBITED | BLOCKED | INHIBIT_WAIT | NO_ALLOC | ALLOC_WAIT | HAS_SENDRIGHTS

record port_info =
  pclass :: nat
  refcounts :: refcounts
  mscount :: u32
  cancel_threshold :: u32
  pflags :: "port_flag set"
  port_right :: mach_port
  pbucket :: nat

type_synonym port_table = "(mach_port \<times> nat) list"

record port_bucket =
  portset :: mach_port
  htable :: port_table
  brpcs :: int
  bflags :: "port_flag set"
  bcount :: int
  threadpool :: "nat threadpool"
  notify_port :: nat

record port_class =
  cflags :: "port_flag set"
  crpcs :: int
  ccount :: int
  has_dropweak :: bool
  uninhibitable_rpcs :: "(int \<times> int) list"

record rpc_info =
  rpc_thread :: nat
  rpc_port :: nat
  rpc_msg :: int

record ports =
  infos :: "nat \<Rightarrow> port_info"
  classes :: "nat \<Rightarrow> port_class"
  buckets :: "nat \<Rightarrow> port_bucket"
  ports_htable :: port_table
  ports_total_rpcs :: int
  ports_flags :: "port_flag set"
  rpcs :: "rpc_info list"
  interrupted :: "rpc_info list"
  cancelled :: "nat list"
  broadcasts :: nat
  cleaned :: "nat list"
  freed :: "nat list"

definition current_rpcs :: "ports \<Rightarrow> nat \<Rightarrow> rpc_info list" where
  "current_rpcs st p = filter (\<lambda>r. rpc_port r = p) (rpcs st)"

end
