(* ===== verification/Ports_Rpc.thy ===== *)
theory Ports_Rpc
  imports Ports
begin

text \<open>
  Beginning, ending, interrupting and inhibiting RPCs (\<^verbatim>\<open>begin-rpc.c\<close>, \<^verbatim>\<open>end-rpc.c\<close>, \<^verbatim>\<open>interrupt-rpcs.c\<close>, \<^verbatim>\<open>interrupted.c\<close>,
  \<^verbatim>\<open>inhibit-*-rpcs.c\<close>, \<^verbatim>\<open>resume-*-rpcs.c\<close> of \<^verbatim>\<open>libports\<close>). RPCs can be inhibited for one port, a class, a bucket or
  everywhere: the scope of the request. A function that waits is split into passes; a pass runs with the
  lock held until it returns or waits.
\<close>

section \<open>Scopes\<close>

datatype scope = Everywhere | Bucket nat | Class nat | Port nat

definition scope_flags :: "scope \<Rightarrow> ports \<Rightarrow> port_flag set" where
  "scope_flags sc st =
     (case sc of
        Everywhere \<Rightarrow> ports_flags st | Bucket b \<Rightarrow> bflags (buckets st b)
      | Class c \<Rightarrow> cflags (classes st c) | Port p \<Rightarrow> pflags (infos st p))"

definition set_scope_flags :: "scope \<Rightarrow> port_flag set \<Rightarrow> ports \<Rightarrow> ports" where
  "set_scope_flags sc f st =
     (case sc of
        Everywhere \<Rightarrow> st\<lparr>ports_flags := f\<rparr>
      | Bucket b \<Rightarrow> st\<lparr>buckets := (buckets st)(b := (buckets st b)\<lparr>bflags := f\<rparr>)\<rparr>
      | Class c \<Rightarrow> st\<lparr>classes := (classes st)(c := (classes st c)\<lparr>cflags := f\<rparr>)\<rparr>
      | Port p \<Rightarrow> st\<lparr>infos := (infos st)(p := (infos st p)\<lparr>pflags := f\<rparr>)\<rparr>)"

definition inhibited :: "scope \<Rightarrow> ports \<Rightarrow> bool" where
  "inhibited sc st \<longleftrightarrow> INHIBITED \<in> scope_flags sc st \<or> INHIBIT_WAIT \<in> scope_flags sc st"

datatype 'a pass = Done 'a | Wait

section \<open>Beginning and ending an RPC\<close>

definition block_flags :: "ports \<Rightarrow> nat \<Rightarrow> scope option" where
  "block_flags st p =
     (if inhibited Everywhere st then Some Everywhere
      else if inhibited (Bucket (pbucket (infos st p))) st then Some (Bucket (pbucket (infos st p)))
      else if inhibited (Class (pclass (infos st p))) st then Some (Class (pclass (infos st p)))
      else if inhibited (Port p) st then Some (Port p)
      else None)"

fun in_ranges :: "int \<Rightarrow> (int \<times> int) list \<Rightarrow> bool" where
  "in_ranges m [] \<longleftrightarrow> False"
| "in_ranges m ((s, e) # rs) \<longleftrightarrow> (if m \<ge> s \<and> m < e then True else in_ranges m rs)"

definition uninhibitable :: "ports \<Rightarrow> nat \<Rightarrow> int \<Rightarrow> bool" where
  "uninhibitable st p msg \<longleftrightarrow> msg \<noteq> 0 \<and> in_ranges msg (uninhibitable_rpcs (classes st (pclass (infos st p))))"

definition record_rpc :: "rpc_info \<Rightarrow> ports \<Rightarrow> ports" where
  "record_rpc r st =
     (let c = pclass (infos st (rpc_port r)); b = pbucket (infos st (rpc_port r))
      in st\<lparr>rpcs := r # rpcs st,
            classes := (classes st)(c := (classes st c)\<lparr>crpcs := crpcs (classes st c) + 1\<rparr>),
            buckets := (buckets st)(b := (buckets st b)\<lparr>brpcs := brpcs (buckets st b) + 1\<rparr>),
            ports_total_rpcs := ports_total_rpcs st + 1\<rparr>)"

definition begin_pass :: "nat \<Rightarrow> int \<Rightarrow> nat \<Rightarrow> ports \<Rightarrow> error_t pass \<times> ports" where
  "begin_pass p msg self st =
     (if port_right (infos st p) = 0 then (Done EOPNOTSUPP, st)
      else
        (case block_flags st p of
           Some sc \<Rightarrow>
             if uninhibitable st p msg
             then (Done Success, record_rpc \<lparr>rpc_thread = self, rpc_port = p, rpc_msg = msg\<rparr> st)
             else (Wait, set_scope_flags sc (insert BLOCKED (scope_flags sc st)) st)
         | None \<Rightarrow> (Done Success, record_rpc \<lparr>rpc_thread = self, rpc_port = p, rpc_msg = msg\<rparr> st)))"

text \<open>An outcome of a wait: \<open>None\<close> is a cancellation, \<open>Some f\<close> a wake up after others have changed the state by \<open>f\<close>.\<close>

type_synonym ports_waits = "(ports \<Rightarrow> ports) option list"

fun ports_begin_rpc :: "nat \<Rightarrow> int \<Rightarrow> nat \<Rightarrow> ports_waits \<Rightarrow> ports \<Rightarrow> (error_t \<times> ports) option" where
  "ports_begin_rpc p msg self ws st =
     (case begin_pass p msg self st of
        (Done err, st1) \<Rightarrow> Some (err, st1)
      | (Wait, st1) \<Rightarrow>
          (case ws of
             [] \<Rightarrow> None
           | None # ws' \<Rightarrow> Some (EINTR, st1)
           | Some f # ws' \<Rightarrow> ports_begin_rpc p msg self ws' (f st1)))"

declare ports_begin_rpc.simps [simp del]

fun remove_interrupted :: "nat \<Rightarrow> rpc_info list \<Rightarrow> rpc_info list" where
  "remove_interrupted self [] = []"
| "remove_interrupted self (r # rs) = (if rpc_thread r = self then rs else r # remove_interrupted self rs)"

definition ports_self_interrupted :: "nat \<Rightarrow> ports \<Rightarrow> bool \<times> ports" where
  "ports_self_interrupted self st =
     (self \<in> rpc_thread ` set (interrupted st), st\<lparr>interrupted := remove_interrupted self (interrupted st)\<rparr>)"

definition ports_record_interruption :: "rpc_info \<Rightarrow> ports \<Rightarrow> ports" where
  "ports_record_interruption r st = (if r \<in> set (interrupted st) then st else st\<lparr>interrupted := r # interrupted st\<rparr>)"

definition forget_rpc :: "rpc_info \<Rightarrow> ports \<Rightarrow> ports" where
  "forget_rpc r st =
     (let c = pclass (infos st (rpc_port r)); b = pbucket (infos st (rpc_port r))
      in st\<lparr>rpcs := remove1 r (rpcs st),
            classes := (classes st)(c := (classes st c)\<lparr>crpcs := crpcs (classes st c) - 1\<rparr>),
            ports_total_rpcs := ports_total_rpcs st - 1,
            buckets := (buckets st)(b := (buckets st b)\<lparr>brpcs := brpcs (buckets st b) - 1\<rparr>)\<rparr>)"

definition ports_end_rpc :: "rpc_info \<Rightarrow> ports \<Rightarrow> ports" where
  "ports_end_rpc r st =
     (let p = rpc_port r; st1 = forget_rpc r st;
          st2 = (if INHIBIT_WAIT \<in> pflags (infos st1 p) \<or> INHIBIT_WAIT \<in> bflags (buckets st1 (pbucket (infos st1 p))) \<or>
                    INHIBIT_WAIT \<in> cflags (classes st1 (pclass (infos st1 p))) \<or> INHIBIT_WAIT \<in> ports_flags st1
                 then st1\<lparr>broadcasts := broadcasts st1 + 1\<rparr> else st1);
          st3 = snd (ports_self_interrupted (rpc_thread r) st2)
      in st3\<lparr>cancelled := removeAll (rpc_thread r) (cancelled st3)\<rparr>)"

definition hurd_thread_cancel :: "nat \<Rightarrow> ports \<Rightarrow> ports" where
  "hurd_thread_cancel t st = st\<lparr>cancelled := t # cancelled st\<rparr>"

fun interrupt_loop :: "nat \<Rightarrow> rpc_info list \<Rightarrow> ports \<Rightarrow> ports" where
  "interrupt_loop self [] st = st"
| "interrupt_loop self (r # rs) st =
     interrupt_loop self rs
       (if rpc_thread r \<noteq> self then ports_record_interruption r (hurd_thread_cancel (rpc_thread r) st) else st)"

definition ports_interrupt_rpcs :: "nat \<Rightarrow> nat \<Rightarrow> ports \<Rightarrow> ports" where
  "ports_interrupt_rpcs p self st = interrupt_loop self (current_rpcs st p) st"

section \<open>Inhibiting and resuming\<close>

text \<open>
  The RPCs that a request for a scope finds: those of the port, or those of the ports of the scope that are in the table
  of all ports, or in that of the bucket.
\<close>

definition found_rpcs :: "scope \<Rightarrow> ports \<Rightarrow> rpc_info list" where
  "found_rpcs sc st =
     (case sc of
        Everywhere \<Rightarrow> concat (map (\<lambda>(n, p). current_rpcs st p) (ports_htable st))
      | Bucket b \<Rightarrow> concat (map (\<lambda>(n, p). current_rpcs st p) (htable (buckets st b)))
      | Class c \<Rightarrow> concat (map (\<lambda>(n, p). if pclass (infos st p) \<noteq> c then [] else current_rpcs st p) (ports_htable st))
      | Port p \<Rightarrow> current_rpcs st p)"

text \<open>All of them are cancelled but that of the calling thread, which is returned.\<close>

fun cancel_loop :: "nat \<Rightarrow> rpc_info list \<Rightarrow> rpc_info option \<Rightarrow> ports \<Rightarrow> rpc_info option \<times> ports" where
  "cancel_loop self [] this st = (this, st)"
| "cancel_loop self (r # rs) this st =
     (if rpc_thread r = self then cancel_loop self rs (Some r) st
      else cancel_loop self rs this (hurd_thread_cancel (rpc_thread r) st))"

definition scope_busy :: "scope \<Rightarrow> rpc_info option \<Rightarrow> ports \<Rightarrow> bool" where
  "scope_busy sc this st =
     (let this_one = (if this = None then 0 else 1)
      in case sc of
           Everywhere \<Rightarrow> ports_total_rpcs st > this_one
         | Bucket b \<Rightarrow> brpcs (buckets st b) > this_one
         | Class c \<Rightarrow> crpcs (classes st c) > this_one
         | Port p \<Rightarrow> current_rpcs st p \<noteq> [] \<and> \<not> (Some (hd (current_rpcs st p)) = this \<and> tl (current_rpcs st p) = []))"

definition inhibit_pass :: "scope \<Rightarrow> rpc_info option \<Rightarrow> ports \<Rightarrow> error_t pass \<times> ports" where
  "inhibit_pass sc this st =
     (if scope_busy sc this st then (Wait, set_scope_flags sc (insert INHIBIT_WAIT (scope_flags sc st)) st)
      else (Done Success, set_scope_flags sc (insert INHIBITED (scope_flags sc st - {INHIBIT_WAIT})) st))"

definition inhibit_cancelled :: "scope \<Rightarrow> ports \<Rightarrow> ports" where
  "inhibit_cancelled sc st = set_scope_flags sc (scope_flags sc st - {INHIBIT_WAIT}) st"

fun inhibit_loop :: "scope \<Rightarrow> rpc_info option \<Rightarrow> ports_waits \<Rightarrow> ports \<Rightarrow> (error_t \<times> ports) option" where
  "inhibit_loop sc this ws st =
     (case inhibit_pass sc this st of
        (Done err, st1) \<Rightarrow> Some (err, st1)
      | (Wait, st1) \<Rightarrow>
          (case ws of
             [] \<Rightarrow> None
           | None # ws' \<Rightarrow> Some (EINTR, inhibit_cancelled sc st1)
           | Some f # ws' \<Rightarrow> inhibit_loop sc this ws' (f st1)))"

declare inhibit_loop.simps [simp del]

definition inhibit_rpcs :: "scope \<Rightarrow> nat \<Rightarrow> ports_waits \<Rightarrow> ports \<Rightarrow> (error_t \<times> ports) option" where
  "inhibit_rpcs sc self ws st =
     (if inhibited sc st then Some (EBUSY, st)
      else let (this, st1) = cancel_loop self (found_rpcs sc st) None st in inhibit_loop sc this ws st1)"

definition ports_inhibit_all_rpcs :: "nat \<Rightarrow> ports_waits \<Rightarrow> ports \<Rightarrow> (error_t \<times> ports) option" where
  "ports_inhibit_all_rpcs = inhibit_rpcs Everywhere"

definition ports_inhibit_bucket_rpcs :: "nat \<Rightarrow> nat \<Rightarrow> ports_waits \<Rightarrow> ports \<Rightarrow> (error_t \<times> ports) option" where
  "ports_inhibit_bucket_rpcs b = inhibit_rpcs (Bucket b)"

definition ports_inhibit_class_rpcs :: "nat \<Rightarrow> nat \<Rightarrow> ports_waits \<Rightarrow> ports \<Rightarrow> (error_t \<times> ports) option" where
  "ports_inhibit_class_rpcs c = inhibit_rpcs (Class c)"

definition ports_inhibit_port_rpcs :: "nat \<Rightarrow> nat \<Rightarrow> ports_waits \<Rightarrow> ports \<Rightarrow> (error_t \<times> ports) option" where
  "ports_inhibit_port_rpcs p = inhibit_rpcs (Port p)"

definition resume_rpcs :: "scope \<Rightarrow> ports \<Rightarrow> ports option" where
  "resume_rpcs sc st =
     (if INHIBITED \<notin> scope_flags sc st then None
      else
        let st1 = set_scope_flags sc (scope_flags sc st - {INHIBITED}) st
        in if BLOCKED \<in> scope_flags sc st1
           then Some ((set_scope_flags sc (scope_flags sc st1 - {BLOCKED}) st1)\<lparr>broadcasts := broadcasts st1 + 1\<rparr>)
           else Some st1)"

definition ports_resume_all_rpcs :: "ports \<Rightarrow> ports option" where
  "ports_resume_all_rpcs = resume_rpcs Everywhere"

definition ports_resume_bucket_rpcs :: "nat \<Rightarrow> ports \<Rightarrow> ports option" where
  "ports_resume_bucket_rpcs b = resume_rpcs (Bucket b)"

definition ports_resume_class_rpcs :: "nat \<Rightarrow> ports \<Rightarrow> ports option" where
  "ports_resume_class_rpcs c = resume_rpcs (Class c)"

definition ports_resume_port_rpcs :: "nat \<Rightarrow> ports \<Rightarrow> ports option" where
  "ports_resume_port_rpcs p = resume_rpcs (Port p)"

end
