(* ===== verification/Ports_Rpc_Props.thy ===== *)
theory Ports_Rpc_Props
  imports Ports_Rpc
begin

text \<open>
  What inhibiting RPCs guarantees, for all interleavings of threads that begin and end RPCs, interrupt
  them, inhibit and resume scopes, while port rights come and go.
\<close>

section \<open>Scopes and counters\<close>

definition in_scope :: "ports \<Rightarrow> scope \<Rightarrow> rpc_info \<Rightarrow> bool" where
  "in_scope st sc r \<longleftrightarrow>
     (case sc of
        Everywhere \<Rightarrow> True | Bucket b \<Rightarrow> pbucket (infos st (rpc_port r)) = b
      | Class c \<Rightarrow> pclass (infos st (rpc_port r)) = c | Port p \<Rightarrow> rpc_port r = p)"

definition scope_rpcs :: "ports \<Rightarrow> scope \<Rightarrow> rpc_info list" where
  "scope_rpcs st sc = filter (in_scope st sc) (rpcs st)"

definition counted :: "ports \<Rightarrow> bool" where
  "counted st \<longleftrightarrow>
     ports_total_rpcs st = int (length (rpcs st)) \<and>
     (\<forall>b. brpcs (buckets st b) = int (length (scope_rpcs st (Bucket b)))) \<and>
     (\<forall>c. crpcs (classes st c) = int (length (scope_rpcs st (Class c))))"

text \<open>Two states agree on what inhibiting is about.\<close>

definition same_rpcs :: "ports \<Rightarrow> ports \<Rightarrow> bool" where
  "same_rpcs st st' \<longleftrightarrow>
     rpcs st' = rpcs st \<and> ports_total_rpcs st' = ports_total_rpcs st \<and>
     (\<forall>b. brpcs (buckets st' b) = brpcs (buckets st b)) \<and>
     (\<forall>c. crpcs (classes st' c) = crpcs (classes st c) \<and> uninhibitable_rpcs (classes st' c) = uninhibitable_rpcs (classes st c)) \<and>
     (\<forall>p. pclass (infos st' p) = pclass (infos st p) \<and> pbucket (infos st' p) = pbucket (infos st p))"

definition tables_ok :: "ports \<Rightarrow> bool" where
  "tables_ok st \<longleftrightarrow> (\<forall>b n p. (n, p) \<in> set (htable (buckets st b)) \<longrightarrow> pbucket (infos st p) = b)"

lemma same_rpcs_simps:
  assumes "same_rpcs st st'"
  shows "rpcs st' = rpcs st" "in_scope st' = in_scope st" "scope_rpcs st' = scope_rpcs st" "counted st' = counted st"
    "uninhibitable st' = uninhibitable st" "scope_busy sc this st' = scope_busy sc this st" "current_rpcs st' = current_rpcs st"
proof -
  show i: "in_scope st' = in_scope st" using assms by (auto simp: same_rpcs_def in_scope_def fun_eq_iff split: scope.split)
  show r: "rpcs st' = rpcs st" using assms by (simp add: same_rpcs_def)
  show s: "scope_rpcs st' = scope_rpcs st" by (simp add: scope_rpcs_def i r fun_eq_iff)
  show "counted st' = counted st" using assms s r by (simp add: counted_def same_rpcs_def)
  show "uninhibitable st' = uninhibitable st" using assms by (simp add: uninhibitable_def same_rpcs_def fun_eq_iff)
  show c: "current_rpcs st' = current_rpcs st" by (simp add: current_rpcs_def r fun_eq_iff)
  show "scope_busy sc this st' = scope_busy sc this st" using assms c by (cases sc) (simp_all add: scope_busy_def same_rpcs_def)
qed

lemma scope_flags_set [simp]: "scope_flags sc' (set_scope_flags sc f st) = (if sc' = sc then f else scope_flags sc' st)"
  by (auto simp: scope_flags_def set_scope_flags_def split: scope.split)

lemma same_rpcs_set [simp]: "same_rpcs st (set_scope_flags sc f st)" "tables_ok (set_scope_flags sc f st) = tables_ok st"
  by (auto simp: same_rpcs_def set_scope_flags_def tables_ok_def split: scope.split)

lemma same_rpcs_refl [simp]: "same_rpcs st st"
  by (simp add: same_rpcs_def)

lemma same_rpcs_trans: "same_rpcs st st1 \<Longrightarrow> same_rpcs st1 st2 \<Longrightarrow> same_rpcs st st2"
  by (simp add: same_rpcs_def)

text \<open>Cancelling and interrupting threads changes nothing of this.\<close>

definition same_flags :: "ports \<Rightarrow> ports \<Rightarrow> bool" where
  "same_flags st st' \<longleftrightarrow> (\<forall>sc. \<forall>f \<in> {INHIBITED, INHIBIT_WAIT}. f \<in> scope_flags sc st' \<longleftrightarrow> f \<in> scope_flags sc st)"

lemma cancel_same [simp]:
  "same_rpcs st (hurd_thread_cancel t st)" "scope_flags sc (hurd_thread_cancel t st) = scope_flags sc st"
  "tables_ok (hurd_thread_cancel t st) = tables_ok st"
  by (simp_all add: hurd_thread_cancel_def same_rpcs_def scope_flags_def tables_ok_def split: scope.split)

lemma record_interruption_same [simp]:
  "same_rpcs st (ports_record_interruption r st)" "scope_flags sc (ports_record_interruption r st) = scope_flags sc st"
  "tables_ok (ports_record_interruption r st) = tables_ok st"
  by (simp_all add: ports_record_interruption_def same_rpcs_def scope_flags_def tables_ok_def split: scope.split)

lemma cancel_loop_same:
  "cancel_loop self rs this st = (this', st') \<Longrightarrow>
     same_rpcs st st' \<and> scope_flags sc st' = scope_flags sc st \<and> tables_ok st' = tables_ok st \<and>
     (this' = this \<or> (\<exists>r \<in> set rs. rpc_thread r = self \<and> this' = Some r))"
proof (induction self rs this st rule: cancel_loop.induct)
  case (2 self r rs this st)
  then show ?case using same_rpcs_trans [OF cancel_same(1)] by (fastforce split: if_splits)
qed simp

lemma interrupt_loop_same:
  "same_rpcs st (interrupt_loop self rs st) \<and> scope_flags sc (interrupt_loop self rs st) = scope_flags sc st \<and>
     tables_ok (interrupt_loop self rs st) = tables_ok st"
proof (induction self rs st rule: interrupt_loop.induct)
  case (2 self r rs st)
  have "same_rpcs st (ports_record_interruption r (hurd_thread_cancel (rpc_thread r) st))"
    using same_rpcs_trans [OF cancel_same(1) record_interruption_same(1)] .
  then show ?case using 2 same_rpcs_trans by (cases "rpc_thread r = self") simp_all
qed simp

lemma found_in_scope:
  assumes "tables_ok st" "r \<in> set (found_rpcs sc st)"
  shows "r \<in> set (rpcs st)" "in_scope st sc r"
  using assms by (auto simp: found_rpcs_def current_rpcs_def in_scope_def tables_ok_def split: scope.splits if_splits)

text \<open>A scope that is not busy has no RPC but that of the thread itself.\<close>

lemma not_busy:
  assumes "counted st" "\<not> scope_busy sc this st" "r \<in> set (rpcs st)" "in_scope st sc r"
    and "\<forall>q. this = Some q \<longrightarrow> q \<in> set (rpcs st) \<and> in_scope st sc q"
  shows "this = Some r"
proof -
  have r: "r \<in> set (scope_rpcs st sc)" using assms(3,4) by (simp add: scope_rpcs_def)
  have q: "this = Some q \<Longrightarrow> q \<in> set (scope_rpcs st sc)" for q using assms(5) by (simp add: scope_rpcs_def)
  have "this = Some r" if "int (length (scope_rpcs st sc)) \<le> (if this = None then 0 else 1)"
  proof (cases this)
    case None
    then show ?thesis using that r by simp
  next
    case (Some x)
    then have "length (scope_rpcs st sc) \<le> 1" using that by simp
    then obtain y where "scope_rpcs st sc = [] \<or> scope_rpcs st sc = [y]" by (cases "scope_rpcs st sc") auto
    then show ?thesis using r q [OF Some] Some by auto
  qed
  then show ?thesis
  proof (cases sc)
    case (Port p)
    have "current_rpcs st p = scope_rpcs st sc" 
      using Port unfolding current_rpcs_def scope_rpcs_def by (intro filter_cong) (simp_all add: in_scope_def)
    then show ?thesis using assms(2) r Port by (cases "scope_rpcs st sc") (auto simp: scope_busy_def Let_def)
  qed (use assms(1,2) in \<open>auto simp: scope_busy_def counted_def Let_def scope_rpcs_def in_scope_def\<close>)
qed

section \<open>Beginning and ending\<close>

lemma record_rpc_rpcs [simp]:
  "rpcs (record_rpc r st) = r # rpcs st" "infos (record_rpc r st) = infos st"
  "scope_flags sc (record_rpc r st) = scope_flags sc st" "in_scope (record_rpc r st) = in_scope st"
  "uninhibitable (record_rpc r st) = uninhibitable st" "tables_ok (record_rpc r st) = tables_ok st"
  by (auto simp: record_rpc_def Let_def scope_flags_def in_scope_def uninhibitable_def tables_ok_def fun_eq_iff split: scope.split)

lemma record_rpc_counted: "counted st \<Longrightarrow> counted (record_rpc r st)"
  by (auto simp: counted_def scope_rpcs_def) (auto simp: record_rpc_def Let_def in_scope_def)

lemma end_rpc_rpcs:
  "rpcs (ports_end_rpc r st) = remove1 r (rpcs st)" "infos (ports_end_rpc r st) = infos st"
  "scope_flags sc (ports_end_rpc r st) = scope_flags sc st" "in_scope (ports_end_rpc r st) = in_scope st"
  "uninhibitable (ports_end_rpc r st) = uninhibitable st" "tables_ok (ports_end_rpc r st) = tables_ok st"
  by (auto simp: ports_end_rpc_def forget_rpc_def ports_self_interrupted_def Let_def scope_flags_def in_scope_def uninhibitable_def
      tables_ok_def fun_eq_iff split: scope.split)

lemma length_filter_remove1:
  "r \<in> set xs \<Longrightarrow> length (filter P xs) = length (filter P (remove1 r xs)) + (if P r then 1 else 0)"
  by (induction xs) auto

lemma end_rpc_counted:
  assumes c: "counted st" and r: "r \<in> set (rpcs st)"
  shows "counted (ports_end_rpc r st)"
proof -
  have l: "int (length (filter P (remove1 r (rpcs st)))) = int (length (filter P (rpcs st))) - (if P r then 1 else 0)" for P
    using length_filter_remove1 [OF r, of P] by simp
  have t: "int (length (remove1 r (rpcs st))) = int (length (rpcs st)) - 1" using l [of "\<lambda>_. True"] by simp
  have "ports_total_rpcs (ports_end_rpc r st) = ports_total_rpcs st - 1"
    "brpcs (buckets (ports_end_rpc r st) b) = brpcs (buckets st b) - (if in_scope st (Bucket b) r then 1 else 0)"
    "crpcs (classes (ports_end_rpc r st) d) = crpcs (classes st d) - (if in_scope st (Class d) r then 1 else 0)" for b d
    by (auto simp: ports_end_rpc_def forget_rpc_def ports_self_interrupted_def Let_def in_scope_def)
  then show ?thesis using c by (simp add: counted_def scope_rpcs_def end_rpc_rpcs l t)
qed

section \<open>All interleavings\<close>

text \<open>
  The library with the threads that wait to inhibit a scope, each with its own RPC as found when
  it began, and the thread that inhibited a scope last. A thread handles one RPC at a time and does not end it
  while it waits. Other operations change port rights and tables.
\<close>

record rpc_sys =
  ps :: ports
  pend :: "nat \<Rightarrow> (scope \<times> rpc_info option) option"
  owner :: "scope \<Rightarrow> nat"

definition other_change :: "ports \<Rightarrow> ports \<Rightarrow> bool" where
  "other_change st st' \<longleftrightarrow> same_rpcs st st' \<and> same_flags st st' \<and> tables_ok st'"

definition inhibit_outcome :: "nat \<Rightarrow> scope \<Rightarrow> rpc_info option \<Rightarrow> error_t pass \<times> ports \<Rightarrow> rpc_sys \<Rightarrow> rpc_sys" where
  "inhibit_outcome t sc this r s =
     (case r of
        (Wait, st) \<Rightarrow> s\<lparr>ps := st, pend := (pend s)(t := Some (sc, this))\<rparr>
      | (Done err, st) \<Rightarrow> s\<lparr>ps := st, pend := (pend s)(t := None), owner := (owner s)(sc := t)\<rparr>)"

inductive rpc_step :: "rpc_sys \<Rightarrow> rpc_sys \<Rightarrow> bool" where
  begins: "t \<notin> rpc_thread ` set (rpcs (ps s)) \<Longrightarrow> pend s t = None \<Longrightarrow>
    rpc_step s (s\<lparr>ps := snd (begin_pass p msg t (ps s))\<rparr>)"
| end_rpc: "r \<in> set (rpcs (ps s)) \<Longrightarrow> pend s (rpc_thread r) = None \<Longrightarrow> rpc_step s (s\<lparr>ps := ports_end_rpc r (ps s)\<rparr>)"
| interrupt: "rpc_step s (s\<lparr>ps := ports_interrupt_rpcs p t (ps s)\<rparr>)"
| inhibit: "pend s t = None \<Longrightarrow> \<not> inhibited sc (ps s) \<Longrightarrow>
    cancel_loop t (found_rpcs sc (ps s)) None (ps s) = (this, st) \<Longrightarrow>
    rpc_step s (inhibit_outcome t sc this (inhibit_pass sc this st) s)"
| again: "pend s t = Some (sc, this) \<Longrightarrow> rpc_step s (inhibit_outcome t sc this (inhibit_pass sc this (ps s)) s)"
| give_up: "pend s t = Some (sc, this) \<Longrightarrow>
    rpc_step s (s\<lparr>ps := inhibit_cancelled sc (ps s), pend := (pend s)(t := None)\<rparr>)"
| resume: "resume_rpcs sc (ps s) = Some st \<Longrightarrow> rpc_step s (s\<lparr>ps := st\<rparr>)"
| other: "other_change (ps s) st \<Longrightarrow> rpc_step s (s\<lparr>ps := st\<rparr>)"

definition rpc_idle :: "ports \<Rightarrow> bool" where
  "rpc_idle st \<longleftrightarrow> rpcs st = [] \<and> counted st \<and> tables_ok st \<and> (\<forall>sc. \<not> inhibited sc st)"

inductive rpc_reach :: "rpc_sys \<Rightarrow> bool" where
  start: "rpc_idle st \<Longrightarrow> rpc_reach \<lparr>ps = st, pend = (\<lambda>_. None), owner = w\<rparr>"
| step: "rpc_reach s \<Longrightarrow> rpc_step s s' \<Longrightarrow> rpc_reach s'"

definition own_rpc :: "ports \<Rightarrow> scope \<Rightarrow> nat \<Rightarrow> rpc_info option \<Rightarrow> bool" where
  "own_rpc st sc t this \<longleftrightarrow> (\<forall>r. this = Some r \<longrightarrow> r \<in> set (rpcs st) \<and> in_scope st sc r \<and> rpc_thread r = t)"

definition rpc_permitted :: "rpc_sys \<Rightarrow> scope \<Rightarrow> rpc_info \<Rightarrow> bool" where
  "rpc_permitted s sc r \<longleftrightarrow> rpc_thread r = owner s sc \<or> uninhibitable (ps s) (rpc_port r) (rpc_msg r)"

definition rpc_inv :: "rpc_sys \<Rightarrow> bool" where
  "rpc_inv s \<longleftrightarrow>
     distinct (map rpc_thread (rpcs (ps s))) \<and> counted (ps s) \<and> tables_ok (ps s) \<and>
     (\<forall>t sc this. pend s t = Some (sc, this) \<longrightarrow>
        INHIBIT_WAIT \<in> scope_flags sc (ps s) \<and> INHIBITED \<notin> scope_flags sc (ps s) \<and> own_rpc (ps s) sc t this \<and>
        (\<forall>t'. t' \<noteq> t \<longrightarrow> (\<forall>this'. pend s t' \<noteq> Some (sc, this')))) \<and>
     (\<forall>sc r. INHIBITED \<in> scope_flags sc (ps s) \<longrightarrow> r \<in> set (rpcs (ps s)) \<longrightarrow> in_scope (ps s) sc r \<longrightarrow> rpc_permitted s sc r)"

lemma rpc_invD:
  assumes "rpc_inv s"
  shows "distinct (map rpc_thread (rpcs (ps s)))" "counted (ps s)" "tables_ok (ps s)"
    "\<And>t sc this. pend s t = Some (sc, this) \<Longrightarrow> INHIBIT_WAIT \<in> scope_flags sc (ps s) \<and> INHIBITED \<notin> scope_flags sc (ps s) \<and> own_rpc (ps s) sc t this"
    "\<And>t t' sc this this'. pend s t = Some (sc, this) \<Longrightarrow> t' \<noteq> t \<Longrightarrow> pend s t' \<noteq> Some (sc, this')"
    "\<And>sc r. INHIBITED \<in> scope_flags sc (ps s) \<Longrightarrow> r \<in> set (rpcs (ps s)) \<Longrightarrow> in_scope (ps s) sc r \<Longrightarrow> rpc_permitted s sc r"
  using assms unfolding rpc_inv_def by blast+

lemma rpc_invI:
  assumes "distinct (map rpc_thread (rpcs (ps s)))" "counted (ps s)" "tables_ok (ps s)"
    "\<And>t sc this. pend s t = Some (sc, this) \<Longrightarrow> INHIBIT_WAIT \<in> scope_flags sc (ps s) \<and> INHIBITED \<notin> scope_flags sc (ps s) \<and> own_rpc (ps s) sc t this"
    "\<And>t t' sc this this'. pend s t = Some (sc, this) \<Longrightarrow> t' \<noteq> t \<Longrightarrow> pend s t' \<noteq> Some (sc, this')"
    "\<And>sc r. INHIBITED \<in> scope_flags sc (ps s) \<Longrightarrow> r \<in> set (rpcs (ps s)) \<Longrightarrow> in_scope (ps s) sc r \<Longrightarrow> rpc_permitted s sc r"
  shows "rpc_inv s"
  using assms unfolding rpc_inv_def by blast

text \<open>A change that keeps the RPCs and takes no flag but \<open>INHIBITED\<close> away.\<close>

lemma rpc_inv_same:
  assumes i: "rpc_inv s" and r: "same_rpcs (ps s) st" "tables_ok st"
    and f: "\<And>sc. INHIBITED \<in> scope_flags sc st \<Longrightarrow> INHIBITED \<in> scope_flags sc (ps s)"
      "\<And>sc. INHIBIT_WAIT \<in> scope_flags sc (ps s) \<Longrightarrow> INHIBIT_WAIT \<in> scope_flags sc st"
  shows "rpc_inv (s\<lparr>ps := st\<rparr>)"
proof -
  note d = rpc_invD [OF i] and e = same_rpcs_simps [OF r(1)]
  show ?thesis
  proof (rule rpc_invI)
    show "INHIBIT_WAIT \<in> scope_flags sc (ps (s\<lparr>ps := st\<rparr>)) \<and> INHIBITED \<notin> scope_flags sc (ps (s\<lparr>ps := st\<rparr>)) \<and>
        own_rpc (ps (s\<lparr>ps := st\<rparr>)) sc t this" if "pend (s\<lparr>ps := st\<rparr>) t = Some (sc, this)" for t sc this
      using d(4) [of t sc this] that f [of sc] by (auto simp: own_rpc_def e)
    show "rpc_permitted (s\<lparr>ps := st\<rparr>) sc r" if "INHIBITED \<in> scope_flags sc (ps (s\<lparr>ps := st\<rparr>))" "r \<in> set (rpcs (ps (s\<lparr>ps := st\<rparr>)))"
        "in_scope (ps (s\<lparr>ps := st\<rparr>)) sc r" for sc r
      using d(6) [of sc r] that f(1) [of sc] by (simp add: rpc_permitted_def e)
  qed (use d(1-3,5) r(2) in \<open>simp_all add: e\<close>)
qed

lemma begin_inv:
  assumes i: "rpc_inv s" and t: "t \<notin> rpc_thread ` set (rpcs (ps s))"
  shows "rpc_inv (s\<lparr>ps := snd (begin_pass p msg t (ps s))\<rparr>)"
proof -
  note d = rpc_invD [OF i]
  let ?r = "\<lparr>rpc_thread = t, rpc_port = p, rpc_msg = msg\<rparr>"
  have rec: "rpc_inv (s\<lparr>ps := record_rpc ?r (ps s)\<rparr>)"
    if u: "\<And>sc. INHIBITED \<in> scope_flags sc (ps s) \<Longrightarrow> in_scope (ps s) sc ?r \<Longrightarrow> uninhibitable (ps s) p msg"
  proof (rule rpc_invI)
    let ?s = "s\<lparr>ps := record_rpc ?r (ps s)\<rparr>"
    show "rpc_permitted ?s sc r" if "INHIBITED \<in> scope_flags sc (ps ?s)" "r \<in> set (rpcs (ps ?s))" "in_scope (ps ?s) sc r" for sc r
      using that d(6) [of sc r] u [of sc] by (auto simp: rpc_permitted_def)
  qed (use d(1,3,4,5) t record_rpc_counted [OF d(2)] in \<open>auto simp: own_rpc_def\<close>)
  have none: "\<not> inhibited sc (ps s)" if "block_flags (ps s) p = None" "in_scope (ps s) sc ?r" for sc
    using that by (auto simp: block_flags_def in_scope_def split: if_splits scope.splits)
  show ?thesis
  proof (cases "port_right (infos (ps s) p) = 0")
    case True
    then show ?thesis using i by (simp add: begin_pass_def)
  next
    case False
    show ?thesis
    proof (cases "block_flags (ps s) p")
      case None
      have "rpc_inv (s\<lparr>ps := record_rpc ?r (ps s)\<rparr>)" using none [OF None] by (intro rec) (auto simp: inhibited_def)
      then show ?thesis using False None by (simp add: begin_pass_def)
    next
      case (Some sc)
      have "rpc_inv (s\<lparr>ps := set_scope_flags sc (insert BLOCKED (scope_flags sc (ps s))) (ps s)\<rparr>)"
        by (rule rpc_inv_same [OF i]) (use d(3) in \<open>auto split: if_splits\<close>)
      then show ?thesis using False Some rec by (simp add: begin_pass_def)
    qed
  qed
qed

lemma end_inv:
  assumes i: "rpc_inv s" and r: "r \<in> set (rpcs (ps s))" "pend s (rpc_thread r) = None"
  shows "rpc_inv (s\<lparr>ps := ports_end_rpc r (ps s)\<rparr>)"
proof -
  note d = rpc_invD [OF i]
  have o: "own_rpc (ports_end_rpc r (ps s)) sc t this" if "pend s t = Some (sc, this)" for t sc this
  proof -
    have "this \<noteq> Some r" using d(4) [OF that] r(2) that by (auto simp: own_rpc_def)
    then show ?thesis using d(4) [OF that] by (auto simp: own_rpc_def end_rpc_rpcs) (metis in_set_remove1)
  qed
  show ?thesis
  proof (rule rpc_invI)
    show "distinct (map rpc_thread (rpcs (ps (s\<lparr>ps := ports_end_rpc r (ps s)\<rparr>))))"
      using d(1) by (simp add: end_rpc_rpcs distinct_map distinct_remove1 inj_on_diff)
    let ?s = "s\<lparr>ps := ports_end_rpc r (ps s)\<rparr>"
    show "rpc_permitted ?s sc q" if "INHIBITED \<in> scope_flags sc (ps ?s)" "q \<in> set (rpcs (ps ?s))" "in_scope (ps ?s) sc q" for sc q
      using that d(6) [of sc q] notin_set_remove1 [of q "rpcs (ps s)" r] by (auto simp: rpc_permitted_def end_rpc_rpcs)
  qed (use d(3-5) o end_rpc_counted [OF d(2) r(1)] in \<open>auto simp: end_rpc_rpcs\<close>)
qed

text \<open>A thread that inhibits a scope, for the first time or after a wait.\<close>

lemma inhibit_outcome_inv:
  assumes i: "rpc_inv s" and st: "same_rpcs (ps s) st" "tables_ok st" "\<And>sc. scope_flags sc st = scope_flags sc (ps s)"
    and t: "own_rpc st sc t this" "INHIBITED \<notin> scope_flags sc st" "\<And>t' this'. t' \<noteq> t \<Longrightarrow> pend s t' \<noteq> Some (sc, this')"
  shows "rpc_inv (inhibit_outcome t sc this (inhibit_pass sc this st) s)"
proof -
  note d = rpc_invD [OF i] and e = same_rpcs_simps [OF st(1)]
  define st1 where "st1 = snd (inhibit_pass sc this st)"
  have s1: "same_rpcs (ps s) st1" "tables_ok st1"
    using same_rpcs_trans [OF st(1) same_rpcs_set(1)] st(2) by (simp_all add: st1_def inhibit_pass_def)
  note e1 = same_rpcs_simps [OF s1(1)]
  have own: "own_rpc st1 sc' t' x = own_rpc (ps s) sc' t' x" for sc' t' x by (simp add: own_rpc_def e1)
  have mine0: "own_rpc (ps s) sc t this" using t(1) by (simp add: own_rpc_def e)
  show ?thesis
  proof (cases "scope_busy sc this st")
    case True
    then have f: "scope_flags x st1 = (if x = sc then insert INHIBIT_WAIT (scope_flags sc (ps s)) else scope_flags x (ps s))" for x
      by (simp add: st1_def inhibit_pass_def st(3))
    have "rpc_inv (s\<lparr>ps := st1, pend := (pend s)(t := Some (sc, this))\<rparr>)"
      by (rule rpc_invI) (use d t(2,3) mine0 s1 in \<open>auto simp: e1 f own rpc_permitted_def st(3) split: if_splits\<close>)
    moreover have "inhibit_outcome t sc this (inhibit_pass sc this st) s = s\<lparr>ps := st1, pend := (pend s)(t := Some (sc, this))\<rparr>"
      using True by (simp add: inhibit_outcome_def st1_def inhibit_pass_def)
    ultimately show ?thesis by simp
  next
    case False
    then have f: "scope_flags x st1 =
        (if x = sc then insert INHIBITED (scope_flags sc (ps s) - {INHIBIT_WAIT}) else scope_flags x (ps s))" for x
      by (simp add: st1_def inhibit_pass_def st(3))
    have "this = Some r" if "r \<in> set (rpcs (ps s))" "in_scope (ps s) sc r" for r
      using not_busy [OF d(2), of sc this r] that False mine0 by (auto simp: e own_rpc_def)
    then have mine: "rpc_thread r = t" if "r \<in> set (rpcs (ps s))" "in_scope (ps s) sc r" for r
      using that mine0 by (auto simp: own_rpc_def)
    have "rpc_inv (s\<lparr>ps := st1, pend := (pend s)(t := None), owner := (owner s)(sc := t)\<rparr>)"
      by (rule rpc_invI) (use d t(3) mine s1 in \<open>auto simp: e1 f own rpc_permitted_def split: if_splits\<close>)
    moreover have "inhibit_outcome t sc this (inhibit_pass sc this st) s =
        s\<lparr>ps := st1, pend := (pend s)(t := None), owner := (owner s)(sc := t)\<rparr>"
      using False by (simp add: inhibit_outcome_def st1_def inhibit_pass_def)
    ultimately show ?thesis by simp
  qed
qed

lemma resume_same:
  assumes "resume_rpcs sc st = Some st'"
  shows "same_rpcs st st'" "tables_ok st' = tables_ok st" "scope_flags x st' \<subseteq> scope_flags x st"
    "INHIBIT_WAIT \<in> scope_flags x st \<Longrightarrow> INHIBIT_WAIT \<in> scope_flags x st'"
proof -
  let ?st1 = "set_scope_flags sc (scope_flags sc st - {INHIBITED}) st"
  let ?st2 = "set_scope_flags sc (scope_flags sc st - {INHIBITED} - {BLOCKED}) ?st1"
  have b: "scope_flags x (y\<lparr>broadcasts := n\<rparr>) = scope_flags x y" "tables_ok (y\<lparr>broadcasts := n\<rparr>) = tables_ok y"
    "same_rpcs z (y\<lparr>broadcasts := n\<rparr>) = same_rpcs z y" for x y z n
    by (simp_all add: scope_flags_def tables_ok_def same_rpcs_def split: scope.split)
  consider "st' = ?st1" | n where "st' = ?st2\<lparr>broadcasts := n\<rparr>"
    using assms by (auto simp: resume_rpcs_def Let_def split: if_splits)
  note c = this
  have "same_rpcs st ?st2" using same_rpcs_trans [OF same_rpcs_set(1) same_rpcs_set(1)] .
  with c show "same_rpcs st st'" "tables_ok st' = tables_ok st" "scope_flags x st' \<subseteq> scope_flags x st"
    "INHIBIT_WAIT \<in> scope_flags x st \<Longrightarrow> INHIBIT_WAIT \<in> scope_flags x st'" by (cases; auto simp: b)+
qed

lemma rpc_step_inv: "rpc_step s s' \<Longrightarrow> rpc_inv s \<Longrightarrow> rpc_inv s'"
proof (induction rule: rpc_step.induct)
  case (begins t s p msg)
  then show ?case by (intro begin_inv)
next
  case (end_rpc r s)
  then show ?case by (intro end_inv)
next
  case (interrupt s p t)
  show ?case unfolding ports_interrupt_rpcs_def
    by (rule rpc_inv_same [OF interrupt]) (use interrupt_loop_same [of "ps s" t "current_rpcs (ps s) p"] rpc_invD(3) [OF interrupt] in blast)+
next
  case (inhibit s t sc this st)
  note l = cancel_loop_same [OF inhibit(3)]
  have d: "tables_ok (ps s)" using rpc_invD(3) [OF inhibit(4)] .
  have "own_rpc (ps s) sc t this" using l [of sc] found_in_scope [OF d] by (auto simp: own_rpc_def)
  moreover have s: "same_rpcs (ps s) st" using l [of sc] by blast
  ultimately have "own_rpc st sc t this" using same_rpcs_simps [OF s] by (simp add: own_rpc_def)
  moreover have "pend s t' \<noteq> Some (sc, x)" for t' x using rpc_invD(4) [OF inhibit(4), of t' sc x] inhibit(2) by (auto simp: inhibited_def)
  ultimately show ?case
    using l d inhibit(2) by (intro inhibit_outcome_inv [OF inhibit(4) s]) (auto simp: inhibited_def)
next
  case (again s t sc this)
  note d = rpc_invD [OF again(2)]
  show ?case
    by (rule inhibit_outcome_inv [OF again(2)]) (use d(3) d(4) [OF again(1)] d(5) [OF again(1)] in simp_all)
next
  case (give_up s t sc this)
  note d = rpc_invD [OF give_up(2)] and e = same_rpcs_simps [OF same_rpcs_set(1) [of "ps s" sc "scope_flags sc (ps s) - {INHIBIT_WAIT}"]]
  let ?s = "s\<lparr>ps := inhibit_cancelled sc (ps s), pend := (pend s)(t := None)\<rparr>"
  show ?case
  proof (rule rpc_invI)
    show "INHIBIT_WAIT \<in> scope_flags sc' (ps ?s) \<and> INHIBITED \<notin> scope_flags sc' (ps ?s) \<and> own_rpc (ps ?s) sc' t' x"
      if "pend ?s t' = Some (sc', x)" for t' sc' x
    proof -
      have p: "pend s t' = Some (sc', x)" "t' \<noteq> t" using that by (auto split: if_splits)
      then have "sc' \<noteq> sc" using d(5) [OF give_up(1)] by blast
      then show ?thesis using d(4) [OF p(1)] by (simp add: inhibit_cancelled_def own_rpc_def e)
    qed
    show "rpc_permitted ?s sc' r" if "INHIBITED \<in> scope_flags sc' (ps ?s)" "r \<in> set (rpcs (ps ?s))" "in_scope (ps ?s) sc' r" for sc' r
      using that d(6) [of sc' r] by (auto simp: inhibit_cancelled_def rpc_permitted_def e split: if_splits)
    show "pend ?s t' \<noteq> Some (sc', x')" if "pend ?s u = Some (sc', x)" "t' \<noteq> u" for u t' sc' x x'
      using d(5) [of u sc' x t' x'] that by (auto split: if_splits)
  qed (use d(1,2,3) in \<open>auto simp: inhibit_cancelled_def e\<close>)
next
  case (resume sc s st)
  note d = rpc_invD [OF resume(2)]
  have "same_rpcs (ps s) st \<and> tables_ok st = tables_ok (ps s) \<and> (\<forall>x. scope_flags x st \<subseteq> scope_flags x (ps s)) \<and>
      (\<forall>x. INHIBIT_WAIT \<in> scope_flags x (ps s) \<longrightarrow> INHIBIT_WAIT \<in> scope_flags x st)"
    using resume(1) resume_same by blast
  then show ?case using d(3) by (intro rpc_inv_same [OF resume(2)]) auto
next
  case (other s st)
  then show ?case unfolding other_change_def same_flags_def by (intro rpc_inv_same) auto
qed

lemma rpc_reach_inv: "rpc_reach s \<Longrightarrow> rpc_inv s"
proof (induction rule: rpc_reach.induct)
  case (start st w)
  then show ?case by (intro rpc_invI) (auto simp: rpc_idle_def inhibited_def)
qed (rule rpc_step_inv)

section \<open>An example\<close>

text \<open>One port, named 5, with the class and the bucket 0; thread 1 handles an RPC on it.\<close>

definition ex_ports :: ports where
  "ex_ports = \<lparr>infos = (\<lambda>_. \<lparr>pclass = 0, refcounts = 1, mscount = 0, cancel_threshold = 0, pflags = {}, port_right = 5, pbucket = 0\<rparr>),
     classes = (\<lambda>_. \<lparr>cflags = {}, crpcs = 0, ccount = 1, has_dropweak = False, uninhibitable_rpcs = []\<rparr>),
     buckets = (\<lambda>_. \<lparr>portset = 9, htable = [], brpcs = 0, bflags = {}, bcount = 1, threadpool = ports_threadpool_init, notify_port = 0\<rparr>),
     ports_htable = [(5, 0)], ports_total_rpcs = 0, ports_flags = {}, rpcs = [], interrupted = [], cancelled = [], broadcasts = 0,
     cleaned = [], freed = []\<rparr>"

definition ex_rpc :: "nat \<Rightarrow> rpc_info" where
  "ex_rpc t = \<lparr>rpc_thread = t, rpc_port = 0, rpc_msg = 7\<rparr>"

definition ex_sys :: "ports \<Rightarrow> rpc_sys" where
  "ex_sys st = \<lparr>ps = st, pend = (\<lambda>_. None), owner = (\<lambda>_. 0)\<rparr>"

lemma ex_simps:
  "infos ex_ports p = \<lparr>pclass = 0, refcounts = 1, mscount = 0, cancel_threshold = 0, pflags = {}, port_right = 5, pbucket = 0\<rparr>"
  "rpcs ex_ports = []" "scope_flags sc ex_ports = {}" "ports_htable ex_ports = [(5, 0)]" "broadcasts ex_ports = 0"
  "uninhibitable ex_ports p m = False"
  by (simp_all add: ex_ports_def scope_flags_def uninhibitable_def split: scope.split)

lemma ex_idle: "rpc_idle ex_ports"
  by (simp add: rpc_idle_def ex_simps inhibited_def counted_def scope_rpcs_def tables_ok_def) (simp add: ex_ports_def)

lemma ex_begin: "begin_pass 0 7 t ex_ports = (Done Success, record_rpc (ex_rpc t) ex_ports)"
  by (simp add: begin_pass_def block_flags_def inhibited_def ex_simps ex_rpc_def)

lemma ex_reach_rpc: "rpc_reach (ex_sys (record_rpc (ex_rpc 1) ex_ports))"
proof -
  have "rpc_reach (ex_sys ex_ports)" unfolding ex_sys_def by (rule rpc_reach.start [OF ex_idle])
  moreover have "rpc_step (ex_sys ex_ports) (ex_sys (record_rpc (ex_rpc 1) ex_ports))"
    using rpc_step.begins [of 1 "ex_sys ex_ports" 0 7] by (simp add: ex_sys_def ex_simps ex_begin)
  ultimately show ?thesis by (rule rpc_reach.step)
qed

lemma ex_found: "found_rpcs (Class 0) (record_rpc (ex_rpc t) ex_ports) = [ex_rpc t]"
proof -
  have "ports_htable (record_rpc (ex_rpc t) ex_ports) = [(5, 0)]" by (simp add: record_rpc_def Let_def ex_simps)
  moreover have "pclass (infos (record_rpc (ex_rpc t) ex_ports) 0) = 0" by (simp add: ex_simps)
  moreover have "current_rpcs (record_rpc (ex_rpc t) ex_ports) 0 = [ex_rpc t]" by (simp add: current_rpcs_def ex_simps ex_rpc_def)
  ultimately show ?thesis by (simp add: found_rpcs_def)
qed

lemma ex_count: "crpcs (classes (record_rpc (ex_rpc t) ex_ports) 0) = 1"
  by (simp add: record_rpc_def Let_def ex_simps ex_rpc_def) (simp add: ex_ports_def)

section \<open>Properties\<close>

text \<open>
  C25. Inhibition. Whenever the RPCs of a scope (a port, a class, a bucket or all ports) are inhibited,
  every RPC in progress in that scope is one of the thread that inhibited them, or
  has a message id that its class exempts.
\<close>

theorem ports_inhibit_excludes:
  assumes "rpc_reach s" "INHIBITED \<in> scope_flags sc (ps s)" "r \<in> set (rpcs (ps s))" "in_scope (ps s) sc r"
  shows "rpc_thread r = owner s sc \<or> uninhibitable (ps s) (rpc_port r) (rpc_msg r)"
  using rpc_invD(6) [OF rpc_reach_inv [OF assms(1)] assms(2-4)] by (simp add: rpc_permitted_def)

theorem ports_inhibit_excludes_witness:
  "\<exists>s. rpc_reach s \<and> INHIBITED \<in> scope_flags (Class 0) (ps s) \<and> ex_rpc 1 \<in> set (rpcs (ps s)) \<and>
     (rpc_thread (ex_rpc 1) = owner s (Class 0) \<or> uninhibitable (ps s) 0 7)"
proof -
  let ?st = "record_rpc (ex_rpc 1) ex_ports"
  let ?s = "inhibit_outcome 1 (Class 0) (Some (ex_rpc 1)) (inhibit_pass (Class 0) (Some (ex_rpc 1)) ?st) (ex_sys ?st)"
  have "rpc_step (ex_sys ?st) ?s"
  proof (rule rpc_step.inhibit)
    show "cancel_loop 1 (found_rpcs (Class 0) (ps (ex_sys ?st))) None (ps (ex_sys ?st)) = (Some (ex_rpc 1), ?st)"
      using ex_found [of 1] by (simp add: ex_sys_def) (simp add: ex_rpc_def)
  qed (simp_all add: ex_sys_def inhibited_def ex_simps)
  then have r: "rpc_reach ?s" using ex_reach_rpc rpc_reach.step by blast
  have p: "inhibit_pass (Class 0) (Some (ex_rpc 1)) ?st = (Done Success, set_scope_flags (Class 0) {INHIBITED} ?st)"
    by (simp add: inhibit_pass_def scope_busy_def ex_count ex_simps)
  have q: "ps ?s = set_scope_flags (Class 0) {INHIBITED} ?st" unfolding p by (simp add: inhibit_outcome_def)
  have i: "INHIBITED \<in> scope_flags (Class 0) (ps ?s)" "ex_rpc 1 \<in> set (rpcs (ps ?s))" "in_scope (ps ?s) (Class 0) (ex_rpc 1)"
    unfolding q using same_rpcs_simps(1,2) [OF same_rpcs_set(1) [of ?st "Class 0" "{INHIBITED}"]] by (simp_all add: in_scope_def ex_simps)
  show ?thesis using ports_inhibit_excludes [OF r i] r i by (auto simp: ex_rpc_def)
qed

text \<open>
  A lost wake up. A thread waits to inhibit a scope; another one is blocked by it at the beginning of an RPC. When
  the wait of the first is cancelled, the request is withdrawn and nothing blocks the RPC any more,
  but the condition is not signalled: the second thread goes on sleeping.
\<close>

theorem ports_inhibit_cancelled_silent:
  assumes "inhibit_pass sc this st = (Wait, st1)" "begin_pass p msg t st1 = (Wait, st2)" "block_flags st p = None"
  shows "broadcasts (inhibit_cancelled sc st2) = broadcasts st1 \<and>
    fst (begin_pass p msg t (inhibit_cancelled sc st2)) = Done Success"
proof -
  have st1: "st1 = set_scope_flags sc (insert INHIBIT_WAIT (scope_flags sc st)) st"
    using assms(1) by (simp add: inhibit_pass_def split: if_splits)
  obtain sc' where b: "block_flags st1 p = Some sc'" "st2 = set_scope_flags sc' (insert BLOCKED (scope_flags sc' st1)) st1"
    "port_right (infos st1 p) \<noteq> 0"
    using assms(2) by (auto simp: begin_pass_def split: if_splits option.splits)
  have r: "port_right (infos (set_scope_flags x f y) q) = port_right (infos y q)" "pbucket (infos (set_scope_flags x f y) q) = pbucket (infos y q)"
    "pclass (infos (set_scope_flags x f y) q) = pclass (infos y q)" "broadcasts (set_scope_flags x f y) = broadcasts y" for x f y q
    by (auto simp: set_scope_flags_def split: scope.split)
  have i: "inhibited x (inhibit_cancelled sc st2) \<Longrightarrow> inhibited x st" for x
    using b(2) by (auto simp: st1 inhibit_cancelled_def inhibited_def split: if_splits)
  have "block_flags (inhibit_cancelled sc st2) p = None"
    using assms(3) i b(2) by (auto simp: block_flags_def st1 inhibit_cancelled_def r split: if_splits)
  then show ?thesis using b(2,3) by (simp add: begin_pass_def inhibit_cancelled_def r)
qed

theorem ports_inhibit_cancelled_silent_witness:
  "\<exists>st1 st2. inhibit_pass (Class 0) None (record_rpc (ex_rpc 1) ex_ports) = (Wait, st1) \<and> begin_pass 0 7 2 st1 = (Wait, st2) \<and>
     broadcasts (inhibit_cancelled (Class 0) st2) = broadcasts st1 \<and>
     fst (begin_pass 0 7 2 (inhibit_cancelled (Class 0) st2)) = Done Success"
proof -
  let ?st = "record_rpc (ex_rpc 1) ex_ports"
  let ?st1 = "set_scope_flags (Class 0) {INHIBIT_WAIT} ?st"
  have 1: "inhibit_pass (Class 0) None ?st = (Wait, ?st1)" by (simp add: inhibit_pass_def scope_busy_def ex_count ex_simps)
  have n: "block_flags ?st 0 = None" by (simp add: block_flags_def inhibited_def ex_simps)
  have u: "uninhibitable ?st1 0 7 = False" using same_rpcs_simps(5) [OF same_rpcs_set(1) [of ?st "Class 0" "{INHIBIT_WAIT}"]] by (simp add: ex_simps)
  have "infos ?st1 0 = infos ex_ports 0" by (simp add: set_scope_flags_def)
  then have "\<exists>st2. begin_pass 0 7 2 ?st1 = (Wait, st2)"
    using u by (auto simp: begin_pass_def block_flags_def inhibited_def ex_simps)
  then obtain st2 where 2: "begin_pass 0 7 2 ?st1 = (Wait, st2)" ..
  from ports_inhibit_cancelled_silent [OF 1 2 n] 1 2 show ?thesis by blast
qed

section \<open>A thread that waits for itself\<close>

lemma cancel_loop_none: "\<forall>r \<in> set rs. rpc_thread r \<noteq> self \<Longrightarrow> fst (cancel_loop self rs None st) = None"
  by (induction self rs "None :: rpc_info option" st rule: cancel_loop.induct) auto

definition rpc_stays :: "rpc_info \<Rightarrow> scope \<Rightarrow> ports \<Rightarrow> bool" where
  "rpc_stays r sc st \<longleftrightarrow> r \<in> set (rpcs st) \<and> counted st \<and> in_scope st sc r"

lemma rpc_stays_busy: "rpc_stays r sc st \<Longrightarrow> scope_busy sc None st"
proof -
  assume s: "rpc_stays r sc st"
  show ?thesis using s not_busy [of st sc None r] by (auto simp: rpc_stays_def)
qed

lemma rpc_stays_same: "same_rpcs st st' \<Longrightarrow> rpc_stays r sc st' = rpc_stays r sc st"
  by (simp add: rpc_stays_def same_rpcs_simps)

lemma inhibit_loop_stays:
  "rpc_stays r sc st \<Longrightarrow> \<forall>f. Some f \<in> set ws \<longrightarrow> (\<forall>x. rpc_stays r sc x \<longrightarrow> rpc_stays r sc (f x)) \<Longrightarrow>
     inhibit_loop sc None ws st \<noteq> Some (Success, st')"
proof (induction ws arbitrary: st)
  case Nil
  then show ?case using rpc_stays_busy [OF Nil(1)] by (simp add: inhibit_loop.simps [of sc None "[]"] inhibit_pass_def)
next
  case (Cons w ws)
  let ?st = "set_scope_flags sc (insert INHIBIT_WAIT (scope_flags sc st)) st"
  have b: "inhibit_pass sc None st = (Wait, ?st)" using rpc_stays_busy [OF Cons.prems(1)] by (simp add: inhibit_pass_def)
  have s: "rpc_stays r sc ?st" using Cons.prems(1) rpc_stays_same [OF same_rpcs_set(1)] by blast
  show ?case
  proof (cases w)
    case None
    then show ?thesis using b by (simp add: inhibit_loop.simps [of sc None "None # ws"])
  next
    case (Some f)
    then have "inhibit_loop sc None ws (f ?st) \<noteq> Some (Success, st')" using Cons s by (intro Cons.IH) auto
    then show ?thesis using b Some by (simp add: inhibit_loop.simps [of sc None "Some f # ws"])
  qed
qed

text \<open>
  A thread that waits for itself. A thread that handles an RPC on a port which is no longer in the
  tables, for instance because its right has been destroyed, does not recognize its own RPC when it
  inhibits the RPCs of the class, of the bucket or of all ports, and waits for its own end: the request
  cannot succeed as long as that RPC is in progress, whatever the other threads do.
\<close>

theorem ports_inhibit_waits_for_itself:
  assumes "r \<in> set (rpcs st)" "counted st" "in_scope st sc r" "\<forall>q \<in> set (found_rpcs sc st). rpc_thread q \<noteq> rpc_thread r"
    and "\<forall>f. Some f \<in> set ws \<longrightarrow> (\<forall>x. rpc_stays r sc x \<longrightarrow> rpc_stays r sc (f x))"
  shows "inhibit_rpcs sc (rpc_thread r) ws st \<noteq> Some (Success, st')"
proof -
  obtain this st1 where c: "cancel_loop (rpc_thread r) (found_rpcs sc st) None st = (this, st1)" by fastforce
  have n: "this = None" using cancel_loop_none [OF assms(4), of st] c by simp
  have "rpc_stays r sc st" using assms(1-3) by (simp add: rpc_stays_def)
  moreover have "same_rpcs st st1" using cancel_loop_same [OF c] by blast
  ultimately have "rpc_stays r sc st1" using rpc_stays_same by blast
  then show ?thesis using inhibit_loop_stays [OF _ assms(5)] c n by (simp add: inhibit_rpcs_def)
qed

theorem ports_inhibit_waits_for_itself_witness:
  "ports_inhibit_class_rpcs 0 1 [Some id, Some id] ((record_rpc (ex_rpc 1) ex_ports)\<lparr>ports_htable := []\<rparr>) \<noteq> Some (Success, ex_ports)"
proof -
  let ?st = "(record_rpc (ex_rpc 1) ex_ports)\<lparr>ports_htable := []\<rparr>"
  have s: "same_rpcs (record_rpc (ex_rpc 1) ex_ports) ?st" by (simp add: same_rpcs_def)
  have c: "counted ?st" using same_rpcs_simps(4) [OF s] record_rpc_counted ex_idle by (simp add: rpc_idle_def)
  have i: "in_scope ?st (Class 0) (ex_rpc 1)" using same_rpcs_simps(2) [OF s] by (simp add: in_scope_def ex_simps)
  have "inhibit_rpcs (Class 0) (rpc_thread (ex_rpc 1)) [Some id, Some id] ?st \<noteq> Some (Success, ex_ports)"
    by (rule ports_inhibit_waits_for_itself [OF _ c i]) (simp_all add: found_rpcs_def)
  then show ?thesis by (simp add: ports_inhibit_class_rpcs_def ex_rpc_def)
qed

end
