(* ===== verification/Ports_Right.thy ===== *)
theory Ports_Right
  imports Ports
begin

text \<open>
  Port objects, their references and their rights: \<^verbatim>\<open>create-internal.c\<close>, \<^verbatim>\<open>create-port.c\<close>, \<^verbatim>\<open>create-port-noinstall.c\<close>,
  \<^verbatim>\<open>import-port.c\<close>, \<^verbatim>\<open>lookup-port.c\<close>, \<^verbatim>\<open>port-ref.c\<close>, \<^verbatim>\<open>port-ref-weak.c\<close>, \<^verbatim>\<open>port-deref.c\<close>, \<^verbatim>\<open>port-deref-weak.c\<close>,
  \<^verbatim>\<open>complete-deallocate.c\<close>, \<^verbatim>\<open>get-right.c\<close>, \<^verbatim>\<open>get-send-right.c\<close>, \<^verbatim>\<open>no-senders.c\<close>, \<^verbatim>\<open>destroy-right.c\<close>, \<^verbatim>\<open>claim-right.c\<close>, \<^verbatim>\<open>transfer-right.c\<close>,
  \<^verbatim>\<open>reallocate-port.c\<close>, \<^verbatim>\<open>reallocate-from-external.c\<close>, \<^verbatim>\<open>count-*.c\<close>, \<^verbatim>\<open>enable-*.c\<close> of \<^verbatim>\<open>libports\<close>.
  \<open>None\<close> is a failed assertion, or the removal of an object from a table that does not have it (the location is
  stale). The results of kernel calls are arguments; calls whose failure would fail an assertion
  and that are no argument succeed. The routine that drops weak references is a parameter; the clean routine is recorded.
\<close>

abbreviation (input) MACH_PORT_NULL :: mach_port where "MACH_PORT_NULL \<equiv> 0"
abbreviation (input) MACH_PORT_DEAD :: mach_port where "MACH_PORT_DEAD \<equiv> 2 ^ 32 - 1"

definition MACH_PORT_VALID :: "mach_port \<Rightarrow> bool" where
  "MACH_PORT_VALID n \<longleftrightarrow> n \<noteq> MACH_PORT_NULL \<and> n \<noteq> MACH_PORT_DEAD"

section \<open>Tables\<close>

definition table_remove :: "nat \<Rightarrow> port_table \<Rightarrow> port_table option" where
  "table_remove p t = (if p \<in> snd ` set t then Some (filter (\<lambda>e. snd e \<noteq> p) t) else None)"

definition table_add :: "mach_port \<Rightarrow> nat \<Rightarrow> port_table \<Rightarrow> allocs \<Rightarrow> error_t \<times> port_table \<times> allocs" where
  "table_add n p t orc =
     (case alloc orc of
        (None, o1) \<Rightarrow> (ENOMEM, t, o1)
      | (Some _, o1) \<Rightarrow> (Success, (n, p) # filter (\<lambda>e. fst e \<noteq> n) t, o1))"

definition set_info :: "nat \<Rightarrow> port_info \<Rightarrow> ports \<Rightarrow> ports" where
  "set_info p pi st = st\<lparr>infos := (infos st)(p := pi)\<rparr>"

definition set_bucket :: "nat \<Rightarrow> port_bucket \<Rightarrow> ports \<Rightarrow> ports" where
  "set_bucket b x st = st\<lparr>buckets := (buckets st)(b := x)\<rparr>"

definition set_class :: "nat \<Rightarrow> port_class \<Rightarrow> ports \<Rightarrow> ports" where
  "set_class c x st = st\<lparr>classes := (classes st)(c := x)\<rparr>"

text \<open>Removing an object from both tables, and adding it.\<close>

definition tables_remove :: "nat \<Rightarrow> ports \<Rightarrow> ports option" where
  "tables_remove p st =
     (let b = pbucket (infos st p)
      in case table_remove p (ports_htable st) of
           None \<Rightarrow> None
         | Some t \<Rightarrow>
             (case table_remove p (htable (buckets st b)) of
                None \<Rightarrow> None
              | Some u \<Rightarrow> Some (set_bucket b ((buckets st b)\<lparr>htable := u\<rparr>) (st\<lparr>ports_htable := t\<rparr>))))"

definition tables_add :: "mach_port \<Rightarrow> nat \<Rightarrow> ports \<Rightarrow> allocs \<Rightarrow> error_t \<times> ports \<times> allocs" where
  "tables_add n p st orc =
     (let b = pbucket (infos st p); (err, t, o1) = table_add n p (ports_htable st) orc
      in if err \<noteq> Success then (err, st, o1)
         else
           let (err, u, o2) = table_add n p (htable (buckets st b)) o1
           in if err \<noteq> Success then (err, st\<lparr>ports_htable := filter (\<lambda>e. snd e \<noteq> p) t\<rparr>, o2)
              else (Success, set_bucket b ((buckets st b)\<lparr>htable := u\<rparr>) (st\<lparr>ports_htable := t\<rparr>), o2))"

section \<open>References\<close>

definition change_refs :: "(refcounts \<Rightarrow> refcounts option) \<Rightarrow> nat \<Rightarrow> ports \<Rightarrow> ports option" where
  "change_refs f p st = map_option (\<lambda>v. set_info p ((infos st p)\<lparr>refcounts := v\<rparr>) st) (f (refcounts (infos st p)))"

definition ports_port_ref :: "nat \<Rightarrow> ports \<Rightarrow> ports option" where
  "ports_port_ref p st = change_refs refcounts_ref p st"

definition ports_port_ref_weak :: "nat \<Rightarrow> ports \<Rightarrow> ports option" where
  "ports_port_ref_weak p st = change_refs refcounts_ref_weak p st"

definition ports_complete_deallocate :: "nat \<Rightarrow> ports \<Rightarrow> ports option" where
  "ports_complete_deallocate p st =
     (if HAS_SENDRIGHTS \<in> pflags (infos st p) then None
      else
        case (if MACH_PORT_VALID (port_right (infos st p)) then
                let r = refcounts_references (refcounts (infos st p))
                in if hard r > 0 \<or> weak r > 0 then None
                   else map_option (\<lambda>s. set_info p ((infos s p)\<lparr>port_right := MACH_PORT_NULL\<rparr>) s) (tables_remove p st)
              else Some st) of
          None \<Rightarrow> None
        | Some s \<Rightarrow>
            let b = pbucket (infos s p); c = pclass (infos s p);
                s1 = set_bucket b ((buckets s b)\<lparr>bcount := bcount (buckets s b) - 1\<rparr>) s;
                s2 = set_class c ((classes s1 c)\<lparr>ccount := ccount (classes s1 c) - 1\<rparr>) s1;
                s3 = s2\<lparr>cleaned := p # cleaned s2\<rparr>
            in if current_rpcs s3 p \<noteq> [] then None else Some (s3\<lparr>freed := p # freed s3\<rparr>))"

definition dealloc_if_dead :: "nat \<Rightarrow> ports \<Rightarrow> ports option" where
  "dealloc_if_dead p st =
     (let r = refcounts_references (refcounts (infos st p))
      in if hard r = 0 \<and> weak r = 0 then ports_complete_deallocate p st else Some st)"

definition ports_port_deref :: "(nat \<Rightarrow> ports \<Rightarrow> ports) \<Rightarrow> nat \<Rightarrow> ports \<Rightarrow> ports option" where
  "ports_port_deref dropweak p st =
     (if has_dropweak (classes st (pclass (infos st p))) then
        case change_refs refcounts_demote p st of
          None \<Rightarrow> None
        | Some s \<Rightarrow>
            let r = refcounts_references (refcounts (infos s p));
                s1 = (if hard r = 0 \<and> weak r > 1 then dropweak p s else s)
            in (case change_refs refcounts_deref_weak p s1 of None \<Rightarrow> None | Some s2 \<Rightarrow> dealloc_if_dead p s2)
      else (case change_refs refcounts_deref p st of None \<Rightarrow> None | Some s \<Rightarrow> dealloc_if_dead p s))"

definition ports_port_deref_weak :: "nat \<Rightarrow> ports \<Rightarrow> ports option" where
  "ports_port_deref_weak p st =
     (case change_refs refcounts_deref_weak p st of None \<Rightarrow> None | Some s \<Rightarrow> dealloc_if_dead p s)"

section \<open>Lookup\<close>

text \<open>\<open>None\<close> as a class or a bucket accepts all.\<close>

definition ports_lookup_port :: "nat option \<Rightarrow> mach_port \<Rightarrow> nat option \<Rightarrow> ports \<Rightarrow> (nat option \<times> ports) option" where
  "ports_lookup_port bucket n class st =
     (case map_of (ports_htable st) n of
        None \<Rightarrow> Some (None, st)
      | Some p \<Rightarrow>
          if class \<noteq> None \<and> pclass (infos st p) \<noteq> the class \<or> bucket \<noteq> None \<and> pbucket (infos st p) \<noteq> the bucket
          then Some (None, st)
          else map_option (\<lambda>s. (Some p, s)) (change_refs refcounts_unsafe_ref p st))"

definition ports_lookup_payload :: "nat option \<Rightarrow> nat \<Rightarrow> nat option \<Rightarrow> ports \<Rightarrow> (nat option \<times> ports) option" where
  "ports_lookup_payload bucket p class st =
     (if \<not> MACH_PORT_VALID (port_right (infos st p)) \<or> bucket \<noteq> None \<and> pbucket (infos st p) \<noteq> the bucket \<or>
         class \<noteq> None \<and> pclass (infos st p) \<noteq> the class
      then Some (None, st)
      else map_option (\<lambda>s. (Some p, s)) (change_refs refcounts_unsafe_ref p st))"

section \<open>Creating and importing\<close>

text \<open>One pass through the loop that waits while allocation is blocked.\<close>

definition alloc_pass :: "nat \<Rightarrow> nat \<Rightarrow> ports \<Rightarrow> bool \<times> ports" where
  "alloc_pass c b st =
     (if NO_ALLOC \<in> cflags (classes st c) then (False, set_class c ((classes st c)\<lparr>cflags := insert ALLOC_WAIT (cflags (classes st c))\<rparr>) st)
      else if NO_ALLOC \<in> bflags (buckets st b)
      then (False, set_bucket b ((buckets st b)\<lparr>bflags := insert ALLOC_WAIT (bflags (buckets st b))\<rparr>) st)
      else (True, st))"

type_synonym alloc_waits = "(ports \<Rightarrow> ports) option list"

fun alloc_loop :: "nat \<Rightarrow> nat \<Rightarrow> alloc_waits \<Rightarrow> ports \<Rightarrow> (bool \<times> ports) option" where
  "alloc_loop c b ws st =
     (case alloc_pass c b st of
        (True, s) \<Rightarrow> Some (True, s)
      | (False, s) \<Rightarrow>
          (case ws of
             [] \<Rightarrow> None
           | None # ws' \<Rightarrow> Some (False, s)
           | Some f # ws' \<Rightarrow> alloc_loop c b ws' (f s)))"

declare alloc_loop.simps [simp del]

text \<open>Entering the new object \<open>p\<close> with the right \<open>n\<close>: an error, or the state with the object in the tables and counted.\<close>

definition enter_port :: "nat \<Rightarrow> nat \<Rightarrow> nat \<Rightarrow> mach_port \<Rightarrow> alloc_waits \<Rightarrow> ports \<Rightarrow> allocs \<Rightarrow> (error_t \<times> ports \<times> allocs) option" where
  "enter_port c b p n ws st orc =
     (case alloc_loop c b ws st of
        None \<Rightarrow> None
      | Some (False, s) \<Rightarrow> Some (EINTR, s, orc)
      | Some (True, s) \<Rightarrow>
          let (err, s1, o1) = tables_add n p s orc
          in if err \<noteq> Success then Some (err, s1, o1)
             else
               let s2 = set_bucket b ((buckets s1 b)\<lparr>bcount := bcount (buckets s1 b) + 1\<rparr>) s1;
                   s3 = set_class c ((classes s2 c)\<lparr>ccount := ccount (classes s2 c) + 1\<rparr>) s2
               in Some (Success, s3, o1))"

text \<open>
  \<open>receive\<close> is the name the kernel allocates or its error, \<open>move_err\<close> the result of moving the right into the port
  set. The result is the error, the object, and the state.
\<close>

definition ports_create_port_internal ::
  "nat \<Rightarrow> nat \<Rightarrow> bool \<Rightarrow> error_t + mach_port \<Rightarrow> error_t \<Rightarrow> alloc_waits \<Rightarrow> ports \<Rightarrow> allocs \<Rightarrow>
   (error_t \<times> nat option \<times> ports \<times> allocs) option" where
  "ports_create_port_internal c b install receive move_err ws st orc =
     (case receive of
        Inl err \<Rightarrow> Some (err, None, st, orc)
      | Inr n \<Rightarrow>
          (case alloc orc of
             (None, o1) \<Rightarrow> Some (ENOMEM, None, st, o1)
           | (Some j, o1) \<Rightarrow>
               let p = unat j;
                   s = set_info p \<lparr>pclass = c, refcounts = refs_value (REFCOUNT_REFERENCES 1 0), mscount = 0, cancel_threshold = 0,
                         pflags = {}, port_right = n, pbucket = b\<rparr> st
               in (case enter_port c b p n ws s o1 of
                     None \<Rightarrow> None
                   | Some (err, s1, o2) \<Rightarrow>
                       if err \<noteq> Success then Some (err, None, s1\<lparr>freed := p # freed s1\<rparr>, o2)
                       else if install \<and> move_err \<noteq> Success then Some (move_err, None, s1\<lparr>freed := p # freed s1\<rparr>, o2)
                       else Some (Success, Some p, s1, o2))))"

definition ports_create_port ::
  "nat \<Rightarrow> nat \<Rightarrow> error_t + mach_port \<Rightarrow> error_t \<Rightarrow> alloc_waits \<Rightarrow> ports \<Rightarrow> allocs \<Rightarrow> (error_t \<times> nat option \<times> ports \<times> allocs) option" where
  "ports_create_port c b = ports_create_port_internal c b True"

definition ports_create_port_noinstall ::
  "nat \<Rightarrow> nat \<Rightarrow> error_t + mach_port \<Rightarrow> error_t \<Rightarrow> alloc_waits \<Rightarrow> ports \<Rightarrow> allocs \<Rightarrow> (error_t \<times> nat option \<times> ports \<times> allocs) option" where
  "ports_create_port_noinstall c b = ports_create_port_internal c b False"

text \<open>\<open>status\<close> is whether the imported right has send rights, and its make-send count, or an error.\<close>

definition ports_import_port ::
  "nat \<Rightarrow> nat \<Rightarrow> mach_port \<Rightarrow> error_t + (bool \<times> u32) \<Rightarrow> alloc_waits \<Rightarrow> ports \<Rightarrow> allocs \<Rightarrow>
   (error_t \<times> nat option \<times> ports \<times> allocs) option" where
  "ports_import_port c b n status ws st orc =
     (case status of
        Inl err \<Rightarrow> Some (err, None, st, orc)
      | Inr (srights, msc) \<Rightarrow>
          (case alloc orc of
             (None, o1) \<Rightarrow> Some (ENOMEM, None, st, o1)
           | (Some j, o1) \<Rightarrow>
               let p = unat j;
                   s = set_info p \<lparr>pclass = c, refcounts = refs_value (REFCOUNT_REFERENCES (if srights then 2 else 1) 0), mscount = msc,
                         cancel_threshold = 0, pflags = (if srights then {HAS_SENDRIGHTS} else {}), port_right = n, pbucket = b\<rparr> st
               in (case enter_port c b p n ws s o1 of
                     None \<Rightarrow> None
                   | Some (err, s1, o2) \<Rightarrow>
                       if err \<noteq> Success then Some (err, None, s1\<lparr>freed := p # freed s1\<rparr>, o2)
                       else Some (Success, Some p, s1, o2))))"

section \<open>Rights\<close>

definition has_srights :: "nat \<Rightarrow> ports \<Rightarrow> bool" where
  "has_srights p st \<longleftrightarrow> HAS_SENDRIGHTS \<in> pflags (infos st p)"

definition set_srights :: "bool \<Rightarrow> nat \<Rightarrow> ports \<Rightarrow> ports" where
  "set_srights x p st =
     set_info p ((infos st p)\<lparr>pflags := (if x then insert HAS_SENDRIGHTS (pflags (infos st p)) else pflags (infos st p) - {HAS_SENDRIGHTS})\<rparr>) st"

text \<open>\<open>notify_err\<close> is the result of the request for a notification when there are no more senders.\<close>

definition ports_get_right :: "error_t \<Rightarrow> nat \<Rightarrow> ports \<Rightarrow> (mach_port \<times> ports) option" where
  "ports_get_right notify_err p st =
     (if port_right (infos st p) = MACH_PORT_NULL then Some (MACH_PORT_NULL, st)
      else
        let s = set_info p ((infos st p)\<lparr>mscount := mscount (infos st p) + 1\<rparr>) st
        in if \<not> has_srights p s then
             (case change_refs refcounts_ref p (set_srights True p s) of
                None \<Rightarrow> None
              | Some s1 \<Rightarrow> if notify_err \<noteq> Success then None else Some (port_right (infos s1 p), s1))
           else Some (port_right (infos s p), s))"

definition ports_get_send_right :: "error_t \<Rightarrow> error_t \<Rightarrow> nat \<Rightarrow> ports \<Rightarrow> (mach_port \<times> ports) option" where
  "ports_get_send_right notify_err insert_err p st =
     (case ports_get_right notify_err p st of
        None \<Rightarrow> None
      | Some (right, s) \<Rightarrow>
          if right = MACH_PORT_NULL then Some (MACH_PORT_NULL, s)
          else if insert_err \<noteq> Success then None else Some (right, s))"

text \<open>The RPCs on the port are interrupted by \<open>interrupt\<close>.\<close>

definition ports_no_senders :: "(nat \<Rightarrow> ports \<Rightarrow> ports) \<Rightarrow> (nat \<Rightarrow> ports \<Rightarrow> ports) \<Rightarrow> nat \<Rightarrow> u32 \<Rightarrow> ports \<Rightarrow> ports option" where
  "ports_no_senders interrupt dropweak p msc st =
     (if \<not> has_srights p st then Some st
      else if msc \<ge> mscount (infos st p) then ports_port_deref dropweak p (interrupt p (set_srights False p st))
      else Some st)"

definition ports_destroy_right :: "nat \<Rightarrow> ports \<Rightarrow> allocs \<Rightarrow> (ports \<times> allocs) option" where
  "ports_destroy_right p st orc =
     (let right = port_right (infos st p);
          s = set_info p ((infos st p)\<lparr>port_right := MACH_PORT_DEAD\<rparr>) st;
          wait = has_srights p s;
          s1 = (if wait then set_srights False p s else s)
      in case (if MACH_PORT_VALID right then tables_remove p s1 else Some s1) of
           None \<Rightarrow> None
         | Some s2 \<Rightarrow>
             if wait then
               let b = pbucket (infos s2 p)
               in map_option (\<lambda>(tp, o1). (set_bucket b ((buckets s2 b)\<lparr>threadpool := tp\<rparr>) s2, o1))
                    (ports_port_deref_deferred p (threadpool (buckets s2 b)) orc)
             else Some (s2, orc))"

text \<open>\<open>move_err\<close> is the result of taking the right out of its port set.\<close>

definition ports_claim_right :: "(nat \<Rightarrow> ports \<Rightarrow> ports) \<Rightarrow> error_t \<Rightarrow> nat \<Rightarrow> ports \<Rightarrow> (mach_port \<times> ports) option" where
  "ports_claim_right dropweak move_err p st =
     (let ret = port_right (infos st p)
      in if ret = MACH_PORT_NULL then Some (ret, st)
         else
           (case tables_remove p st of
              None \<Rightarrow> None
            | Some s \<Rightarrow>
                if move_err \<noteq> Success then None
                else
                  let s1 = set_info p ((infos s p)\<lparr>port_right := MACH_PORT_NULL\<rparr>) s
                  in if has_srights p s1
                     then map_option (\<lambda>s2. (ret, s2)) (ports_port_deref dropweak p (set_srights False p s1))
                     else Some (ret, s1)))"

text \<open>The first part of a transfer takes the right from its owner, the second destroys that of the receiver.\<close>

definition transfer_take :: "nat \<Rightarrow> ports \<Rightarrow> (bool \<times> ports) option" where
  "transfer_take from st =
     (if port_right (infos st from) = MACH_PORT_NULL then Some (False, st)
      else
        map_option
          (\<lambda>s. let s1 = set_info from ((infos s from)\<lparr>port_right := MACH_PORT_NULL\<rparr>) s
               in if has_srights from s1 then (True, set_srights False from s1) else (False, s1))
          (tables_remove from st))"

definition transfer_drop :: "nat \<Rightarrow> bool \<Rightarrow> error_t \<Rightarrow> ports \<Rightarrow> (bool \<times> ports) option" where
  "transfer_drop to hassendrights mod_err st =
     (if port_right (infos st to) = MACH_PORT_NULL then Some (False, st)
      else
        (case tables_remove to st of
           None \<Rightarrow> None
         | Some s \<Rightarrow>
             if mod_err \<noteq> Success then None
             else if has_srights to s \<and> \<not> hassendrights then Some (True, set_srights False to s)
             else if \<not> has_srights to s \<and> hassendrights
             then map_option (\<lambda>s1. (False, s1)) (change_refs refcounts_ref to (set_srights True to s))
             else Some (False, s)))"

definition deref_if :: "bool \<Rightarrow> (nat \<Rightarrow> ports \<Rightarrow> ports) \<Rightarrow> nat \<Rightarrow> ports \<Rightarrow> ports option" where
  "deref_if x dropweak p st = (if x then ports_port_deref dropweak p st else Some st)"

definition ports_transfer_right ::
  "(nat \<Rightarrow> ports \<Rightarrow> ports) \<Rightarrow> error_t \<Rightarrow> error_t \<Rightarrow> nat \<Rightarrow> nat \<Rightarrow> ports \<Rightarrow> allocs \<Rightarrow> (ports \<times> allocs) option" where
  "ports_transfer_right dropweak mod_err move_err to from st orc =
     (let port = port_right (infos st from)
      in case transfer_take from st of
           None \<Rightarrow> None
         | Some (hassendrights, s) \<Rightarrow>
             (case transfer_drop to hassendrights mod_err s of
                None \<Rightarrow> None
              | Some (dereftopi, s1) \<Rightarrow>
                  let s2 = set_info to ((infos s1 to)\<lparr>port_right := port, cancel_threshold := cancel_threshold (infos s1 from),
                             mscount := mscount (infos s1 from)\<rparr>) s1;
                      (err, s3, o1) = (if port \<noteq> 0 then tables_add port to s2 orc else (Success, s2, orc))
                  in if err \<noteq> Success then None
                     else if port \<noteq> 0 \<and> pbucket (infos s3 to) \<noteq> pbucket (infos s3 from) \<and> move_err \<noteq> Success then None
                     else
                       (case deref_if hassendrights dropweak from s3 of
                          None \<Rightarrow> None
                        | Some s4 \<Rightarrow> map_option (\<lambda>s5. (s5, o1)) (deref_if dereftopi dropweak to s4))))"

definition ports_reallocate_port ::
  "(nat \<Rightarrow> ports \<Rightarrow> ports) \<Rightarrow> error_t \<Rightarrow> error_t + mach_port \<Rightarrow> error_t \<Rightarrow> nat \<Rightarrow> ports \<Rightarrow> allocs \<Rightarrow> (ports \<times> allocs) option" where
  "ports_reallocate_port dropweak mod_err receive move_err p st orc =
     (if port_right (infos st p) = MACH_PORT_NULL \<or> mod_err \<noteq> Success then None
      else
        (case (tables_remove p st, receive) of
           (Some s, Inr n) \<Rightarrow>
             let dropref = has_srights p s;
                 s1 = (if dropref then set_srights False p s else s);
                 s2 = set_info p ((infos s1 p)\<lparr>port_right := n, cancel_threshold := 0, mscount := 0\<rparr>) s1;
                 (err, s3, o1) = tables_add n p s2 orc
             in if err \<noteq> Success \<or> move_err \<noteq> Success then None
                else map_option (\<lambda>s4. (s4, o1)) (deref_if dropref dropweak p s3)
         | _ \<Rightarrow> None))"

definition ports_reallocate_from_external ::
  "(nat \<Rightarrow> ports \<Rightarrow> ports) \<Rightarrow> error_t + (bool \<times> u32) \<Rightarrow> error_t \<Rightarrow> error_t \<Rightarrow> nat \<Rightarrow> mach_port \<Rightarrow> ports \<Rightarrow> allocs \<Rightarrow>
   (ports \<times> allocs) option" where
  "ports_reallocate_from_external dropweak status mod_err notify_err p receive st orc =
     (case status of
        Inl err \<Rightarrow> None
      | Inr (srights, msc) \<Rightarrow>
          if port_right (infos st p) = MACH_PORT_NULL \<or> mod_err \<noteq> Success then None
          else
            (case tables_remove p st of
               None \<Rightarrow> None
             | Some s \<Rightarrow>
                 let dropref = (has_srights p s \<and> \<not> srights)
                 in case (if dropref then Some (set_srights False p s)
                          else if \<not> has_srights p s \<and> srights then change_refs refcounts_ref p (set_srights True p s)
                          else Some s) of
                      None \<Rightarrow> None
                    | Some s1 \<Rightarrow>
                        let s2 = set_info p ((infos s1 p)\<lparr>port_right := receive, cancel_threshold := 0, mscount := msc\<rparr>) s1;
                            (err, s3, o1) = tables_add receive p s2 orc
                        in if err \<noteq> Success \<or> srights \<and> notify_err \<noteq> Success then None
                           else map_option (\<lambda>s4. (s4, o1)) (deref_if dropref dropweak p s3)))"

section \<open>Counting and blocking allocation\<close>

definition ports_count_class :: "nat \<Rightarrow> ports \<Rightarrow> int \<times> ports" where
  "ports_count_class c st =
     (ccount (classes st c), set_class c ((classes st c)\<lparr>cflags := insert NO_ALLOC (cflags (classes st c))\<rparr>) st)"

definition ports_count_bucket :: "nat \<Rightarrow> ports \<Rightarrow> int \<times> ports" where
  "ports_count_bucket b st =
     (bcount (buckets st b) - 1, set_bucket b ((buckets st b)\<lparr>bflags := insert NO_ALLOC (bflags (buckets st b))\<rparr>) st)"

definition ports_enable_class :: "nat \<Rightarrow> ports \<Rightarrow> ports" where
  "ports_enable_class c st =
     (let s = set_class c ((classes st c)\<lparr>cflags := cflags (classes st c) - {NO_ALLOC}\<rparr>) st
      in if ALLOC_WAIT \<in> cflags (classes s c)
         then (set_class c ((classes s c)\<lparr>cflags := cflags (classes s c) - {ALLOC_WAIT}\<rparr>) s)\<lparr>broadcasts := broadcasts s + 1\<rparr>
         else s)"

definition ports_enable_bucket :: "nat \<Rightarrow> ports \<Rightarrow> ports" where
  "ports_enable_bucket b st =
     (let s = set_bucket b ((buckets st b)\<lparr>bflags := bflags (buckets st b) - {NO_ALLOC}\<rparr>) st
      in if ALLOC_WAIT \<in> bflags (buckets s b)
         then (set_bucket b ((buckets s b)\<lparr>bflags := bflags (buckets s b) - {ALLOC_WAIT}\<rparr>) s)\<lparr>broadcasts := broadcasts s + 1\<rparr>
         else s)"

end
