(* ===== verification/Ports_Notify.thy ===== *)
theory Ports_Notify
  imports Ports_Rpc Ports_Right
begin

text \<open>
  RPCs that want to be interrupted when something happens to a port (\<^verbatim>\<open>interrupt-on-notify.c\<close>, \<^verbatim>\<open>interrupt-notified-rpcs.c\<close>,
  \<^verbatim>\<open>dead-name.c\<close>, \<^verbatim>\<open>notify-dead-name.c\<close>, \<^verbatim>\<open>notify-no-senders.c\<close> of \<^verbatim>\<open>libports\<close>). Each port and kind of event has an entry with the requests of RPCs. A request
  is on two lists in the code, that of its entry and that of its RPC; here it is on the first and names its RPC. The free lists are
  their lengths. \<open>requested\<close> are the notifications that the kernel has been asked for and has not sent yet. The code asks the kernel, holding the lock of
  the entry, after it has released the lock of the library; here that is one step.
\<close>

section \<open>State\<close>

record rpc_notify =
  req_rpc :: rpc_info
  req_pending :: nat

record ports_notify =
  np_port :: mach_port
  np_what :: int
  np_pending :: bool
  np_reqs :: "rpc_notify list"

record notify_state =
  nports :: ports
  ports_notifications :: "ports_notify list"
  free_ports_notifies :: nat
  free_rpc_notifies :: nat
  requested :: "(mach_port \<times> int) set"

abbreviation (input) MACH_NOTIFY_NO_SENDERS :: int where "MACH_NOTIFY_NO_SENDERS \<equiv> 70"
abbreviation (input) MACH_NOTIFY_DEAD_NAME :: int where "MACH_NOTIFY_DEAD_NAME \<equiv> 72"

section \<open>Requests\<close>

text \<open>A structure from a free list, or from the allocator.\<close>

definition take_rpc_notify :: "notify_state \<Rightarrow> allocs \<Rightarrow> bool \<times> notify_state \<times> allocs" where
  "take_rpc_notify st orc =
     (if free_rpc_notifies st > 0 then (True, st\<lparr>free_rpc_notifies := free_rpc_notifies st - 1\<rparr>, orc)
      else case alloc orc of (None, o1) \<Rightarrow> (False, st, o1) | (Some _, o1) \<Rightarrow> (True, st, o1))"

definition take_ports_notify :: "notify_state \<Rightarrow> allocs \<Rightarrow> bool \<times> notify_state \<times> allocs" where
  "take_ports_notify st orc =
     (if free_ports_notifies st > 0 then (True, st\<lparr>free_ports_notifies := free_ports_notifies st - 1\<rparr>, orc)
      else case alloc orc of (None, o1) \<Rightarrow> (False, st, o1) | (Some _, o1) \<Rightarrow> (True, st, o1))"

definition notify_for :: "mach_port \<Rightarrow> int \<Rightarrow> ports_notify \<Rightarrow> bool" where
  "notify_for port what n \<longleftrightarrow> np_port n = port \<and> np_what n = what"

fun upd_notify :: "(ports_notify \<Rightarrow> bool) \<Rightarrow> (ports_notify \<Rightarrow> ports_notify) \<Rightarrow> ports_notify list \<Rightarrow> ports_notify list" where
  "upd_notify P f [] = []"
| "upd_notify P f (n # ns) = (if P n then f n # ns else n # upd_notify P f ns)"

definition add_req :: "rpc_info \<Rightarrow> ports_notify \<Rightarrow> ports_notify" where
  "add_req rpc n =
     (if \<exists>r \<in> set (np_reqs n). req_rpc r = rpc
      then n\<lparr>np_reqs := map (\<lambda>r. if req_rpc r = rpc then r\<lparr>req_pending := req_pending r + 1\<rparr> else r) (np_reqs n)\<rparr>
      else n\<lparr>np_reqs := \<lparr>req_rpc = rpc, req_pending = 1\<rparr> # np_reqs n\<rparr>)"

text \<open>The request is added to the entry \<open>n\<close>; if none is outstanding the kernel is asked for a notification, with the result \<open>err\<close>.\<close>

definition join_notify :: "rpc_info \<Rightarrow> error_t \<Rightarrow> ports_notify \<Rightarrow> notify_state \<Rightarrow> error_t \<times> notify_state" where
  "join_notify rpc err n st =
     (let key = notify_for (np_port n) (np_what n);
          st1 = st\<lparr>ports_notifications := upd_notify key (add_req rpc) (ports_notifications st),
                   free_rpc_notifies := free_rpc_notifies st + (if \<exists>r \<in> set (np_reqs n). req_rpc r = rpc then 1 else 0)\<rparr>
      in if \<not> np_pending n then
           (err, st1\<lparr>ports_notifications := upd_notify key (\<lambda>n. n\<lparr>np_pending := True\<rparr>) (ports_notifications st1),
                     requested := (if err = Success then insert (np_port n, np_what n) (requested st1) else requested st1)\<rparr>)
         else (Success, st1))"

definition ports_interrupt_rpc_on_notification ::
  "rpc_info \<Rightarrow> mach_port \<Rightarrow> int \<Rightarrow> error_t \<Rightarrow> notify_state \<Rightarrow> allocs \<Rightarrow> error_t \<times> notify_state \<times> allocs" where
  "ports_interrupt_rpc_on_notification rpc port what err st orc =
     (if \<not> MACH_PORT_VALID port then (Success, st\<lparr>nports := hurd_thread_cancel (rpc_thread rpc) (nports st)\<rparr>, orc)
      else
        let (got, st1, o1) = take_rpc_notify st orc
        in if \<not> got then (ENOMEM, st1, o1)
           else
             (case find (notify_for port what) (ports_notifications st1) of
                Some n \<Rightarrow> (let (e, s) = join_notify rpc err n st1 in (e, s, o1))
              | None \<Rightarrow>
                  let (got, st2, o2) = take_ports_notify st1 o1
                  in if \<not> got then (ENOMEM, st2\<lparr>free_rpc_notifies := free_rpc_notifies st2 + 1\<rparr>, o2)
                     else
                       let n = \<lparr>np_port = port, np_what = what, np_pending = False, np_reqs = []\<rparr>;
                           (e, s) = join_notify rpc err n (st2\<lparr>ports_notifications := n # ports_notifications st2\<rparr>)
                       in (e, s, o2)))"

text \<open>\<open>None\<close> is a failed assertion: the thread handles no RPC on the object.\<close>

definition ports_interrupt_self_on_notification ::
  "nat \<Rightarrow> nat \<Rightarrow> mach_port \<Rightarrow> int \<Rightarrow> error_t \<Rightarrow> notify_state \<Rightarrow> allocs \<Rightarrow> (error_t \<times> notify_state \<times> allocs) option" where
  "ports_interrupt_self_on_notification p self port what err st orc =
     map_option (\<lambda>rpc. ports_interrupt_rpc_on_notification rpc port what err st orc)
       (find (\<lambda>r. rpc_thread r = self) (current_rpcs (nports st) p))"

section \<open>Notifications\<close>

fun fire_reqs :: "rpc_notify list \<Rightarrow> ports \<Rightarrow> rpc_notify list \<times> ports" where
  "fire_reqs [] st = ([], st)"
| "fire_reqs (r # rs) st =
     (if req_pending r \<noteq> 0 then
        let (rs', s) = fire_reqs rs (hurd_thread_cancel (rpc_thread (req_rpc r)) st)
        in (r\<lparr>req_pending := req_pending r - 1\<rparr> # rs', s)
      else let (rs', s) = fire_reqs rs st in (r # rs', s))"

definition ports_interrupt_notified_rpcs :: "mach_port \<Rightarrow> int \<Rightarrow> notify_state \<Rightarrow> notify_state" where
  "ports_interrupt_notified_rpcs port what st =
     (case find (notify_for port what) (ports_notifications st) of
        None \<Rightarrow> st
      | Some n \<Rightarrow>
          let (rs, ps) = fire_reqs (np_reqs n) (nports st)
          in st\<lparr>nports := ps, ports_notifications := upd_notify (notify_for port what) (\<lambda>n. n\<lparr>np_reqs := rs\<rparr>) (ports_notifications st)\<rparr>)"

definition ports_dead_name :: "mach_port \<Rightarrow> notify_state \<Rightarrow> notify_state" where
  "ports_dead_name dead_name st = ports_interrupt_notified_rpcs dead_name MACH_NOTIFY_DEAD_NAME st"

definition ports_port_is_notify :: "nat \<Rightarrow> ports \<Rightarrow> bool" where
  "ports_port_is_notify p st \<longleftrightarrow> notify_port (buckets st (pbucket (infos st p))) = p"

definition ports_do_mach_notify_dead_name :: "nat \<Rightarrow> mach_port \<Rightarrow> notify_state \<Rightarrow> error_t \<times> notify_state" where
  "ports_do_mach_notify_dead_name p dead_name st =
     (if \<not> ports_port_is_notify p (nports st) then (EOPNOTSUPP, st) else (Success, ports_dead_name dead_name st))"

text \<open>\<open>status\<close> is the kernel's answer on the receive right: an error, or whether it has send rights, and its make-send count.\<close>

definition ports_do_mach_notify_no_senders ::
  "nat \<Rightarrow> nat option \<Rightarrow> error_t + (bool \<times> u32) \<Rightarrow> notify_state \<Rightarrow> (error_t \<times> notify_state) option" where
  "ports_do_mach_notify_no_senders self pi status st =
     (case pi of
        None \<Rightarrow> Some (EOPNOTSUPP, st)
      | Some p \<Rightarrow>
          (case status of
             Inl err \<Rightarrow> Some (err, st)
           | Inr (srights, msc) \<Rightarrow>
               if srights then Some (EAGAIN, st)
               else
                 let st1 = (if has_srights p (nports st) \<and> msc \<ge> mscount (infos (nports st) p)
                            then ports_interrupt_notified_rpcs (port_right (infos (nports st) p)) MACH_NOTIFY_NO_SENDERS st else st)
                 in map_option (\<lambda>ps. (Success, st1\<lparr>nports := ps\<rparr>))
                      (ports_no_senders (\<lambda>p. ports_interrupt_rpcs p self) (\<lambda>_ s. s) p msc (nports st1))))"

section \<open>The end of an RPC\<close>

text \<open>The requests of the RPC are removed; an entry without requests goes, and with it the request to the kernel.\<close>

fun remove_reqs :: "rpc_info \<Rightarrow> ports_notify list \<Rightarrow> notify_state \<Rightarrow> ports_notify list \<times> notify_state" where
  "remove_reqs rpc [] st = ([], st)"
| "remove_reqs rpc (n # ns) st =
     (if \<exists>r \<in> set (np_reqs n). req_rpc r = rpc then
        let rs = filter (\<lambda>r. req_rpc r \<noteq> rpc) (np_reqs n); st1 = st\<lparr>free_rpc_notifies := free_rpc_notifies st + 1\<rparr>
        in if rs = [] then
             remove_reqs rpc ns
               (st1\<lparr>free_ports_notifies := free_ports_notifies st1 + 1,
                    requested := (if np_pending n then requested st1 - {(np_port n, np_what n)} else requested st1)\<rparr>)
           else let (ns', s) = remove_reqs rpc ns st1 in (n\<lparr>np_reqs := rs\<rparr> # ns', s)
      else let (ns', s) = remove_reqs rpc ns st in (n # ns', s))"

definition ports_remove_notified_rpc :: "rpc_info \<Rightarrow> notify_state \<Rightarrow> notify_state" where
  "ports_remove_notified_rpc rpc st =
     (let (ns, s) = remove_reqs rpc (ports_notifications st) st in s\<lparr>ports_notifications := ns\<rparr>)"

text \<open>The whole of \<^verbatim>\<open>ports_end_rpc\<close>, with the requests of the RPC.\<close>

definition end_rpc_notified :: "rpc_info \<Rightarrow> notify_state \<Rightarrow> notify_state" where
  "end_rpc_notified rpc st = (let s = ports_remove_notified_rpc rpc st in s\<lparr>nports := ports_end_rpc rpc (nports s)\<rparr>)"

section \<open>Runs\<close>

text \<open>
  RPCs ask to be interrupted, the kernel sends a notification it has been asked for, which settles the request, RPCs end, and the rest of
  the library changes its own state.
\<close>

inductive notify_step :: "notify_state \<Rightarrow> notify_state \<Rightarrow> bool" where
  asks: "ports_interrupt_rpc_on_notification rpc port what err st orc = (e, s, o1) \<Longrightarrow> notify_step st s"
| happens: "(port, what) \<in> requested st \<Longrightarrow>
    notify_step st (ports_interrupt_notified_rpcs port what (st\<lparr>requested := requested st - {(port, what)}\<rparr>))"
| ends: "notify_step st (end_rpc_notified rpc st)"
| other: "notify_step st (st\<lparr>nports := ps\<rparr>)"

inductive notify_reach :: "notify_state \<Rightarrow> bool" where
  quiet: "ports_notifications st = [] \<Longrightarrow> requested st = {} \<Longrightarrow> notify_reach st"
| goes_on: "notify_reach st \<Longrightarrow> notify_step st s \<Longrightarrow> notify_reach s"

definition notify_key :: "ports_notify \<Rightarrow> mach_port \<times> int" where
  "notify_key n = (np_port n, np_what n)"

definition notify_ok :: "notify_state \<Rightarrow> bool" where
  "notify_ok st \<longleftrightarrow>
     distinct (map notify_key (ports_notifications st)) \<and>
     (\<forall>n \<in> set (ports_notifications st). np_reqs n \<noteq> [] \<and> distinct (map req_rpc (np_reqs n)) \<and> np_pending n) \<and>
     requested st \<subseteq> notify_key ` set (ports_notifications st)"

end
