(* ===== verification/Ports_Right_Props.thy ===== *)
theory Ports_Right_Props
  imports Ports_Right Ports_Rpc
begin

text \<open>
  References to port objects over all sequences of operations: the counts are the references that are held, with one
  more while there are send rights, objects live as long as they are referenced, and the table of ports
  has exactly the rights of the live objects.
\<close>

section \<open>The invariant\<close>

definition refs_of :: "ports \<Rightarrow> nat \<Rightarrow> nat \<times> nat" where
  "refs_of st p = counts (refcounts (infos st p))"

text \<open>
  \<open>objs\<close> are the live objects; \<open>tot p\<close> are the hard and weak references to \<open>p\<close> that somebody holds, besides
  the one for send rights.
\<close>

definition refs_ok :: "nat \<Rightarrow> (nat \<Rightarrow> nat \<times> nat) \<Rightarrow> ports \<Rightarrow> bool" where
  "refs_ok p tot st \<longleftrightarrow>
     refs_of st p = (fst (tot p) + (if has_srights p st then 1 else 0), snd (tot p)) \<and>
     fst (refs_of st p) < ref_max \<and> snd (refs_of st p) < ref_max"

definition table_ok :: "nat set \<Rightarrow> ports \<Rightarrow> bool" where
  "table_ok objs st \<longleftrightarrow>
     distinct (map fst (ports_htable st)) \<and>
     (\<forall>n p. (n, p) \<in> set (ports_htable st) \<longrightarrow> p \<in> objs \<and> port_right (infos st p) = n \<and> MACH_PORT_VALID n) \<and>
     (\<forall>p \<in> objs. MACH_PORT_VALID (port_right (infos st p)) \<longrightarrow> (port_right (infos st p), p) \<in> set (ports_htable st))"

definition ports_inv :: "nat set \<Rightarrow> (nat \<Rightarrow> nat \<times> nat) \<Rightarrow> ports \<Rightarrow> bool" where
  "ports_inv objs tot st \<longleftrightarrow>
     (\<forall>p \<in> objs. refs_ok p tot st \<and> refs_of st p \<noteq> (0, 0)) \<and> (\<forall>p. p \<notin> objs \<longrightarrow> tot p = (0, 0)) \<and> table_ok objs st"

lemma set_info_simps [simp]:
  "infos (set_info p pi st) = (infos st)(p := pi)" "ports_htable (set_info p pi st) = ports_htable st"
  "classes (set_info p pi st) = classes st" "buckets (set_info p pi st) = buckets st" "freed (set_info p pi st) = freed st"
  "rpcs (set_info p pi st) = rpcs st"
  by (simp_all add: set_info_def)

lemma set_bucket_simps [simp]:
  "infos (set_bucket b x st) = infos st" "ports_htable (set_bucket b x st) = ports_htable st" "freed (set_bucket b x st) = freed st"
  "infos (set_class c y st) = infos st" "ports_htable (set_class c y st) = ports_htable st" "freed (set_class c y st) = freed st"
  by (simp_all add: set_bucket_def set_class_def)

lemma has_srights_set [simp]:
  "has_srights q (set_srights x p st) = (if q = p then x else has_srights q st)"
  "refs_of (set_srights x p st) q = refs_of st q" "port_right (infos (set_srights x p st) q) = port_right (infos st q)"
  "ports_htable (set_srights x p st) = ports_htable st" "freed (set_srights x p st) = freed st"
  by (simp_all add: has_srights_def set_srights_def refs_of_def)

lemma refs_only:
  "infos st' p = infos st p \<Longrightarrow> refs_of st' p = refs_of st p" "infos st' p = infos st p \<Longrightarrow> has_srights p st' = has_srights p st"
  by (simp_all add: refs_of_def has_srights_def)

section \<open>Changing references\<close>

lemma change_refs_op:
  assumes c: "change_refs (ref_apply op) p st = Some st'" and b: "fst (refs_of st p) < ref_max" "snd (refs_of st p) < ref_max"
  shows "ref_spec op (refs_of st p) = Some (refs_of st' p)" "has_srights q st' = has_srights q st"
    "q \<noteq> p \<Longrightarrow> infos st' q = infos st q" "port_right (infos st' q) = port_right (infos st q)" "ports_htable st' = ports_htable st"
    "freed st' = freed st" "fst (refs_of st' p) < ref_max \<and> snd (refs_of st' p) < ref_max"
proof -
  obtain v where v: "ref_apply op (refcounts (infos st p)) = Some v" "st' = set_info p ((infos st p)\<lparr>refcounts := v\<rparr>) st"
    using c by (auto simp: change_refs_def)
  have "packed.bounded (refcounts (infos st p))" using b by (simp add: packed.bounded_def refs_of_def)
  note o = packed.one_step [OF v(1) this]
  show "ref_spec op (refs_of st p) = Some (refs_of st' p)" using o(1) v(2) by (simp add: refs_of_def)
  show "fst (refs_of st' p) < ref_max \<and> snd (refs_of st' p) < ref_max" using o(2) v(2) by (simp add: packed.bounded_def refs_of_def)
  show "has_srights q st' = has_srights q st" "q \<noteq> p \<Longrightarrow> infos st' q = infos st q"
    "port_right (infos st' q) = port_right (infos st q)" "ports_htable st' = ports_htable st" "freed st' = freed st"
    by (simp_all add: v(2) has_srights_def)
qed

lemma ports_invD:
  assumes "ports_inv objs tot st"
  shows "p \<in> objs \<Longrightarrow> refs_ok p tot st" "p \<in> objs \<Longrightarrow> refs_of st p \<noteq> (0, 0)" "p \<notin> objs \<Longrightarrow> tot p = (0, 0)" "table_ok objs st"
    "p \<in> objs \<Longrightarrow> fst (refs_of st p) < ref_max" "p \<in> objs \<Longrightarrow> snd (refs_of st p) < ref_max"
  using assms by (auto simp: ports_inv_def refs_ok_def)

text \<open>The invariant but for the object \<open>p\<close>, for which only the counts matter.\<close>

lemma ports_invI:
  assumes i: "ports_inv objs tot st" and p: "p \<in> objs" and r: "refs_ok p tot' st'" "refs_of st' p \<noteq> (0, 0)"
    and t: "\<And>q. q \<noteq> p \<Longrightarrow> tot' q = tot q" and n: "\<And>q. q \<noteq> p \<Longrightarrow> refs_of st' q = refs_of st q \<and> has_srights q st' = has_srights q st"
    and tab: "table_ok objs st'"
  shows "ports_inv objs tot' st'"
proof -
  have "refs_ok q tot' st' \<and> refs_of st' q \<noteq> (0, 0)" if "q \<in> objs" for q
    using r ports_invD(1,2) [OF i that] n [of q] t [of q] by (cases "q = p") (auto simp: refs_ok_def)
  moreover have "tot' q = (0, 0)" if "q \<notin> objs" for q using ports_invD(3) [OF i that] t [of q] p that by auto
  ultimately show ?thesis using tab by (simp add: ports_inv_def)
qed

lemma ports_inv_cong:
  assumes "ports_inv objs tot st" "\<And>q. refs_of s q = refs_of st q" "\<And>q. has_srights q s = has_srights q st" "table_ok objs s"
  shows "ports_inv objs tot s"
  using assms(1,4) unfolding ports_inv_def refs_ok_def assms(2,3) by blast

lemma table_ok_same:
  "table_ok objs st \<Longrightarrow> ports_htable st' = ports_htable st \<Longrightarrow> (\<And>q. port_right (infos st' q) = port_right (infos st q)) \<Longrightarrow> table_ok objs st'"
  by (simp add: table_ok_def)

lemma change_inv:
  assumes i: "ports_inv objs tot st" and p: "p \<in> objs" and c: "change_refs (ref_apply op) p st = Some st'"
    and t: "refs_of st' p = (fst x + (if has_srights p st then 1 else 0), snd x)" "refs_of st' p \<noteq> (0, 0)"
  shows "ports_inv objs (tot(p := x)) st'"
proof -
  note o = change_refs_op [OF c ports_invD(5,6) [OF i p]]
  have "refs_ok p (tot(p := x)) st'" using t(1) o(2,7) by (simp add: refs_ok_def)
  moreover have "refs_of st' q = refs_of st q \<and> has_srights q st' = has_srights q st" if "q \<noteq> p" for q
    using o(2) refs_only(1) [OF o(3) [OF that]] by simp
  ultimately show ?thesis
    using t(2) table_ok_same [OF ports_invD(4) [OF i] o(5,4)] by (intro ports_invI [OF i p]) simp_all
qed

section \<open>Deallocation\<close>

lemma tables_remove_some:
  assumes "tables_remove p st = Some s"
  shows "infos s = infos st" "ports_htable s = filter (\<lambda>e. snd e \<noteq> p) (ports_htable st)" "freed s = freed st"
    "p \<in> snd ` set (ports_htable st)"
  using assms by (auto simp: tables_remove_def table_remove_def Let_def split: if_splits option.splits)

lemma table_ok_remove:
  assumes t: "table_ok objs st" and r: "ports_htable st' = filter (\<lambda>e. snd e \<noteq> p) (ports_htable st)"
    "\<And>q. q \<noteq> p \<Longrightarrow> port_right (infos st' q) = port_right (infos st q)" and n: "p \<in> objs' \<Longrightarrow> \<not> MACH_PORT_VALID (port_right (infos st' p))"
    and o: "objs' = objs \<or> objs' = objs - {p}"
  shows "table_ok objs' st'"
proof -
  have "distinct (map fst (filter (\<lambda>e. snd e \<noteq> p) (ports_htable st)))" using t by (simp add: table_ok_def distinct_map_filter)
  moreover have "q \<in> objs' \<and> port_right (infos st' q) = m \<and> MACH_PORT_VALID m"
    if "(m, q) \<in> set (filter (\<lambda>e. snd e \<noteq> p) (ports_htable st))" for m q
  proof -
    have q: "(m, q) \<in> set (ports_htable st)" "q \<noteq> p" using that by auto
    then have "q \<in> objs \<and> port_right (infos st q) = m \<and> MACH_PORT_VALID m" using t unfolding table_ok_def by blast
    then show ?thesis using q(2) o r(2) [OF q(2)] by auto
  qed
  moreover have "(port_right (infos st' q), q) \<in> set (filter (\<lambda>e. snd e \<noteq> p) (ports_htable st))"
    if "q \<in> objs'" "MACH_PORT_VALID (port_right (infos st' q))" for q
  proof -
    have q: "q \<noteq> p" using that n by blast
    then have "MACH_PORT_VALID (port_right (infos st q))" "q \<in> objs" using that o r(2) by auto
    then have "(port_right (infos st q), q) \<in> set (ports_htable st)" using t unfolding table_ok_def by blast
    then show ?thesis using q r(2) [OF q] by simp
  qed
  ultimately show ?thesis unfolding table_ok_def r(1) by blast
qed

lemma table_absent:
  assumes t: "table_ok objs st" and n: "\<not> MACH_PORT_VALID (port_right (infos st p))"
  shows "filter (\<lambda>e. snd e \<noteq> p) (ports_htable st) = ports_htable st"
proof (rule filter_True, rule ballI, rule notI)
  fix e
  assume "e \<in> set (ports_htable st)" "snd e = p"
  then have "(fst e, p) \<in> set (ports_htable st)" by auto
  then show False using t n unfolding table_ok_def by metis
qed

lemma complete_deallocate_some:
  assumes "ports_complete_deallocate p st = Some s" and t: "table_ok objs st" "p \<in> objs"
  shows "freed s = p # freed st" "q \<noteq> p \<Longrightarrow> infos s q = infos st q" "table_ok (objs - {p}) s" "\<not> has_srights p st"
proof -
  obtain s1 where s1: "(if MACH_PORT_VALID (port_right (infos st p)) then
      map_option (\<lambda>s. set_info p ((infos s p)\<lparr>port_right := MACH_PORT_NULL\<rparr>) s) (tables_remove p st) else Some st) = Some s1"
    "infos s = infos s1" "ports_htable s = ports_htable s1" "freed s = p # freed s1"
    using assms(1) by (auto simp: ports_complete_deallocate_def Let_def split: if_splits option.splits)
  show "\<not> has_srights p st" using assms(1) by (auto simp: ports_complete_deallocate_def has_srights_def)
  have f: "freed s1 = freed st \<and> (q \<noteq> p \<longrightarrow> infos s1 q = infos st q) \<and> table_ok (objs - {p}) s1" for q
  proof (cases "MACH_PORT_VALID (port_right (infos st p))")
    case True
    then obtain s0 where s0: "tables_remove p st = Some s0" "s1 = set_info p ((infos s0 p)\<lparr>port_right := MACH_PORT_NULL\<rparr>) s0"
      using s1(1) by auto
    note r = tables_remove_some [OF s0(1)]
    have "table_ok (objs - {p}) s1" by (rule table_ok_remove [OF t(1), of _ p]) (simp_all add: s0(2) r)
    then show ?thesis by (simp add: s0(2) r)
  next
    case False
    then have s: "s1 = st" using s1(1) by simp
    note e = table_absent [OF t(1) False]
    have "table_ok (objs - {p}) st" by (rule table_ok_remove [OF t(1) e [symmetric]]) auto
    then show ?thesis by (simp add: s)
  qed
  show "freed s = p # freed st" "q \<noteq> p \<Longrightarrow> infos s q = infos st q" using f [of q] s1(2,4) by simp_all
  show "table_ok (objs - {p}) s"
    by (rule table_ok_same [of _ s1]) (use f [of q] s1(2,3) in simp_all)
qed

text \<open>One hard reference is dropped; the object goes when it was the last.\<close>

definition drops :: "nat set \<Rightarrow> ports \<Rightarrow> ports \<Rightarrow> nat set \<Rightarrow> bool" where
  "drops objs st s objs' \<longleftrightarrow> (\<exists>xs. freed s = xs @ freed st \<and> objs' = objs - set xs)"

lemma drops_refl: "freed s = freed st \<Longrightarrow> drops objs st s objs"
  by (simp add: drops_def)

lemma drops_one: "freed s = p # freed st \<Longrightarrow> drops objs st s (objs - {p})"
  by (auto simp: drops_def intro: exI [of _ "[p]"])

lemma drops_trans: "drops objs st s objs' \<Longrightarrow> drops objs' s s' objs'' \<Longrightarrow> drops objs st s' objs''"
  by (auto simp: drops_def)

lemma drops_unique: "drops objs st s a \<Longrightarrow> drops objs st s b \<Longrightarrow> a = b"
  by (auto simp: drops_def)

lemma drops_from: "freed s = freed st \<Longrightarrow> drops objs s s' objs' \<Longrightarrow> drops objs st s' objs'"
  by (simp add: drops_def)

lemma dealloc_inv:
  assumes i: "ports_inv objs tot st" and p: "p \<in> objs"
    and s: "refs_ok p (tot(p := x)) s" "\<And>q. q \<noteq> p \<Longrightarrow> infos s q = infos st q" "table_ok objs s" "freed s = freed st"
    and d: "dealloc_if_dead p s = Some s'"
  shows "\<exists>objs'. ports_inv objs' (tot(p := x)) s' \<and> drops objs st s' objs'"
proof (cases "refs_of s p = (0, 0)")
  case True
  then have "hard (refcounts_references (refcounts (infos s p))) = 0 \<and> weak (refcounts_references (refcounts (infos s p))) = 0"
    by (simp add: refs_of_def counts_def refcounts_references_def unat_eq_0)
  then have "ports_complete_deallocate p s = Some s'" using d by (simp add: dealloc_if_dead_def)
  note c = complete_deallocate_some [OF this s(3) p]
  have x: "x = (0, 0)" using s(1) True by (cases x) (auto simp: refs_ok_def)
  have "ports_inv (objs - {p}) (tot(p := x)) s'"
    using i c(2,3) s(2) x refs_only [of s' _ s] refs_only [of s _ st] unfolding ports_inv_def refs_ok_def by (auto simp: refs_of_def has_srights_def)
  then show ?thesis using drops_one [of s' p st objs] c(1) s(4) by auto
next
  case False
  then have "\<not> (hard (refcounts_references (refcounts (infos s p))) = 0 \<and> weak (refcounts_references (refcounts (infos s p))) = 0)"
    by (simp add: refs_of_def counts_def refcounts_references_def unat_eq_0)
  then have e: "s' = s" using d by (auto simp: dealloc_if_dead_def)
  have "ports_inv objs (tot(p := x)) s"
    using s(1,3) False refs_only [OF s(2)] by (intro ports_invI [OF i p]) simp_all
  then show ?thesis using drops_refl [OF s(4)] e by blast
qed

lemma ref_apply_ops:
  "refcounts_ref = ref_apply Ref" "refcounts_deref = ref_apply Deref" "refcounts_demote = ref_apply Demote"
  "refcounts_ref_weak = ref_apply Ref_Weak" "refcounts_deref_weak = ref_apply Deref_Weak"
  by (simp_all add: fun_eq_iff)

text \<open>A change of references that goes through, with all that it leaves as it was.\<close>

definition refs_step :: "nat \<Rightarrow> ports \<Rightarrow> ports \<Rightarrow> nat \<times> nat \<Rightarrow> bool" where
  "refs_step p st s x \<longleftrightarrow>
     refs_of s p = x \<and> fst x < ref_max \<and> snd x < ref_max \<and> (\<forall>q. has_srights q s = has_srights q st) \<and>
     (\<forall>q. q \<noteq> p \<longrightarrow> infos s q = infos st q) \<and> (\<forall>q. port_right (infos s q) = port_right (infos st q)) \<and>
     ports_htable s = ports_htable st \<and> freed s = freed st"

lemma change_refs_step:
  assumes "change_refs (ref_apply op) p st = Some s" "fst (refs_of st p) < ref_max" "snd (refs_of st p) < ref_max"
  obtains x where "ref_spec op (refs_of st p) = Some x" "refs_step p st s x"
proof -
  note o = change_refs_op [OF assms]
  show ?thesis using that [OF o(1)] o(2-7) by (auto simp: refs_step_def)
qed

lemma refs_step_trans: "refs_step p st s x \<Longrightarrow> refs_step p s s' y \<Longrightarrow> refs_step p st s' y"
  by (simp add: refs_step_def)

lemma refs_step_dealloc:
  assumes i: "ports_inv objs tot st" and p: "p \<in> objs" and s: "refs_step p st s (h + (if has_srights p st then 1 else 0), w)"
    and d: "dealloc_if_dead p s = Some s'"
  shows "\<exists>objs'. ports_inv objs' (tot(p := (h, w))) s' \<and> drops objs st s' objs'"
proof (rule dealloc_inv [OF i p _ _ _ _ d])
  show "refs_ok p (tot(p := (h, w))) s" using s by (simp add: refs_ok_def refs_step_def)
  show "infos s q = infos st q" if "q \<noteq> p" for q using s that by (simp add: refs_step_def)
  show "freed s = freed st" using s by (simp add: refs_step_def)
  show "table_ok objs s" by (rule table_ok_same [OF ports_invD(4) [OF i]]) (use s in \<open>simp_all add: refs_step_def\<close>)
qed

lemma inv_refs_of: "ports_inv objs tot st \<Longrightarrow> p \<in> objs \<Longrightarrow> refs_of st p = (fst (tot p) + (if has_srights p st then 1 else 0), snd (tot p))"
  by (simp add: ports_inv_def refs_ok_def)

abbreviation no_dropweak :: "nat \<Rightarrow> ports \<Rightarrow> ports" where
  "no_dropweak \<equiv> (\<lambda>_ st. st)"

lemma deref_inv:
  assumes i: "ports_inv objs tot st" and p: "p \<in> objs" "0 < fst (tot p)" and d: "ports_port_deref no_dropweak p st = Some s'"
  shows "\<exists>objs'. ports_inv objs' (tot(p := (fst (tot p) - 1, snd (tot p)))) s' \<and> drops objs st s' objs'"
proof -
  note b = ports_invD(5,6) [OF i p(1)] and r = inv_refs_of [OF i p(1)]
  have "\<exists>s. refs_step p st s (fst (tot p) - 1 + (if has_srights p st then 1 else 0), snd (tot p)) \<and> dealloc_if_dead p s = Some s'"
  proof (cases "has_dropweak (classes st (pclass (infos st p)))")
    case True
    then obtain s1 s2 where s: "change_refs (ref_apply Demote) p st = Some s1" "change_refs (ref_apply Deref_Weak) p s1 = Some s2"
      "dealloc_if_dead p s2 = Some s'"
      using d by (auto simp: ports_port_deref_def ref_apply_ops Let_def split: option.splits)
    obtain x where x: "ref_spec Demote (refs_of st p) = Some x" "refs_step p st s1 x" using change_refs_step [OF s(1) b] .
    have "fst (refs_of s1 p) < ref_max" "snd (refs_of s1 p) < ref_max" using x(2) by (simp_all add: refs_step_def)
    then obtain y where y: "ref_spec Deref_Weak (refs_of s1 p) = Some y" "refs_step p s1 s2 y" using change_refs_step [OF s(2)] by blast
    have "y = (fst (tot p) - 1 + (if has_srights p st then 1 else 0), snd (tot p))"
    proof -
      obtain h w where t: "tot p = (h, w)" by fastforce
      have "refs_of s1 p = (h - 1 + (if has_srights p st then 1 else 0), w + 1)"
        using x r p(2) t by (auto simp: refs_step_def split: if_splits)
      then show ?thesis using y(1) t by (auto split: if_splits)
    qed
    then show ?thesis using refs_step_trans [OF x(2) y(2)] s(3) by blast
  next
    case False
    then obtain s where s: "change_refs (ref_apply Deref) p st = Some s" "dealloc_if_dead p s = Some s'"
      using d by (auto simp: ports_port_deref_def ref_apply_ops split: option.splits)
    obtain x where x: "ref_spec Deref (refs_of st p) = Some x" "refs_step p st s x" using change_refs_step [OF s(1) b] .
    then show ?thesis using r p(2) s(2) by (intro exI [of _ s]) (auto split: if_splits)
  qed
  then show ?thesis using refs_step_dealloc [OF i p(1)] by blast
qed

lemma deref_weak_inv:
  assumes i: "ports_inv objs tot st" and p: "p \<in> objs" "0 < snd (tot p)" and d: "ports_port_deref_weak p st = Some s'"
  shows "\<exists>objs'. ports_inv objs' (tot(p := (fst (tot p), snd (tot p) - 1))) s' \<and> drops objs st s' objs'"
proof -
  obtain s where s: "change_refs (ref_apply Deref_Weak) p st = Some s" "dealloc_if_dead p s = Some s'"
    using d by (auto simp: ports_port_deref_weak_def ref_apply_ops split: option.splits)
  obtain x where x: "ref_spec Deref_Weak (refs_of st p) = Some x" "refs_step p st s x"
    using change_refs_step [OF s(1) ports_invD(5,6) [OF i p(1)]] .
  have "refs_step p st s (fst (tot p) + (if has_srights p st then 1 else 0), snd (tot p) - 1)"
    using x inv_refs_of [OF i p(1)] p(2) by auto
  then show ?thesis using refs_step_dealloc [OF i p(1) _ s(2)] by blast
qed

section \<open>Taking references\<close>

lemma take_inv:
  assumes i: "ports_inv objs tot st" and p: "p \<in> objs" and c: "change_refs (ref_apply op) p st = Some s"
    and o: "op = Ref \<and> x = (1, 0) \<or> op = Ref_Weak \<and> x = (0, 1)"
  shows "ports_inv objs (tot(p := (fst (tot p) + fst x, snd (tot p) + snd x))) s \<and> freed s = freed st"
proof -
  obtain y where y: "ref_spec op (refs_of st p) = Some y" "refs_step p st s y" using change_refs_step [OF c ports_invD(5,6) [OF i p]] .
  have "refs_of s p = (fst (tot p) + fst x + (if has_srights p st then 1 else 0), snd (tot p) + snd x)" "refs_of s p \<noteq> (0, 0)"
    using y inv_refs_of [OF i p] o by (cases "tot p"; auto simp: refs_step_def split: if_splits)+
  then show ?thesis using change_inv [OF i p c, of "(fst (tot p) + fst x, snd (tot p) + snd x)"] y(2) by (simp add: refs_step_def)
qed

text \<open>The reference for send rights.\<close>

lemma srights_clear:
  assumes i: "ports_inv objs tot st" and p: "p \<in> objs" "has_srights p st"
  shows "ports_inv objs (tot(p := (fst (tot p) + 1, snd (tot p)))) (set_srights False p st)"
proof (rule ports_invI [OF i p(1)])
  show "refs_ok p (tot(p := (fst (tot p) + 1, snd (tot p)))) (set_srights False p st)"
    using ports_invD(1) [OF i p(1)] p(2) by (auto simp: refs_ok_def)
  show "refs_of (set_srights False p st) p \<noteq> (0, 0)" using ports_invD(2) [OF i p(1)] by simp
  show "table_ok objs (set_srights False p st)" by (rule table_ok_same [OF ports_invD(4) [OF i]]) simp_all
qed simp_all

lemma srights_set:
  assumes i: "ports_inv objs tot st" and p: "p \<in> objs" "\<not> has_srights p st" and c: "change_refs refcounts_ref p (set_srights True p st) = Some s"
  shows "ports_inv objs tot s \<and> freed s = freed st"
proof -
  have r: "refs_of (set_srights True p st) p = (fst (tot p), snd (tot p))" using inv_refs_of [OF i p(1)] p(2) by simp
  have b: "fst (refs_of (set_srights True p st) p) < ref_max" "snd (refs_of (set_srights True p st) p) < ref_max"
    using ports_invD(5,6) [OF i p(1)] by simp_all
  obtain y where y: "ref_spec Ref (refs_of (set_srights True p st) p) = Some y" "refs_step p (set_srights True p st) s y"
    using change_refs_step [OF c [unfolded ref_apply_ops] b] .
  have yy: "y = (fst (tot p) + 1, snd (tot p))" using y(1) r by (cases "tot p") (auto split: if_splits)
  have "ports_inv objs tot s"
  proof (rule ports_invI [OF i p(1)])
    show "refs_ok p tot s" "refs_of s p \<noteq> (0, 0)" using y(2) yy by (simp_all add: refs_ok_def refs_step_def)
    show "refs_of s q = refs_of st q \<and> has_srights q s = has_srights q st" if "q \<noteq> p" for q
      using y(2) that refs_only(1) [of s q "set_srights True p st"] by (simp add: refs_step_def)
    show "table_ok objs s" by (rule table_ok_same [OF ports_invD(4) [OF i]]) (use y(2) in \<open>simp_all add: refs_step_def\<close>)
  qed simp_all
  then show ?thesis using y(2) by (simp add: refs_step_def)
qed

section \<open>Taking and installing rights\<close>

lemma right_off:
  assumes i: "ports_inv objs tot st" and t: "tables_remove p st = Some s" and n: "\<not> MACH_PORT_VALID n"
  shows "ports_inv objs tot (set_info p ((infos s p)\<lparr>port_right := n\<rparr>) s)"
    "freed (set_info p ((infos s p)\<lparr>port_right := n\<rparr>) s) = freed st"
    "has_srights q (set_info p ((infos s p)\<lparr>port_right := n\<rparr>) s) = has_srights q st"
proof -
  note r = tables_remove_some [OF t]
  let ?s = "set_info p ((infos s p)\<lparr>port_right := n\<rparr>) s"
  have e: "refs_of ?s q = refs_of st q" "has_srights q ?s = has_srights q st" for q by (simp_all add: refs_of_def has_srights_def r)
  have "table_ok objs ?s" by (rule table_ok_remove [OF ports_invD(4) [OF i], of _ p]) (use n in \<open>simp_all add: r\<close>)
  then show "ports_inv objs tot ?s" by (rule ports_inv_cong [OF i e])
  show "freed ?s = freed st" by (simp add: r)
  show "has_srights q ?s = has_srights q st" by (rule e(2))
qed

lemma tables_add_some:
  assumes "tables_add n p st orc = (Success, s, o1)"
  shows "infos s = infos st" "ports_htable s = (n, p) # filter (\<lambda>e. fst e \<noteq> n) (ports_htable st)" "freed s = freed st"
  using assms by (auto simp: tables_add_def table_add_def Let_def split: if_splits option.splits prod.splits)

text \<open>Installing the right \<open>n\<close>, which no object has, in an object without a right.\<close>

lemma right_on:
  assumes i: "ports_inv objs tot st" and p: "p \<in> objs" "\<not> MACH_PORT_VALID (port_right (infos st p))"
    and n: "MACH_PORT_VALID n" "n \<notin> fst ` set (ports_htable st)"
    and f: "\<And>q. refs_of s q = refs_of st q" "\<And>q. has_srights q s = has_srights q st" "\<And>q. q \<noteq> p \<Longrightarrow> port_right (infos s q) = port_right (infos st q)"
      "port_right (infos s p) = n" "ports_htable s = ports_htable st" "freed s = freed st"
    and a: "tables_add n p s orc = (Success, s', o1)"
  shows "ports_inv objs tot s'" "freed s' = freed st"
proof -
  note t = tables_add_some [OF a]
  have "\<forall>e \<in> set (ports_htable st). fst e \<noteq> n" using n(2) by blast
  then have h: "ports_htable s' = (n, p) # ports_htable st" using t(2) f(5) by (simp add: filter_True)
  have e: "refs_of s' q = refs_of st q" "has_srights q s' = has_srights q st" for q
    using f(1,2) by (simp_all add: refs_of_def has_srights_def t(1))
  have tab: "distinct (map fst (ports_htable st))"
    "\<And>m q. (m, q) \<in> set (ports_htable st) \<Longrightarrow> q \<in> objs \<and> port_right (infos st q) = m \<and> MACH_PORT_VALID m"
    "\<And>q. q \<in> objs \<Longrightarrow> MACH_PORT_VALID (port_right (infos st q)) \<Longrightarrow> (port_right (infos st q), q) \<in> set (ports_htable st)"
    using ports_invD(4) [OF i] unfolding table_ok_def by blast+
  have "table_ok objs s'"
    unfolding table_ok_def h t(1)
  proof (intro conjI allI impI ballI)
    show "distinct (map fst ((n, p) # ports_htable st))" using tab(1) n(2) by simp
    fix m q
    assume m: "(m, q) \<in> set ((n, p) # ports_htable st)"
    have "q \<noteq> p" if "(m, q) \<in> set (ports_htable st)" using tab(2) [OF that] p(2) by auto
    then show "q \<in> objs" "port_right (infos s q) = m" "MACH_PORT_VALID m" using m tab(2) [of m q] p(1) n(1) f(3) [of q] f(4) by auto
  next
    fix q
    assume "q \<in> objs" "MACH_PORT_VALID (port_right (infos s q))"
    then show "(port_right (infos s q), q) \<in> set ((n, p) # ports_htable st)"
      using tab(3) [of q] f(3) [of q] f(4) by (cases "q = p") simp_all
  qed
  then show "ports_inv objs tot s'" by (rule ports_inv_cong [OF i e])
  show "freed s' = freed st" using t(3) f(6) by simp
qed

section \<open>The operations\<close>

definition keeps :: "nat set \<Rightarrow> (nat \<Rightarrow> nat \<times> nat) \<Rightarrow> ports \<Rightarrow> ports \<Rightarrow> bool" where
  "keeps objs tot st s \<longleftrightarrow> (\<exists>objs'. ports_inv objs' tot s \<and> drops objs st s objs')"

lemma keepsI: "ports_inv objs tot s \<Longrightarrow> freed s = freed st \<Longrightarrow> keeps objs tot st s"
  using drops_refl by (auto simp: keeps_def)

lemma get_right_inv:
  assumes i: "ports_inv objs tot st" and p: "p \<in> objs" and g: "ports_get_right err p st = Some (n, s)"
  shows "keeps objs tot st s"
proof (cases "port_right (infos st p) = 0")
  case True
  then show ?thesis using g i by (simp add: ports_get_right_def keepsI)
next
  case False
  let ?s = "set_info p ((infos st p)\<lparr>mscount := mscount (infos st p) + 1\<rparr>) st"
  have "ports_inv objs tot ?s"
    by (rule ports_inv_cong [OF i]) (auto simp: refs_of_def has_srights_def intro!: table_ok_same [OF ports_invD(4) [OF i]])
  note i1 = this
  show ?thesis
  proof (cases "has_srights p ?s")
    case True
    then have "s = ?s" using g False by (simp add: ports_get_right_def Let_def)
    then show ?thesis using keepsI [OF i1, of st] by simp
  next
    case n: False
    then have "change_refs refcounts_ref p (set_srights True p ?s) = Some s"
      using g False by (simp add: ports_get_right_def Let_def split: option.splits if_splits)
    then show ?thesis using srights_set [OF i1 p n] by (simp add: keepsI)
  qed
qed

text \<open>The send rights of an object are gone, and with them their reference.\<close>

lemma clear_deref_inv:
  assumes i: "ports_inv objs tot st" and p: "p \<in> objs" "has_srights p st" and d: "ports_port_deref no_dropweak p (set_srights False p st) = Some s"
  shows "keeps objs tot st s"
proof -
  note c = srights_clear [OF i p]
  have "\<exists>objs'. ports_inv objs' ((tot(p := (fst (tot p) + 1, snd (tot p))))(p := (fst (tot p), snd (tot p)))) s \<and>
      drops objs (set_srights False p st) s objs'"
    using deref_inv [OF c p(1) _ d] by simp
  then show ?thesis using drops_from [of "set_srights False p st" st] by (auto simp: keeps_def)
qed

lemma interrupt_keeps:
  "infos (ports_interrupt_rpcs p t st) = infos st" "ports_htable (ports_interrupt_rpcs p t st) = ports_htable st"
  "freed (ports_interrupt_rpcs p t st) = freed st"
proof -
  have "infos (interrupt_loop t rs st) = infos st \<and> ports_htable (interrupt_loop t rs st) = ports_htable st \<and>
      freed (interrupt_loop t rs st) = freed st" for rs
    by (induction t rs st rule: interrupt_loop.induct) (auto simp: hurd_thread_cancel_def ports_record_interruption_def)
  then show "infos (ports_interrupt_rpcs p t st) = infos st" "ports_htable (ports_interrupt_rpcs p t st) = ports_htable st"
    "freed (ports_interrupt_rpcs p t st) = freed st" by (simp_all add: ports_interrupt_rpcs_def)
qed

lemma no_senders_inv:
  assumes i: "ports_inv objs tot st" and p: "p \<in> objs"
    and n: "ports_no_senders (\<lambda>p. ports_interrupt_rpcs p t) no_dropweak p m st = Some s"
  shows "keeps objs tot st s"
proof (cases "has_srights p st \<and> m \<ge> mscount (infos st p)")
  case True
  let ?s = "ports_interrupt_rpcs p t (set_srights False p st)"
  have d: "ports_port_deref no_dropweak p ?s = Some s" using n True by (simp add: ports_no_senders_def)
  note c = srights_clear [OF i p]
  have "ports_inv objs (tot(p := (fst (tot p) + 1, snd (tot p)))) ?s"
    by (rule ports_inv_cong [OF c]) (use True in \<open>auto simp: interrupt_keeps refs_of_def has_srights_def
      intro!: table_ok_same [OF ports_invD(4) [OF c]]\<close>)
  from deref_inv [OF this p _ d] have "\<exists>objs'. ports_inv objs' tot s \<and> drops objs ?s s objs'" by simp
  then show ?thesis using drops_from [of ?s st] by (auto simp: keeps_def interrupt_keeps)
next
  case False
  then show ?thesis using n i by (auto simp: ports_no_senders_def keepsI split: if_splits)
qed

text \<open>Destroying a right passes the reference for send rights to the thread pool of the bucket.\<close>

lemma destroy_right_inv:
  assumes i: "ports_inv objs tot st" and p: "p \<in> objs" and d: "ports_destroy_right p st orc = Some (s, o1)"
  shows "ports_inv objs (tot(p := (fst (tot p) + (if has_srights p st then 1 else 0), snd (tot p)))) s \<and> freed s = freed st"
proof -
  define s1 where "s1 = (let s = set_info p ((infos st p)\<lparr>port_right := MACH_PORT_DEAD\<rparr>) st in
    if has_srights p s then set_srights False p s else s)"
  obtain s2 where s2: "(if MACH_PORT_VALID (port_right (infos st p)) then tables_remove p s1 else Some s1) = Some s2"
    "infos s = infos s2" "ports_htable s = ports_htable s2" "freed s = freed s2"
    using d unfolding ports_destroy_right_def s1_def Let_def by (auto split: if_splits option.splits)
  have f1: "refs_of s1 q = refs_of st q" "has_srights q s1 = (q \<noteq> p \<and> has_srights q st)" "ports_htable s1 = ports_htable st"
    "freed s1 = freed st" "port_right (infos s1 q) = (if q = p then MACH_PORT_DEAD else port_right (infos st q))" for q
    by (simp_all add: s1_def Let_def refs_of_def has_srights_def set_srights_def)
  have "ports_htable s2 = filter (\<lambda>e. snd e \<noteq> p) (ports_htable st) \<and> infos s2 = infos s1 \<and> freed s2 = freed st"
  proof (cases "MACH_PORT_VALID (port_right (infos st p))")
    case True
    then have "tables_remove p s1 = Some s2" using s2(1) by simp
    from tables_remove_some [OF this] show ?thesis by (simp add: f1)
  next
    case False
    then have "s2 = s1" using s2(1) by simp
    then show ?thesis using table_absent [OF ports_invD(4) [OF i] False] by (simp add: f1)
  qed
  then have h: "ports_htable s = filter (\<lambda>e. snd e \<noteq> p) (ports_htable st)" "infos s = infos s1" "freed s = freed st" using s2 by simp_all
  have r: "refs_of s q = refs_of st q" "has_srights q s = (q \<noteq> p \<and> has_srights q st)" for q
    using f1(1,2) [of q] by (simp_all add: refs_of_def has_srights_def h)
  have "table_ok objs s"
    by (rule table_ok_remove [OF ports_invD(4) [OF i] h(1)]) (simp_all add: h(2) f1 MACH_PORT_VALID_def)
  then have "ports_inv objs (tot(p := (fst (tot p) + (if has_srights p st then 1 else 0), snd (tot p)))) s"
    using ports_invD(1,2) [OF i p] by (intro ports_invI [OF i p]) (auto simp: refs_ok_def r)
  then show ?thesis using h(3) by simp
qed

lemma keeps_from: "keeps objs tot st s \<Longrightarrow> freed st = freed st0 \<Longrightarrow> keeps objs tot st0 s"
  using drops_from [of st st0] by (auto simp: keeps_def)

lemma claim_right_inv:
  assumes i: "ports_inv objs tot st" and p: "p \<in> objs" and c: "ports_claim_right no_dropweak e p st = Some (n, s)"
  shows "keeps objs tot st s"
proof (cases "port_right (infos st p) = MACH_PORT_NULL")
  case True
  then show ?thesis using c i by (simp add: ports_claim_right_def keepsI)
next
  case False
  then obtain s0 where s0: "tables_remove p st = Some s0" using c by (auto simp: ports_claim_right_def Let_def split: option.splits)
  define s1 where "s1 = set_info p ((infos s0 p)\<lparr>port_right := MACH_PORT_NULL\<rparr>) s0"
  have "\<not> MACH_PORT_VALID MACH_PORT_NULL" by (simp add: MACH_PORT_VALID_def)
  note r = right_off [OF i s0 this, folded s1_def]
  show ?thesis
  proof (cases "has_srights p s1")
    case True
    then have "ports_port_deref no_dropweak p (set_srights False p s1) = Some s"
      using c False s0 by (auto simp: ports_claim_right_def Let_def s1_def split: if_splits)
    then show ?thesis using keeps_from [OF clear_deref_inv [OF r(1) p True] r(2)] by simp
  next
    case f: False
    then have "s = s1" using c False s0 by (auto simp: ports_claim_right_def Let_def s1_def split: if_splits)
    then show ?thesis using keepsI [OF r(1), of st] r(2) by simp
  qed
qed

end
