(* ===== verification/Ports_System.thy ===== *)
theory Ports_System
  imports Ports_Right_Props
begin

text \<open>
  All operations on port objects as one system: the remaining operations keep the invariant of references and rights,
  and so every reachable state has it.
\<close>

section \<open>Moving rights\<close>

text \<open>An object with its right taken away; a change of its flags or its references commutes with that.\<close>

definition no_right :: "nat \<Rightarrow> ports \<Rightarrow> ports" where
  "no_right p st = set_info p ((infos st p)\<lparr>port_right := MACH_PORT_NULL\<rparr>) st"

lemma no_right_simps [simp]:
  "refs_of (no_right p st) q = refs_of st q" "has_srights q (no_right p st) = has_srights q st"
  "port_right (infos (no_right p st) q) = (if q = p then 0 else port_right (infos st q))"
  "ports_htable (no_right p st) = ports_htable st" "freed (no_right p st) = freed st"
  by (simp_all add: no_right_def refs_of_def has_srights_def)

lemma port_right_twist:
  "(pi\<lparr>pflags := F\<rparr>)\<lparr>port_right := n\<rparr> = (pi\<lparr>port_right := n\<rparr>)\<lparr>pflags := F\<rparr>"
  "(pi\<lparr>refcounts := v\<rparr>)\<lparr>port_right := n\<rparr> = (pi\<lparr>port_right := n\<rparr>)\<lparr>refcounts := v\<rparr>"
  "port_right pi = n \<Longrightarrow> pi\<lparr>port_right := n\<rparr> = pi"
  by (cases pi, simp)+

lemma no_right_srights: "no_right p (set_srights x p st) = set_srights x p (no_right p st)"
  by (simp add: no_right_def set_srights_def set_info_def port_right_twist(1))

lemma no_right_change: "change_refs f p st = Some s \<Longrightarrow> change_refs f p (no_right p st) = Some (no_right p s)"
  by (auto simp: no_right_def change_refs_def set_info_def port_right_twist(2))

lemma no_right_id: "port_right (infos st p) = 0 \<Longrightarrow> no_right p st = st"
  by (simp add: no_right_def set_info_def port_right_twist(3))

lemma no_right_inv:
  assumes "ports_inv objs tot st" "tables_remove p st = Some s"
  shows "ports_inv objs tot (no_right p s)" "freed s = freed st" "has_srights q s = has_srights q st"
  using right_off [OF assms, of MACH_PORT_NULL] tables_remove_some [OF assms(2)]
  by (simp_all add: no_right_def MACH_PORT_VALID_def has_srights_def)

abbreviation hold :: "bool \<Rightarrow> nat \<Rightarrow> (nat \<Rightarrow> nat \<times> nat) \<Rightarrow> nat \<Rightarrow> nat \<times> nat" where
  "hold x p tot \<equiv> tot(p := (fst (tot p) + (if x then 1 else 0), snd (tot p)))"

lemma deref_if_inv:
  assumes i: "ports_inv objs (hold x p tot) st" and p: "x \<Longrightarrow> p \<in> objs" and d: "deref_if x no_dropweak p st = Some s"
  shows "keeps objs tot st s"
proof (cases x)
  case True
  then have "ports_port_deref no_dropweak p st = Some s" using d by (simp add: deref_if_def)
  from deref_inv [OF i p [OF True] _ this] True show ?thesis by (simp add: keeps_def)
next
  case False
  then show ?thesis using d i by (simp add: deref_if_def keepsI)
qed

lemma transfer_take_inv:
  assumes i: "ports_inv objs tot st" and p: "p \<in> objs" and t: "transfer_take p st = Some (x, s)"
  shows "ports_inv objs (hold x p tot) s" "freed s = freed st" "port_right (infos s p) = 0"
    "port_right (infos st p) \<noteq> 0 \<Longrightarrow> MACH_PORT_VALID (port_right (infos st p)) \<and> port_right (infos st p) \<notin> fst ` set (ports_htable s)"
proof -
  let ?n = "port_right (infos st p)"
  have "ports_inv objs (hold x p tot) s \<and> freed s = freed st \<and> port_right (infos s p) = 0 \<and>
    (?n \<noteq> 0 \<longrightarrow> MACH_PORT_VALID ?n \<and> ?n \<notin> fst ` set (ports_htable s))"
  proof (cases "?n = 0")
    case True
    then show ?thesis using t i by (simp add: transfer_take_def)
  next
    case False
    then obtain s0 where s0: "tables_remove p st = Some s0" "(x, s) = (if has_srights p (no_right p s0) then (True, set_srights False p (no_right p s0)) else (False, no_right p s0))"
      using t unfolding transfer_take_def no_right_def [symmetric] Let_def by (auto simp del: no_right_simps)
    note r = no_right_inv [OF i s0(1)] and a = tables_remove_some [OF s0(1)]
    have tab: "distinct (map fst (ports_htable st))" "\<And>m q. (m, q) \<in> set (ports_htable st) \<Longrightarrow> port_right (infos st q) = m \<and> MACH_PORT_VALID m"
      using ports_invD(4) [OF i] unfolding table_ok_def by blast+
    obtain m where m: "(m, p) \<in> set (ports_htable st)" using a(4) by auto
    then have v: "MACH_PORT_VALID ?n" "(?n, p) \<in> set (ports_htable st)" using tab(2) by blast+
    have "?n \<notin> fst ` set (ports_htable s0)" using eq_key_imp_eq_value [OF tab(1) v(2)] by (auto simp: a(2))
    moreover have "ports_htable s = ports_htable s0" "freed s = freed st" "port_right (infos s p) = 0"
      using s0(2) a(3) by (auto split: if_splits)
    moreover have "ports_inv objs (hold x p tot) s"
      using s0(2) srights_clear [OF r(1) p] r(1) by (auto split: if_splits)
    ultimately show ?thesis using v(1) by simp
  qed
  then show "ports_inv objs (hold x p tot) s" "freed s = freed st" "port_right (infos s p) = 0"
    "?n \<noteq> 0 \<Longrightarrow> MACH_PORT_VALID ?n \<and> ?n \<notin> fst ` set (ports_htable s)" by blast+
qed

lemma transfer_drop_inv:
  assumes i: "ports_inv objs tot st" and p: "p \<in> objs" and t: "transfer_drop p h e st = Some (x, s)"
  shows "ports_inv objs (hold x p tot) (no_right p s)" "freed s = freed st" "set (ports_htable s) \<subseteq> set (ports_htable st)"
proof -
  have "ports_inv objs (hold x p tot) (no_right p s) \<and> freed s = freed st \<and> set (ports_htable s) \<subseteq> set (ports_htable st)"
  proof (cases "port_right (infos st p) = 0")
    case True
    then show ?thesis using t i by (simp add: transfer_drop_def no_right_id)
  next
    case False
    then obtain s0 where s0: "tables_remove p st = Some s0" using t by (auto simp: transfer_drop_def split: option.splits)
    note r = no_right_inv [OF i s0] and a = tables_remove_some [OF s0]
    consider "has_srights p s0" "x" "s = set_srights False p s0"
      | "\<not> has_srights p s0" "\<not> x" "change_refs refcounts_ref p (set_srights True p s0) = Some s" | "\<not> x" "s = s0"
    proof (cases "has_srights p s0 \<and> \<not> h")
      case True
      then show ?thesis using t False s0 that(1) by (simp add: transfer_drop_def split: if_splits)
    next
      case n: False
      show ?thesis
      proof (cases "\<not> has_srights p s0 \<and> h")
        case True
        then show ?thesis using t False s0 that(2) by (auto simp: transfer_drop_def split: if_splits)
      next
        case a: False
        have "\<not> x \<and> s = s0" using t n False s0 by (auto simp: transfer_drop_def a split: if_splits)
        then show ?thesis using that(3) by blast
      qed
    qed
    then show ?thesis
    proof cases
      case 1
      then have "ports_inv objs (hold x p tot) (no_right p s)" using srights_clear [OF r(1) p] by (simp add: no_right_srights)
      then show ?thesis using 1 a by auto
    next
      case 2
      have "change_refs refcounts_ref p (set_srights True p (no_right p s0)) = Some (no_right p s)"
        using no_right_change [OF 2(3)] by (simp add: no_right_srights)
      from srights_set [OF r(1) p _ this] have "ports_inv objs tot (no_right p s)" "freed s = freed st" using 2(1) a(3) by simp_all
      moreover have "ports_htable s = ports_htable s0" using 2(3) by (auto simp: change_refs_def)
      ultimately show ?thesis using 2(2) a(2) by auto
    next
      case 3
      then show ?thesis using r(1) a by auto
    qed
  qed
  then show "ports_inv objs (hold x p tot) (no_right p s)" "freed s = freed st" "set (ports_htable s) \<subseteq> set (ports_htable st)" by blast+
qed

text \<open>Installing the right \<open>n\<close> in an object whose right has been taken away.\<close>

lemma install_inv:
  assumes i: "ports_inv objs tot (no_right p st)" and p: "p \<in> objs" and n: "n \<noteq> 0 \<Longrightarrow> MACH_PORT_VALID n \<and> n \<notin> fst ` set (ports_htable st)"
    and s: "s = set_info p ((infos st p)\<lparr>port_right := n, cancel_threshold := c, mscount := m\<rparr>) st"
    and a: "(if n \<noteq> 0 then tables_add n p s orc else (Success, s, orc)) = (Success, s', o1)"
  shows "ports_inv objs tot s' \<and> freed s' = freed st"
proof (cases "n = 0")
  case True
  have "table_ok objs s" by (rule table_ok_same [OF ports_invD(4) [OF i]]) (use True in \<open>simp_all add: s\<close>)
  then have "ports_inv objs tot s" by (intro ports_inv_cong [OF i]) (simp_all add: s refs_of_def has_srights_def no_right_def)
  then show ?thesis using a True by (auto simp: s)
next
  case False
  have v: "MACH_PORT_VALID n" "n \<notin> fst ` set (ports_htable (no_right p st))" using n False by auto
  have "\<not> MACH_PORT_VALID (port_right (infos (no_right p st) p))" by (simp add: MACH_PORT_VALID_def)
  note o = right_on [OF i p this v, of s orc s' o1]
  have "refs_of s q = refs_of (no_right p st) q" "has_srights q s = has_srights q (no_right p st)"
    "q \<noteq> p \<Longrightarrow> port_right (infos s q) = port_right (infos (no_right p st) q)" "port_right (infos s p) = n"
    "ports_htable s = ports_htable (no_right p st)" "freed s = freed (no_right p st)" for q
    by (simp_all add: s refs_of_def has_srights_def no_right_def)
  then show ?thesis using o a False by simp
qed

lemma hold_swap: "p \<noteq> q \<Longrightarrow> hold x p (hold y q tot) = hold y q (hold x p tot)"
  by (auto simp: fun_eq_iff)

lemma hold_live: "ports_inv objs (hold True p tot) st \<Longrightarrow> p \<in> objs"
  using ports_invD(3) [of objs "hold True p tot" st p] by fastforce

lemma transfer_right_inv:
  assumes i: "ports_inv objs tot st" and p: "to \<in> objs" "from \<in> objs" "to \<noteq> from"
    and t: "ports_transfer_right no_dropweak e1 e2 to from st orc = Some (s, o1)"
  shows "keeps objs tot st s"
proof -
  let ?n = "port_right (infos st from)"
  obtain x s0 y s1 s2 s3 s4 where
    s: "transfer_take from st = Some (x, s0)" "transfer_drop to x e1 s0 = Some (y, s1)"
    "s2 = set_info to ((infos s1 to)\<lparr>port_right := ?n, cancel_threshold := cancel_threshold (infos s1 from), mscount := mscount (infos s1 from)\<rparr>) s1"
    "(if ?n \<noteq> 0 then tables_add ?n to s2 orc else (Success, s2, orc)) = (Success, s3, o1)"
    "deref_if x no_dropweak from s3 = Some s4" "deref_if y no_dropweak to s4 = Some s"
    using t unfolding ports_transfer_right_def Let_def by (auto split: if_splits option.splits prod.splits)
  note a = transfer_take_inv [OF i p(2) s(1)]
  note b = transfer_drop_inv [OF a(1) p(1) s(2)]
  have "ports_inv objs (hold y to (hold x from tot)) s3 \<and> freed s3 = freed s1"
    by (rule install_inv [OF b(1) p(1) _ s(3,4)]) (use a(4) b(3) in auto)
  then have c: "ports_inv objs (hold x from (hold y to tot)) s3" "freed s3 = freed st"
    using a(2) b(2) hold_swap [OF p(3)] by simp_all
  have "keeps objs (hold y to tot) s3 s4" by (rule deref_if_inv [OF c(1) p(2) s(5)])
  then obtain objs' where o: "ports_inv objs' (hold y to tot) s4" "drops objs st s4 objs'" using keeps_from [OF _ c(2)] unfolding keeps_def by blast
  have "y \<Longrightarrow> to \<in> objs'" using o(1) hold_live [where objs = objs' and p = to and tot = tot and st = s4] by simp
  from deref_if_inv [OF o(1) this s(6)] obtain objs'' where "ports_inv objs'' tot s" "drops objs' s4 s objs''"
    unfolding keeps_def by blast
  then show ?thesis using drops_trans [OF o(2)] unfolding keeps_def by blast
qed


lemma reallocate_port_inv:
  assumes i: "ports_inv objs tot st" and p: "p \<in> objs" and n: "MACH_PORT_VALID n" "\<And>q. (n, q) \<in> set (ports_htable st) \<Longrightarrow> q = p"
    and r: "ports_reallocate_port no_dropweak e1 (Inr n) e2 p st orc = Some (s, o1)"
  shows "keeps objs tot st s"
proof -
  obtain s0 s1 s2 s3 where
    s: "tables_remove p st = Some s0" "s1 = (if has_srights p s0 then set_srights False p s0 else s0)"
    "s2 = set_info p ((infos s1 p)\<lparr>port_right := n, cancel_threshold := 0, mscount := 0\<rparr>) s1"
    "tables_add n p s2 orc = (Success, s3, o1)" "deref_if (has_srights p s0) no_dropweak p s3 = Some s"
    using r unfolding ports_reallocate_port_def Let_def by (auto split: if_splits option.splits prod.splits)
  note a = no_right_inv [OF i s(1)] and b = tables_remove_some [OF s(1)]
  have "ports_inv objs (hold (has_srights p s0) p tot) (no_right p s1)"
    using srights_clear [OF a(1) p] a(1) by (simp add: s(2) no_right_srights)
  moreover have "n \<noteq> 0 \<Longrightarrow> MACH_PORT_VALID n \<and> n \<notin> fst ` set (ports_htable s1)" using n by (auto simp: s(2) b(2))
  moreover have "(if n \<noteq> 0 then tables_add n p s2 orc else (Success, s2, orc)) = (Success, s3, o1)"
    using s(4) n(1) by (simp add: MACH_PORT_VALID_def)
  ultimately have c: "ports_inv objs (hold (has_srights p s0) p tot) s3 \<and> freed s3 = freed s1" by (intro install_inv [OF _ p _ s(3)])
  then have "freed s3 = freed st" using b(3) by (simp add: s(2))
  with deref_if_inv [OF conjunct1 [OF c] p s(5)] show ?thesis by (rule keeps_from)
qed

lemma reallocate_from_external_inv:
  assumes i: "ports_inv objs tot st" and p: "p \<in> objs" and n: "MACH_PORT_VALID n" "\<And>q. (n, q) \<in> set (ports_htable st) \<Longrightarrow> q = p"
    and r: "ports_reallocate_from_external no_dropweak (Inr (x, msc)) e1 e2 p n st orc = Some (s, o1)"
  shows "keeps objs tot st s"
proof -
  define d where "d s = (has_srights p s \<and> \<not> x)" for s
  define f where "f s0 = (if d s0 then Some (set_srights False p s0)
    else if \<not> has_srights p s0 \<and> x then change_refs refcounts_ref p (set_srights True p s0) else Some s0)" for s0
  obtain s0 s1 s2 s3 where
    s: "tables_remove p st = Some s0"
    "f s0 = Some s1"
    "s2 = set_info p ((infos s1 p)\<lparr>port_right := n, cancel_threshold := 0, mscount := msc\<rparr>) s1"
    "tables_add n p s2 orc = (Success, s3, o1)" "deref_if (d s0) no_dropweak p s3 = Some s"
    using r unfolding ports_reallocate_from_external_def Let_def sum.case prod.case d_def [symmetric] f_def [symmetric]
    by (auto split: if_splits option.splits prod.splits)
  note a = no_right_inv [OF i s(1)] and b = tables_remove_some [OF s(1)]
  have m: "ports_inv objs (hold (d s0) p tot) (no_right p s1) \<and> ports_htable s1 = ports_htable s0 \<and> freed s1 = freed s0"
  proof -
    consider "d s0" "s1 = set_srights False p s0" | "\<not> d s0" "\<not> has_srights p s0" "change_refs refcounts_ref p (set_srights True p s0) = Some s1"
      | "\<not> d s0" "s1 = s0"
      using s(2) by (auto simp: f_def split: if_splits)
    then show ?thesis
    proof cases
      case 1
      then show ?thesis using srights_clear [OF a(1) p] by (simp add: no_right_srights d_def)
    next
      case 2
      have "change_refs refcounts_ref p (set_srights True p (no_right p s0)) = Some (no_right p s1)"
        using no_right_change [OF 2(3)] by (simp add: no_right_srights)
      from srights_set [OF a(1) p _ this] 2 show ?thesis by (auto simp: change_refs_def)
    next
      case 3
      then show ?thesis using a(1) by simp
    qed
  qed
  have "n \<noteq> 0 \<Longrightarrow> MACH_PORT_VALID n \<and> n \<notin> fst ` set (ports_htable s1)" using n m by (auto simp: b(2))
  moreover have "(if n \<noteq> 0 then tables_add n p s2 orc else (Success, s2, orc)) = (Success, s3, o1)"
    using s(4) n(1) by (simp add: MACH_PORT_VALID_def)
  ultimately have c: "ports_inv objs (hold (d s0) p tot) s3 \<and> freed s3 = freed s1" using m by (intro install_inv [OF _ p _ s(3)]) simp_all
  then have "freed s3 = freed st" using b(3) m by simp
  with deref_if_inv [OF conjunct1 [OF c] p s(5)] show ?thesis by (rule keeps_from)
qed


section \<open>New objects and lookups\<close>

lemma off_inv:
  assumes i: "ports_inv objs tot st" and p: "p \<notin> objs" and s: "\<And>q. q \<noteq> p \<Longrightarrow> infos s q = infos st q" "ports_htable s = ports_htable st"
  shows "ports_inv objs tot s"
proof -
  have e: "refs_of s q = refs_of st q" "has_srights q s = has_srights q st" "port_right (infos s q) = port_right (infos st q)" if "q \<in> objs" for q
  proof -
    have "q \<noteq> p" using p that by blast
    from s(1) [OF this] show "refs_of s q = refs_of st q" "has_srights q s = has_srights q st" "port_right (infos s q) = port_right (infos st q)"
      by (simp_all add: refs_of_def has_srights_def)
  qed
  have "table_ok objs s" using ports_invD(4) [OF i] e(3) unfolding table_ok_def s(2) by metis
  then show ?thesis using i e(1,2) unfolding ports_inv_def refs_ok_def by auto
qed

lemma new_inv:
  assumes i: "ports_inv objs tot st" and p: "p \<notin> objs" and s: "\<And>q. q \<noteq> p \<Longrightarrow> infos s q = infos st q" "ports_htable s = ports_htable st"
    and r: "refs_of s p = (1 + (if has_srights p s then 1 else 0), 0)"
  shows "ports_inv (insert p objs) (tot(p := (1, 0))) (no_right p s)"
proof -
  have o: "ports_inv objs tot (no_right p s)"
    by (rule off_inv [OF i p]) (use s in \<open>simp_all add: no_right_def\<close>)
  have "table_ok (insert p objs) (no_right p s)"
    using ports_invD(4) [OF o] unfolding table_ok_def by (auto simp: MACH_PORT_VALID_def)
  moreover have "refs_ok q (tot(p := (1, 0))) (no_right p s) \<and> refs_of (no_right p s) q \<noteq> (0, 0)" if "q \<in> insert p objs" for q
    using ports_invD(1,2) [OF o, of q] that p r by (cases "q = p"; cases "has_srights q s") (auto simp: refs_ok_def)
  moreover have "(tot(p := (1, 0))) q = (0, 0)" if "q \<notin> insert p objs" for q using ports_invD(3) [OF o] that by auto
  ultimately show ?thesis unfolding ports_inv_def by blast
qed

definition with_new :: "nat option \<Rightarrow> nat set \<Rightarrow> nat set" where
  "with_new r objs = (case r of None \<Rightarrow> objs | Some p \<Rightarrow> insert p objs)"

definition hold_new :: "nat option \<Rightarrow> (nat \<Rightarrow> nat \<times> nat) \<Rightarrow> nat \<Rightarrow> nat \<times> nat" where
  "hold_new r tot = (case r of None \<Rightarrow> tot | Some p \<Rightarrow> tot(p := (1, 0)))"

lemma enter_inv:
  assumes i: "ports_inv objs tot st" and p: "p \<notin> objs" and n: "MACH_PORT_VALID n" "n \<notin> fst ` set (ports_htable st)"
    and s: "s = set_info p pi st" "port_right pi = n" "counts (refcounts pi) = (1 + (if HAS_SENDRIGHTS \<in> pflags pi then 1 else 0), 0)"
    and e: "enter_port c b p n [] s orc = Some (err, s1, o1)"
  shows "err = Success \<Longrightarrow> ports_inv (insert p objs) (tot(p := (1, 0))) s1 \<and> freed s1 = freed st"
    and "err \<noteq> Success \<Longrightarrow> ports_inv objs tot s1"
proof -
  obtain s2 where s2: "tables_add n p s orc = (err, s2, o1)" "infos s1 = infos s2" "ports_htable s1 = ports_htable s2" "freed s1 = freed s2"
    using e by (auto simp: enter_port_def alloc_loop.simps [of _ _ "[]"] alloc_pass_def Let_def split: if_splits prod.splits option.splits)
  have x: "refs_of s1 q = refs_of s2 q" "has_srights q s1 = has_srights q s2" for q by (simp_all add: refs_of_def has_srights_def s2)
  have tab: "table_ok os s2 \<Longrightarrow> table_ok os s1" for os by (rule table_ok_same) (simp_all add: s2)
  show "ports_inv (insert p objs) (tot(p := (1, 0))) s1 \<and> freed s1 = freed st" if "err = Success"
  proof -
    have a: "ports_inv (insert p objs) (tot(p := (1, 0))) (no_right p s)"
      by (rule new_inv [OF i p]) (use s in \<open>simp_all add: refs_of_def has_srights_def\<close>)
    have "ports_inv (insert p objs) (tot(p := (1, 0))) s2 \<and> freed s2 = freed (no_right p s)"
      using right_on [OF a, of p n s orc s2 o1] n s s2(1) that by (simp add: MACH_PORT_VALID_def)
    then show ?thesis using ports_inv_cong [OF _ x] ports_invD(4) tab s2(4) s(1) by auto
  qed
  show "ports_inv objs tot s1" if "err \<noteq> Success"
  proof -
    have f: "filter (\<lambda>e. snd e \<noteq> p) (ports_htable st) = ports_htable st" "filter (\<lambda>e. fst e \<noteq> n) (ports_htable st) = ports_htable st"
      using ports_invD(4) [OF i] p n(2) unfolding table_ok_def by (force intro!: filter_True)+
    have "infos s2 = infos s \<and> ports_htable s2 = ports_htable st"
      using s2(1) that f s(1) by (auto simp: tables_add_def table_add_def Let_def split: if_splits prod.splits option.splits)
    then show ?thesis using off_inv [OF i p, of s1] s(1) s2 by simp
  qed
qed

lemma counts_values: "counts (refs_value (REFCOUNT_REFERENCES 1 0)) = (1, 0)" "counts (refs_value (REFCOUNT_REFERENCES 2 0)) = (2, 0)"
  by (rule countsI; simp add: unat_refs_value)+


lemma entered_inv:
  assumes "err = Success \<Longrightarrow> ports_inv (insert p objs) (tot(p := (1, 0))) s1 \<and> freed s1 = freed st" "err \<noteq> Success \<Longrightarrow> ports_inv objs tot s1"
    and r: "(r, s) = (if err \<noteq> Success then (None, s1\<lparr>freed := p # freed s1\<rparr>) else (Some p, s1))"
  shows "ports_inv (with_new r objs) (hold_new r tot) s"
proof (cases "err = Success")
  case True
  then show ?thesis using assms(1) r by (simp add: with_new_def hold_new_def)
next
  case False
  note i = assms(2) [OF False]
  have "table_ok objs (s1\<lparr>freed := p # freed s1\<rparr>)" by (rule table_ok_same [OF ports_invD(4) [OF i]]) simp_all
  then have "ports_inv objs tot (s1\<lparr>freed := p # freed s1\<rparr>)"
    by (intro ports_inv_cong [OF i]) (simp_all add: refs_of_def has_srights_def)
  then show ?thesis using r False by (simp add: with_new_def hold_new_def)
qed

lemma create_inv:
  assumes i: "ports_inv objs tot st" and n: "\<And>n. receive = Inr n \<Longrightarrow> MACH_PORT_VALID n \<and> n \<notin> fst ` set (ports_htable st)"
    and p: "\<And>j o'. alloc orc = (Some j, o') \<Longrightarrow> unat j \<notin> objs"
    and c: "ports_create_port_internal c b install receive Success [] st orc = Some (err, r, s, o1)"
  shows "ports_inv (with_new r objs) (hold_new r tot) s"
proof (cases "\<exists>n j o'. receive = Inr n \<and> alloc orc = (Some j, o')")
  case False
  then have "r = None \<and> s = st" using c by (auto simp: ports_create_port_internal_def split: sum.splits option.splits prod.splits)
  then show ?thesis using i by (simp add: with_new_def hold_new_def)
next
  case True
  then obtain n j o' where a: "receive = Inr n" "alloc orc = (Some j, o')" by blast
  define pi where "pi = \<lparr>pclass = c, refcounts = refs_value (REFCOUNT_REFERENCES 1 0), mscount = 0, cancel_threshold = 0,
    pflags = {}, port_right = n, pbucket = b\<rparr>"
  obtain s1 where s1: "enter_port c b (unat j) n [] (set_info (unat j) pi st) o' = Some (err, s1, o1)"
    "(r, s) = (if err \<noteq> Success then (None, s1\<lparr>freed := unat j # freed s1\<rparr>) else (Some (unat j), s1))"
    using c a by (auto simp: ports_create_port_internal_def pi_def Let_def split: if_splits option.splits prod.splits)
  note e = enter_inv [OF i p [OF a(2)] conjunct1 [OF n [OF a(1)]] conjunct2 [OF n [OF a(1)]] refl _ _ s1(1)]
  have k: "port_right pi = n" "counts (refcounts pi) = (1 + (if HAS_SENDRIGHTS \<in> pflags pi then 1 else 0), 0)"
    by (simp_all add: pi_def counts_values)
  show ?thesis by (rule entered_inv [OF e(1) [OF k] e(2) [OF k] s1(2)])
qed

lemma import_inv:
  assumes i: "ports_inv objs tot st" and n: "MACH_PORT_VALID n" "n \<notin> fst ` set (ports_htable st)"
    and p: "\<And>j o'. alloc orc = (Some j, o') \<Longrightarrow> unat j \<notin> objs"
    and c: "ports_import_port c b n status [] st orc = Some (err, r, s, o1)"
  shows "ports_inv (with_new r objs) (hold_new r tot) s"
proof (cases "\<exists>x m j o'. status = Inr (x, m) \<and> alloc orc = (Some j, o')")
  case False
  then have "r = None \<and> s = st" using c by (auto simp: ports_import_port_def split: sum.splits option.splits prod.splits)
  then show ?thesis using i by (simp add: with_new_def hold_new_def)
next
  case True
  then obtain x m j o' where a: "status = Inr (x, m)" "alloc orc = (Some j, o')" by blast
  define pi where "pi = \<lparr>pclass = c, refcounts = refs_value (REFCOUNT_REFERENCES (if x then 2 else 1) 0), mscount = m, cancel_threshold = 0,
    pflags = (if x then {HAS_SENDRIGHTS} else {}), port_right = n, pbucket = b\<rparr>"
  obtain s1 where s1: "enter_port c b (unat j) n [] (set_info (unat j) pi st) o' = Some (err, s1, o1)"
    "(r, s) = (if err \<noteq> Success then (None, s1\<lparr>freed := unat j # freed s1\<rparr>) else (Some (unat j), s1))"
    using c a unfolding ports_import_port_def by (simp add: pi_def [symmetric] Let_def split: option.splits prod.splits if_splits)
  note e = enter_inv [OF i p [OF a(2)] n refl _ _ s1(1)]
  have k: "port_right pi = n" "counts (refcounts pi) = (1 + (if HAS_SENDRIGHTS \<in> pflags pi then 1 else 0), 0)"
    by (simp_all add: pi_def counts_values)
  show ?thesis by (rule entered_inv [OF e(1) [OF k] e(2) [OF k] s1(2)])
qed


lemma unsafe_take_inv:
  assumes i: "ports_inv objs tot st" and p: "p \<in> objs" and c: "change_refs refcounts_unsafe_ref p st = Some s"
  shows "ports_inv objs (hold True p tot) s"
proof -
  have "refcounts_unsafe_ref (refcounts (infos st p)) = refcounts_ref (refcounts (infos st p))"
    using ports_invD(2,5,6) [OF i p] by (intro refcounts_unsafe_ref_counts) (simp_all add: refs_of_def)
  then have "change_refs (ref_apply Ref) p st = Some s" using c by (simp add: change_refs_def)
  from take_inv [OF i p this, of "(1, 0)"] show ?thesis by simp
qed

definition hold_found :: "nat option \<Rightarrow> (nat \<Rightarrow> nat \<times> nat) \<Rightarrow> nat \<Rightarrow> nat \<times> nat" where
  "hold_found r tot = (case r of None \<Rightarrow> tot | Some p \<Rightarrow> hold True p tot)"

lemma lookup_inv:
  assumes i: "ports_inv objs tot st" and l: "ports_lookup_port b n c st = Some (r, s)"
  shows "ports_inv objs (hold_found r tot) s \<and> freed s = freed st"
proof (cases r)
  case None
  then show ?thesis using l i by (auto simp: ports_lookup_port_def hold_found_def split: option.splits if_splits)
next
  case (Some p)
  then have m: "map_of (ports_htable st) n = Some p" "change_refs refcounts_unsafe_ref p st = Some s"
    using l by (auto simp: ports_lookup_port_def split: option.splits if_splits)
  have "p \<in> objs" using ports_invD(4) [OF i] map_of_SomeD [OF m(1)] unfolding table_ok_def by blast
  then show ?thesis using unsafe_take_inv [OF i _ m(2)] m(2) Some by (auto simp: hold_found_def change_refs_def)
qed

lemma lookup_payload_inv:
  assumes i: "ports_inv objs tot st" and p: "p \<in> objs" and l: "ports_lookup_payload b p c st = Some (r, s)"
  shows "ports_inv objs (hold_found r tot) s \<and> freed s = freed st"
proof (cases r)
  case None
  then show ?thesis using l i by (auto simp: ports_lookup_payload_def hold_found_def split: if_splits)
next
  case (Some q)
  then have m: "q = p" "change_refs refcounts_unsafe_ref p st = Some s"
    using l by (auto simp: ports_lookup_payload_def split: if_splits)
  then show ?thesis using unsafe_take_inv [OF i p m(2)] Some by (auto simp: hold_found_def change_refs_def)
qed

section \<open>The system\<close>

text \<open>
  A configuration has the live objects, the references that clients and thread pools hold, and the state. A step is one
  operation that returns. The premises are the obligations of callers and of the kernel: only live objects are named,
  only references that are held are dropped, the allocator gives memory that is not in use, the kernel gives names
  that no other port has, a right is transferred between distinct objects. Weak references are not
  dropped by a routine of the class. The event of a step is the result of moving a new object into its port set.
\<close>

type_synonym port_config = "nat set \<times> (nat \<Rightarrow> nat \<times> nat) \<times> ports"

definition fresh_memory :: "allocs \<Rightarrow> nat set \<Rightarrow> bool" where
  "fresh_memory orc objs \<longleftrightarrow> (\<forall>j o'. alloc orc = (Some j, o') \<longrightarrow> unat j \<notin> objs)"

definition fresh_name :: "mach_port \<Rightarrow> ports \<Rightarrow> bool" where
  "fresh_name n st \<longleftrightarrow> MACH_PORT_VALID n \<and> n \<notin> fst ` set (ports_htable st)"

definition own_name :: "mach_port \<Rightarrow> nat \<Rightarrow> ports \<Rightarrow> bool" where
  "own_name n p st \<longleftrightarrow> MACH_PORT_VALID n \<and> (\<forall>q. (n, q) \<in> set (ports_htable st) \<longrightarrow> q = p)"

datatype port_event = Creation error_t | Operation

inductive port_step :: "port_event \<Rightarrow> port_config \<Rightarrow> port_config \<Rightarrow> bool" where
  step_ref: "p \<in> objs \<Longrightarrow> ports_port_ref p st = Some s \<Longrightarrow> port_step Operation (objs, tot, st) (objs, hold True p tot, s)"
| step_ref_weak: "p \<in> objs \<Longrightarrow> ports_port_ref_weak p st = Some s \<Longrightarrow>
    port_step Operation (objs, tot, st) (objs, tot(p := (fst (tot p), snd (tot p) + 1)), s)"
| step_deref: "0 < fst (tot p) \<Longrightarrow> ports_port_deref no_dropweak p st = Some s \<Longrightarrow> drops objs st s objs' \<Longrightarrow>
    port_step Operation (objs, tot, st) (objs', tot(p := (fst (tot p) - 1, snd (tot p))), s)"
| step_deref_weak: "0 < snd (tot p) \<Longrightarrow> ports_port_deref_weak p st = Some s \<Longrightarrow> drops objs st s objs' \<Longrightarrow>
    port_step Operation (objs, tot, st) (objs', tot(p := (fst (tot p), snd (tot p) - 1)), s)"
| step_lookup: "ports_lookup_port b n c st = Some (r, s) \<Longrightarrow> port_step Operation (objs, tot, st) (objs, hold_found r tot, s)"
| step_lookup_payload: "p \<in> objs \<Longrightarrow> ports_lookup_payload b p c st = Some (r, s) \<Longrightarrow>
    port_step Operation (objs, tot, st) (objs, hold_found r tot, s)"
| step_create: "fresh_memory orc objs \<Longrightarrow> (\<And>n. receive = Inr n \<Longrightarrow> fresh_name n st) \<Longrightarrow>
    ports_create_port_internal c b install receive move_err [] st orc = Some (err, r, s, o1) \<Longrightarrow>
    port_step (Creation move_err) (objs, tot, st) (with_new r objs, hold_new r tot, s)"
| step_import: "fresh_memory orc objs \<Longrightarrow> fresh_name n st \<Longrightarrow> ports_import_port c b n status [] st orc = Some (err, r, s, o1) \<Longrightarrow>
    port_step Operation (objs, tot, st) (with_new r objs, hold_new r tot, s)"
| step_get_right: "p \<in> objs \<Longrightarrow> ports_get_right err p st = Some (n, s) \<Longrightarrow> drops objs st s objs' \<Longrightarrow>
    port_step Operation (objs, tot, st) (objs', tot, s)"
| step_no_senders: "p \<in> objs \<Longrightarrow> ports_no_senders (\<lambda>p. ports_interrupt_rpcs p t) no_dropweak p m st = Some s \<Longrightarrow> drops objs st s objs' \<Longrightarrow>
    port_step Operation (objs, tot, st) (objs', tot, s)"
| step_destroy: "p \<in> objs \<Longrightarrow> ports_destroy_right p st orc = Some (s, o1) \<Longrightarrow> port_step Operation (objs, tot, st) (objs, hold (has_srights p st) p tot, s)"
| step_claim: "p \<in> objs \<Longrightarrow> ports_claim_right no_dropweak err p st = Some (n, s) \<Longrightarrow> drops objs st s objs' \<Longrightarrow>
    port_step Operation (objs, tot, st) (objs', tot, s)"
| step_transfer: "to \<in> objs \<Longrightarrow> from \<in> objs \<Longrightarrow> to \<noteq> from \<Longrightarrow>
    ports_transfer_right no_dropweak e1 e2 to from st orc = Some (s, o1) \<Longrightarrow> drops objs st s objs' \<Longrightarrow> port_step Operation (objs, tot, st) (objs', tot, s)"
| step_reallocate: "p \<in> objs \<Longrightarrow> own_name n p st \<Longrightarrow>
    ports_reallocate_port no_dropweak e1 (Inr n) e2 p st orc = Some (s, o1) \<Longrightarrow> drops objs st s objs' \<Longrightarrow> port_step Operation (objs, tot, st) (objs', tot, s)"
| step_external: "p \<in> objs \<Longrightarrow> own_name n p st \<Longrightarrow>
    ports_reallocate_from_external no_dropweak status e1 e2 p n st orc = Some (s, o1) \<Longrightarrow> drops objs st s objs' \<Longrightarrow>
    port_step Operation (objs, tot, st) (objs', tot, s)"

definition ports_empty :: "ports \<Rightarrow> bool" where
  "ports_empty st \<longleftrightarrow> ports_htable st = []"

text \<open>Runs, with what has happened in them.\<close>

inductive port_run :: "port_event list \<Rightarrow> port_config \<Rightarrow> bool" where
  run_init: "ports_empty st \<Longrightarrow> port_run [] ({}, \<lambda>_. (0, 0), st)"
| run_step: "port_run es x \<Longrightarrow> port_step e x y \<Longrightarrow> port_run (e # es) y"

lemma keeps_inv: "keeps objs tot st s \<Longrightarrow> drops objs st s objs' \<Longrightarrow> ports_inv objs' tot s"
  unfolding keeps_def using drops_unique by blast

lemma held_live: "ports_inv objs tot st \<Longrightarrow> tot p \<noteq> (0, 0) \<Longrightarrow> p \<in> objs"
  using ports_invD(3) by blast

abbreviation config_inv :: "port_config \<Rightarrow> bool" where
  "config_inv x \<equiv> (case x of (objs, tot, st) \<Rightarrow> ports_inv objs tot st)"

lemma port_step_inv: "port_step e x y \<Longrightarrow> e = Operation \<or> e = Creation Success \<Longrightarrow> config_inv x \<Longrightarrow> config_inv y"
proof (induction rule: port_step.induct)
  case (step_ref p objs st s tot)
  then show ?case using take_inv [of objs tot st p Ref s "(1, 0)"] by (simp add: ports_port_ref_def ref_apply_ops)
next
  case (step_ref_weak p objs st s tot)
  then show ?case using take_inv [of objs tot st p Ref_Weak s "(0, 1)"] by (simp add: ports_port_ref_weak_def ref_apply_ops)
next
  case (step_deref tot p st s objs objs')
  then have "p \<in> objs" using held_live [of objs tot st p] by fastforce
  then show ?case using deref_inv [of objs tot st p s] step_deref drops_unique by fastforce
next
  case (step_deref_weak tot p st s objs objs')
  then have "p \<in> objs" using held_live [of objs tot st p] by fastforce
  then show ?case using deref_weak_inv [of objs tot st p s] step_deref_weak drops_unique by fastforce
next
  case (step_create orc objs receive st c b install move_err err r s o1 tot)
  then show ?case using create_inv [of objs tot st receive orc c b install err r s o1] by (simp add: fresh_memory_def fresh_name_def)
next
  case (step_import orc objs n st c b status err r s o1 tot)
  then show ?case using import_inv [of objs tot st n orc c b status err r s o1] by (simp add: fresh_memory_def fresh_name_def)
next
  case (step_external p objs n st status e1 e2 orc s o1 objs' tot)
  then obtain x m where "status = Inr (x, m)" by (cases status) (auto simp: ports_reallocate_from_external_def)
  then show ?case using reallocate_from_external_inv [of objs tot st p n x m e1 e2 orc s o1] keeps_inv step_external by (simp add: own_name_def)
next
  case (step_reallocate p objs n st e1 e2 orc s o1 objs' tot)
  then show ?case using reallocate_port_inv [of objs tot st p n e1 e2 orc s o1] keeps_inv by (simp add: own_name_def)
next
  case (step_lookup b n c st r s objs tot)
  then show ?case using lookup_inv by simp
next
  case (step_lookup_payload p objs b c st r s tot)
  then show ?case using lookup_payload_inv by simp
next
  case (step_get_right p objs err st n s objs' tot)
  then show ?case using keeps_inv [OF get_right_inv] by simp
next
  case (step_no_senders p objs t m st s objs' tot)
  then show ?case using keeps_inv [OF no_senders_inv] by simp
next
  case (step_destroy p objs st orc s o1 tot)
  then show ?case using destroy_right_inv by simp
next
  case (step_claim p objs err st n s objs' tot)
  then show ?case using keeps_inv [OF claim_right_inv] by simp
next
  case (step_transfer to objs "from" e1 e2 st orc s o1 objs' tot)
  then show ?case using keeps_inv [OF transfer_right_inv] by simp
qed

lemma port_run_inv: "port_run es x \<Longrightarrow> set es \<subseteq> {Operation, Creation Success} \<Longrightarrow> config_inv x"
proof (induction rule: port_run.induct)
  case (run_init st)
  then show ?case by (simp add: ports_empty_def ports_inv_def table_ok_def)
next
  case (run_step es x e y)
  then show ?case using port_step_inv by auto
qed

section \<open>An example\<close>

text \<open>The object 7 with the right 5 is created, somebody gets a send right, the creator drops its reference.\<close>

definition ex_start :: ports where
  "ex_start = \<lparr>infos = (\<lambda>_. \<lparr>pclass = 0, refcounts = 0, mscount = 0, cancel_threshold = 0, pflags = {}, port_right = 0, pbucket = 0\<rparr>),
     classes = (\<lambda>_. \<lparr>cflags = {}, crpcs = 0, ccount = 0, has_dropweak = False, uninhibitable_rpcs = []\<rparr>),
     buckets = (\<lambda>_. \<lparr>portset = 9, htable = [], brpcs = 0, bflags = {}, bcount = 0, threadpool = ports_threadpool_init, notify_port = 0\<rparr>),
     ports_htable = [], ports_total_rpcs = 0, ports_flags = {}, rpcs = [], interrupted = [], cancelled = [], broadcasts = 0,
     cleaned = [], freed = []\<rparr>"

definition ex_created :: ports where
  "ex_created = fst (snd (snd (the (ports_create_port_internal 0 0 True (Inr 5) Success [] ex_start [Some 7]))))"

definition ex_sent :: ports where
  "ex_sent = snd (the (ports_get_right Success 7 ex_created))"

definition ex_dropped :: ports where
  "ex_dropped = the (ports_port_deref no_dropweak 7 ex_sent)"

lemma ex_create_run: "ports_create_port_internal 0 0 True (Inr 5) Success [] ex_start [Some 7] = Some (Success, Some 7, ex_created, [])"
proof -
  have "map_option (\<lambda>(e, r, _, o1). (e, r, o1)) (ports_create_port_internal 0 0 True (Inr 5) Success [] ex_start [Some 7]) = Some (Success, Some 7, [])"
    by code_simp
  then show ?thesis by (auto simp: ex_created_def)
qed

lemma ex_get_run: "ports_get_right Success 7 ex_created = Some (5, ex_sent)"
proof -
  have "map_option fst (ports_get_right Success 7 ex_created) = Some 5" by code_simp
  then show ?thesis by (auto simp: ex_sent_def)
qed

lemma ex_deref_run: "ports_port_deref no_dropweak 7 ex_sent = Some ex_dropped"
proof -
  have "\<not> Option.is_none (ports_port_deref no_dropweak 7 ex_sent)" by code_simp
  then show ?thesis by (auto simp: ex_dropped_def Option.is_none_def)
qed

lemma ex_dropped_values: "has_srights 7 ex_dropped" "freed ex_sent = []" "freed ex_created = []" "freed ex_dropped = []"
  by code_simp+

lemma ex_dropped_run: "port_run [Operation, Operation, Creation Success] ({7}, (\<lambda>_. (0, 0)), ex_dropped)"
proof -
  have 0: "port_run [] ({}, (\<lambda>_. (0, 0)), ex_start)" by (rule run_init) (simp add: ports_empty_def ex_start_def)
  have 1: "port_step (Creation Success) ({}, (\<lambda>_. (0, 0)), ex_start) (with_new (Some 7) {}, hold_new (Some 7) (\<lambda>_. (0, 0)), ex_created)"
    by (rule step_create [OF _ _ ex_create_run]) (simp_all add: fresh_memory_def fresh_name_def MACH_PORT_VALID_def ex_start_def)
  have 2: "port_step Operation ({7}, hold_new (Some 7) (\<lambda>_. (0, 0)), ex_created) ({7}, hold_new (Some 7) (\<lambda>_. (0, 0)), ex_sent)"
    by (rule step_get_right [OF _ ex_get_run]) (simp_all add: ex_dropped_values drops_refl)
  have 3: "port_step Operation ({7}, (\<lambda>_. (0, 0))(7 := (1, 0)), ex_sent) ({7}, (\<lambda>_. (0, 0)), ex_dropped)"
    using step_deref [OF _ ex_deref_run, of "(\<lambda>_. (0, 0))(7 := (1, 0))" "{7}" "{7}"] by (simp add: ex_dropped_values drops_refl fun_upd_idem)
  show ?thesis using run_step [OF run_step [OF run_step [OF 0 1]]] 2 3 by (simp add: with_new_def hold_new_def)
qed

section \<open>Properties\<close>

text \<open>
  C26. References and rights of port objects. In every state that operations on ports reach, in any order, as long as no new
  port could not be moved into its port set (the next property says what happens then) and the dropweak routines of the classes do nothing: the
  count of hard references of a live object is the number of references that clients and thread pools hold, with one
  more while it has send rights, the count of weak references is the number that is held, and one of them is positive; whoever holds
  a reference holds it to a live object; the table of ports maps exactly the names of the receive rights of live objects to them.
\<close>

theorem ports_references_exact:
  assumes "port_run es (objs, tot, st)" and "set es \<subseteq> {Operation, Creation Success}"
  shows "(\<forall>p \<in> objs. refs_of st p = (fst (tot p) + (if has_srights p st then 1 else 0), snd (tot p)) \<and> refs_of st p \<noteq> (0, 0)) \<and>
    (\<forall>p. tot p \<noteq> (0, 0) \<longrightarrow> p \<in> objs) \<and>
    (\<forall>n p. (n, p) \<in> set (ports_htable st) \<longleftrightarrow> p \<in> objs \<and> port_right (infos st p) = n \<and> MACH_PORT_VALID n) \<and>
    distinct (map fst (ports_htable st))"
proof -
  have i: "ports_inv objs tot st" using port_run_inv [OF assms] by simp
  have "table_ok objs st" by (rule ports_invD(4) [OF i])
  then have "\<forall>n p. (n, p) \<in> set (ports_htable st) \<longleftrightarrow> p \<in> objs \<and> port_right (infos st p) = n \<and> MACH_PORT_VALID n"
    "distinct (map fst (ports_htable st))" unfolding table_ok_def by blast+
  moreover have "\<forall>p \<in> objs. refs_of st p = (fst (tot p) + (if has_srights p st then 1 else 0), snd (tot p)) \<and> refs_of st p \<noteq> (0, 0)"
    using inv_refs_of [OF i] ports_invD(2) [OF i] by simp
  moreover have "\<forall>p. tot p \<noteq> (0, 0) \<longrightarrow> p \<in> objs" using held_live [OF i] by blast
  ultimately show ?thesis by blast
qed

theorem ports_references_exact_witness:
  "refs_of ex_dropped 7 = (1, 0) \<and> (\<forall>n p. (n, p) \<in> set (ports_htable ex_dropped) \<longleftrightarrow> p = 7 \<and> port_right (infos ex_dropped p) = n \<and> MACH_PORT_VALID n)"
  using ports_references_exact [OF ex_dropped_run] ex_dropped_values(1) by simp

text \<open>
  C27. A port that cannot be moved into its set. When the last step of creating a port fails, the error is returned and the
  object is freed, but it stays in the table of ports and in that of the bucket, and in the counts of its class and
  bucket: a lookup of the name finds the freed object.
\<close>

theorem ports_create_port_freed_found:
  assumes "err \<noteq> Success" "NO_ALLOC \<notin> cflags (classes st c)" "NO_ALLOC \<notin> bflags (buckets st b)" "orc = Some j # Some k # Some l # orc'"
  shows "\<exists>s. ports_create_port c b (Inr n) err [] st orc = Some (err, None, s, orc') \<and> freed s = unat j # freed st \<and>
    map_of (ports_htable s) n = Some (unat j) \<and> map_of (htable (buckets s b)) n = Some (unat j) \<and>
    bcount (buckets s b) = bcount (buckets st b) + 1 \<and> ccount (classes s c) = ccount (classes st c) + 1 \<and>
    (\<exists>s'. ports_lookup_port (Some b) n (Some c) s = Some (Some (unat j), s') \<and> refs_of s' (unat j) = (2, 0))"
proof -
  define s where "s = fst (snd (snd (the (ports_create_port c b (Inr n) err [] st orc))))"
  have c: "ports_create_port c b (Inr n) err [] st orc = Some (err, None, s, orc')"
    using assms by (simp add: s_def ports_create_port_def ports_create_port_internal_def enter_port_def alloc_loop.simps [of _ _ "[]"] alloc_pass_def
      tables_add_def table_add_def alloc_def set_info_def set_bucket_def set_class_def Let_def)
  then have s: "freed s = unat j # freed st" "map_of (ports_htable s) n = Some (unat j)" "map_of (htable (buckets s b)) n = Some (unat j)"
    "bcount (buckets s b) = bcount (buckets st b) + 1" "ccount (classes s c) = ccount (classes st c) + 1"
    "pclass (infos s (unat j)) = c" "pbucket (infos s (unat j)) = b" "refcounts (infos s (unat j)) = refs_value (REFCOUNT_REFERENCES 1 0)"
    using assms by (auto simp: ports_create_port_def ports_create_port_internal_def enter_port_def alloc_loop.simps [of _ _ "[]"] alloc_pass_def
      tables_add_def table_add_def alloc_def set_info_def set_bucket_def set_class_def Let_def)
  have u: "refcounts_unsafe_ref (refs_value (REFCOUNT_REFERENCES 1 0)) = Some (refs_value (REFCOUNT_REFERENCES 2 0))" by code_simp
  have "ports_lookup_port (Some b) n (Some c) s = Some (Some (unat j),
      set_info (unat j) ((infos s (unat j))\<lparr>refcounts := refs_value (REFCOUNT_REFERENCES 2 0)\<rparr>) s)"
    by (simp add: ports_lookup_port_def change_refs_def s u)
  then show ?thesis using c s by (simp add: refs_of_def counts_values)
qed

theorem ports_create_port_freed_found_witness:
  "\<exists>s. ports_create_port 0 0 (Inr 5) ENOMEM [] ex_start [Some 7, Some 1, Some 1] = Some (ENOMEM, None, s, []) \<and> freed s = [7] \<and>
    map_of (ports_htable s) 5 = Some 7"
  using ports_create_port_freed_found [of ENOMEM ex_start 0 0 "[Some 7, Some 1, Some 1]" 7 1 1 "[]" 5] by (auto simp: ex_start_def)

lemma change_refs_other:
  assumes "change_refs f p st = Some s"
  shows "q \<noteq> p \<Longrightarrow> infos s q = infos st q"
  using assms by (auto simp: change_refs_def)

lemma dealloc_other:
  assumes "dealloc_if_dead p st = Some s"
  shows "q \<noteq> p \<Longrightarrow> infos s q = infos st q"
  using assms by (auto simp: dealloc_if_dead_def ports_complete_deallocate_def tables_remove_some Let_def split: if_splits option.splits)

lemma deref_other:
  assumes "ports_port_deref no_dropweak p st = Some s"
  shows "q \<noteq> p \<Longrightarrow> infos s q = infos st q"
  using assms by (auto simp: ports_port_deref_def Let_def change_refs_other dealloc_other split: if_splits option.splits)

text \<open>
  Send rights that get lost. When a right that has senders is transferred to an object that has none, the
  receiver gets the right without the mark that there are send rights and without their reference: its references are those
  it had, and when the last sender goes away the notification is ignored.
\<close>

theorem ports_transfer_right_forgets_senders:
  assumes "port_right (infos st to) = 0" "\<not> has_srights to st" "to \<noteq> from" "has_srights from st" "port_right (infos st from) \<noteq> 0"
    and t: "ports_transfer_right no_dropweak e1 e2 to from st orc = Some (s, o1)"
  shows "port_right (infos s to) = port_right (infos st from) \<and> \<not> has_srights to s \<and> refs_of s to = refs_of st to \<and>
    ports_no_senders interrupt no_dropweak to m s = Some s"
proof -
  let ?n = "port_right (infos st from)"
  obtain r where r: "tables_remove from st = Some r"
    using t assms(5) by (cases "tables_remove from st") (simp_all add: ports_transfer_right_def transfer_take_def Let_def)
  define s0 where "s0 = set_srights False from (no_right from r)"
  have i: "infos r = infos st" by (rule tables_remove_some [OF r])
  have "transfer_take from st = Some (True, s0)"
    using r assms(4,5) by (simp add: transfer_take_def s0_def no_right_def has_srights_def i)
  moreover have o: "infos s0 to = infos st to" using assms(3) by (simp add: s0_def set_srights_def no_right_def i)
  ultimately obtain s3 where
    s: "tables_add ?n to (set_info to ((infos s0 to)\<lparr>port_right := ?n, cancel_threshold := cancel_threshold (infos s0 from),
      mscount := mscount (infos s0 from)\<rparr>) s0) orc = (Success, s3, o1)" "ports_port_deref no_dropweak from s3 = Some s"
    using t assms(1,5) by (auto simp: ports_transfer_right_def transfer_drop_def deref_if_def Let_def split: if_splits option.splits prod.splits)
  show ?thesis using deref_other [OF s(2) assms(3)] tables_add_some(1) [OF s(1)] assms(2) o
    by (simp add: has_srights_def refs_of_def ports_no_senders_def)
qed

text \<open>The object 7, with the right 5 and senders, gives its right to the object 8, which has none.\<close>

definition ex_receiver :: ports where
  "ex_receiver = ex_start\<lparr>infos := (\<lambda>p. if p = 7
       then \<lparr>pclass = 0, refcounts = 2, mscount = 1, cancel_threshold = 0, pflags = {HAS_SENDRIGHTS}, port_right = 5, pbucket = 0\<rparr>
       else \<lparr>pclass = 0, refcounts = 1, mscount = 0, cancel_threshold = 0, pflags = {}, port_right = 0, pbucket = 0\<rparr>),
     buckets := (\<lambda>b. (buckets ex_start b)\<lparr>htable := [(5, 7)], bcount := 2\<rparr>), ports_htable := [(5, 7)]\<rparr>"

theorem ports_transfer_right_forgets_senders_witness:
  "\<exists>s. ports_transfer_right no_dropweak Success Success 8 7 ex_receiver [] = Some (s, []) \<and> port_right (infos s 8) = 5 \<and> \<not> has_srights 8 s \<and>
    ports_no_senders (\<lambda>p. ports_interrupt_rpcs p 0) no_dropweak 8 1 s = Some s"
proof -
  have "map_option snd (ports_transfer_right no_dropweak Success Success 8 7 ex_receiver []) = Some []" by code_simp
  then obtain s where s: "ports_transfer_right no_dropweak Success Success 8 7 ex_receiver [] = Some (s, [])" by auto
  have v: "port_right (infos ex_receiver 8) = 0" "\<not> has_srights 8 ex_receiver" "has_srights 7 ex_receiver" "port_right (infos ex_receiver 7) = 5"
    by code_simp+
  show ?thesis using ports_transfer_right_forgets_senders [OF v(1,2) _ v(3) _ s, of "\<lambda>p. ports_interrupt_rpcs p 0" 1] s v(4) by auto
qed

end
