(* ===== verification/Ports_Notify_Props.thy ===== *)
theory Ports_Notify_Props
  imports Ports_Notify Ports_System
begin

text \<open>
  Requests to be interrupted: the entries stay consistent with the requests to the kernel in all runs, a notification cancels exactly the RPCs
  that wait for it, and requests can get lost.
\<close>

section \<open>Entries\<close>

definition entry_ok :: "ports_notify \<Rightarrow> bool" where
  "entry_ok n \<longleftrightarrow> np_reqs n \<noteq> [] \<and> distinct (map req_rpc (np_reqs n)) \<and> np_pending n"

lemma notify_ok_entries:
  "notify_ok st \<longleftrightarrow> distinct (map notify_key (ports_notifications st)) \<and> (\<forall>n \<in> set (ports_notifications st). entry_ok n) \<and>
     requested st \<subseteq> notify_key ` set (ports_notifications st)"
  by (simp add: notify_ok_def entry_ok_def)

lemma notify_for_key: "notify_for port what n \<longleftrightarrow> notify_key n = (port, what)"
  by (auto simp: notify_for_def notify_key_def)

lemma upd_notify_keys: "(\<And>n. notify_key (f n) = notify_key n) \<Longrightarrow> map notify_key (upd_notify P f ns) = map notify_key ns"
  by (induction ns) auto

lemma upd_notify_set:
  assumes "distinct (map notify_key ns)" "n \<in> set ns" "notify_key n = (port, what)"
  shows "set (upd_notify (notify_for port what) f ns) = insert (f n) (set ns - {n})"
  using assms
proof (induction ns)
  case (Cons m ns)
  show ?case
  proof (cases "m = n")
    case True
    then have "n \<notin> set ns" using Cons.prems(1) by auto
    then show ?thesis using True Cons.prems(3) by (simp add: notify_for_key)
  next
    case False
    then have "n \<in> set ns" "notify_key m \<noteq> (port, what)" using Cons.prems by (auto simp: image_iff)
    then show ?thesis using Cons False by (auto simp: notify_for_key)
  qed
qed simp

lemma upd_notify_twice:
  assumes "\<And>n. P (f n) = P n"
  shows "upd_notify P g (upd_notify P f ns) = upd_notify P (\<lambda>n. g (f n)) ns"
  by (induction ns) (auto simp: assms)

lemma add_req_key [simp]: "notify_key (add_req rpc n) = notify_key n" "np_pending (add_req rpc n) = np_pending n"
  by (simp_all add: add_req_def notify_key_def)

lemma add_req_ok:
  assumes "distinct (map req_rpc (np_reqs n))"
  shows "np_reqs (add_req rpc n) \<noteq> []" "distinct (map req_rpc (np_reqs (add_req rpc n)))"
proof -
  have "map req_rpc (map (\<lambda>r. if req_rpc r = rpc then r\<lparr>req_pending := req_pending r + 1\<rparr> else r) rs) = map req_rpc rs" for rs
    by (induction rs) auto
  then have "map req_rpc (np_reqs (add_req rpc n)) = (if \<exists>r \<in> set (np_reqs n). req_rpc r = rpc then [] else [rpc]) @ map req_rpc (np_reqs n)"
    by (simp only: add_req_def) auto
  then show "distinct (map req_rpc (np_reqs (add_req rpc n)))" using assms by auto
  show "np_reqs (add_req rpc n) \<noteq> []" by (auto simp: add_req_def)
qed

section \<open>Operations\<close>

lemma join_ok:
  assumes d: "distinct (map notify_key (ports_notifications st))" "n \<in> set (ports_notifications st)"
    and o: "\<And>m. m \<in> set (ports_notifications st) \<Longrightarrow> m \<noteq> n \<Longrightarrow> entry_ok m" "distinct (map req_rpc (np_reqs n))"
      "requested st \<subseteq> notify_key ` set (ports_notifications st)"
    and j: "join_notify rpc err n st = (e, s)"
  shows "notify_ok s"
proof -
  let ?P = "notify_for (np_port n) (np_what n)" and ?ns = "ports_notifications st"
  define F where "F m = (if np_pending n then add_req rpc m else (add_req rpc m)\<lparr>np_pending := True\<rparr>)" for m
  have k: "notify_key n = (np_port n, np_what n)" "\<And>m. notify_key (F m) = notify_key m"
    by (simp add: notify_key_def) (simp add: F_def, simp add: notify_key_def add_req_def)
  have P: "\<And>m. ?P (add_req rpc m) = ?P m" by (simp add: notify_for_key)
  have e: "F = (if np_pending n then add_req rpc else (\<lambda>m. (add_req rpc m)\<lparr>np_pending := True\<rparr>))" by (auto simp: F_def fun_eq_iff)
  have f: "ports_notifications s = upd_notify ?P F ?ns" "requested s \<subseteq> insert (notify_key n) (requested st)"
    using j upd_notify_twice [of ?P "add_req rpc", OF P] by (auto simp: join_notify_def e k(1) Let_def split: if_splits)
  have "set (upd_notify ?P F ?ns) = insert (F n) (set ?ns - {n})" by (rule upd_notify_set [OF d k(1)])
  moreover have "entry_ok (F n)" using add_req_ok [OF o(2)] by (simp add: F_def entry_ok_def)
  ultimately have "\<forall>m \<in> set (upd_notify ?P F ?ns). entry_ok m" using o(1) by auto
  moreover have "map notify_key (upd_notify ?P F ?ns) = map notify_key ?ns" by (rule upd_notify_keys [OF k(2)])
  moreover from this have "notify_key ` set (upd_notify ?P F ?ns) = notify_key ` set ?ns" by (metis list.set_map)
  ultimately show ?thesis using d f o(3) by (auto simp: notify_ok_entries)
qed

lemma take_simps:
  "take_rpc_notify st orc = (b, s, o1) \<Longrightarrow> ports_notifications s = ports_notifications st \<and> requested s = requested st"
  "take_ports_notify st orc = (b, s, o1) \<Longrightarrow> ports_notifications s = ports_notifications st \<and> requested s = requested st"
  by (auto simp: take_rpc_notify_def take_ports_notify_def split: if_splits option.splits prod.splits)

lemma find_notify:
  "find (notify_for port what) ns = Some n \<Longrightarrow> n \<in> set ns \<and> notify_key n = (port, what)"
  "find (notify_for port what) ns = None \<Longrightarrow> (port, what) \<notin> notify_key ` set ns"
  by (auto simp: find_Some_iff find_None_iff notify_for_key)

lemma asks_ok:
  assumes i: "notify_ok st" and a: "ports_interrupt_rpc_on_notification rpc port what err st orc = (e, s, o1)"
  shows "notify_ok s"
proof (cases "MACH_PORT_VALID port")
  case False
  then show ?thesis using a i by (auto simp: ports_interrupt_rpc_on_notification_def notify_ok_def)
next
  case v: True
  obtain g st1 p1 where t: "take_rpc_notify st orc = (g, st1, p1)" by (rule prod_cases3)
  have i1: "notify_ok st1" using i take_simps(1) [OF t] by (simp add: notify_ok_def)
  note j = i1 [unfolded notify_ok_entries]
  show ?thesis
  proof (cases "find (notify_for port what) (ports_notifications st1)")
    case None
    obtain h st2 p2 where u: "take_ports_notify st1 p1 = (h, st2, p2)" by (rule prod_cases3)
    define n where "n = \<lparr>np_port = port, np_what = what, np_pending = False, np_reqs = []\<rparr>"
    have e: "ports_notifications st2 = ports_notifications st1" "requested st2 = requested st1" using take_simps(2) [OF u] by simp_all
    have k: "notify_key n = (port, what)" "notify_key n \<notin> notify_key ` set (ports_notifications st1)"
      using find_notify(2) [OF None] by (simp_all add: n_def notify_key_def)
    have "notify_ok s'" if "join_notify rpc err n (st2\<lparr>ports_notifications := n # ports_notifications st2\<rparr>) = (e', s')" for e' s'
      by (rule join_ok [OF _ _ _ _ _ that]) (use j e k in \<open>auto simp: n_def\<close>)
    moreover have "notify_ok (st2\<lparr>free_rpc_notifies := x\<rparr>)" for x using i1 e by (simp add: notify_ok_def)
    ultimately show ?thesis
      using a v t None u i1 by (auto simp: ports_interrupt_rpc_on_notification_def n_def [symmetric] Let_def split: if_splits prod.splits)
  next
    case (Some n)
    have "notify_ok s'" if "join_notify rpc err n st1 = (e', s')" for e' s'
      by (rule join_ok [OF _ _ _ _ _ that]) (use j find_notify(1) [OF Some] in \<open>auto simp: entry_ok_def\<close>)
    then show ?thesis
      using a v t Some i1 by (auto simp: ports_interrupt_rpc_on_notification_def Let_def split: if_splits prod.splits)
  qed
qed

lemma fire_reqs_rpcs: "map req_rpc (fst (fire_reqs rs st)) = map req_rpc rs"
  by (induction rs st rule: fire_reqs.induct) (auto split: prod.splits)

lemma happens_ok:
  assumes i: "notify_ok st"
  shows "notify_ok (ports_interrupt_notified_rpcs port what (st\<lparr>requested := requested st - X\<rparr>))"
proof (cases "find (notify_for port what) (ports_notifications st)")
  case None
  then show ?thesis using i by (auto simp: ports_interrupt_notified_rpcs_def notify_ok_def)
next
  case (Some n)
  obtain rs ps where f: "fire_reqs (np_reqs n) (nports st) = (rs, ps)" by fastforce
  let ?f = "\<lambda>n. n\<lparr>np_reqs := rs\<rparr>" and ?ns = "ports_notifications st"
  note j = i [unfolded notify_ok_entries] and n = find_notify(1) [OF Some]
  have k: "\<And>m. notify_key (?f m) = notify_key m" by (simp add: notify_key_def)
  have m: "map req_rpc rs = map req_rpc (np_reqs n)" using fire_reqs_rpcs [of "np_reqs n" "nports st"] f by simp
  then have "entry_ok (?f n)" using j n by (auto simp: entry_ok_def)
  moreover have "set (upd_notify (notify_for port what) ?f ?ns) = insert (?f n) (set ?ns - {n})"
    by (rule upd_notify_set) (use j n in auto)
  moreover have "map notify_key (upd_notify (notify_for port what) ?f ?ns) = map notify_key ?ns" by (rule upd_notify_keys [OF k])
  moreover from this have "notify_key ` set (upd_notify (notify_for port what) ?f ?ns) = notify_key ` set ?ns" by (metis list.set_map)
  ultimately show ?thesis using Some f j by (auto simp: ports_interrupt_notified_rpcs_def notify_ok_entries)
qed

lemma remove_reqs_ok:
  assumes "remove_reqs rpc ns st = (ns', s)" "distinct (map notify_key ns)" "\<forall>n \<in> set ns. entry_ok n"
  shows "\<exists>gone. notify_key ` set ns' = notify_key ` set ns - gone \<and> requested s = requested st - gone \<and> gone \<subseteq> notify_key ` set ns \<and>
    distinct (map notify_key ns') \<and> (\<forall>n \<in> set ns'. entry_ok n \<and> (\<forall>r \<in> set (np_reqs n). req_rpc r \<noteq> rpc))"
  using assms
proof (induction ns arbitrary: st ns')
  case Nil
  then show ?case by simp
next
  case (Cons n ns)
  have d: "distinct (map notify_key ns)" "\<forall>n \<in> set ns. entry_ok n" "notify_key n \<notin> notify_key ` set ns" "entry_ok n" using Cons.prems by auto
  let ?rs = "filter (\<lambda>r. req_rpc r \<noteq> rpc) (np_reqs n)"
  show ?case
  proof (cases "?rs = []")
    case True
    then have "remove_reqs rpc ns (st\<lparr>free_rpc_notifies := free_rpc_notifies st + 1, free_ports_notifies := free_ports_notifies st + 1,
        requested := requested st - {notify_key n}\<rparr>) = (ns', s)"
      using Cons.prems(1) d(4) by (auto simp: entry_ok_def filter_empty_conv notify_key_def neq_Nil_conv Let_def split: if_splits)
    from Cons.IH [OF this d(1,2)] obtain gone where g: "notify_key ` set ns' = notify_key ` set ns - gone" "requested s = requested st - {notify_key n} - gone"
      "gone \<subseteq> notify_key ` set ns" "distinct (map notify_key ns')" "\<forall>n \<in> set ns'. entry_ok n \<and> (\<forall>r \<in> set (np_reqs n). req_rpc r \<noteq> rpc)" by auto
    then show ?thesis using d(3) by (intro exI [of _ "insert (notify_key n) gone"]) auto
  next
    case False
    then obtain m st1 ns1 where r: "remove_reqs rpc ns st1 = (ns1, s)" "ns' = m # ns1" "requested st1 = requested st" "notify_key m = notify_key n"
      "np_reqs m = ?rs" "np_pending m = np_pending n"
    proof (cases "\<exists>r \<in> set (np_reqs n). req_rpc r = rpc")
      case True
      then show ?thesis using that [of "st\<lparr>free_rpc_notifies := free_rpc_notifies st + 1\<rparr>" _ "n\<lparr>np_reqs := ?rs\<rparr>"] Cons.prems(1) False
        by (auto simp: notify_key_def Let_def split: prod.splits)
    next
      case n: False
      then have "?rs = np_reqs n" by (auto intro!: filter_True)
      then show ?thesis using that [of st _ n] Cons.prems(1) n by (auto split: prod.splits)
    qed
    from Cons.IH [OF r(1) d(1,2)] obtain gone where g: "notify_key ` set ns1 = notify_key ` set ns - gone" "requested s = requested st - gone"
      "gone \<subseteq> notify_key ` set ns" "distinct (map notify_key ns1)" "\<forall>n \<in> set ns1. entry_ok n \<and> (\<forall>r \<in> set (np_reqs n). req_rpc r \<noteq> rpc)"
      using r(3) by auto
    have "entry_ok m" using d(4) r(5,6) False by (simp add: entry_ok_def distinct_map_filter)
    then show ?thesis using g d(3) r(2,4,5) by (intro exI [of _ gone]) auto
  qed
qed

lemma ends_ok:
  assumes i: "notify_ok st"
  shows "notify_ok (ports_remove_notified_rpc rpc st)"
    "n \<in> set (ports_notifications (ports_remove_notified_rpc rpc st)) \<Longrightarrow> r \<in> set (np_reqs n) \<Longrightarrow> req_rpc r \<noteq> rpc"
proof -
  obtain ns s where r: "remove_reqs rpc (ports_notifications st) st = (ns, s)" by fastforce
  note j = i [unfolded notify_ok_entries]
  from remove_reqs_ok [OF r] j obtain gone where g: "notify_key ` set ns = notify_key ` set (ports_notifications st) - gone"
    "requested s = requested st - gone" "distinct (map notify_key ns)" "\<forall>n \<in> set ns. entry_ok n \<and> (\<forall>r \<in> set (np_reqs n). req_rpc r \<noteq> rpc)" by auto
  then show "notify_ok (ports_remove_notified_rpc rpc st)" using j r by (auto simp: ports_remove_notified_rpc_def notify_ok_entries)
  show "n \<in> set (ports_notifications (ports_remove_notified_rpc rpc st)) \<Longrightarrow> r \<in> set (np_reqs n) \<Longrightarrow> req_rpc r \<noteq> rpc"
    using g(4) r by (auto simp: ports_remove_notified_rpc_def)
qed

lemma end_notified_ok:
  assumes i: "notify_ok st"
  shows "notify_ok (end_rpc_notified rpc st)"
    "n \<in> set (ports_notifications (end_rpc_notified rpc st)) \<Longrightarrow> r \<in> set (np_reqs n) \<Longrightarrow> req_rpc r \<noteq> rpc"
  using ends_ok(1) [OF i, of rpc] ends_ok(2) [OF i, of n rpc r] by (simp_all add: end_rpc_notified_def notify_ok_def Let_def)

lemma notify_reach_ok: "notify_reach st \<Longrightarrow> notify_ok st"
proof (induction rule: notify_reach.induct)
  case (quiet st)
  then show ?case by (simp add: notify_ok_def)
next
  case (goes_on st s)
  from goes_on(2,3) show ?case
  proof (cases rule: notify_step.cases)
    case (other ps)
    then show ?thesis using goes_on(3) by (simp add: notify_ok_def)
  qed (auto intro: asks_ok happens_ok end_notified_ok)
qed

section \<open>Notifications\<close>

text \<open>The threads that wait for an event.\<close>

definition waiting :: "mach_port \<Rightarrow> int \<Rightarrow> notify_state \<Rightarrow> nat list" where
  "waiting port what st =
     (case find (notify_for port what) (ports_notifications st) of
        None \<Rightarrow> [] | Some n \<Rightarrow> map (\<lambda>r. rpc_thread (req_rpc r)) (filter (\<lambda>r. req_pending r \<noteq> 0) (np_reqs n)))"

lemma fire_reqs_cancels:
  "cancelled (snd (fire_reqs rs st)) = rev (map (\<lambda>r. rpc_thread (req_rpc r)) (filter (\<lambda>r. req_pending r \<noteq> 0) rs)) @ cancelled st"
  by (induction rs st rule: fire_reqs.induct) (auto simp: hurd_thread_cancel_def split: prod.splits)

lemma notified_cancels: "cancelled (nports (ports_interrupt_notified_rpcs port what st)) = rev (waiting port what st) @ cancelled (nports st)"
  using fire_reqs_cancels by (auto simp: ports_interrupt_notified_rpcs_def waiting_def split: option.splits prod.splits) (metis snd_conv)

section \<open>An example\<close>

text \<open>Thread 4 asks to be interrupted when the port 5 dies, the port dies, then thread 2 asks for the same, and the RPC of thread 4 ends.\<close>

definition ex_rpc_of :: "nat \<Rightarrow> rpc_info" where
  "ex_rpc_of t = \<lparr>rpc_thread = t, rpc_port = 0, rpc_msg = 7\<rparr>"

definition ex_notify :: "(nat \<times> nat) list \<Rightarrow> ports_notify" where
  "ex_notify rs = \<lparr>np_port = 5, np_what = MACH_NOTIFY_DEAD_NAME, np_pending = True, np_reqs = map (\<lambda>(t, k). \<lparr>req_rpc = ex_rpc_of t, req_pending = k\<rparr>) rs\<rparr>"

definition ex_notifies :: "ports \<Rightarrow> (nat \<times> nat) list \<Rightarrow> nat \<Rightarrow> (mach_port \<times> int) set \<Rightarrow> notify_state" where
  "ex_notifies ps rs k q = \<lparr>nports = ps, ports_notifications = (if rs = [] then [] else [ex_notify rs]), free_ports_notifies = 0, free_rpc_notifies = k, requested = q\<rparr>"

lemmas ex_notify_defs = ex_notifies_def ex_notify_def ex_rpc_of_def notify_for_def hurd_thread_cancel_def

lemma ex_asked: "notify_reach (ex_notifies ps [(4, 1)] 0 {(5, 72)})"
proof -
  have "ports_interrupt_rpc_on_notification (ex_rpc_of 4) 5 72 Success (ex_notifies ps [] 0 {}) [] = (Success, ex_notifies ps [(4, 1)] 0 {(5, 72)}, [])"
    by (simp add: ports_interrupt_rpc_on_notification_def MACH_PORT_VALID_def take_rpc_notify_def take_ports_notify_def join_notify_def add_req_def
        alloc_def ex_notify_defs Let_def)
  from goes_on [OF quiet asks [OF this]] show ?thesis by (simp add: ex_notifies_def)
qed

section \<open>Properties\<close>

text \<open>
  C28. Interruption by notifications. In every run there is at most one entry for a port and an event, it has requests, one for each RPC, and
  the kernel has been asked for nothing without an entry. A notification cancels exactly the threads whose requests are pending there, once
  each. When an RPC ends none of its requests remains.
\<close>

theorem ports_notifications_consistent:
  assumes "notify_reach st"
  shows "notify_ok st \<and>
    cancelled (nports (ports_interrupt_notified_rpcs port what st)) = rev (waiting port what st) @ cancelled (nports st) \<and>
    notify_ok (end_rpc_notified rpc st) \<and>
    (\<forall>n \<in> set (ports_notifications (end_rpc_notified rpc st)). rpc \<notin> req_rpc ` set (np_reqs n))"
proof -
  note i = notify_reach_ok [OF assms]
  show ?thesis using i end_notified_ok(1) [OF i] end_notified_ok(2) [OF i] notified_cancels by auto
qed

theorem ports_notifications_consistent_witness:
  "cancelled (nports (ports_interrupt_notified_rpcs 5 72 (ex_notifies ex_start [(4, 1)] 0 {(5, 72)}))) = [4]"
  using ports_notifications_consistent [OF ex_asked [of ex_start], of 5 72]
  by (simp add: waiting_def ex_notifies_def ex_notify_def notify_for_def ex_rpc_of_def) (simp add: ex_start_def)










end
