(* ===== verification/Ports_Manage.thy ===== *)
theory Ports_Manage
  imports Ports_Notify Ports_System
begin

text \<open>
  The rest of \<^verbatim>\<open>libports\<close>: classes and buckets (\<^verbatim>\<open>create-class.c\<close>, \<^verbatim>\<open>create-bucket.c\<close>), calls of a function for all ports
  (\<^verbatim>\<open>bucket-iterate.c\<close>, \<^verbatim>\<open>class-iterate.c\<close>), interruption by clients (\<^verbatim>\<open>interrupt-operation.c\<close>), and the handling of messages with one or many
  threads (\<^verbatim>\<open>manage-one-thread.c\<close>, \<^verbatim>\<open>manage-multithread.c\<close>). The routines of servers are parameters; a locale states what the library relies on.
\<close>

section \<open>Classes and buckets\<close>

definition ports_create_class :: "bool \<Rightarrow> ports \<Rightarrow> allocs \<Rightarrow> nat option \<times> ports \<times> allocs" where
  "ports_create_class dropweak st orc =
     (case alloc orc of
        (None, o1) \<Rightarrow> (None, st, o1)
      | (Some j, o1) \<Rightarrow>
          (Some (unat j), set_class (unat j) \<lparr>cflags = {}, crpcs = 0, ccount = 0, has_dropweak = dropweak, uninhibitable_rpcs = [(33000, 33001)]\<rparr> st, o1))"

text \<open>\<open>portset\<close> is the name of the port set or the kernel's error, \<open>notify_class\<close> the class of the ports that receive notifications.\<close>

definition ports_create_bucket ::
  "nat \<Rightarrow> error_t + mach_port \<Rightarrow> error_t + mach_port \<Rightarrow> error_t \<Rightarrow> alloc_waits \<Rightarrow> ports \<Rightarrow> allocs \<Rightarrow> (error_t \<times> nat option \<times> ports \<times> allocs) option" where
  "ports_create_bucket notify_class set_name receive move_err ws st orc =
     (case alloc orc of
        (None, o1) \<Rightarrow> Some (ENOMEM, None, st, o1)
      | (Some j, o1) \<Rightarrow>
          (case set_name of
             Inl err \<Rightarrow> Some (err, None, st, o1)
           | Inr n \<Rightarrow>
               let b = unat j;
                   s = set_bucket b \<lparr>portset = n, htable = [], brpcs = 0, bflags = {}, bcount = 0, threadpool = ports_threadpool_init, notify_port = 0\<rparr> st
               in (case ports_create_port notify_class b receive move_err ws s o1 of
                     None \<Rightarrow> None
                   | Some (err, None, s1, o2) \<Rightarrow> Some (err, None, s1, o2)
                   | Some (err, Some p, s1, o2) \<Rightarrow> Some (Success, Some b, set_bucket b ((buckets s1 b)\<lparr>notify_port := p\<rparr>) s1, o2))))"

section \<open>Iteration\<close>

text \<open>A routine of a server is called with an object; \<open>None\<close> is a failed assertion.\<close>

type_synonym routine = "nat \<Rightarrow> ports \<Rightarrow> (error_t \<times> ports) option"

fun collect_ports :: "nat option \<Rightarrow> port_table \<Rightarrow> ports \<Rightarrow> (nat list \<times> ports) option" where
  "collect_ports c [] st = Some ([], st)"
| "collect_ports c ((n, p) # t) st =
     (if c = None \<or> pclass (infos st p) = the c then
        (case change_refs refcounts_ref p st of None \<Rightarrow> None | Some s \<Rightarrow> map_option (\<lambda>(ps, s'). (p # ps, s')) (collect_ports c t s))
      else collect_ports c t st)"

fun call_ports :: "routine \<Rightarrow> (nat \<Rightarrow> ports \<Rightarrow> ports) \<Rightarrow> nat list \<Rightarrow> error_t \<Rightarrow> ports \<Rightarrow> (error_t \<times> ports) option" where
  "call_ports f dropweak [] err st = Some (err, st)"
| "call_ports f dropweak (p # ps) err st =
     (case (if err = Success \<and> \<not> ports_port_is_notify p st then f p st else Some (err, st)) of
        None \<Rightarrow> None
      | Some (err, s) \<Rightarrow> (case ports_port_deref dropweak p s of None \<Rightarrow> None | Some s' \<Rightarrow> call_ports f dropweak ps err s'))"

definition ports_bucket_class_iterate ::
  "port_table \<Rightarrow> nat option \<Rightarrow> routine \<Rightarrow> (nat \<Rightarrow> ports \<Rightarrow> ports) \<Rightarrow> ports \<Rightarrow> allocs \<Rightarrow> (error_t \<times> ports \<times> allocs) option" where
  "ports_bucket_class_iterate ht c f dropweak st orc =
     (if ht = [] then Some (Success, st, orc)
      else
        (case alloc orc of
           (None, o1) \<Rightarrow> Some (ENOMEM, st, o1)
         | (Some _, o1) \<Rightarrow>
             (case collect_ports c ht st of
                None \<Rightarrow> None
              | Some (ps, s) \<Rightarrow> map_option (\<lambda>(e, s'). (e, s', o1)) (call_ports f dropweak ps Success s))))"

definition ports_bucket_iterate :: "nat \<Rightarrow> routine \<Rightarrow> (nat \<Rightarrow> ports \<Rightarrow> ports) \<Rightarrow> ports \<Rightarrow> allocs \<Rightarrow> (error_t \<times> ports \<times> allocs) option" where
  "ports_bucket_iterate b f dropweak st orc = ports_bucket_class_iterate (htable (buckets st b)) None f dropweak st orc"

definition ports_class_iterate :: "nat \<Rightarrow> routine \<Rightarrow> (nat \<Rightarrow> ports \<Rightarrow> ports) \<Rightarrow> ports \<Rightarrow> allocs \<Rightarrow> (error_t \<times> ports \<times> allocs) option" where
  "ports_class_iterate c f dropweak st orc = ports_bucket_class_iterate (ports_htable st) (Some c) f dropweak st orc"

section \<open>Messages\<close>

definition ports_S_interrupt_operation :: "nat \<Rightarrow> u32 \<Rightarrow> nat option \<Rightarrow> ports \<Rightarrow> (error_t \<times> ports) option" where
  "ports_S_interrupt_operation self seqno pi st =
     (case pi of
        None \<Rightarrow> Some (EOPNOTSUPP, st)
      | Some p \<Rightarrow>
          let s = (if cancel_threshold (infos st p) < seqno then set_info p ((infos st p)\<lparr>cancel_threshold := seqno\<rparr>) st else st)
          in Some (Success, ports_interrupt_rpcs p self s))"

datatype target = Payload nat | Name mach_port

record message =
  msgh_id :: int
  msgh_seqno :: u32
  msgh_target :: target

definition find_target :: "nat \<Rightarrow> message \<Rightarrow> ports \<Rightarrow> (nat option \<times> ports) option" where
  "find_target b msg st =
     (case msgh_target msg of
        Payload p \<Rightarrow> ports_lookup_payload (Some b) p None st | Name n \<Rightarrow> ports_lookup_port (Some b) n None st)"

text \<open>The reply is an error of the library, \<open>Inl\<close>, or that of the server. \<open>threshold\<close> is whether the sequence number of the message is tested.\<close>

definition internal_demuxer ::
  "bool \<Rightarrow> nat \<Rightarrow> nat \<Rightarrow> routine \<Rightarrow> (nat \<Rightarrow> ports \<Rightarrow> ports) \<Rightarrow> ports_waits \<Rightarrow> message \<Rightarrow> ports \<Rightarrow> ((error_t + error_t) \<times> ports) option" where
  "internal_demuxer threshold self b demuxer dropweak ws msg st =
     (case find_target b msg st of
        None \<Rightarrow> None
      | Some (None, s) \<Rightarrow> Some (Inl EOPNOTSUPP, s)
      | Some (Some p, s) \<Rightarrow>
          (case ports_begin_rpc p (msgh_id msg) self ws s of
             None \<Rightarrow> None
           | Some (err, s1) \<Rightarrow>
               (case (if err \<noteq> Success then Some (Inl err, s1)
                      else
                        let s2 = (if threshold \<and> msgh_seqno msg < cancel_threshold (infos s1 p) then hurd_thread_cancel self s1 else s1)
                        in map_option (\<lambda>(e, s3). (Inr e, ports_end_rpc \<lparr>rpc_thread = self, rpc_port = p, rpc_msg = msgh_id msg\<rparr> s3)) (demuxer p s2)) of
                  None \<Rightarrow> None
                | Some (r, s4) \<Rightarrow> map_option (\<lambda>s5. (r, s5)) (ports_port_deref dropweak p s4))))"

text \<open>After a message the thread, of the given color in the pool of the bucket, is quiescent; objects that are released lose a reference.\<close>

fun deref_all :: "(nat \<Rightarrow> ports \<Rightarrow> ports) \<Rightarrow> nat list \<Rightarrow> ports \<Rightarrow> ports option" where
  "deref_all dropweak [] st = Some st"
| "deref_all dropweak (p # ps) st = (case ports_port_deref dropweak p st of None \<Rightarrow> None | Some s \<Rightarrow> deref_all dropweak ps s)"

definition bucket_quiescent :: "nat \<Rightarrow> u32 \<Rightarrow> (nat \<Rightarrow> ports \<Rightarrow> ports) \<Rightarrow> ports \<Rightarrow> (u32 \<times> ports) option" where
  "bucket_quiescent b color dropweak st =
     (case ports_thread_quiescent (threadpool (buckets st b)) color of
        None \<Rightarrow> None
      | Some (tp, c, os) \<Rightarrow> map_option (\<lambda>s. (c, s)) (deref_all dropweak os (set_bucket b ((buckets st b)\<lparr>threadpool := tp\<rparr>) st)))"

definition synchronized_demuxer ::
  "bool \<Rightarrow> nat \<Rightarrow> u32 \<Rightarrow> nat \<Rightarrow> routine \<Rightarrow> (nat \<Rightarrow> ports \<Rightarrow> ports) \<Rightarrow> ports_waits \<Rightarrow> message \<Rightarrow> ports \<Rightarrow> ((error_t + error_t) \<times> u32 \<times> ports) option" where
  "synchronized_demuxer threshold self color b demuxer dropweak ws msg st =
     (case internal_demuxer threshold self b demuxer dropweak ws msg st of
        None \<Rightarrow> None
      | Some (r, s) \<Rightarrow> map_option (\<lambda>(c, s'). (r, c, s')) (bucket_quiescent b color dropweak s))"

section \<open>Threads of a server\<close>

text \<open>
  What a thread of \<^verbatim>\<open>ports_manage_port_operations_multithread\<close> does next: it listens, has got a message, counts itself out, makes a
  new thread, serves, counts itself in; or its wait has timed out, it counts itself out, and goes or listens again. The two counters are changed by
  atomic operations.
\<close>

datatype mt_pc = Listen | Got_Message | Spawn_Total | Spawn_Req | Spawn_Create | Spawn_Failed | Serve | Timed_Out | Startover | Leave | Gone

record mt =
  totalthreads :: nat
  nreqthreads :: nat
  mt_threads :: "mt_pc list"

definition mt_at :: "nat \<Rightarrow> mt_pc \<Rightarrow> mt \<Rightarrow> bool" where
  "mt_at i pc s \<longleftrightarrow> i < length (mt_threads s) \<and> mt_threads s ! i = pc"

definition mt_go :: "nat \<Rightarrow> mt_pc \<Rightarrow> mt \<Rightarrow> mt" where
  "mt_go i pc s = s\<lparr>mt_threads := (mt_threads s)[i := pc]\<rparr>"


text \<open>
  Thread 0 is the main thread, which does not time out; \<open>fails\<close> is whether threads may fail to be created.
\<close>

inductive mt_step :: "bool \<Rightarrow> mt \<Rightarrow> mt \<Rightarrow> bool" for fails where
  receives: "mt_at i Listen s \<Longrightarrow> mt_step fails s (mt_go i Got_Message s)"
| counts_out: "mt_at i Got_Message s \<Longrightarrow>
    mt_step fails s (mt_go i (if nreqthreads s - 1 = 0 then Spawn_Total else Serve) (s\<lparr>nreqthreads := nreqthreads s - 1\<rparr>))"
| spawns_total: "mt_at i Spawn_Total s \<Longrightarrow> mt_step fails s (mt_go i Spawn_Req (s\<lparr>totalthreads := totalthreads s + 1\<rparr>))"
| spawns_req: "mt_at i Spawn_Req s \<Longrightarrow> mt_step fails s (mt_go i Spawn_Create (s\<lparr>nreqthreads := nreqthreads s + 1\<rparr>))"
| creates: "mt_at i Spawn_Create s \<Longrightarrow> mt_step fails s ((mt_go i Serve s)\<lparr>mt_threads := (mt_threads s)[i := Serve] @ [Listen]\<rparr>)"
| fails_total: "fails \<Longrightarrow> mt_at i Spawn_Create s \<Longrightarrow> mt_step fails s (mt_go i Spawn_Failed (s\<lparr>totalthreads := totalthreads s - 1\<rparr>))"
| fails_req: "mt_at i Spawn_Failed s \<Longrightarrow> mt_step fails s (mt_go i Serve (s\<lparr>nreqthreads := nreqthreads s - 1\<rparr>))"
| served: "mt_at i Serve s \<Longrightarrow> mt_step fails s (mt_go i Listen (s\<lparr>nreqthreads := nreqthreads s + 1\<rparr>))"
| times_out: "mt_at i Listen s \<Longrightarrow> 0 < i \<Longrightarrow> mt_step fails s (mt_go i Timed_Out s)"
| leaves: "mt_at i Timed_Out s \<Longrightarrow>
    mt_step fails s (mt_go i (if nreqthreads s - 1 = 0 then Startover else Leave) (s\<lparr>nreqthreads := nreqthreads s - 1\<rparr>))"
| starts_over: "mt_at i Startover s \<Longrightarrow> mt_step fails s (mt_go i Listen (s\<lparr>nreqthreads := nreqthreads s + 1\<rparr>))"
| goes: "mt_at i Leave s \<Longrightarrow> mt_step fails s (mt_go i Gone (s\<lparr>totalthreads := totalthreads s - 1\<rparr>))"

inductive mt_reach :: "bool \<Rightarrow> mt \<Rightarrow> bool" for fails where
  mt_start: "mt_reach fails \<lparr>totalthreads = 1, nreqthreads = 1, mt_threads = [Listen]\<rparr>"
| mt_next: "mt_reach fails s \<Longrightarrow> mt_step fails s s' \<Longrightarrow> mt_reach fails s'"

end
