(* ===== verification/Ports_Manage_Props.thy ===== *)
theory Ports_Manage_Props
  imports Ports_Manage
begin

text \<open>
  Handling messages and calling routines for all ports leaves the references as they were, if the routines of the server do; a server with many
  threads always has one that listens or is about to.
\<close>

section \<open>References held in a list\<close>

definition hold_all :: "nat list \<Rightarrow> (nat \<Rightarrow> nat \<times> nat) \<Rightarrow> nat \<Rightarrow> nat \<times> nat" where
  "hold_all ps tot = foldr (\<lambda>p t. hold True p t) ps tot"

lemma hold_all_simps: "hold_all [] tot = tot" "hold_all (p # ps) tot = hold True p (hold_all ps tot)"
  by (simp_all add: hold_all_def)

lemma hold_all_hold: "hold_all ps (hold True p tot) = hold True p (hold_all ps tot)"
  by (induction ps) (auto simp: fun_eq_iff hold_all_simps)

lemma keeps_trans: "keeps objs tot st s \<Longrightarrow> (\<And>objs'. ports_inv objs' tot s \<Longrightarrow> keeps objs' tot' s s') \<Longrightarrow> keeps objs tot' st s'"
  using drops_trans unfolding keeps_def by blast

lemma deref_keeps:
  assumes i: "ports_inv objs (hold True p tot) st" and d: "ports_port_deref no_dropweak p st = Some s"
  shows "keeps objs tot st s"
  using deref_inv [OF i hold_live [OF i] _ d] by (simp add: keeps_def)

lemma deref_all_keeps: "ports_inv objs (hold_all ps tot) st \<Longrightarrow> deref_all no_dropweak ps st = Some s \<Longrightarrow> keeps objs tot st s"
proof (induction ps arbitrary: objs st)
  case Nil
  then show ?case by (simp add: keepsI hold_all_simps)
next
  case (Cons p ps)
  then obtain s1 where s1: "ports_port_deref no_dropweak p st = Some s1" "deref_all no_dropweak ps s1 = Some s" by (auto split: option.splits)
  have "keeps objs (hold_all ps tot) st s1" by (rule deref_keeps [OF Cons.prems(1) [unfolded hold_all_simps] s1(1)])
  then show ?case by (rule keeps_trans) (rule Cons.IH [OF _ s1(2)])
qed

lemma ref_inv: "ports_inv objs tot st \<Longrightarrow> p \<in> objs \<Longrightarrow> change_refs refcounts_ref p st = Some s \<Longrightarrow> ports_inv objs (hold True p tot) s \<and> freed s = freed st"
  using take_inv [of objs tot st p Ref s "(1, 0)"] by (simp add: ref_apply_ops)

lemma collect_inv:
  "ports_inv objs tot st \<Longrightarrow> snd ` set t \<subseteq> objs \<Longrightarrow> collect_ports c t st = Some (ps, s) \<Longrightarrow> ports_inv objs (hold_all ps tot) s \<and> freed s = freed st"
proof (induction c t st arbitrary: tot ps rule: collect_ports.induct)
  case (1 c st)
  then show ?case by (simp add: hold_all_simps)
next
  case (2 c n p t st)
  show ?case
  proof (cases "c = None \<or> pclass (infos st p) = the c")
    case True
    then obtain s1 ps' where s1: "change_refs refcounts_ref p st = Some s1" "collect_ports c t s1 = Some (ps', s)" "ps = p # ps'"
      using "2.prems"(3) by (auto split: option.splits)
    have a: "ports_inv objs (hold True p tot) s1" "freed s1 = freed st" using ref_inv [OF "2.prems"(1) _ s1(1)] "2.prems"(2) by auto
    have "ports_inv objs (hold_all ps' (hold True p tot)) s \<and> freed s = freed s1"
      by (rule "2.IH"(1) [OF True s1(1) a(1) _ s1(2)]) (use "2.prems"(2) in auto)
    then show ?thesis unfolding hold_all_hold s1(3) hold_all_simps a(2) .
  next
    case False
    then have "collect_ports c t st = Some (ps, s)" using "2.prems"(3) by (simp only: collect_ports.simps if_False)
    then show ?thesis using "2.IH"(2) [OF False "2.prems"(1)] "2.prems"(2) by simp
  qed
qed

section \<open>Steps that leave the references alone\<close>

definition same_refs :: "ports \<Rightarrow> ports \<Rightarrow> bool" where
  "same_refs st s \<longleftrightarrow> ports_htable s = ports_htable st \<and> freed s = freed st \<and>
     (\<forall>q. refs_of s q = refs_of st q \<and> has_srights q s = has_srights q st \<and> port_right (infos s q) = port_right (infos st q))"

lemma same_refs_inv: "same_refs st s \<Longrightarrow> ports_inv objs tot st \<Longrightarrow> ports_inv objs tot s"
  by (rule ports_inv_cong, assumption) (auto simp: same_refs_def intro: table_ok_same dest: ports_invD(4))

lemma same_refs_trans [trans]: "same_refs a b \<Longrightarrow> same_refs b c \<Longrightarrow> same_refs a c"
  by (simp add: same_refs_def)

lemma same_refs_refl [simp]: "same_refs st st"
  by (simp add: same_refs_def)

lemma same_refs_infos: "infos s = infos st \<Longrightarrow> ports_htable s = ports_htable st \<Longrightarrow> freed s = freed st \<Longrightarrow> same_refs st s"
  by (simp add: same_refs_def refs_of_def has_srights_def)

lemma interrupt_same: "same_refs st (ports_interrupt_rpcs p self st)"
  by (rule same_refs_infos) (simp_all add: interrupt_keeps)

lemma end_rpc_same: "same_refs st (ports_end_rpc r st)"
  by (rule same_refs_infos) (simp_all add: ports_end_rpc_def forget_rpc_def ports_self_interrupted_def Let_def)

lemma thread_cancel_same: "same_refs st (hurd_thread_cancel t st)"
  by (rule same_refs_infos) (simp_all add: hurd_thread_cancel_def)

lemma set_scope_same: "same_refs st (set_scope_flags sc (insert BLOCKED (scope_flags sc st)) st)"
  by (cases sc) (auto simp: same_refs_def refs_of_def has_srights_def set_scope_flags_def scope_flags_def)

lemma begin_pass_same: "same_refs st (snd (begin_pass p msg self st))"
proof -
  have "same_refs st (record_rpc r st)" for r by (rule same_refs_infos) (simp_all add: record_rpc_def Let_def)
  then show ?thesis using set_scope_same by (simp add: begin_pass_def split: option.split)
qed

lemma same_keeps: "same_refs st s \<Longrightarrow> ports_inv objs tot st \<Longrightarrow> keeps objs tot st s"
  by (rule keepsI) (auto intro: same_refs_inv simp: same_refs_def)

text \<open>What others do while a thread waits keeps the references of everybody else.\<close>

definition waits_keep :: "ports_waits \<Rightarrow> bool" where
  "waits_keep ws \<longleftrightarrow> (\<forall>f objs tot st. Some f \<in> set ws \<longrightarrow> ports_inv objs tot st \<longrightarrow> keeps objs tot st (f st))"

lemma begin_rpc_keeps:
  "waits_keep ws \<Longrightarrow> ports_inv objs tot st \<Longrightarrow> ports_begin_rpc p msg self ws st = Some (err, s) \<Longrightarrow> keeps objs tot st s"
proof (induction p msg self ws st arbitrary: objs rule: ports_begin_rpc.induct)
  case (1 p msg self ws st)
  obtain r st1 where b: "begin_pass p msg self st = (r, st1)" by fastforce
  have k: "keeps objs tot st st1" using same_keeps [OF begin_pass_same [of st p msg self] "1.prems"(2)] b by simp
  consider "s = st1" | f ws' where "r = Wait" "ws = Some f # ws'" "ports_begin_rpc p msg self ws' (f st1) = Some (err, s)"
    using "1.prems"(3) b by (auto simp: ports_begin_rpc.simps [of p msg self ws] split: pass.splits list.splits option.splits)
  then show ?case
  proof cases
    case 2
    have w: "waits_keep ws'" "\<And>objs tot st. ports_inv objs tot st \<Longrightarrow> keeps objs tot st (f st)"
      using "1.prems"(1) by (auto simp: waits_keep_def 2(2))
    have "keeps objs tot st (f st1)" by (rule keeps_trans [OF k w(2)])
    then show ?thesis by (rule keeps_trans) (rule "1.IH" [OF b [symmetric] 2(1,2) refl w(1) _ 2(3)])
  qed (use k in simp)
qed

section \<open>Routines\<close>

text \<open>What the library relies on: a routine drops no reference but those it has taken.\<close>

locale ports_routine =
  fixes f :: routine
  assumes routine_keeps: "ports_inv objs tot st \<Longrightarrow> p \<in> objs \<Longrightarrow> f p st = Some (e, s) \<Longrightarrow> keeps objs tot st s"
begin

lemma call_ports_keeps:
  "ports_inv objs (hold_all ps tot) st \<Longrightarrow> call_ports f no_dropweak ps err st = Some (e, s) \<Longrightarrow> keeps objs tot st s"
proof (induction ps arbitrary: objs err st)
  case Nil
  then show ?case by (simp add: keepsI hold_all_simps)
next
  case (Cons p ps)
  note i = Cons.prems(1) [unfolded hold_all_simps]
  obtain err1 s1 s2 where s: "(if err = Success \<and> \<not> ports_port_is_notify p st then f p st else Some (err, st)) = Some (err1, s1)"
    "ports_port_deref no_dropweak p s1 = Some s2" "call_ports f no_dropweak ps err1 s2 = Some (e, s)"
    using Cons.prems(2) by (auto split: option.splits)
  have "keeps objs (hold True p (hold_all ps tot)) st s1"
  proof (cases "err = Success \<and> \<not> ports_port_is_notify p st")
    case True
    then have "f p st = Some (err1, s1)" using s(1) by simp
    then show ?thesis by (rule routine_keeps [OF i hold_live [OF i]])
  next
    case False
    then have "s1 = st" using s(1) by (simp only: if_False option.inject prod.inject)
    show ?thesis unfolding \<open>s1 = st\<close> by (rule keepsI [OF i refl])
  qed
  then have "keeps objs (hold_all ps tot) st s2" by (rule keeps_trans) (rule deref_keeps [OF _ s(2)])
  then show ?case by (rule keeps_trans) (rule Cons.IH [OF _ s(3)])
qed

lemma iterate_keeps:
  assumes i: "ports_inv objs tot st" and t: "snd ` set ht \<subseteq> objs" and r: "ports_bucket_class_iterate ht c f no_dropweak st orc = Some (e, s, o1)"
  shows "keeps objs tot st s"
proof (cases "s = st")
  case True
  then show ?thesis using keepsI [OF i] by simp
next
  case False
  then obtain ps s1 where s: "collect_ports c ht st = Some (ps, s1)" "call_ports f no_dropweak ps Success s1 = Some (e, s)"
    using r by (auto simp: ports_bucket_class_iterate_def split: if_splits option.splits prod.splits)
  note a = collect_inv [OF i t s(1)]
  show ?thesis by (rule keeps_from [OF call_ports_keeps [OF conjunct1 [OF a] s(2)] conjunct2 [OF a]])
qed

lemma demux_keeps:
  assumes i: "ports_inv objs tot st" and w: "waits_keep ws" and m: "\<And>p. msgh_target msg = Payload p \<Longrightarrow> p \<in> objs"
    and r: "internal_demuxer threshold self b f no_dropweak ws msg st = Some (reply, s)"
  shows "keeps objs tot st s"
proof -
  obtain x s0 where t: "find_target b msg st = Some (x, s0)" using r by (auto simp: internal_demuxer_def split: option.splits)
  have a: "ports_inv objs (hold_found x tot) s0" "freed s0 = freed st"
    using t lookup_inv [OF i] lookup_payload_inv [OF i m] by (auto simp: find_target_def split: target.splits)
  show ?thesis
  proof (cases x)
    case None
    then show ?thesis using a keepsI r t by (auto simp: internal_demuxer_def hold_found_def)
  next
    case (Some p)
    then obtain err s1 s4 where s: "ports_begin_rpc p (msgh_id msg) self ws s0 = Some (err, s1)" "ports_port_deref no_dropweak p s4 = Some s"
      "s4 = s1 \<or> (\<exists>s2 e s3 r. (s2 = s1 \<or> s2 = hurd_thread_cancel self s1) \<and> f p s2 = Some (e, s3) \<and> s4 = ports_end_rpc r s3)"
      using r t by (simp add: internal_demuxer_def Let_def split: option.splits if_splits prod.splits) (blast | metis)+
    have h: "ports_inv objs (hold True p tot) s0" using a(1) by (simp add: Some hold_found_def)
    have k: "keeps objs (hold True p tot) s0 s1" by (rule begin_rpc_keeps [OF w h s(1)])
    have "keeps objs' (hold True p tot) s1 s4" if j: "ports_inv objs' (hold True p tot) s1" for objs'
    proof (cases "s4 = s1")
      case True
      then show ?thesis using keepsI [OF j] by simp
    next
      case False
      then obtain s2 e s3 where u: "same_refs s1 s2" "f p s2 = Some (e, s3)" "same_refs s3 s4" using s(3) end_rpc_same thread_cancel_same same_refs_refl by metis
      note j2 = same_refs_inv [OF u(1) j]
      have "keeps objs' (hold True p tot) s2 s3" by (rule routine_keeps [OF j2 hold_live [OF j2] u(2)])
      then have "keeps objs' (hold True p tot) s2 s4" by (rule keeps_trans) (rule same_keeps [OF u(3)])
      then show ?thesis by (rule keeps_from) (use u(1) in \<open>simp add: same_refs_def\<close>)
    qed
    then have "keeps objs (hold True p tot) s0 s4" by (rule keeps_trans [OF k])
    then have "keeps objs tot s0 s" by (rule keeps_trans) (rule deref_keeps [OF _ s(2)])
    then show ?thesis using a(2) by (rule keeps_from)
  qed
qed

end

interpretation interrupt: ports_routine "\<lambda>p. ports_S_interrupt_operation self seqno (Some p)"
proof
  fix objs tot st p e s
  assume i: "ports_inv objs tot st" and r: "ports_S_interrupt_operation self seqno (Some p) st = Some (e, s)"
  let ?s = "if cancel_threshold (infos st p) < seqno then set_info p ((infos st p)\<lparr>cancel_threshold := seqno\<rparr>) st else st"
  have "same_refs st ?s" by (simp add: same_refs_def refs_of_def has_srights_def set_info_def)
  moreover have "s = ports_interrupt_rpcs p self ?s" using r by (simp add: ports_S_interrupt_operation_def Let_def)
  then have "same_refs ?s s" by (simp only: interrupt_same)
  ultimately show "keeps objs tot st s" using same_keeps [OF same_refs_trans i] by blast
qed

interpretation get_right: ports_routine "\<lambda>p st. map_option (\<lambda>(n, s). (Success, s)) (ports_get_right err p st)"
  by unfold_locales (auto intro: get_right_inv)

section \<open>Threads\<close>

text \<open>Whether a thread is counted among those that listen, and how many threads it is counted as.\<close>

fun req_weight :: "mt_pc \<Rightarrow> nat" where
  "req_weight pc = (if pc \<in> {Listen, Got_Message, Spawn_Create, Spawn_Failed, Timed_Out} then 1 else 0)"

fun total_weight :: "mt_pc \<Rightarrow> nat" where
  "total_weight pc = (if pc \<in> {Spawn_Req, Spawn_Create} then 2 else if pc = Gone then 0 else 1)"

definition weight :: "(mt_pc \<Rightarrow> nat) \<Rightarrow> mt \<Rightarrow> nat" where
  "weight w s = sum_list (map w (mt_threads s))"

lemma weight_go:
  assumes "mt_at i pc s"
  shows "weight w (mt_go i pc' s) + w pc = weight w s + w pc'"
proof -
  have "i < length (mt_threads s)" "w (mt_threads s ! i) = w pc" using assms by (simp_all add: mt_at_def)
  moreover from this(1) have "w (mt_threads s ! i) \<le> sum_list (map w (mt_threads s))" using elem_le_sum_list [of i "map w (mt_threads s)"] by simp
  ultimately show ?thesis using sum_list_update [of i "map w (mt_threads s)" "w pc'"] by (simp add: weight_def mt_go_def map_update)
qed

lemma weight_pos:
  assumes "weight w s \<noteq> 0"
  obtains pc where "pc \<in> set (mt_threads s)" "w pc \<noteq> 0"
proof -
  have "\<exists>pc \<in> set pcs. w pc \<noteq> 0" if "sum_list (map w pcs) \<noteq> 0" for pcs :: "mt_pc list" using that by (induction pcs) auto
  then show ?thesis using assms that unfolding weight_def by blast
qed

lemma weight_at: "mt_at i pc s \<Longrightarrow> w pc \<le> weight w s"
  using elem_le_sum_list [of i "map w (mt_threads s)"] by (auto simp: mt_at_def weight_def)

definition mt_inv :: "mt \<Rightarrow> bool" where
  "mt_inv s \<longleftrightarrow> nreqthreads s = weight req_weight s \<and> totalthreads s = weight total_weight s"

lemma mt_move_inv:
  assumes i: "mt_inv s" and a: "mt_at i pc s" and t: "mt_threads s' = (mt_threads s)[i := pc'] @ xs"
    and n: "req_weight pc \<le> nreqthreads s \<Longrightarrow> nreqthreads s' + req_weight pc = nreqthreads s + req_weight pc' + sum_list (map req_weight xs)"
    and m: "total_weight pc \<le> totalthreads s \<Longrightarrow> totalthreads s' + total_weight pc = totalthreads s + total_weight pc' + sum_list (map total_weight xs)"
  shows "mt_inv s'"
proof -
  have w: "weight w s' + w pc = weight w s + w pc' + sum_list (map w xs)" for w
    using weight_go [OF a, of w pc'] by (simp add: weight_def mt_go_def t)
  have "req_weight pc \<le> nreqthreads s" "total_weight pc \<le> totalthreads s" using weight_at [OF a] i by (simp_all add: mt_inv_def del: req_weight.simps total_weight.simps)
  with n m show ?thesis using i w [of req_weight] w [of total_weight] by (simp add: mt_inv_def del: req_weight.simps total_weight.simps)
qed

lemma mt_go_inv:
  assumes "mt_at i pc s" "mt_inv s" "mt_threads u = mt_threads s"
    and "req_weight pc \<le> nreqthreads s \<Longrightarrow> nreqthreads u + req_weight pc = nreqthreads s + req_weight pc'"
    and "total_weight pc \<le> totalthreads s \<Longrightarrow> totalthreads u + total_weight pc = totalthreads s + total_weight pc'"
  shows "mt_inv (mt_go i pc' u)"
  by (rule mt_move_inv [OF assms(2,1), of _ pc' "[]"]) (use assms(3-) in \<open>simp_all add: mt_go_def del: req_weight.simps total_weight.simps\<close>)

lemma mt_step_inv: "mt_step fails s s' \<Longrightarrow> mt_inv s \<Longrightarrow> mt_inv s'"
proof (induction rule: mt_step.induct)
  case (creates i s)
  show ?case by (rule mt_move_inv [OF creates(2,1), of _ Serve "[Listen]"]) (simp_all add: mt_go_def)
next
  case (times_out i s)
  show ?case by (rule mt_go_inv [OF times_out(1,3)]) simp_all
next
  case (fails_total i s)
  show ?case by (rule mt_go_inv [OF fails_total(2,3)]) simp_all
qed (erule (1) mt_go_inv; simp)+

text \<open>While threads can be created, some thread is about to listen when none does.\<close>

lemma mt_at_go: "mt_at j pc (mt_go i pc' s) \<longleftrightarrow> (if j = i \<and> i < length (mt_threads s) then pc = pc' else mt_at j pc s)"
  by (auto simp: mt_at_def mt_go_def)

definition about_to_listen :: "mt \<Rightarrow> bool" where
  "about_to_listen s \<longleftrightarrow> Spawn_Failed \<notin> set (mt_threads s) \<and>
     (nreqthreads s = 0 \<longrightarrow> set (mt_threads s) \<inter> {Spawn_Total, Spawn_Req, Startover} \<noteq> {})"

lemma update_keeps:
  assumes "x \<in> set xs" "xs ! i \<noteq> x" "i < length xs"
  shows "x \<in> set (xs[i := y])"
proof -
  obtain j where j: "j < length xs" "xs ! j = x" using assms(1) by (auto simp: in_set_conv_nth)
  then have "j \<noteq> i" using assms(2) by auto
  then show ?thesis using j by (auto simp: in_set_conv_nth intro!: exI [of _ j])
qed

lemma about_go:
  assumes "mt_at i pc s" "about_to_listen s" "mt_threads s' = (mt_threads s)[i := pc'] @ xs" "pc' \<noteq> Spawn_Failed" "Spawn_Failed \<notin> set xs"
    and "nreqthreads s' = 0 \<Longrightarrow> pc' \<in> {Spawn_Total, Spawn_Req, Startover} \<or> nreqthreads s = 0 \<and> pc \<notin> {Spawn_Total, Spawn_Req, Startover}"
  shows "about_to_listen s'"
proof -
  have i: "i < length (mt_threads s)" "mt_threads s ! i = pc" using assms(1) by (simp_all add: mt_at_def)
  have "set ((mt_threads s)[i := pc']) \<subseteq> insert pc' (set (mt_threads s))" by (rule set_update_subset_insert)
  then have "Spawn_Failed \<notin> set (mt_threads s')" using assms(2-5) by (auto simp: about_to_listen_def)
  moreover have "set (mt_threads s') \<inter> {Spawn_Total, Spawn_Req, Startover} \<noteq> {}" if n: "nreqthreads s' = 0"
  proof (cases "pc' \<in> {Spawn_Total, Spawn_Req, Startover}")
    case True
    then show ?thesis using set_update_memI [OF i(1), of pc'] assms(3) by auto
  next
    case False
    then have z: "nreqthreads s = 0" "pc \<notin> {Spawn_Total, Spawn_Req, Startover}" using assms(6) [OF n] by blast+
    then obtain x where x: "x \<in> set (mt_threads s)" "x \<in> {Spawn_Total, Spawn_Req, Startover}" using assms(2) by (auto simp: about_to_listen_def)
    then show ?thesis using update_keeps [OF x(1) _ i(1), of pc'] z(2) i(2) assms(3) by auto
  qed
  ultimately show ?thesis by (simp add: about_to_listen_def)
qed

lemma about_go1:
  assumes "mt_at i pc s" "about_to_listen s" "mt_threads u = mt_threads s" "pc' \<noteq> Spawn_Failed"
    and "nreqthreads u = 0 \<Longrightarrow> pc' \<in> {Spawn_Total, Spawn_Req, Startover} \<or> nreqthreads s = 0 \<and> pc \<notin> {Spawn_Total, Spawn_Req, Startover}"
  shows "about_to_listen (mt_go i pc' u)"
  by (rule about_go [OF assms(1,2), of _ pc' "[]"]) (use assms(3-) in \<open>simp_all add: mt_go_def\<close>)

lemma mt_step_about: "mt_step False s s' \<Longrightarrow> mt_inv s \<Longrightarrow> about_to_listen s \<Longrightarrow> about_to_listen s'"
proof (induction rule: mt_step.induct)
  case (creates i s)
  then have "0 < nreqthreads s" using weight_at [OF creates(1), of req_weight] by (simp add: mt_inv_def)
  then show ?case by (intro about_go [OF creates(1,3), of _ Serve "[Listen]"]) (simp_all add: mt_go_def)
next
  case (times_out i s)
  show ?case by (rule about_go1 [OF times_out(1,4)]) simp_all
next
  case (fails_req i s)
  then have "Spawn_Failed \<in> set (mt_threads s)" using nth_mem [of i "mt_threads s"] by (simp add: mt_at_def)
  then show ?case using fails_req(3) by (simp add: about_to_listen_def)
next
  case (fails_total i s)
  then show ?case by simp
next
  case (leaves i s)
  show ?case by (rule about_go1 [OF leaves(1,3)]) simp_all
next
  case (counts_out i s)
  show ?case by (rule about_go1 [OF counts_out(1,3)]) simp_all
qed (erule (1) about_go1; simp)+

lemma mt_reach_inv: "mt_reach fails s \<Longrightarrow> mt_inv s"
proof (induction rule: mt_reach.induct)
  case mt_start
  show ?case by (simp add: mt_inv_def weight_def)
qed (rule mt_step_inv)

lemma mt_reach_about: "mt_reach False s \<Longrightarrow> about_to_listen s"
proof (induction rule: mt_reach.induct)
  case mt_start
  show ?case by (simp add: about_to_listen_def)
next
  case (mt_next s s')
  then show ?case using mt_step_about mt_reach_inv by blast
qed

text \<open>Steps in which no thread that serves goes on.\<close>

definition still_serving :: "mt \<Rightarrow> mt \<Rightarrow> bool" where
  "still_serving s s' \<longleftrightarrow> (\<forall>i. mt_at i Serve s \<longrightarrow> mt_at i Serve s')"

inductive mt_wait :: "mt \<Rightarrow> mt \<Rightarrow> bool" where
  wait_done: "mt_wait s s"
| wait_step: "mt_step False s s' \<Longrightarrow> still_serving s s' \<Longrightarrow> mt_wait s' s'' \<Longrightarrow> mt_wait s s''"

definition can_listen :: "mt \<Rightarrow> bool" where
  "can_listen s \<longleftrightarrow> (\<exists>s'. mt_wait s s' \<and> Listen \<in> set (mt_threads s'))"

lemma can_listen_now: "mt_at i Listen s \<Longrightarrow> can_listen s"
  using nth_mem [of i "mt_threads s"] by (auto simp: can_listen_def mt_at_def intro: wait_done)

lemma can_listen_step: "mt_step False s s' \<Longrightarrow> still_serving s s' \<Longrightarrow> can_listen s' \<Longrightarrow> can_listen s"
  unfolding can_listen_def using wait_step by blast

lemma still_go: "mt_at i pc s \<Longrightarrow> pc \<noteq> Serve \<Longrightarrow> mt_threads u = mt_threads s \<Longrightarrow> still_serving s (mt_go i pc' u)"
  by (auto simp: still_serving_def mt_at_def mt_go_def nth_list_update)

lemma create_listens: "mt_at i Spawn_Create s \<Longrightarrow> can_listen s"
proof -
  assume a: "mt_at i Spawn_Create s"
  let ?s = "(mt_go i Serve s)\<lparr>mt_threads := (mt_threads s)[i := Serve] @ [Listen]\<rparr>"
  have "mt_at (length (mt_threads s)) Listen ?s" by (simp add: mt_at_def nth_append)
  moreover have "still_serving s ?s" using a by (auto simp: still_serving_def mt_at_def nth_append nth_list_update)
  ultimately show ?thesis using can_listen_step [OF creates [OF a]] can_listen_now by blast
qed

lemma at_go: "mt_at i pc s \<Longrightarrow> mt_threads u = mt_threads s \<Longrightarrow> mt_at i pc' (mt_go i pc' u)"
  by (simp add: mt_at_def mt_go_def)

lemma can_listen_go:
  assumes "mt_at i pc s" "mt_step False s (mt_go i pc' u)" "pc \<noteq> Serve" "mt_threads u = mt_threads s"
    and "mt_at i pc' (mt_go i pc' u) \<Longrightarrow> can_listen (mt_go i pc' u)"
  shows "can_listen s"
  using can_listen_step [OF assms(2) still_go [OF assms(1,3,4)]] assms(5) at_go [OF assms(1,4)] by blast

lemma req_listens: assumes a: "mt_at i Spawn_Req s" shows "can_listen s"
  by (rule can_listen_go [OF a spawns_req [OF a] _ _ create_listens]) simp_all

lemma total_listens: assumes a: "mt_at i Spawn_Total s" shows "can_listen s"
  by (rule can_listen_go [OF a spawns_total [OF a] _ _ req_listens]) simp_all

lemma startover_listens: assumes a: "mt_at i Startover s" shows "can_listen s"
  by (rule can_listen_go [OF a starts_over [OF a] _ _ can_listen_now]) simp_all

text \<open>The threads that have yet to count themselves out.\<close>

definition leaving :: "mt \<Rightarrow> nat" where
  "leaving s = weight (\<lambda>pc. if pc \<in> {Got_Message, Timed_Out} then 1 else 0) s"

lemma leaving_go:
  "mt_at i pc s \<Longrightarrow> pc \<in> {Got_Message, Timed_Out} \<Longrightarrow> pc' \<notin> {Got_Message, Timed_Out} \<Longrightarrow> mt_threads u = mt_threads s \<Longrightarrow> leaving (mt_go i pc' u) < leaving s"
  using weight_go [of i pc s "\<lambda>pc. if pc \<in> {Got_Message, Timed_Out} then 1 else 0" pc'] by (auto simp: leaving_def weight_def mt_go_def)

lemma listening_thread:
  assumes "mt_reach False s"
  shows "\<exists>i. mt_at i Listen s \<or> mt_at i Spawn_Create s \<or> mt_at i Spawn_Req s \<or> mt_at i Spawn_Total s \<or> mt_at i Startover s \<or>
    mt_at i Got_Message s \<or> mt_at i Timed_Out s"
proof -
  note a = mt_reach_about [OF assms] and i = mt_reach_inv [OF assms]
  have "\<exists>pc \<in> set (mt_threads s). pc \<in> {Listen, Spawn_Create, Spawn_Req, Spawn_Total, Startover, Got_Message, Timed_Out}"
  proof (cases "nreqthreads s = 0")
    case True
    then show ?thesis using a by (auto simp: about_to_listen_def)
  next
    case False
    then have "weight req_weight s \<noteq> 0" using i by (simp add: mt_inv_def)
    then obtain pc where "pc \<in> set (mt_threads s)" "req_weight pc \<noteq> 0" by (rule weight_pos)
    then show ?thesis using a by (auto simp: about_to_listen_def split: if_splits)
  qed
  then show ?thesis by (auto simp: mt_at_def in_set_conv_nth)
qed

lemma reach_can_listen: "mt_reach False s \<Longrightarrow> can_listen s"
proof (induction "leaving s" arbitrary: s rule: less_induct)
  case less
  have out: "can_listen s" if "mt_at i pc s" "pc \<in> {Got_Message, Timed_Out}" "mt_step False s (mt_go i pc' u)" "pc' \<notin> {Got_Message, Timed_Out}"
    "mt_threads u = mt_threads s" for i pc pc' u
    by (rule can_listen_go [OF that(1,3)]) (use that less.hyps [OF leaving_go mt_next [OF less.prems]] in auto)
  obtain i where "mt_at i Listen s \<or> mt_at i Spawn_Create s \<or> mt_at i Spawn_Req s \<or> mt_at i Spawn_Total s \<or> mt_at i Startover s \<or>
    mt_at i Got_Message s \<or> mt_at i Timed_Out s" using listening_thread [OF less.prems] by blast
  moreover have "mt_at i Got_Message s \<Longrightarrow> can_listen s" by (rule out [OF _ _ counts_out]) auto
  moreover have "mt_at i Timed_Out s \<Longrightarrow> can_listen s" by (rule out [OF _ _ leaves]) auto
  ultimately show ?case using can_listen_now create_listens req_listens total_listens startover_listens by blast
qed

section \<open>Properties\<close>

text \<open>The state in which the object 7 has the right 5 and only its senders hold a reference; a message to that port asks to interrupt its RPCs.\<close>

definition ex_message :: message where
  "ex_message = \<lparr>msgh_id = 33000, msgh_seqno = 2, msgh_target = Name 5\<rparr>"

lemma ex_dropped_parts:
  "infos ex_dropped 7 = \<lparr>pclass = 0, refcounts = 1, mscount = 1, cancel_threshold = 0, pflags = {HAS_SENDRIGHTS}, port_right = 5, pbucket = 0\<rparr>"
  "ports_htable ex_dropped = [(5, 7)]" "has_dropweak (classes ex_dropped 0) = False" "cflags (classes ex_dropped 0) = {}"
  "bflags (buckets ex_dropped 0) = {}" "ports_flags ex_dropped = {}" "rpcs ex_dropped = []" "interrupted ex_dropped = []"
  by code_simp+

lemma ex_counts: "refcounts_unsafe_ref 1 = Some 2" "refcounts_deref 2 = Some 1" "hard (refcounts_references 1) = 1"
  by code_simp+

lemmas ex_demux_defs = internal_demuxer_def find_target_def ports_lookup_port_def change_refs_def ports_begin_rpc.simps [of _ _ _ "[]"] begin_pass_def
  block_flags_def inhibited_def scope_flags_def ports_S_interrupt_operation_def ports_port_deref_def dealloc_if_dead_def ex_dropped_parts ex_counts
  ex_message_def Let_def record_rpc_def set_info_def hurd_thread_cancel_def ports_interrupt_rpcs_def ports_end_rpc_def forget_rpc_def
  ports_self_interrupted_def current_rpcs_def ports_record_interruption_def

lemma ex_handled_run:
  "\<exists>s. internal_demuxer True 4 0 (\<lambda>p. ports_S_interrupt_operation 4 2 (Some p)) no_dropweak [] ex_message ex_dropped = Some (Inr Success, s) \<and>
    has_srights 7 s \<and> freed s = freed ex_dropped \<and> cancel_threshold (infos s 7) = 2"
  by (simp add: ex_demux_defs has_srights_def)

text \<open>
  C30. Handling a message leaves the references as they were. In every state that operations on ports reach, no new port having failed to move into its set
  and the dropweak routines doing nothing, when the routine of the server drops
  no reference but those it has taken, then after a message has been handled, whether its port is found or not, the RPC is refused, cancelled or served,
  every count of references is again the number of those that are held; objects are freed only when nobody holds them.
\<close>

theorem ports_demuxer_balanced:
  assumes "port_run es (objs, tot, st)" "set es \<subseteq> {Operation, Creation Success}" "ports_routine f" "waits_keep ws" "\<And>p. msgh_target msg = Payload p \<Longrightarrow> p \<in> objs"
    and "internal_demuxer threshold self b f no_dropweak ws msg st = Some (reply, s)"
  shows "\<exists>objs'. drops objs st s objs' \<and> (\<forall>p. tot p \<noteq> (0, 0) \<longrightarrow> p \<in> objs') \<and>
    (\<forall>p \<in> objs'. refs_of s p = (fst (tot p) + (if has_srights p s then 1 else 0), snd (tot p)) \<and> refs_of s p \<noteq> (0, 0))"
proof -
  have "ports_inv objs tot st" using port_run_inv [OF assms(1,2)] by simp
  from ports_routine.demux_keeps [OF assms(3) this assms(4,5,6)] obtain objs' where "ports_inv objs' tot s" "drops objs st s objs'"
    unfolding keeps_def by blast
  then show ?thesis using inv_refs_of ports_invD(2) held_live by (intro exI [of _ objs']) auto
qed

theorem ports_demuxer_balanced_witness:
  "\<exists>s. internal_demuxer True 4 0 (\<lambda>p. ports_S_interrupt_operation 4 2 (Some p)) no_dropweak [] ex_message ex_dropped = Some (Inr Success, s) \<and>
     refs_of s 7 = (1, 0) \<and> cancel_threshold (infos s 7) = 2"
proof -
  obtain s where s: "internal_demuxer True 4 0 (\<lambda>p. ports_S_interrupt_operation 4 2 (Some p)) no_dropweak [] ex_message ex_dropped = Some (Inr Success, s)"
    "has_srights 7 s" "freed s = freed ex_dropped" "cancel_threshold (infos s 7) = 2" using ex_handled_run by blast
  have "set [Operation, Operation, Creation Success] \<subseteq> {Operation, Creation Success}" by simp
  note run = ex_dropped_run this
  have "waits_keep []" "\<And>p. msgh_target ex_message = Payload p \<Longrightarrow> p \<in> {7}" by (simp_all add: waits_keep_def ex_message_def)
  from ports_demuxer_balanced [OF run interrupt.ports_routine_axioms this s(1)] obtain objs' where
    "drops {7} ex_dropped s objs'" "\<forall>p \<in> objs'. refs_of s p = (if has_srights p s then 1 else 0, 0)" by auto
  then have "refs_of s 7 = (1, 0)" using s(2,3) by (simp add: drops_def)
  then show ?thesis using s by blast
qed

text \<open>Calling such a routine for all ports of a class, until it fails, does so too.\<close>

theorem ports_class_iterate_balanced:
  assumes "port_run es (objs, tot, st)" "set es \<subseteq> {Operation, Creation Success}" "ports_routine f" "ports_class_iterate c f no_dropweak st orc = Some (e, s, o1)"
  shows "keeps objs tot st s"
proof -
  have i: "ports_inv objs tot st" using port_run_inv [OF assms(1,2)] by simp
  have "snd ` set (ports_htable st) \<subseteq> objs" using ports_invD(4) [OF i] unfolding table_ok_def by force
  from ports_routine.iterate_keeps [OF assms(3) i this assms(4) [unfolded ports_class_iterate_def]] show ?thesis .
qed

text \<open>
  C31. Somebody listens. When threads can be created, a server with many threads can always go on to a state in which a thread waits for messages,
  without any thread that serves a request having to finish: whatever the threads were doing, getting messages, timing out, leaving or being
  made. The counters agree with the threads: no thread is counted twice or forgotten.
\<close>

theorem ports_manage_listens:
  assumes "mt_reach False s"
  shows "(\<exists>s'. mt_wait s s' \<and> Listen \<in> set (mt_threads s')) \<and>
    nreqthreads s = sum_list (map req_weight (mt_threads s)) \<and> totalthreads s = sum_list (map total_weight (mt_threads s))"
  using reach_can_listen [OF assms] mt_reach_inv [OF assms] by (simp add: can_listen_def mt_inv_def weight_def)

lemma ex_last_served: "mt_reach False \<lparr>totalthreads = 1, nreqthreads = 0, mt_threads = [Spawn_Total]\<rparr>"
proof -
  have "mt_reach False \<lparr>totalthreads = 1, nreqthreads = 1, mt_threads = [Got_Message]\<rparr>"
    using mt_next [OF mt_start receives [of 0]] by (simp add: mt_at_def mt_go_def)
  from mt_next [OF this counts_out [of 0]] show ?thesis by (simp add: mt_at_def mt_go_def)
qed

theorem ports_manage_listens_witness:
  "\<exists>s'. mt_wait \<lparr>totalthreads = 1, nreqthreads = 0, mt_threads = [Spawn_Total]\<rparr> s' \<and> Listen \<in> set (mt_threads s')"
  using ports_manage_listens [OF ex_last_served] by blast

end
