(* ===== verification/Auth.thy ===== *)
theory Auth
  imports Idvec Ports_Right
begin

text \<open>
  The auth server (\<^verbatim>\<open>auth/auth.c\<close>, \<^verbatim>\<open>auth/mig-decls.h\<close>): handles are port objects with four vectors of ids. \<open>handle\<close> gives
  the vectors of the object at an address, the rest of the object is in the state of \<^verbatim>\<open>libports\<close>. The results of kernel calls
  are arguments; \<open>None\<close> is a failed assertion of \<^verbatim>\<open>libports\<close>.
\<close>

section \<open>Handles\<close>

record authhandle =
  euids :: idvec
  egids :: idvec
  auids :: idvec
  agids :: idvec

record auth =
  aports :: ports
  handle :: "nat \<Rightarrow> authhandle"
  auth_bucket :: nat
  authhandle_portclass :: nat

text \<open>What the kernel answers while a handle is made: the new name, and the results of moving it and of asking for a notification.\<close>

record kernel =
  k_receive :: "error_t + mach_port"
  k_move :: error_t
  k_notify :: error_t
  k_waits :: alloc_waits

definition no_ids :: authhandle where
  "no_ids = \<lparr>euids = idvec_init, egids = idvec_init, auids = idvec_init, agids = idvec_init\<rparr>"

definition create_authhandle :: "kernel \<Rightarrow> auth \<Rightarrow> allocs \<Rightarrow> (error_t \<times> nat option \<times> auth \<times> allocs) option" where
  "create_authhandle k st orc =
     map_option
       (\<lambda>(err, new, ps, o1).
          (err, new, (case new of Some p \<Rightarrow> st\<lparr>aports := ps, handle := (handle st)(p := no_ids)\<rparr> | None \<Rightarrow> st\<lparr>aports := ps\<rparr>), o1))
       (ports_create_port (authhandle_portclass st) (auth_bucket st) (k_receive k) (k_move k) (k_waits k) (aports st) orc)"

definition auth_port_to_handle :: "mach_port \<Rightarrow> auth \<Rightarrow> (nat option \<times> auth) option" where
  "auth_port_to_handle n st =
     map_option (\<lambda>(r, ps). (r, st\<lparr>aports := ps\<rparr>))
       (ports_lookup_port (Some (auth_bucket st)) n (Some (authhandle_portclass st)) (aports st))"

definition auth_payload_to_handle :: "nat \<Rightarrow> auth \<Rightarrow> (nat option \<times> auth) option" where
  "auth_payload_to_handle p st =
     map_option (\<lambda>(r, ps). (r, st\<lparr>aports := ps\<rparr>))
       (ports_lookup_payload (Some (auth_bucket st)) p (Some (authhandle_portclass st)) (aports st))"

text \<open>The class of handles has no routine that drops weak references.\<close>

definition end_using_authhandle :: "nat option \<Rightarrow> auth \<Rightarrow> auth option" where
  "end_using_authhandle a st =
     (case a of None \<Rightarrow> Some st | Some p \<Rightarrow> map_option (\<lambda>ps. st\<lparr>aports := ps\<rparr>) (ports_port_deref (\<lambda>_ s. s) p (aports st)))"

section \<open>Returning ids\<close>

text \<open>
  \<open>buf\<close> is the array of the caller, with the length it announces. The copied size is counted in ids: a pointer is
  \<open>ptr\<close> ids long. \<open>None\<close> is a copy that leaves one of the arrays.
\<close>

definition idvec_copyout :: "nat \<Rightarrow> idvec \<Rightarrow> uid list \<Rightarrow> (uid list \<times> nat) option" where
  "idvec_copyout ptr v buf =
     (if num v > length buf then Some (ids v, num v)
      else if num v \<noteq> 0 then
        (if num v * ptr \<le> length (ids v) \<and> num v * ptr \<le> length buf
         then Some (take (num v * ptr) (ids v) @ drop (num v * ptr) buf, num v) else None)
      else Some (buf, num v))"

record id_arrays =
  a_euids :: "uid list"
  a_egids :: "uid list"
  a_auids :: "uid list"
  a_agids :: "uid list"

definition OUTIDS :: "nat \<Rightarrow> authhandle \<Rightarrow> id_arrays \<Rightarrow> ((uid list \<times> nat) \<times> (uid list \<times> nat) \<times> (uid list \<times> nat) \<times> (uid list \<times> nat)) option" where
  "OUTIDS ptr h out =
     Option.bind (idvec_copyout ptr (euids h) (a_euids out)) (\<lambda>e.
     Option.bind (idvec_copyout ptr (egids h) (a_egids out)) (\<lambda>g.
     Option.bind (idvec_copyout ptr (auids h) (a_auids out)) (\<lambda>a.
     Option.bind (idvec_copyout ptr (agids h) (a_agids out)) (\<lambda>b. Some (e, g, a, b)))))"

definition S_auth_getids ::
  "nat \<Rightarrow> nat option \<Rightarrow> id_arrays \<Rightarrow> auth \<Rightarrow>
   (error_t \<times> ((uid list \<times> nat) \<times> (uid list \<times> nat) \<times> (uid list \<times> nat) \<times> (uid list \<times> nat)) option) option" where
  "S_auth_getids ptr a out st =
     (case a of None \<Rightarrow> Some (EOPNOTSUPP, None) | Some p \<Rightarrow> map_option (\<lambda>r. (Success, Some r)) (OUTIDS ptr (handle st p) out))"

section \<open>Making handles\<close>

definition isuid :: "uid \<Rightarrow> authhandle \<Rightarrow> bool" where
  "isuid u h \<longleftrightarrow> idvec_contains (euids h) u \<or> idvec_contains (auids h) u"

definition groupmember :: "uid \<Rightarrow> authhandle \<Rightarrow> bool" where
  "groupmember g h \<longleftrightarrow> idvec_contains (egids h) g \<or> idvec_contains (agids h) g"

definition isroot :: "authhandle \<Rightarrow> bool" where
  "isroot h \<longleftrightarrow> isuid 0 h"

fun fetch_auths :: "mach_port list \<Rightarrow> auth \<Rightarrow> (nat option list \<times> auth) option" where
  "fetch_auths [] st = Some ([], st)"
| "fetch_auths (n # ns) st =
     (case auth_port_to_handle n st of
        None \<Rightarrow> None
      | Some (r, s) \<Rightarrow> map_option (\<lambda>(rs, s'). (r # rs, s')) (fetch_auths ns s))"

text \<open>The inner loops: some handle of the call satisfies \<open>P\<close>.\<close>

fun some_auth :: "(authhandle \<Rightarrow> bool) \<Rightarrow> nat option list \<Rightarrow> auth \<Rightarrow> bool" where
  "some_auth P [] st = False"
| "some_auth P (a # as) st =
     (case a of None \<Rightarrow> some_auth P as st | Some p \<Rightarrow> if P (handle st p) then True else some_auth P as st)"

fun all_held :: "(uid \<Rightarrow> authhandle \<Rightarrow> bool) \<Rightarrow> uid list \<Rightarrow> nat option list \<Rightarrow> auth \<Rightarrow> bool" where
  "all_held P [] as st = True"
| "all_held P (u # us) as st = (if \<not> some_auth (P u) as st then False else all_held P us as st)"

definition merge_all :: "id_arrays \<Rightarrow> nat \<Rightarrow> auth \<Rightarrow> allocs \<Rightarrow> error_t \<times> auth \<times> allocs" where
  "merge_all req p st orc =
     (let h = handle st p;
          (err, v, o1) = idvec_merge_ids (euids h) (a_euids req) (length (a_euids req)) orc;
          h = h\<lparr>euids := v\<rparr>;
          (err, v, o1) = (if err = Success then idvec_merge_ids (egids h) (a_egids req) (length (a_egids req)) o1 else (err, egids h, o1));
          h = h\<lparr>egids := v\<rparr>;
          (err, v, o1) = (if err = Success then idvec_merge_ids (auids h) (a_auids req) (length (a_auids req)) o1 else (err, auids h, o1));
          h = h\<lparr>auids := v\<rparr>;
          (err, v, o1) = (if err = Success then idvec_merge_ids (agids h) (a_agids req) (length (a_agids req)) o1 else (err, agids h, o1));
          h = h\<lparr>agids := v\<rparr>
      in (err, st\<lparr>handle := (handle st)(p := h)\<rparr>, o1))"

fun deref_auths :: "nat option list \<Rightarrow> auth \<Rightarrow> auth option" where
  "deref_auths [] st = Some st"
| "deref_auths (a # as) st = Option.bind (end_using_authhandle a st) (deref_auths as)"

definition permitted :: "id_arrays \<Rightarrow> nat option list \<Rightarrow> auth \<Rightarrow> bool" where
  "permitted req as st \<longleftrightarrow>
     some_auth isroot as st \<or>
     all_held isuid (a_euids req) as st \<and> all_held isuid (a_auids req) as st \<and>
     all_held groupmember (a_egids req) as st \<and> all_held groupmember (a_agids req) as st"

text \<open>The result is the error, and the new right with the object that has it.\<close>

definition S_auth_makeauth ::
  "kernel \<Rightarrow> nat option \<Rightarrow> mach_port list \<Rightarrow> id_arrays \<Rightarrow> auth \<Rightarrow> allocs \<Rightarrow>
   (error_t \<times> (mach_port \<times> nat) option \<times> auth \<times> allocs) option" where
  "S_auth_makeauth k a authpts req st orc =
     (case a of
        None \<Rightarrow> Some (EOPNOTSUPP, None, st, orc)
      | Some p \<Rightarrow>
          (case fetch_auths authpts st of
             None \<Rightarrow> None
           | Some (rs, s) \<Rightarrow>
               if \<not> permitted req (Some p # rs) s then map_option (\<lambda>s'. (EPERM, None, s', orc)) (deref_auths rs s)
               else
                 (case create_authhandle k s orc of
                    None \<Rightarrow> None
                  | Some (err, None, s1, o1) \<Rightarrow> map_option (\<lambda>s'. (err, None, s', o1)) (deref_auths rs s1)
                  | Some (err, Some q, s1, o1) \<Rightarrow>
                      let (err, s2, o2) = merge_all req q s1 o1
                      in if err \<noteq> Success then map_option (\<lambda>s'. (err, None, s', o2)) (deref_auths rs s2)
                         else
                           (case ports_get_right (k_notify k) q (aports s2) of
                              None \<Rightarrow> None
                            | Some (n, ps) \<Rightarrow>
                                Option.bind (end_using_authhandle (Some q) (s2\<lparr>aports := ps\<rparr>)) (\<lambda>s3.
                                map_option (\<lambda>s'. (Success, Some (n, q), s', o2)) (deref_auths rs s3))))))"

end
