(* ===== verification/Auth_Props.thy ===== *)
theory Auth_Props
  imports Auth Ports_System
begin

text \<open>
  What the auth server promises: a new handle has the ids that were asked for, and nobody gets an id that the presented handles do
  not have, unless one of them is root's.
\<close>

section \<open>Ids of handles\<close>

definition handle_wf :: "authhandle \<Rightarrow> bool" where
  "handle_wf h \<longleftrightarrow> idvec_wf (euids h) \<and> idvec_wf (egids h) \<and> idvec_wf (auids h) \<and> idvec_wf (agids h)"

definition auth_wf :: "auth \<Rightarrow> bool" where
  "auth_wf st \<longleftrightarrow> (\<forall>p. handle_wf (handle st p))"

definition uids_of :: "authhandle \<Rightarrow> uid set" where
  "uids_of h = set (idvec_list (euids h)) \<union> set (idvec_list (auids h))"

definition gids_of :: "authhandle \<Rightarrow> uid set" where
  "gids_of h = set (idvec_list (egids h)) \<union> set (idvec_list (agids h))"

definition request_ok :: "id_arrays \<Rightarrow> bool" where
  "request_ok req \<longleftrightarrow> length (a_euids req) < 2 ^ 31 \<and> length (a_egids req) < 2 ^ 31 \<and> length (a_auids req) < 2 ^ 31 \<and> length (a_agids req) < 2 ^ 31"

definition has_request :: "id_arrays \<Rightarrow> authhandle \<Rightarrow> bool" where
  "has_request req h \<longleftrightarrow>
     idvec_list (euids h) = a_euids req \<and> idvec_list (egids h) = a_egids req \<and>
     idvec_list (auids h) = a_auids req \<and> idvec_list (agids h) = a_agids req"

lemma isuid_iff: "handle_wf h \<Longrightarrow> isuid u h \<longleftrightarrow> u \<in> uids_of h"
  by (simp add: isuid_def uids_of_def handle_wf_def idv.contains_iff)

lemma groupmember_iff: "handle_wf h \<Longrightarrow> groupmember g h \<longleftrightarrow> g \<in> gids_of h"
  by (simp add: groupmember_def gids_of_def handle_wf_def idv.contains_iff)

lemma some_auth_iff: "some_auth P as st \<longleftrightarrow> (\<exists>p. Some p \<in> set as \<and> P (handle st p))"
  by (induction P as st rule: some_auth.induct) (auto split: option.splits)

lemma all_held_iff: "all_held P us as st \<longleftrightarrow> (\<forall>u \<in> set us. \<exists>p. Some p \<in> set as \<and> P u (handle st p))"
  by (induction P us as st rule: all_held.induct) (auto simp: some_auth_iff)

text \<open>The rule of \<^verbatim>\<open>auth_makeauth\<close>, over the handles that are presented.\<close>

definition allowed :: "id_arrays \<Rightarrow> authhandle set \<Rightarrow> bool" where
  "allowed req H \<longleftrightarrow>
     0 \<in> (\<Union>h \<in> H. uids_of h) \<or>
     set (a_euids req) \<union> set (a_auids req) \<subseteq> (\<Union>h \<in> H. uids_of h) \<and> set (a_egids req) \<union> set (a_agids req) \<subseteq> (\<Union>h \<in> H. gids_of h)"

definition presented :: "nat option list \<Rightarrow> auth \<Rightarrow> authhandle set" where
  "presented as st = {handle st p |p. Some p \<in> set as}"

lemma permitted_iff:
  assumes "auth_wf st"
  shows "permitted req as st \<longleftrightarrow> allowed req (presented as st)"
proof -
  have u: "(\<exists>p. Some p \<in> set as \<and> isuid u (handle st p)) \<longleftrightarrow> u \<in> (\<Union>h \<in> presented as st. uids_of h)" for u
    using assms by (auto simp: auth_wf_def isuid_iff presented_def)
  have g: "(\<exists>p. Some p \<in> set as \<and> groupmember u (handle st p)) \<longleftrightarrow> u \<in> (\<Union>h \<in> presented as st. gids_of h)" for u
    using assms by (auto simp: auth_wf_def groupmember_iff presented_def)
  show ?thesis unfolding permitted_def allowed_def some_auth_iff all_held_iff isroot_def u g by blast
qed

section \<open>Steps of a call\<close>

lemma end_using_keeps: "end_using_authhandle a st = Some s \<Longrightarrow> handle s = handle st"
  by (auto simp: end_using_authhandle_def split: option.splits)

lemma deref_auths_keeps: "deref_auths as st = Some s \<Longrightarrow> handle s = handle st"
proof (induction as st rule: deref_auths.induct)
  case (2 a as st)
  then obtain s1 where "end_using_authhandle a st = Some s1" "deref_auths as s1 = Some s" by (auto simp: bind_eq_Some_conv)
  then show ?case using 2(1) end_using_keeps by auto
qed simp

lemma fetch_auths_keeps: "fetch_auths ns st = Some (rs, s) \<Longrightarrow> handle s = handle st"
proof (induction ns arbitrary: st rs)
  case (Cons n ns)
  then obtain r s1 rs' where f: "auth_port_to_handle n st = Some (r, s1)" "fetch_auths ns s1 = Some (rs', s)"
    by (auto split: option.splits)
  have "handle s1 = handle st" using f(1) by (auto simp: auth_port_to_handle_def)
  then show ?case using Cons.IH [OF f(2)] by simp
qed simp

text \<open>The memory of a new object.\<close>

definition new_memory :: "allocs \<Rightarrow> nat option" where
  "new_memory orc = map_option unat (fst (alloc orc))"

lemma create_port_internal_some:
  assumes "ports_create_port_internal c b x r e ws st orc = Some (err, new, s, o1)" "e = Success \<or> x" "r \<noteq> Inl Success"
  shows "(new = None \<longleftrightarrow> err \<noteq> Success) \<and> (new \<noteq> None \<longrightarrow> new = new_memory orc)"
proof (cases r)
  case (Inl e)
  then show ?thesis using assms(1,3) by (simp add: ports_create_port_internal_def)
next
  case (Inr n)
  obtain j o2 where a: "alloc orc = (j, o2)" by fastforce
  show ?thesis
  proof (cases j)
    case None
    then show ?thesis using assms(1) Inr a by (simp add: ports_create_port_internal_def)
  next
    case (Some p)
    then show ?thesis using assms(1) Inr a by (auto simp: ports_create_port_internal_def new_memory_def Let_def split: option.splits prod.splits if_splits)
  qed
qed

text \<open>The kernel reports success only with a name.\<close>

definition kernel_ok :: "kernel \<Rightarrow> bool" where
  "kernel_ok k \<longleftrightarrow> k_receive k \<noteq> Inl Success"

lemma create_authhandle_some:
  assumes c: "create_authhandle k st orc = Some (err, new, s, o1)" and k: "kernel_ok k"
  shows "handle s = (case new of None \<Rightarrow> handle st | Some q \<Rightarrow> (handle st)(q := no_ids))" "new = None \<longleftrightarrow> err \<noteq> Success" "new \<noteq> None \<Longrightarrow> new = new_memory orc"
proof -
  obtain ps where p: "ports_create_port (authhandle_portclass st) (auth_bucket st) (k_receive k) (k_move k) (k_waits k) (aports st) orc =
      Some (err, new, ps, o1)" "s = (case new of Some p \<Rightarrow> st\<lparr>aports := ps, handle := (handle st)(p := no_ids)\<rparr> | None \<Rightarrow> st\<lparr>aports := ps\<rparr>)"
    using c by (auto simp: create_authhandle_def)
  show "handle s = (case new of None \<Rightarrow> handle st | Some q \<Rightarrow> (handle st)(q := no_ids))" using p(2) by (simp split: option.splits)
  show "new = None \<longleftrightarrow> err \<noteq> Success" "new \<noteq> None \<Longrightarrow> new = new_memory orc"
    using create_port_internal_some [OF p(1) [unfolded ports_create_port_def]] k by (simp_all add: kernel_ok_def)
qed

lemma no_ids_wf: "handle_wf no_ids" "has_request \<lparr>a_euids = [], a_egids = [], a_auids = [], a_agids = []\<rparr> no_ids"
  by (simp_all add: no_ids_def handle_wf_def has_request_def)

lemma merge_into_empty:
  assumes m: "idvec_merge_ids idvec_init xs (length xs) orc = (err, v, o1)" and l: "length xs < 2 ^ 31"
  shows "idvec_wf v \<and> (err = Success \<longrightarrow> idvec_list v = xs)"
proof -
  have "num idvec_init + length xs < 2 ^ 31" using l by (simp add: idvec_init_def)
  from idvec_wf_init(1) this le_refl m show ?thesis by (cases rule: idvec_merge_ids_cases) simp_all
qed

lemma merge_all_some:
  assumes m: "merge_all req p st orc = (err, s, o1)" and h: "handle st p = no_ids" and r: "request_ok req"
  shows "handle_wf (handle s p)" "err = Success \<Longrightarrow> has_request req (handle s p)" "q \<noteq> p \<Longrightarrow> handle s q = handle st q"
proof -
  define f where "f err xs orc = (if err = Success then idvec_merge_ids idvec_init xs (length xs) orc else (err, idvec_init, orc))" for err xs orc
  obtain e1 v1 p1 where 1: "idvec_merge_ids idvec_init (a_euids req) (length (a_euids req)) orc = (e1, v1, p1)" by (rule prod_cases3)
  obtain e2 v2 p2 where 2: "f e1 (a_egids req) p1 = (e2, v2, p2)" by (rule prod_cases3)
  obtain e3 v3 p3 where 3: "f e2 (a_auids req) p2 = (e3, v3, p3)" by (rule prod_cases3)
  obtain e4 v4 p4 where 4: "f e3 (a_agids req) p3 = (e4, v4, p4)" by (rule prod_cases3)
  have f: "idvec_wf v \<and> (e' = Success \<longrightarrow> e = Success \<and> idvec_list v = xs)" if "f e xs o' = (e', v, o'')" "length xs < 2 ^ 31" for e xs o' e' v o''
    using that merge_into_empty [of xs o' e' v o''] by (auto simp: f_def split: if_splits)
  have "err = e4 \<and> s = st\<lparr>handle := (handle st)(p := \<lparr>euids = v1, egids = v2, auids = v3, agids = v4\<rparr>)\<rparr>"
    using m 1 2 3 4 by (cases "e1 = Success"; cases "e2 = Success"; cases "e3 = Success") (simp_all add: merge_all_def h no_ids_def f_def Let_def)
  then show "handle_wf (handle s p)" "err = Success \<Longrightarrow> has_request req (handle s p)" "q \<noteq> p \<Longrightarrow> handle s q = handle st q"
    using merge_into_empty [OF 1] f [OF 2] f [OF 3] f [OF 4] r by (auto simp: request_ok_def handle_wf_def has_request_def)
qed

lemma makeauth_ids:
  assumes "auth_wf st" "request_ok req" "kernel_ok k" and m: "S_auth_makeauth k (Some a) authpts req st orc = Some (err, new, st', orc')"
  shows "\<exists>rs s. fetch_auths authpts st = Some (rs, s) \<and> auth_wf st' \<and>
    (err = Success \<longleftrightarrow> new \<noteq> None) \<and>
    (\<not> allowed req (presented (Some a # rs) st) \<longrightarrow> err = EPERM \<and> handle st' = handle st) \<and>
    (\<forall>n q. new = Some (n, q) \<longrightarrow> allowed req (presented (Some a # rs) st) \<and> has_request req (handle st' q) \<and> new_memory orc = Some q) \<and>
    (\<forall>p. new_memory orc \<noteq> Some p \<longrightarrow> handle st' p = handle st p)"
proof -
  obtain rs s where f: "fetch_auths authpts st = Some (rs, s)" using m by (auto simp: S_auth_makeauth_def split: option.splits)
  note h = fetch_auths_keeps [OF f]
  have w: "auth_wf s" "presented (Some a # rs) s = presented (Some a # rs) st" using assms(1) h by (simp_all add: auth_wf_def presented_def)
  note p = permitted_iff [OF w(1), of req "Some a # rs", unfolded w(2)]
  show ?thesis
  proof (cases "allowed req (presented (Some a # rs) st)")
    case False
    then have "deref_auths rs s = Some st'" "err = EPERM" "new = None" using m f p by (auto simp: S_auth_makeauth_def)
    then show ?thesis using f h assms(1) deref_auths_keeps False by (auto simp: auth_wf_def)
  next
    case True
    then obtain e c s1 o1 where c: "create_authhandle k s orc = Some (e, c, s1, o1)" using m f p by (auto simp: S_auth_makeauth_def split: option.splits)
    note cs = create_authhandle_some [OF c assms(3)]
    show ?thesis
    proof (cases c)
      case None
      then have "deref_auths rs s1 = Some st'" "err = e" "new = None" using m f p True c by (auto simp: S_auth_makeauth_def)
      moreover have "handle s1 = handle st" using cs(1) None h by simp
      ultimately show ?thesis using f cs(2) None assms(1) True deref_auths_keeps by (auto simp: auth_wf_def)
    next
      case (Some q)
      obtain e2 s2 o2 where g: "merge_all req q s1 o1 = (e2, s2, o2)" by (rule prod_cases3)
      have "handle s1 q = no_ids" using cs(1) Some by simp
      note ms = merge_all_some [OF g this assms(2)]
      have o: "handle s2 r = handle st r" if "r \<noteq> q" for r using ms(3) [OF that] cs(1) Some h that by simp
      have w2: "\<forall>r. handle_wf (handle s2 r)" using ms(1) o assms(1) unfolding auth_wf_def by metis
      have t: "handle st' = handle s2 \<and> err = e2 \<and> (if e2 = Success then \<exists>n. new = Some (n, q) else new = None)"
      proof (cases "e2 = Success")
        case u: False
        then have "deref_auths rs s2 = Some st'" "err = e2" "new = None" using m f p True c Some g by (auto simp: S_auth_makeauth_def)
        then show ?thesis using u deref_auths_keeps by simp
      next
        case u: True
        obtain n ps s3 where "end_using_authhandle (Some q) (s2\<lparr>aports := ps\<rparr>) = Some s3" "deref_auths rs s3 = Some st'" "err = Success" "new = Some (n, q)"
          using m f p True c Some g u by (auto simp: S_auth_makeauth_def bind_eq_Some_conv split: option.splits)
        then show ?thesis using u deref_auths_keeps end_using_keeps by fastforce
      qed
      have n: "new_memory orc = Some q" using cs(3) Some by simp
      then have "\<forall>p. new_memory orc \<noteq> Some p \<longrightarrow> handle s2 p = handle st p" using o by auto
      then show ?thesis using t f True w2 ms(2) n by (auto simp: auth_wf_def split: if_splits)
    qed
  qed
qed


text \<open>
  A group of clients: \<open>H\<close> are the handles they have. They make new ones from those, while others do what they like with other handles.
\<close>

inductive gains :: "auth \<Rightarrow> nat set \<Rightarrow> auth \<Rightarrow> nat set \<Rightarrow> bool" for st0 H0 where
  gains_start: "gains st0 H0 st0 H0"
| gains_make: "gains st0 H0 st H \<Longrightarrow> a \<in> H \<Longrightarrow> fetch_auths authpts st = Some (rs, s) \<Longrightarrow> (\<And>p. Some p \<in> set rs \<Longrightarrow> p \<in> H) \<Longrightarrow>
    (\<And>q. new_memory orc = Some q \<Longrightarrow> q \<notin> H) \<Longrightarrow> kernel_ok k \<Longrightarrow> request_ok req \<Longrightarrow> S_auth_makeauth k (Some a) authpts req st orc = Some (err, new, st', orc') \<Longrightarrow>
    gains st0 H0 st' (case new of None \<Rightarrow> H | Some (n, q) \<Rightarrow> insert q H)"
| gains_other: "gains st0 H0 st H \<Longrightarrow> auth_wf st' \<Longrightarrow> (\<And>p. p \<in> H \<Longrightarrow> handle st' p = handle st p) \<Longrightarrow> gains st0 H0 st' H"

definition all_uids :: "auth \<Rightarrow> nat set \<Rightarrow> uid set" where
  "all_uids st H = (\<Union>p \<in> H. uids_of (handle st p))"

definition all_gids :: "auth \<Rightarrow> nat set \<Rightarrow> uid set" where
  "all_gids st H = (\<Union>p \<in> H. gids_of (handle st p))"


lemma has_request_ids:
  "has_request req h \<Longrightarrow> uids_of h = set (a_euids req) \<union> set (a_auids req)" "has_request req h \<Longrightarrow> gids_of h = set (a_egids req) \<union> set (a_agids req)"
  by (simp_all add: has_request_def uids_of_def gids_of_def)

lemma gains_bound:
  assumes "gains st0 H0 st H" "auth_wf st0" "0 \<notin> all_uids st0 H0"
  shows "auth_wf st \<and> all_uids st H \<subseteq> all_uids st0 H0 \<and> all_gids st H \<subseteq> all_gids st0 H0"
  using assms(1)
proof (induction rule: gains.induct)
  case gains_start
  then show ?case using assms(2) by simp
next
  case (gains_make st H a authpts rs s orc k req err new st' orc')
  have wf: "auth_wf st" using gains_make.IH by simp
  have m: "auth_wf st'" "\<And>p. new_memory orc \<noteq> Some p \<Longrightarrow> handle st' p = handle st p"
    "\<And>n q. new = Some (n, q) \<Longrightarrow> allowed req (presented (Some a # rs) st) \<and> has_request req (handle st' q)"
    using makeauth_ids [OF wf gains_make(7,6,8)] gains_make(3) by auto
  have k: "handle st' p = handle st p" if "p \<in> H" for p using m(2) gains_make(5) that by blast
  have H: "all_uids st' H = all_uids st H" "all_gids st' H = all_gids st H" using k by (simp_all add: all_uids_def all_gids_def)
  have n: "0 \<notin> all_uids st H" using gains_make.IH assms(3) by blast
  show ?case
  proof (cases new)
    case None
    then show ?thesis using m(1) gains_make.IH H by simp
  next
    case (Some x)
    then obtain n q where x: "new = Some (n, q)" by (cases x) simp
    have P: "(\<Union>h \<in> presented (Some a # rs) st. uids_of h) \<subseteq> all_uids st H" "(\<Union>h \<in> presented (Some a # rs) st. gids_of h) \<subseteq> all_gids st H"
      using gains_make(2,4) by (auto simp: presented_def all_uids_def all_gids_def)
    have "uids_of (handle st' q) \<subseteq> all_uids st H" "gids_of (handle st' q) \<subseteq> all_gids st H"
      using m(3) [OF x] P n has_request_ids [of req "handle st' q"] unfolding allowed_def by auto
    then show ?thesis using m(1) gains_make.IH H x by (auto simp: all_uids_def all_gids_def)
  qed
next
  case (gains_other st H st')
  have "all_uids st' H = all_uids st H" "all_gids st' H = all_gids st H" using gains_other(3) by (simp_all add: all_uids_def all_gids_def)
  then show ?case using gains_other(2) gains_other.IH by simp
qed

section \<open>An example\<close>

text \<open>The handle at 1 has the user 1000 and the group 100; the user makes the handle at 7, as in the example of port objects.\<close>

definition ex_handle :: authhandle where
  "ex_handle = \<lparr>euids = \<lparr>ids = [1000], num = 1, alloced = 1\<rparr>, egids = \<lparr>ids = [100], num = 1, alloced = 1\<rparr>,
     auids = idvec_init, agids = idvec_init\<rparr>"

definition ex_auth :: auth where
  "ex_auth = \<lparr>aports = ex_start, handle = (\<lambda>p. if p = 1 then ex_handle else no_ids), auth_bucket = 0, authhandle_portclass = 0\<rparr>"

definition ex_request :: id_arrays where
  "ex_request = \<lparr>a_euids = [1000], a_egids = [], a_auids = [1000], a_agids = [100]\<rparr>"

definition ex_kernel :: kernel where
  "ex_kernel = \<lparr>k_receive = Inr 5, k_move = Success, k_notify = Success, k_waits = []\<rparr>"

definition ex_new :: auth where
  "ex_new = ex_auth\<lparr>aports := ex_created, handle := (handle ex_auth)(7 := no_ids)\<rparr>"

definition ex_made :: auth where
  "ex_made = (fst (snd (merge_all ex_request 7 ex_new [])))\<lparr>aports := ex_dropped\<rparr>"

lemma ex_merge: "\<exists>v. idvec_merge_ids idvec_init [x] (Suc 0) [] = (Success, v, [])" "idvec_merge_ids idvec_init [] 0 [] = (Success, idvec_init, [])"
  by (simp_all add: idvec_merge_ids_def merge_search.simps idvec_add_def idvec_insert_def idvec_ensure_def idvec_init_def alloc_def u32_wrap_def)

lemma ex_makeauth: "S_auth_makeauth ex_kernel (Some 1) [] ex_request ex_auth [Some 7] = Some (Success, Some (5, 7), ex_made, [])"
proof -
  have p: "permitted ex_request [Some 1] ex_auth" by code_simp
  have c: "create_authhandle ex_kernel ex_auth [Some 7] = Some (Success, Some 7, ex_new, [])"
    using ex_create_run by (simp add: create_authhandle_def ports_create_port_def ex_kernel_def ex_auth_def ex_new_def)
  obtain e s o1 where m: "merge_all ex_request 7 ex_new [] = (e, s, o1)" by (rule prod_cases3)
  have "e = Success \<and> o1 = []"
    using m ex_merge(1) [of 1000] ex_merge(1) [of 100] ex_merge(2) by (auto simp: merge_all_def ex_new_def no_ids_def ex_request_def)
  moreover have "aports s = ex_created" using m by (auto simp: merge_all_def ex_new_def Let_def split: prod.splits)
  ultimately show ?thesis
    using p c m ex_get_run ex_deref_run by (simp add: S_auth_makeauth_def end_using_authhandle_def ex_made_def ex_kernel_def)
qed

lemma ex_fetched: "fetch_auths [] ex_auth = Some ([], ex_auth)"
  by simp

lemma ex_auth_ok: "auth_wf ex_auth" "request_ok ex_request" "kernel_ok ex_kernel"
  by (simp_all add: auth_wf_def ex_auth_def ex_handle_def handle_wf_def no_ids_def idvec_wf_def idvec_init_def request_ok_def ex_request_def
      kernel_ok_def ex_kernel_def)

section \<open>Properties\<close>

text \<open>
  C32. Making handles. A call of \<^verbatim>\<open>auth_makeauth\<close> that returns either makes a handle with exactly the requested ids, and then
  the handles that were presented have the user id 0 or all the requested ids; or it fails and makes none, with \<^verbatim>\<open>EPERM\<close> if
  the ids were not allowed. No other handle changes.
\<close>

theorem auth_makeauth_ids:
  assumes "auth_wf st" "request_ok req" "kernel_ok k" and m: "S_auth_makeauth k (Some a) authpts req st orc = Some (err, new, st', orc')"
  shows "\<exists>rs s. fetch_auths authpts st = Some (rs, s) \<and> auth_wf st' \<and>
    (err = Success \<longleftrightarrow> new \<noteq> None) \<and>
    (\<not> allowed req (presented (Some a # rs) st) \<longrightarrow> err = EPERM \<and> handle st' = handle st) \<and>
    (\<forall>n q. new = Some (n, q) \<longrightarrow> allowed req (presented (Some a # rs) st) \<and> has_request req (handle st' q) \<and> new_memory orc = Some q) \<and>
    (\<forall>p. new_memory orc \<noteq> Some p \<longrightarrow> handle st' p = handle st p)"
  by (rule makeauth_ids [OF assms])

theorem auth_makeauth_ids_witness:
  "S_auth_makeauth ex_kernel (Some 1) [] ex_request ex_auth [Some 7] = Some (Success, Some (5, 7), ex_made, []) \<and>
    has_request ex_request (handle ex_made 7) \<and> handle ex_made 1 = ex_handle"
  using auth_makeauth_ids [OF ex_auth_ok ex_makeauth] ex_makeauth by (auto simp: new_memory_def alloc_def) (simp add: ex_auth_def)


text \<open>
  C33. No escalation. Clients whose handles do not have the user id 0 can make handles from them in any number of calls, in any order,
  whatever other clients do: the ids of all their handles stay among the ids they started with.
\<close>

theorem auth_no_escalation:
  assumes "gains st0 H0 st H" "auth_wf st0" "0 \<notin> all_uids st0 H0"
  shows "all_uids st H \<subseteq> all_uids st0 H0 \<and> all_gids st H \<subseteq> all_gids st0 H0"
  using gains_bound [OF assms] by simp


theorem auth_no_escalation_witness:
  "gains ex_auth {1} ex_made {1, 7} \<and> all_uids ex_made {1, 7} \<subseteq> {1000} \<and> all_gids ex_made {1, 7} \<subseteq> {100}"
proof -
  have "gains ex_auth {1} ex_made (case Some (5 :: mach_port, 7) of None \<Rightarrow> {1} | Some (n, q) \<Rightarrow> insert q {1})"
    by (rule gains_make [OF gains_start _ ex_fetched _ _ ex_auth_ok(3,2) ex_makeauth]) (simp_all add: new_memory_def alloc_def)
  then have g: "gains ex_auth {1} ex_made {1, 7}" by (simp add: insert_commute)
  have i: "all_uids ex_auth {1} = {1000}" "all_gids ex_auth {1} = {100}"
    by (simp_all add: all_uids_def all_gids_def ex_auth_def ex_handle_def uids_of_def gids_of_def idvec_list_def idvec_init_def)
  then show ?thesis using auth_no_escalation [OF g ex_auth_ok(1)] g by simp
qed


section \<open>Returning ids\<close>

lemma copyout_ids:
  assumes "idvec_wf v"
  shows "\<exists>a. idvec_copyout 1 v buf = Some (a, num v) \<and> take (num v) a = idvec_list v"
  using assms by (auto simp: idvec_copyout_def idvec_wf_def idvec_list_def)

text \<open>
  Getting ids. Where pointers are as long as ids, every caller of \<^verbatim>\<open>auth_getids\<close> gets arrays that begin with the ids of the handle, whatever
  the length of its own arrays. Where they are twice as long, as the size is that of a pointer, the copy leaves the array
  of the handle or that of the caller as soon as one of them has less than twice the room.
\<close>

theorem auth_getids_copies:
  assumes "auth_wf st"
  shows "(\<exists>e g a b. S_auth_getids 1 (Some p) out st =
      Some (Success, Some ((e, num (euids (handle st p))), (g, num (egids (handle st p))), (a, num (auids (handle st p))), (b, num (agids (handle st p))))) \<and>
      take (num (euids (handle st p))) e = idvec_list (euids (handle st p)) \<and> take (num (egids (handle st p))) g = idvec_list (egids (handle st p)) \<and>
      take (num (auids (handle st p))) a = idvec_list (auids (handle st p)) \<and> take (num (agids (handle st p))) b = idvec_list (agids (handle st p))) \<and>
    (0 < num (euids (handle st p)) \<and> num (euids (handle st p)) \<le> length (a_euids out) \<and>
      (alloced (euids (handle st p)) < 2 * num (euids (handle st p)) \<or> length (a_euids out) < 2 * num (euids (handle st p))) \<longrightarrow>
      S_auth_getids 2 (Some p) out st = None)"
proof -
  have w: "idvec_wf (euids (handle st p))" "idvec_wf (egids (handle st p))" "idvec_wf (auids (handle st p))" "idvec_wf (agids (handle st p))"
    using assms by (simp_all add: auth_wf_def handle_wf_def)
  obtain e g a b where "idvec_copyout 1 (euids (handle st p)) (a_euids out) = Some (e, num (euids (handle st p)))"
    "take (num (euids (handle st p))) e = idvec_list (euids (handle st p))"
    "idvec_copyout 1 (egids (handle st p)) (a_egids out) = Some (g, num (egids (handle st p)))"
    "take (num (egids (handle st p))) g = idvec_list (egids (handle st p))"
    "idvec_copyout 1 (auids (handle st p)) (a_auids out) = Some (a, num (auids (handle st p)))"
    "take (num (auids (handle st p))) a = idvec_list (auids (handle st p))"
    "idvec_copyout 1 (agids (handle st p)) (a_agids out) = Some (b, num (agids (handle st p)))"
    "take (num (agids (handle st p))) b = idvec_list (agids (handle st p))"
    using copyout_ids [OF w(1)] copyout_ids [OF w(2)] copyout_ids [OF w(3)] copyout_ids [OF w(4)] by metis
  moreover have "length (ids (euids (handle st p))) = alloced (euids (handle st p))" using w(1) by (simp add: idvec_wf_def)
  ultimately show ?thesis by (auto simp: S_auth_getids_def OUTIDS_def idvec_copyout_def)
qed

theorem auth_getids_copies_witness:
  "S_auth_getids 2 (Some 1) \<lparr>a_euids = [0], a_egids = [0], a_auids = [0], a_agids = [0]\<rparr> ex_auth = None \<and>
    (\<exists>r. S_auth_getids 1 (Some 1) \<lparr>a_euids = [0], a_egids = [0], a_auids = [0], a_agids = [0]\<rparr> ex_auth = Some (Success, Some r))"
  using auth_getids_copies [OF ex_auth_ok(1), of 1 "\<lparr>a_euids = [0], a_egids = [0], a_auids = [0], a_agids = [0]\<rparr>"]
  by (auto simp: ex_auth_def ex_handle_def)

end
