(* ===== verification/Auth_Rendezvous.thy ===== *)
theory Auth_Rendezvous
  imports Auth_Props
begin

text \<open>
  Authentication (\<^verbatim>\<open>auth/auth.c\<close>, \<^verbatim>\<open>S_auth_user_authenticate\<close> and \<^verbatim>\<open>S_auth_server_authenticate\<close>): a user and a server meet by
  presenting the same rendezvous port; the server learns the ids of the user, the user gets a port from the server. The two functions are split
  where they release the lock: at the waits, and while the server sends its reply. The records of waiting users and servers are on the stacks of
  their threads. Each call has a record of its own, with a name (a number) that no other call has: \<open>frames\<close> has the records of the users whose
  calls are in progress, \<open>serving\<close> those of the servers, and the use of any other record is \<open>None\<close>, the use of a dead stack frame. \<open>u_pass\<close> is \<open>None\<close> while the passthrough port has not been
  written. The tables of pending users and servers are maps from rendezvous ports to records; a second entry for the
  same port replaces the first, as in the hash table, and an entry is removed through the slot of its key.
\<close>

section \<open>State\<close>

record pending_user =
  u_user :: nat
  u_rdv :: mach_port
  u_pass :: "mach_port option"

datatype server_pc = S_Wait mach_port mach_port | S_Reply mach_port mach_port nat nat

record transactions =
  server :: auth
  pending_users :: "mach_port \<Rightarrow> nat option"
  pending_servers :: "mach_port \<Rightarrow> nat option"
  frames :: "nat \<Rightarrow> pending_user option"
  serving :: "nat \<Rightarrow> server_pc option"
  users_woken :: "nat set"
  servers_woken :: "nat set"
  called :: "(nat \<times> nat \<times> mach_port) list"
  arrived :: "nat list"
  replied :: "(nat \<times> mach_port \<times> mach_port \<times> nat) list"
  returned :: "(nat \<times> nat \<times> mach_port \<times> error_t \<times> mach_port option) list"

text \<open>\<open>called\<close> logs the calls of users, with their handles and rendezvous ports, \<open>arrived\<close> the servers that have waited, \<open>replied\<close> the replies: call, rendezvous and new port of the server, handle of the user; \<open>returned\<close> the results of user calls.\<close>

section \<open>Users\<close>

text \<open>Up to the wait; the first component is the error if the call returns at once.\<close>

definition S_auth_user_authenticate :: "nat \<Rightarrow> nat option \<Rightarrow> mach_port \<Rightarrow> transactions \<Rightarrow> allocs \<Rightarrow> (error_t option \<times> transactions \<times> allocs) option" where
  "S_auth_user_authenticate t userauth rendezvous st orc =
     (case userauth of
        None \<Rightarrow> Some (Some EOPNOTSUPP, st, orc)
      | Some a \<Rightarrow>
          if \<not> MACH_PORT_VALID rendezvous then Some (Some EINVAL, st, orc)
          else
            (case alloc orc of
               (None, o1) \<Rightarrow> Some (Some ENOMEM, st, o1)
             | (Some _, o1) \<Rightarrow>
                 (case ports_port_ref a (aports (server st)) of
                    None \<Rightarrow> None
                  | Some ps \<Rightarrow>
                      let st1 = st\<lparr>server := (server st)\<lparr>aports := ps\<rparr>, pending_users := (pending_users st)(rendezvous := Some t),
                                   frames := (frames st)(t := Some \<lparr>u_user = a, u_rdv = rendezvous, u_pass = None\<rparr>),
                                   called := (t, a, rendezvous) # called st\<rparr>
                      in (case pending_servers st1 rendezvous of
                            None \<Rightarrow> Some (None, st1, o1)
                          | Some s \<Rightarrow>
                              (case serving st1 s of
                                 Some (S_Wait _ _) \<Rightarrow>
                                   Some (None, st1\<lparr>pending_servers := (pending_servers st1)(rendezvous := None),
                                                   servers_woken := insert s (servers_woken st1)\<rparr>, o1)
                               | _ \<Rightarrow> None)))))"

text \<open>\<open>cancel\<close> is the result of the wait, \<open>dead\<close> whether the rendezvous port is a dead name.\<close>

definition user_resume :: "nat \<Rightarrow> bool \<Rightarrow> bool \<Rightarrow> transactions \<Rightarrow> transactions" where
  "user_resume t cancel dead st =
     (case frames st t of
        None \<Rightarrow> st
      | Some u \<Rightarrow>
          let gone = st\<lparr>frames := (frames st)(t := None), users_woken := users_woken st - {t}\<rparr>
          in if cancel \<and> pending_users st (u_rdv u) \<noteq> None then
               gone\<lparr>pending_users := (pending_users st)(u_rdv u := None),
                    returned := (t, u_user u, u_rdv u, if dead then EINVAL else EINTR, None) # returned st\<rparr>
             else gone\<lparr>returned := (t, u_user u, u_rdv u, Success, u_pass u) # returned st\<rparr>)"

section \<open>Servers\<close>

text \<open>A user has been found: its record is removed, the lock is released and the reply sent.\<close>

definition server_take :: "nat \<Rightarrow> mach_port \<Rightarrow> mach_port \<Rightarrow> nat \<Rightarrow> transactions \<Rightarrow> transactions option" where
  "server_take t rendezvous newport ut st =
     (case frames st ut of
        None \<Rightarrow> None
      | Some u \<Rightarrow>
          Some (st\<lparr>pending_users := (pending_users st)(rendezvous := None),
                   serving := (serving st)(t := Some (S_Reply rendezvous newport ut (u_user u))),
                   replied := (t, rendezvous, newport, u_user u) # replied st\<rparr>))"

definition S_auth_server_authenticate ::
  "nat \<Rightarrow> nat option \<Rightarrow> mach_port \<Rightarrow> mach_port \<Rightarrow> transactions \<Rightarrow> allocs \<Rightarrow> (error_t option \<times> transactions \<times> allocs) option" where
  "S_auth_server_authenticate t serverauth rendezvous newport st orc =
     (case serverauth of
        None \<Rightarrow> Some (Some EOPNOTSUPP, st, orc)
      | Some a \<Rightarrow>
          if \<not> MACH_PORT_VALID rendezvous then Some (Some EINVAL, st, orc)
          else
            (case pending_users st rendezvous of
               Some ut \<Rightarrow> map_option (\<lambda>s. (None, s, orc)) (server_take t rendezvous newport ut st)
             | None \<Rightarrow>
                 (case alloc orc of
                    (None, o1) \<Rightarrow> Some (Some ENOMEM, st, o1)
                  | (Some _, o1) \<Rightarrow>
                      Some (None, st\<lparr>pending_servers := (pending_servers st)(rendezvous := Some t), arrived := t # arrived st,
                                     serving := (serving st)(t := Some (S_Wait rendezvous newport))\<rparr>, o1))))"

definition server_resume :: "nat \<Rightarrow> bool \<Rightarrow> bool \<Rightarrow> transactions \<Rightarrow> (error_t option \<times> transactions) option" where
  "server_resume t cancel dead st =
     (case serving st t of
        Some (S_Wait rendezvous newport) \<Rightarrow>
          let st1 = st\<lparr>serving := (serving st)(t := None), servers_woken := servers_woken st - {t}\<rparr>
          in if cancel \<and> pending_servers st rendezvous \<noteq> None then
               Some (Some (if dead then EINVAL else EINTR), st1\<lparr>pending_servers := (pending_servers st)(rendezvous := None)\<rparr>)
             else
               (case pending_users st rendezvous of
                  None \<Rightarrow> Some (Some EINTR, st1)
                | Some ut \<Rightarrow> map_option (\<lambda>s. (None, s)) (server_take t rendezvous newport ut st1))
      | _ \<Rightarrow> Some (None, st))"

text \<open>After the reply: the port is written into the record of the user, which must still be there, and the user is woken.\<close>

definition server_reply :: "nat \<Rightarrow> transactions \<Rightarrow> transactions option" where
  "server_reply t st =
     (case serving st t of
        Some (S_Reply rendezvous newport ut a) \<Rightarrow>
          (case (frames st ut, ports_port_deref (\<lambda>_ s. s) a (aports (server st))) of
             (Some u, Some ps) \<Rightarrow>
               Some (st\<lparr>server := (server st)\<lparr>aports := ps\<rparr>, frames := (frames st)(ut := Some (u\<lparr>u_pass := Some newport\<rparr>)),
                        users_woken := insert ut (users_woken st), serving := (serving st)(t := None)\<rparr>)
           | _ \<Rightarrow> None)
      | _ \<Rightarrow> Some st)"

section \<open>Interleaving\<close>

text \<open>
  A wait ends when the condition has been signalled, when the thread is cancelled, or for no reason, which the documentation of condition
  variables allows; the code does not repeat a wait. If \<open>strict\<close>, no wait ends for no reason and a user is cancelled only
  while its record is in the table.
\<close>

inductive rdv_step :: "bool \<Rightarrow> transactions \<Rightarrow> transactions \<Rightarrow> bool" for strict where
  user_calls: "frames st t = None \<Longrightarrow> t \<notin> fst ` set (called st) \<Longrightarrow> S_auth_user_authenticate t a r st orc = Some (e, s, o1) \<Longrightarrow> rdv_step strict st s"
| user_woken: "frames st t = Some u \<Longrightarrow> t \<in> users_woken st \<Longrightarrow> rdv_step strict st (user_resume t False dead st)"
| user_cancelled: "frames st t = Some u \<Longrightarrow> (strict \<Longrightarrow> pending_users st (u_rdv u) = Some t) \<Longrightarrow> rdv_step strict st (user_resume t True dead st)"
| user_spurious: "\<not> strict \<Longrightarrow> frames st t = Some u \<Longrightarrow> rdv_step strict st (user_resume t False dead st)"
| server_calls: "serving st t = None \<Longrightarrow> t \<notin> set (arrived st) \<Longrightarrow> S_auth_server_authenticate t a r n st orc = Some (e, s, o1) \<Longrightarrow> rdv_step strict st s"
| server_wakes: "serving st t = Some (S_Wait r n) \<Longrightarrow> cancel \<or> t \<in> servers_woken st \<or> \<not> strict \<Longrightarrow> server_resume t cancel dead st = Some (e, s) \<Longrightarrow>
    rdv_step strict st s"
| server_replies: "serving st t = Some (S_Reply r n ut a) \<Longrightarrow> server_reply t st = Some s \<Longrightarrow> rdv_step strict st s"

definition rdv_idle :: "transactions \<Rightarrow> bool" where
  "rdv_idle st \<longleftrightarrow> pending_users st = (\<lambda>_. None) \<and> pending_servers st = (\<lambda>_. None) \<and> frames st = (\<lambda>_. None) \<and> serving st = (\<lambda>_. None) \<and>
     users_woken st = {} \<and> servers_woken st = {} \<and> called st = [] \<and> arrived st = [] \<and> replied st = [] \<and> returned st = []"

inductive rdv_reach :: "bool \<Rightarrow> transactions \<Rightarrow> bool" for strict where
  rdv_start: "rdv_idle st \<Longrightarrow> rdv_reach strict st"
| rdv_next: "rdv_reach strict st \<Longrightarrow> rdv_step strict st s \<Longrightarrow> rdv_reach strict s"


section \<open>The invariant\<close>

definition users_ok :: "transactions \<Rightarrow> bool" where
  "users_ok st \<longleftrightarrow>
     (\<forall>r t. pending_users st r = Some t \<longrightarrow> (\<exists>u. frames st t = Some u \<and> u_rdv u = r) \<and> t \<notin> users_woken st) \<and>
     (\<forall>t \<in> users_woken st. \<exists>u. frames st t = Some u) \<and>
     (\<forall>t u. frames st t = Some u \<and> t \<in> users_woken st \<longrightarrow> (\<exists>n s. u_pass u = Some n \<and> (s, u_rdv u, n, u_user u) \<in> set (replied st)))"

definition replies_ok :: "transactions \<Rightarrow> bool" where
  "replies_ok st \<longleftrightarrow>
     (\<forall>s r n t a. serving st s = Some (S_Reply r n t a) \<longrightarrow>
        (\<exists>u. frames st t = Some u \<and> u_rdv u = r \<and> u_user u = a) \<and> t \<notin> users_woken st \<and> pending_users st r \<noteq> Some t \<and>
        (s, r, n, a) \<in> set (replied st)) \<and>
     (\<forall>s r n t a s' r' n' a'. serving st s = Some (S_Reply r n t a) \<and> serving st s' = Some (S_Reply r' n' t a') \<longrightarrow> s = s')"

definition results_ok :: "transactions \<Rightarrow> bool" where
  "results_ok st \<longleftrightarrow>
     (\<forall>t a r p. (t, a, r, Success, p) \<in> set (returned st) \<longrightarrow> (\<exists>n s. p = Some n \<and> (s, r, n, a) \<in> set (replied st)))"

definition rdv_inv :: "transactions \<Rightarrow> bool" where
  "rdv_inv st \<longleftrightarrow> users_ok st \<and> replies_ok st \<and> results_ok st"

lemma users_okD:
  assumes "users_ok st"
  shows "pending_users st r = Some t \<Longrightarrow> \<exists>u. frames st t = Some u \<and> u_rdv u = r" "pending_users st r = Some t \<Longrightarrow> t \<notin> users_woken st"
    "t \<in> users_woken st \<Longrightarrow> \<exists>u. frames st t = Some u"
    "frames st t = Some u \<Longrightarrow> t \<in> users_woken st \<Longrightarrow> \<exists>n s. u_pass u = Some n \<and> (s, u_rdv u, n, u_user u) \<in> set (replied st)"
  using assms unfolding users_ok_def by blast+

lemma replies_okD:
  assumes "replies_ok st" "serving st s = Some (S_Reply r n t a)"
  shows "\<exists>u. frames st t = Some u \<and> u_rdv u = r \<and> u_user u = a" "t \<notin> users_woken st" "pending_users st r \<noteq> Some t"
    "(s, r, n, a) \<in> set (replied st)" "serving st s' = Some (S_Reply r' n' t a') \<Longrightarrow> s = s'"
  using assms unfolding replies_ok_def by blast+

lemma users_okI:
  assumes "\<And>r t. pending_users st r = Some t \<Longrightarrow> (\<exists>u. frames st t = Some u \<and> u_rdv u = r) \<and> t \<notin> users_woken st"
    "\<And>t. t \<in> users_woken st \<Longrightarrow> \<exists>u. frames st t = Some u"
    "\<And>t u. frames st t = Some u \<Longrightarrow> t \<in> users_woken st \<Longrightarrow> \<exists>n s. u_pass u = Some n \<and> (s, u_rdv u, n, u_user u) \<in> set (replied st)"
  shows "users_ok st"
  using assms unfolding users_ok_def by blast

lemma replies_okI:
  assumes "\<And>s r n t a. serving st s = Some (S_Reply r n t a) \<Longrightarrow>
      (\<exists>u. frames st t = Some u \<and> u_rdv u = r \<and> u_user u = a) \<and> t \<notin> users_woken st \<and> pending_users st r \<noteq> Some t \<and> (s, r, n, a) \<in> set (replied st)"
    "\<And>s r n t a s' r' n' a'. serving st s = Some (S_Reply r n t a) \<Longrightarrow> serving st s' = Some (S_Reply r' n' t a') \<Longrightarrow> s = s'"
  shows "replies_ok st"
  using assms unfolding replies_ok_def by blast

lemma rdv_invD: "rdv_inv st \<Longrightarrow> users_ok st" "rdv_inv st \<Longrightarrow> replies_ok st" "rdv_inv st \<Longrightarrow> results_ok st"
  by (simp_all add: rdv_inv_def)

lemma user_calls_inv:
  assumes i: "rdv_inv st" and t: "frames st t = None" and c: "S_auth_user_authenticate t a r st orc = Some (e, s, o1)"
  shows "rdv_inv s"
proof -
  note u = users_okD [OF rdv_invD(1) [OF i]] and p = replies_okD [OF rdv_invD(2) [OF i]] and o = rdv_invD(3) [OF i]
  consider "s = st" | x where "pending_users s = (pending_users st)(r := Some t)"
    "frames s = (frames st)(t := Some \<lparr>u_user = x, u_rdv = r, u_pass = None\<rparr>)" "users_woken s = users_woken st" "serving s = serving st"
    "replied s = replied st" "returned s = returned st"
    using c by (auto simp: S_auth_user_authenticate_def Let_def split: option.splits if_splits prod.splits server_pc.splits)
  then show ?thesis
  proof cases
    case f: (2 x)
    have w: "t' \<noteq> t" if "t' \<in> users_woken st" for t' using u(3) [OF that] t by auto
    have n: "t' \<noteq> t" if "pending_users st r' = Some t'" for r' t' using u(1) [OF that] t by auto
    have m: "t' \<noteq> t" if "serving st s' = Some (S_Reply r' n' t' a')" for s' r' n' t' a' using p(1) [OF that] t by auto
    have "users_ok s"
    proof (rule users_okI)
      fix r' t' assume a: "pending_users s r' = Some t'"
      show "(\<exists>u. frames s t' = Some u \<and> u_rdv u = r') \<and> t' \<notin> users_woken s"
      proof (cases "r' = r")
        case True
        then show ?thesis using a w by (auto simp: f)
      next
        case False
        then have "pending_users st r' = Some t'" using a by (simp add: f)
        then show ?thesis using u(1,2) n by (simp add: f)
      qed
    qed (use u(3,4) w in \<open>auto simp: f\<close>)
    moreover have "replies_ok s"
    proof (rule replies_okI)
      fix s' r' n' t' a' assume "serving s s' = Some (S_Reply r' n' t' a')"
      then have a: "serving st s' = Some (S_Reply r' n' t' a')" by (simp add: f)
      show "(\<exists>u. frames s t' = Some u \<and> u_rdv u = r' \<and> u_user u = a') \<and> t' \<notin> users_woken s \<and> pending_users s r' \<noteq> Some t' \<and> (s', r', n', a') \<in> set (replied s)"
        using p(1-4) [OF a] m [OF a] by (simp add: f)
    qed (use p(5) in \<open>simp add: f\<close>)
    moreover have "results_ok s" using o by (simp add: results_ok_def f)
    ultimately show ?thesis by (simp add: rdv_inv_def)
  qed (use i in simp)
qed

lemma server_take_inv:
  assumes i: "rdv_inv st" and t: "\<And>r n ut a. serving st t \<noteq> Some (S_Reply r n ut a)" and p: "pending_users st r = Some ut"
    and c: "server_take t r n ut st = Some s"
  shows "rdv_inv s"
proof -
  note u = users_okD [OF rdv_invD(1) [OF i]] and q = replies_okD [OF rdv_invD(2) [OF i]] and o = rdv_invD(3) [OF i]
  obtain x where x: "frames st ut = Some x" "u_rdv x = r" using u(1) [OF p] by blast
  have f: "pending_users s = (pending_users st)(r := None)" "frames s = frames st" "users_woken s = users_woken st"
    "serving s = (serving st)(t := Some (S_Reply r n ut (u_user x)))" "replied s = (t, r, n, u_user x) # replied st" "returned s = returned st"
    using c x by (auto simp: server_take_def)
  have d: "t' \<noteq> ut" if "serving st s' = Some (S_Reply r' n' t' a')" for s' r' n' t' a' using q(1,3) [OF that] p x by auto
  have "users_ok s"
  proof (rule users_okI)
    fix r' t' assume "pending_users s r' = Some t'"
    then have "pending_users st r' = Some t'" by (simp add: f split: if_splits)
    then show "(\<exists>u. frames s t' = Some u \<and> u_rdv u = r') \<and> t' \<notin> users_woken s" using u(1,2) by (simp add: f)
  next
    fix t' u' assume "frames s t' = Some u'" "t' \<in> users_woken s"
    then show "\<exists>n s'. u_pass u' = Some n \<and> (s', u_rdv u', n, u_user u') \<in> set (replied s)" using u(4) [of t' u'] by (auto simp: f)
  qed (use u(3) in \<open>simp add: f\<close>)
  moreover have "replies_ok s"
  proof (rule replies_okI)
    fix s' r' n' t' a' assume a: "serving s s' = Some (S_Reply r' n' t' a')"
    show "(\<exists>u. frames s t' = Some u \<and> u_rdv u = r' \<and> u_user u = a') \<and> t' \<notin> users_woken s \<and> pending_users s r' \<noteq> Some t' \<and> (s', r', n', a') \<in> set (replied s)"
    proof (cases "s' = t")
      case True
      then show ?thesis using a x u(2) [OF p] by (auto simp: f)
    next
      case False
      then have "serving st s' = Some (S_Reply r' n' t' a')" using a by (simp add: f)
      then show ?thesis using q(1-4) by (simp add: f)
    qed
  next
    fix s1 r1 n1 t1 a1 s2 r2 n2 a2
    assume "serving s s1 = Some (S_Reply r1 n1 t1 a1)" "serving s s2 = Some (S_Reply r2 n2 t1 a2)"
    then show "s1 = s2" using q(5) [of s1 r1 n1 t1 a1 s2 r2 n2 a2] d [of s1 r1 n1 t1 a1] d [of s2 r2 n2 t1 a2] by (auto simp: f split: if_splits)
  qed
  moreover have "results_ok s" using o unfolding results_ok_def f by (auto; blast)
  ultimately show ?thesis by (simp add: rdv_inv_def)
qed

text \<open>A change that concerns neither users nor replies in progress.\<close>

lemma rdv_inv_same:
  assumes i: "rdv_inv st" and f: "pending_users s = pending_users st" "frames s = frames st" "users_woken s = users_woken st"
    "replied s = replied st" "returned s = returned st" "\<And>t r n ut a. serving s t = Some (S_Reply r n ut a) \<longleftrightarrow> serving st t = Some (S_Reply r n ut a)"
  shows "rdv_inv s"
  using i unfolding rdv_inv_def users_ok_def replies_ok_def results_ok_def f .

lemma server_calls_inv:
  assumes i: "rdv_inv st" and t: "serving st t = None" and c: "S_auth_server_authenticate t a r n st orc = Some (e, s, o1)"
  shows "rdv_inv s"
proof (cases "\<exists>ut. server_take t r n ut st = Some s \<and> pending_users st r = Some ut")
  case True
  then obtain ut where "pending_users st r = Some ut" "server_take t r n ut st = Some s" by blast
  then show ?thesis by (rule server_take_inv [OF i, rotated]) (simp add: t)
next
  case False
  then have "s = st \<or> s = st\<lparr>pending_servers := (pending_servers st)(r := Some t), arrived := t # arrived st, serving := (serving st)(t := Some (S_Wait r n))\<rparr>"
    using c by (auto simp: S_auth_server_authenticate_def split: option.splits if_splits prod.splits)
  moreover have "rdv_inv (st\<lparr>pending_servers := (pending_servers st)(r := Some t), arrived := t # arrived st, serving := (serving st)(t := Some (S_Wait r n))\<rparr>)"
    by (rule rdv_inv_same [OF i]) (use t in simp_all)
  ultimately show ?thesis using i by auto
qed

lemma server_resume_inv:
  assumes i: "rdv_inv st" and t: "serving st t = Some (S_Wait r n)" and c: "server_resume t x dead st = Some (e, s)"
  shows "rdv_inv s"
proof -
  define st1 where "st1 = st\<lparr>serving := (serving st)(t := None), servers_woken := servers_woken st - {t}\<rparr>"
  have i1: "rdv_inv st1" by (rule rdv_inv_same [OF i]) (auto simp: st1_def t)
  consider "s = st1\<lparr>pending_servers := (pending_servers st)(r := None)\<rparr>" | "s = st1"
    | ut where "pending_users st r = Some ut" "server_take t r n ut st1 = Some s"
    using c t by (auto simp: server_resume_def st1_def [symmetric] Let_def split: if_splits option.splits)
  then show ?thesis
  proof cases
    case 1
    then show ?thesis by (intro rdv_inv_same [OF i1]) simp_all
  next
    case 2
    then show ?thesis using i1 by simp
  next
    case (3 ut)
    show ?thesis by (rule server_take_inv [OF i1 _ _ 3(2)]) (simp_all add: st1_def 3(1))
  qed
qed


text \<open>A user leaves.\<close>

lemma user_gone_inv:
  assumes i: "rdv_inv st" and t: "frames st t = Some x"
    and f: "pending_users s = pending_users st \<or> pending_users s = (pending_users st)(r := None)" "frames s = (frames st)(t := None)"
      "users_woken s = users_woken st - {t}" "serving s = serving st" "replied s = replied st"
    and n: "\<And>r'. pending_users s r' \<noteq> Some t" "\<And>s' r' n' a'. serving st s' \<noteq> Some (S_Reply r' n' t a')" and o: "results_ok s"
  shows "rdv_inv s"
proof -
  note u = users_okD [OF rdv_invD(1) [OF i]] and q = replies_okD [OF rdv_invD(2) [OF i]]
  have e: "pending_users st r' = Some t' \<and> t' \<noteq> t" if "pending_users s r' = Some t'" for r' t'
    using f(1) n(1) that by (auto split: if_splits)
  have "users_ok s"
  proof (rule users_okI)
    fix r' t' assume "pending_users s r' = Some t'"
    then have "pending_users st r' = Some t'" "t' \<noteq> t" using e by auto
    then show "(\<exists>u. frames s t' = Some u \<and> u_rdv u = r') \<and> t' \<notin> users_woken s" using u(1,2) by (simp add: f)
  next
    fix t' u' assume "frames s t' = Some u'" "t' \<in> users_woken s"
    then show "\<exists>n s'. u_pass u' = Some n \<and> (s', u_rdv u', n, u_user u') \<in> set (replied s)"
      using u(4) [of t' u'] by (auto simp: f split: if_splits)
  qed (use u(3) in \<open>auto simp: f\<close>)
  moreover have "replies_ok s"
  proof (rule replies_okI)
    fix s' r' n' t' a' assume "serving s s' = Some (S_Reply r' n' t' a')"
    then have a: "serving st s' = Some (S_Reply r' n' t' a')" "t' \<noteq> t" using n(2) by (auto simp: f)
    moreover have "pending_users s r' \<noteq> Some t'" using e q(3) [OF a(1)] by blast
    ultimately show "(\<exists>u. frames s t' = Some u \<and> u_rdv u = r' \<and> u_user u = a') \<and> t' \<notin> users_woken s \<and> pending_users s r' \<noteq> Some t' \<and> (s', r', n', a') \<in> set (replied s)"
      using q(1,2,4) [OF a(1)] by (simp add: f)
  qed (use q(5) in \<open>simp add: f\<close>)
  ultimately show ?thesis using o by (simp add: rdv_inv_def)
qed

lemma user_resume_inv:
  assumes i: "rdv_inv st" and t: "frames st t = Some u" and w: "x \<and> pending_users st (u_rdv u) = Some t \<or> \<not> x \<and> t \<in> users_woken st"
  shows "rdv_inv (user_resume t x dead st)"
proof -
  note k = users_okD [OF rdv_invD(1) [OF i]] and q = replies_okD [OF rdv_invD(2) [OF i]] and o = rdv_invD(3) [OF i]
  have r: "pending_users st r' = Some t \<Longrightarrow> r' = u_rdv u" for r' using k(1) [of r' t] t by auto
  have v: "serving st s' \<noteq> Some (S_Reply r' n' t a')" if "pending_users st (u_rdv u) = Some t \<or> t \<in> users_woken st" for s' r' n' a'
    using q(1,2,3) [of s' r' n' t a'] that t by auto
  show ?thesis
  proof (cases x)
    case True
    then have p: "pending_users st (u_rdv u) = Some t" using w by simp
    have e: "user_resume t x dead st = st\<lparr>frames := (frames st)(t := None), users_woken := users_woken st - {t},
        pending_users := (pending_users st)(u_rdv u := None), returned := (t, u_user u, u_rdv u, if dead then EINVAL else EINTR, None) # returned st\<rparr>"
      using True p t by (simp add: user_resume_def)
    have "results_ok (user_resume t x dead st)" using o unfolding results_ok_def e by (cases dead) auto
    then show ?thesis
      using r v [OF disjI1 [OF p]] by (intro user_gone_inv [OF i t, of _ "u_rdv u"]) (auto simp: e)
  next
    case False
    then have p: "t \<in> users_woken st" using w by simp
    have z: "pending_users st r' \<noteq> Some t" for r' using k(2) p by blast
    obtain n s where "u_pass u = Some n" "(s, u_rdv u, n, u_user u) \<in> set (replied st)" using k(4) [OF t p] by blast
    moreover have e: "user_resume t x dead st = st\<lparr>frames := (frames st)(t := None), users_woken := users_woken st - {t},
        returned := (t, u_user u, u_rdv u, Success, u_pass u) # returned st\<rparr>"
      using False t by (simp add: user_resume_def)
    ultimately have "results_ok (user_resume t x dead st)" using o unfolding results_ok_def e by auto
    then show ?thesis using z v [OF disjI2 [OF p]] by (intro user_gone_inv [OF i t]) (simp_all add: e)
  qed
qed

lemma server_reply_inv:
  assumes i: "rdv_inv st" and t: "serving st t = Some (S_Reply r n ut a)" and c: "server_reply t st = Some s"
  shows "rdv_inv s"
proof -
  note k = users_okD [OF rdv_invD(1) [OF i]] and q = replies_okD [OF rdv_invD(2) [OF i]] and o = rdv_invD(3) [OF i]
  obtain x where x: "frames st ut = Some x" "u_rdv x = r" "u_user x = a" using q(1) [OF t] by blast
  have f: "pending_users s = pending_users st" "frames s = (frames st)(ut := Some (x\<lparr>u_pass := Some n\<rparr>))" "users_woken s = insert ut (users_woken st)"
    "serving s = (serving st)(t := None)" "replied s = replied st" "returned s = returned st"
    using c t x by (auto simp: server_reply_def split: option.splits)
  have m: "pending_users st r' \<noteq> Some ut" for r' using k(1) [of r' ut] q(3) [OF t] x by auto
  have "users_ok s"
  proof (rule users_okI)
    fix r' t' assume "pending_users s r' = Some t'"
    then have "pending_users st r' = Some t'" "t' \<noteq> ut" using m by (auto simp: f)
    then show "(\<exists>u. frames s t' = Some u \<and> u_rdv u = r') \<and> t' \<notin> users_woken s" using k(1,2) by (simp add: f)
  next
    fix t' u' assume "frames s t' = Some u'" "t' \<in> users_woken s"
    then show "\<exists>n s'. u_pass u' = Some n \<and> (s', u_rdv u', n, u_user u') \<in> set (replied s)"
      using k(4) [of t' u'] q(4) [OF t] x by (auto simp: f split: if_splits)
  qed (use k(3) in \<open>auto simp: f\<close>)
  moreover have "replies_ok s"
  proof (rule replies_okI)
    fix s' r' n' t' a' assume "serving s s' = Some (S_Reply r' n' t' a')"
    then have b: "serving st s' = Some (S_Reply r' n' t' a')" "s' \<noteq> t" by (auto simp: f split: if_splits)
    then have "t' \<noteq> ut" using q(5) [OF t] by blast
    then show "(\<exists>u. frames s t' = Some u \<and> u_rdv u = r' \<and> u_user u = a') \<and> t' \<notin> users_woken s \<and> pending_users s r' \<noteq> Some t' \<and> (s', r', n', a') \<in> set (replied s)"
      using q(1-4) [OF b(1)] by (simp add: f)
  qed (use q(5) in \<open>auto simp: f split: if_splits\<close>)
  moreover have "results_ok s" using o unfolding results_ok_def f .
  ultimately show ?thesis by (simp add: rdv_inv_def)
qed

text \<open>Replies go to users that have called.\<close>

definition calls_ok :: "transactions \<Rightarrow> bool" where
  "calls_ok st \<longleftrightarrow>
     (\<forall>t u. frames st t = Some u \<longrightarrow> (t, u_user u, u_rdv u) \<in> set (called st)) \<and>
     (\<forall>s r n a. (s, r, n, a) \<in> set (replied st) \<longrightarrow> (\<exists>t. (t, a, r) \<in> set (called st)))"

lemma calls_ok_mono:
  assumes "calls_ok st" "set (called st) \<subseteq> set (called s)" "set (replied s) \<subseteq> set (replied st)"
    "\<And>t u. frames s t = Some u \<Longrightarrow> (\<exists>x. frames st t = Some x \<and> u_user u = u_user x \<and> u_rdv u = u_rdv x) \<or> (t, u_user u, u_rdv u) \<in> set (called s)"
  shows "calls_ok s"
  unfolding calls_ok_def
proof (intro conjI allI impI)
  fix t u assume "frames s t = Some u"
  then show "(t, u_user u, u_rdv u) \<in> set (called s)" using assms(4) [of t u] assms(1,2) unfolding calls_ok_def by fastforce
next
  fix s' r n a assume "(s', r, n, a) \<in> set (replied s)"
  then show "\<exists>t. (t, a, r) \<in> set (called s)" using assms(1-3) unfolding calls_ok_def by blast
qed

lemma server_take_calls:
  assumes c: "calls_ok st" and u: "users_ok st" "pending_users st r = Some ut" and t: "server_take t r n ut st = Some s"
  shows "calls_ok s"
proof -
  obtain x where x: "frames st ut = Some x" "u_rdv x = r" using users_okD(1) [OF u] by blast
  have f: "frames s = frames st" "called s = called st" "replied s = (t, r, n, u_user x) # replied st" using t x by (auto simp: server_take_def)
  have "(ut, u_user x, r) \<in> set (called st)" using c x unfolding calls_ok_def by blast
  then show ?thesis using c unfolding calls_ok_def f by auto
qed

lemma rdv_step_calls:
  assumes "rdv_step b st s" "calls_ok st" "users_ok st"
  shows "calls_ok s"
  using assms(1)
proof (cases rule: rdv_step.cases)
  case (user_calls t a r orc e o1)
  then show ?thesis
    by (intro calls_ok_mono [OF assms(2)])
      (auto simp: S_auth_user_authenticate_def Let_def split: option.splits if_splits prod.splits server_pc.splits)
next
  case (user_woken t u dead)
  then show ?thesis by (intro calls_ok_mono [OF assms(2)]) (auto simp: user_resume_def Let_def split: if_splits)
next
  case (user_cancelled t u dead)
  then show ?thesis by (intro calls_ok_mono [OF assms(2)]) (auto simp: user_resume_def Let_def split: if_splits)
next
  case (user_spurious t u dead)
  then show ?thesis by (intro calls_ok_mono [OF assms(2)]) (auto simp: user_resume_def Let_def split: if_splits)
next
  case (server_calls t a r n orc e o1)
  show ?thesis
  proof (cases "\<exists>ut. server_take t r n ut st = Some s \<and> pending_users st r = Some ut")
    case True
    then show ?thesis using server_take_calls [OF assms(2,3)] by blast
  next
    case False
    then show ?thesis
      using server_calls(3) by (intro calls_ok_mono [OF assms(2)])
        (auto simp: S_auth_server_authenticate_def split: option.splits if_splits prod.splits)
  qed
next
  case (server_wakes t r n x dead e)
  define st1 where "st1 = st\<lparr>serving := (serving st)(t := None), servers_woken := servers_woken st - {t}\<rparr>"
  have c1: "calls_ok st1" "users_ok st1" using assms(2,3) by (simp_all add: st1_def calls_ok_def users_ok_def)
  consider "s = st1\<lparr>pending_servers := (pending_servers st)(r := None)\<rparr>" | "s = st1"
    | ut where "pending_users st1 r = Some ut" "server_take t r n ut st1 = Some s"
    using server_wakes by (auto simp: server_resume_def st1_def Let_def split: if_splits option.splits)
  then show ?thesis by cases (use c1 server_take_calls [OF c1] in \<open>simp_all add: calls_ok_def\<close>)
next
  case (server_replies t r n ut a)
  then show ?thesis
    by (intro calls_ok_mono [OF assms(2)]) (auto simp: server_reply_def split: option.splits if_splits)
qed

text \<open>Servers that wait.\<close>

definition waiters_ok :: "transactions \<Rightarrow> bool" where
  "waiters_ok st \<longleftrightarrow>
     (\<forall>r t. pending_servers st r = Some t \<longrightarrow> t \<notin> servers_woken st \<and> (\<exists>n. serving st t = Some (S_Wait r n))) \<and>
     (\<forall>t \<in> servers_woken st. \<exists>r n. serving st t = Some (S_Wait r n))"

lemma waiters_okD:
  assumes "waiters_ok st"
  shows "pending_servers st r = Some t \<Longrightarrow> t \<notin> servers_woken st" "pending_servers st r = Some t \<Longrightarrow> \<exists>n. serving st t = Some (S_Wait r n)"
    "t \<in> servers_woken st \<Longrightarrow> \<exists>r n. serving st t = Some (S_Wait r n)"
  using assms unfolding waiters_ok_def by blast+

lemma waiters_okI:
  assumes "\<And>r t. pending_servers st r = Some t \<Longrightarrow> t \<notin> servers_woken st \<and> (\<exists>n. serving st t = Some (S_Wait r n))"
    "\<And>t. t \<in> servers_woken st \<Longrightarrow> \<exists>r n. serving st t = Some (S_Wait r n)"
  shows "waiters_ok st"
  using assms unfolding waiters_ok_def by blast

lemma waiters_same:
  assumes "waiters_ok st" "pending_servers s = pending_servers st" "serving s = serving st" "servers_woken s = servers_woken st"
  shows "waiters_ok s"
  using assms(1) unfolding waiters_ok_def assms(2-4) .

text \<open>A server whose record is in no table goes on to something else.\<close>

lemma waiters_leave:
  assumes w: "waiters_ok st" and n: "\<And>r. ps r \<noteq> Some t" "\<And>r s. ps r = Some s \<Longrightarrow> pending_servers st r = Some s"
    and f: "pending_servers s = ps" "serving s = (serving st)(t := x)" "servers_woken s = servers_woken st - {t}"
  shows "waiters_ok s"
proof (rule waiters_okI)
  fix r t' assume "pending_servers s r = Some t'"
  then have "pending_servers st r = Some t'" "t' \<noteq> t" using n f(1) by auto
  then show "t' \<notin> servers_woken s \<and> (\<exists>n. serving s t' = Some (S_Wait r n))" using waiters_okD [OF w] f by simp
next
  fix t' assume "t' \<in> servers_woken s"
  then show "\<exists>r n. serving s t' = Some (S_Wait r n)" using waiters_okD(3) [OF w, of t'] f by auto
qed

lemma server_take_fields:
  "server_take t r n ut st = Some s \<Longrightarrow>
    pending_servers s = pending_servers st \<and> servers_woken s = servers_woken st \<and> (\<exists>x. serving s = (serving st)(t := Some (S_Reply r n ut x)))"
  by (auto simp: server_take_def split: option.splits)

lemma server_resume_waiters:
  assumes w: "waiters_ok st" and t: "serving st t = Some (S_Wait r n)" "x \<or> t \<in> servers_woken st" and c: "server_resume t x dead st = Some (e, s)"
  shows "waiters_ok s"
proof -
  define st1 where "st1 = st\<lparr>serving := (serving st)(t := None), servers_woken := servers_woken st - {t}\<rparr>"
  have k: "r' = r" if "pending_servers st r' = Some t" for r' using waiters_okD(2) [OF w that] t(1) by simp
  show ?thesis
  proof (cases "x \<and> pending_servers st r \<noteq> None")
    case True
    then have "s = st1\<lparr>pending_servers := (pending_servers st)(r := None)\<rparr>" using c t(1) by (auto simp: server_resume_def st1_def Let_def)
    then show ?thesis by (intro waiters_leave [OF w, of "(pending_servers st)(r := None)" t s None]) (use k in \<open>auto simp: st1_def split: if_splits\<close>)
  next
    case False
    have z: "pending_servers st r' \<noteq> Some t" for r'
    proof
      assume a: "pending_servers st r' = Some t"
      then show False using False t(2) k [OF a] waiters_okD(1) [OF w a] by auto
    qed
    consider "s = st1" | ut where "server_take t r n ut st1 = Some s" using c t(1) False by (auto simp: server_resume_def st1_def Let_def split: option.splits if_splits)
    then obtain y where "pending_servers s = pending_servers st" "serving s = (serving st)(t := y)" "servers_woken s = servers_woken st - {t}"
      by cases (auto simp: st1_def dest!: server_take_fields)
    then show ?thesis using z by (intro waiters_leave [OF w, of "pending_servers st" t s y]) simp_all
  qed
qed

lemma server_calls_waiters:
  assumes w: "waiters_ok st" and t: "serving st t = None" and c: "S_auth_server_authenticate t a r n st orc = Some (e, s, o1)"
  shows "waiters_ok s"
proof -
  have z: "pending_servers st r' \<noteq> Some t" "t \<notin> servers_woken st" for r' using waiters_okD [OF w] t by fastforce+
  consider "s = st" | ut where "server_take t r n ut st = Some s"
    | "pending_servers s = (pending_servers st)(r := Some t)" "serving s = (serving st)(t := Some (S_Wait r n))" "servers_woken s = servers_woken st"
    using c by (auto simp: S_auth_server_authenticate_def split: option.splits if_splits prod.splits)
  then show ?thesis
  proof cases
    case 2
    then obtain y where "pending_servers s = pending_servers st" "serving s = (serving st)(t := y)" "servers_woken s = servers_woken st - {t}"
      using z(2) by (auto dest!: server_take_fields)
    then show ?thesis using z by (intro waiters_leave [OF w, of "pending_servers st" t s y]) simp_all
  next
    case 3
    show ?thesis
    proof (rule waiters_okI)
      fix r' t' assume "pending_servers s r' = Some t'"
      then show "t' \<notin> servers_woken s \<and> (\<exists>n. serving s t' = Some (S_Wait r' n))"
        using 3 z waiters_okD(1,2) [OF w, of r' t'] by (auto split: if_splits)
    next
      fix t' assume "t' \<in> servers_woken s"
      then show "\<exists>r n. serving s t' = Some (S_Wait r n)" using 3 z waiters_okD(3) [OF w, of t'] by auto
    qed
  qed (use w in simp)
qed

lemma user_calls_fields:
  assumes c: "S_auth_user_authenticate t a r st orc = Some (e, s, o1)"
  obtains "pending_servers s = pending_servers st" "serving s = serving st" "servers_woken s = servers_woken st"
    | x where "pending_servers st r = Some x" "pending_servers s = (pending_servers st)(r := None)" "serving s = serving st" "servers_woken s = insert x (servers_woken st)"
proof (cases "pending_servers st r")
  case None
  then show ?thesis using c that(1) by (auto simp: S_auth_user_authenticate_def Let_def split: option.splits if_splits prod.splits)
next
  case (Some x)
  then show ?thesis using c that by (auto simp: S_auth_user_authenticate_def Let_def split: option.splits if_splits prod.splits server_pc.splits)
qed

lemma user_calls_waiters:
  assumes w: "waiters_ok st" and c: "S_auth_user_authenticate t a r st orc = Some (e, s, o1)"
  shows "waiters_ok s"
  using c
proof (cases rule: user_calls_fields)
  case 1
  then show ?thesis by (intro waiters_same [OF w])
next
  case (2 x)
  have k: "r' = r" if "pending_servers st r' = Some x" for r' using waiters_okD(2) [OF w that] waiters_okD(2) [OF w 2(1)] by auto
  show ?thesis
  proof (rule waiters_okI)
    fix r' t' assume "pending_servers s r' = Some t'"
    then have "pending_servers st r' = Some t'" "r' \<noteq> r" using 2(2) by (auto split: if_splits)
    then show "t' \<notin> servers_woken s \<and> (\<exists>n. serving s t' = Some (S_Wait r' n))" using waiters_okD(1,2) [OF w, of r' t'] k [of r'] 2(3,4) by auto
  next
    fix t' assume "t' \<in> servers_woken s"
    then show "\<exists>r n. serving s t' = Some (S_Wait r n)" using waiters_okD(3) [OF w, of t'] waiters_okD(2) [OF w 2(1)] 2(3,4) by auto
  qed
qed

lemma server_reply_waiters:
  assumes w: "waiters_ok st" and t: "serving st t = Some (S_Reply r n ut a)" and c: "server_reply t st = Some s"
  shows "waiters_ok s"
proof -
  have z: "pending_servers st r' \<noteq> Some t" "t \<notin> servers_woken st" for r' using waiters_okD [OF w] t by fastforce+
  have "pending_servers s = pending_servers st" "serving s = (serving st)(t := None)" "servers_woken s = servers_woken st - {t}"
    using c t z(2) by (auto simp: server_reply_def split: option.splits)
  then show ?thesis using z by (intro waiters_leave [OF w, of "pending_servers st" t s None]) simp_all
qed

lemma user_resume_fields:
  "pending_servers (user_resume t x dead st) = pending_servers st" "serving (user_resume t x dead st) = serving st"
  "servers_woken (user_resume t x dead st) = servers_woken st"
  by (simp_all add: user_resume_def Let_def split: option.splits)

lemma rdv_step_waiters: "rdv_step True st s \<Longrightarrow> waiters_ok st \<Longrightarrow> waiters_ok s"
  by (cases rule: rdv_step.cases [of True st s], assumption)
    (auto intro: user_calls_waiters server_calls_waiters server_resume_waiters server_reply_waiters waiters_same [of st "user_resume _ _ _ st"] simp: user_resume_fields)

lemma rdv_reach_inv: "rdv_reach True st \<Longrightarrow> rdv_inv st \<and> calls_ok st \<and> waiters_ok st"
proof (induction rule: rdv_reach.induct)
  case (rdv_start st)
  then show ?case by (simp add: rdv_idle_def rdv_inv_def users_ok_def replies_ok_def results_ok_def calls_ok_def waiters_ok_def)
next
  case (rdv_next st s)
  have "calls_ok s" using rdv_step_calls [OF rdv_next(2)] rdv_next(3) by (simp add: rdv_inv_def)
  moreover have "waiters_ok s" using rdv_step_waiters [OF rdv_next(2)] rdv_next(3) by simp
  moreover from rdv_next(2,3) have "rdv_inv s"
    by (cases rule: rdv_step.cases)
      (auto intro: user_calls_inv user_resume_inv server_calls_inv server_resume_inv server_reply_inv)
  ultimately show ?case by simp
qed

text \<open>In all runs, a port has been written only into the records of users that have been woken.\<close>

definition unwritten_ok :: "transactions \<Rightarrow> bool" where
  "unwritten_ok st \<longleftrightarrow> (\<forall>t u. frames st t = Some u \<longrightarrow> t \<notin> users_woken st \<longrightarrow> u_pass u = None)"

lemma server_take_frames: "server_take t r n ut st = Some s \<Longrightarrow> frames s = frames st \<and> users_woken s = users_woken st"
  by (auto simp: server_take_def split: option.splits)

lemma rdv_step_unwritten: "rdv_step b st s \<Longrightarrow> unwritten_ok st \<Longrightarrow> unwritten_ok s"
proof (induction rule: rdv_step.induct)
  case (user_calls st t a r orc e s o1)
  then show ?case by (auto simp: unwritten_ok_def S_auth_user_authenticate_def Let_def split: option.splits if_splits prod.splits server_pc.splits)
next
  case (server_calls st t a r n orc e s o1)
  then show ?case by (auto simp: unwritten_ok_def S_auth_server_authenticate_def split: option.splits if_splits prod.splits dest!: server_take_frames)
next
  case (server_wakes st t r n x dead e s)
  then show ?case by (auto simp: unwritten_ok_def server_resume_def Let_def split: option.splits if_splits dest!: server_take_frames)
next
  case (server_replies st t r n ut a s)
  then show ?case by (auto simp: unwritten_ok_def server_reply_def split: option.splits if_splits)
qed (auto simp: unwritten_ok_def user_resume_def Let_def split: option.splits if_splits)

lemma rdv_reach_unwritten: "rdv_reach b st \<Longrightarrow> unwritten_ok st"
proof (induction rule: rdv_reach.induct)
  case (rdv_start st)
  then show ?case by (simp add: rdv_idle_def unwritten_ok_def)
next
  case (rdv_next st s)
  then show ?case using rdv_step_unwritten by blast
qed

section \<open>Examples\<close>

text \<open>The handle 3 has some references; thread 4 authenticates with the rendezvous port 5 to thread 2, which passes the port 50.\<close>

definition ex_p0 :: ports where
  "ex_p0 = ex_start\<lparr>infos := (\<lambda>_. \<lparr>pclass = 0, refcounts = 3, mscount = 1, cancel_threshold = 0, pflags = {}, port_right = 9, pbucket = 0\<rparr>)\<rparr>"

definition ex_p1 :: ports where "ex_p1 = the (ports_port_ref 3 ex_p0)"
lemma ex_refs: "ports_port_ref 3 ex_p0 = Some ex_p1"
proof -
  have "\<not> Option.is_none (ports_port_ref 3 ex_p0)" by code_simp
  then show ?thesis by (auto simp: Option.is_none_def ex_p1_def)
qed

definition ex_t0 :: transactions where
  "ex_t0 = \<lparr>server = ex_auth\<lparr>aports := ex_p0\<rparr>, pending_users = (\<lambda>_. None), pending_servers = (\<lambda>_. None), frames = (\<lambda>_. None), serving = (\<lambda>_. None),
     users_woken = {}, servers_woken = {}, called = [], arrived = [], replied = [], returned = []\<rparr>"

abbreviation ex_u :: "mach_port \<Rightarrow> mach_port option \<Rightarrow> pending_user" where
  "ex_u r p \<equiv> \<lparr>u_user = 3, u_rdv = r, u_pass = p\<rparr>"

definition ex_t2 :: transactions where
  "ex_t2 = ex_t0\<lparr>server := ex_auth\<lparr>aports := ex_p1\<rparr>, frames := [4 \<mapsto> ex_u 5 None], serving := [2 \<mapsto> S_Reply 5 50 4 3],
     called := [(4, 3, 5)], replied := [(2, 5, 50, 3)]\<rparr>"

lemma ex_valid: "MACH_PORT_VALID 5"
  by (simp add: MACH_PORT_VALID_def)

lemma ex_t2_reach: "rdv_reach b ex_t2"
proof -
  define s1 where "s1 = ex_t0\<lparr>server := ex_auth\<lparr>aports := ex_p1\<rparr>, pending_users := [5 \<mapsto> 4], frames := [4 \<mapsto> ex_u 5 None], called := [(4, 3, 5)]\<rparr>"
  have 0: "rdv_reach b ex_t0" by (rule rdv_start) (simp add: rdv_idle_def ex_t0_def)
  have c: "S_auth_user_authenticate 4 (Some 3) 5 ex_t0 [] = Some (None, s1, [])"
    by (simp add: S_auth_user_authenticate_def ex_t0_def s1_def ex_refs ex_valid alloc_def Let_def)
  have 1: "rdv_step b ex_t0 s1" by (rule user_calls [OF _ _ c]) (simp_all add: ex_t0_def)
  have d: "S_auth_server_authenticate 2 (Some 2) 5 50 s1 [] = Some (None, ex_t2, [])"
    by (simp add: S_auth_server_authenticate_def server_take_def ex_valid s1_def ex_t2_def ex_t0_def)
  have 2: "rdv_step b s1 ex_t2" by (rule server_calls [OF _ _ d]) (simp_all add: s1_def ex_t0_def)
  show ?thesis using rdv_next [OF rdv_next [OF 0 1] 2] .
qed

section \<open>Properties\<close>

text \<open>
  C34. Users and servers meet. However calls of any number of users and servers interleave, as long as no wait ends without a signal or a cancellation and users are cancelled only while
  they wait in the table (the next property says what happens otherwise): a user that is told of success has got the port of a server that presented the same rendezvous port and was told
  the ids of this user's handle; whatever ids a server is told, they are of the handle of a user that called with the same
  rendezvous port; a server that has sent its reply finds the record of its user in place; and the tables have only the records of calls that are still waiting.
\<close>

theorem auth_rendezvous_matches:
  assumes "rdv_reach True st"
  shows "(\<forall>t a r p. (t, a, r, Success, p) \<in> set (returned st) \<longrightarrow> (\<exists>n s. p = Some n \<and> (s, r, n, a) \<in> set (replied st))) \<and>
    (\<forall>s r n a. (s, r, n, a) \<in> set (replied st) \<longrightarrow> (\<exists>t. (t, a, r) \<in> set (called st))) \<and>
    (\<forall>s r n t a. serving st s = Some (S_Reply r n t a) \<longrightarrow> (\<exists>u. frames st t = Some u \<and> u_rdv u = r \<and> u_user u = a)) \<and>
    (\<forall>r t. pending_users st r = Some t \<longrightarrow> (\<exists>u. frames st t = Some u \<and> u_rdv u = r)) \<and>
    (\<forall>r s. pending_servers st r = Some s \<longrightarrow> (\<exists>n. serving st s = Some (S_Wait r n)))"
proof -
  have i: "results_ok st" "replies_ok st" "calls_ok st" "users_ok st" "waiters_ok st" using rdv_reach_inv [OF assms] by (simp_all add: rdv_inv_def)
  show ?thesis using i(1,3) replies_okD(1) [OF i(2)] users_okD(1) [OF i(4)] waiters_okD(2) [OF i(5)] unfolding results_ok_def calls_ok_def by blast
qed

theorem auth_rendezvous_matches_witness:
  "rdv_reach True ex_t2 \<and> serving ex_t2 2 = Some (S_Reply 5 50 4 3) \<and> (\<exists>u. frames ex_t2 4 = Some u \<and> u_rdv u = 5 \<and> u_user u = 3)"
proof -
  have "serving ex_t2 2 = Some (S_Reply 5 50 4 3)" by (simp add: ex_t2_def)
  then show ?thesis using auth_rendezvous_matches [OF ex_t2_reach] ex_t2_reach by blast
qed

text \<open>
  C35. A user that stops waiting too early. In every run, a user that waits and has not been signalled returns success with a port that nobody has
  written, in two cases: its wait ends for no reason, or it is cancelled after a server has taken its record out of the table. A server that has taken the
  record then writes into the stack frame of a call that is over; if none has, the record stays in the table, and the next server with the
  same rendezvous port reads it there.
\<close>

theorem auth_rendezvous_unwritten_port:
  assumes "rdv_reach False st" and "frames st t = Some u" and "t \<notin> users_woken st" and "cancel \<longrightarrow> pending_users st (u_rdv u) = None"
  shows "rdv_step False st (user_resume t cancel dead st) \<and>
    (t, u_user u, u_rdv u, Success, None) \<in> set (returned (user_resume t cancel dead st)) \<and>
    (\<forall>s r n a. serving st s = Some (S_Reply r n t a) \<longrightarrow> server_reply s (user_resume t cancel dead st) = None) \<and>
    (\<forall>s a n orc. pending_users st (u_rdv u) = Some t \<and> MACH_PORT_VALID (u_rdv u) \<longrightarrow>
       S_auth_server_authenticate s (Some a) (u_rdv u) n (user_resume t cancel dead st) orc = None)"
proof -
  let ?s = "user_resume t cancel dead st"
  have p: "u_pass u = None" using rdv_reach_unwritten [OF assms(1)] assms(2,3) by (simp add: unwritten_ok_def)
  have s: "?s = st\<lparr>frames := (frames st)(t := None), users_woken := users_woken st - {t}, returned := (t, u_user u, u_rdv u, Success, None) # returned st\<rparr>"
    using assms(2,4) p by (auto simp: user_resume_def)
  have "rdv_step False st ?s"
  proof (cases cancel)
    case True
    then show ?thesis using user_cancelled [of st t u False dead, OF assms(2)] by simp
  next
    case False
    then show ?thesis using user_spurious [of False st t u dead, OF _ assms(2)] by simp
  qed
  moreover have "server_reply x ?s = None" if "serving st x = Some (S_Reply r n t a)" for x r n a using that by (simp add: s server_reply_def)
  moreover have "S_auth_server_authenticate x (Some a) (u_rdv u) n ?s orc = None" if "pending_users st (u_rdv u) = Some t" "MACH_PORT_VALID (u_rdv u)" for x a n orc
    using that by (simp add: s S_auth_server_authenticate_def server_take_def)
  ultimately show ?thesis by (simp add: s)
qed

theorem auth_rendezvous_unwritten_port_witness:
  "(4, 3, 5, Success, None) \<in> set (returned (user_resume 4 True False ex_t2)) \<and> server_reply 2 (user_resume 4 True False ex_t2) = None"
proof -
  have f: "frames ex_t2 4 = Some (ex_u 5 None)" "4 \<notin> users_woken ex_t2" "True \<longrightarrow> pending_users ex_t2 (u_rdv (ex_u 5 None)) = None" "serving ex_t2 2 = Some (S_Reply 5 50 4 3)"
    by (simp_all add: ex_t2_def ex_t0_def)
  from auth_rendezvous_unwritten_port [OF ex_t2_reach f(1-3), of False] f(4) show ?thesis by simp
qed

end
