(* ===== verification/Proc.thy ===== *)
theory Proc
  imports Hurd_Prelude
begin

text \<open>
  The processes, process groups and sessions of the process server (\<^verbatim>\<open>proc.h\<close>, \<^verbatim>\<open>hash.c\<close>, \<^verbatim>\<open>pgrp.c\<close>, and the life of a process in \<^verbatim>\<open>mgt.c\<close>).
  Structures are values at addresses; \<open>proc_heap\<close>, \<open>pgrp_heap\<close> and \<open>session_heap\<close> are the addresses that are allocated. The members of a group, the
  groups of a session and the children of a process, linked lists in the code, are lists. A hash table is a list of pairs, and additions to
  it succeed. \<open>None\<close> as a result is a failed assertion, the use of a null pointer, the removal of an entry that is not in a table, or a loop that does not end. Login names and user ids, which are
  shared with reference counts and never changed, are values. The global lock makes each call one step, but for the places where it waits. Left out are the fields on the
  program image (\<^verbatim>\<open>exe\<close>, \<^verbatim>\<open>p_argv\<close>, \<^verbatim>\<open>p_envp\<close>, \<^verbatim>\<open>start_code\<close>, \<^verbatim>\<open>end_code\<close>, \<^verbatim>\<open>p_entry\<close>), the counts of port rights, and the calls of \<^verbatim>\<open>libports\<close> on the object of a process (in \<^verbatim>\<open>proc_reassign\<close> and when a process
  ends) except that giving it up is recorded.
\<close>

section \<open>Data\<close>

record rusage =
  ru_utime :: "int \<times> int"
  ru_stime :: "int \<times> int"
  ru_maxrss :: int
  ru_ixrss :: int
  ru_idrss :: int
  ru_isrss :: int
  ru_minflt :: int
  ru_majflt :: int
  ru_nswap :: int
  ru_inblock :: int
  ru_oublock :: int
  ru_msgsnd :: int
  ru_msgrcv :: int
  ru_nsignals :: int
  ru_nvcsw :: int
  ru_nivcsw :: int

record proc =
  p_task :: mach_port
  p_pid :: int
  p_login :: string
  p_id :: "nat list"
  p_parent :: nat
  p_ochild :: "nat list"
  p_pgrp :: nat
  p_task_namespace :: mach_port
  p_msgport :: mach_port
  p_status :: int
  p_sigcode :: int
  p_rusage :: rusage
  p_child_rusage :: rusage
  p_exec :: bool
  p_stopped :: bool
  p_waited :: bool
  p_exiting :: bool
  p_waiting :: bool
  p_traced :: bool
  p_nostopcld :: bool
  p_parentset :: bool
  p_deadmsg :: bool
  p_checkmsghangs :: bool
  p_msgportwait :: bool
  p_loginleader :: bool
  p_dead :: bool
  p_important :: bool
  p_continued :: bool

record pgrp =
  pg_plist :: "nat list"
  pg_pgid :: int
  pg_session :: nat
  pg_orphcnt :: int

record session =
  s_sid :: int
  s_pgrps :: "nat list"
  s_sessionid :: mach_port

datatype signal = SIGHUP | SIGCONT | SIGCHLD

text \<open>Messages to processes: new ids (message port, task, parent, group, orphaned), and signals (message port, signal, code, task).\<close>

datatype sent = Newids mach_port mach_port int int bool | Signal mach_port signal int mach_port

text \<open>\<open>wakeups\<close> are the processes whose condition has been broadcast, \<open>released\<close> those whose port object has been given up.\<close>

record pserver =
  procs :: "nat \<Rightarrow> proc"
  pgrps :: "nat \<Rightarrow> pgrp"
  sessions :: "nat \<Rightarrow> session"
  proc_heap :: "nat list"
  pgrp_heap :: "nat list"
  session_heap :: "nat list"
  pidhash :: "(int \<times> nat) list"
  taskhash :: "(mach_port \<times> nat) list"
  pghash :: "(int \<times> nat) list"
  sidhash :: "(int \<times> nat) list"
  nextpid :: int
  wrap :: int
  init_proc :: nat
  startup_proc :: nat
  messages :: "sent list"
  wakeups :: "nat list"
  released :: "nat list"

abbreviation upd_proc :: "nat \<Rightarrow> (proc \<Rightarrow> proc) \<Rightarrow> pserver \<Rightarrow> pserver" where
  "upd_proc p f st \<equiv> st\<lparr>procs := (procs st)(p := f (procs st p))\<rparr>"

abbreviation upd_pgrp :: "nat \<Rightarrow> (pgrp \<Rightarrow> pgrp) \<Rightarrow> pserver \<Rightarrow> pserver" where
  "upd_pgrp g f st \<equiv> st\<lparr>pgrps := (pgrps st)(g := f (pgrps st g))\<rparr>"

abbreviation upd_session :: "nat \<Rightarrow> (session \<Rightarrow> session) \<Rightarrow> pserver \<Rightarrow> pserver" where
  "upd_session s f st \<equiv> st\<lparr>sessions := (sessions st)(s := f (sessions st s))\<rparr>"

abbreviation (input) valid_port :: "mach_port \<Rightarrow> bool" where
  "valid_port n \<equiv> n \<noteq> 0 \<and> n \<noteq> 2 ^ 32 - 1"

definition say :: "sent \<Rightarrow> pserver \<Rightarrow> pserver" where
  "say m st = st\<lparr>messages := m # messages st\<rparr>"

section \<open>Hash tables\<close>

definition hash_add :: "'k \<Rightarrow> nat \<Rightarrow> ('k \<times> nat) list \<Rightarrow> ('k \<times> nat) list" where
  "hash_add k v t = (k, v) # filter (\<lambda>e. fst e \<noteq> k) t"

definition hash_remove :: "nat \<Rightarrow> ('k \<times> nat) list \<Rightarrow> ('k \<times> nat) list option" where
  "hash_remove v t = (if v \<in> snd ` set t then Some (filter (\<lambda>e. snd e \<noteq> v) t) else None)"

definition pid_find_allow_zombie :: "int \<Rightarrow> pserver \<Rightarrow> nat option" where
  "pid_find_allow_zombie pid st = map_of (pidhash st) pid"

definition pid_find :: "int \<Rightarrow> pserver \<Rightarrow> nat option" where
  "pid_find pid st = (case map_of (pidhash st) pid of None \<Rightarrow> None | Some p \<Rightarrow> if p_dead (procs st p) then None else Some p)"

definition task_find_nocreate :: "mach_port \<Rightarrow> pserver \<Rightarrow> nat option" where
  "task_find_nocreate task st = (case map_of (taskhash st) task of None \<Rightarrow> None | Some p \<Rightarrow> if p_dead (procs st p) then None else Some p)"

definition pgrp_find :: "int \<Rightarrow> pserver \<Rightarrow> nat option" where
  "pgrp_find pgid st = map_of (pghash st) pgid"

definition session_find :: "int \<Rightarrow> pserver \<Rightarrow> nat option" where
  "session_find sid st = map_of (sidhash st) sid"

definition add_proc_to_hash :: "nat \<Rightarrow> pserver \<Rightarrow> pserver" where
  "add_proc_to_hash p st = st\<lparr>pidhash := hash_add (p_pid (procs st p)) p (pidhash st), taskhash := hash_add (p_task (procs st p)) p (taskhash st)\<rparr>"

definition remove_proc_from_hash :: "nat \<Rightarrow> pserver \<Rightarrow> pserver option" where
  "remove_proc_from_hash p st =
     (case hash_remove p (pidhash st) of
        None \<Rightarrow> None
      | Some t \<Rightarrow> (case hash_remove p (taskhash st) of None \<Rightarrow> None | Some t' \<Rightarrow> Some (st\<lparr>pidhash := t, taskhash := t'\<rparr>)))"

definition prociterate :: "(nat \<Rightarrow> pserver \<Rightarrow> pserver) \<Rightarrow> pserver \<Rightarrow> pserver" where
  "prociterate f st = fold (\<lambda>(_, p) s. if p_dead (procs s p) then s else f p s) (pidhash st) st"

definition pidfree :: "int \<Rightarrow> pserver \<Rightarrow> bool" where
  "pidfree pid st \<longleftrightarrow> pid_find_allow_zombie pid st = None \<and> pgrp_find pid st = None \<and> session_find pid st = None"

section \<open>Groups and sessions\<close>

definition new_pgrp :: "int \<Rightarrow> nat \<Rightarrow> pserver \<Rightarrow> allocs \<Rightarrow> nat option \<times> pserver \<times> allocs" where
  "new_pgrp pgid s st orc =
     (case alloc orc of
        (None, o1) \<Rightarrow> (None, st, o1)
      | (Some j, o1) \<Rightarrow>
          (let g = unat j; st1 = upd_pgrp g (\<lambda>_. \<lparr>pg_plist = [], pg_pgid = pgid, pg_session = s, pg_orphcnt = 0\<rparr>) st;
               st2 = upd_session s (\<lambda>ss. ss\<lparr>s_pgrps := g # s_pgrps ss\<rparr>) st1
           in (Some g, st2\<lparr>pgrp_heap := g # pgrp_heap st2, pghash := hash_add pgid g (pghash st2)\<rparr>, o1)))"

definition new_session :: "nat \<Rightarrow> pserver \<Rightarrow> allocs \<Rightarrow> nat option \<times> pserver \<times> allocs" where
  "new_session p st orc =
     (case alloc orc of
        (None, o1) \<Rightarrow> (None, st, o1)
      | (Some j, o1) \<Rightarrow>
          (let s = unat j; sid = p_pid (procs st p); st1 = upd_session s (\<lambda>_. \<lparr>s_sid = sid, s_pgrps = [], s_sessionid = 0\<rparr>) st
           in (Some s, st1\<lparr>session_heap := s # session_heap st1, sidhash := hash_add sid s (sidhash st1)\<rparr>, o1)))"

definition free_session :: "nat \<Rightarrow> pserver \<Rightarrow> pserver option" where
  "free_session s st =
     map_option (\<lambda>t. st\<lparr>sidhash := t, session_heap := removeAll s (session_heap st)\<rparr>) (hash_remove s (sidhash st))"

definition free_pgrp :: "nat \<Rightarrow> pserver \<Rightarrow> pserver option" where
  "free_pgrp g st =
     (let s = pg_session (pgrps st g); st1 = upd_session s (\<lambda>ss. ss\<lparr>s_pgrps := remove1 g (s_pgrps ss)\<rparr>) st
      in (case (if s_pgrps (sessions st1 s) = [] then free_session s st1 else Some st1) of
            None \<Rightarrow> None
          | Some st2 \<Rightarrow> map_option (\<lambda>t. st2\<lparr>pghash := t, pgrp_heap := removeAll g (pgrp_heap st2)\<rparr>) (hash_remove g (pghash st2))))"

text \<open>The parent of a process keeps its group from being orphaned.\<close>

definition counts_for :: "nat \<Rightarrow> nat \<Rightarrow> pserver \<Rightarrow> bool" where
  "counts_for p g st \<longleftrightarrow>
     (let h = p_pgrp (procs st (p_parent (procs st p))) in h \<noteq> g \<and> pg_session (pgrps st h) = pg_session (pgrps st g))"

definition newids :: "int \<Rightarrow> bool \<Rightarrow> nat \<Rightarrow> pserver \<Rightarrow> pserver" where
  "newids pgid orphaned p st =
     (let q = procs st p in if p_msgport q \<noteq> 0 then say (Newids (p_msgport q) (p_task q) (p_pid (procs st (p_parent q))) pgid orphaned) st else st)"

definition send_signal :: "nat \<Rightarrow> signal \<Rightarrow> int \<Rightarrow> pserver \<Rightarrow> pserver" where
  "send_signal p sig code st = say (Signal (p_msgport (procs st p)) sig code (p_task (procs st p))) st"

definition orphan_pgrp :: "nat \<Rightarrow> pserver \<Rightarrow> pserver" where
  "orphan_pgrp g st =
     (let ps = pg_plist (pgrps st g); st1 = fold (\<lambda>p s. newids (p_pid (procs s p)) True p s) ps st
      in if \<exists>p \<in> set ps. p_stopped (procs st p)
         then fold (\<lambda>p s. send_signal p SIGCONT 0 (send_signal p SIGHUP 0 s)) ps st1 else st1)"

definition leave_pgrp :: "nat \<Rightarrow> pserver \<Rightarrow> pserver option" where
  "leave_pgrp p st =
     (let g = p_pgrp (procs st p); st1 = upd_pgrp g (\<lambda>pg. pg\<lparr>pg_plist := remove1 p (pg_plist pg)\<rparr>) st
      in if pg_plist (pgrps st1 g) = [] then free_pgrp g st1
         else if counts_for p g st1 then
           (let st2 = upd_pgrp g (\<lambda>pg. pg\<lparr>pg_orphcnt := pg_orphcnt pg - 1\<rparr>) st1
            in Some (if pg_orphcnt (pgrps st2 g) = 0 then orphan_pgrp g st2 else st2))
         else Some st1)"

definition join_pgrp :: "nat \<Rightarrow> pserver \<Rightarrow> pserver" where
  "join_pgrp p st =
     (let g = p_pgrp (procs st p); st1 = upd_pgrp g (\<lambda>pg. pg\<lparr>pg_plist := p # pg_plist pg\<rparr>) st;
          orig = pg_orphcnt (pgrps st1 g) \<noteq> 0;
          st2 = (if counts_for p g st1 then upd_pgrp g (\<lambda>pg. pg\<lparr>pg_orphcnt := pg_orphcnt pg + 1\<rparr>) st1 else st1);
          cnt = pg_orphcnt (pgrps st2 g); pgid = pg_pgid (pgrps st2 g)
      in if orig \<noteq> (cnt \<noteq> 0) then fold (newids pgid (cnt = 0)) (pg_plist (pgrps st2 g)) st2 else newids pgid (cnt = 0) p st2)"

definition set_pgrp :: "nat \<Rightarrow> nat \<Rightarrow> pserver \<Rightarrow> pserver" where
  "set_pgrp p g st = upd_proc p (\<lambda>q. q\<lparr>p_pgrp := g\<rparr>) st"

text \<open>A new session and group for \<open>p\<close>, as in \<^verbatim>\<open>boot_setsid\<close> and at the end of \<^verbatim>\<open>S_proc_setsid\<close>.\<close>

definition boot_setsid :: "nat \<Rightarrow> pserver \<Rightarrow> allocs \<Rightarrow> (pserver \<times> allocs) option" where
  "boot_setsid p st orc =
     (case new_session p st orc of
        (None, _) \<Rightarrow> None
      | (Some s, st1, o1) \<Rightarrow>
          (case new_pgrp (p_pid (procs st1 p)) s st1 o1 of
             (None, _) \<Rightarrow> None
           | (Some g, st2, o2) \<Rightarrow> Some (join_pgrp p (set_pgrp p g st2), o2)))"

definition S_proc_setsid :: "nat option \<Rightarrow> pserver \<Rightarrow> allocs \<Rightarrow> (error_t \<times> pserver \<times> allocs) option" where
  "S_proc_setsid pi st orc =
     (case pi of
        None \<Rightarrow> Some (EOPNOTSUPP, st, orc)
      | Some p \<Rightarrow>
          if pg_pgid (pgrps st (p_pgrp (procs st p))) = p_pid (procs st p) \<or> pgrp_find (p_pid (procs st p)) st \<noteq> None
          then Some (EPERM, st, orc)
          else (case leave_pgrp p st of
                  None \<Rightarrow> None | Some st1 \<Rightarrow> map_option (\<lambda>(s, o1). (Success, s, o1)) (boot_setsid p st1 orc)))"

text \<open>Whether the process \<open>c\<close> may put \<open>p\<close> into the group \<open>pgid\<close>, and doing so.\<close>

definition setpgrp_check :: "nat \<Rightarrow> nat \<Rightarrow> int \<Rightarrow> pserver \<Rightarrow> error_t" where
  "setpgrp_check c p pgid st =
     (let s = pg_session (pgrps st (p_pgrp (procs st p))); cs = pg_session (pgrps st (p_pgrp (procs st c)))
      in if p \<noteq> c \<and> p_parent (procs st p) \<noteq> c then ESRCH
         else if p_parent (procs st p) = c \<and> p_exec (procs st p) then EACCES
         else if s_sid (sessions st s) = p_pid (procs st p) \<or> s \<noteq> cs \<or>
                 pgid \<noteq> p_pid (procs st p) \<and> (case pgrp_find pgid st of None \<Rightarrow> True | Some g \<Rightarrow> pg_session (pgrps st g) \<noteq> cs)
         then EPERM
         else Success)"

definition setpgrp_move :: "nat \<Rightarrow> int \<Rightarrow> pserver \<Rightarrow> allocs \<Rightarrow> (pserver \<times> allocs) option" where
  "setpgrp_move p pgid st orc =
     (let q = procs st p; pg = pgrp_find pgid st
      in if pg \<noteq> Some (p_pgrp q) then
           (case (case pg of Some g \<Rightarrow> (Some g, st, orc) | None \<Rightarrow> new_pgrp pgid (pg_session (pgrps st (p_pgrp q))) st orc) of
              (None, _) \<Rightarrow> None
            | (Some g, st1, o1) \<Rightarrow> map_option (\<lambda>st2. (join_pgrp p (set_pgrp p g st2), o1)) (leave_pgrp p st1))
         else Some (say (Newids (p_msgport q) (p_task q) (p_pid (procs st (p_parent q))) (pg_pgid (pgrps st (p_pgrp q)))
                           (pg_orphcnt (pgrps st (p_pgrp q)) = 0)) st, orc))"

definition S_proc_setpgrp :: "nat option \<Rightarrow> int \<Rightarrow> int \<Rightarrow> pserver \<Rightarrow> allocs \<Rightarrow> (error_t \<times> pserver \<times> allocs) option" where
  "S_proc_setpgrp callerp pid pgid st orc =
     (case callerp of
        None \<Rightarrow> Some (EOPNOTSUPP, st, orc)
      | Some c \<Rightarrow>
          (case (if pid \<noteq> 0 then pid_find pid st else Some c) of
             None \<Rightarrow> Some (ESRCH, st, orc)
           | Some p \<Rightarrow>
               let pgid = (if pgid = 0 then p_pid (procs st p) else pgid); err = setpgrp_check c p pgid st
               in if err \<noteq> Success then Some (err, st, orc) else map_option (\<lambda>(s, o1). (Success, s, o1)) (setpgrp_move p pgid st orc)))"

text \<open>
  Queries. For a process in the task namespace of another process server the query is relayed: \<open>relay\<close> is its translated answer, \<open>None\<close> if that
  failed. A list that does not fit into the \<open>n\<close> places of the caller needs memory.
\<close>

definition namespace_is_subprocess :: "nat option \<Rightarrow> pserver \<Rightarrow> bool" where
  "namespace_is_subprocess pi st \<longleftrightarrow>
     (case pi of None \<Rightarrow> False
      | Some p \<Rightarrow> valid_port (p_task_namespace (procs st p)) \<and> valid_port (p_task_namespace (procs st (p_parent (procs st p)))))"

definition out_list :: "nat \<Rightarrow> 'a list \<Rightarrow> allocs \<Rightarrow> (error_t + 'a list) \<times> allocs" where
  "out_list n xs orc = (if length xs > n then (case alloc orc of (None, o1) \<Rightarrow> (Inl ENOMEM, o1) | (Some _, o1) \<Rightarrow> (Inr xs, o1)) else (Inr xs, orc))"

definition S_proc_getsid :: "int \<Rightarrow> int option \<Rightarrow> pserver \<Rightarrow> error_t + int" where
  "S_proc_getsid pid relay st =
     (case pid_find pid st of
        None \<Rightarrow> Inl ESRCH
      | Some p \<Rightarrow>
          if namespace_is_subprocess (Some p) st \<and> relay \<noteq> None then Inr (the relay)
          else Inr (s_sid (sessions st (pg_session (pgrps st (p_pgrp (procs st p)))))))"

definition S_proc_getsessionpids :: "int \<Rightarrow> int list option \<Rightarrow> nat \<Rightarrow> pserver \<Rightarrow> allocs \<Rightarrow> (error_t + int list) \<times> allocs" where
  "S_proc_getsessionpids sid relay n st orc =
     (if namespace_is_subprocess (pid_find sid st) st \<and> relay \<noteq> None then (Inr (the relay), orc)
      else case session_find sid st of
             None \<Rightarrow> (Inl ESRCH, orc)
           | Some s \<Rightarrow> out_list n (concat (map (\<lambda>g. map (\<lambda>p. p_pid (procs st p)) (pg_plist (pgrps st g))) (s_pgrps (sessions st s)))) orc)"

definition S_proc_getsessionpgids :: "int \<Rightarrow> int list option \<Rightarrow> nat \<Rightarrow> pserver \<Rightarrow> allocs \<Rightarrow> (error_t + int list) \<times> allocs" where
  "S_proc_getsessionpgids sid relay n st orc =
     (if namespace_is_subprocess (pid_find sid st) st \<and> relay \<noteq> None then (Inr (the relay), orc)
      else case session_find sid st of
             None \<Rightarrow> (Inl ESRCH, orc)
           | Some s \<Rightarrow> out_list n (map (\<lambda>g. pg_pgid (pgrps st g)) (s_pgrps (sessions st s))) orc)"

definition S_proc_getpgrppids :: "nat option \<Rightarrow> int \<Rightarrow> int list option \<Rightarrow> nat \<Rightarrow> pserver \<Rightarrow> allocs \<Rightarrow> ((error_t + int list) \<times> allocs) option" where
  "S_proc_getpgrppids callerp pgid relay n st orc =
     (let answer = (\<lambda>g. out_list n (map (\<lambda>p. p_pid (procs st p)) (filter (\<lambda>p. \<not> p_important (procs st p)) (pg_plist (pgrps st g)))) orc)
      in if namespace_is_subprocess (pid_find pgid st) st \<and> relay \<noteq> None then Some (Inr (the relay), orc)
         else if pgid = 0 then map_option (\<lambda>c. answer (p_pgrp (procs st c))) callerp
         else (case pgrp_find pgid st of None \<Rightarrow> Some (Inl ESRCH, orc) | Some g \<Rightarrow> Some (answer g)))"

definition S_proc_getsidport :: "nat option \<Rightarrow> error_t + mach_port \<Rightarrow> pserver \<Rightarrow> error_t \<times> mach_port \<times> pserver" where
  "S_proc_getsidport pi receive st =
     (case pi of
        None \<Rightarrow> (EOPNOTSUPP, 0, st)
      | Some p \<Rightarrow>
          let s = pg_session (pgrps st (p_pgrp (procs st p)))
          in if s_sessionid (sessions st s) = 0
             then (case receive of Inl err \<Rightarrow> (err, 0, st) | Inr n \<Rightarrow> (Success, n, upd_session s (\<lambda>ss. ss\<lparr>s_sessionid := n\<rparr>) st))
             else (Success, s_sessionid (sessions st s), st))"

definition S_proc_getpgrp :: "int \<Rightarrow> pserver \<Rightarrow> error_t + int" where
  "S_proc_getpgrp pid st = (case pid_find pid st of None \<Rightarrow> Inl ESRCH | Some p \<Rightarrow> Inr (pg_pgid (pgrps st (p_pgrp (procs st p)))))"

definition S_proc_mark_exec :: "nat option \<Rightarrow> pserver \<Rightarrow> error_t \<times> pserver" where
  "S_proc_mark_exec pi st = (case pi of None \<Rightarrow> (EOPNOTSUPP, st) | Some p \<Rightarrow> (Success, upd_proc p (\<lambda>q. q\<lparr>p_exec := True\<rparr>) st))"

section \<open>New processes\<close>

text \<open>The loops of \<^verbatim>\<open>genpid\<close>; \<open>None\<close> is a loop that does not end.\<close>

partial_function (option) skip_used :: "int option \<Rightarrow> int \<Rightarrow> pserver \<Rightarrow> int option" where
  "skip_used limit n st = (if (case limit of None \<Rightarrow> True | Some w \<Rightarrow> n < w) \<and> \<not> pidfree n st then skip_used limit (n + 1) st else Some n)"

partial_function (option) double_wrap :: "int \<Rightarrow> int \<Rightarrow> int option" where
  "double_wrap n w = (if n > w then double_wrap n (2 * w) else Some w)"

declare skip_used.simps [code] double_wrap.simps [code]

abbreviation (input) START_OVER :: int where "START_OVER \<equiv> 100"
abbreviation (input) WRAP_AROUND :: int where "WRAP_AROUND \<equiv> 30000"

definition genpid :: "pserver \<Rightarrow> (int \<times> pserver) option" where
  "genpid st =
     (case skip_used (Some (wrap st)) (nextpid st) st of
        None \<Rightarrow> None
      | Some n \<Rightarrow>
          if n \<ge> wrap st then
            (case skip_used None START_OVER st of
               None \<Rightarrow> None | Some m \<Rightarrow> map_option (\<lambda>w. (m, st\<lparr>nextpid := m + 1, wrap := w\<rparr>)) (double_wrap m (wrap st)))
          else Some (n, st\<lparr>nextpid := n + 1\<rparr>))"

definition no_rusage :: rusage where
  "no_rusage = \<lparr>ru_utime = (0, 0), ru_stime = (0, 0), ru_maxrss = 0, ru_ixrss = 0, ru_idrss = 0, ru_isrss = 0, ru_minflt = 0, ru_majflt = 0,
     ru_nswap = 0, ru_inblock = 0, ru_oublock = 0, ru_msgsnd = 0, ru_msgrcv = 0, ru_nsignals = 0, ru_nvcsw = 0, ru_nivcsw = 0\<rparr>"

text \<open>A structure with all fields zero but the task.\<close>

definition new_structure :: "mach_port \<Rightarrow> proc" where
  "new_structure task =
     \<lparr>p_task = task, p_pid = 0, p_login = [], p_id = [], p_parent = 0, p_ochild = [], p_pgrp = 0, p_task_namespace = 0, p_msgport = 0,
      p_status = 0, p_sigcode = 0, p_rusage = no_rusage, p_child_rusage = no_rusage, p_exec = False, p_stopped = False, p_waited = False,
      p_exiting = False, p_waiting = False, p_traced = False, p_nostopcld = False, p_parentset = False, p_deadmsg = False,
      p_checkmsghangs = False, p_msgportwait = False, p_loginleader = False, p_dead = False, p_important = False, p_continued = False\<rparr>"

definition allocate_proc :: "mach_port \<Rightarrow> pserver \<Rightarrow> allocs \<Rightarrow> nat option \<times> pserver \<times> allocs" where
  "allocate_proc task st orc =
     (case alloc orc of
        (None, o1) \<Rightarrow> (None, st, o1)
      | (Some j, o1) \<Rightarrow> (Some (unat j), st\<lparr>procs := (procs st)(unat j := new_structure task), proc_heap := unat j # proc_heap st\<rparr>, o1))"

definition create_init_proc :: "pserver \<Rightarrow> allocs \<Rightarrow> (nat \<times> pserver \<times> allocs) option" where
  "create_init_proc st orc =
     (case allocate_proc 0 st orc of
        (None, _) \<Rightarrow> None
      | (Some p, st1, o1) \<Rightarrow>
          map_option (\<lambda>(s, o2). (p, s, o2))
            (boot_setsid p (upd_proc p (\<lambda>q. q\<lparr>p_pid := 1, p_parent := p, p_ochild := [p], p_parentset := True, p_deadmsg := True, p_important := True,
                                              p_id := [0], p_loginleader := True, p_login := ''root''\<rparr>) st1) o1))"

definition complete_proc :: "nat \<Rightarrow> int \<Rightarrow> pserver \<Rightarrow> pserver" where
  "complete_proc p pid st =
     (let i = init_proc st;
          st1 = upd_proc p (\<lambda>q. q\<lparr>p_pid := pid, p_id := (if pid = 2 then [0] else []), p_login := ''<none>'', p_parent := i, p_loginleader := False,
                                    p_ochild := [], p_parentset := False, p_pgrp := p_pgrp (procs st i)\<rparr>) st;
          st2 = upd_proc i (\<lambda>q. q\<lparr>p_ochild := p # p_ochild q\<rparr>) st1
      in join_pgrp p (if pid \<noteq> 2 then add_proc_to_hash p st2 else st2))"

definition new_proc :: "mach_port \<Rightarrow> pserver \<Rightarrow> allocs \<Rightarrow> (nat option \<times> pserver \<times> allocs) option" where
  "new_proc task st orc =
     (case allocate_proc task st orc of
        (None, st1, o1) \<Rightarrow> Some (None, st1, o1)
      | (Some p, st1, o1) \<Rightarrow> map_option (\<lambda>(pid, st2). (Some p, complete_proc p pid st2, o1)) (genpid st1))"

text \<open>The processes that \<^verbatim>\<open>main\<close> makes: \<^verbatim>\<open>init\<close>, \<^verbatim>\<open>startup\<close> with the task it tells us, and the process server itself with the given task.\<close>

definition boot :: "mach_port \<Rightarrow> mach_port \<Rightarrow> pserver \<Rightarrow> allocs \<Rightarrow> (pserver \<times> allocs) option" where
  "boot self_task startup_task st orc =
     (case create_init_proc st orc of
        None \<Rightarrow> None
      | Some (i, st1, o1) \<Rightarrow>
          (case allocate_proc 0 (st1\<lparr>init_proc := i\<rparr>) o1 of
             (None, _) \<Rightarrow> None
           | (Some u, st2, o2) \<Rightarrow>
               (case allocate_proc self_task (complete_proc u 2 (upd_proc u (\<lambda>q. q\<lparr>p_deadmsg := True\<rparr>) (st2\<lparr>startup_proc := u\<rparr>))) o2 of
                  (None, _) \<Rightarrow> None
                | (Some p, st3, o3) \<Rightarrow>
                    Some (add_proc_to_hash u (upd_proc u (\<lambda>q. q\<lparr>p_task := startup_task\<rparr>) (complete_proc p 4 st3)), o3))))"

text \<open>\<open>tasks\<close> are the tasks that the kernel lists.\<close>

fun add_tasks :: "mach_port \<Rightarrow> mach_port list \<Rightarrow> pserver \<Rightarrow> allocs \<Rightarrow> (nat option \<times> pserver \<times> allocs) option" where
  "add_tasks task [] st orc = Some (None, st, orc)"
| "add_tasks task (t # ts) st orc =
     (if \<not> valid_port t then add_tasks task ts st orc
      else
        case (case task_find_nocreate t st of None \<Rightarrow> new_proc t st orc | Some p \<Rightarrow> Some (Some p, st, orc)) of
          None \<Rightarrow> None
        | Some (p, st1, o1) \<Rightarrow> if t = task \<and> p \<noteq> None then Some (p, st1, o1) else add_tasks task ts st1 o1)"

definition task_find :: "mach_port \<Rightarrow> mach_port list \<Rightarrow> pserver \<Rightarrow> allocs \<Rightarrow> (nat option \<times> pserver \<times> allocs) option" where
  "task_find task tasks st orc =
     (case map_of (taskhash st) task of
        Some p \<Rightarrow> Some (if p_dead (procs st p) then None else Some p, st, orc)
      | None \<Rightarrow> map_option (\<lambda>(r, s, o1). (case r of None \<Rightarrow> None | Some p \<Rightarrow> if p_dead (procs s p) then None else Some p, s, o1))
                  (add_tasks task tasks st orc))"

text \<open>The steps of \<^verbatim>\<open>S_proc_child\<close>: \<open>c\<close> becomes a child of \<open>a\<close>, goes to its group, and is marked.\<close>

definition adopt :: "nat \<Rightarrow> nat \<Rightarrow> pserver \<Rightarrow> pserver" where
  "adopt a c st =
     (let st1 = upd_proc c (\<lambda>q. q\<lparr>p_login := p_login (procs st a), p_id := p_id (procs st a)\<rparr>) st;
          st2 = upd_proc (p_parent (procs st1 c)) (\<lambda>q. q\<lparr>p_ochild := remove1 c (p_ochild q)\<rparr>) st1;
          st3 = upd_proc c (\<lambda>q. q\<lparr>p_parent := a\<rparr>) st2
      in upd_proc a (\<lambda>q. q\<lparr>p_ochild := c # p_ochild q\<rparr>) st3)"

definition inherit_pgrp :: "nat \<Rightarrow> nat \<Rightarrow> pserver \<Rightarrow> pserver option" where
  "inherit_pgrp a c st =
     (let pg = p_pgrp (procs st a)
      in if p_pgrp (procs st c) \<noteq> pg then map_option (\<lambda>s. join_pgrp c (set_pgrp c pg s)) (leave_pgrp c st)
         else Some (newids (pg_pgid (pgrps st pg)) (pg_orphcnt (pgrps st pg) = 0) c st))"

definition mark_child :: "nat \<Rightarrow> nat \<Rightarrow> pserver \<Rightarrow> pserver" where
  "mark_child a c st =
     upd_proc c (\<lambda>q. q\<lparr>p_parentset := True,
       p_task_namespace := (if valid_port (p_task_namespace (procs st a)) then p_task_namespace (procs st a) else p_task_namespace q)\<rparr>) st"

definition S_proc_child :: "nat option \<Rightarrow> mach_port \<Rightarrow> mach_port list \<Rightarrow> pserver \<Rightarrow> allocs \<Rightarrow> (error_t \<times> pserver \<times> allocs) option" where
  "S_proc_child parentp childt tasks st0 orc =
     (case parentp of
        None \<Rightarrow> Some (EOPNOTSUPP, st0, orc)
      | Some a \<Rightarrow>
          (case task_find childt tasks st0 orc of
             None \<Rightarrow> None
           | Some (None, st, o1) \<Rightarrow> Some (ESRCH, st, o1)
           | Some (Some c, st, o1) \<Rightarrow>
               if p_parentset (procs st c) then Some (EBUSY, st, o1)
               else if p_parent (procs st c) \<noteq> init_proc st then None
               else map_option (\<lambda>s. (Success, mark_child a c s, o1)) (inherit_pgrp a c (adopt a c st))))"

end
