(* ===== verification/Proc_Exit.thy ===== *)
theory Proc_Exit
  imports Proc
begin

text \<open>
  The end of a process: \<^verbatim>\<open>process_has_exited\<close>, \<^verbatim>\<open>complete_exit\<close> and \<^verbatim>\<open>proc_reassign\<close> of \<^verbatim>\<open>mgt.c\<close>, waiting for children in \<^verbatim>\<open>wait.c\<close>, and message
  ports in \<^verbatim>\<open>msg.c\<close>.
\<close>

section \<open>Usage of resources\<close>

definition timeradd :: "int \<times> int \<Rightarrow> int \<times> int \<Rightarrow> int \<times> int" where
  "timeradd a b = (let sec = fst a + fst b; usec = snd a + snd b in if usec \<ge> 1000000 then (sec + 1, usec - 1000000) else (sec, usec))"

definition rusage_add :: "rusage \<Rightarrow> rusage \<Rightarrow> rusage" where
  "rusage_add acc b =
     \<lparr>ru_utime = timeradd (ru_utime acc) (ru_utime b), ru_stime = timeradd (ru_stime acc) (ru_stime b),
      ru_maxrss = ru_maxrss acc + ru_maxrss b, ru_ixrss = ru_ixrss acc + ru_ixrss b, ru_idrss = ru_idrss acc + ru_idrss b,
      ru_isrss = ru_isrss acc + ru_isrss b, ru_minflt = ru_minflt acc + ru_minflt b, ru_majflt = ru_majflt acc + ru_majflt b,
      ru_nswap = ru_nswap acc + ru_nswap b, ru_inblock = ru_inblock acc + ru_inblock b, ru_oublock = ru_oublock acc + ru_oublock b,
      ru_msgsnd = ru_msgsnd acc + ru_msgsnd b, ru_msgrcv = ru_msgrcv acc + ru_msgrcv b, ru_nsignals = ru_nsignals acc + ru_nsignals b,
      ru_nvcsw = ru_nvcsw acc + ru_nvcsw b, ru_nivcsw = ru_nivcsw acc + ru_nivcsw b\<rparr>"

text \<open>What the kernel tells of a task: its times, those of its live threads, and its events; zero where the call fails.\<close>

record task_infos =
  bi_user :: "int \<times> int"
  bi_system :: "int \<times> int"
  tti_user :: "int \<times> int"
  tti_system :: "int \<times> int"
  ei_faults :: int
  ei_pageins :: int
  ei_messages_sent :: int
  ei_messages_received :: int

definition sample_rusage :: "nat \<Rightarrow> task_infos \<Rightarrow> pserver \<Rightarrow> pserver" where
  "sample_rusage p i st =
     upd_proc p (\<lambda>q. q\<lparr>p_rusage := no_rusage\<lparr>ru_utime := timeradd (bi_user i) (tti_user i), ru_stime := timeradd (bi_system i) (tti_system i),
       ru_majflt := ei_pageins i, ru_minflt := ei_faults i - ei_pageins i, ru_msgsnd := ei_messages_sent i,
       ru_msgrcv := ei_messages_received i\<rparr>\<rparr>) st"

section \<open>Death\<close>

abbreviation (input) CLD_EXITED :: int where "CLD_EXITED \<equiv> 1"
abbreviation (input) CLD_STOPPED :: int where "CLD_STOPPED \<equiv> 5"
abbreviation (input) CLD_CONTINUED :: int where "CLD_CONTINUED \<equiv> 6"

definition wake_waiting :: "nat \<Rightarrow> pserver \<Rightarrow> pserver" where
  "wake_waiting p st =
     (if p_waiting (procs st p) then upd_proc p (\<lambda>q. q\<lparr>p_waiting := False\<rparr>) (st\<lparr>wakeups := p # wakeups st\<rparr>) else st)"

text \<open>The status of a process that has been killed without notice is \<^verbatim>\<open>W_EXITCODE (0, SIGKILL)\<close>.\<close>

definition alert_parent :: "nat \<Rightarrow> pserver \<Rightarrow> pserver" where
  "alert_parent p st =
     (let a = p_parent (procs st p);
          st1 = upd_proc a (\<lambda>q. q\<lparr>p_child_rusage := rusage_add (p_child_rusage q) (p_rusage (procs st p))\<rparr>) st;
          st2 = upd_proc a (\<lambda>q. q\<lparr>p_child_rusage := rusage_add (p_child_rusage q) (p_child_rusage (procs st1 p))\<rparr>) st1;
          st3 = send_signal a SIGCHLD CLD_EXITED st2;
          st4 = (if \<not> p_exiting (procs st3 p) then upd_proc p (\<lambda>q. q\<lparr>p_status := 9, p_sigcode := -1\<rparr>) st3 else st3)
      in wake_waiting a st4)"

definition check_message_dying :: "nat \<Rightarrow> pserver \<Rightarrow> pserver" where
  "check_message_dying p st =
     (if p_msgportwait (procs st p) then upd_proc p (\<lambda>q. q\<lparr>p_msgportwait := False\<rparr>) (st\<lparr>wakeups := p # wakeups st\<rparr>) else st)"

text \<open>Up the hierarchy to the creator of the namespace; \<open>None\<close> is a walk that does not end.\<close>

partial_function (option) namespace_find_root :: "nat \<Rightarrow> pserver \<Rightarrow> nat option" where
  "namespace_find_root p st =
     (let a = p_parent (procs st p) in if valid_port (p_task_namespace (procs st a)) then namespace_find_root a st else Some p)"

declare namespace_find_root.simps [code]

definition reparent :: "nat \<Rightarrow> nat \<Rightarrow> pserver \<Rightarrow> pserver" where
  "reparent a c st =
     (let q = procs st c; g = p_pgrp q;
          st1 = (if p_msgport q \<noteq> 0 then say (Newids (p_msgport q) (p_task q) 1 (pg_pgid (pgrps st g)) (pg_orphcnt (pgrps st g) = 0)) st else st)
      in upd_proc c (\<lambda>q. q\<lparr>p_parent := a\<rparr>) st1)"

text \<open>The children of \<open>p\<close> go to \<open>a\<close>. Only the children before the last one are looked at for zombies.\<close>

definition reparent_children :: "nat \<Rightarrow> nat \<Rightarrow> pserver \<Rightarrow> pserver" where
  "reparent_children p a st =
     (let cs = p_ochild (procs st p); isdead = (\<exists>c \<in> set (butlast cs). p_dead (procs st c));
          st1 = fold (reparent a) cs st;
          st2 = upd_proc a (\<lambda>q. q\<lparr>p_ochild := cs @ p_ochild q\<rparr>) st1
      in if isdead then alert_parent a st2 else st2)"

text \<open>Whom the children of \<open>p\<close> go to, and whether \<open>p\<close> has created its namespace, whose tasks are terminated.\<close>

definition new_parent :: "nat \<Rightarrow> pserver \<Rightarrow> (nat \<times> pserver) option" where
  "new_parent p st =
     (if valid_port (p_task_namespace (procs st p)) then
        map_option (\<lambda>r. if r = p then (init_proc st, upd_proc p (\<lambda>q. q\<lparr>p_task_namespace := 0\<rparr>) st) else (r, st)) (namespace_find_root p st)
      else Some (init_proc st, st))"

definition complete_exit :: "nat \<Rightarrow> pserver \<Rightarrow> pserver option" where
  "complete_exit p st =
     (if \<not> p_dead (procs st p) \<or> \<not> p_waited (procs st p) then None
      else
        case remove_proc_from_hash p st of
          None \<Rightarrow> None
        | Some st1 \<Rightarrow>
            let st2 = upd_proc p (\<lambda>q. q\<lparr>p_task := 0\<rparr>) st1;
                st3 = upd_proc (p_parent (procs st2 p)) (\<lambda>q. q\<lparr>p_ochild := remove1 p (p_ochild q)\<rparr>) st2
            in map_option (\<lambda>s. s\<lparr>proc_heap := removeAll p (proc_heap s), released := p # released s\<rparr>) (leave_pgrp p st3))"

definition process_has_exited :: "nat \<Rightarrow> pserver \<Rightarrow> pserver option" where
  "process_has_exited p st =
     (if p_dead (procs st p) then Some st
      else
        let st1 = upd_proc p (\<lambda>q. q\<lparr>p_waited := False\<rparr>) st;
            st2 = (if p_task (procs st1 p) \<noteq> 0 then alert_parent p st1 else st1);
            st3 = upd_proc p (\<lambda>q. q\<lparr>p_msgport := 0\<rparr>) st2;
            st4 = prociterate check_message_dying st3
        in (case (if p_ochild (procs st4 p) \<noteq> [] then map_option (\<lambda>(a, s). reparent_children p a s) (new_parent p st4) else Some st4) of
              None \<Rightarrow> None
            | Some st5 \<Rightarrow>
                let st6 = (if p_waiting (procs st5 p) \<or> p_msgportwait (procs st5 p) then st5\<lparr>wakeups := p # wakeups st5\<rparr> else st5);
                    st7 = upd_proc p (\<lambda>q. q\<lparr>p_dead := True\<rparr>) st6
                in if valid_port (p_task_namespace (procs st7 p)) then complete_exit p (upd_proc p (\<lambda>q. q\<lparr>p_waited := True\<rparr>) st7) else Some st7))"

definition S_proc_reassign :: "nat option \<Rightarrow> mach_port \<Rightarrow> mach_port list \<Rightarrow> pserver \<Rightarrow> allocs \<Rightarrow> (error_t \<times> pserver \<times> allocs) option" where
  "S_proc_reassign pi newt tasks st0 orc =
     (case pi of
        None \<Rightarrow> Some (EOPNOTSUPP, st0, orc)
      | Some p \<Rightarrow>
          (case task_find newt tasks st0 orc of
             None \<Rightarrow> None
           | Some (None, st, o1) \<Rightarrow> Some (ESRCH, st, o1)
           | Some (Some stub, st, o1) \<Rightarrow>
               if stub = p then Some (EINVAL, st, o1)
               else
                 (case remove_proc_from_hash p st of
                    None \<Rightarrow> None
                  | Some st1 \<Rightarrow>
                      let st2 = upd_proc p (\<lambda>q. q\<lparr>p_task := p_task (procs st1 stub), p_msgport := 0, p_deadmsg := (p_msgport q \<noteq> 0 \<or> p_deadmsg q)\<rparr>) st1;
                          st3 = upd_proc stub (\<lambda>q. q\<lparr>p_task := 0\<rparr>) st2
                      in (case process_has_exited stub st3 of
                            None \<Rightarrow> None
                          | Some st4 \<Rightarrow>
                              (case complete_exit stub (upd_proc stub (\<lambda>q. q\<lparr>p_waited := True\<rparr>) st4) of
                                 None \<Rightarrow> None | Some st5 \<Rightarrow> Some (Success, add_proc_to_hash p st5, o1))))))"

definition S_proc_make_task_namespace :: "nat option \<Rightarrow> mach_port \<Rightarrow> pserver \<Rightarrow> error_t \<times> pserver" where
  "S_proc_make_task_namespace callerp notify st =
     (case callerp of
        None \<Rightarrow> (EOPNOTSUPP, st)
      | Some c \<Rightarrow>
          if \<not> valid_port notify then (EINVAL, st)
          else if valid_port (p_task_namespace (procs st c)) then (EBUSY, st)
          else (Success, upd_proc c (\<lambda>q. q\<lparr>p_task_namespace := notify\<rparr>) st))"

definition S_proc_set_init_task :: "nat option \<Rightarrow> mach_port \<Rightarrow> pserver \<Rightarrow> (error_t \<times> pserver) option" where
  "S_proc_set_init_task callerp task st =
     (case callerp of
        None \<Rightarrow> Some (EOPNOTSUPP, st)
      | Some c \<Rightarrow>
          if c \<noteq> startup_proc st then Some (EPERM, st)
          else
            (case (case task_find_nocreate task st of
                     None \<Rightarrow> Some st
                   | Some shadow \<Rightarrow> complete_exit shadow (upd_proc shadow (\<lambda>q. q\<lparr>p_dead := True, p_waited := True, p_task := 0\<rparr>) st)) of
               None \<Rightarrow> None
             | Some st1 \<Rightarrow>
                 let i = init_proc st1 in Some (Success, add_proc_to_hash i (upd_proc i (\<lambda>q. q\<lparr>p_task := task\<rparr>) st1))))"

section \<open>Waiting for children\<close>

datatype wait_option = WNOHANG | WUNTRACED | WCONTINUED | WNOWAIT | WEXITED

record wait_result =
  w_status :: int
  w_sigcode :: int
  w_rusage :: rusage
  w_pid :: int

definition waiter_cares :: "int \<Rightarrow> int \<Rightarrow> int \<Rightarrow> int \<Rightarrow> bool" where
  "waiter_cares wait_pid mypgrp pid pgrp \<longleftrightarrow> wait_pid = pid \<or> wait_pid = - pgrp \<or> wait_pid = -1 \<or> wait_pid = 0 \<and> pgrp = mypgrp"

definition reapable :: "wait_option set \<Rightarrow> proc \<Rightarrow> bool" where
  "reapable opts c \<longleftrightarrow>
     \<not> (p_waited c \<or> (\<not> p_dead c \<or> WEXITED \<notin> opts) \<and> (\<not> p_stopped c \<or> \<not> (p_traced c \<or> WUNTRACED \<in> opts)) \<and>
        (\<not> p_continued c \<or> WCONTINUED \<notin> opts))"

definition reap :: "wait_option set \<Rightarrow> nat \<Rightarrow> pserver \<Rightarrow> (wait_result option \<times> pserver) option" where
  "reap opts child st =
     (let c = procs st child; r = \<lparr>w_status = p_status c, w_sigcode = p_sigcode c, w_rusage = p_rusage c, w_pid = p_pid c\<rparr>
      in if \<not> reapable opts c then Some (None, st)
         else if WNOWAIT \<in> opts then Some (Some r, st)
         else
           let st1 = upd_proc child (\<lambda>q. q\<lparr>p_waited := True\<rparr>) st
           in if p_dead c then map_option (\<lambda>s. (Some r, s)) (complete_exit child st1) else Some (Some r, st1))"

text \<open>The loop over the children: what it has found, and whether a child has matched.\<close>

fun wait_children :: "wait_option set \<Rightarrow> int \<Rightarrow> int \<Rightarrow> nat list \<Rightarrow> bool \<Rightarrow> pserver \<Rightarrow> (wait_result option \<times> bool \<times> pserver) option" where
  "wait_children opts pid mypgrp [] had st = Some (None, had, st)"
| "wait_children opts pid mypgrp (c # cs) had st =
     (if waiter_cares pid mypgrp (p_pid (procs st c)) (pg_pgid (pgrps st (p_pgrp (procs st c)))) then
        (case reap opts c st of
           None \<Rightarrow> None
         | Some (Some r, s) \<Rightarrow> Some (Some r, True, s)
         | Some (None, s) \<Rightarrow> wait_children opts pid mypgrp cs True s)
      else wait_children opts pid mypgrp cs had st)"

datatype wait_outcome = Wait_Done "error_t + wait_result" | Wait_Sleep

definition wait_pass :: "nat \<Rightarrow> int \<Rightarrow> wait_option set \<Rightarrow> pserver \<Rightarrow> (wait_outcome \<times> pserver) option" where
  "wait_pass p pid opts st =
     (let sleep = (\<lambda>s. if WNOHANG \<in> opts then (Wait_Done (Inl EWOULDBLOCK), s) else (Wait_Sleep, upd_proc p (\<lambda>q. q\<lparr>p_waiting := True\<rparr>) s))
      in if p_ochild (procs st p) = [] then Some (Wait_Done (Inl ECHILD), st)
         else if pid > 0 then
           (case pid_find_allow_zombie pid st of
              None \<Rightarrow> Some (Wait_Done (Inl ECHILD), st)
            | Some c \<Rightarrow>
                if p_parent (procs st c) \<noteq> p then Some (Wait_Done (Inl ECHILD), st)
                else
                  (case reap opts c st of
                     None \<Rightarrow> None | Some (Some r, s) \<Rightarrow> Some (Wait_Done (Inr r), s) | Some (None, s) \<Rightarrow> Some (sleep s)))
         else
           (case wait_children opts pid (pg_pgid (pgrps st (p_pgrp (procs st p)))) (p_ochild (procs st p)) (pid = 0) st of
              None \<Rightarrow> None
            | Some (Some r, _, s) \<Rightarrow> Some (Wait_Done (Inr r), s)
            | Some (None, had, s) \<Rightarrow> Some (if had then sleep s else (Wait_Done (Inl ECHILD), s))))"

text \<open>
  While the call sleeps others change the state; each element of the list is such a change and whether the call is cancelled then. \<open>None\<close> is
  a failed assertion or a call that is still asleep when the list ends.
\<close>

fun waitid_loop ::
  "nat \<Rightarrow> int \<Rightarrow> wait_option set \<Rightarrow> ((pserver \<Rightarrow> pserver) \<times> bool) list \<Rightarrow> pserver \<Rightarrow> ((error_t + wait_result) \<times> pserver) option" where
  "waitid_loop p pid opts ws st =
     (case wait_pass p pid opts st of
        None \<Rightarrow> None
      | Some (Wait_Done r, s) \<Rightarrow> Some (r, s)
      | Some (Wait_Sleep, s) \<Rightarrow>
          (case ws of
             [] \<Rightarrow> None
           | (f, cancel) # ws' \<Rightarrow>
               let s' = f s
               in if p_dead (procs s' p) then Some (Inl EOPNOTSUPP, s')
                  else if cancel then Some (Inl EINTR, s') else waitid_loop p pid opts ws' s'))"

declare waitid_loop.simps [simp del]

definition S_proc_waitid ::
  "nat option \<Rightarrow> int \<Rightarrow> wait_option set \<Rightarrow> ((pserver \<Rightarrow> pserver) \<times> bool) list \<Rightarrow> pserver \<Rightarrow> ((error_t + wait_result) \<times> pserver) option" where
  "S_proc_waitid pi pid opts ws st = (case pi of None \<Rightarrow> Some (Inl EOPNOTSUPP, st) | Some p \<Rightarrow> waitid_loop p pid opts ws st)"

definition S_proc_wait ::
  "nat option \<Rightarrow> int \<Rightarrow> wait_option set \<Rightarrow> ((pserver \<Rightarrow> pserver) \<times> bool) list \<Rightarrow> pserver \<Rightarrow> ((error_t + wait_result) \<times> pserver) option" where
  "S_proc_wait pi pid opts ws st = S_proc_waitid pi pid (insert WEXITED opts) ws st"

definition tell_parent :: "nat \<Rightarrow> int \<Rightarrow> pserver \<Rightarrow> pserver" where
  "tell_parent p code st =
     (let a = p_parent (procs st p); st1 = wake_waiting a st in if \<not> p_nostopcld (procs st1 a) then send_signal a SIGCHLD code st1 else st1)"

definition S_proc_mark_stop :: "nat option \<Rightarrow> int \<Rightarrow> int \<Rightarrow> pserver \<Rightarrow> error_t \<times> pserver" where
  "S_proc_mark_stop pi signo sigcode st =
     (case pi of
        None \<Rightarrow> (EOPNOTSUPP, st)
      | Some p \<Rightarrow>
          (Success, tell_parent p CLD_STOPPED
             (upd_proc p (\<lambda>q. q\<lparr>p_stopped := True, p_continued := False, p_status := 256 * signo + 127, p_sigcode := sigcode, p_waited := False\<rparr>) st)))"

definition S_proc_mark_cont :: "nat option \<Rightarrow> pserver \<Rightarrow> error_t \<times> pserver" where
  "S_proc_mark_cont pi st =
     (case pi of
        None \<Rightarrow> (EOPNOTSUPP, st)
      | Some p \<Rightarrow>
          (Success, tell_parent p CLD_CONTINUED
             (upd_proc p (\<lambda>q. q\<lparr>p_stopped := False, p_continued := True, p_status := 65535, p_waited := False\<rparr>) st)))"

definition S_proc_mark_exit :: "nat option \<Rightarrow> int \<Rightarrow> int \<Rightarrow> task_infos \<Rightarrow> pserver \<Rightarrow> error_t \<times> pserver" where
  "S_proc_mark_exit pi status sigcode infos st =
     (case pi of
        None \<Rightarrow> (EOPNOTSUPP, st)
      | Some p \<Rightarrow>
          if status mod 256 = 127 then (EINVAL, st)
          else
            let st1 = sample_rusage p infos st
            in if p_exiting (procs st1 p) then (EBUSY, st1)
               else (Success, upd_proc p (\<lambda>q. q\<lparr>p_exiting := True, p_status := status, p_sigcode := sigcode\<rparr>) st1))"

definition S_proc_mark_traced :: "nat option \<Rightarrow> pserver \<Rightarrow> error_t \<times> pserver" where
  "S_proc_mark_traced pi st = (case pi of None \<Rightarrow> (EOPNOTSUPP, st) | Some p \<Rightarrow> (Success, upd_proc p (\<lambda>q. q\<lparr>p_traced := True\<rparr>) st))"

definition S_proc_mod_stopchild :: "nat option \<Rightarrow> bool \<Rightarrow> pserver \<Rightarrow> error_t \<times> pserver" where
  "S_proc_mod_stopchild pi value st = (case pi of None \<Rightarrow> (EOPNOTSUPP, st) | Some p \<Rightarrow> (Success, upd_proc p (\<lambda>q. q\<lparr>p_nostopcld := \<not> value\<rparr>) st))"

end
