(* ===== verification/Proc_Groups.thy ===== *)
theory Proc_Groups
  imports Proc_Exit
begin

text \<open>
  The invariant of the structures of the process server: lists of members agree with the pointers of the members, and hash tables with
  what exists. Leaving and joining groups and the creation and release of groups and sessions keep it.
\<close>

section \<open>Lists of members\<close>

text \<open>The objects \<open>A\<close> are on the lists \<open>L\<close> of their owners, which are among \<open>H\<close>.\<close>

definition owned :: "nat set \<Rightarrow> (nat \<Rightarrow> nat list) \<Rightarrow> (nat \<Rightarrow> nat) \<Rightarrow> nat set \<Rightarrow> bool" where
  "owned H L W A \<longleftrightarrow> (\<forall>h \<in> H. distinct (L h) \<and> set (L h) = {x \<in> A. W x = h}) \<and> (\<forall>x \<in> A. W x \<in> H)"

lemma owned_cong: "owned H L W A \<Longrightarrow> (\<And>h. h \<in> H \<Longrightarrow> L' h = L h) \<Longrightarrow> (\<And>x. x \<in> A \<Longrightarrow> W' x = W x) \<Longrightarrow> owned H L' W' A"
  unfolding owned_def by (auto cong: conj_cong)

lemma owned_insert:
  assumes "owned H L W A" "x \<notin> A" "h \<in> H" "L' h = x # L h" "\<And>k. k \<in> H \<Longrightarrow> k \<noteq> h \<Longrightarrow> L' k = L k" "W' x = h" "\<And>y. y \<in> A \<Longrightarrow> W' y = W y"
  shows "owned H L' W' (insert x A)"
proof -
  have "distinct (L' k) \<and> set (L' k) = {y \<in> insert x A. W' y = k}" if "k \<in> H" for k
    using assms that by (cases "k = h") (auto simp: owned_def)
  then show ?thesis using assms by (auto simp: owned_def)
qed

lemma owned_remove:
  assumes "owned H L W A" "L' (W x) = remove1 x (L (W x))" "\<And>k. k \<in> H \<Longrightarrow> k \<noteq> W x \<Longrightarrow> L' k = L k" "x \<in> A"
  shows "owned H L' W (A - {x})"
proof -
  have "distinct (L' k) \<and> set (L' k) = {y \<in> A - {x}. W y = k}" if "k \<in> H" for k
    using assms that by (cases "k = W x") (auto simp: owned_def)
  then show ?thesis using assms by (auto simp: owned_def)
qed

lemma owned_new: "owned H L W A \<Longrightarrow> h \<notin> H \<Longrightarrow> L' h = [] \<Longrightarrow> (\<And>k. k \<in> H \<Longrightarrow> L' k = L k) \<Longrightarrow> owned (insert h H) L' W A"
  unfolding owned_def by auto

lemma owned_free: "owned H L W A \<Longrightarrow> L h = [] \<Longrightarrow> owned (H - {h}) L W A"
  unfolding owned_def by (metis (mono_tags, lifting) Diff_iff empty_iff empty_set mem_Collect_eq singletonD)

lemma ownedD: "owned H L W A \<Longrightarrow> x \<in> A \<Longrightarrow> W x \<in> H" "owned H L W A \<Longrightarrow> h \<in> H \<Longrightarrow> set (L h) = {x \<in> A. W x = h}" "owned H L W A \<Longrightarrow> h \<in> H \<Longrightarrow> distinct (L h)"
  unfolding owned_def by auto

section \<open>Hash tables\<close>

definition keyed :: "nat set \<Rightarrow> (nat \<Rightarrow> 'k) \<Rightarrow> ('k \<times> nat) list \<Rightarrow> bool" where
  "keyed H K t \<longleftrightarrow> distinct (map fst t) \<and> set t = (\<lambda>h. (K h, h)) ` H"

lemma keyed_cong: "keyed H K t \<Longrightarrow> (\<And>h. h \<in> H \<Longrightarrow> K' h = K h) \<Longrightarrow> keyed H K' t"
  unfolding keyed_def by (auto cong: image_cong)

lemma keyed_find: "keyed H K t \<Longrightarrow> map_of t k = Some h \<longleftrightarrow> h \<in> H \<and> K h = k"
  unfolding keyed_def by (auto simp: map_of_eq_Some_iff)

lemma keyed_none: "keyed H K t \<Longrightarrow> map_of t k = None \<longleftrightarrow> k \<notin> K ` H"
  unfolding keyed_def by (force simp: map_of_eq_None_iff)

lemma keyed_inj: "keyed H K t \<Longrightarrow> inj_on K H"
  using eq_key_imp_eq_value by (fastforce simp: keyed_def inj_on_def)

lemma keyed_add:
  assumes "keyed H K t" "h \<notin> H" "K' h = k" "\<And>x. x \<in> H \<Longrightarrow> K' x = K x" "k \<notin> K ` H"
  shows "keyed (insert h H) K' (hash_add k h t)"
proof -
  have "filter (\<lambda>e. fst e \<noteq> k) t = t" using assms(1,5) by (auto simp: keyed_def intro!: filter_True)
  then have "hash_add k h t = (k, h) # t" by (simp add: hash_add_def)
  then show ?thesis using assms by (force simp: keyed_def)
qed

lemma keyed_remove:
  assumes "keyed H K t" "h \<in> H"
  shows "\<exists>t'. hash_remove h t = Some t' \<and> keyed (H - {h}) K t'"
proof -
  have "distinct (map fst (filter P t))" for P using assms(1) by (simp add: keyed_def distinct_map_filter)
  then show ?thesis using assms by (force simp: keyed_def hash_remove_def)
qed

section \<open>Groups and sessions\<close>

text \<open>\<open>D\<close> are the processes that are between two groups, \<open>E\<close> and \<open>F\<close> the groups and sessions that may be empty.\<close>

definition groups :: "nat set \<Rightarrow> nat set \<Rightarrow> nat set \<Rightarrow> pserver \<Rightarrow> bool" where
  "groups D E F st \<longleftrightarrow>
     owned (set (pgrp_heap st)) (\<lambda>g. pg_plist (pgrps st g)) (\<lambda>p. p_pgrp (procs st p)) (set (proc_heap st) - D) \<and>
     owned (set (session_heap st)) (\<lambda>s. s_pgrps (sessions st s)) (\<lambda>g. pg_session (pgrps st g)) (set (pgrp_heap st)) \<and>
     keyed (set (pgrp_heap st)) (\<lambda>g. pg_pgid (pgrps st g)) (pghash st) \<and>
     keyed (set (session_heap st)) (\<lambda>s. s_sid (sessions st s)) (sidhash st) \<and>
     (\<forall>g \<in> set (pgrp_heap st) - E. pg_plist (pgrps st g) \<noteq> []) \<and> (\<forall>s \<in> set (session_heap st) - F. s_pgrps (sessions st s) \<noteq> [])"

lemma groupsI:
  assumes "owned (set (pgrp_heap st)) (\<lambda>g. pg_plist (pgrps st g)) (\<lambda>p. p_pgrp (procs st p)) (set (proc_heap st) - D)"
    "owned (set (session_heap st)) (\<lambda>s. s_pgrps (sessions st s)) (\<lambda>g. pg_session (pgrps st g)) (set (pgrp_heap st))"
    "keyed (set (pgrp_heap st)) (\<lambda>g. pg_pgid (pgrps st g)) (pghash st)" "keyed (set (session_heap st)) (\<lambda>s. s_sid (sessions st s)) (sidhash st)"
    "\<And>g. g \<in> set (pgrp_heap st) \<Longrightarrow> g \<notin> E \<Longrightarrow> pg_plist (pgrps st g) \<noteq> []" "\<And>s. s \<in> set (session_heap st) \<Longrightarrow> s \<notin> F \<Longrightarrow> s_pgrps (sessions st s) \<noteq> []"
  shows "groups D E F st"
  using assms unfolding groups_def by blast

lemma groupsD:
  assumes "groups D E F st"
  shows "owned (set (pgrp_heap st)) (\<lambda>g. pg_plist (pgrps st g)) (\<lambda>p. p_pgrp (procs st p)) (set (proc_heap st) - D)"
    "owned (set (session_heap st)) (\<lambda>s. s_pgrps (sessions st s)) (\<lambda>g. pg_session (pgrps st g)) (set (pgrp_heap st))"
    "keyed (set (pgrp_heap st)) (\<lambda>g. pg_pgid (pgrps st g)) (pghash st)" "keyed (set (session_heap st)) (\<lambda>s. s_sid (sessions st s)) (sidhash st)"
    "\<And>g. g \<in> set (pgrp_heap st) \<Longrightarrow> g \<notin> E \<Longrightarrow> pg_plist (pgrps st g) \<noteq> []" "\<And>s. s \<in> set (session_heap st) \<Longrightarrow> s \<notin> F \<Longrightarrow> s_pgrps (sessions st s) \<noteq> []"
  using assms unfolding groups_def by blast+

text \<open>What the invariant looks at.\<close>

definition same_groups :: "pserver \<Rightarrow> pserver \<Rightarrow> bool" where
  "same_groups st s \<longleftrightarrow> proc_heap s = proc_heap st \<and> pgrp_heap s = pgrp_heap st \<and> session_heap s = session_heap st \<and>
     pghash s = pghash st \<and> sidhash s = sidhash st \<and>
     (\<forall>p. p_pgrp (procs s p) = p_pgrp (procs st p)) \<and>
     (\<forall>g. pg_plist (pgrps s g) = pg_plist (pgrps st g) \<and> pg_session (pgrps s g) = pg_session (pgrps st g) \<and> pg_pgid (pgrps s g) = pg_pgid (pgrps st g)) \<and>
     (\<forall>x. s_pgrps (sessions s x) = s_pgrps (sessions st x) \<and> s_sid (sessions s x) = s_sid (sessions st x))"

lemma same_groups_inv: "same_groups st s \<Longrightarrow> groups D E F st \<Longrightarrow> groups D E F s"
  unfolding groups_def same_groups_def by simp

lemma same_groups_trans [trans]: "same_groups a b \<Longrightarrow> same_groups b c \<Longrightarrow> same_groups a c"
  unfolding same_groups_def by simp

lemma same_groups_refl [simp]: "same_groups st st"
  unfolding same_groups_def by simp

section \<open>Messages\<close>

text \<open>Messages and wake ups change nothing else.\<close>

definition talks :: "pserver \<Rightarrow> pserver \<Rightarrow> bool" where
  "talks st s \<longleftrightarrow> (\<exists>ms. s = st\<lparr>messages := ms\<rparr>)"

lemma talks_simps [simp]: "talks st st" "talks st (say m st)"
  by (auto simp: talks_def say_def) (metis pserver.surjective pserver.update_convs(15))

lemma talks_trans [trans]: "talks a b \<Longrightarrow> talks b c \<Longrightarrow> talks a c"
  by (auto simp: talks_def)

lemma talks_newids: "talks st (newids pgid x p st)"
  by (simp add: newids_def Let_def)

lemma talks_signal: "talks st (send_signal p sig code st)"
  by (simp add: send_signal_def)

lemma talks_fold: "(\<And>p s. talks s (f p s)) \<Longrightarrow> talks st (fold f ps st)"
proof (induction ps arbitrary: st)
  case (Cons p ps)
  then show ?case using talks_trans [of st "f p st" "fold f ps (f p st)"] by simp
qed simp

lemma talks_orphan: "talks st (orphan_pgrp g st)"
proof -
  have a: "talks st (fold (\<lambda>p s. newids (p_pid (procs s p)) True p s) ps st)" for ps st by (rule talks_fold) (rule talks_newids)
  have "talks s (fold (\<lambda>p s. send_signal p SIGCONT 0 (send_signal p SIGHUP 0 s)) ps s)" for ps s
    by (rule talks_fold) (rule talks_trans [OF talks_signal talks_signal])
  then have "talks st (fold (\<lambda>p s. send_signal p SIGCONT 0 (send_signal p SIGHUP 0 s)) ps (fold (\<lambda>p s. newids (p_pid (procs s p)) True p s) ps st))"
    for ps by (rule talks_trans [OF a])
  then show ?thesis using a by (simp add: orphan_pgrp_def Let_def)
qed

lemma talks_same: "talks st s \<Longrightarrow> same_groups st s"
  by (auto simp: talks_def same_groups_def)

section \<open>Leaving and joining\<close>

text \<open>
  Leaving takes a process off its list and releases what has become empty; all else stays. The structure of a session or group that is
  released keeps its contents.
\<close>

definition proc_frame :: "pserver \<Rightarrow> pserver \<Rightarrow> bool" where
  "proc_frame st s \<longleftrightarrow> procs s = procs st \<and> proc_heap s = proc_heap st \<and> pidhash s = pidhash st \<and> taskhash s = taskhash st \<and>
     init_proc s = init_proc st \<and> startup_proc s = startup_proc st \<and> nextpid s = nextpid st \<and> wrap s = wrap st"

definition left_pgrp :: "nat \<Rightarrow> pserver \<Rightarrow> pserver \<Rightarrow> bool" where
  "left_pgrp g st s \<longleftrightarrow> proc_frame st s \<and>
     set (pgrp_heap st) - {g} \<subseteq> set (pgrp_heap s) \<and> set (pgrp_heap s) \<subseteq> set (pgrp_heap st) \<and> set (session_heap s) \<subseteq> set (session_heap st) \<and>
     (\<forall>g. pg_session (pgrps s g) = pg_session (pgrps st g) \<and> pg_pgid (pgrps s g) = pg_pgid (pgrps st g)) \<and>
     (\<forall>x. s_sid (sessions s x) = s_sid (sessions st x))"

lemma proc_frame_simps: "proc_frame st st" "talks st s \<Longrightarrow> proc_frame st s" "proc_frame a b \<Longrightarrow> proc_frame b c \<Longrightarrow> proc_frame a c"
  by (auto simp: proc_frame_def talks_def)

lemma left_trans: "left_pgrp g a b \<Longrightarrow> left_pgrp g b c \<Longrightarrow> left_pgrp g a c"
  using proc_frame_simps(3) [of a b c] by (auto simp: left_pgrp_def)

lemma left_same: "same_groups st s \<Longrightarrow> proc_frame st s \<Longrightarrow> left_pgrp g st s"
  by (auto simp: left_pgrp_def same_groups_def)

lemma groups_off:
  assumes i: "groups D E F st" and p: "p \<in> set (proc_heap st)" "p \<notin> D" and s: "s = upd_pgrp (p_pgrp (procs st p)) (\<lambda>pg. pg\<lparr>pg_plist := remove1 p (pg_plist pg)\<rparr>) st"
  shows "groups (insert p D) (insert (p_pgrp (procs st p)) E) F s"
proof (rule groupsI)
  note d = groupsD [OF i]
  have "set (proc_heap s) - insert p D = (set (proc_heap st) - D) - {p}" by (auto simp: s)
  then show "owned (set (pgrp_heap s)) (\<lambda>g. pg_plist (pgrps s g)) (\<lambda>p. p_pgrp (procs s p)) (set (proc_heap s) - insert p D)"
    using owned_remove [OF d(1), of "\<lambda>g. pg_plist (pgrps s g)" p] p by (simp add: s)
  show "owned (set (session_heap s)) (\<lambda>s'. s_pgrps (sessions s s')) (\<lambda>g. pg_session (pgrps s g)) (set (pgrp_heap s))"
    using owned_cong [OF d(2), of "\<lambda>s'. s_pgrps (sessions s s')" "\<lambda>g. pg_session (pgrps s g)"] by (simp add: s)
  show "keyed (set (pgrp_heap s)) (\<lambda>g. pg_pgid (pgrps s g)) (pghash s)" using keyed_cong [OF d(3)] by (simp add: s)
  show "keyed (set (session_heap s)) (\<lambda>x. s_sid (sessions s x)) (sidhash s)" using d(4) by (simp add: s)
qed (use groupsD(5,6) [OF i] in \<open>auto simp: s\<close>)

lemma groups_weaken: "groups D E F st \<Longrightarrow> (\<And>g. g \<in> E \<Longrightarrow> g \<in> set (pgrp_heap st) \<Longrightarrow> pg_plist (pgrps st g) \<noteq> [] \<or> g \<in> E') \<Longrightarrow> groups D E' F st"
  unfolding groups_def by blast

lemma free_pgrp_groups:
  assumes i: "groups D (insert g E) F st" and g: "g \<in> set (pgrp_heap st)" "pg_plist (pgrps st g) = []"
  obtains s where "free_pgrp g st = Some s" "groups D E F s" "left_pgrp g st s"
proof -
  note d = groupsD [OF i]
  define x where "x = pg_session (pgrps st g)"
  define st1 where "st1 = upd_session x (\<lambda>ss. ss\<lparr>s_pgrps := remove1 g (s_pgrps ss)\<rparr>) st"
  have e: "session_heap st1 = session_heap st" "sidhash st1 = sidhash st" "pgrps st1 = pgrps st" "procs st1 = procs st" "proc_heap st1 = proc_heap st"
    "pgrp_heap st1 = pgrp_heap st" "pghash st1 = pghash st" "\<And>y. s_sid (sessions st1 y) = s_sid (sessions st y)"
    "\<And>y. y \<noteq> x \<Longrightarrow> sessions st1 y = sessions st y" "proc_frame st st1"
    by (simp_all add: st1_def proc_frame_def)
  have x: "x \<in> set (session_heap st)" using ownedD(1) [OF d(2) g(1)] by (simp add: x_def)
  have o1: "owned (set (session_heap st)) (\<lambda>s. s_pgrps (sessions st1 s)) (\<lambda>g. pg_session (pgrps st g)) (set (pgrp_heap st) - {g})"
    by (rule owned_remove [OF d(2)]) (use g in \<open>simp_all add: st1_def x_def\<close>)
  have o2: "owned (set (pgrp_heap st) - {g}) (\<lambda>g. pg_plist (pgrps st g)) (\<lambda>p. p_pgrp (procs st p)) (set (proc_heap st) - D)"
    by (rule owned_free [OF d(1) g(2)])
  obtain t where t: "hash_remove g (pghash st) = Some t" "keyed (set (pgrp_heap st) - {g}) (\<lambda>g. pg_pgid (pgrps st g)) t"
    using keyed_remove [OF d(3) g(1)] by blast
  define st2 where "st2 = (if s_pgrps (sessions st1 x) = [] then the (free_session x st1) else st1)"
  obtain t' where t': "hash_remove x (sidhash st) = Some t'" "keyed (set (session_heap st) - {x}) (\<lambda>s. s_sid (sessions st s)) t'"
    using keyed_remove [OF d(4) x] by blast
  have f: "free_session x st1 = Some (st1\<lparr>sidhash := t', session_heap := removeAll x (session_heap st)\<rparr>)"
    using t'(1) by (simp add: free_session_def e)
  have st2: "st2 = (if s_pgrps (sessions st1 x) = [] then st1\<lparr>sidhash := t', session_heap := removeAll x (session_heap st)\<rparr> else st1)"
    by (simp add: st2_def f)
  let ?s = "st2\<lparr>pghash := t, pgrp_heap := removeAll g (pgrp_heap st)\<rparr>"
  have r: "free_pgrp g st = Some ?s"
  proof -
    have "(if s_pgrps (sessions st1 x) = [] then free_session x st1 else Some st1) = Some st2" "pghash st2 = pghash st" "pgrp_heap st2 = pgrp_heap st"
      using f by (auto simp: st2 e)
    then show ?thesis using t(1) unfolding free_pgrp_def Let_def x_def [symmetric] st1_def [symmetric] by simp
  qed
  have k: "keyed (set (session_heap st)) (\<lambda>s. s_sid (sessions st1 s)) (sidhash st)" "keyed (set (session_heap st) - {x}) (\<lambda>s. s_sid (sessions st1 s)) t'"
    using d(4) t'(2) by (simp_all add: e)
  have "groups D E F ?s"
  proof (rule groupsI)
    show "owned (set (session_heap ?s)) (\<lambda>s. s_pgrps (sessions ?s s)) (\<lambda>g. pg_session (pgrps ?s g)) (set (pgrp_heap ?s))"
      using o1 owned_free [OF o1] by (auto simp: st2 e)
    show "keyed (set (session_heap ?s)) (\<lambda>x. s_sid (sessions ?s x)) (sidhash ?s)" using k by (auto simp: st2 e)
    show "s_pgrps (sessions ?s y) \<noteq> []" if "y \<in> set (session_heap ?s)" "y \<notin> F" for y
      using that d(6) [of y] e(9) [of y] by (cases "y = x") (auto simp: st2 e split: if_splits)
  qed (use o2 t d(5) in \<open>auto simp: st2 e\<close>)
  moreover have "left_pgrp g st ?s" using e(10) by (auto simp: left_pgrp_def proc_frame_def st2 e)
  ultimately show ?thesis by (rule that [OF r])
qed

lemma leave_groups:
  assumes i: "groups D E F st" and p: "p \<in> set (proc_heap st)" "p \<notin> D"
  obtains s where "leave_pgrp p st = Some s" "groups (insert p D) E F s" "left_pgrp (p_pgrp (procs st p)) st s"
proof -
  define g where "g = p_pgrp (procs st p)"
  define st1 where "st1 = upd_pgrp g (\<lambda>pg. pg\<lparr>pg_plist := remove1 p (pg_plist pg)\<rparr>) st"
  have i1: "groups (insert p D) (insert g E) F st1" using groups_off [OF i p] by (simp add: st1_def g_def)
  have g: "g \<in> set (pgrp_heap st1)" using ownedD(1) [OF groupsD(1) [OF i]] p by (simp add: st1_def g_def)
  have l: "left_pgrp g st st1" by (simp add: left_pgrp_def proc_frame_def st1_def)
  show ?thesis
  proof (cases "pg_plist (pgrps st1 g) = []")
    case True
    obtain s where s: "free_pgrp g st1 = Some s" "groups (insert p D) E F s" "left_pgrp g st1 s" by (rule free_pgrp_groups [OF i1 g True])
    have "left_pgrp g st s" by (rule left_trans [OF l s(3)])
    moreover have "leave_pgrp p st = Some s" using s(1) True unfolding leave_pgrp_def Let_def g_def [symmetric] st1_def [symmetric] by simp
    ultimately show ?thesis using that s(2) by (simp add: g_def)
  next
    case False
    have i2: "groups (insert p D) E F st1" by (rule groups_weaken [OF i1]) (use False in auto)
    define st2 where "st2 = upd_pgrp g (\<lambda>pg. pg\<lparr>pg_orphcnt := pg_orphcnt pg - 1\<rparr>) st1"
    obtain s where s: "leave_pgrp p st = Some s" "s = st1 \<or> talks st2 s"
    proof -
      let ?s = "if counts_for p g st1 then if pg_orphcnt (pgrps st2 g) = 0 then orphan_pgrp g st2 else st2 else st1"
      have "leave_pgrp p st = Some ?s"
        using False unfolding leave_pgrp_def Let_def g_def [symmetric] st1_def [symmetric] st2_def [symmetric] by simp
      then show ?thesis by (rule that) (simp add: talks_orphan)
    qed
    have "same_groups st1 st2" "proc_frame st1 st2" by (simp_all add: same_groups_def proc_frame_def st2_def)
    then have m: "same_groups st1 s" "proc_frame st1 s" using s(2) talks_same [of st2 s] same_groups_trans [of st1 st2 s] proc_frame_simps by auto
    show ?thesis using that [OF s(1) same_groups_inv [OF m(1) i2]] left_trans [OF l left_same [OF m]] by (simp add: g_def)
  qed
qed

text \<open>Joining puts a process on the list of its group.\<close>

lemma join_effect:
  obtains s1 where "talks s1 (join_pgrp p st)" "proc_frame st s1"
    "same_groups (upd_pgrp (p_pgrp (procs st p)) (\<lambda>pg. pg\<lparr>pg_plist := p # pg_plist pg\<rparr>) st) s1"
proof -
  define g where "g = p_pgrp (procs st p)"
  define st1 where "st1 = upd_pgrp g (\<lambda>pg. pg\<lparr>pg_plist := p # pg_plist pg\<rparr>) st"
  define st2 where "st2 = (if counts_for p g st1 then upd_pgrp g (\<lambda>pg. pg\<lparr>pg_orphcnt := pg_orphcnt pg + 1\<rparr>) st1 else st1)"
  have "talks st2 (join_pgrp p st)"
    using talks_newids talks_fold [of "newids _ _"] unfolding join_pgrp_def Let_def g_def [symmetric] st1_def [symmetric] st2_def [symmetric] by simp
  moreover have "same_groups st1 st2" "proc_frame st st2" by (simp_all add: same_groups_def proc_frame_def st2_def st1_def)
  ultimately show ?thesis using that by (simp add: st1_def g_def)
qed

lemma join_groups:
  assumes i: "groups D E F st" and p: "p \<in> set (proc_heap st)" "p \<in> D" and g: "p_pgrp (procs st p) \<in> set (pgrp_heap st)"
  shows "groups (D - {p}) (E - {p_pgrp (procs st p)}) F (join_pgrp p st)" "left_pgrp h st (join_pgrp p st)"
proof -
  let ?g = "p_pgrp (procs st p)"
  let ?s = "upd_pgrp ?g (\<lambda>pg. pg\<lparr>pg_plist := p # pg_plist pg\<rparr>) st"
  note d = groupsD [OF i]
  have "groups (D - {p}) (E - {?g}) F ?s"
  proof (rule groupsI)
    have "set (proc_heap ?s) - (D - {p}) = insert p (set (proc_heap st) - D)" using p by auto
    then show "owned (set (pgrp_heap ?s)) (\<lambda>g. pg_plist (pgrps ?s g)) (\<lambda>p. p_pgrp (procs ?s p)) (set (proc_heap ?s) - (D - {p}))"
      using owned_insert [OF d(1), of p ?g "\<lambda>g. pg_plist (pgrps ?s g)" "\<lambda>p. p_pgrp (procs ?s p)"] p g by simp
    show "owned (set (session_heap ?s)) (\<lambda>s'. s_pgrps (sessions ?s s')) (\<lambda>g. pg_session (pgrps ?s g)) (set (pgrp_heap ?s))"
      using owned_cong [OF d(2), of "\<lambda>s'. s_pgrps (sessions ?s s')" "\<lambda>g. pg_session (pgrps ?s g)"] by simp
    show "keyed (set (pgrp_heap ?s)) (\<lambda>g. pg_pgid (pgrps ?s g)) (pghash ?s)" using keyed_cong [OF d(3)] by simp
  qed (use d(4-6) in auto)
  moreover obtain s1 where s1: "talks s1 (join_pgrp p st)" "proc_frame st s1" "same_groups ?s s1" by (rule join_effect)
  ultimately show "groups (D - {p}) (E - {?g}) F (join_pgrp p st)" using same_groups_inv talks_same by blast
  have "same_groups ?s (join_pgrp p st)" "proc_frame st (join_pgrp p st)"
    using s1 talks_same [OF s1(1)] same_groups_trans proc_frame_simps by blast+
  then show "left_pgrp h st (join_pgrp p st)" by (auto simp: left_pgrp_def same_groups_def)
qed

section \<open>New groups and sessions\<close>

lemma new_pgrp_groups:
  assumes i: "groups D E F st" and n: "new_pgrp pgid x st orc = (Some g, s, o1)" and g: "g \<notin> set (pgrp_heap st)" and x: "x \<in> set (session_heap st)"
    and k: "pgrp_find pgid st = None"
  shows "groups D (insert g E) (F - {x}) s" "proc_frame st s" "set (pgrp_heap s) = insert g (set (pgrp_heap st))" "session_heap s = session_heap st"
    "pg_pgid (pgrps s g) = pgid" "pg_session (pgrps s g) = x" "\<And>h. h \<noteq> g \<Longrightarrow> pgrps s h = pgrps st h" "\<And>x. s_sid (sessions s x) = s_sid (sessions st x)"
proof -
  note d = groupsD [OF i]
  define st1 where "st1 = upd_pgrp g (\<lambda>_. \<lparr>pg_plist = [], pg_pgid = pgid, pg_session = x, pg_orphcnt = 0\<rparr>) st"
  have s: "s = (upd_session x (\<lambda>ss. ss\<lparr>s_pgrps := g # s_pgrps ss\<rparr>) st1)\<lparr>pgrp_heap := g # pgrp_heap st, pghash := hash_add pgid g (pghash st)\<rparr>"
    using n by (auto simp: new_pgrp_def st1_def Let_def split: prod.splits option.splits)
  have e: "pgrps s = (pgrps st)(g := \<lparr>pg_plist = [], pg_pgid = pgid, pg_session = x, pg_orphcnt = 0\<rparr>)" "procs s = procs st" "proc_heap s = proc_heap st"
    "session_heap s = session_heap st" "sidhash s = sidhash st" "pgrp_heap s = g # pgrp_heap st" "pghash s = hash_add pgid g (pghash st)"
    "\<And>y. s_sid (sessions s y) = s_sid (sessions st y)" "\<And>y. s_pgrps (sessions s y) = (if y = x then g # s_pgrps (sessions st y) else s_pgrps (sessions st y))"
    by (simp_all add: s st1_def)
  have f: "pgid \<notin> (\<lambda>g. pg_pgid (pgrps st g)) ` set (pgrp_heap st)" using keyed_none [OF d(3)] k by (simp add: pgrp_find_def)
  show "groups D (insert g E) (F - {x}) s"
  proof (rule groupsI)
    have "owned (insert g (set (pgrp_heap st))) (\<lambda>g. pg_plist (pgrps s g)) (\<lambda>p. p_pgrp (procs st p)) (set (proc_heap st) - D)"
      by (rule owned_new [OF d(1) g]) (use g in \<open>auto simp: e(1)\<close>)
    then show "owned (set (pgrp_heap s)) (\<lambda>g. pg_plist (pgrps s g)) (\<lambda>p. p_pgrp (procs s p)) (set (proc_heap s) - D)" by (simp add: e(2-))
    have "owned (set (session_heap st)) (\<lambda>s'. s_pgrps (sessions s s')) (\<lambda>g. pg_session (pgrps s g)) (insert g (set (pgrp_heap st)))"
      by (rule owned_insert [OF d(2) g x]) (use g in \<open>auto simp: e(1,9)\<close>)
    then show "owned (set (session_heap s)) (\<lambda>s'. s_pgrps (sessions s s')) (\<lambda>g. pg_session (pgrps s g)) (set (pgrp_heap s))" by (simp add: e(4,6))
    have "keyed (insert g (set (pgrp_heap st))) (\<lambda>g. pg_pgid (pgrps s g)) (hash_add pgid g (pghash st))"
      by (rule keyed_add [OF d(3) g _ _ f]) (use g in \<open>auto simp: e(1)\<close>)
    then show "keyed (set (pgrp_heap s)) (\<lambda>g. pg_pgid (pgrps s g)) (pghash s)" by (simp add: e(6,7))
    show "keyed (set (session_heap s)) (\<lambda>x. s_sid (sessions s x)) (sidhash s)" using d(4) by (simp add: e)
  qed (use d(5,6) in \<open>auto simp: e split: if_splits\<close>)
  show "proc_frame st s" by (simp add: s st1_def proc_frame_def)
qed (use n in \<open>auto simp: new_pgrp_def Let_def split: prod.splits option.splits\<close>)

lemma new_session_groups:
  assumes i: "groups D E F st" and n: "new_session p st orc = (Some x, s, o1)" and x: "x \<notin> set (session_heap st)"
    and k: "session_find (p_pid (procs st p)) st = None"
  shows "groups D E (insert x F) s" "proc_frame st s" "set (session_heap s) = insert x (set (session_heap st))" "pgrps s = pgrps st" "pgrp_heap s = pgrp_heap st"
    "pghash s = pghash st" "s_sid (sessions s x) = p_pid (procs st p)" "\<And>y. y \<noteq> x \<Longrightarrow> sessions s y = sessions st y"
proof -
  note d = groupsD [OF i]
  let ?sid = "p_pid (procs st p)"
  have s: "s = (upd_session x (\<lambda>_. \<lparr>s_sid = ?sid, s_pgrps = [], s_sessionid = 0\<rparr>) st)\<lparr>session_heap := x # session_heap st, sidhash := hash_add ?sid x (sidhash st)\<rparr>"
    using n by (auto simp: new_session_def Let_def split: prod.splits option.splits)
  have f: "?sid \<notin> (\<lambda>s. s_sid (sessions st s)) ` set (session_heap st)" using keyed_none [OF d(4)] k by (simp add: session_find_def)
  show "groups D E (insert x F) s"
  proof (rule groupsI)
    have "owned (insert x (set (session_heap st))) (\<lambda>s'. s_pgrps (sessions s s')) (\<lambda>g. pg_session (pgrps st g)) (set (pgrp_heap st))"
      by (rule owned_new [OF d(2) x]) (use x in \<open>auto simp: s\<close>)
    then show "owned (set (session_heap s)) (\<lambda>s'. s_pgrps (sessions s s')) (\<lambda>g. pg_session (pgrps s g)) (set (pgrp_heap s))" by (simp add: s)
    have "keyed (insert x (set (session_heap st))) (\<lambda>x. s_sid (sessions s x)) (hash_add ?sid x (sidhash st))"
      by (rule keyed_add [OF d(4) x _ _ f]) (use x in \<open>auto simp: s\<close>)
    then show "keyed (set (session_heap s)) (\<lambda>x. s_sid (sessions s x)) (sidhash s)" by (simp add: s)
  qed (use d in \<open>auto simp: s split: if_splits\<close>)
qed (use n in \<open>auto simp: new_session_def proc_frame_def Let_def split: prod.splits option.splits\<close>)

end
