(* ===== verification/Proc_System.thy ===== *)
theory Proc_System
  imports Proc_Groups
begin

text \<open>
  The process server as a system: the hierarchy of processes, unique ids, session leaders, and that all operations keep the invariant.
\<close>

section \<open>The invariant\<close>

text \<open>\<open>X\<close> are the processes that may be missing from the table of ids.\<close>

definition alive :: "pserver \<Rightarrow> nat set" where
  "alive st = {p \<in> set (proc_heap st). \<not> p_dead (procs st p)}"

definition tree :: "pserver \<Rightarrow> bool" where
  "tree st \<longleftrightarrow> owned (alive st) (\<lambda>p. p_ochild (procs st p)) (\<lambda>p. p_parent (procs st p)) (set (proc_heap st))"

definition pids :: "nat set \<Rightarrow> pserver \<Rightarrow> bool" where
  "pids X st \<longleftrightarrow> (\<exists>H. set (proc_heap st) - insert (init_proc st) X \<subseteq> H \<and> H \<subseteq> set (proc_heap st) \<and> keyed H (\<lambda>p. p_pid (procs st p)) (pidhash st)) \<and>
     inj_on (\<lambda>p. p_pid (procs st p)) (set (proc_heap st)) \<and> snd ` set (taskhash st) \<subseteq> set (proc_heap st)"

definition init_ok :: "pserver \<Rightarrow> bool" where
  "init_ok st \<longleftrightarrow> (let i = init_proc st; g = p_pgrp (procs st i) in i \<in> alive st \<and> p_parentset (procs st i) \<and> pg_pgid (pgrps st g) = p_pid (procs st i) \<and>
     s_sid (sessions st (pg_session (pgrps st g))) = p_pid (procs st i))"

definition leaders :: "pserver \<Rightarrow> bool" where
  "leaders st \<longleftrightarrow> (\<forall>s \<in> set (session_heap st). \<forall>p \<in> set (proc_heap st). s_sid (sessions st s) = p_pid (procs st p) \<longrightarrow>
     pg_pgid (pgrps st (p_pgrp (procs st p))) = p_pid (procs st p) \<and> pg_session (pgrps st (p_pgrp (procs st p))) = s)"

definition proc_inv :: "nat set \<Rightarrow> pserver \<Rightarrow> bool" where
  "proc_inv X st \<longleftrightarrow> groups {} {} {} st \<and> tree st \<and> pids X st \<and> init_ok st \<and> leaders st"

lemma proc_invD: "proc_inv X st \<Longrightarrow> groups {} {} {} st" "proc_inv X st \<Longrightarrow> tree st" "proc_inv X st \<Longrightarrow> pids X st" "proc_inv X st \<Longrightarrow> init_ok st" "proc_inv X st \<Longrightarrow> leaders st"
  by (simp_all add: proc_inv_def)

text \<open>Operations that leave all that alone.\<close>

definition same_procs :: "pserver \<Rightarrow> pserver \<Rightarrow> bool" where
  "same_procs st s \<longleftrightarrow> pidhash s = pidhash st \<and> taskhash s = taskhash st \<and> init_proc s = init_proc st \<and>
     (\<forall>p. p_pid (procs s p) = p_pid (procs st p) \<and> p_parent (procs s p) = p_parent (procs st p) \<and> p_ochild (procs s p) = p_ochild (procs st p) \<and>
       p_dead (procs s p) = p_dead (procs st p) \<and> (p_parentset (procs st p) \<longrightarrow> p_parentset (procs s p)))"

definition same_struct :: "pserver \<Rightarrow> pserver \<Rightarrow> bool" where
  "same_struct st s \<longleftrightarrow> same_groups st s \<and> same_procs st s"

lemma same_struct_refl [simp]: "same_struct st st"
  by (simp add: same_struct_def same_procs_def)

lemma same_struct_trans [trans]: "same_struct a b \<Longrightarrow> same_struct b c \<Longrightarrow> same_struct a c"
  using same_groups_trans [of a b c] by (simp add: same_struct_def same_procs_def)

lemma same_struct_inv: "same_struct st s \<Longrightarrow> proc_inv X st \<Longrightarrow> proc_inv X s"
  using same_groups_inv [of st s "{}" "{}" "{}"]
  unfolding proc_inv_def same_struct_def same_procs_def same_groups_def tree_def alive_def pids_def init_ok_def leaders_def Let_def by simp

lemma talks_struct: "talks st s \<Longrightarrow> same_struct st s"
  using talks_same [of st s] by (auto simp: same_struct_def same_procs_def talks_def)

text \<open>A change of one process that keeps those fields.\<close>

lemma upd_struct:
  assumes "p_pgrp (f (procs st p)) = p_pgrp (procs st p)" "p_pid (f (procs st p)) = p_pid (procs st p)" "p_parent (f (procs st p)) = p_parent (procs st p)"
    "p_ochild (f (procs st p)) = p_ochild (procs st p)" "p_dead (f (procs st p)) = p_dead (procs st p)" "p_parentset (procs st p) \<longrightarrow> p_parentset (f (procs st p))"
  shows "same_struct st (upd_proc p f st)"
  using assms by (simp add: same_struct_def same_procs_def same_groups_def)

lemma wakeups_struct: "same_struct st (st\<lparr>wakeups := w\<rparr>)"
  by (simp add: same_struct_def same_procs_def same_groups_def)

lemma wake_struct: "same_struct st (wake_waiting p st)"
  by (simp add: wake_waiting_def same_struct_def same_procs_def same_groups_def)

lemma dying_struct: "same_struct st (check_message_dying p st)"
  by (simp add: check_message_dying_def same_struct_def same_procs_def same_groups_def)

lemma fold_struct: "(\<And>x s. same_struct s (f x s)) \<Longrightarrow> same_struct st (fold f xs st)"
proof (induction xs arbitrary: st)
  case (Cons x xs)
  then show ?case using same_struct_trans [of st "f x st" "fold f xs (f x st)"] by simp
qed simp

lemma iterate_struct: "(\<And>p s. same_struct s (f p s)) \<Longrightarrow> same_struct st (prociterate f st)"
  unfolding prociterate_def by (rule fold_struct) (simp split: prod.split)

lemmas struct_defs = same_struct_def same_procs_def same_groups_def

lemma status_struct: "same_struct st (upd_proc q (\<lambda>q. q\<lparr>p_status := x, p_sigcode := y\<rparr>) st)" "same_struct st (upd_proc q (\<lambda>q. q\<lparr>p_child_rusage := r q\<rparr>) st)"
  by (simp_all add: struct_defs)

lemma signal_struct: "same_struct st (send_signal p sig code st)"
  by (rule talks_struct [OF talks_signal])

lemma alert_struct: "same_struct st (alert_parent p st)"
proof -
  define a where "a = p_parent (procs st p)"
  define st1 where "st1 = upd_proc a (\<lambda>q. q\<lparr>p_child_rusage := rusage_add (p_child_rusage q) (p_rusage (procs st p))\<rparr>) st"
  define st2 where "st2 = upd_proc a (\<lambda>q. q\<lparr>p_child_rusage := rusage_add (p_child_rusage q) (p_child_rusage (procs st1 p))\<rparr>) st1"
  define st3 where "st3 = send_signal a SIGCHLD CLD_EXITED st2"
  define st4 where "st4 = (if \<not> p_exiting (procs st3 p) then upd_proc p (\<lambda>q. q\<lparr>p_status := 9, p_sigcode := -1\<rparr>) st3 else st3)"
  have "same_struct st st1" unfolding st1_def by (rule status_struct)
  also have "same_struct st1 st2" unfolding st2_def by (rule status_struct)
  also have "same_struct st2 st3" unfolding st3_def by (rule signal_struct)
  also have "same_struct st3 st4" using status_struct(1) by (simp add: st4_def)
  also have "same_struct st4 (wake_waiting a st4)" by (rule wake_struct)
  finally show ?thesis unfolding alert_parent_def Let_def a_def [symmetric] st1_def [symmetric] st2_def [symmetric] st3_def [symmetric] st4_def [symmetric] .
qed

lemma tell_struct: "same_struct st (tell_parent p code st)"
  using same_struct_trans [OF wake_struct signal_struct] wake_struct by (simp add: tell_parent_def Let_def)

section \<open>Flags\<close>

lemma flag_ops_struct:
  "same_struct st (snd (S_proc_mark_exec pi st))" "same_struct st (snd (S_proc_mark_traced pi st))" "same_struct st (snd (S_proc_mod_stopchild pi v st))"
  "same_struct st (snd (S_proc_make_task_namespace pi n st))" "same_struct st (snd (S_proc_mark_exit pi status sigcode infos st))"
  by (auto simp: struct_defs S_proc_mark_exec_def S_proc_mark_traced_def S_proc_mod_stopchild_def S_proc_make_task_namespace_def S_proc_mark_exit_def
      sample_rusage_def Let_def split: option.split)

lemma stop_ops_struct: "same_struct st (snd (S_proc_mark_stop pi signo sigcode st))" "same_struct st (snd (S_proc_mark_cont pi st))"
proof -
  have "same_struct st (upd_proc p (\<lambda>q. q\<lparr>p_stopped := a, p_continued := b, p_status := c, p_sigcode := d, p_waited := e\<rparr>) st)"
    "same_struct st (upd_proc p (\<lambda>q. q\<lparr>p_stopped := a, p_continued := b, p_status := c, p_waited := e\<rparr>) st)" for p a b c d e
    by (simp_all add: struct_defs)
  then show "same_struct st (snd (S_proc_mark_stop pi signo sigcode st))" "same_struct st (snd (S_proc_mark_cont pi st))"
    using same_struct_trans [OF _ tell_struct] by (auto simp: S_proc_mark_stop_def S_proc_mark_cont_def split: option.split)
qed

section \<open>Ids\<close>

lemma skip_used_free:
  assumes "skip_used limit n st = Some m"
  shows "n \<le> m \<and> (pidfree m st \<or> (\<exists>w. limit = Some w \<and> w \<le> m))"
proof (rule skip_used.raw_induct [where P = "\<lambda>limit n st m. n \<le> m \<and> (pidfree m st \<or> (\<exists>w. limit = Some w \<and> w \<le> m))", OF _ assms])
  fix skip limit n st m
  assume i: "\<And>limit n st m. skip limit n st = Some m \<Longrightarrow> n \<le> m \<and> (pidfree m st \<or> (\<exists>w. limit = Some w \<and> w \<le> m))"
    and b: "(if (case limit of None \<Rightarrow> True | Some w \<Rightarrow> n < w) \<and> \<not> pidfree n st then skip limit (n + 1) st else Some n) = Some m"
  show "n \<le> m \<and> (pidfree m st \<or> (\<exists>w. limit = Some w \<and> w \<le> m))"
    using b i [of limit "n + 1" st m] by (auto split: if_splits option.splits)
qed

lemma genpid_free:
  assumes "genpid st = Some (pid, s)"
  shows "pidfree pid st" "\<exists>n w. s = st\<lparr>nextpid := n, wrap := w\<rparr>"
proof -
  obtain n where n: "skip_used (Some (wrap st)) (nextpid st) st = Some n" using assms by (auto simp: genpid_def split: option.splits)
  show "pidfree pid st"
  proof (cases "n \<ge> wrap st")
    case True
    then have "skip_used None START_OVER st = Some pid" using assms n by (auto simp: genpid_def split: option.splits)
    then show ?thesis using skip_used_free by blast
  next
    case False
    then have "pid = n" using assms n by (auto simp: genpid_def)
    then show ?thesis using skip_used_free [OF n] False by auto
  qed
  show "\<exists>n w. s = st\<lparr>nextpid := n, wrap := w\<rparr>"
    using assms n by (auto simp: genpid_def split: if_splits option.splits) (metis pserver.surjective pserver.update_convs(12))+
qed

text \<open>A free id belongs to no process, group or session.\<close>

lemma pids_find: "pids X st \<Longrightarrow> pid_find_allow_zombie pid st = Some p \<Longrightarrow> p \<in> set (proc_heap st) \<and> p_pid (procs st p) = pid"
  by (auto simp: pids_def pid_find_allow_zombie_def keyed_find)

lemma pidfree_new:
  assumes i: "proc_inv {} st" and f: "pidfree pid st"
  shows "p \<in> set (proc_heap st) \<Longrightarrow> p_pid (procs st p) \<noteq> pid" "x \<in> set (session_heap st) \<Longrightarrow> s_sid (sessions st x) \<noteq> pid"
proof -
  note g = groupsD [OF proc_invD(1) [OF i]]
  show "x \<in> set (session_heap st) \<Longrightarrow> s_sid (sessions st x) \<noteq> pid"
    using f keyed_none [OF g(4), of pid] by (auto simp: pidfree_def session_find_def)
  show "p_pid (procs st p) \<noteq> pid" if p: "p \<in> set (proc_heap st)"
  proof (cases "p = init_proc st")
    case True
    have "p_pgrp (procs st p) \<in> set (pgrp_heap st)" using ownedD(1) [OF g(1)] p by simp
    moreover have "pg_pgid (pgrps st (p_pgrp (procs st p))) = p_pid (procs st p)" using proc_invD(4) [OF i] True by (simp add: init_ok_def Let_def)
    ultimately have "p_pid (procs st p) \<in> (\<lambda>g. pg_pgid (pgrps st g)) ` set (pgrp_heap st)" by (rule image_eqI [rotated, OF _ sym])
    then show ?thesis using f keyed_none [OF g(3), of pid] by (auto simp: pidfree_def pgrp_find_def)
  next
    case False
    obtain H where "set (proc_heap st) - {init_proc st} \<subseteq> H" "keyed H (\<lambda>p. p_pid (procs st p)) (pidhash st)" using proc_invD(3) [OF i] by (auto simp: pids_def)
    then show ?thesis using f keyed_none [of H _ "pidhash st" pid] p False by (auto simp: pidfree_def pid_find_allow_zombie_def)
  qed
qed

section \<open>Moving to another group\<close>

text \<open>
  After \<open>p\<close> has moved from the group it was in to another, nothing else having changed, the rest of the invariant holds again,
  if no session has the id of \<open>p\<close> or \<open>p\<close> leads it in its new group.
\<close>

abbreviation session_of :: "pserver \<Rightarrow> nat \<Rightarrow> nat" where
  "session_of st p \<equiv> pg_session (pgrps st (p_pgrp (procs st p)))"

abbreviation pgid_of :: "pserver \<Rightarrow> nat \<Rightarrow> int" where
  "pgid_of st p \<equiv> pg_pgid (pgrps st (p_pgrp (procs st p)))"

definition moved :: "nat \<Rightarrow> pserver \<Rightarrow> pserver \<Rightarrow> bool" where
  "moved p st s \<longleftrightarrow> proc_heap s = proc_heap st \<and> same_procs st s \<and>
     (\<forall>q \<in> set (proc_heap st). q \<noteq> p \<longrightarrow> p_pgrp (procs s q) = p_pgrp (procs st q) \<and> pgid_of s q = pgid_of st q \<and> session_of s q = session_of st q \<and>
       s_sid (sessions s (session_of st q)) = s_sid (sessions st (session_of st q))) \<and>
     (\<forall>x \<in> set (session_heap s). s_sid (sessions s x) = p_pid (procs st p) \<or> x \<in> set (session_heap st) \<and> s_sid (sessions s x) = s_sid (sessions st x))"

lemma moved_inv:
  assumes i: "proc_inv X st" and g: "groups {} {} {} s" and m: "moved p st s" and p: "p \<noteq> init_proc st" "p \<in> set (proc_heap st)"
    and l: "\<And>x. x \<in> set (session_heap s) \<Longrightarrow> s_sid (sessions s x) = p_pid (procs st p) \<Longrightarrow> pgid_of s p = p_pid (procs st p) \<and> session_of s p = x"
  shows "proc_inv X s"
proof -
  note d = proc_invD [OF i]
  have e: "proc_heap s = proc_heap st" "pidhash s = pidhash st" "taskhash s = taskhash st" "init_proc s = init_proc st" "\<And>p. p_pid (procs s p) = p_pid (procs st p)"
    "\<And>p. p_parent (procs s p) = p_parent (procs st p)" "\<And>p. p_ochild (procs s p) = p_ochild (procs st p)" "\<And>p. p_dead (procs s p) = p_dead (procs st p)"
    "\<And>p. p_parentset (procs st p) \<Longrightarrow> p_parentset (procs s p)"
    using m by (simp_all add: moved_def same_procs_def)
  have q: "pgid_of s q = pgid_of st q" "session_of s q = session_of st q" "s_sid (sessions s (session_of st q)) = s_sid (sessions st (session_of st q))"
    if "q \<in> set (proc_heap st)" "q \<noteq> p" for q using m that unfolding moved_def by blast+
  have t: "tree s" "pids X s" using d(2,3) by (simp_all add: tree_def alive_def pids_def e)
  have "init_proc st \<in> set (proc_heap st)" using d(4) by (simp add: init_ok_def alive_def Let_def)
  then have "init_ok s" using d(4) q [of "init_proc st"] p by (simp add: init_ok_def alive_def Let_def e)
  moreover have "leaders s" unfolding leaders_def
  proof (intro ballI impI)
    fix x r assume x: "x \<in> set (session_heap s)" "r \<in> set (proc_heap s)" "s_sid (sessions s x) = p_pid (procs s r)"
    show "pgid_of s r = p_pid (procs s r) \<and> session_of s r = x"
    proof (cases "r = p")
      case True
      then show ?thesis using l [OF x(1)] x(3) by (simp add: e)
    next
      case False
      have "p_pid (procs st p) \<noteq> p_pid (procs st r)" using d(3) p(2) x(2) False by (auto simp: pids_def inj_on_def e)
      then have "x \<in> set (session_heap st)" "s_sid (sessions st x) = p_pid (procs st r)" using m x by (auto simp: moved_def e)
      then show ?thesis using d(5) x(2) q [OF _ False] e by (auto simp: leaders_def)
    qed
  qed
  ultimately show ?thesis using g t by (simp add: proc_inv_def)
qed

lemma same_procs_simps: "proc_frame st s \<Longrightarrow> same_procs st s" "same_procs a b \<Longrightarrow> same_procs b c \<Longrightarrow> same_procs a c" "same_procs st (set_pgrp p g st)"
  by (auto simp: same_procs_def proc_frame_def set_pgrp_def)

text \<open>Between leaving and joining the process is given its new group.\<close>

lemma set_pgrp_groups:
  assumes i: "groups {p} E F st"
  shows "groups {p} E F (set_pgrp p g st)"
proof -
  let ?s = "set_pgrp p g st"
  have "owned (set (pgrp_heap st)) (\<lambda>g. pg_plist (pgrps st g)) (\<lambda>q. p_pgrp (procs ?s q)) (set (proc_heap st) - {p})"
    by (rule owned_cong [OF groupsD(1) [OF i]]) (auto simp: set_pgrp_def)
  then show ?thesis using i by (auto simp: groups_def set_pgrp_def)
qed

lemma rejoin_groups:
  assumes i: "groups {p} E F st" and p: "p \<in> set (proc_heap st)" and g: "g \<in> set (pgrp_heap st)" "E \<subseteq> {g}"
  defines "s \<equiv> join_pgrp p (set_pgrp p g st)"
  shows "groups {} {} F s" "proc_heap s = proc_heap st" "same_procs st s" "p_pgrp (procs s p) = g" "\<And>q. q \<noteq> p \<Longrightarrow> p_pgrp (procs s q) = p_pgrp (procs st q)"
    "set (pgrp_heap s) = set (pgrp_heap st)" "session_heap s = session_heap st"
    "\<And>h. pg_session (pgrps s h) = pg_session (pgrps st h) \<and> pg_pgid (pgrps s h) = pg_pgid (pgrps st h)" "\<And>x. s_sid (sessions s x) = s_sid (sessions st x)"
proof -
  let ?t = "set_pgrp p g st"
  have t: "proc_heap ?t = proc_heap st" "pgrp_heap ?t = pgrp_heap st" "p_pgrp (procs ?t p) = g" "session_heap ?t = session_heap st" "pgrps ?t = pgrps st"
    "sessions ?t = sessions st" by (simp_all add: set_pgrp_def)
  have "E - {g} = {}" using g(2) by auto
  moreover have "groups {} (E - {g}) F s" using join_groups(1) [OF set_pgrp_groups [OF i, of g], of p] p g t by (simp add: s_def)
  ultimately show "groups {} {} F s" by (simp only:)
  obtain s1 where s1: "talks s1 s" "proc_frame ?t s1" "same_groups (upd_pgrp g (\<lambda>pg. pg\<lparr>pg_plist := p # pg_plist pg\<rparr>) ?t) s1"
    using join_effect [of p ?t] t(3) unfolding s_def by metis
  have f: "proc_frame ?t s" "same_groups (upd_pgrp g (\<lambda>pg. pg\<lparr>pg_plist := p # pg_plist pg\<rparr>) ?t) s"
    using s1 talks_same [OF s1(1)] same_groups_trans proc_frame_simps by blast+
  show "same_procs st s" using same_procs_simps f(1) by blast
  show "proc_heap s = proc_heap st" "p_pgrp (procs s p) = g" "set (pgrp_heap s) = set (pgrp_heap st)" "session_heap s = session_heap st"
    using f t by (simp_all add: proc_frame_def same_groups_def)
  show "q \<noteq> p \<Longrightarrow> p_pgrp (procs s q) = p_pgrp (procs st q)" "s_sid (sessions s x) = s_sid (sessions st x)"
    "pg_session (pgrps s h) = pg_session (pgrps st h) \<and> pg_pgid (pgrps s h) = pg_pgid (pgrps st h)" for q x h
    using f by (auto simp: proc_frame_def same_groups_def set_pgrp_def)
qed

text \<open>From one group to another, or to a new one, of the same session.\<close>

lemma change_pgrp:
  assumes i: "proc_inv X st" and p: "p \<in> set (proc_heap st)" "p \<noteq> init_proc st" and l: "\<And>x. x \<in> set (session_heap st) \<Longrightarrow> s_sid (sessions st x) \<noteq> p_pid (procs st p)"
    and b: "groups {} E {} st0" "E \<subseteq> {g}" "proc_frame st st0" "session_heap st0 = session_heap st" "\<And>x. s_sid (sessions st0 x) = s_sid (sessions st x)"
      "\<And>h. h \<in> set (pgrp_heap st) \<Longrightarrow> pg_pgid (pgrps st0 h) = pg_pgid (pgrps st h) \<and> pg_session (pgrps st0 h) = pg_session (pgrps st h)"
    and g: "g \<in> set (pgrp_heap st0)" "g \<noteq> p_pgrp (procs st p)" and s: "leave_pgrp p st0 = Some s1" "s = join_pgrp p (set_pgrp p g s1)"
  shows "proc_inv X s" "moved p st s" "p_pgrp (procs s p) = g" "pg_pgid (pgrps s g) = pg_pgid (pgrps st0 g)"
proof -
  have f: "procs st0 = procs st" "proc_heap st0 = proc_heap st" using b(3) by (simp_all add: proc_frame_def)
  obtain s1' where a: "leave_pgrp p st0 = Some s1'" "groups {p} E {} s1'" "left_pgrp (p_pgrp (procs st0 p)) st0 s1'"
    by (rule leave_groups [OF b(1)]) (use p f in simp_all)
  have e: "s1' = s1" using a(1) s(1) by simp
  note a = a(2,3) [unfolded e]
  have h: "p \<in> set (proc_heap s1)" "g \<in> set (pgrp_heap s1)" "same_procs st s1" "procs s1 = procs st" "proc_heap s1 = proc_heap st"
    using a(2) g f p(1) same_procs_simps(1) [OF proc_frame_simps(3) [OF b(3), of s1]] by (auto simp: left_pgrp_def proc_frame_def)
  note r = rejoin_groups [OF a(1) h(1,2) b(2), folded s(2)]
  have k: "\<And>x. s_sid (sessions s x) = s_sid (sessions st x)" "set (session_heap s) \<subseteq> set (session_heap st)" using r a(2) b(4,5) by (auto simp: left_pgrp_def)
  have q: "pg_pgid (pgrps s h) = pg_pgid (pgrps st0 h) \<and> pg_session (pgrps s h) = pg_session (pgrps st0 h)" for h using r(8) a(2) by (simp add: left_pgrp_def)
  have "p_pgrp (procs s x) = p_pgrp (procs st x) \<and> pgid_of s x = pgid_of st x \<and> session_of s x = session_of st x \<and>
      s_sid (sessions s (session_of st x)) = s_sid (sessions st (session_of st x))" if "x \<in> set (proc_heap st)" "x \<noteq> p" for x
    using r(5) [OF that(2)] q b(6) ownedD(1) [OF groupsD(1) [OF proc_invD(1) [OF i]], of x] that(1) h(4) k(1) by simp
  moreover have "proc_heap s = proc_heap st" "same_procs st s" using r(2) h(5) same_procs_simps(2) [OF h(3) r(3)] by simp_all
  ultimately show m: "moved p st s" using k unfolding moved_def by blast
  show "p_pgrp (procs s p) = g" "pg_pgid (pgrps s g) = pg_pgid (pgrps st0 g)" using r(4) q by simp_all
  show "proc_inv X s" using l k by (intro moved_inv [OF i r(1) m p(2,1)]) (auto dest!: l)
qed

text \<open>A process whose session has another id, or whose group has another id, leads no session.\<close>

lemma no_leader:
  assumes i: "proc_inv X st" and p: "p \<in> set (proc_heap st)"
    and n: "s_sid (sessions st (pg_session (pgrps st (p_pgrp (procs st p))))) \<noteq> p_pid (procs st p) \<or> pg_pgid (pgrps st (p_pgrp (procs st p))) \<noteq> p_pid (procs st p)"
  shows "x \<in> set (session_heap st) \<Longrightarrow> s_sid (sessions st x) \<noteq> p_pid (procs st p)" "p \<noteq> init_proc st"
proof -
  show "x \<in> set (session_heap st) \<Longrightarrow> s_sid (sessions st x) \<noteq> p_pid (procs st p)"
    using proc_invD(5) [OF i] p n by (auto simp: leaders_def)
  show "p \<noteq> init_proc st" using proc_invD(4) [OF i] n by (auto simp: init_ok_def Let_def)
qed

lemma distinct_single: "distinct xs \<Longrightarrow> set xs = {a} \<Longrightarrow> xs = [a]"
  by (cases xs) (auto simp: subset_singleton_iff)

text \<open>The memory for a session and a group is not in use.\<close>

definition fresh_session :: "pserver \<Rightarrow> allocs \<Rightarrow> bool" where
  "fresh_session st orc \<longleftrightarrow>
     (\<forall>j o1. alloc orc = (Some j, o1) \<longrightarrow> unat j \<notin> set (session_heap st) \<and> (\<forall>k o2. alloc o1 = (Some k, o2) \<longrightarrow> unat k \<notin> set (pgrp_heap st)))"

lemma boot_setsid_groups:
  assumes i: "groups {p} {} {} st" and p: "p \<in> set (proc_heap st)" and r: "boot_setsid p st orc = Some (s, o1)"
    and n: "session_find (p_pid (procs st p)) st = None" "pgrp_find (p_pid (procs st p)) st = None"
    and f: "fresh_session st orc"
  obtains g x where "groups {} {} {} s" "proc_heap s = proc_heap st" "same_procs st s" "p_pgrp (procs s p) = g" "\<And>q. q \<noteq> p \<Longrightarrow> p_pgrp (procs s q) = p_pgrp (procs st q)"
    "g \<notin> set (pgrp_heap st)" "x \<notin> set (session_heap st)" "set (pgrp_heap s) = insert g (set (pgrp_heap st))" "set (session_heap s) = insert x (set (session_heap st))"
    "pg_pgid (pgrps s g) = p_pid (procs st p)" "pg_session (pgrps s g) = x" "s_sid (sessions s x) = p_pid (procs st p)"
    "\<And>h. h \<noteq> g \<Longrightarrow> pg_pgid (pgrps s h) = pg_pgid (pgrps st h) \<and> pg_session (pgrps s h) = pg_session (pgrps st h)"
    "\<And>y. y \<noteq> x \<Longrightarrow> s_sid (sessions s y) = s_sid (sessions st y)"
proof -
  obtain x s2 o2 g s3 where
    s: "new_session p st orc = (Some x, s2, o2)" "new_pgrp (p_pid (procs s2 p)) x s2 o2 = (Some g, s3, o1)" "s = join_pgrp p (set_pgrp p g s3)"
    using r by (auto simp: boot_setsid_def split: prod.splits option.splits)
  have x: "x \<notin> set (session_heap st)" using f s(1) by (auto simp: fresh_session_def new_session_def Let_def split: prod.splits option.splits)
  have g: "g \<notin> set (pgrp_heap st)" using f s(1,2) by (auto simp: fresh_session_def new_session_def new_pgrp_def Let_def split: prod.splits option.splits)
  note b = new_session_groups [OF i s(1) x n(1)]
  have e2: "procs s2 = procs st" "proc_heap s2 = proc_heap st" using b(2) by (simp_all add: proc_frame_def)
  have "g \<notin> set (pgrp_heap s2)" "x \<in> set (session_heap s2)" "pgrp_find (p_pid (procs s2 p)) s2 = None" using g n(2) b(3,5,6) e2 by (auto simp: pgrp_find_def)
  note c = new_pgrp_groups [OF b(1) s(2) this]
  have e3: "procs s3 = procs st" "proc_heap s3 = proc_heap st" using c(2) e2 by (simp_all add: proc_frame_def)
  have "groups {p} {g} {} s3" "p \<in> set (proc_heap s3)" "g \<in> set (pgrp_heap s3)" using c(1,3) p e3 by auto
  note w = rejoin_groups [OF this subset_refl, folded s(3)]
  have "same_procs st s" using same_procs_simps(2) [OF same_procs_simps(1) [OF proc_frame_simps(3) [OF b(2) c(2)]] w(3)] .
  then show ?thesis using w x g b c e2 e3 by (intro that [of g x]) auto
qed

lemma setsid_inv:
  assumes i: "proc_inv {} st" and p: "p \<in> set (proc_heap st)" and r: "S_proc_setsid (Some p) st orc = Some (Success, s, o1)"
    and f: "\<And>s. leave_pgrp p st = Some s \<Longrightarrow> fresh_session s orc"
  shows "proc_inv {} s" "moved p st s" "pgid_of s p = p_pid (procs st p)" "pg_plist (pgrps s (p_pgrp (procs s p))) = [p]"
    "s_pgrps (sessions s (session_of s p)) = [p_pgrp (procs s p)]" "s_sid (sessions s (session_of s p)) = p_pid (procs st p)"
proof -
  let ?pid = "p_pid (procs st p)" and ?g = "p_pgrp (procs st p)"
  note d = groupsD [OF proc_invD(1) [OF i]]
  obtain s1 where s1: "pgid_of st p \<noteq> ?pid" "pgrp_find ?pid st = None" "leave_pgrp p st = Some s1" "boot_setsid p s1 orc = Some (s, o1)"
    using r by (auto simp: S_proc_setsid_def split: if_splits option.splits)
  have n: "p \<noteq> init_proc st" "\<And>x. x \<in> set (session_heap st) \<Longrightarrow> s_sid (sessions st x) \<noteq> ?pid" using no_leader [OF i p] s1(1) by blast+
  obtain s1' where "leave_pgrp p st = Some s1'" "groups {p} {} {} s1'" "left_pgrp ?g st s1'"
    by (rule leave_groups [OF proc_invD(1) [OF i] p]) simp_all
  then have a: "groups {p} {} {} s1" "left_pgrp ?g st s1" using s1(3) by simp_all
  note b = groupsD [OF a(1)]
  have e: "procs s1 = procs st" "proc_heap s1 = proc_heap st" "set (pgrp_heap s1) \<subseteq> set (pgrp_heap st)" "set (session_heap s1) \<subseteq> set (session_heap st)"
    "\<And>x. s_sid (sessions s1 x) = s_sid (sessions st x)" "\<And>h. pg_pgid (pgrps s1 h) = pg_pgid (pgrps st h)" "\<And>h. pg_session (pgrps s1 h) = pg_session (pgrps st h)"
    using a(2) by (simp_all add: left_pgrp_def proc_frame_def)
  have k: "session_find (p_pid (procs s1 p)) s1 = None" "pgrp_find (p_pid (procs s1 p)) s1 = None"
    using keyed_none [OF b(4), of ?pid] n(2) s1(2) keyed_none [OF d(3), of ?pid] keyed_none [OF b(3), of ?pid] e
    by (auto simp: session_find_def pgrp_find_def)
  have p1: "p \<in> set (proc_heap s1)" using p e by simp
  obtain g x where
    w: "groups {} {} {} s" "proc_heap s = proc_heap s1" "same_procs s1 s" "p_pgrp (procs s p) = g" "\<And>q. q \<noteq> p \<Longrightarrow> p_pgrp (procs s q) = p_pgrp (procs s1 q)"
    "g \<notin> set (pgrp_heap s1)" "x \<notin> set (session_heap s1)" "set (pgrp_heap s) = insert g (set (pgrp_heap s1))" "set (session_heap s) = insert x (set (session_heap s1))"
    "pg_pgid (pgrps s g) = p_pid (procs s1 p)" "pg_session (pgrps s g) = x" "s_sid (sessions s x) = p_pid (procs s1 p)"
    "\<And>h. h \<noteq> g \<Longrightarrow> pg_pgid (pgrps s h) = pg_pgid (pgrps s1 h) \<and> pg_session (pgrps s h) = pg_session (pgrps s1 h)"
    "\<And>y. y \<noteq> x \<Longrightarrow> s_sid (sessions s y) = s_sid (sessions s1 y)"
    by (rule boot_setsid_groups [OF a(1) p1 s1(4) k f [OF s1(3)]]) blast
  have q: "p_pgrp (procs s1 q) \<in> set (pgrp_heap s1)" "session_of s1 q \<in> set (session_heap s1)" if "q \<in> set (proc_heap st)" "q \<noteq> p" for q
    using ownedD(1) [OF b(1)] ownedD(1) [OF b(2)] that e by auto
  have t: "session_of s p = x" "pgid_of s p = ?pid" "s_sid (sessions s x) = ?pid" using w(4,10-12) e by simp_all
  have "p_pgrp (procs s q) = p_pgrp (procs st q) \<and> pgid_of s q = pgid_of st q \<and> session_of s q = session_of st q \<and>
      s_sid (sessions s (session_of st q)) = s_sid (sessions st (session_of st q))" if "q \<in> set (proc_heap st)" "q \<noteq> p" for q
    using w(5) [OF that(2)] w(13) [of "p_pgrp (procs s1 q)"] w(14) [of "session_of s1 q"] w(6,7) q [OF that] e by auto
  moreover have "same_procs st s" using same_procs_simps(2) [OF same_procs_simps(1) w(3)] a(2) by (simp add: left_pgrp_def)
  moreover have "s_sid (sessions s y) = ?pid \<or> y \<in> set (session_heap st) \<and> s_sid (sessions s y) = s_sid (sessions st y)" if "y \<in> set (session_heap s)" for y
    using that w(9,14) t(3) e by (cases "y = x") auto
  moreover have "proc_heap s = proc_heap st" using w(2) e(2) by simp
  ultimately show m: "moved p st s" unfolding moved_def by blast
  have "pgid_of s p = ?pid \<and> session_of s p = y" if "y \<in> set (session_heap s)" "s_sid (sessions s y) = ?pid" for y
    using that w(9,14) t n(2) e by (cases "y = x") auto
  then show "proc_inv {} s" by (rule moved_inv [OF i w(1) m n(1) p])
  have "y = p" if "y \<in> set (proc_heap st)" "p_pgrp (procs s y) = g" for y
  proof (rule ccontr)
    assume "y \<noteq> p"
    then have "p_pgrp (procs s y) \<in> set (pgrp_heap s1)" using q(1) [OF that(1)] w(5) by metis
    then show False using that(2) w(6) by simp
  qed
  moreover have "set (pg_plist (pgrps s g)) = {y \<in> set (proc_heap st). p_pgrp (procs s y) = g}" using ownedD(2) [OF groupsD(1) [OF w(1)], of g] w(2,8) e(2) by simp
  ultimately have "set (pg_plist (pgrps s g)) = {p}" using p w(4) by blast
  then show "pg_plist (pgrps s (p_pgrp (procs s p))) = [p]" using distinct_single ownedD(3) [OF groupsD(1) [OF w(1)], of g] w(4,8) by simp
  have "h = g" if "h \<in> set (pgrp_heap s)" "pg_session (pgrps s h) = x" for h
  proof (rule ccontr)
    assume "h \<noteq> g"
    then have "pg_session (pgrps s1 h) \<in> set (session_heap s1)" "pg_session (pgrps s h) = pg_session (pgrps s1 h)" using that(1) w(8,13) ownedD(1) [OF b(2)] by auto
    then show False using that(2) w(7) by simp
  qed
  moreover have "set (s_pgrps (sessions s x)) = {h \<in> set (pgrp_heap s). pg_session (pgrps s h) = x}" using ownedD(2) [OF groupsD(2) [OF w(1)], of x] w(9) by simp
  ultimately have "set (s_pgrps (sessions s x)) = {g}" using w(8,11) by blast
  then show "s_pgrps (sessions s (session_of s p)) = [p_pgrp (procs s p)]"
    using distinct_single ownedD(3) [OF groupsD(2) [OF w(1)], of x] w(4,9,11) by simp
  show "pgid_of s p = ?pid" "s_sid (sessions s (session_of s p)) = ?pid" using t by simp_all
qed

text \<open>\<open>setpgrp_move\<close> either changes nothing but messages, or moves the process to a group with the given id.\<close>

lemma setpgrp_move_inv:
  assumes i: "proc_inv {} st" and p: "p \<in> set (proc_heap st)" and n: "s_sid (sessions st (session_of st p)) \<noteq> p_pid (procs st p)"
    and r: "setpgrp_move p pgid st orc = Some (s, o1)" and f: "\<And>j o'. alloc orc = (Some j, o') \<Longrightarrow> unat j \<notin> set (pgrp_heap st)"
  shows "proc_inv {} s" "pgid_of s p = pgid" "talks st s \<or> moved p st s"
proof -
  let ?g = "p_pgrp (procs st p)"
  note d = groupsD [OF proc_invD(1) [OF i]]
  have l: "p \<noteq> init_proc st" "\<And>x. x \<in> set (session_heap st) \<Longrightarrow> s_sid (sessions st x) \<noteq> p_pid (procs st p)" using no_leader [OF i p] n by blast+
  have "proc_inv {} s \<and> pgid_of s p = pgid \<and> (talks st s \<or> moved p st s)"
  proof (cases "pgrp_find pgid st")
    case (Some g)
    have g: "g \<in> set (pgrp_heap st)" "pg_pgid (pgrps st g) = pgid" using Some keyed_find [OF d(3), of pgid g] by (simp_all add: pgrp_find_def)
    show ?thesis
    proof (cases "g = ?g")
      case True
      then obtain m where "s = say m st" using r Some by (auto simp: setpgrp_move_def Let_def)
      then have "talks st s" by simp
      then show ?thesis using same_struct_inv [OF talks_struct i] g(2) True by (auto simp: talks_def)
    next
      case False
      then obtain s1 where s1: "leave_pgrp p st = Some s1" "s = join_pgrp p (set_pgrp p g s1)" using r Some by (auto simp: setpgrp_move_def Let_def split: option.splits)
      have "groups {} {} {} st" "proc_frame st st" using proc_invD(1) [OF i] proc_frame_simps(1) by blast+
      note c = change_pgrp [OF i p l this(1) empty_subsetI this(2) refl refl _ g(1) False s1]
      show ?thesis using c g(2) by simp
    qed
  next
    case None
    obtain g st0 s1 where s: "new_pgrp pgid (session_of st p) st orc = (Some g, st0, o1)" "leave_pgrp p st0 = Some s1" "s = join_pgrp p (set_pgrp p g s1)"
      using r None by (auto simp: setpgrp_move_def Let_def split: option.splits prod.splits)
    have g: "g \<notin> set (pgrp_heap st)" using f s(1) by (auto simp: new_pgrp_def Let_def split: prod.splits option.splits)
    have m: "?g \<in> set (pgrp_heap st)" "session_of st p \<in> set (session_heap st)" using ownedD(1) [OF d(1)] ownedD(1) [OF d(2)] p by auto
    note b = new_pgrp_groups [OF proc_invD(1) [OF i] s(1) g m(2) None]
    have "groups {} {g} {} st0" "g \<in> set (pgrp_heap st0)" "g \<noteq> ?g" using b(1,3) g m(1) by auto
    moreover have "pgrps st0 h = pgrps st h" if "h \<in> set (pgrp_heap st)" for h using b(7) [of h] g that by (cases "h = g") auto
    ultimately show ?thesis using change_pgrp [OF i p l, of "{g}" st0 g s1 s] b(2,4,5,8) s(2,3) by simp
  qed
  then show "proc_inv {} s" "pgid_of s p = pgid" "talks st s \<or> moved p st s" by blast+
qed

end
