(* ===== verification/Proc_Life.thy ===== *)
theory Proc_Life
  imports Proc_System
begin

text \<open>
  The life of a process keeps the invariant: its creation, its adoption by a parent, its end, and what a parent learns of it.
\<close>

section \<open>The hierarchy\<close>

lemma tree_parent: "tree st \<Longrightarrow> p \<in> set (proc_heap st) \<Longrightarrow> p_parent (procs st p) \<in> alive st"
  unfolding tree_def using ownedD(1) by blast

lemma tree_children: "tree st \<Longrightarrow> p \<in> alive st \<Longrightarrow> set (p_ochild (procs st p)) = {c \<in> set (proc_heap st). p_parent (procs st c) = p}"
  unfolding tree_def using ownedD(2) by fastforce

text \<open>A process is moved from one parent to another.\<close>

lemma owned_move:
  assumes o: "owned H L W A" and x: "x \<in> A" and h: "h \<in> H"
    and l: "\<And>k. k \<in> H \<Longrightarrow> L' k = (if k = h then [x] else []) @ (if k = W x then remove1 x (L k) else L k)" and w: "W' x = h" "\<And>y. y \<in> A \<Longrightarrow> y \<noteq> x \<Longrightarrow> W' y = W y"
  shows "owned H L' W' A"
proof -
  define L1 where "L1 = (\<lambda>k. if k = W x then remove1 x (L k) else L k)"
  have "owned H L1 W (A - {x})" by (rule owned_remove [OF o]) (simp_all add: L1_def x)
  then have "owned H L' W' (insert x (A - {x}))" by (rule owned_insert [where h = h]) (use h l w in \<open>simp_all add: L1_def\<close>)
  then show ?thesis using x by (simp add: insert_absorb)
qed

text \<open>All children of one process go to another, and the first dies.\<close>

lemma owned_merge:
  assumes o: "owned H L W A" and p: "p \<in> H" "a \<in> H" "a \<noteq> p" and l: "L' a = L p @ L a" "\<And>k. k \<in> H \<Longrightarrow> k \<noteq> a \<Longrightarrow> k \<noteq> p \<Longrightarrow> L' k = L k"
    and w: "\<And>x. x \<in> A \<Longrightarrow> W' x = (if W x = p then a else W x)"
  shows "owned (H - {p}) L' W' A"
proof -
  have d: "distinct (L k)" "set (L k) = {x \<in> A. W x = k}" if "k \<in> H" for k using o that by (auto simp: owned_def)
  have "distinct (L' k) \<and> set (L' k) = {x \<in> A. W' x = k}" if k: "k \<in> H" "k \<noteq> p" for k
  proof (cases "k = a")
    case True
    have "set (L p) \<inter> set (L a) = {}" using d(2) p by auto
    then have "distinct (L' a)" using l(1) d(1) p by simp
    moreover have "W' x = a \<longleftrightarrow> W x = p \<or> W x = a" if "x \<in> A" for x using w [OF that] by auto
    then have "set (L' a) = {x \<in> A. W' x = a}" using l(1) d(2) p by auto
    ultimately show ?thesis using True by simp
  next
    case False
    then show ?thesis using d [OF k(1)] l(2) [OF k(1)] k w by auto
  qed
  moreover have "W' x \<in> H - {p}" if "x \<in> A" for x using o that w p by (auto simp: owned_def)
  ultimately show ?thesis by (auto simp: owned_def)
qed

section \<open>Creation\<close>

lemma hash_add_values: "snd ` set (hash_add k v t) \<subseteq> insert v (snd ` set t)"
  by (auto simp: hash_add_def)

text \<open>A new structure becomes a child of \<^verbatim>\<open>init\<close> in its group. The process with the id 2 is not entered into the tables.\<close>

lemma complete_proc_inv:
  assumes i: "proc_inv X st" and f: "p \<notin> set (proc_heap st)"
    and n: "\<And>q. q \<in> set (proc_heap st) \<Longrightarrow> p_pid (procs st q) \<noteq> pid" "\<And>x. x \<in> set (session_heap st) \<Longrightarrow> s_sid (sessions st x) \<noteq> pid"
    and t: "\<not> p_dead q0" "st2 = st\<lparr>procs := (procs st)(p := q0), proc_heap := p # proc_heap st, nextpid := m, wrap := w, startup_proc := y\<rparr>"
    and s: "s = complete_proc p pid st2"
  shows "proc_inv (if pid = 2 then insert p X else X) s" "proc_heap s = p # proc_heap st" "p \<in> alive s" "p_pid (procs s q) = (if q = p then pid else p_pid (procs st q))"
    "set (session_heap s) \<subseteq> set (session_heap st)" "s_sid (sessions s x) = s_sid (sessions st x)" "init_proc s = init_proc st"
proof -
  let ?i = "init_proc st"
  note d = proc_invD [OF i] and g = groupsD [OF proc_invD(1) [OF i]]
  have ih: "?i \<in> alive st" "?i \<noteq> p" using d(4) f by (auto simp: init_ok_def alive_def Let_def)
  define q1 where "q1 = q0\<lparr>p_pid := pid, p_id := (if pid = 2 then [0] else []), p_login := ''<none>'', p_parent := ?i, p_loginleader := False,
    p_ochild := [], p_parentset := False, p_pgrp := p_pgrp (procs st ?i)\<rparr>"
  define s0 where "s0 = st2\<lparr>procs := (procs st)(p := q1, ?i := (procs st ?i)\<lparr>p_ochild := p # p_ochild (procs st ?i)\<rparr>),
    pidhash := (if pid = 2 then pidhash st else hash_add pid p (pidhash st)), taskhash := (if pid = 2 then taskhash st else hash_add (p_task q0) p (taskhash st))\<rparr>"
  have join: "s = join_pgrp p s0"
    using s ih(2) by (simp add: complete_proc_def add_proc_to_hash_def s0_def q1_def t(2) Let_def fun_upd_twist)
  have e: "\<And>x. p_pgrp (procs s0 x) = (if x = p then p_pgrp (procs st ?i) else p_pgrp (procs st x))" "\<And>x. p_pid (procs s0 x) = (if x = p then pid else p_pid (procs st x))"
    "\<And>x. p_parent (procs s0 x) = (if x = p then ?i else p_parent (procs st x))" "\<And>x. p_dead (procs s0 x) = (x \<noteq> p \<and> p_dead (procs st x))"
    "\<And>x. x \<noteq> p \<Longrightarrow> p_parentset (procs s0 x) = p_parentset (procs st x)"
    "\<And>x. p_ochild (procs s0 x) = (if x = ?i then p # p_ochild (procs st x) else if x = p then [] else p_ochild (procs st x))"
    "proc_heap s0 = p # proc_heap st" "pgrp_heap s0 = pgrp_heap st" "session_heap s0 = session_heap st" "pgrps s0 = pgrps st" "sessions s0 = sessions st"
    "pghash s0 = pghash st" "sidhash s0 = sidhash st" "init_proc s0 = ?i" "pidhash s0 = (if pid = 2 then pidhash st else hash_add pid p (pidhash st))"
    "taskhash s0 = (if pid = 2 then taskhash st else hash_add (p_task q0) p (taskhash st))"
    using ih(2) t(1) by (simp_all add: s0_def q1_def t(2))
  have k: "p_pgrp (procs s0 p) \<in> set (pgrp_heap s0)" using e ownedD(1) [OF g(1)] ih(1) by (simp add: alive_def)
  have gi: "groups {p} {} {} s0"
  proof (rule groupsI)
    have "owned (set (pgrp_heap st)) (\<lambda>g. pg_plist (pgrps st g)) (\<lambda>p. p_pgrp (procs s0 p)) (set (proc_heap st))"
      by (rule owned_cong [OF g(1) [simplified]]) (use f e in auto)
    then show "owned (set (pgrp_heap s0)) (\<lambda>g. pg_plist (pgrps s0 g)) (\<lambda>p. p_pgrp (procs s0 p)) (set (proc_heap s0) - {p})" using f by (simp add: e(7-))
  qed (use g e in simp_all)
  have w: "groups {} {} {} s" "left_pgrp 0 s0 s" using join_groups [OF gi _ _ k] e(7) join by simp_all
  have v: "procs s = procs s0" "proc_heap s = proc_heap s0" "pidhash s = pidhash s0" "taskhash s = taskhash s0" "init_proc s = ?i"
    "\<And>h. pg_session (pgrps s h) = pg_session (pgrps st h)" "\<And>h. pg_pgid (pgrps s h) = pg_pgid (pgrps st h)"
    "\<And>x. s_sid (sessions s x) = s_sid (sessions st x)" using w(2) e by (simp_all add: left_pgrp_def proc_frame_def)
  have sh: "set (session_heap s) \<subseteq> set (session_heap st)" using w(2) e(9) by (simp add: left_pgrp_def)
  have al: "alive s = insert p (alive st)" using f by (auto simp: alive_def v e)
  have "owned (insert p (alive st)) (\<lambda>x. if x = p then [] else p_ochild (procs st x)) (\<lambda>x. p_parent (procs st x)) (set (proc_heap st))"
    by (rule owned_new [OF d(2) [unfolded tree_def]]) (use f in \<open>auto simp: alive_def\<close>)
  then have "owned (insert p (alive st)) (\<lambda>x. p_ochild (procs s x)) (\<lambda>x. p_parent (procs s x)) (insert p (set (proc_heap st)))"
    by (rule owned_insert [where h = ?i]) (use f ih in \<open>auto simp: v(1) e\<close>)
  then have "tree s" by (simp add: tree_def al v(2) e(7))
  moreover have "pids (if pid = 2 then insert p X else X) s"
  proof -
    obtain H where H: "set (proc_heap st) - insert ?i X \<subseteq> H" "H \<subseteq> set (proc_heap st)" "keyed H (\<lambda>p. p_pid (procs st p)) (pidhash st)"
      "inj_on (\<lambda>p. p_pid (procs st p)) (set (proc_heap st))" "snd ` set (taskhash st) \<subseteq> set (proc_heap st)" using d(3) by (auto simp: pids_def)
    have "keyed H (\<lambda>x. p_pid (procs s x)) (pidhash st)" by (rule keyed_cong [OF H(3)]) (use H(2) f in \<open>auto simp: v(1) e(2)\<close>)
    moreover have "keyed (insert p H) (\<lambda>x. p_pid (procs s x)) (hash_add pid p (pidhash st))"
    proof (rule keyed_add [OF H(3)])
      show "p \<notin> H" "p_pid (procs s p) = pid" "pid \<notin> (\<lambda>p. p_pid (procs st p)) ` H" using H(2) f n(1) v(1) e(2) by auto
      show "p_pid (procs s x) = p_pid (procs st x)" if "x \<in> H" for x using that H(2) f v(1) e(2) by auto
    qed
    ultimately have "keyed (if pid = 2 then H else insert p H) (\<lambda>x. p_pid (procs s x)) (pidhash s)" by (simp add: v(3) e(15))
    moreover have "inj_on (\<lambda>x. p_pid (procs s x)) (insert p (set (proc_heap st)))" using H(4) n(1) f by (auto simp: v(1) e(2) inj_on_def)
    moreover have "snd ` set (taskhash s) \<subseteq> insert p (set (proc_heap st))" using hash_add_values [of "p_task q0" p "taskhash st"] H(5) v(4) e(16) by auto
    ultimately show ?thesis unfolding pids_def using H(1,2) by (intro conjI exI [of _ "if pid = 2 then H else insert p H"]) (auto simp: v e)
  qed
  moreover have "init_ok s" using d(4) ih al by (simp add: init_ok_def Let_def v e)
  moreover have "leaders s" unfolding leaders_def using d(5) n(2) sh by (auto simp: leaders_def v e)
  ultimately show "proc_inv (if pid = 2 then insert p X else X) s" using w(1) by (simp add: proc_inv_def)
  show "proc_heap s = p # proc_heap st" "p \<in> alive s" "p_pid (procs s q) = (if q = p then pid else p_pid (procs st q))"
    "set (session_heap s) \<subseteq> set (session_heap st)" "s_sid (sessions s x) = s_sid (sessions st x)" "init_proc s = init_proc st"
    using v e al sh by simp_all
qed

lemma new_proc_inv:
  assumes i: "proc_inv {} st" and r: "new_proc task st orc = Some (Some p, s, o1)" and f: "p \<notin> set (proc_heap st)" and n: "p_pid (procs s p) \<noteq> 2"
  shows "proc_inv {} s" "proc_heap s = p # proc_heap st" "p \<in> alive s" "\<And>q. q \<noteq> p \<Longrightarrow> p_pid (procs s q) = p_pid (procs st q)" "pidfree (p_pid (procs s p)) st"
proof -
  obtain st1 pid st2 where s: "allocate_proc task st orc = (Some p, st1, o1)" "genpid st1 = Some (pid, st2)" "s = complete_proc p pid st2"
    using r by (auto simp: new_proc_def split: prod.splits option.splits)
  have st1: "st1 = st\<lparr>procs := (procs st)(p := new_structure task), proc_heap := p # proc_heap st\<rparr>"
    using s(1) by (auto simp: allocate_proc_def split: prod.splits option.splits)
  obtain m w where "st2 = st1\<lparr>nextpid := m, wrap := w\<rparr>" using genpid_free(2) [OF s(2)] by blast
  then have st2: "st2 = st\<lparr>procs := (procs st)(p := new_structure task), proc_heap := p # proc_heap st, nextpid := m, wrap := w, startup_proc := startup_proc st\<rparr>"
    by (simp add: st1)
  have free: "pidfree pid st" using genpid_free(1) [OF s(2)] by (simp add: pidfree_def pid_find_allow_zombie_def pgrp_find_def session_find_def st1)
  have "\<not> p_dead (new_structure task)" by (simp add: new_structure_def)
  note v = complete_proc_inv [OF i f pidfree_new(1) [OF i free] pidfree_new(2) [OF i free] this st2 s(3)]
  show "proc_inv {} s" using v(1) v(4) [of p] n by simp
  show "proc_heap s = p # proc_heap st" "p \<in> alive s" "\<And>q. q \<noteq> p \<Longrightarrow> p_pid (procs s q) = p_pid (procs st q)" "pidfree (p_pid (procs s p)) st"
    using v free by simp_all
qed

section \<open>Adoption\<close>

lemma adopt_values:
  "p_parent (procs (adopt a c st) x) = (if x = c then a else p_parent (procs st x))"
  "p_ochild (procs (adopt a c st) x) = (if x = a then [c] else []) @ (if x = p_parent (procs st c) then remove1 c (p_ochild (procs st x)) else p_ochild (procs st x))"
  "p_pid (procs (adopt a c st) x) = p_pid (procs st x)" "p_dead (procs (adopt a c st) x) = p_dead (procs st x)" "p_pgrp (procs (adopt a c st) x) = p_pgrp (procs st x)"
  "p_parentset (procs (adopt a c st) x) = p_parentset (procs st x)" "p_task_namespace (procs (adopt a c st) x) = p_task_namespace (procs st x)"
  "\<exists>ps. adopt a c st = st\<lparr>procs := ps\<rparr>"
  by (auto simp: adopt_def Let_def)

lemma adopt_inv:
  assumes i: "proc_inv X st" and a: "a \<in> alive st" "c \<in> set (proc_heap st)"
  shows "proc_inv X (adopt a c st)"
proof -
  let ?s = "adopt a c st"
  obtain ps where ps: "?s = st\<lparr>procs := ps\<rparr>" using adopt_values(8) by blast
  have e: "proc_heap ?s = proc_heap st" "pgrp_heap ?s = pgrp_heap st" "session_heap ?s = session_heap st" "pgrps ?s = pgrps st" "sessions ?s = sessions st" "pghash ?s = pghash st"
    "sidhash ?s = sidhash st" "pidhash ?s = pidhash st" "taskhash ?s = taskhash st" "init_proc ?s = init_proc st" by (simp_all add: ps)
  have "owned (alive st) (\<lambda>p. p_ochild (procs ?s p)) (\<lambda>p. p_parent (procs ?s p)) (set (proc_heap st))"
    by (rule owned_move [OF proc_invD(2) [OF i, unfolded tree_def] a(2,1)]) (simp_all add: adopt_values)
  then show ?thesis using i
    by (simp add: proc_inv_def tree_def alive_def groups_def pids_def init_ok_def leaders_def Let_def e adopt_values)
qed

lemma inherit_inv:
  assumes i: "proc_inv X st" and a: "a \<in> alive st" and c: "c \<in> set (proc_heap st)" "c \<noteq> init_proc st"
    and l: "\<And>x. x \<in> set (session_heap st) \<Longrightarrow> s_sid (sessions st x) \<noteq> p_pid (procs st c)" and r: "inherit_pgrp a c st = Some s"
  shows "proc_inv X s" "init_proc s = init_proc st"
proof -
  let ?pg = "p_pgrp (procs st a)"
  have "proc_inv X s \<and> init_proc s = init_proc st"
  proof (cases "p_pgrp (procs st c) = ?pg")
    case True
    then have "talks st s" using r talks_newids by (auto simp: inherit_pgrp_def Let_def)
    then show ?thesis using same_struct_inv [OF talks_struct i] by (auto simp: talks_def)
  next
    case False
    then obtain s1 where s: "leave_pgrp c st = Some s1" "s = join_pgrp c (set_pgrp c ?pg s1)" using r by (auto simp: inherit_pgrp_def)
    have g: "groups {} {} {} st" "proc_frame st st" "?pg \<in> set (pgrp_heap st)" "?pg \<noteq> p_pgrp (procs st c)"
      using proc_invD(1) [OF i] proc_frame_simps(1) ownedD(1) [OF groupsD(1) [OF proc_invD(1) [OF i]], of a] a False by (auto simp: alive_def)
    note m = change_pgrp [OF i c l g(1) empty_subsetI g(2) refl refl _ g(3,4) s]
    show ?thesis using m by (simp add: moved_def same_procs_def)
  qed
  then show "proc_inv X s" "init_proc s = init_proc st" by blast+
qed

lemma child_inv:
  assumes i: "proc_inv {} st" and a: "a \<in> alive st" and r: "S_proc_child (Some a) childt [] st orc = Some (err, s, o1)"
    and l: "\<And>c x. map_of (taskhash st) childt = Some c \<Longrightarrow> x \<in> set (session_heap st) \<Longrightarrow> s_sid (sessions st x) \<noteq> p_pid (procs st c)"
  shows "proc_inv {} s"
proof -
  consider "s = st" | c s1 where "map_of (taskhash st) childt = Some c" "\<not> p_parentset (procs st c)" "inherit_pgrp a c (adopt a c st) = Some s1" "s = mark_child a c s1"
    using r by (auto simp: S_proc_child_def task_find_def split: if_splits option.splits)
  then show ?thesis
  proof cases
    case 1
    then show ?thesis using i by simp
  next
    case (2 c s1)
    have c: "c \<in> set (proc_heap st)" "c \<noteq> init_proc st"
      using map_of_SomeD [OF 2(1)] proc_invD(3,4) [OF i] 2(2) by (force simp: pids_def init_ok_def Let_def)+
    obtain ps where ps: "adopt a c st = st\<lparr>procs := ps\<rparr>" using adopt_values(8) by blast
    have "proc_inv {} s1" "init_proc s1 = init_proc st"
      using inherit_inv [OF adopt_inv [OF i a c(1)] _ _ _ _ 2(3)] a c l [OF 2(1)] adopt_values(3,4) [of a c st] by (auto simp: alive_def ps)
    moreover have "same_struct s1 s" by (simp add: 2(4) mark_child_def struct_defs)
    ultimately show ?thesis using same_struct_inv by blast
  qed
qed

section \<open>The end\<close>

lemma complete_exit_inv:
  assumes i: "proc_inv X st" and p: "p \<in> set (proc_heap st)" "p \<noteq> init_proc st" and r: "complete_exit p st = Some s"
  shows "proc_inv X s" "proc_heap s = removeAll p (proc_heap st)" "init_proc s = init_proc st" "p_pid (procs s q) = p_pid (procs st q)"
    "p_dead (procs s q) = p_dead (procs st q)"
proof -
  let ?a = "p_parent (procs st p)"
  note d = proc_invD [OF i]
  obtain t t' where t: "hash_remove p (pidhash st) = Some t" "hash_remove p (taskhash st) = Some t'" "p_dead (procs st p)"
    using r by (auto simp: complete_exit_def remove_proc_from_hash_def split: if_splits option.splits)
  define st3 where "st3 = upd_proc ?a (\<lambda>q. q\<lparr>p_ochild := remove1 p (p_ochild q)\<rparr>) (upd_proc p (\<lambda>q. q\<lparr>p_task := 0\<rparr>) (st\<lparr>pidhash := t, taskhash := t'\<rparr>))"
  obtain s3 where s: "leave_pgrp p st3 = Some s3" "s = s3\<lparr>proc_heap := removeAll p (proc_heap s3), released := p # released s3\<rparr>"
    using r t by (auto simp: complete_exit_def remove_proc_from_hash_def st3_def Let_def split: if_splits)
  have e: "same_groups st st3" "pidhash st3 = t" "taskhash st3 = t'" "init_proc st3 = init_proc st" "\<And>q. p_pid (procs st3 q) = p_pid (procs st q)"
    "\<And>q. p_parent (procs st3 q) = p_parent (procs st q)" "\<And>q. p_dead (procs st3 q) = p_dead (procs st q)" "\<And>q. p_parentset (procs st3 q) = p_parentset (procs st q)"
    "\<And>q. p_ochild (procs st3 q) = (if q = ?a then remove1 p (p_ochild (procs st q)) else p_ochild (procs st q))"
    by (simp_all add: st3_def same_groups_def)
  obtain s3' where "leave_pgrp p st3 = Some s3'" "groups {p} {} {} s3'" "left_pgrp (p_pgrp (procs st3 p)) st3 s3'"
    by (rule leave_groups [OF same_groups_inv [OF e(1) d(1)]]) (use p e(1) in \<open>simp_all add: same_groups_def\<close>)
  then have g: "groups {p} {} {} s3" "left_pgrp (p_pgrp (procs st3 p)) st3 s3" using s(1) by simp_all
  have v: "procs s = procs st3" "proc_heap s = removeAll p (proc_heap st)" "pidhash s = t" "taskhash s = t'" "init_proc s = init_proc st"
    "set (session_heap s) \<subseteq> set (session_heap st)" "\<And>h. pg_session (pgrps s h) = pg_session (pgrps st h)" "\<And>h. pg_pgid (pgrps s h) = pg_pgid (pgrps st h)"
    "\<And>x. s_sid (sessions s x) = s_sid (sessions st x)" "\<And>q. p_pgrp (procs s q) = p_pgrp (procs st q)"
    using g(2) e unfolding s(2) by (simp_all add: left_pgrp_def proc_frame_def same_groups_def)
  have e10: "\<And>q. p_pgrp (procs st3 q) = p_pgrp (procs st q)" using e(1) by (simp add: same_groups_def)
  have al: "alive s = alive st" using t(3) by (auto simp: alive_def v e)
  have "groups {} {} {} s" using g(1) by (simp add: groups_def s(2))
  moreover have "owned (alive st) (\<lambda>p. p_ochild (procs s p)) (\<lambda>p. p_parent (procs st p)) (set (proc_heap st) - {p})"
    by (rule owned_remove [OF d(2) [unfolded tree_def]]) (use p in \<open>simp_all add: v(1) e\<close>)
  then have "tree s" by (simp add: tree_def al v(1,2) e set_removeAll)
  moreover have "pids X s"
  proof -
    obtain H where H: "set (proc_heap st) - insert (init_proc st) X \<subseteq> H" "H \<subseteq> set (proc_heap st)" "keyed H (\<lambda>p. p_pid (procs st p)) (pidhash st)"
      "inj_on (\<lambda>p. p_pid (procs st p)) (set (proc_heap st))" "snd ` set (taskhash st) \<subseteq> set (proc_heap st)" using d(3) by (auto simp: pids_def)
    have h: "p \<in> H" using t(1) H(3) by (auto simp: hash_remove_def keyed_def split: if_splits)
    have "keyed (H - {p}) (\<lambda>p. p_pid (procs st p)) t" using keyed_remove [OF H(3) h] t(1) by simp
    moreover have "snd ` set t' \<subseteq> set (proc_heap st) - {p}" using t(2) H(5) by (force simp: hash_remove_def split: if_splits)
    moreover have "inj_on (\<lambda>p. p_pid (procs st p)) (set (proc_heap st) - {p})" using H(4) by (rule inj_on_subset) blast
    ultimately show ?thesis using H(1,2) unfolding pids_def by (intro conjI exI [of _ "H - {p}"]) (auto simp: v e)
  qed
  moreover have "init_ok s" using d(4) al by (simp add: init_ok_def Let_def v e e10)
  moreover have "leaders s" using d(5) by (auto simp: leaders_def v(1,2,7-) e e10 dest!: subsetD [OF v(6)])
  ultimately show "proc_inv X s" by (simp add: proc_inv_def)
  show "proc_heap s = removeAll p (proc_heap st)" "init_proc s = init_proc st" "p_pid (procs s q) = p_pid (procs st q)" "p_dead (procs s q) = p_dead (procs st q)"
    using v e by simp_all
qed

lemma fold_reparent:
  "\<exists>ms. fold (reparent a) cs st = st\<lparr>messages := ms, procs := (\<lambda>x. if x \<in> set cs then (procs st x)\<lparr>p_parent := a\<rparr> else procs st x)\<rparr>"
proof (induction cs arbitrary: st)
  case Nil
  show ?case by (intro exI [of _ "messages st"]) simp
next
  case (Cons c cs)
  obtain ms where m: "reparent a c st = st\<lparr>messages := ms, procs := (procs st)(c := (procs st c)\<lparr>p_parent := a\<rparr>)\<rparr>"
  proof (cases "p_msgport (procs st c) = 0")
    case True
    then show ?thesis using that [of "messages st"] by (simp add: reparent_def Let_def)
  next
    case False
    then show ?thesis using that by (simp add: reparent_def say_def Let_def)
  qed
  obtain ms' where f: "fold (reparent a) cs (reparent a c st) = (reparent a c st)\<lparr>messages := ms',
      procs := (\<lambda>x. if x \<in> set cs then (procs (reparent a c st) x)\<lparr>p_parent := a\<rparr> else procs (reparent a c st) x)\<rparr>"
    using Cons.IH [of "reparent a c st"] by blast
  have "(\<lambda>x. if x \<in> set cs then (procs (reparent a c st) x)\<lparr>p_parent := a\<rparr> else procs (reparent a c st) x) =
      (\<lambda>x. if x \<in> set (c # cs) then (procs st x)\<lparr>p_parent := a\<rparr> else procs st x)" by (rule ext) (simp add: m)
  then show ?case using f m by (intro exI [of _ ms']) simp
qed

text \<open>What the death of \<open>p\<close> does to the hierarchy.\<close>

lemma dead_inv:
  assumes i: "proc_inv X st" and p: "p \<in> alive st" "p \<noteq> init_proc st" and g: "same_groups st s1" "pidhash s1 = pidhash st" "taskhash s1 = taskhash st"
      "init_proc s1 = init_proc st"
    and q: "\<And>x. p_pid (procs s1 x) = p_pid (procs st x)" "\<And>x. p_dead (procs s1 x) = p_dead (procs st x)" "\<And>x. p_parentset (procs st x) \<Longrightarrow> p_parentset (procs s1 x)"
    and o: "owned (alive st - {p}) (\<lambda>x. p_ochild (procs s1 x)) (\<lambda>x. p_parent (procs s1 x)) (set (proc_heap st))"
    and s: "s = upd_proc p (\<lambda>q. q\<lparr>p_dead := True\<rparr>) s1"
  shows "proc_inv X s"
proof -
  note d = proc_invD [OF i] and e = g(1) [unfolded same_groups_def]
  have v: "proc_heap s = proc_heap st" "\<And>x. p_pid (procs s x) = p_pid (procs st x)" "\<And>x. p_dead (procs s x) = (x = p \<or> p_dead (procs st x))"
    "\<And>x. p_parent (procs s x) = p_parent (procs s1 x)" "\<And>x. p_ochild (procs s x) = p_ochild (procs s1 x)" "\<And>x. p_pgrp (procs s x) = p_pgrp (procs st x)"
    "\<And>x. p_parentset (procs st x) \<Longrightarrow> p_parentset (procs s x)" "pidhash s = pidhash st" "taskhash s = taskhash st" "init_proc s = init_proc st"
    "session_heap s = session_heap st" "\<And>h. pg_pgid (pgrps s h) = pg_pgid (pgrps st h)" "\<And>h. pg_session (pgrps s h) = pg_session (pgrps st h)"
    "\<And>x. s_sid (sessions s x) = s_sid (sessions st x)"
    using g q e by (auto simp: s)
  have al: "alive s = alive st - {p}" by (auto simp: alive_def v)
  have "same_groups s1 s" by (simp add: s same_groups_def)
  then have "groups {} {} {} s" using same_groups_inv g(1) d(1) by blast
  moreover have "tree s" using o by (simp add: tree_def al v)
  moreover have "pids X s" using d(3) by (simp add: pids_def v)
  moreover have "init_ok s" using d(4) p(2) al v(7) by (simp add: init_ok_def Let_def v)
  moreover have "leaders s" using d(5) by (simp add: leaders_def v)
  ultimately show ?thesis by (simp add: proc_inv_def)
qed

lemma reparent_values:
  assumes "s = reparent_children p a st"
  shows "same_groups st s" "pidhash s = pidhash st" "taskhash s = taskhash st" "init_proc s = init_proc st" "p_pid (procs s x) = p_pid (procs st x)"
    "p_dead (procs s x) = p_dead (procs st x)" "p_parentset (procs st x) \<Longrightarrow> p_parentset (procs s x)"
    "p_parent (procs s x) = (if x \<in> set (p_ochild (procs st p)) then a else p_parent (procs st x))"
    "p_ochild (procs s x) = (if x = a then p_ochild (procs st p) @ p_ochild (procs st x) else p_ochild (procs st x))"
proof -
  let ?cs = "p_ochild (procs st p)"
  obtain ms where f: "fold (reparent a) ?cs st = st\<lparr>messages := ms, procs := (\<lambda>x. if x \<in> set ?cs then (procs st x)\<lparr>p_parent := a\<rparr> else procs st x)\<rparr>"
    using fold_reparent by blast
  define st2 where "st2 = upd_proc a (\<lambda>q. q\<lparr>p_ochild := ?cs @ p_ochild q\<rparr>) (fold (reparent a) ?cs st)"
  have q: "same_groups st st2" "pidhash st2 = pidhash st" "taskhash st2 = taskhash st" "init_proc st2 = init_proc st" "p_pid (procs st2 x) = p_pid (procs st x)"
    "p_dead (procs st2 x) = p_dead (procs st x)" "p_parentset (procs st2 x) = p_parentset (procs st x)"
    "p_parent (procs st2 x) = (if x \<in> set ?cs then a else p_parent (procs st x))"
    "p_ochild (procs st2 x) = (if x = a then ?cs @ p_ochild (procs st x) else p_ochild (procs st x))"
    by (simp_all add: st2_def f same_groups_def)
  have "s = st2 \<or> s = alert_parent a st2" using assms by (simp add: reparent_children_def st2_def Let_def)
  then have "same_struct st2 s" using alert_struct [of st2 a] by auto
  then have g: "same_groups st2 s" "same_procs st2 s" by (simp_all add: same_struct_def)
  show "same_groups st s" by (rule same_groups_trans [OF q(1) g(1)])
  show "pidhash s = pidhash st" "taskhash s = taskhash st" "init_proc s = init_proc st" "p_pid (procs s x) = p_pid (procs st x)"
    "p_dead (procs s x) = p_dead (procs st x)" "p_parentset (procs st x) \<Longrightarrow> p_parentset (procs s x)"
    "p_parent (procs s x) = (if x \<in> set ?cs then a else p_parent (procs st x))"
    "p_ochild (procs s x) = (if x = a then ?cs @ p_ochild (procs st x) else p_ochild (procs st x))"
    using g(2) q(2-) by (simp_all add: same_procs_def)
qed

lemma reparent_dead_inv:
  assumes i: "proc_inv X st" and p: "p \<in> alive st" "p \<noteq> init_proc st" and a: "a \<in> alive st" "a \<noteq> p"
    and s: "s = upd_proc p (\<lambda>q. q\<lparr>p_dead := True\<rparr>) (reparent_children p a st)"
  shows "proc_inv X s"
proof -
  note v = reparent_values [where p = p and a = a and st = st, OF refl]
  have "p_parent (procs (reparent_children p a st) x) = (if p_parent (procs st x) = p then a else p_parent (procs st x))" if "x \<in> set (proc_heap st)" for x
    using v(8) tree_children [OF proc_invD(2) [OF i] p(1)] that by simp
  then have "owned (alive st - {p}) (\<lambda>x. p_ochild (procs (reparent_children p a st) x)) (\<lambda>x. p_parent (procs (reparent_children p a st) x)) (set (proc_heap st))"
    by (intro owned_merge [OF proc_invD(2) [OF i, unfolded tree_def] p(1) a]) (simp_all add: v(9))
  then show ?thesis using v(7) by (intro dead_inv [OF i p v(1-4) _ _ _ _ s]) (simp_all add: v(5,6))
qed

text \<open>The root of a namespace is the process itself or an ancestor.\<close>

lemma namespace_root:
  assumes "namespace_find_root p st = Some r"
  shows "tree st \<Longrightarrow> p \<in> set (proc_heap st) \<Longrightarrow> r = p \<or> r \<in> alive st"
proof (rule namespace_find_root.raw_induct [where P = "\<lambda>p st r. tree st \<longrightarrow> p \<in> set (proc_heap st) \<longrightarrow> r = p \<or> r \<in> alive st", OF _ assms, THEN mp, THEN mp])
  fix find p st r
  assume i: "\<And>p st r. find p st = Some r \<Longrightarrow> tree st \<longrightarrow> p \<in> set (proc_heap st) \<longrightarrow> r = p \<or> r \<in> alive st"
    and b: "(let a = p_parent (procs st p) in if valid_port (p_task_namespace (procs st a)) then find a st else Some p) = Some r"
  show "tree st \<longrightarrow> p \<in> set (proc_heap st) \<longrightarrow> r = p \<or> r \<in> alive st"
    using b i [of "p_parent (procs st p)" st r] tree_parent [of st p] by (auto simp: Let_def alive_def split: if_splits)
qed

lemma new_parent_values:
  assumes i: "proc_inv X st" and p: "p \<in> alive st" "p \<noteq> init_proc st" and r: "new_parent p st = Some (a, s)"
  shows "same_struct st s" "a \<in> alive st" "a \<noteq> p"
proof -
  have "init_proc st \<in> alive st" using proc_invD(4) [OF i] by (simp add: init_ok_def Let_def)
  then show "same_struct st s" "a \<in> alive st" "a \<noteq> p"
    using r p namespace_root [of p st, OF _ proc_invD(2) [OF i]] by (auto simp: new_parent_def struct_defs alive_def split: if_splits)
qed

lemma exited_inv:
  assumes i: "proc_inv X st" and p: "p \<in> set (proc_heap st)" "p \<noteq> init_proc st" and r: "process_has_exited p st = Some s"
  shows "proc_inv X s \<and> init_proc s = init_proc st \<and> set (proc_heap st) - {p} \<subseteq> set (proc_heap s)"
proof (cases "p_dead (procs st p)")
  case True
  then show ?thesis using r i by (auto simp: process_has_exited_def)
next
  case False
  define st1 where "st1 = upd_proc p (\<lambda>q. q\<lparr>p_waited := False\<rparr>) st"
  define st2 where "st2 = (if p_task (procs st1 p) \<noteq> 0 then alert_parent p st1 else st1)"
  define st3 where "st3 = upd_proc p (\<lambda>q. q\<lparr>p_msgport := 0\<rparr>) st2"
  define st4 where "st4 = prociterate check_message_dying st3"
  have "same_struct st st1" by (simp add: st1_def struct_defs)
  also have "same_struct st1 st2" using alert_struct by (simp add: st2_def)
  also have "same_struct st2 st3" by (simp add: st3_def struct_defs)
  also have "same_struct st3 st4" unfolding st4_def by (rule iterate_struct) (rule dying_struct)
  finally have e4: "same_struct st st4" .
  note i4 = same_struct_inv [OF e4 i]
  have p4: "p \<in> alive st4" "p \<noteq> init_proc st4" using p False e4 by (auto simp: struct_defs alive_def)
  obtain st5 st7 where
    s: "(if p_ochild (procs st4 p) \<noteq> [] then map_option (\<lambda>(a, s). reparent_children p a s) (new_parent p st4) else Some st4) = Some st5"
    "st7 = upd_proc p (\<lambda>q. q\<lparr>p_dead := True\<rparr>) (if p_waiting (procs st5 p) \<or> p_msgportwait (procs st5 p) then st5\<lparr>wakeups := p # wakeups st5\<rparr> else st5)"
    "s = st7 \<or> complete_exit p (upd_proc p (\<lambda>q. q\<lparr>p_waited := True\<rparr>) st7) = Some s"
    using r False unfolding process_has_exited_def Let_def st1_def [symmetric] st2_def [symmetric] st3_def [symmetric] st4_def [symmetric]
    by (auto split: if_splits option.splits)
  have e7: "same_struct (upd_proc p (\<lambda>q. q\<lparr>p_dead := True\<rparr>) st5) st7" by (simp add: s(2) struct_defs)
  have f5: "proc_inv X (upd_proc p (\<lambda>q. q\<lparr>p_dead := True\<rparr>) st5) \<and> proc_heap st5 = proc_heap st4 \<and> init_proc st5 = init_proc st4"
  proof (cases "p_ochild (procs st4 p) = []")
    case True
    then have "st5 = st4" using s(1) by simp
    then show ?thesis using dead_inv [OF i4 p4, of st4] owned_free [OF proc_invD(2) [OF i4, unfolded tree_def] True] by simp
  next
    case False
    then obtain a s' where n: "new_parent p st4 = Some (a, s')" "st5 = reparent_children p a s'" using s(1) by auto
    note v = new_parent_values [OF i4 p4 n(1)]
    have "proc_inv X (upd_proc p (\<lambda>q. q\<lparr>p_dead := True\<rparr>) st5)"
      by (rule reparent_dead_inv [OF same_struct_inv [OF v(1) i4], of p a]) (use v p4 n(2) in \<open>auto simp: struct_defs alive_def\<close>)
    then show ?thesis using v(1) reparent_values(1,4) [OF n(2)] by (simp add: struct_defs)
  qed
  note i7 = same_struct_inv [OF e7 conjunct1 [OF f5]]
  have "proc_heap st5 = proc_heap st" "init_proc st5 = init_proc st" using f5 e4 by (simp_all add: struct_defs)
  then have h: "proc_heap st7 = proc_heap st" "init_proc st7 = init_proc st" by (simp_all add: s(2))
  have "same_struct st7 (upd_proc p (\<lambda>q. q\<lparr>p_waited := True\<rparr>) st7)" by (simp add: struct_defs)
  note w = same_struct_inv [OF this i7]
  show ?thesis using s(3) i7 complete_exit_inv(1-3) [OF w, of p s] h p by auto
qed

section \<open>Waiting\<close>

lemma reap_inv:
  assumes i: "proc_inv X st" and c: "c \<in> set (proc_heap st)" and r: "reap opts c st = Some (x, s)"
  shows "proc_inv X s" "x = None \<Longrightarrow> s = st"
proof -
  let ?st = "upd_proc c (\<lambda>q. q\<lparr>p_waited := True\<rparr>) st"
  have w: "proc_inv X ?st" by (rule same_struct_inv [OF _ i]) (simp add: struct_defs)
  consider "s = st" | "s = ?st" "x \<noteq> None" | "p_dead (procs st c)" "complete_exit c ?st = Some s" "x \<noteq> None"
    using r by (auto simp: reap_def Let_def split: if_splits)
  then have "proc_inv X s \<and> (x = None \<longrightarrow> s = st)"
  proof cases
    case 3
    then have "c \<noteq> init_proc ?st" using proc_invD(4) [OF i] by (auto simp: init_ok_def alive_def Let_def)
    then show ?thesis using complete_exit_inv(1) [OF w _ _ 3(2)] c 3(3) by auto
  qed (use i w in auto)
  then show "proc_inv X s" "x = None \<Longrightarrow> s = st" by blast+
qed

lemma wait_children_inv:
  "proc_inv X st \<Longrightarrow> set cs \<subseteq> set (proc_heap st) \<Longrightarrow> wait_children opts pid mypgrp cs had st = Some (x, h, s) \<Longrightarrow> proc_inv X s"
proof (induction opts pid mypgrp cs had st rule: wait_children.induct)
  case (2 opts pid mypgrp c cs had st)
  note i = "2.prems"(1)
  show ?case
  proof (cases "waiter_cares pid mypgrp (p_pid (procs st c)) (pg_pgid (pgrps st (p_pgrp (procs st c))))")
    case True
    then obtain y s1 where r: "reap opts c st = Some (y, s1)" using "2.prems"(3) by (auto split: option.splits)
    have c: "c \<in> set (proc_heap st)" using "2.prems"(2) by simp
    note v = reap_inv [OF i c r]
    show ?thesis
    proof (cases y)
      case None
      then have "wait_children opts pid mypgrp cs True st = Some (x, h, s)" using "2.prems"(3) True r v(2) by simp
      then show ?thesis using "2.IH"(1) [OF True r refl] None v(2) i "2.prems"(2) by simp
    next
      case (Some z)
      then show ?thesis using "2.prems"(3) True r v(1) by simp
    qed
  next
    case False
    then show ?thesis using "2.IH"(2) [OF False i] "2.prems"(2,3) by simp
  qed
qed auto

lemma wait_pass_inv:
  assumes i: "proc_inv X st" and p: "p \<in> alive st" and r: "wait_pass p pid opts st = Some (x, s)"
  shows "proc_inv X s"
proof -
  let ?sleep = "\<lambda>s. if WNOHANG \<in> opts then (Wait_Done (Inl EWOULDBLOCK), s) else (Wait_Sleep, upd_proc p (\<lambda>q. q\<lparr>p_waiting := True\<rparr>) s)"
  have sl: "proc_inv X s'" if "?sleep s1 = (x', s')" "proc_inv X s1" for s1 x' s'
  proof -
    have "same_struct s1 s'" using that(1) by (auto simp: struct_defs split: if_splits)
    then show ?thesis using same_struct_inv that(2) by blast
  qed
  have "set (p_ochild (procs st p)) \<subseteq> set (proc_heap st)" using tree_children [OF proc_invD(2) [OF i] p] by auto
  note ch = wait_children_inv [OF i this]
  show ?thesis
  proof (cases "p_ochild (procs st p) = []")
    case True
    then show ?thesis using r i by (simp add: wait_pass_def Let_def)
  next
    case ne: False
    show ?thesis
    proof (cases "pid > 0")
      case True
      then consider "s = st" | c y s1 where "pid_find_allow_zombie pid st = Some c" "reap opts c st = Some (y, s1)" "s = s1 \<or> ?sleep s1 = (x, s)"
        using r ne by (auto simp: wait_pass_def Let_def split: option.splits if_splits)
      then show ?thesis
      proof cases
        case (2 c y s1)
        then have "proc_inv X s1" using reap_inv(1) [OF i _ 2(2)] pids_find [OF proc_invD(3) [OF i]] by blast
        then show ?thesis using 2(3) sl by blast
      qed (use i in simp)
    next
      case False
      then obtain y h s1 where w: "wait_children opts pid (pgid_of st p) (p_ochild (procs st p)) (pid = 0) st = Some (y, h, s1)" "s = s1 \<or> ?sleep s1 = (x, s)"
        using r ne by (auto simp: wait_pass_def Let_def split: option.splits if_splits)
      then show ?thesis using ch [OF w(1)] sl by blast
    qed
  qed
qed

section \<open>Reassignment\<close>

lemma keyed_put:
  assumes "keyed H K t" "inj_on K (insert h H)"
  shows "keyed (insert h H) K (hash_add (K h) h t)"
proof -
  have "set (filter (\<lambda>e. fst e \<noteq> K h) t) = (\<lambda>x. (K x, x)) ` (H - {h})" using assms by (auto simp: keyed_def inj_on_def)
  moreover have "distinct (map fst (filter (\<lambda>e. fst e \<noteq> K h) t))" using assms(1) by (simp add: keyed_def distinct_map_filter)
  ultimately show ?thesis using assms(2) by (auto simp: keyed_def hash_add_def inj_on_def)
qed

lemma unhash_inv:
  assumes i: "proc_inv {} st" and r: "remove_proc_from_hash p st = Some s"
  shows "proc_inv {p} s" "proc_heap s = proc_heap st" "init_proc s = init_proc st" "procs s = procs st"
proof -
  obtain t t' where t: "hash_remove p (pidhash st) = Some t" "hash_remove p (taskhash st) = Some t'" "s = st\<lparr>pidhash := t, taskhash := t'\<rparr>"
    using r by (auto simp: remove_proc_from_hash_def split: option.splits)
  obtain H where H: "set (proc_heap st) - {init_proc st} \<subseteq> H" "H \<subseteq> set (proc_heap st)" "keyed H (\<lambda>p. p_pid (procs st p)) (pidhash st)"
    "inj_on (\<lambda>p. p_pid (procs st p)) (set (proc_heap st))" "snd ` set (taskhash st) \<subseteq> set (proc_heap st)" using proc_invD(3) [OF i] by (auto simp: pids_def)
  have h: "p \<in> H" using t(1) H(3) by (auto simp: hash_remove_def keyed_def split: if_splits)
  have "keyed (H - {p}) (\<lambda>p. p_pid (procs st p)) t" using keyed_remove [OF H(3) h] t(1) by simp
  moreover have "snd ` set t' \<subseteq> set (proc_heap st)" using t(2) H(5) by (force simp: hash_remove_def split: if_splits)
  ultimately have "pids {p} s" unfolding pids_def t(3) using H(1,2,4) by (intro conjI exI [of _ "H - {p}"]) auto
  then show "proc_inv {p} s" using i by (simp add: proc_inv_def groups_def tree_def alive_def init_ok_def leaders_def t(3))
qed (use r in \<open>auto simp: remove_proc_from_hash_def split: option.splits\<close>)

lemma rehash_inv:
  assumes i: "proc_inv {p} st" and p: "p \<in> set (proc_heap st)"
  shows "proc_inv {} (add_proc_to_hash p st)"
proof -
  obtain H where H: "set (proc_heap st) - {init_proc st, p} \<subseteq> H" "H \<subseteq> set (proc_heap st)" "keyed H (\<lambda>p. p_pid (procs st p)) (pidhash st)"
    "inj_on (\<lambda>p. p_pid (procs st p)) (set (proc_heap st))" "snd ` set (taskhash st) \<subseteq> set (proc_heap st)" using proc_invD(3) [OF i] by (auto simp: pids_def)
  have "insert p H \<subseteq> set (proc_heap st)" using H(2) p by simp
  then have "keyed (insert p H) (\<lambda>p. p_pid (procs st p)) (hash_add (p_pid (procs st p)) p (pidhash st))" using keyed_put [OF H(3)] inj_on_subset [OF H(4)] by blast
  moreover have "snd ` set (hash_add (p_task (procs st p)) p (taskhash st)) \<subseteq> set (proc_heap st)" using hash_add_values [of _ p "taskhash st"] H(5) p by blast
  ultimately have "pids {} (add_proc_to_hash p st)"
    unfolding pids_def add_proc_to_hash_def using H(1,2,4) p by (intro conjI exI [of _ "insert p H"]) auto
  then show ?thesis using i by (simp add: proc_inv_def groups_def tree_def alive_def init_ok_def leaders_def add_proc_to_hash_def)
qed

lemma complete_exit_heap: "pids X st \<Longrightarrow> complete_exit p st = Some s \<Longrightarrow> p \<in> set (proc_heap st)"
  by (auto simp: complete_exit_def remove_proc_from_hash_def hash_remove_def pids_def keyed_def split: if_splits option.splits)

lemma reassign_inv:
  assumes i: "proc_inv {} st" and p: "p \<in> alive st" and n: "map_of (taskhash st) newt \<noteq> Some (init_proc st)"
    and r: "S_proc_reassign (Some p) newt [] st orc = Some (err, s, o1)"
  shows "proc_inv {} s"
proof -
  consider "s = st" | stub st1 st3 st4 st5 where "map_of (taskhash st) newt = Some stub" "stub \<noteq> p" "remove_proc_from_hash p st = Some st1" "same_struct st1 st3"
    "process_has_exited stub st3 = Some st4" "complete_exit stub (upd_proc stub (\<lambda>q. q\<lparr>p_waited := True\<rparr>) st4) = Some st5" "s = add_proc_to_hash p st5"
  proof (cases "s = st")
    case False
    then obtain stub st1 st4 st5 where a: "map_of (taskhash st) newt = Some stub" "stub \<noteq> p" "remove_proc_from_hash p st = Some st1"
      "process_has_exited stub (upd_proc stub (\<lambda>q. q\<lparr>p_task := 0\<rparr>)
         (upd_proc p (\<lambda>q. q\<lparr>p_task := p_task (procs st1 stub), p_msgport := 0, p_deadmsg := (p_msgport q \<noteq> 0 \<or> p_deadmsg q)\<rparr>) st1)) = Some st4"
      "complete_exit stub (upd_proc stub (\<lambda>q. q\<lparr>p_waited := True\<rparr>) st4) = Some st5" "s = add_proc_to_hash p st5"
      using r unfolding S_proc_reassign_def Let_def task_find_def by (auto split: if_splits option.splits)
    show ?thesis by (rule that(2) [OF a(1-3) _ a(4-6)]) (simp add: struct_defs)
  qed
  then show ?thesis
  proof cases
    case (2 stub st1 st3 st4 st5)
    note u = unhash_inv [OF i 2(3)] and i3 = same_struct_inv [OF 2(4) unhash_inv(1) [OF i 2(3)]]
    have h: "stub \<in> set (proc_heap st)" "stub \<noteq> init_proc st" using map_of_SomeD [OF 2(1)] proc_invD(3) [OF i] n 2(1) by (force simp: pids_def)+
    have e3: "proc_heap st3 = proc_heap st" "init_proc st3 = init_proc st" using u 2(4) by (simp_all add: struct_defs)
    note i4 = exited_inv [OF i3 _ _ 2(5)]
    have i4: "proc_inv {p} st4" "init_proc st4 = init_proc st" "set (proc_heap st) - {stub} \<subseteq> set (proc_heap st4)" using i4 h e3 by auto
    let ?s4 = "upd_proc stub (\<lambda>q. q\<lparr>p_waited := True\<rparr>) st4"
    have w: "proc_inv {p} ?s4" by (rule same_struct_inv [OF _ i4(1)]) (simp add: struct_defs)
    note v = complete_exit_inv [OF w complete_exit_heap [OF proc_invD(3) [OF w] 2(6)] _ 2(6)]
    have "proc_inv {p} st5" "p \<in> set (proc_heap st5)" using v(1,2) h(2) i4 p 2(2) by (auto simp: alive_def)
    then show ?thesis using rehash_inv 2(7) by simp
  qed (use i in simp)
qed

end
