(* ===== verification/Proc_Props.thy ===== *)
theory Proc_Props
  imports Proc_Life
begin

text \<open>
  Properties of the process server, over all sequences of calls: the tables and lists are consistent, new ids are free, a new session belongs to its
  leader, a wait reports what the caller asked for; and a flaw.
\<close>

section \<open>The beginning\<close>

definition no_processes :: pserver where
  "no_processes = \<lparr>procs = (\<lambda>_. new_structure 0), pgrps = (\<lambda>_. \<lparr>pg_plist = [], pg_pgid = 0, pg_session = 0, pg_orphcnt = 0\<rparr>),
     sessions = (\<lambda>_. \<lparr>s_sid = 0, s_pgrps = [], s_sessionid = 0\<rparr>), proc_heap = [], pgrp_heap = [], session_heap = [], pidhash = [], taskhash = [],
     pghash = [], sidhash = [], nextpid = 1, wrap = WRAP_AROUND, init_proc = 0, startup_proc = 0, messages = [], wakeups = [], released = []\<rparr>"

lemma create_init_inv:
  assumes b: "create_init_proc no_processes orc = Some (i, st, o1)"
  shows "proc_inv {} (st\<lparr>init_proc := i\<rparr>)" "proc_heap st = [i]" "p_pid (procs st i) = 1" "\<And>y. y \<in> set (session_heap st) \<Longrightarrow> s_sid (sessions st y) = 1"
proof -
  define q where "q = (new_structure 0)\<lparr>p_pid := 1, p_parent := i, p_ochild := [i], p_parentset := True, p_deadmsg := True, p_important := True,
    p_id := [0], p_loginleader := True, p_login := ''root''\<rparr>"
  define s0 where "s0 = no_processes\<lparr>procs := (procs no_processes)(i := q), proc_heap := [i]\<rparr>"
  obtain o0 where r: "boot_setsid i s0 o0 = Some (st, o1)"
    using b by (auto simp: create_init_proc_def allocate_proc_def s0_def q_def no_processes_def split: prod.splits option.splits)
  have e: "proc_heap s0 = [i]" "pgrp_heap s0 = []" "session_heap s0 = []" "pidhash s0 = []" "taskhash s0 = []" "p_pid (procs s0 i) = 1" "p_parent (procs s0 i) = i"
    "p_ochild (procs s0 i) = [i]" "p_parentset (procs s0 i)" "\<not> p_dead (procs s0 i)"
    by (simp_all add: s0_def q_def no_processes_def new_structure_def)
  have g0: "groups {i} {} {} s0" by (rule groupsI) (simp_all add: s0_def no_processes_def owned_def keyed_def)
  have z: "i \<in> set (proc_heap s0)" "session_find (p_pid (procs s0 i)) s0 = None" "pgrp_find (p_pid (procs s0 i)) s0 = None" "fresh_session s0 o0"
    by (simp_all add: e session_find_def pgrp_find_def fresh_session_def) (simp_all add: s0_def no_processes_def)
  obtain g x where w: "groups {} {} {} st" "proc_heap st = [i]" "same_procs s0 st" "p_pgrp (procs st i) = g" "set (session_heap st) = {x}"
    "pg_pgid (pgrps st g) = 1" "pg_session (pgrps st g) = x" "s_sid (sessions st x) = 1"
    by (rule boot_setsid_groups [OF g0 z(1) r z(2-4)]) (use e in simp)
  have v: "p_pid (procs st i) = 1" "p_parent (procs st i) = i" "p_ochild (procs st i) = [i]" "p_parentset (procs st i)" "\<not> p_dead (procs st i)" "pidhash st = []" "taskhash st = []"
    using w(3) e by (simp_all add: same_procs_def)
  show "proc_heap st = [i]" "p_pid (procs st i) = 1" by (fact w(2) v(1))+
  show "s_sid (sessions st y) = 1" if "y \<in> set (session_heap st)" for y using that w(5,8) by simp
  have al: "alive (st\<lparr>init_proc := i\<rparr>) = {i}" using w(2) v(5) by (auto simp: alive_def)
  have "groups {} {} {} (st\<lparr>init_proc := i\<rparr>)" using w(1) by (simp add: groups_def)
  moreover have "tree (st\<lparr>init_proc := i\<rparr>)" unfolding tree_def al by (auto simp: owned_def w v)
  moreover have "pids {} (st\<lparr>init_proc := i\<rparr>)" unfolding pids_def by (intro conjI exI [of _ "{}"]) (auto simp: keyed_def w v)
  moreover have "init_ok (st\<lparr>init_proc := i\<rparr>)" by (simp add: init_ok_def al v w)
  moreover have "leaders (st\<lparr>init_proc := i\<rparr>)" by (simp add: leaders_def v w)
  ultimately show "proc_inv {} (st\<lparr>init_proc := i\<rparr>)" by (simp add: proc_inv_def)
qed

lemma boot_inv:
  assumes b: "boot self startup no_processes [Some i, Some x, Some g, Some u, Some p] = Some (st, o1)" and n: "distinct [i, u, p]"
  shows "proc_inv {} st"
proof -
  obtain st1 where c: "create_init_proc no_processes [Some i, Some x, Some g, Some u, Some p] = Some (unat i, st1, [Some u, Some p])"
    using b by (auto simp: create_init_proc_def allocate_proc_def alloc_def boot_setsid_def new_session_def new_pgrp_def Let_def)
  note v1 = create_init_inv [OF c]
  define st2 where "st2 = complete_proc (unat u) 2 (st1\<lparr>procs := (procs st1)(unat u := (new_structure 0)\<lparr>p_deadmsg := True\<rparr>), proc_heap := unat u # proc_heap st1, init_proc := unat i,
    startup_proc := unat u\<rparr>)"
  define st3 where "st3 = complete_proc (unat p) 4 (st2\<lparr>procs := (procs st2)(unat p := new_structure self), proc_heap := unat p # proc_heap st2\<rparr>)"
  have r: "(upd_proc (unat u) (\<lambda>q. q\<lparr>p_deadmsg := True\<rparr>)
      (st1\<lparr>init_proc := unat i, procs := (procs st1)(unat u := new_structure 0), proc_heap := unat u # proc_heap st1, startup_proc := unat u\<rparr>)) =
    st1\<lparr>procs := (procs st1)(unat u := (new_structure 0)\<lparr>p_deadmsg := True\<rparr>), proc_heap := unat u # proc_heap st1, init_proc := unat i, startup_proc := unat u\<rparr>"
    by (rule pserver.equality) simp_all
  have s: "st = add_proc_to_hash (unat u) (upd_proc (unat u) (\<lambda>q. q\<lparr>p_task := startup\<rparr>) st3)"
    using b c by (simp add: boot_def allocate_proc_def alloc_def st2_def st3_def r [symmetric])
  have d: "unat i \<noteq> unat u" "unat i \<noteq> unat p" "unat u \<noteq> unat p" using n by (simp_all add: word_unat_eq_iff)
  have "\<not> p_dead (new_structure self)" "\<not> p_dead ((new_structure 0)\<lparr>p_deadmsg := True\<rparr>)" by (simp_all add: new_structure_def)
  note dead = this
  have n2: "p_pid (procs (st1\<lparr>init_proc := unat i\<rparr>) q) \<noteq> 2" if "q \<in> set (proc_heap (st1\<lparr>init_proc := unat i\<rparr>))" for q
    using v1(2,3) d that by simp_all
  have m2: "s_sid (sessions (st1\<lparr>init_proc := unat i\<rparr>) y) \<noteq> 2" if "y \<in> set (session_heap (st1\<lparr>init_proc := unat i\<rparr>))" for y using v1(4) [of y] that by simp
  have a2: "st1\<lparr>procs := (procs st1)(unat u := (new_structure 0)\<lparr>p_deadmsg := True\<rparr>), proc_heap := unat u # proc_heap st1, init_proc := unat i, startup_proc := unat u\<rparr> =
    (st1\<lparr>init_proc := unat i\<rparr>)\<lparr>procs := (procs (st1\<lparr>init_proc := unat i\<rparr>))(unat u := (new_structure 0)\<lparr>p_deadmsg := True\<rparr>),
      proc_heap := unat u # proc_heap (st1\<lparr>init_proc := unat i\<rparr>), nextpid := nextpid st1, wrap := wrap st1, startup_proc := unat u\<rparr>"
    by (rule pserver.equality) simp_all
  have u: "unat u \<notin> set (proc_heap (st1\<lparr>init_proc := unat i\<rparr>))" using v1(2) d by simp
  note v2 = complete_proc_inv [OF v1(1) u n2 m2 dead(2) a2 st2_def]
  have h2: "proc_heap st2 = [unat u, unat i]" using v2(2) v1(2) by simp
  have n3: "p_pid (procs st2 q) \<noteq> 4" if "q \<in> set (proc_heap st2)" for q using that v2(4) [of q] h2 v1(3) d by auto
  have m3: "s_sid (sessions st2 y) \<noteq> 4" if "y \<in> set (session_heap st2)" for y using v1(4) [of y] that v2(5) v2(6) [of y] by auto
  have a3: "st2\<lparr>procs := (procs st2)(unat p := new_structure self), proc_heap := unat p # proc_heap st2\<rparr> =
    st2\<lparr>procs := (procs st2)(unat p := new_structure self), proc_heap := unat p # proc_heap st2, nextpid := nextpid st2, wrap := wrap st2, startup_proc := startup_proc st2\<rparr>"
    by (rule pserver.equality) simp_all
  have p: "unat p \<notin> set (proc_heap st2)" using h2 d by auto
  note w = complete_proc_inv [OF v2(1) p n3 m3 dead(1) a3 st3_def]
  have v3: "proc_inv {unat u} st3" "proc_heap st3 = [unat p, unat u, unat i]" using w(1,2) h2 by simp_all
  have "same_struct st3 (upd_proc (unat u) (\<lambda>q. q\<lparr>p_task := startup\<rparr>) st3)" by (simp add: struct_defs)
  from same_struct_inv [OF this v3(1)] show ?thesis unfolding s by (rule rehash_inv) (simp add: v3(2))
qed

section \<open>Runs\<close>

text \<open>
  The calls that change the state, each while the global lock is held, and the notification that a task has died. A call is made for a live process;
  allocated memory is not in use; the id 2 is not given a second time; and the process that is adopted leads no session.
\<close>

inductive proc_step :: "pserver \<Rightarrow> pserver \<Rightarrow> bool" where
  creates: "new_proc task st orc = Some (Some p, s, o1) \<Longrightarrow> p \<notin> set (proc_heap st) \<Longrightarrow> p_pid (procs s p) \<noteq> 2 \<Longrightarrow> proc_step st s"
| adopts: "a \<in> alive st \<Longrightarrow> S_proc_child (Some a) childt [] st orc = Some (err, s, o1) \<Longrightarrow>
    (\<And>c. task_find_nocreate childt st = Some c \<Longrightarrow> session_find (p_pid (procs st c)) st = None) \<Longrightarrow> proc_step st s"
| setsid: "p \<in> alive st \<Longrightarrow> S_proc_setsid (Some p) st orc = Some (err, s, o1) \<Longrightarrow> (\<And>s'. leave_pgrp p st = Some s' \<Longrightarrow> fresh_session s' orc) \<Longrightarrow> proc_step st s"
| setpgrp: "c \<in> alive st \<Longrightarrow> S_proc_setpgrp (Some c) pid pgid st orc = Some (err, s, o1) \<Longrightarrow>
    (\<And>j o'. alloc orc = (Some j, o') \<Longrightarrow> unat j \<notin> set (pgrp_heap st)) \<Longrightarrow> proc_step st s"
| exits: "p \<in> set (proc_heap st) \<Longrightarrow> p \<noteq> init_proc st \<Longrightarrow> process_has_exited p st = Some s \<Longrightarrow> proc_step st s"
| waits: "p \<in> alive st \<Longrightarrow> wait_pass p pid opts st = Some (x, s) \<Longrightarrow> proc_step st s"
| reassigns: "p \<in> alive st \<Longrightarrow> task_find_nocreate newt st \<noteq> Some (init_proc st) \<Longrightarrow> S_proc_reassign (Some p) newt [] st orc = Some (err, s, o1) \<Longrightarrow> proc_step st s"
| sidport: "p \<in> alive st \<Longrightarrow> S_proc_getsidport (Some p) receive st = (err, n, s) \<Longrightarrow> proc_step st s"
| marks_exec: "p \<in> alive st \<Longrightarrow> S_proc_mark_exec (Some p) st = (err, s) \<Longrightarrow> proc_step st s"
| marks_traced: "p \<in> alive st \<Longrightarrow> S_proc_mark_traced (Some p) st = (err, s) \<Longrightarrow> proc_step st s"
| mods_stopchild: "p \<in> alive st \<Longrightarrow> S_proc_mod_stopchild (Some p) v st = (err, s) \<Longrightarrow> proc_step st s"
| makes_namespace: "p \<in> alive st \<Longrightarrow> S_proc_make_task_namespace (Some p) n st = (err, s) \<Longrightarrow> proc_step st s"
| marks_exit: "p \<in> alive st \<Longrightarrow> S_proc_mark_exit (Some p) status sigcode infos st = (err, s) \<Longrightarrow> proc_step st s"
| marks_stop: "p \<in> alive st \<Longrightarrow> S_proc_mark_stop (Some p) signo sigcode st = (err, s) \<Longrightarrow> proc_step st s"
| marks_cont: "p \<in> alive st \<Longrightarrow> S_proc_mark_cont (Some p) st = (err, s) \<Longrightarrow> proc_step st s"

inductive proc_reach :: "pserver \<Rightarrow> bool" where
  boots: "boot self startup no_processes [Some i, Some x, Some g, Some u, Some p] = Some (st, o1) \<Longrightarrow> distinct [i, u, p] \<Longrightarrow> proc_reach st"
| steps: "proc_reach st \<Longrightarrow> proc_step st s \<Longrightarrow> proc_reach s"

lemma child_step:
  assumes i: "proc_inv {} st" and a: "a \<in> alive st" and r: "S_proc_child (Some a) childt [] st orc = Some (err, s, o1)"
    and l: "\<And>c. task_find_nocreate childt st = Some c \<Longrightarrow> session_find (p_pid (procs st c)) st = None"
  shows "proc_inv {} s"
proof (cases "task_find_nocreate childt st")
  case None
  then have "s = st" using r by (auto simp: S_proc_child_def task_find_def task_find_nocreate_def split: option.splits if_splits)
  then show ?thesis using i by simp
next
  case (Some c)
  then have c: "map_of (taskhash st) childt = Some c" by (auto simp: task_find_nocreate_def split: option.splits if_splits)
  have "p_pid (procs st c) \<notin> (\<lambda>s. s_sid (sessions st s)) ` set (session_heap st)"
    using l [OF Some] keyed_none [OF groupsD(4) [OF proc_invD(1) [OF i]]] by (simp add: session_find_def)
  then show ?thesis using c by (intro child_inv [OF i a r]) (auto simp: image_iff)
qed

lemma setpgrp_step:
  assumes i: "proc_inv {} st" and c: "c \<in> alive st" and r: "S_proc_setpgrp (Some c) pid pgid st orc = Some (err, s, o1)"
    and f: "\<And>j o'. alloc orc = (Some j, o') \<Longrightarrow> unat j \<notin> set (pgrp_heap st)"
  shows "proc_inv {} s"
proof -
  consider "s = st" | p n where "p \<in> set (proc_heap st)" "setpgrp_check c p n st = Success" "setpgrp_move p n st orc = Some (s, o1)"
  proof (cases "if pid \<noteq> 0 then pid_find pid st else Some c")
    case None
    then have "s = st" using r by (auto simp: S_proc_setpgrp_def)
    then show ?thesis using that by simp
  next
    case (Some p)
    then have "p \<in> set (proc_heap st)" using pids_find [OF proc_invD(3) [OF i], of pid p] c
      by (auto simp: pid_find_def pid_find_allow_zombie_def alive_def split: if_splits option.splits)
    then show ?thesis using r Some that by (auto simp: S_proc_setpgrp_def Let_def split: if_splits)
  qed
  then show ?thesis
  proof cases
    case (2 p n)
    then have "s_sid (sessions st (session_of st p)) \<noteq> p_pid (procs st p)" by (auto simp: setpgrp_check_def Let_def split: if_splits)
    then show ?thesis by (rule setpgrp_move_inv(1) [OF i 2(1) _ 2(3) f])
  qed (use i in simp)
qed

lemma flag_step:
  "S_proc_mark_exec pi st = (err, s) \<Longrightarrow> proc_inv X st \<Longrightarrow> proc_inv X s" "S_proc_mark_traced pi st = (err, s) \<Longrightarrow> proc_inv X st \<Longrightarrow> proc_inv X s"
  "S_proc_mod_stopchild pi v st = (err, s) \<Longrightarrow> proc_inv X st \<Longrightarrow> proc_inv X s" "S_proc_make_task_namespace pi n st = (err, s) \<Longrightarrow> proc_inv X st \<Longrightarrow> proc_inv X s"
  "S_proc_mark_exit pi status sigcode infos st = (err, s) \<Longrightarrow> proc_inv X st \<Longrightarrow> proc_inv X s"
  "S_proc_mark_stop pi signo sigcode st = (err, s) \<Longrightarrow> proc_inv X st \<Longrightarrow> proc_inv X s" "S_proc_mark_cont pi st = (err, s) \<Longrightarrow> proc_inv X st \<Longrightarrow> proc_inv X s"
  using flag_ops_struct stop_ops_struct same_struct_inv by (metis snd_conv)+

lemma proc_step_inv: "proc_step st s \<Longrightarrow> proc_inv {} st \<Longrightarrow> proc_inv {} s"
proof (induction rule: proc_step.induct)
  case (setsid p st orc err s o1)
  then have p: "p \<in> set (proc_heap st)" by (simp add: alive_def)
  show ?case
  proof (cases "err = Success")
    case True
    then show ?thesis using setsid_inv(1) [OF setsid.prems p _ setsid.hyps(3)] setsid.hyps(2) by simp
  next
    case False
    then have "s = st" using setsid.hyps(2) by (auto simp: S_proc_setsid_def split: if_splits option.splits)
    then show ?thesis using setsid.prems by simp
  qed
next
  case (reassigns p st newt orc err s o1)
  then have "map_of (taskhash st) newt \<noteq> Some (init_proc st)" using proc_invD(4) [OF reassigns.prems]
    by (auto simp: task_find_nocreate_def init_ok_def alive_def Let_def)
  then show ?case by (rule reassign_inv [OF reassigns.prems reassigns.hyps(1) _ reassigns.hyps(3)])
next
  case (sidport p st receive err n s)
  then have "same_struct st s" by (auto simp: S_proc_getsidport_def Let_def struct_defs split: if_splits sum.splits)
  then show ?case using same_struct_inv sidport.prems by blast
qed (blast intro: new_proc_inv(1) child_step setpgrp_step conjunct1 [OF exited_inv] wait_pass_inv flag_step)+

lemma proc_reach_inv: "proc_reach st \<Longrightarrow> proc_inv {} st"
  by (induction rule: proc_reach.induct) (blast intro: boot_inv proc_step_inv)+

section \<open>Examples\<close>

text \<open>The process server with the task 50 starts, and the task 52 becomes the process 15.\<close>

definition ex_booted :: pserver where
  "ex_booted = fst (the (boot 50 51 no_processes [Some 10, Some 11, Some 12, Some 13, Some 14]))"

definition ex_proc :: pserver where
  "ex_proc = fst (snd (the (new_proc 52 ex_booted [Some 15])))"

definition ex_view :: "pserver \<Rightarrow> nat list \<times> bool \<times> int \<times> int \<times> nat option \<times> nat list \<times> nat list \<times> nat option \<times> bool \<times> nat \<times> nat \<times> mach_port" where
  "ex_view s = (proc_heap s, p_dead (procs s 15), p_pid (procs s 15), pgid_of s 15, pgrp_find 3 s, session_heap s, pgrp_heap s, task_find_nocreate 52 s,
     p_parentset (procs s 15), p_parent (procs s 15), init_proc s, p_task_namespace (procs s 15))"

lemma ex_proc_eval: "ex_view ex_proc = ([15, 14, 13, 10], False, 3, 1, None, [11], [12], Some 15, False, 10, 10, 0)"
  by code_simp

lemma ex_proc_values:
  "15 \<in> alive ex_proc" "15 \<in> set (proc_heap ex_proc)" "p_pid (procs ex_proc 15) = 3" "pgid_of ex_proc 15 = 1" "pgrp_find 3 ex_proc = None" "session_heap ex_proc = [11]"
  "pgrp_heap ex_proc = [12]" "task_find_nocreate 52 ex_proc = Some 15" "\<not> p_parentset (procs ex_proc 15)" "p_parent (procs ex_proc 15) = init_proc ex_proc"
  "p_task_namespace (procs ex_proc 15) = 0" "init_proc ex_proc = 10"
  using ex_proc_eval by (simp_all add: ex_view_def alive_def)

lemma ex_proc_reach: "proc_reach ex_proc"
proof -
  have 1: "map_option snd (boot 50 51 no_processes [Some 10, Some 11, Some 12, Some 13, Some 14]) = Some []"
    "map_option (\<lambda>(p, s, o1). (p, o1)) (new_proc 52 ex_booted [Some 15]) = Some (Some 15, [])"
    "15 \<notin> set (proc_heap ex_booted)" by code_simp+
  have b: "boot 50 51 no_processes [Some 10, Some 11, Some 12, Some 13, Some 14] = Some (ex_booted, [])" using 1(1) by (auto simp: ex_booted_def)
  have "new_proc 52 ex_booted [Some 15] = Some (Some 15, ex_proc, [])" using 1(2) by (auto simp: ex_proc_def)
  from creates [OF this 1(3)] ex_proc_values(3) boots [OF b] show ?thesis by (auto intro: steps)
qed

section \<open>Consistency\<close>

lemma proc_tables_part:
  assumes i: "proc_inv {} st" and p: "p \<in> set (proc_heap st)"
  shows "p \<in> set (p_ochild (procs st (p_parent (procs st p))))" "p \<noteq> init_proc st \<Longrightarrow> pid_find_allow_zombie (p_pid (procs st p)) st = Some p"
proof -
  obtain H where H: "set (proc_heap st) - {init_proc st} \<subseteq> H" "keyed H (\<lambda>p. p_pid (procs st p)) (pidhash st)" using proc_invD(3) [OF i] by (auto simp: pids_def)
  show "p \<in> set (p_ochild (procs st (p_parent (procs st p))))" using tree_children [OF proc_invD(2) [OF i] tree_parent [OF proc_invD(2) [OF i] p]] p by simp
  show "p \<noteq> init_proc st \<Longrightarrow> pid_find_allow_zombie (p_pid (procs st p)) st = Some p" using keyed_find [OF H(2)] H(1) p by (auto simp: pid_find_allow_zombie_def)
qed

text \<open>
  C36. The structures of the process server agree, after any sequence of calls and deaths of tasks: every process is in the group it points to
  and among the children of its parent, which is alive, and the lists of members, groups and children have no strangers and no repetitions; the tables find every process (but \<^verbatim>\<open>init\<close>,
  which is entered when its task is known), group and session by its id, and nothing else; groups and sessions exist only while they have members. The runs are those of \<open>proc_step\<close>: additions to the
  hash tables succeed and memory for the group and the session of a moving process is granted (without it the code follows a null pointer); \<^verbatim>\<open>init\<close> does not die and its task is not reassigned or replaced
  by \<^verbatim>\<open>proc_set_init_task\<close>; a process that leads a session is not adopted; the id 2 is not given again; and a task that is named in a call is known (an unknown one is entered first, by the step that makes a process).
\<close>

theorem proc_tables_consistent:
  assumes "proc_reach st"
  shows "(\<forall>p \<in> set (proc_heap st). p_pgrp (procs st p) \<in> set (pgrp_heap st) \<and> p \<in> set (pg_plist (pgrps st (p_pgrp (procs st p)))) \<and>
      p_parent (procs st p) \<in> alive st \<and> p \<in> set (p_ochild (procs st (p_parent (procs st p)))) \<and>
      (p \<noteq> init_proc st \<longrightarrow> pid_find_allow_zombie (p_pid (procs st p)) st = Some p)) \<and>
    (\<forall>p \<in> alive st. distinct (p_ochild (procs st p)) \<and> (\<forall>c \<in> set (p_ochild (procs st p)). c \<in> set (proc_heap st) \<and> p_parent (procs st c) = p)) \<and>
    (\<forall>g \<in> set (pgrp_heap st). pg_plist (pgrps st g) \<noteq> [] \<and> distinct (pg_plist (pgrps st g)) \<and>
      (\<forall>p \<in> set (pg_plist (pgrps st g)). p \<in> set (proc_heap st) \<and> p_pgrp (procs st p) = g) \<and>
      pg_session (pgrps st g) \<in> set (session_heap st) \<and> g \<in> set (s_pgrps (sessions st (pg_session (pgrps st g))))) \<and>
    (\<forall>s \<in> set (session_heap st). s_pgrps (sessions st s) \<noteq> [] \<and> distinct (s_pgrps (sessions st s)) \<and>
      (\<forall>g \<in> set (s_pgrps (sessions st s)). g \<in> set (pgrp_heap st) \<and> pg_session (pgrps st g) = s)) \<and>
    (\<forall>pid p. pid_find_allow_zombie pid st = Some p \<longrightarrow> p \<in> set (proc_heap st) \<and> p_pid (procs st p) = pid) \<and>
    (\<forall>pgid g. pgrp_find pgid st = Some g \<longleftrightarrow> g \<in> set (pgrp_heap st) \<and> pg_pgid (pgrps st g) = pgid) \<and>
    (\<forall>sid s. session_find sid st = Some s \<longleftrightarrow> s \<in> set (session_heap st) \<and> s_sid (sessions st s) = sid)"
    (is "?procs \<and> ?children \<and> ?groups \<and> ?sessions \<and> ?pids \<and> ?pgids \<and> ?sids")
proof -
  have i: "proc_inv {} st" by (rule proc_reach_inv [OF assms])
  note g = groupsD [OF proc_invD(1) [OF i]] and tr = proc_invD(2) [OF i]
  have "?procs" using ownedD(1,2) [OF g(1)] tree_parent [OF tr] proc_tables_part [OF i] by auto
  moreover have "?children" using ownedD(2,3) [OF tr [unfolded tree_def]] by auto
  moreover have "?groups" using ownedD(2,3) [OF g(1)] ownedD(1,2) [OF g(2)] g(5) by auto
  moreover have "?sessions" using ownedD(2,3) [OF g(2)] g(6) by auto
  moreover have "?pids" using pids_find [OF proc_invD(3) [OF i]] by blast
  moreover have "?pgids" using keyed_find [OF g(3)] by (simp add: pgrp_find_def)
  moreover have "?sids" using keyed_find [OF g(4)] by (simp add: session_find_def)
  ultimately show ?thesis by blast
qed

theorem proc_tables_consistent_witness:
  "proc_reach ex_proc \<and> p_pgrp (procs ex_proc 15) \<in> set (pgrp_heap ex_proc) \<and> pid_find_allow_zombie 3 ex_proc = Some 15"
proof -
  have n: "15 \<noteq> init_proc ex_proc" using ex_proc_values(12) by simp
  from bspec [OF conjunct1 [OF proc_tables_consistent [OF ex_proc_reach]] ex_proc_values(2)] show ?thesis using n ex_proc_reach unfolding ex_proc_values(3) by blast
qed

section \<open>New sessions\<close>

lemma setsid_total:
  assumes i: "proc_inv {} st" and p: "p \<in> set (proc_heap st)" and n: "pgid_of st p \<noteq> p_pid (procs st p)" "pgrp_find (p_pid (procs st p)) st = None"
    and orc: "orc = Some j # Some k # o1" "unat j \<notin> set (session_heap st)" "unat k \<notin> set (pgrp_heap st)"
  obtains s where "S_proc_setsid (Some p) st orc = Some (Success, s, o1)" "\<And>s'. leave_pgrp p st = Some s' \<Longrightarrow> fresh_session s' orc"
proof -
  obtain s1 where s1: "leave_pgrp p st = Some s1" "left_pgrp (p_pgrp (procs st p)) st s1"
    by (rule leave_groups [OF proc_invD(1) [OF i] p]) simp_all
  obtain s where "boot_setsid p s1 orc = Some (s, o1)" by (simp add: boot_setsid_def new_session_def new_pgrp_def alloc_def orc(1) Let_def)
  then have "S_proc_setsid (Some p) st orc = Some (Success, s, o1)" using n s1(1) by (simp add: S_proc_setsid_def)
  moreover have "fresh_session s1 orc" using s1(2) orc by (auto simp: fresh_session_def left_pgrp_def alloc_def)
  ultimately show thesis using that s1(1) by simp
qed

text \<open>
  C37. A new session, in any state that the process server reaches (with the conditions of the runs above). A process that leads a group, or whose id is that of a group, is refused. Any other live process gets,
  when there is memory, a session and a group of its own, both with its id and with no other member; no other process changes its group or its session.
\<close>

theorem proc_setsid_effect:
  assumes "proc_reach st" and "p \<in> alive st" and "orc = Some j # Some k # o1" "unat j \<notin> set (session_heap st)" "unat k \<notin> set (pgrp_heap st)"
  shows "if pgid_of st p = p_pid (procs st p) \<or> pgrp_find (p_pid (procs st p)) st \<noteq> None then S_proc_setsid (Some p) st orc = Some (EPERM, st, orc)
    else \<exists>s. S_proc_setsid (Some p) st orc = Some (Success, s, o1) \<and>
      pgid_of s p = p_pid (procs st p) \<and> s_sid (sessions s (session_of s p)) = p_pid (procs st p) \<and>
      pg_plist (pgrps s (p_pgrp (procs s p))) = [p] \<and> s_pgrps (sessions s (session_of s p)) = [p_pgrp (procs s p)] \<and>
      (\<forall>q \<in> set (proc_heap st). q \<noteq> p \<longrightarrow> p_pgrp (procs s q) = p_pgrp (procs st q) \<and> pgid_of s q = pgid_of st q \<and>
         session_of s q = session_of st q \<and> s_sid (sessions s (session_of s q)) = s_sid (sessions st (session_of st q)))"
proof (cases "pgid_of st p = p_pid (procs st p) \<or> pgrp_find (p_pid (procs st p)) st \<noteq> None")
  case True
  then show ?thesis by (auto simp: S_proc_setsid_def)
next
  case False
  have i: "proc_inv {} st" and p: "p \<in> set (proc_heap st)" using proc_reach_inv [OF assms(1)] assms(2) by (simp_all add: alive_def)
  have n: "pgid_of st p \<noteq> p_pid (procs st p)" "pgrp_find (p_pid (procs st p)) st = None" using False by auto
  obtain s where s: "S_proc_setsid (Some p) st orc = Some (Success, s, o1)" "\<And>s'. leave_pgrp p st = Some s' \<Longrightarrow> fresh_session s' orc"
    by (rule setsid_total [OF i p n assms(3-5)]) blast
  note v = setsid_inv [OF i p s]
  have "\<forall>q \<in> set (proc_heap st). q \<noteq> p \<longrightarrow> p_pgrp (procs s q) = p_pgrp (procs st q) \<and> pgid_of s q = pgid_of st q \<and>
      session_of s q = session_of st q \<and> s_sid (sessions s (session_of s q)) = s_sid (sessions st (session_of st q))" using v(2) unfolding moved_def by metis
  then show ?thesis using False s(1) v(3-6) by auto
qed

theorem proc_setsid_effect_witness:
  "\<exists>s. S_proc_setsid (Some 15) ex_proc [Some 17, Some 18] = Some (Success, s, []) \<and> pgid_of s 15 = 3 \<and> pg_plist (pgrps s (p_pgrp (procs s 15))) = [15]"
proof -
  have "unat (17 :: u32) \<notin> set (session_heap ex_proc)" "unat (18 :: u32) \<notin> set (pgrp_heap ex_proc)" using ex_proc_values(6,7) by simp_all
  from proc_setsid_effect [OF ex_proc_reach ex_proc_values(1) refl this, of "[]"] show ?thesis using ex_proc_values(3-5) by auto
qed

section \<open>New ids\<close>

lemma pidfree_keys: "\<not> pidfree n st \<longleftrightarrow> n \<in> fst ` set (pidhash st) \<union> fst ` set (pghash st) \<union> fst ` set (sidhash st)"
  by (auto simp: pidfree_def pid_find_allow_zombie_def pgrp_find_def session_find_def map_of_eq_None_iff)

lemma skip_used_ends: "\<exists>m. skip_used limit n st = Some m"
proof (induction "card {k \<in> fst ` set (pidhash st) \<union> fst ` set (pghash st) \<union> fst ` set (sidhash st). n \<le> k}" arbitrary: n rule: less_induct)
  case less
  let ?K = "fst ` set (pidhash st) \<union> fst ` set (pghash st) \<union> fst ` set (sidhash st)"
  show ?case
  proof (cases "(case limit of None \<Rightarrow> True | Some w \<Rightarrow> n < w) \<and> \<not> pidfree n st")
    case True
    then have "n \<in> ?K" by (simp add: pidfree_keys)
    then have "n \<in> {k \<in> ?K. n \<le> k}" "n \<notin> {k \<in> ?K. n + 1 \<le> k}" "{k \<in> ?K. n + 1 \<le> k} \<subseteq> {k \<in> ?K. n \<le> k}" by auto
    then have "{k \<in> ?K. n + 1 \<le> k} \<subset> {k \<in> ?K. n \<le> k}" by blast
    then have "card {k \<in> ?K. n + 1 \<le> k} < card {k \<in> ?K. n \<le> k}" by (intro psubset_card_mono) auto
    from less [OF this] show ?thesis using True by (subst skip_used.simps) simp
  next
    case False
    then show ?thesis by (subst skip_used.simps) auto
  qed
qed

lemma double_wrap_ends: "0 < w \<Longrightarrow> \<exists>v. double_wrap n w = Some v \<and> n \<le> v"
proof (induction "nat (n - w)" arbitrary: w rule: less_induct)
  case less
  show ?case
  proof (cases "n > w")
    case True
    then have "nat (n - 2 * w) < nat (n - w)" "0 < 2 * w" using less.prems by simp_all
    from less(1) [OF this] show ?thesis using True by (subst double_wrap.simps) simp
  next
    case False
    then show ?thesis by (subst double_wrap.simps) simp
  qed
qed

text \<open>
  Allocation of ids ends: whatever processes, groups and sessions there are, \<open>genpid\<close> returns, with an id that none of them has,
  remembers the id after it, and has made the bound on ids large enough for it. (Ids are integers here; with the 32 bits of the code the search would overflow only
  with about \<open>2\<^sup>3\<^sup>1\<close> ids in use.)
\<close>

theorem proc_genpid_returns:
  assumes "0 < wrap st"
  shows "\<exists>pid s. genpid st = Some (pid, s) \<and> pidfree pid st \<and> nextpid s = pid + 1 \<and> pid \<le> wrap s \<and> 0 < wrap s"
proof -
  obtain n where n: "skip_used (Some (wrap st)) (nextpid st) st = Some n" using skip_used_ends by blast
  obtain m where m: "skip_used None START_OVER st = Some m" using skip_used_ends by blast
  obtain w where w: "double_wrap m (wrap st) = Some w" "m \<le> w" using double_wrap_ends [OF assms] by blast
  have "100 \<le> m" using skip_used_free [OF m] by simp
  show ?thesis
  proof (cases "n \<ge> wrap st")
    case True
    then have g: "genpid st = Some (m, st\<lparr>nextpid := m + 1, wrap := w\<rparr>)" using n m w by (simp add: genpid_def)
    then show ?thesis using genpid_free(1) [OF g] w(2) \<open>100 \<le> m\<close> by simp
  next
    case False
    then have g: "genpid st = Some (n, st\<lparr>nextpid := n + 1\<rparr>)" using n by (simp add: genpid_def)
    then show ?thesis using genpid_free(1) [OF g] False assms by simp
  qed
qed

theorem proc_genpid_returns_witness: "\<exists>pid s. genpid no_processes = Some (pid, s) \<and> pidfree pid no_processes \<and> nextpid s = pid + 1"
  using proc_genpid_returns [of no_processes] by (auto simp: no_processes_def)

section \<open>Waiting\<close>

lemma reap_result:
  assumes "reap opts c st = Some (Some r, s)"
  shows "reapable opts (procs st c)" "w_pid r = p_pid (procs st c)" "w_status r = p_status (procs st c)" "w_rusage r = p_rusage (procs st c)"
    "s = (if WNOWAIT \<in> opts then st else if p_dead (procs st c) then the (complete_exit c (upd_proc c (\<lambda>q. q\<lparr>p_waited := True\<rparr>) st)) else upd_proc c (\<lambda>q. q\<lparr>p_waited := True\<rparr>) st)"
    "WNOWAIT \<notin> opts \<Longrightarrow> p_dead (procs st c) \<Longrightarrow> complete_exit c (upd_proc c (\<lambda>q. q\<lparr>p_waited := True\<rparr>) st) = Some s"
    "w_sigcode r = p_sigcode (procs st c)"
  using assms by (auto simp: reap_def Let_def split: if_splits)

lemma reap_none: "reap opts c st = Some (None, s) \<Longrightarrow> s = st"
  by (auto simp: reap_def Let_def split: if_splits)

lemma wait_children_result:
  "wait_children opts pid mypgrp cs had st = Some (Some r, h, s) \<Longrightarrow>
    \<exists>c \<in> set cs. waiter_cares pid mypgrp (p_pid (procs st c)) (pgid_of st c) \<and> reap opts c st = Some (Some r, s)"
proof (induction opts pid mypgrp cs had st rule: wait_children.induct)
  case (2 opts pid mypgrp c cs had st)
  show ?case
  proof (cases "waiter_cares pid mypgrp (p_pid (procs st c)) (pgid_of st c)")
    case True
    then obtain y s1 where r: "reap opts c st = Some (y, s1)" using "2.prems" by (auto split: option.splits)
    show ?thesis
    proof (cases y)
      case None
      then have "wait_children opts pid mypgrp cs True st = Some (Some r, h, s)" using "2.prems" True r reap_none by fastforce
      then show ?thesis using "2.IH"(1) [OF True r refl] None r reap_none by fastforce
    next
      case (Some z)
      then show ?thesis using "2.prems" True r by auto
    qed
  next
    case False
    then show ?thesis using "2.IH"(2) [OF False] "2.prems" by simp
  qed
qed simp

lemma wait_children_silent:
  "wait_children opts pid mypgrp cs had st = Some (None, h, s) \<Longrightarrow> s = st \<and> (h \<longrightarrow> had \<or> (\<exists>c \<in> set cs. waiter_cares pid mypgrp (p_pid (procs st c)) (pgid_of st c))) \<and>
    (had \<longrightarrow> h) \<and> (\<forall>c \<in> set cs. waiter_cares pid mypgrp (p_pid (procs st c)) (pgid_of st c) \<longrightarrow> h \<and> \<not> reapable opts (procs st c))"
proof (induction opts pid mypgrp cs had st rule: wait_children.induct)
  case (2 opts pid mypgrp c cs had st)
  show ?case
  proof (cases "waiter_cares pid mypgrp (p_pid (procs st c)) (pgid_of st c)")
    case True
    then obtain s1 where r: "reap opts c st = Some (None, s1)" using "2.prems" by (auto split: option.splits)
    then have "\<not> reapable opts (procs st c)" "s1 = st" by (auto simp: reap_def Let_def split: if_splits)
    then show ?thesis using "2.IH"(1) [OF True r refl] "2.prems" True r by auto
  next
    case False
    then show ?thesis using "2.IH"(2) [OF False] "2.prems" by auto
  qed
qed simp

text \<open>The children a call asks for: the one with the id, if that is positive.\<close>

definition asked :: "nat \<Rightarrow> int \<Rightarrow> pserver \<Rightarrow> nat \<Rightarrow> bool" where
  "asked p pid st c \<longleftrightarrow> c \<in> set (proc_heap st) \<and> p_parent (procs st c) = p \<and>
     (if pid > 0 then p_pid (procs st c) = pid else waiter_cares pid (pgid_of st p) (p_pid (procs st c)) (pgid_of st c))"

lemma wait_pass_result:
  assumes i: "proc_inv {} st" and p: "p \<in> alive st" and r: "wait_pass p pid opts st = Some (Wait_Done (Inr r), s)"
  obtains c where "asked p pid st c" "reap opts c st = Some (Some r, s)"
proof (cases "pid > 0")
  case True
  then obtain c where c: "pid_find_allow_zombie pid st = Some c" "p_parent (procs st c) = p" "reap opts c st = Some (Some r, s)"
    using r by (auto simp: wait_pass_def Let_def split: if_splits option.splits)
  then show ?thesis using that [of c] True pids_find [OF proc_invD(3) [OF i] c(1)] by (simp add: asked_def)
next
  case False
  then obtain h where "wait_children opts pid (pgid_of st p) (p_ochild (procs st p)) (pid = 0) st = Some (Some r, h, s)"
    using r by (auto simp: wait_pass_def Let_def split: if_splits option.splits)
  from wait_children_result [OF this] obtain c where "c \<in> set (p_ochild (procs st p))" "waiter_cares pid (pgid_of st p) (p_pid (procs st c)) (pgid_of st c)"
    "reap opts c st = Some (Some r, s)" by blast
  then show ?thesis using that [of c] tree_children [OF proc_invD(2) [OF i] p] False by (auto simp: asked_def)
qed

lemma wait_pass_silent:
  assumes i: "proc_inv {} st" and p: "p \<in> alive st" and r: "wait_pass p pid opts st = Some (Wait_Done (Inl e), s)"
  shows "s = st" "e = EWOULDBLOCK \<and> WNOHANG \<in> opts \<or> e = ECHILD \<and> (\<forall>c. asked p pid st c \<longrightarrow> c = init_proc st)"
    "\<forall>c. asked p pid st c \<longrightarrow> c = init_proc st \<or> \<not> reapable opts (procs st c)"
proof -
  note tc = tree_children [OF proc_invD(2) [OF i] p]
  have "s = st \<and> (e = EWOULDBLOCK \<and> WNOHANG \<in> opts \<or> e = ECHILD \<and> (\<forall>c. asked p pid st c \<longrightarrow> c = init_proc st)) \<and>
    (\<forall>c. asked p pid st c \<longrightarrow> c = init_proc st \<or> \<not> reapable opts (procs st c))"
  proof (cases "p_ochild (procs st p) = []")
    case True
    then have "\<not> asked p pid st c" for c using tc by (auto simp: asked_def)
    then show ?thesis using True r by (auto simp: wait_pass_def)
  next
    case ne: False
    show ?thesis
    proof (cases "pid > 0")
      case True
      have f: "c = init_proc st \<or> pid_find_allow_zombie pid st = Some c \<and> p_parent (procs st c) = p" if "asked p pid st c" for c
        using that True proc_tables_part(2) [OF i, of c] by (auto simp: asked_def)
      then show ?thesis using r ne True by (fastforce simp: wait_pass_def reap_def Let_def split: if_splits option.splits)
    next
      case False
      then obtain h s1 where w: "wait_children opts pid (pgid_of st p) (p_ochild (procs st p)) (pid = 0) st = Some (None, h, s1)"
        and e: "(h \<and> WNOHANG \<in> opts \<and> e = EWOULDBLOCK \<or> \<not> h \<and> e = ECHILD) \<and> s = s1"
        using r ne by (auto simp: wait_pass_def Let_def split: if_splits option.splits)
      note v = wait_children_silent [OF w]
      have "h \<and> \<not> reapable opts (procs st c)" if "asked p pid st c" for c using that False v tc by (auto simp: asked_def)
      then show ?thesis using v e by blast
    qed
  qed
  then show "s = st" "e = EWOULDBLOCK \<and> WNOHANG \<in> opts \<or> e = ECHILD \<and> (\<forall>c. asked p pid st c \<longrightarrow> c = init_proc st)"
    "\<forall>c. asked p pid st c \<longrightarrow> c = init_proc st \<or> \<not> reapable opts (procs st c)" by blast+
qed

text \<open>What a call that reports something for the child \<open>c\<close> leaves.\<close>

lemma reap_effect:
  assumes i: "proc_inv {} st" and c: "c \<in> set (proc_heap st)" and r: "reap opts c st = Some (Some r, s)"
  shows "if WNOWAIT \<in> opts then s = st
     else if p_dead (procs st c) then set (proc_heap s) = set (proc_heap st) - {c} \<and> pid_find_allow_zombie (w_pid r) s = None
     else s = upd_proc c (\<lambda>q. q\<lparr>p_waited := True\<rparr>) st \<and> (\<forall>opts'. \<not> reapable opts' (procs s c))"
proof -
  note v = reap_result [OF r]
  have "set (proc_heap s) = set (proc_heap st) - {c} \<and> pid_find_allow_zombie (w_pid r) s = None" if d: "WNOWAIT \<notin> opts" "p_dead (procs st c)"
  proof -
    let ?st = "upd_proc c (\<lambda>q. q\<lparr>p_waited := True\<rparr>) st"
    have w: "proc_inv {} ?st" by (rule same_struct_inv [OF _ i]) (simp add: struct_defs)
    have n: "c \<in> set (proc_heap ?st)" "c \<noteq> init_proc ?st" using c proc_invD(4) [OF i] d(2) by (auto simp: init_ok_def alive_def Let_def)
    note e = complete_exit_inv [OF w n v(6) [OF d]]
    have h: "set (proc_heap s) = set (proc_heap st) - {c}" using e(2) by simp
    have "pid_find_allow_zombie (w_pid r) s = None"
    proof (rule ccontr)
      assume "pid_find_allow_zombie (w_pid r) s \<noteq> None"
      then obtain q where q: "q \<in> set (proc_heap s)" "p_pid (procs s q) = w_pid r" using pids_find [OF proc_invD(3) [OF e(1)]] by blast
      then have "p_pid (procs st q) = p_pid (procs st c)" "q \<in> set (proc_heap st)" "q \<noteq> c" using e(4) [of q] v(2) h by auto
      then show False using proc_invD(3) [OF i] c by (auto simp: pids_def inj_on_def)
    qed
    then show ?thesis using h by blast
  qed
  moreover have "\<forall>opts'. \<not> reapable opts' (procs (upd_proc c (\<lambda>q. q\<lparr>p_waited := True\<rparr>) st) c)" by (simp add: reapable_def)
  ultimately show ?thesis using v(5) by (cases "WNOWAIT \<in> opts"; cases "p_dead (procs st c)") simp_all
qed

lemma wait_pass_sleep: "wait_pass p pid opts st = Some (Wait_Sleep, s) \<Longrightarrow> p \<in> set (proc_heap st) \<Longrightarrow> p \<in> set (proc_heap s)"
  using reap_none wait_children_silent by (fastforce simp: wait_pass_def Let_def split: if_splits option.splits)

text \<open>A call ends interrupted, or with the result of a pass over some reachable state.\<close>

lemma waitid_last_pass:
  assumes "waitid_loop p pid opts ws st = Some (res, s)" "proc_reach st" "p \<in> alive st"
    and "\<forall>w \<in> set ws. \<forall>x. proc_reach x \<and> p \<in> set (proc_heap x) \<longrightarrow> proc_reach (fst w x) \<and> p \<in> set (proc_heap (fst w x))"
  shows "res = Inl EINTR \<or> res = Inl EOPNOTSUPP \<or> (\<exists>t. proc_reach t \<and> p \<in> alive t \<and> wait_pass p pid opts t = Some (Wait_Done res, s))"
  using assms
proof (induction ws arbitrary: st)
  case Nil
  then show ?case by (subst (asm) waitid_loop.simps) (auto split: option.splits wait_outcome.splits)
next
  case (Cons w ws)
  obtain x s1 where x: "wait_pass p pid opts st = Some (x, s1)" using Cons.prems(1) by (subst (asm) waitid_loop.simps) (auto split: option.splits)
  show ?case
  proof (cases x)
    case (Wait_Done r)
    then have "res = r" "s = s1" using Cons.prems(1) x by (subst (asm) waitid_loop.simps; simp)+
    then show ?thesis using Cons.prems(2,3) x Wait_Done by blast
  next
    case Wait_Sleep
    have "proc_reach s1" "p \<in> set (proc_heap s1)"
      using steps [OF Cons.prems(2) waits [OF Cons.prems(3) x]] wait_pass_sleep [OF x [unfolded Wait_Sleep]] Cons.prems(3) by (simp_all add: alive_def)
    then have s2: "proc_reach (fst w s1)" "p \<in> set (proc_heap (fst w s1))" using Cons.prems(4) by simp_all
    have l: "(if p_dead (procs (fst w s1) p) then Some (Inl EOPNOTSUPP, fst w s1) else if snd w then Some (Inl EINTR, fst w s1) else waitid_loop p pid opts ws (fst w s1)) = Some (res, s)"
      using Cons.prems(1) x Wait_Sleep by (subst (asm) waitid_loop.simps) (auto simp: Let_def split: prod.splits if_splits)
    show ?thesis using l s2 Cons.IH [of "fst w s1"] Cons.prems(4) by (auto simp: alive_def split: if_splits)
  qed
qed

text \<open>
  C38. Waiting. A call of \<open>S_proc_waitid\<close> by a live process, while others make any calls in between, ends interrupted, or because its process has died, or with the result of its last
  look at the children, at a state \<open>t\<close>. If it reports something, it is the state of a child that the caller asked for and that had not been reported yet: a call that is told not to wait for it
  changes nothing; a child that is alive is marked, so that it is not reported again before it stops or continues once more; a dead child is gone, and its id no longer finds anything. If it fails, nothing
  has changed and there was nothing to report: \<^verbatim>\<open>ECHILD\<close> says that the caller has no such child, \<^verbatim>\<open>EWOULDBLOCK\<close> comes only when asked for. (\<^verbatim>\<open>init\<close>, its own parent, is not found by its id.
  The structure of the caller is kept while its call is in progress.)
\<close>

theorem proc_wait_reports:
  assumes "proc_reach st" and "p \<in> alive st" and "S_proc_waitid (Some p) pid opts ws st = Some (res, s)"
    and "\<forall>w \<in> set ws. \<forall>x. proc_reach x \<and> p \<in> set (proc_heap x) \<longrightarrow> proc_reach (fst w x) \<and> p \<in> set (proc_heap (fst w x))"
  shows "res = Inl EINTR \<or> res = Inl EOPNOTSUPP \<or> (\<exists>t. proc_reach t \<and> p \<in> alive t \<and>
    (case res of
       Inr r \<Rightarrow> \<exists>c. asked p pid t c \<and> reapable opts (procs t c) \<and> w_pid r = p_pid (procs t c) \<and> w_status r = p_status (procs t c) \<and>
         w_sigcode r = p_sigcode (procs t c) \<and> w_rusage r = p_rusage (procs t c) \<and>
         (if WNOWAIT \<in> opts then s = t
          else if p_dead (procs t c) then set (proc_heap s) = set (proc_heap t) - {c} \<and> pid_find_allow_zombie (w_pid r) s = None
          else s = upd_proc c (\<lambda>q. q\<lparr>p_waited := True\<rparr>) t \<and> (\<forall>opts'. \<not> reapable opts' (procs s c)))
     | Inl e \<Rightarrow> s = t \<and> (e = EWOULDBLOCK \<and> WNOHANG \<in> opts \<or> e = ECHILD \<and> (\<forall>c. asked p pid t c \<longrightarrow> c = init_proc t)) \<and>
         (\<forall>c. asked p pid t c \<longrightarrow> c = init_proc t \<or> \<not> reapable opts (procs t c))))"
proof -
  have l: "waitid_loop p pid opts ws st = Some (res, s)" using assms(3) by (simp add: S_proc_waitid_def)
  consider "res = Inl EINTR \<or> res = Inl EOPNOTSUPP" | t where "proc_reach t" "p \<in> alive t" "wait_pass p pid opts t = Some (Wait_Done res, s)"
    using waitid_last_pass [OF l assms(1,2,4)] by blast
  then show ?thesis
  proof cases
    case (2 t)
    have i: "proc_inv {} t" by (rule proc_reach_inv [OF 2(1)])
    show ?thesis
    proof (cases res)
      case (Inl e)
      note v = wait_pass_silent [OF i 2(2) 2(3) [unfolded Inl]]
      show ?thesis by (intro disjI2 exI [of _ t] conjI 2(1,2)) (simp add: Inl v)
    next
      case (Inr r)
      obtain c where c: "asked p pid t c" "reap opts c t = Some (Some r, s)" by (rule wait_pass_result [OF i 2(2) 2(3) [unfolded Inr]])
      have h: "c \<in> set (proc_heap t)" using c(1) by (simp add: asked_def)
      show ?thesis unfolding Inr sum.case
        by (intro disjI2 exI [of _ t] exI [of _ c] conjI 2(1,2) c(1) reap_result(1-4,7) [OF c(2)] reap_effect [OF i h c(2)])
    qed
  qed blast
qed

text \<open>The process 15 has stopped; \<^verbatim>\<open>init\<close> waits for it.\<close>

definition ex_stopped :: pserver where
  "ex_stopped = snd (S_proc_mark_stop (Some 15) 20 0 ex_proc)"

lemma ex_stopped_fields: "procs ex_stopped 15 = (procs ex_proc 15)\<lparr>p_stopped := True, p_continued := False, p_status := 256 * 20 + 127, p_sigcode := 0, p_waited := False\<rparr>"
  "p_dead (procs ex_stopped 10) = p_dead (procs ex_proc 10)" "proc_heap ex_stopped = proc_heap ex_proc" "pidhash ex_stopped = pidhash ex_proc"
  "p_ochild (procs ex_stopped 10) = p_ochild (procs ex_proc 10)"
  using ex_proc_values(10,12) by (simp_all add: ex_stopped_def S_proc_mark_stop_def tell_parent_def wake_waiting_def send_signal_def say_def Let_def)

lemma ex_wait: "wait_pass 10 3 {WUNTRACED} ex_stopped = Some (Wait_Done (Inr \<lparr>w_status = 5247, w_sigcode = 0, w_rusage = p_rusage (procs ex_proc 15), w_pid = 3\<rparr>),
    upd_proc 15 (\<lambda>q. q\<lparr>p_waited := True\<rparr>) ex_stopped)"
proof -
  have i: "15 \<in> set (p_ochild (procs ex_proc 10))" "pid_find_allow_zombie 3 ex_proc = Some 15"
    using proc_tables_part [OF proc_reach_inv [OF ex_proc_reach] ex_proc_values(2)] ex_proc_values(3,10,12) by auto
  have "\<not> p_dead (procs ex_proc 15)" using ex_proc_values(1) by (simp add: alive_def)
  moreover have "p_ochild (procs ex_stopped 10) \<noteq> []" using i(1) ex_stopped_fields(5) by auto
  moreover have "pid_find_allow_zombie 3 ex_stopped = Some 15" using i(2) ex_stopped_fields(4) by (simp add: pid_find_allow_zombie_def)
  ultimately show ?thesis using ex_proc_values(3,10,12) by (simp add: wait_pass_def reap_def reapable_def ex_stopped_fields(1) Let_def)
qed

theorem proc_wait_reports_witness:
  "\<exists>r s. S_proc_waitid (Some 10) 3 {WUNTRACED} [(id, True)] ex_stopped = Some (Inr r, s) \<and> w_status r = 5247 \<and>
    (\<exists>t c. proc_reach t \<and> asked 10 3 t c \<and> w_status r = p_status (procs t c) \<and> (\<forall>opts. \<not> reapable opts (procs s c)))"
proof -
  have "S_proc_mark_stop (Some 15) 20 0 ex_proc = (Success, ex_stopped)" by (simp add: ex_stopped_def S_proc_mark_stop_def)
  from steps [OF ex_proc_reach marks_stop [OF ex_proc_values(1) this]] have r: "proc_reach ex_stopped" .
  have "10 \<in> alive ex_proc" using proc_invD(4) [OF proc_reach_inv [OF ex_proc_reach]] ex_proc_values(12) by (simp add: init_ok_def Let_def)
  then have a: "10 \<in> alive ex_stopped" using ex_stopped_fields(2,3) by (simp add: alive_def)
  define x where "x = \<lparr>w_status = 5247, w_sigcode = 0, w_rusage = p_rusage (procs ex_proc 15), w_pid = 3\<rparr>"
  define s where "s = upd_proc 15 (\<lambda>q. q\<lparr>p_waited := True\<rparr>) ex_stopped"
  have w: "S_proc_waitid (Some 10) 3 {WUNTRACED} [(id, True)] ex_stopped = Some (Inr x, s)"
    unfolding S_proc_waitid_def option.case by (subst waitid_loop.simps) (simp add: ex_wait x_def s_def)
  obtain t c where t: "proc_reach t" "asked 10 3 t c" "w_status x = p_status (procs t c)"
    "if p_dead (procs t c) then set (proc_heap s) = set (proc_heap t) - {c} \<and> pid_find_allow_zombie (w_pid x) s = None
     else s = upd_proc c (\<lambda>q. q\<lparr>p_waited := True\<rparr>) t \<and> (\<forall>opts'. \<not> reapable opts' (procs s c))"
    using proc_wait_reports [OF r a w] by auto
  have "pid_find_allow_zombie 3 s = Some 15" using ex_stopped_fields(4) proc_tables_part(2) [OF proc_reach_inv [OF ex_proc_reach] ex_proc_values(2)] ex_proc_values(3,12)
    by (simp add: s_def pid_find_allow_zombie_def)
  then have "\<forall>opts'. \<not> reapable opts' (procs s c)" using t(4) by (auto simp: x_def split: if_splits)
  moreover have "w_status x = 5247" by (simp add: x_def)
  ultimately show ?thesis using w t(1-3) by blast
qed

section \<open>Namespaces\<close>

lemma root_hangs: "namespace_find_root p st = Some r \<Longrightarrow> \<not> (p_parent (procs st p) = p \<and> valid_port (p_task_namespace (procs st p)))"
proof (rule namespace_find_root.raw_induct [where P = "\<lambda>p st r. \<not> (p_parent (procs st p) = p \<and> valid_port (p_task_namespace (procs st p)))"])
  fix find p st r
  assume i: "\<And>p st r. find p st = Some r \<Longrightarrow> \<not> (p_parent (procs st p) = p \<and> valid_port (p_task_namespace (procs st p)))"
    and b: "(let a = p_parent (procs st p) in if valid_port (p_task_namespace (procs st a)) then find a st else Some p) = Some r"
  show "\<not> (p_parent (procs st p) = p \<and> valid_port (p_task_namespace (procs st p)))" 
  proof
    assume a: "p_parent (procs st p) = p \<and> valid_port (p_task_namespace (procs st p))"
    then have "find p st = Some r" using b unfolding Let_def by simp
    then show False using i a by blast
  qed
qed

lemma namespace_kept:
  "p_task_namespace (procs (alert_parent q st) p) = p_task_namespace (procs st p)" "p_task_namespace (procs (check_message_dying q st) p) = p_task_namespace (procs st p)"
  by (auto simp: alert_parent_def check_message_dying_def wake_waiting_def send_signal_def say_def Let_def)

lemma namespace_fold:
  assumes "\<And>q s. p_task_namespace (procs (f q s) p) = p_task_namespace (procs s p)"
  shows "p_task_namespace (procs (fold (\<lambda>(_, q) s. if p_dead (procs s q) then s else f q s) xs st) p) = p_task_namespace (procs st p)"
  by (induction xs arbitrary: st) (auto simp: assms)

text \<open>The end of a process that is its own parent and has made a namespace.\<close>

lemma own_parent_exit:
  assumes p: "p_parent (procs st p) = p" "valid_port (p_task_namespace (procs st p))" "p_ochild (procs st p) \<noteq> []" "\<not> p_dead (procs st p)"
  shows "process_has_exited p st = None"
proof -
  define st1 where "st1 = upd_proc p (\<lambda>q. q\<lparr>p_waited := False\<rparr>) st"
  define st2 where "st2 = (if p_task (procs st1 p) \<noteq> 0 then alert_parent p st1 else st1)"
  define st3 where "st3 = upd_proc p (\<lambda>q. q\<lparr>p_msgport := 0\<rparr>) st2"
  define st4 where "st4 = prociterate check_message_dying st3"
  have "same_struct st st1" by (simp add: st1_def struct_defs)
  also have "same_struct st1 st2" using alert_struct by (simp add: st2_def)
  also have "same_struct st2 st3" by (simp add: st3_def struct_defs)
  also have "same_struct st3 st4" unfolding st4_def by (rule iterate_struct) (rule dying_struct)
  finally have e: "p_parent (procs st4 p) = p" "p_ochild (procs st4 p) \<noteq> []" using p by (simp_all add: struct_defs)
  have "p_task_namespace (procs st4 p) = p_task_namespace (procs st3 p)" unfolding st4_def prociterate_def by (rule namespace_fold) (rule namespace_kept(2))
  also have "\<dots> = p_task_namespace (procs st p)" by (simp add: st3_def st2_def st1_def namespace_kept)
  finally have n: "valid_port (p_task_namespace (procs st4 p))" using p(2) by simp
  have "namespace_find_root p st4 = None" using root_hangs [of p st4] e(1) n by (cases "namespace_find_root p st4") auto
  then have "new_parent p st4 = None" using n by (simp add: new_parent_def)
  then show ?thesis using p(4) e(2) unfolding process_has_exited_def Let_def st1_def [symmetric] st2_def [symmetric] st3_def [symmetric] st4_def [symmetric] by simp
qed

text \<open>
  C39. A process that adopts itself. Nothing in \<open>S_proc_child\<close> keeps a process whose parent is not set from naming its own task: it becomes its own parent. If it then
  makes a task namespace, and dies, the search for the root of the namespace goes round for ever, with the global lock held. (The process server itself answers no more calls.)
\<close>

theorem proc_child_self_hangs:
  assumes "task_find_nocreate task st = Some p" "\<not> p_parentset (procs st p)" "p_parent (procs st p) = init_proc st"
    and "\<not> valid_port (p_task_namespace (procs st p))" "valid_port notify"
  shows "\<exists>s s'. S_proc_child (Some p) task [] st orc = Some (Success, s, orc) \<and> S_proc_make_task_namespace (Some p) notify s = (Success, s') \<and>
    namespace_find_root p s' = None \<and> process_has_exited p s' = None"
proof -
  have t: "map_of (taskhash st) task = Some p" "\<not> p_dead (procs st p)" using assms(1) by (auto simp: task_find_nocreate_def split: option.splits if_splits)
  define s1 where "s1 = newids (pg_pgid (pgrps st (p_pgrp (procs st p)))) (pg_orphcnt (pgrps st (p_pgrp (procs st p))) = 0) p (adopt p p st)"
  obtain ps where a: "adopt p p st = st\<lparr>procs := ps\<rparr>" using adopt_values(8) by blast
  have i: "inherit_pgrp p p (adopt p p st) = Some s1" using adopt_values(5) [of p p st] by (simp add: inherit_pgrp_def s1_def a Let_def)
  have q: "procs s1 = procs (adopt p p st)" by (simp add: s1_def newids_def say_def Let_def)
  define s where "s = mark_child p p s1"
  have c: "S_proc_child (Some p) task [] st orc = Some (Success, s, orc)" using assms(2,3) t i by (simp add: S_proc_child_def task_find_def s_def)
  have n: "p_task_namespace (procs s p) = p_task_namespace (procs st p)" using assms(4) adopt_values(7) [of p p st] by (simp add: s_def mark_child_def q)
  define s' where "s' = upd_proc p (\<lambda>q. q\<lparr>p_task_namespace := notify\<rparr>) s"
  have m: "S_proc_make_task_namespace (Some p) notify s = (Success, s')" using n assms(4,5) by (simp add: S_proc_make_task_namespace_def s'_def)
  have v: "p_parent (procs s' p) = p" "valid_port (p_task_namespace (procs s' p))" "p_ochild (procs s' p) \<noteq> []" "\<not> p_dead (procs s' p)"
    using adopt_values(1,2,4) [of p p st] t(2) assms(5) by (simp_all add: s'_def s_def mark_child_def q)
  have "namespace_find_root p s' = None" using root_hangs [of p s'] v(1,2) by (cases "namespace_find_root p s'") auto
  then show ?thesis using c m own_parent_exit [OF v] by blast
qed

theorem proc_child_self_hangs_witness:
  "\<exists>s s'. S_proc_child (Some 15) 52 [] ex_proc [] = Some (Success, s, []) \<and> S_proc_make_task_namespace (Some 15) 70 s = (Success, s') \<and>
    namespace_find_root 15 s' = None \<and> process_has_exited 15 s' = None"
  using proc_child_self_hangs [OF ex_proc_values(8-10), of 70 "[]"] ex_proc_values(11) by simp

end
