(* ===== verification/Spec2Isabelle.thy ===== *)
theory Spec2Isabelle
  imports Ihash_Props Idvec_Props Fshelp_Perms Fshelp_Lock_Props Rlock_Unlock Pipe_Transfer Bpf_Set_Props
    Ports_Rpc_Props Ports_Notify_Props Ports_Manage_Props Auth_Rendezvous Proc_Props
begin

text \<open>
  A verification development for the libraries the servers of the Hurd are built from.

  \<^bold>\<open>The program.\<close> The repository holds the GNU Hurd: servers (file systems, the
  process, authentication and exec servers, the network stack) which are linked with
  libraries that carry the logic the servers share. The development models those
  libraries. A request reaches a server through a port; the server finds the object of the port in a hash
  table (\<^verbatim>\<open>src/libihash\<close>); the object refers to a user, a pair of vectors of ids
  (\<^verbatim>\<open>src/libiohelp\<close> on \<^verbatim>\<open>src/libshouldbeinlibc/idvec.c\<close>); file system servers check the user against the mode
  of a file and keep its locks (\<^verbatim>\<open>src/libfshelp\<close>); the server for pipes and local sockets moves
  data through queues of packets (\<^verbatim>\<open>src/libpipe\<close>); network servers select packets with filter
  programs (\<^verbatim>\<open>src/libbpf\<close>).

  \<^bold>\<open>Theories.\<close>

  \<^item> \<open>Hurd_Prelude\<close>: error codes, the oracle for memory allocation, \<^verbatim>\<open>memmove\<close> and its
  relatives on lists of cells, lemmas on lists and words.

  \<^item> \<open>Idvec\<close>, \<open>Idvec_Props\<close>: \<^verbatim>\<open>idvec.c\<close> and the inline functions of \<^verbatim>\<open>idvec.h\<close>. The vector is a record of the
  array (with its spare cells), the count and the capacity; the operations move cells in place. They are
  shown to refine operations on the list of ids. The locale \<open>id_vector\<close> states what the users of
  a vector rely on and is interpreted on \<open>idvec_add\<close> and \<open>idvec_contains\<close>.

  \<^item> \<open>Ihash\<close>, \<open>Ihash_Correct\<close>, \<open>Ihash_Props\<close>: \<^verbatim>\<open>ihash.c\<close> and \<^verbatim>\<open>ihash.h\<close>, open addressing with linear probing,
  tombstones, the load computed with shifts and rehashing into a table of twice the size. The
  invariant is that every item can be found from its hash; lookups are those of a map. The locale
  \<open>port_table\<close> is the contract with the clients that key tables by port names.

  \<^item> \<open>Iohelp\<close>: \<^verbatim>\<open>iouser-create.c\<close>, \<^verbatim>\<open>iouser-dup.c\<close>, \<^verbatim>\<open>iouser-restrict.c\<close>, \<^verbatim>\<open>iouser-reauth.c\<close>. The
  reply of the authentication server is a parameter.

  \<^item> \<open>Fshelp_Perms\<close>: \<^verbatim>\<open>perms-*.c\<close> on 32 bit modes.

  \<^item> \<open>Fshelp_Lock\<close>, \<open>Fshelp_Lock_Props\<close>: locks on whole files (\<^verbatim>\<open>lock-acquire.c\<close>). Waiting splits the
  function into atomic steps; the properties are about all interleavings of requests of any
  number of open files, by induction on an inductive relation.

  \<^item> \<open>Rlock\<close>, \<open>Rlock_Props\<close>, \<open>Rlock_Merge\<close>, \<open>Rlock_Tweak\<close>, \<open>Rlock_Unlock\<close>: record locks (\<^verbatim>\<open>rlock-tweak.c\<close>, \<^verbatim>\<open>rlock-status.c\<close>,
  \<^verbatim>\<open>rlock-drop-peropen.c\<close>, \<^verbatim>\<open>rlock.h\<close>). The locks are in a store, on the list of their open file and
  on that of the node. \<open>Rlock_Props\<close> gives the meaning of a list of locks byte by byte and of merging on lists,
  \<open>Rlock_Merge\<close> shows that the loop over the linked lists computes it, \<open>Rlock_Tweak\<close> and \<open>Rlock_Unlock\<close>
  draw the conclusions for requests.

  \<^item> \<open>Pq\<close>, \<open>Pq_Props\<close>: packets and packet queues (\<^verbatim>\<open>pq.c\<close>, \<^verbatim>\<open>pq.h\<close>): a packet is a buffer with two
  offsets; buffers are moved, extended, reallocated, and given away page by page.

  \<^item> \<open>Pipe\<close>, \<open>Pipe_Props\<close>, \<open>Pipe_Transfer\<close>: \<^verbatim>\<open>pipe.c\<close>, \<^verbatim>\<open>pipe.h\<close> and the classes \<^verbatim>\<open>stream.c\<close>, \<^verbatim>\<open>dgram.c\<close>, \<^verbatim>\<open>seqpack.c\<close>.
  The locale \<open>byte_class\<close> is what the pipe code relies on from a class.

  \<^item> \<open>Bpf\<close>, \<open>Bpf_Props\<close>: the interpreter and the validator of filter programs (\<^verbatim>\<open>bpf_impl.c\<close>) on 32
  bit words. \<open>Bpf_Filter\<close>, \<open>Bpf_Filter_Props\<close>, \<open>Bpf_Set_Props\<close>: the lists of filters of an interface, with their
  flags and reference counts, and the hash tables of entries with rings.

  \<^bold>\<open>Conventions.\<close> An operation takes the state and returns the new state; a failed assertion,
  a dereferenced null pointer and an access outside an array are \<open>None\<close>. Memory is granted or refused by an
  oracle, a list of outcomes, so that every ENOMEM path is a branch. A
  wait is resolved by a list of outcomes too (woken after the state has been changed by
  others, timed out, interrupted); when the list is used up the operation is still
  waiting, which is \<open>None\<close>. The interpreter of filters has fuel; for an accepted program as many steps as it has
  instructions are enough, which is proved. All other loops are structural or have a termination proof.
  Properties that an operation returns are stated as such.

  \<^bold>\<open>Properties.\<close> C1 to C7 are about hash tables, C8 to C12 about vectors of ids, C13 and C14 about users, C15
  and C16 about permissions, C17 to C21 about locks on files, C22 to C24 about record
  locks, C25 and C26 about packets, C27 to C33 about pipes, C34 to C39 about packet filters, and C40, in this theory, spans
  users and permissions. Where the code does not do what it should the property states
  what it does: C4, C6, C20, C21, C23, C32, C33, C35 and C39.

  \<^bold>\<open>Not modelled.\<close> Servers and libraries whose work is sending messages, paging or device access
  (\<^verbatim>\<open>ext2fs\<close>, \<^verbatim>\<open>fatfs\<close>, \<^verbatim>\<open>isofs\<close>, \<^verbatim>\<open>proc\<close>, \<^verbatim>\<open>exec\<close>, \<^verbatim>\<open>auth\<close>, \<^verbatim>\<open>term\<close>, \<^verbatim>\<open>pfinet\<close>, \<^verbatim>\<open>pflocal\<close>, \<^verbatim>\<open>libdiskfs\<close>, \<^verbatim>\<open>libnetfs\<close>,
  \<^verbatim>\<open>libtrivfs\<close>, \<^verbatim>\<open>libports\<close>, \<^verbatim>\<open>libpager\<close>, \<^verbatim>\<open>libstore\<close>); the translator start up and the argument vectors of
  \<^verbatim>\<open>libfshelp\<close>; the locking and condition primitives themselves; kernels, C libraries, shells and drivers under \<^verbatim>\<open>external\<close>; generated bindings.
\<close>

section \<open>Users and files\<close>

text \<open>
  C40. Restriction and ownership. When a user who is not root is restricted to some of
  its ids, the new user owns no file and controls no file that the old one does not own or control.
\<close>

theorem restrict_iouser_isowner:
  assumes "iouser_wf old" "num (uids old) \<le> 2 ^ 31" "num (gids old) \<le> 2 ^ 31"
    and "nuids \<le> length us" "ngids \<le> length gs" "length us < 2 ^ 32" "length gs < 2 ^ 32"
    and "\<not> idvec_contains (uids old) 0" "iohelp_restrict_iouser old us nuids gs ngids orc = (Success, User u, orc')"
  shows "(fshelp_isowner st u = Success \<longrightarrow> fshelp_isowner st old = Success) \<and>
    (fshelp_iscontroller euid st u = Success \<longrightarrow> fshelp_iscontroller euid st old = Success)"
proof -
  have wf: "idvec_wf (uids old)" "idvec_wf (gids old)" using assms(1) by (simp_all add: iouser_wf_def)
  have "0 \<notin> user_uids old" using assms(8) wf by simp
  then have u: "idvec_wf (uids u)" "idvec_wf (gids u)" "user_uids u \<subseteq> user_uids old" "user_gids u \<subseteq> user_gids old"
    using restrict_iouser_cases [OF wf assms(2-7), of orc] assms(9) by auto
  then show ?thesis
    using wf by (auto simp: fshelp_isowner_def fshelp_iscontroller_def subset_iff split: if_splits)
qed

lemma ex_add: "idvec_add idvec_init x [] = (Success, \<lparr>ids = [x], num = 1, alloced = 1\<rparr>, [])"
  by (simp add: idvec_add_def idvec_insert_def idvec_ensure_def Let_def idvec_init_def alloc_def u32_wrap_def)

lemma restricted:
  "\<exists>u orc'. iohelp_restrict_iouser example_user [1001] 1 [100] 1 [] = (Success, User u, orc') \<and>
    fshelp_isowner \<lparr>st_mode = 0, st_uid = 1001, st_gid = 5\<rparr> u = Success"
proof -
  have c: "\<not> idvec_contains (uids example_user) 0" using example_user_wf by (simp add: example_user_def idvec_list_def)
  have i: "make_idvecs [] = (Some (idvec_init, idvec_init), [])"
    by (simp add: make_idvecs_def make_idvec_def alloc_def idvec_init_def)
  have u: "take (num (uids example_user)) (ids (uids example_user)) = [1000, 1001]"
    "take (num (gids example_user)) (ids (gids example_user)) = [100]" by (simp_all add: example_user_def)
  have w: "idvec_wf \<lparr>ids = [1001], num = 1, alloced = 1\<rparr>" by (simp add: idvec_wf_def)
  show ?thesis using w unfolding iohelp_restrict_iouser_def if_not_P [OF c] i u
    by (simp add: listmember_def ex_add iohelp_create_iouser_def alloc_def fshelp_isowner_def idvec_list_def)
qed

theorem restrict_iouser_isowner_witness:
  "\<exists>u orc'. iohelp_restrict_iouser example_user [1001] 1 [100] 1 [] = (Success, User u, orc') \<and>
    fshelp_isowner \<lparr>st_mode = 0, st_uid = 1001, st_gid = 5\<rparr> u = Success \<and>
    fshelp_isowner \<lparr>st_mode = 0, st_uid = 1001, st_gid = 5\<rparr> example_user = Success"
proof -
  have 1: "iouser_wf example_user" "num (uids example_user) \<le> 2 ^ 31" "num (gids example_user) \<le> 2 ^ 31"
    "1 \<le> length [1001 :: uid]" "1 \<le> length [100 :: uid]" "length [1001 :: uid] < 2 ^ 32" "length [100 :: uid] < 2 ^ 32"
    "\<not> idvec_contains (uids example_user) 0"
    using example_user_wf by (simp_all add: iouser_wf_def, simp add: example_user_def idvec_list_def)
  obtain u orc' where u: "iohelp_restrict_iouser example_user [1001] 1 [100] 1 [] = (Success, User u, orc')"
    "fshelp_isowner \<lparr>st_mode = 0, st_uid = 1001, st_gid = 5\<rparr> u = Success"
    using restricted by blast
  from restrict_iouser_isowner [OF 1 u(1)] u show ?thesis by blast
qed

end
